(* ===== verification/Prelude.thy ===== *)
theory Prelude
  imports Complex_Main "HOL-Library.AList" "HOL-Library.Sublist" "HOL-Library.Multiset"
begin

text \<open>
  What the components share: the types that stand for Python's values, Python's slices and
  insertion-ordered dictionaries, generic lemmas about them, and the development's fact
  collections.  Text is \<open>string\<close> (ASCII text, one \<open>char\<close> per code point), integers are \<open>int\<close>,
  clock readings and other floats are exact reals, an exception is the left side of a sum.
\<close>

named_theorems ops \<open>definitions of a component's operations, unfolded together\<close>
named_theorems inv_defs \<open>definitions of invariants\<close>

type_synonym time = real

subsection \<open>Slices\<close>

text \<open>\<open>xs[-n:]\<close> for a positive \<open>n\<close>, and \<open>xs[:n]\<close>.\<close>

definition py_last :: "nat \<Rightarrow> 'a list \<Rightarrow> 'a list" where
  "py_last n xs = drop (length xs - n) xs"

lemma length_py_last [simp]: "length (py_last n xs) = min n (length xs)"
  by (simp add: py_last_def)

lemma set_py_last: "set (py_last n xs) \<subseteq> set xs"
  by (simp add: py_last_def set_drop_subset)

lemma py_last_append: "n \<le> length ys \<Longrightarrow> py_last n (xs @ ys) = py_last n ys"
  by (simp add: py_last_def)

lemma py_last_all [simp]: "length xs \<le> n \<Longrightarrow> py_last n xs = xs"
  by (simp add: py_last_def)

text \<open>\<open>xs[-n:]\<close> for any \<open>n \<ge> 0\<close>: \<open>xs[-0:]\<close> is the whole list.\<close>

definition py_tail :: "nat \<Rightarrow> 'a list \<Rightarrow> 'a list" where
  "py_tail n xs = (if n = 0 then xs else py_last n xs)"

lemma suffix_py_last: "suffix (py_last n xs) xs"
  by (simp add: py_last_def suffix_drop)

subsection \<open>Text\<close>

text \<open>\<open>str.lower\<close> on one ASCII character.\<close>

definition lower_char :: "char \<Rightarrow> char" where
  "lower_char c = (let n = of_char c :: nat in if 65 \<le> n \<and> n \<le> 90 then char_of (n + 32) else c)"

text \<open>The decimal text of a natural number.\<close>

fun show_nat :: "nat \<Rightarrow> string" where
  "show_nat n = (if n < 10 then [char_of (48 + n)] else show_nat (n div 10) @ [char_of (48 + n mod 10)])"

declare show_nat.simps [simp del]

lemma show_nat_nonempty [simp]: "show_nat n \<noteq> []"
  by (simp add: show_nat.simps [of n])

subsection \<open>Rounding\<close>

text \<open>\<open>round(x)\<close>: to the nearest integer, to the even one of two.\<close>

definition py_round :: "real \<Rightarrow> int" where
  "py_round x =
     (let n = \<lfloor>x\<rfloor>; d = x - real_of_int n
      in if d < 1 / 2 then n else if d > 1 / 2 then n + 1 else if even n then n else n + 1)"

lemma py_round_range: "0 \<le> x \<Longrightarrow> x \<le> of_int k \<Longrightarrow> 0 \<le> py_round x \<and> py_round x \<le> k"
proof -
  assume x: "0 \<le> x" "x \<le> of_int k"
  have "0 \<le> \<lfloor>x\<rfloor>" "\<lfloor>x\<rfloor> \<le> k" using x by (simp_all add: floor_le_iff)
  show ?thesis
  proof (cases "\<lfloor>x\<rfloor> = k")
    case True
    hence "x - real_of_int \<lfloor>x\<rfloor> = 0" using x by linarith
    thus ?thesis using \<open>0 \<le> \<lfloor>x\<rfloor>\<close> True by (simp add: py_round_def Let_def)
  next
    case False
    hence "\<lfloor>x\<rfloor> + 1 \<le> k" using \<open>\<lfloor>x\<rfloor> \<le> k\<close> by simp
    thus ?thesis using \<open>0 \<le> \<lfloor>x\<rfloor>\<close> by (auto simp: py_round_def Let_def)
  qed
qed

subsection \<open>Truthiness of optional strings\<close>

definition truthy :: "string option \<Rightarrow> bool" where
  "truthy s = (case s of None \<Rightarrow> False | Some x \<Rightarrow> x \<noteq> [])"

lemma truthy_simps [simp]: "truthy None = False" "truthy (Some x) = (x \<noteq> [])"
  by (simp_all add: truthy_def)

lemma truthy_iff: "truthy s \<longleftrightarrow> (\<exists>x. s = Some x \<and> x \<noteq> [])"
  by (cases s) simp_all

subsection \<open>Insertion-ordered dictionaries\<close>

text \<open>
  A Python dict is an association list with distinct keys.  \<open>AList.update\<close> overwrites the value
  of a present key in place and appends a new key at the end, as assignment does;
  \<open>AList.delete\<close> is \<open>pop(k, None)\<close>.
\<close>

definition dict_ok :: "('k \<times> 'v) list \<Rightarrow> bool" where
  "dict_ok d = distinct (map fst d)"

lemma dict_ok_Nil [simp]: "dict_ok []"
  by (simp add: dict_ok_def)

lemma dict_ok_update [simp]: "dict_ok d \<Longrightarrow> dict_ok (AList.update k v d)"
  unfolding dict_ok_def by (rule distinct_update)

lemma dict_ok_delete [simp]: "dict_ok d \<Longrightarrow> dict_ok (AList.delete k d)"
  unfolding dict_ok_def by (rule distinct_delete)

lemma keys_update: "fst ` set (AList.update k v d) = insert k (fst ` set d)"
  by (induction d) auto

lemma update_new: "k \<notin> fst ` set d \<Longrightarrow> AList.update k v d = d @ [(k, v)]"
  by (induction d) auto

lemma length_update_new: "k \<notin> fst ` set d \<Longrightarrow> length (AList.update k v d) = Suc (length d)"
  by (simp add: update_new)

lemma length_update_old: "k \<in> fst ` set d \<Longrightarrow> length (AList.update k v d) = length d"
  by (induction d) auto

lemma delete_absent: "k \<notin> fst ` set d \<Longrightarrow> AList.delete k d = d"
  by (induction d) (auto simp: AList.delete_eq)

lemma delete_update_new: "k \<notin> fst ` set d \<Longrightarrow> AList.delete k (AList.update k v d) = d"
  by (induction d) (auto simp: delete_absent)

lemma update_same: "map_of d k = Some v \<Longrightarrow> AList.update k v d = d"
  by (induction d) auto

lemma update_update: "AList.update k v (AList.update k u d) = AList.update k v d"
  by (induction d) auto

lemma length_delete_le': "length (AList.delete k d) \<le> length d"
  by (simp add: AList.delete_eq)

lemma set_update_subset: "set (AList.update k v d) \<subseteq> insert (k, v) (set d)"
  by (induction d) auto

declare delete_conv' [simp]

lemma map_of_update [simp]: "map_of (AList.update k v d) = (map_of d)(k \<mapsto> v)"
  by (rule update_conv')

subsection \<open>Filtering keeps order\<close>

lemma set_subseq: "subseq xs ys \<Longrightarrow> set xs \<subseteq> set ys"
  by (induction rule: list_emb.induct) auto

lemma length_subseq: "subseq xs ys \<Longrightarrow> length xs \<le> length ys"
  by (rule list_emb_length)

end
