(* ===== verification/Declared_Resources.thy ===== *)
theory Declared_Resources
  imports Prelude
begin

text \<open>
  \<open>app/parallel_executor/declared_resources.py\<close>: access modes, resource declarations, the lock key
  and the conflict test between two declared resource sets.

  A \<open>frozenset\<close> of declarations is the list of its elements in iteration order, without
  duplicates.  Python leaves that order open, so every theorem holds for each order; the dictionary
  comprehension of \<open>conflicts_with\<close> depends on it, as \<open>conflicts_misses_write\<close> shows.
  SHA-256 is the parameter \<open>digest\<close>.
\<close>

subsection \<open>Declarations\<close>

datatype access_mode = READ | WRITE

record resource_declaration =
  resource_type :: string
  resource_id :: string
  mode :: access_mode

definition is_write :: "resource_declaration \<Rightarrow> bool" where
  "is_write d = (mode d = WRITE)"

definition is_read :: "resource_declaration \<Rightarrow> bool" where
  "is_read d = (mode d = READ)"

definition lock_key :: "(string \<Rightarrow> 'k) \<Rightarrow> resource_declaration \<Rightarrow> 'k" where
  "lock_key digest d = digest (resource_type d @ ''::'' @ resource_id d)"

lemma is_write_or_read: "is_write d \<noteq> is_read d"
  by (cases "mode d") (simp_all add: is_write_def is_read_def)

subsection \<open>Collections\<close>

type_synonym declared_resources = "resource_declaration list"

definition declared :: "resource_declaration list \<Rightarrow> declared_resources" where
  "declared ds = remdups ds"

definition terminal_resource :: "string \<Rightarrow> access_mode \<Rightarrow> declared_resources" where
  "terminal_resource session_id m =
     declared [\<lparr>resource_type = ''terminal'', resource_id = session_id, mode = m\<rparr>]"

definition network_resource ::
  "(int \<Rightarrow> string) \<Rightarrow> string \<Rightarrow> int option \<Rightarrow> access_mode \<Rightarrow> declared_resources" where
  "network_resource show_int host port m =
     (let rid = (case port of None \<Rightarrow> host | Some p \<Rightarrow> host @ '':'' @ show_int p)
      in declared [\<lparr>resource_type = ''network'', resource_id = rid, mode = m\<rparr>])"

definition resources_union :: "declared_resources \<Rightarrow> declared_resources \<Rightarrow> declared_resources" where
  "resources_union a b = declared (a @ b)"

definition resources_inter ::
  "(string \<Rightarrow> 'k) \<Rightarrow> declared_resources \<Rightarrow> declared_resources \<Rightarrow> declared_resources" where
  "resources_inter digest a b =
     declared [d \<leftarrow> a. lock_key digest d \<in> set (map (lock_key digest) b)]"

definition has_writes :: "declared_resources \<Rightarrow> bool" where
  "has_writes ds = list_ex is_write ds"

definition write_declarations :: "declared_resources \<Rightarrow> declared_resources" where
  "write_declarations ds = filter is_write ds"

definition read_declarations :: "declared_resources \<Rightarrow> declared_resources" where
  "read_declarations ds = filter is_read ds"

definition lock_keys :: "(string \<Rightarrow> 'k) \<Rightarrow> declared_resources \<Rightarrow> 'k set" where
  "lock_keys digest ds = set (map (lock_key digest) ds)"

lemma set_resources_union [simp]: "set (resources_union a b) = set a \<union> set b"
  by (simp add: resources_union_def declared_def)

lemma has_writes_iff: "has_writes ds \<longleftrightarrow> write_declarations ds \<noteq> []"
  by (auto simp: has_writes_def write_declarations_def list_ex_iff filter_empty_conv)

subsection \<open>The conflict test\<close>

text \<open>\<open>{d.lock_key: d for d in ds}\<close>: a later declaration of the same key replaces an earlier one.\<close>

definition by_key ::
  "(string \<Rightarrow> 'k) \<Rightarrow> declared_resources \<Rightarrow> 'k \<rightharpoonup> resource_declaration" where
  "by_key digest ds = map_of (rev (map (\<lambda>d. (lock_key digest d, d)) ds))"

definition conflicts_with ::
  "(string \<Rightarrow> 'k) \<Rightarrow> declared_resources \<Rightarrow> declared_resources \<Rightarrow> bool" where
  "conflicts_with digest a b =
     (if a = [] \<or> b = [] then False
      else list_ex (\<lambda>k. case by_key digest a k of
                          None \<Rightarrow> False
                        | Some sd \<Rightarrow> (case by_key digest b k of
                                       None \<Rightarrow> False
                                     | Some od \<Rightarrow> is_write sd \<or> is_write od))
             (map (lock_key digest) a))"

text \<open>
  What the method documents: some shared key is requested by both sides, with \<open>WRITE\<close> on one.
\<close>

definition conflict_spec ::
  "(string \<Rightarrow> 'k) \<Rightarrow> resource_declaration set \<Rightarrow> resource_declaration set \<Rightarrow> bool" where
  "conflict_spec digest A B =
     (\<exists>a\<in>A. \<exists>b\<in>B. lock_key digest a = lock_key digest b \<and> (is_write a \<or> is_write b))"

definition one_mode_per_key :: "(string \<Rightarrow> 'k) \<Rightarrow> declared_resources \<Rightarrow> bool" where
  "one_mode_per_key digest ds = distinct (map (lock_key digest) ds)"

lemma by_key_SomeD:
  assumes "by_key digest ds k = Some d"
  shows "d \<in> set ds \<and> lock_key digest d = k"
proof -
  from assms have "(k, d) \<in> set (rev (map (\<lambda>d. (lock_key digest d, d)) ds))"
    unfolding by_key_def by (rule map_of_SomeD)
  then show ?thesis by auto
qed

lemma by_key_dom: "d \<in> set ds \<Longrightarrow> \<exists>d'. by_key digest ds (lock_key digest d) = Some d'"
  by (auto simp: by_key_def map_of_eq_None_iff image_iff simp flip: not_None_eq)

lemma by_key_unique:
  assumes "one_mode_per_key digest ds" and "d \<in> set ds"
  shows "by_key digest ds (lock_key digest d) = Some d"
proof -
  have "distinct (map fst (rev (map (\<lambda>d. (lock_key digest d, d)) ds)))"
    using assms(1) by (simp add: one_mode_per_key_def comp_def flip: rev_map)
  then show ?thesis
    unfolding by_key_def using assms(2) by (intro map_of_is_SomeI) auto
qed

lemma conflicts_with_iff:
  "conflicts_with digest a b \<longleftrightarrow>
     (\<exists>k sd od. by_key digest a k = Some sd \<and> by_key digest b k = Some od \<and>
        (is_write sd \<or> is_write od))"
proof
  assume "conflicts_with digest a b"
  then show "\<exists>k sd od. by_key digest a k = Some sd \<and> by_key digest b k = Some od \<and>
        (is_write sd \<or> is_write od)"
    by (fastforce simp: conflicts_with_def list_ex_iff split: if_splits option.splits)
next
  assume "\<exists>k sd od. by_key digest a k = Some sd \<and> by_key digest b k = Some od \<and>
        (is_write sd \<or> is_write od)"
  then obtain k sd od where *: "by_key digest a k = Some sd" "by_key digest b k = Some od"
    "is_write sd \<or> is_write od" by blast
  then have "sd \<in> set a" "od \<in> set b" "lock_key digest sd = k"
    by (auto dest: by_key_SomeD)
  with * show "conflicts_with digest a b"
    by (auto simp: conflicts_with_def list_ex_iff intro!: bexI [of _ sd])
qed

lemma conflicts_with_sound:
  "conflicts_with digest a b \<Longrightarrow> conflict_spec digest (set a) (set b)"
  unfolding conflicts_with_iff conflict_spec_def by (metis by_key_SomeD)

lemma conflicts_with_sym: "conflicts_with digest a b = conflicts_with digest b a"
  unfolding conflicts_with_iff by blast

lemma conflicts_complete_unique:
  assumes "one_mode_per_key digest a" and "one_mode_per_key digest b"
    and "conflict_spec digest (set a) (set b)"
  shows "conflicts_with digest a b"
  using assms unfolding conflicts_with_iff conflict_spec_def by (metis by_key_unique)

lemma conflict_spec_Un:
  "conflict_spec digest (A \<union> B) C \<longleftrightarrow> conflict_spec digest A C \<or> conflict_spec digest B C"
  by (auto simp: conflict_spec_def)

text \<open>for resource sets that name each key in one mode only, the conflict test decides
  exactly the documented relation, whatever the iteration order of the frozensets.\<close>

theorem conflicts_with_correct:
  assumes "one_mode_per_key digest a" and "one_mode_per_key digest b"
  shows "conflicts_with digest a b \<longleftrightarrow> conflict_spec digest (set a) (set b)"
  using assms conflicts_complete_unique conflicts_with_sound by blast

definition file_decl :: "string \<Rightarrow> access_mode \<Rightarrow> resource_declaration" where
  "file_decl p m = \<lparr>resource_type = ''file'', resource_id = p, mode = m\<rparr>"

theorem conflicts_with_correct_witness:
  "conflicts_with id [file_decl ''a'' READ, file_decl ''b'' WRITE] [file_decl ''b'' READ] \<and>
   \<not> conflicts_with id [file_decl ''a'' READ] [file_decl ''a'' READ, file_decl ''b'' WRITE]"
proof -
  have u: "one_mode_per_key id [file_decl ''a'' READ, file_decl ''b'' WRITE]"
    "one_mode_per_key id [file_decl ''b'' READ]" "one_mode_per_key id [file_decl ''a'' READ]"
    by (simp_all add: one_mode_per_key_def lock_key_def file_decl_def)
  show ?thesis
    using conflicts_with_correct [OF u(1) u(2)] conflicts_with_correct [OF u(3) u(1)]
    by (simp add: conflict_spec_def is_write_def lock_key_def file_decl_def)
qed

text \<open>a set that declares one key in both modes defeats the test: when the \<open>READ\<close>
  declaration comes last in iteration order, its \<open>WRITE\<close> is overwritten and a clash with a reader
  of the same resource is reported as no conflict, although the documented relation holds.\<close>

theorem conflicts_misses_write:
  "\<exists>a b. distinct a \<and> distinct b \<and>
     conflict_spec digest (set a) (set b) \<and> \<not> conflicts_with digest a b \<and>
     conflicts_with digest (rev a) b"
  by (intro exI [of _ "[file_decl ''a'' WRITE, file_decl ''a'' READ]"] exI [of _ "[file_decl ''a'' READ]"])
     (simp add: conflict_spec_def conflicts_with_def by_key_def is_write_def lock_key_def file_decl_def)

end
