(* ===== verification/Resource_Lock.thy ===== *)
theory Resource_Lock
  imports Declared_Resources
begin

text \<open>
  \<open>_ResourceRWLock\<close> of \<open>app/parallel_executor/resource_lock.py\<close>: a readers-writer lock for one
  resource key.  Each public method runs under the lock's condition variable, so one call is one
  atomic step; \<open>acquire_*\<close> is one evaluation of its \<open>while\<close> test, \<open>None\<close> when the caller has to
  wait (the waiting itself is in \<open>Lock_System\<close>).
\<close>

type_synonym tid = nat

record rw_lock =
  readers :: int
  writer :: "tid option"
  reader_threads :: "(tid \<times> int) list"

datatype lock_error = NoReadersHeld | NoWriterHeld | WrongOwner tid

definition new_rw_lock :: rw_lock where
  "new_rw_lock = \<lparr>readers = 0, writer = None, reader_threads = []\<rparr>"

definition reader_holds :: "rw_lock \<Rightarrow> tid \<Rightarrow> int" where
  "reader_holds l t = (case map_of (reader_threads l) t of None \<Rightarrow> 0 | Some c \<Rightarrow> c)"

definition acquire_read :: "tid \<Rightarrow> rw_lock \<Rightarrow> rw_lock option" where
  "acquire_read t l =
     (if writer l \<noteq> None then None
      else Some (l\<lparr>readers := readers l + 1,
                   reader_threads := AList.update t (reader_holds l t + 1) (reader_threads l)\<rparr>))"

definition acquire_write :: "tid \<Rightarrow> rw_lock \<Rightarrow> rw_lock option" where
  "acquire_write t l =
     (if readers l > 0 \<or> writer l \<noteq> None then None else Some (l\<lparr>writer := Some t\<rparr>))"

definition release_read :: "tid \<Rightarrow> rw_lock \<Rightarrow> lock_error + rw_lock" where
  "release_read t l =
     (if readers l \<le> 0 then Inl NoReadersHeld
      else let count = reader_holds l t
           in Inr (l\<lparr>readers := readers l - 1,
                     reader_threads := (if count \<le> 1 then AList.delete t (reader_threads l)
                                        else AList.update t (count - 1) (reader_threads l))\<rparr>))"

definition release_write :: "tid \<Rightarrow> rw_lock \<Rightarrow> lock_error + rw_lock" where
  "release_write t l =
     (case writer l of
        None \<Rightarrow> Inl NoWriterHeld
      | Some w \<Rightarrow> if w \<noteq> t then Inl (WrongOwner w) else Inr (l\<lparr>writer := None\<rparr>))"

definition is_write_locked :: "rw_lock \<Rightarrow> bool" where
  "is_write_locked l = (writer l \<noteq> None)"

definition reader_count :: "rw_lock \<Rightarrow> int" where
  "reader_count l = readers l"

text \<open>The two modes together, as the manager dispatches on \<open>decl.mode\<close>.\<close>

definition rw_acquire :: "access_mode \<Rightarrow> tid \<Rightarrow> rw_lock \<Rightarrow> rw_lock option" where
  "rw_acquire m t l = (case m of READ \<Rightarrow> acquire_read t l | WRITE \<Rightarrow> acquire_write t l)"

definition rw_release :: "access_mode \<Rightarrow> tid \<Rightarrow> rw_lock \<Rightarrow> lock_error + rw_lock" where
  "rw_release m t l = (case m of READ \<Rightarrow> release_read t l | WRITE \<Rightarrow> release_write t l)"

lemmas rw_ops = acquire_read_def acquire_write_def release_read_def release_write_def
  rw_acquire_def rw_release_def

subsection \<open>The invariant\<close>

text \<open>
  The documented invariant (a writer excludes readers), and the bookkeeping of
  \<open>_reader_threads\<close>: positive counts that add up to \<open>_readers\<close>.  A thread that releases a read
  lock it does not hold breaks the bookkeeping, but never the documented part.
\<close>

definition rw_excl :: "rw_lock \<Rightarrow> bool" where
  "rw_excl l \<longleftrightarrow> 0 \<le> readers l \<and> (writer l \<noteq> None \<longrightarrow> readers l = 0)"

definition counts_pos :: "(tid \<times> int) list \<Rightarrow> bool" where
  "counts_pos d \<longleftrightarrow> (\<forall>p \<in> set d. 1 \<le> snd p)"

lemma counts_pos_Nil [simp]: "counts_pos []"
  by (simp add: counts_pos_def)

definition rw_books :: "rw_lock \<Rightarrow> bool" where
  "rw_books l \<longleftrightarrow> dict_ok (reader_threads l) \<and> counts_pos (reader_threads l) \<and>
     readers l = sum_list (map snd (reader_threads l))"

definition rw_inv :: "rw_lock \<Rightarrow> bool" where
  "rw_inv l \<longleftrightarrow> rw_excl l \<and> rw_books l"

lemma rw_inv_new [simp]: "rw_inv new_rw_lock"
  by (simp add: rw_inv_def rw_excl_def rw_books_def new_rw_lock_def)

lemma rw_excl_acquire: "rw_excl l \<Longrightarrow> rw_acquire m t l = Some l' \<Longrightarrow> rw_excl l'"
  by (cases m) (auto simp: rw_excl_def rw_ops split: if_splits)

lemma rw_excl_release: "rw_excl l \<Longrightarrow> rw_release m t l = Inr l' \<Longrightarrow> rw_excl l'"
  by (cases m) (auto simp: rw_excl_def rw_ops Let_def split: if_splits option.splits)

subsection \<open>Counts in the reader dictionary\<close>

lemma sum_update_new:
  "t \<notin> fst ` set d \<Longrightarrow> sum_list (map snd (AList.update t (c::int) d)) = sum_list (map snd d) + c"
  by (simp add: update_new)

lemma sum_update_old:
  "dict_ok d \<Longrightarrow> map_of d t = Some (b::int) \<Longrightarrow>
     sum_list (map snd (AList.update t c d)) = sum_list (map snd d) - b + c"
  by (induction d) (auto simp: dict_ok_def split: if_splits dest: map_of_SomeD)

lemma sum_delete:
  "dict_ok d \<Longrightarrow> map_of d t = Some (b::int) \<Longrightarrow>
     sum_list (map snd (AList.delete t d)) = sum_list (map snd d) - b"
proof (induction d)
  case (Cons p d)
  then show ?case
    by (cases p) (auto simp: dict_ok_def delete_absent split: if_splits)
qed simp

lemma counts_nonneg: "counts_pos d \<Longrightarrow> 0 \<le> sum_list (map snd d)"
  by (induction d) (auto simp: counts_pos_def)

lemma count_le_sum:
  "counts_pos d \<Longrightarrow> map_of d t = Some b \<Longrightarrow> 1 \<le> b \<and> b \<le> sum_list (map snd d)"
proof (induction d)
  case (Cons p d)
  then have "counts_pos d" and "1 \<le> snd p" by (auto simp: counts_pos_def)
  with Cons counts_nonneg [of d] show ?case by (force split: if_splits)
qed simp

lemma set_update_counts:
  "counts_pos d \<Longrightarrow> 1 \<le> b \<Longrightarrow> counts_pos (AList.update t b d)"
  by (induction d) (auto simp: counts_pos_def)

lemma set_delete_counts:
  "counts_pos d \<Longrightarrow> counts_pos (AList.delete t d)"
  by (auto simp: AList.delete_eq counts_pos_def)

lemma not_in_dict: "map_of d t = None \<longleftrightarrow> t \<notin> fst ` set d"
  by (rule map_of_eq_None_iff)


subsection \<open>Preservation, and release undoes acquire\<close>

lemma reader_holds_pos:
  assumes "rw_books l" and "map_of (reader_threads l) t = Some b"
  shows "reader_holds l t = b" and "1 \<le> b" and "b \<le> readers l"
  using assms count_le_sum [of "reader_threads l" t b]
  by (auto simp: rw_books_def reader_holds_def)

lemma rw_books_acquire: "rw_books l \<Longrightarrow> rw_acquire m t l = Some l' \<Longrightarrow> rw_books l'"
proof (cases m)
  case READ
  assume l: "rw_books l" and "rw_acquire m t l = Some l'"
  with READ have l': "l' = l\<lparr>readers := readers l + 1,
      reader_threads := AList.update t (reader_holds l t + 1) (reader_threads l)\<rparr>"
    by (simp add: rw_ops split: if_splits)
  show ?thesis
  proof (cases "map_of (reader_threads l) t")
    case None
    with l l' show ?thesis
      by (auto simp: rw_books_def reader_holds_def not_in_dict sum_update_new intro!: set_update_counts)
  next
    case (Some b)
    with l l' reader_holds_pos [OF l Some] show ?thesis
      by (auto simp: rw_books_def sum_update_old intro!: set_update_counts)
  qed
next
  case WRITE
  assume "rw_books l" and "rw_acquire m t l = Some l'"
  with WRITE show ?thesis by (auto simp: rw_ops rw_books_def split: if_splits)
qed

lemma rw_inv_acquire: "rw_inv l \<Longrightarrow> rw_acquire m t l = Some l' \<Longrightarrow> rw_inv l'"
  by (auto simp: rw_inv_def intro: rw_excl_acquire rw_books_acquire)

text \<open>Releasing what the thread holds keeps the books.\<close>

definition rw_holds :: "access_mode \<Rightarrow> tid \<Rightarrow> rw_lock \<Rightarrow> bool" where
  "rw_holds m t l = (case m of READ \<Rightarrow> 1 \<le> reader_holds l t | WRITE \<Rightarrow> writer l = Some t)"

lemma rw_holds_dict: "rw_holds READ t l \<Longrightarrow> \<exists>b. map_of (reader_threads l) t = Some b"
  by (auto simp: rw_holds_def reader_holds_def split: option.splits)

lemma rw_release_ok:
  assumes "rw_inv l" and "rw_holds m t l"
  shows "\<exists>l'. rw_release m t l = Inr l' \<and> rw_inv l'"
proof (cases m)
  case READ
  with assms(2) obtain b where b: "map_of (reader_threads l) t = Some b"
    using rw_holds_dict by blast
  note h = reader_holds_pos [OF _ b]
  have books: "rw_books l" and ex: "rw_excl l" using assms(1) by (simp_all add: rw_inv_def)
  from h [OF books] READ ex books b show ?thesis
    by (auto simp: rw_ops Let_def rw_inv_def rw_excl_def rw_books_def sum_update_old sum_delete
        intro!: set_update_counts set_delete_counts)
next
  case WRITE
  with assms show ?thesis
    by (auto simp: rw_ops rw_holds_def rw_inv_def rw_excl_def rw_books_def)
qed

lemma rw_release_acquire:
  assumes "rw_inv l" and "rw_acquire m t l = Some l'"
  shows "rw_release m t l' = Inr l"
proof (cases m)
  case READ
  have books: "rw_books l" and ex: "rw_excl l" using assms(1) by (simp_all add: rw_inv_def)
  from assms READ have l': "l' = l\<lparr>readers := readers l + 1,
      reader_threads := AList.update t (reader_holds l t + 1) (reader_threads l)\<rparr>"
    by (simp add: rw_ops split: if_splits)
  show ?thesis
  proof (cases "map_of (reader_threads l) t")
    case None
    with READ l' ex show ?thesis
      by (simp add: rw_ops Let_def reader_holds_def rw_excl_def not_in_dict delete_update_new)
  next
    case (Some b)
    with READ l' ex reader_holds_pos [OF books Some] show ?thesis
      by (simp add: rw_ops Let_def reader_holds_def rw_excl_def update_update update_same)
  qed
next
  case WRITE
  with assms show ?thesis by (cases l) (auto simp: rw_ops split: if_splits)
qed

lemma rw_holds_acquired: "rw_inv l \<Longrightarrow> rw_acquire m t l = Some l' \<Longrightarrow> rw_holds m t l'"
  by (cases m) (auto simp: rw_ops rw_holds_def reader_holds_def rw_inv_def rw_books_def
      split: if_splits option.splits dest: count_le_sum)

text \<open>C13: the documented invariant of the lock (a writer excludes every reader, the reader
  count never goes negative) is kept by every acquisition and every release, also by a release
  from a thread that holds nothing.\<close>

theorem rw_lock_exclusion:
  assumes "rw_excl l"
  shows "(rw_acquire m t l = Some l' \<longrightarrow> rw_excl l') \<and> (rw_release m t l = Inr l' \<longrightarrow> rw_excl l')"
  using assms rw_excl_acquire rw_excl_release by blast

theorem rw_lock_exclusion_witness:
  "rw_excl (new_rw_lock\<lparr>readers := 1, reader_threads := [(7, 1)]\<rparr>) \<and>
   acquire_write 8 (new_rw_lock\<lparr>readers := 1, reader_threads := [(7, 1)]\<rparr>) = None"
proof -
  have e: "rw_excl new_rw_lock" by (simp add: rw_excl_def new_rw_lock_def)
  have a: "rw_acquire READ 7 new_rw_lock = Some (new_rw_lock\<lparr>readers := 1, reader_threads := [(7, 1)]\<rparr>)"
    by (simp add: rw_ops new_rw_lock_def reader_holds_def)
  show ?thesis
    using rw_lock_exclusion [OF e, of READ 7 "new_rw_lock\<lparr>readers := 1, reader_threads := [(7, 1)]\<rparr>"] a
    by (simp add: rw_ops)
qed

text \<open>A reader is refused exactly while a writer is in, a writer while anyone is in.\<close>

lemma acquire_read_refused: "acquire_read t l = None \<longleftrightarrow> is_write_locked l"
  by (simp add: rw_ops is_write_locked_def)

lemma acquire_write_refused:
  "acquire_write t l = None \<longleftrightarrow> is_write_locked l \<or> 0 < reader_count l"
  by (auto simp: rw_ops is_write_locked_def reader_count_def)

lemma release_write_foreign: "writer l = Some w \<Longrightarrow> w \<noteq> t \<Longrightarrow> release_write t l = Inl (WrongOwner w)"
  by (simp add: rw_ops)

end
