(* ===== verification/Lock_Manager.thy ===== *)
theory Lock_Manager
  imports Resource_Lock "HOL-Library.List_Lexorder" "HOL-Library.Char_ord"
begin

text \<open>
  \<open>ResourceLockManager\<close> of \<open>app/parallel_executor/resource_lock.py\<close> run by one thread with no
  interference: a lock that cannot be granted then stays so until the timeout, and the attempt
  fails.  (\<open>Lock_System\<close> interleaves threads.)  The registry is a total map in which a key that was
  never asked for has a fresh lock, as \<open>_get_or_create_lock\<close> provides.
\<close>

subsection \<open>Acquiring and releasing lists of locks\<close>

type_synonym 'k request = "'k \<times> access_mode"

text \<open>
  \<open>_release_all\<close>: pop from the end; a \<open>RuntimeError\<close> is swallowed.  The lock's own methods are
  arguments here; the public methods below pass those of \<open>_ResourceRWLock\<close>.
\<close>

definition release_one ::
  "(access_mode \<Rightarrow> tid \<Rightarrow> 'l \<Rightarrow> 'e + 'l) \<Rightarrow> tid \<Rightarrow> 'k request \<Rightarrow> ('k \<Rightarrow> 'l) \<Rightarrow> ('k \<Rightarrow> 'l)" where
  "release_one rel t r ls =
     (case rel (snd r) t (ls (fst r)) of Inl _ \<Rightarrow> ls | Inr l \<Rightarrow> ls(fst r := l))"

definition release_all ::
  "(access_mode \<Rightarrow> tid \<Rightarrow> 'l \<Rightarrow> 'e + 'l) \<Rightarrow> tid \<Rightarrow> 'k request list \<Rightarrow> ('k \<Rightarrow> 'l) \<Rightarrow> ('k \<Rightarrow> 'l)" where
  "release_all rel t acquired ls = fold (release_one rel t) (rev acquired) ls"

text \<open>
  The loop over \<open>sorted_decls\<close> of one attempt (\<open>_try_acquire_all\<close>): the locks, what was
  acquired, and whether every lock was granted.
\<close>

fun acquire_each ::
  "(access_mode \<Rightarrow> tid \<Rightarrow> 'l \<Rightarrow> 'l option) \<Rightarrow> tid \<Rightarrow> 'k request list \<Rightarrow> ('k \<Rightarrow> 'l) \<Rightarrow>
     'k request list \<Rightarrow> ('k \<Rightarrow> 'l) \<times> 'k request list \<times> bool" where
  "acquire_each acq t [] ls acquired = (ls, acquired, True)"
| "acquire_each acq t ((k, m) # ds) ls acquired =
     (case acq m t (ls k) of
        None \<Rightarrow> (ls, acquired, False)
      | Some l \<Rightarrow> acquire_each acq t ds (ls(k := l)) (acquired @ [(k, m)]))"

text \<open>
  \<open>_acquire_all\<close>: each attempt first releases what the last one got.  \<open>False\<close> is
  \<open>DeadlockDetectedError\<close>; the caller's list keeps the last attempt's partial acquisitions.
\<close>

fun acquire_all ::
  "(access_mode \<Rightarrow> tid \<Rightarrow> 'l \<Rightarrow> 'l option) \<Rightarrow> (access_mode \<Rightarrow> tid \<Rightarrow> 'l \<Rightarrow> 'e + 'l) \<Rightarrow> nat \<Rightarrow> tid \<Rightarrow>
     'k request list \<Rightarrow> ('k \<Rightarrow> 'l) \<Rightarrow> 'k request list \<Rightarrow> ('k \<Rightarrow> 'l) \<times> 'k request list \<times> bool" where
  "acquire_all acq rel 0 t ds ls acquired = (ls, acquired, False)"
| "acquire_all acq rel (Suc n) t ds ls acquired =
     (case acquire_each acq t ds (release_all rel t acquired ls) [] of
        (ls', acquired', ok) \<Rightarrow>
          if ok then (ls', acquired', True) else acquire_all acq rel n t ds ls' acquired')"

lemma release_all_Nil [simp]: "release_all rel t [] ls = ls"
  by (simp add: release_all_def)

lemma release_all_snoc:
  "release_all rel t (acquired @ [r]) ls = release_all rel t acquired (release_one rel t r ls)"
  by (simp add: release_all_def)

lemma acquire_each_done:
  "acquire_each acq t ds ls acquired = (ls', acquired', True) \<Longrightarrow> acquired' = acquired @ ds"
  by (induction acq t ds ls acquired rule: acquire_each.induct) (auto split: option.splits)

lemma acquire_all_done:
  "acquire_all acq rel n t ds ls acquired = (ls', acquired', True) \<Longrightarrow> acquired' = ds"
  by (induction n arbitrary: ls acquired)
     (auto split: prod.splits if_splits dest: acquire_each_done)

subsection \<open>The interface\<close>

text \<open>
  The manager needs little of a lock: that releasing what was just acquired gives the old lock
  back.  Under that law every attempt can be undone.
\<close>

locale undoable_lock =
  fixes acq :: "access_mode \<Rightarrow> tid \<Rightarrow> 'l \<Rightarrow> 'l option"
    and rel :: "access_mode \<Rightarrow> tid \<Rightarrow> 'l \<Rightarrow> 'e + 'l"
    and inv :: "'l \<Rightarrow> bool"
  assumes acq_inv: "inv l \<Longrightarrow> acq m t l = Some l' \<Longrightarrow> inv l'"
    and rel_acq: "inv l \<Longrightarrow> acq m t l = Some l' \<Longrightarrow> rel m t l' = Inr l"
begin

lemma release_one_acquired:
  assumes "\<forall>k. inv (ls k)" and "acq m t (ls k) = Some l"
  shows "release_one rel t (k, m) (ls(k := l)) = ls"
proof -
  have "rel m t l = Inr (ls k)" using assms rel_acq by blast
  then show ?thesis by (simp add: release_one_def)
qed

lemma acquire_each_undo:
  assumes "\<forall>k. inv (ls k)" and "acquire_each acq t ds ls acquired = (ls', acquired', ok)"
  shows "release_all rel t acquired' ls' = release_all rel t acquired ls \<and> (\<forall>k. inv (ls' k))"
  using assms
proof (induction ds arbitrary: ls acquired)
  case (Cons d ds)
  obtain k m where d: "d = (k, m)" by (cases d)
  show ?case
  proof (cases "acq m t (ls k)")
    case None
    with Cons d show ?thesis by simp
  next
    case (Some l)
    have "\<forall>k'. inv ((ls(k := l)) k')"
      using Cons.prems(1) acq_inv [OF _ Some] by auto
    moreover have "acquire_each acq t ds (ls(k := l)) (acquired @ [d]) = (ls', acquired', ok)"
      using Cons.prems(2) Some d by simp
    ultimately have "release_all rel t acquired' ls' =
        release_all rel t (acquired @ [d]) (ls(k := l)) \<and> (\<forall>k. inv (ls' k))"
      by (rule Cons.IH)
    with release_one_acquired [OF Cons.prems(1) Some] d show ?thesis
      by (simp add: release_all_snoc)
  qed
qed simp

lemma acquire_all_undo:
  assumes "release_all rel t acquired ls = ls0" and "\<forall>k. inv (ls0 k)"
    and "acquire_all acq rel n t ds ls acquired = (ls', acquired', ok)"
  shows "release_all rel t acquired' ls' = ls0"
  using assms(1,3)
proof (induction n arbitrary: ls acquired)
  case (Suc n)
  obtain ls1 acq1 ok1 where e: "acquire_each acq t ds ls0 [] = (ls1, acq1, ok1)"
    by (metis prod_cases3)
  then have "release_all rel t acq1 ls1 = ls0"
    using acquire_each_undo [OF assms(2)] by fastforce
  with Suc e show ?case by (cases ok1) auto
qed simp

text \<open>Without interference a refused attempt is refused again, with the same partial result.\<close>

lemma acquire_all_refused:
  assumes "\<forall>k. inv (ls0 k)" and "acquire_each acq t ds ls0 [] = (ls1, acq1, False)"
  shows "acquire_all acq rel (Suc n) t ds ls0 [] = (ls1, acq1, False)"
proof -
  have "release_all rel t acq1 ls1 = ls0"
    using acquire_each_undo [OF assms] by simp
  then have "acquire_all acq rel n t ds ls1 acq1 = (ls1, acq1, False)"
    using assms(2) by (induction n) (simp_all only: acquire_all.simps prod.case if_False)
  then show ?thesis using assms(2) by simp
qed

end

interpretation rw: undoable_lock rw_acquire rw_release rw_inv
  by unfold_locales (blast intro: rw_inv_acquire rw_release_acquire)+

subsection \<open>Acquisition order\<close>

definition sorted_requests :: "(string \<Rightarrow> 'k::linorder) \<Rightarrow> declared_resources \<Rightarrow> 'k request list" where
  "sorted_requests digest ds =
     map (\<lambda>d. (lock_key digest d, mode d)) (sort_key (lock_key digest) ds)"

subsection \<open>The public methods\<close>

datatype manager_error = DeadlockDetected

type_synonym 'k locks = "'k \<Rightarrow> rw_lock"

record 'k manager =
  mgr_locks :: "'k locks"
  retry_count :: nat

text \<open>
  \<open>acquire_resources\<close> up to its \<open>yield\<close>: on an error the \<open>finally\<close> has released the partial
  acquisitions.  \<open>exit_resources\<close> is the \<open>finally\<close> after the body.
\<close>

definition enter_resources ::
  "(string \<Rightarrow> 'k::linorder) \<Rightarrow> tid \<Rightarrow> declared_resources \<Rightarrow> 'k manager \<Rightarrow>
     'k manager \<times> (manager_error + 'k request list)" where
  "enter_resources digest t ds mgr =
     (if ds = [] then (mgr, Inr [])
      else case acquire_all rw_acquire rw_release (retry_count mgr) t (sorted_requests digest ds) (mgr_locks mgr) [] of
             (ls, acq, True) \<Rightarrow> (mgr\<lparr>mgr_locks := ls\<rparr>, Inr acq)
           | (ls, acq, False) \<Rightarrow> (mgr\<lparr>mgr_locks := release_all rw_release t acq ls\<rparr>, Inl DeadlockDetected))"

definition exit_resources :: "tid \<Rightarrow> 'k request list \<Rightarrow> 'k manager \<Rightarrow> 'k manager" where
  "exit_resources t acq mgr = mgr\<lparr>mgr_locks := release_all rw_release t acq (mgr_locks mgr)\<rparr>"

definition try_acquire_resources ::
  "(string \<Rightarrow> 'k::linorder) \<Rightarrow> tid \<Rightarrow> declared_resources \<Rightarrow> 'k manager \<Rightarrow> 'k manager \<times> bool" where
  "try_acquire_resources digest t ds mgr =
     (if ds = [] then (mgr, True)
      else case acquire_each rw_acquire t (sorted_requests digest ds) (mgr_locks mgr) [] of
             (ls, acq, ok) \<Rightarrow> (mgr\<lparr>mgr_locks := release_all rw_release t acq ls\<rparr>, ok))"

record 'k lock_handle =
  handle_acquired :: "'k request list"
  handle_released :: bool

text \<open>\<open>acquire_resources_explicit\<close>: an exception leaves the half-filled handle unreachable.\<close>

definition acquire_resources_explicit ::
  "(string \<Rightarrow> 'k::linorder) \<Rightarrow> tid \<Rightarrow> declared_resources \<Rightarrow> 'k manager \<Rightarrow>
     'k manager \<times> (manager_error + 'k lock_handle)" where
  "acquire_resources_explicit digest t ds mgr =
     (if ds = [] then (mgr, Inr \<lparr>handle_acquired = [], handle_released = False\<rparr>)
      else case acquire_all rw_acquire rw_release (retry_count mgr) t (sorted_requests digest ds) (mgr_locks mgr) [] of
             (ls, acq, True) \<Rightarrow>
               (mgr\<lparr>mgr_locks := ls\<rparr>, Inr \<lparr>handle_acquired = acq, handle_released = False\<rparr>)
           | (ls, acq, False) \<Rightarrow> (mgr\<lparr>mgr_locks := ls\<rparr>, Inl DeadlockDetected))"

text \<open>\<open>release_resources\<close>; \<open>_release_all\<close> empties the handle's list.\<close>

definition release_resources ::
  "tid \<Rightarrow> 'k lock_handle \<Rightarrow> 'k manager \<Rightarrow> 'k manager \<times> 'k lock_handle" where
  "release_resources t h mgr =
     (if handle_released h then (mgr, h)
      else (mgr\<lparr>mgr_locks := release_all rw_release t (handle_acquired h) (mgr_locks mgr)\<rparr>,
            \<lparr>handle_acquired = [], handle_released = True\<rparr>))"

definition is_resource_locked :: "'k \<Rightarrow> 'k manager \<Rightarrow> bool" where
  "is_resource_locked k mgr =
     (is_write_locked (mgr_locks mgr k) \<or> reader_count (mgr_locks mgr k) > 0)"

subsection \<open>All or nothing\<close>

definition locks_inv :: "'k locks \<Rightarrow> bool" where
  "locks_inv ls \<longleftrightarrow> (\<forall>k. rw_inv (ls k))"

text \<open>C6: \<open>with acquire_resources(...)\<close> is all or nothing: entering either grants exactly the
  declared requests in key order, and leaving then restores every lock to what it was, or raises
  with no lock changed.\<close>

theorem acquire_resources_all_or_nothing:
  assumes "locks_inv (mgr_locks mgr)" and "enter_resources digest t ds mgr = (mgr', r)"
  shows "case r of
           Inr acq \<Rightarrow> acq = sorted_requests digest ds \<and> exit_resources t acq mgr' = mgr
         | Inl e \<Rightarrow> mgr' = mgr"
proof (cases "ds = []")
  case True
  with assms show ?thesis
    by (auto simp: enter_resources_def exit_resources_def sorted_requests_def)
next
  case False
  obtain ls acq ok where a:
    "acquire_all rw_acquire rw_release (retry_count mgr) t (sorted_requests digest ds) (mgr_locks mgr) [] = (ls, acq, ok)"
    by (metis prod_cases3)
  have "release_all rw_release t acq ls = mgr_locks mgr"
    using rw.acquire_all_undo [OF release_all_Nil _ a] assms(1) by (simp add: locks_inv_def)
  with a assms(2) False show ?thesis
    by (cases ok) (auto simp: enter_resources_def exit_resources_def dest: acquire_all_done)
qed


definition demo_manager :: "string manager" where
  "demo_manager = \<lparr>mgr_locks = (\<lambda>_. new_rw_lock), retry_count = 3\<rparr>"

lemma demo_locks_inv: "locks_inv (mgr_locks demo_manager)"
  by (simp add: locks_inv_def demo_manager_def)

theorem acquire_resources_all_or_nothing_witness:
  "locks_inv (mgr_locks demo_manager) \<and>
   (case enter_resources id 1 [file_decl ''a'' WRITE] demo_manager of
      (m, Inr acq) \<Rightarrow> exit_resources 1 acq m = demo_manager | (m, Inl e) \<Rightarrow> m = demo_manager)"
  using demo_locks_inv
    acquire_resources_all_or_nothing [OF demo_locks_inv, of id 1 "[file_decl ''a'' WRITE]"]
  by (auto split: prod.splits sum.splits)

text \<open>\<open>try_acquire_resources\<close> is a pure probe: whatever it answers, every lock is as before,
  and it answers yes exactly when entering the resources in one attempt would succeed.\<close>

theorem try_acquire_is_probe:
  assumes "locks_inv (mgr_locks mgr)" and "try_acquire_resources digest t ds mgr = (mgr', ok)"
  shows "mgr' = mgr \<and>
    (ok \<longleftrightarrow> (\<exists>m' acq. enter_resources digest t ds (mgr\<lparr>retry_count := 1\<rparr>) = (m', Inr acq)))"
proof (cases "ds = []")
  case True
  with assms show ?thesis by (auto simp: try_acquire_resources_def enter_resources_def)
next
  case False
  obtain ls acq ok' where a:
    "acquire_each rw_acquire t (sorted_requests digest ds) (mgr_locks mgr) [] = (ls, acq, ok')"
    by (metis prod_cases3)
  have "release_all rw_release t acq ls = mgr_locks mgr"
    using rw.acquire_each_undo [OF _ a] assms(1) by (simp add: locks_inv_def)
  with a False assms(2) show ?thesis
    by (auto simp: try_acquire_resources_def enter_resources_def)
qed

theorem try_acquire_is_probe_witness:
  "try_acquire_resources id 1 [file_decl ''a'' WRITE] demo_manager = (demo_manager, True)"
proof -
  obtain m ok where e: "try_acquire_resources id 1 [file_decl ''a'' WRITE] demo_manager = (m, ok)"
    by (metis prod.exhaust)
  have ok: "ok" using e
    by (auto simp: try_acquire_resources_def sorted_requests_def demo_manager_def rw_ops
        new_rw_lock_def file_decl_def)
  from try_acquire_is_probe [OF demo_locks_inv e] e ok show ?thesis by simp
qed

subsection \<open>The explicit variant\<close>

text \<open>A handle released by the thread that acquired it gives everything back; a second release
  is a no-op.\<close>

lemma explicit_round_trip:
  assumes "locks_inv (mgr_locks mgr)"
    and "acquire_resources_explicit digest t ds mgr = (mgr', Inr h)"
  shows "fst (release_resources t h mgr') = mgr"
proof (cases "ds = []")
  case True
  with assms show ?thesis
    by (auto simp: acquire_resources_explicit_def release_resources_def)
next
  case False
  obtain ls acq ok where a:
    "acquire_all rw_acquire rw_release (retry_count mgr) t (sorted_requests digest ds) (mgr_locks mgr) []
       = (ls, acq, ok)"
    by (metis prod_cases3)
  have "release_all rw_release t acq ls = mgr_locks mgr"
    using rw.acquire_all_undo [OF release_all_Nil _ a] assms(1) by (simp add: locks_inv_def)
  with a False assms(2) show ?thesis
    by (cases ok) (auto simp: acquire_resources_explicit_def release_resources_def)
qed

lemma release_resources_twice:
  "release_resources t h mgr = (mgr', h') \<Longrightarrow> release_resources t' h' mgr' = (mgr', h')"
  by (auto simp: release_resources_def split: if_splits)

text \<open>a handle released on another thread than the one that acquired it (as the async
  executor does, which runs both in a thread pool) reports success but leaves the write lock held:
  the ownership error is swallowed, and no later release of the handle does anything.\<close>

theorem foreign_release_leaks_write_lock:
  assumes "locks_inv (mgr_locks mgr)" and "mgr_locks mgr k = new_rw_lock" and "0 < retry_count mgr"
    and "lock_key digest d = k" and "mode d = WRITE" and "t' \<noteq> t"
  shows "\<exists>mgr1 h mgr2 h2. acquire_resources_explicit digest t [d] mgr = (mgr1, Inr h) \<and>
    release_resources t' h mgr1 = (mgr2, h2) \<and> handle_released h2 \<and>
    is_resource_locked k mgr2 \<and> fst (release_resources t h2 mgr2) = mgr2"
proof -
  obtain n where n: "retry_count mgr = Suc n" using assms(3) gr0_conv_Suc by auto
  have "rw_acquire WRITE t new_rw_lock = Some (new_rw_lock\<lparr>writer := Some t\<rparr>)"
    by (simp add: rw_ops new_rw_lock_def)
  with n assms show ?thesis
    by (auto simp: acquire_resources_explicit_def sorted_requests_def release_resources_def
        is_resource_locked_def is_write_locked_def release_all_def release_one_def rw_ops new_rw_lock_def)
qed

theorem foreign_release_leaks_write_lock_witness:
  "\<exists>mgr1 h mgr2 h2. acquire_resources_explicit id 1 [file_decl ''a'' WRITE] demo_manager = (mgr1, Inr h) \<and>
    release_resources 2 h mgr1 = (mgr2, h2) \<and> handle_released h2 \<and>
    is_resource_locked ''file::a'' mgr2 \<and> fst (release_resources 1 h2 mgr2) = mgr2"
  by (rule foreign_release_leaks_write_lock [OF demo_locks_inv])
     (simp_all add: demo_manager_def lock_key_def file_decl_def)

text \<open>a failing \<open>acquire_resources_explicit\<close> keeps the locks it got before the refusal: with
  one lock free and the next one written by another thread, the call raises after every attempt and
  the first lock stays held, with no handle to release it.\<close>

theorem explicit_failure_leaks:
  assumes inv: "locks_inv (mgr_locks mgr)"
    and "mgr_locks mgr k1 = new_rw_lock" and "mgr_locks mgr k2 = new_rw_lock\<lparr>writer := Some t'\<rparr>"
    and "k1 < k2" and "0 < retry_count mgr"
    and "lock_key digest d1 = k1" and "lock_key digest d2 = k2" and "mode d1 = WRITE"
  shows "\<exists>mgr'. acquire_resources_explicit digest t [d1, d2] mgr = (mgr', Inl DeadlockDetected) \<and>
    \<not> is_resource_locked k1 mgr \<and> is_resource_locked k1 mgr'"
proof -
  let ?held = "(mgr_locks mgr)(k1 := new_rw_lock\<lparr>writer := Some t\<rparr>)"
  have sr: "sorted_requests digest [d1, d2] = [(k1, WRITE), (k2, mode d2)]"
    using assms less_imp_le [OF \<open>k1 < k2\<close>] by (simp add: sorted_requests_def)
  have free: "acquire_each rw_acquire t [(k1, WRITE), (k2, mode d2)] (mgr_locks mgr) []
      = (?held, [(k1, WRITE)], False)"
    using assms by (cases "mode d2") (auto simp: rw_ops new_rw_lock_def)
  obtain n where n: "retry_count mgr = Suc n" using \<open>0 < retry_count mgr\<close> gr0_conv_Suc by auto
  have "acquire_all rw_acquire rw_release (retry_count mgr) t (sorted_requests digest [d1, d2])
      (mgr_locks mgr) [] = (?held, [(k1, WRITE)], False)"
    unfolding n sr using rw.acquire_all_refused [OF _ free] inv by (simp add: locks_inv_def)
  then show ?thesis
    using assms(2) by (simp add: acquire_resources_explicit_def is_resource_locked_def
        is_write_locked_def reader_count_def new_rw_lock_def)
qed

definition busy_manager :: "nat manager" where
  "busy_manager =
     \<lparr>mgr_locks = (\<lambda>k. if k = 5 then new_rw_lock\<lparr>writer := Some 2\<rparr> else new_rw_lock), retry_count = 3\<rparr>"

theorem explicit_failure_leaks_witness:
  "\<exists>m'. acquire_resources_explicit length 1
      [\<lparr>resource_type = ''f'', resource_id = ''a'', mode = WRITE\<rparr>,
       \<lparr>resource_type = ''f'', resource_id = ''bb'', mode = READ\<rparr>] busy_manager
      = (m', Inl DeadlockDetected) \<and> \<not> is_resource_locked 4 busy_manager \<and> is_resource_locked 4 m'"
proof (rule explicit_failure_leaks [where ?k2.0 = 5 and t' = 2])
  show "locks_inv (mgr_locks busy_manager)"
    by (auto simp: locks_inv_def busy_manager_def rw_inv_def rw_excl_def rw_books_def new_rw_lock_def)
qed (simp_all add: busy_manager_def lock_key_def)

text \<open>a resource set that declares one key in both modes can never be acquired: the thread
  waits for its own read lock, every attempt times out, and the call raises although no other
  thread holds anything.\<close>

theorem mixed_modes_self_deadlock:
  assumes inv: "locks_inv (mgr_locks mgr)" and "mgr_locks mgr k = new_rw_lock"
    and "lock_key digest dr = k" and "lock_key digest dw = k"
    and "mode dr = READ" and "mode dw = WRITE"
  shows "snd (enter_resources digest t [dr, dw] mgr) = Inl DeadlockDetected"
proof -
  let ?r = "new_rw_lock\<lparr>readers := 1, reader_threads := [(t, 1)]\<rparr>"
  let ?held = "(mgr_locks mgr)(k := ?r)"
  have sr: "sorted_requests digest [dr, dw] = [(k, READ), (k, WRITE)]"
    using assms by (simp add: sorted_requests_def)
  have free: "acquire_each rw_acquire t [(k, READ), (k, WRITE)] (mgr_locks mgr) []
      = (?held, [(k, READ)], False)"
    using assms by (auto simp: rw_ops new_rw_lock_def reader_holds_def)
  have "\<not> snd (snd (acquire_all rw_acquire rw_release (retry_count mgr) t [(k, READ), (k, WRITE)]
      (mgr_locks mgr) []))"
    using rw.acquire_all_refused [OF _ free] inv
    by (cases "retry_count mgr") (simp_all add: locks_inv_def del: acquire_all.simps(2))
  then show ?thesis
    by (auto simp: enter_resources_def sr split: prod.splits)
qed

theorem mixed_modes_self_deadlock_witness:
  "snd (enter_resources id 1 [file_decl ''a'' READ, file_decl ''a'' WRITE] demo_manager)
     = Inl DeadlockDetected"
  by (rule mixed_modes_self_deadlock [OF demo_locks_inv, where k = "''file::a''"])
     (simp_all add: demo_manager_def lock_key_def file_decl_def)

end
