(* ===== verification/Lock_System.thy ===== *)
theory Lock_System
  imports Lock_Manager
begin

text \<open>
  Threads that interleave in \<open>ResourceLockManager.acquire_resources\<close>
  (\<open>app/parallel_executor/resource_lock.py\<close>).  One step is one critical section of one thread: a
  pass of the \<open>while\<close> test in \<open>acquire_read\<close>/\<open>acquire_write\<close>, a wake-up, a timeout, or one release.
  A wait may end by timeout even when the lock has become free, as \<open>Condition.wait\<close> allows.
\<close>

subsection \<open>Threads and steps\<close>

text \<open>
  The program counter of a thread, with the attempts that are left (the current one included), the
  sorted requests, those still to get, and those acquired.  \<open>Unwinding\<close> is the top of the retry
  loop, \<open>Failed\<close> the raise after the last attempt, \<open>Releasing\<close> the \<open>finally\<close> block.
\<close>

datatype 'k proc =
    Idle
  | Unwinding nat "'k request list" "'k request list"
  | Acquiring nat "'k request list" "'k request list" "'k request list"
  | Waiting nat "'k request list" "'k request list" "'k request list"
  | Holding "'k request list"
  | Failed "'k request list"
  | Releasing "'k request list"

record 'k sys =
  sys_locks :: "'k locks"
  sys_procs :: "tid \<Rightarrow> 'k proc"

definition attempt :: "nat \<Rightarrow> 'k request list \<Rightarrow> 'k request list \<Rightarrow> 'k proc" where
  "attempt n plan acquired = (if n = 0 then Failed acquired else Unwinding n plan acquired)"

definition set_proc :: "tid \<Rightarrow> 'k proc \<Rightarrow> 'k sys \<Rightarrow> 'k sys" where
  "set_proc t p s = s\<lparr>sys_procs := (sys_procs s)(t := p)\<rparr>"

definition drop_lock :: "tid \<Rightarrow> 'k request \<Rightarrow> 'k sys \<Rightarrow> 'k sys" where
  "drop_lock t r s = s\<lparr>sys_locks := release_one rw_release t r (sys_locks s)\<rparr>"

inductive lm_step :: "nat \<Rightarrow> (string \<Rightarrow> 'k::linorder) \<Rightarrow> 'k sys \<Rightarrow> 'k sys \<Rightarrow> bool"
  for retries :: nat and digest :: "string \<Rightarrow> 'k" where
  begin_call: "sys_procs s t = Idle \<Longrightarrow> ds \<noteq> [] \<Longrightarrow>
    lm_step retries digest s (set_proc t (attempt retries (sorted_requests digest ds) []) s)"
| unwind: "sys_procs s t = Unwinding n plan (acquired @ [r]) \<Longrightarrow>
    lm_step retries digest s (set_proc t (Unwinding n plan acquired) (drop_lock t r s))"
| restart: "sys_procs s t = Unwinding n plan [] \<Longrightarrow>
    lm_step retries digest s (set_proc t (Acquiring n plan plan []) s)"
| grant: "sys_procs s t = Acquiring n plan (r # todo) acquired \<Longrightarrow>
    rw_acquire (snd r) t (sys_locks s (fst r)) = Some l \<Longrightarrow>
    lm_step retries digest s (set_proc t (Acquiring n plan todo (acquired @ [r]))
      (s\<lparr>sys_locks := (sys_locks s)(fst r := l)\<rparr>))"
| block: "sys_procs s t = Acquiring n plan (r # todo) acquired \<Longrightarrow>
    rw_acquire (snd r) t (sys_locks s (fst r)) = None \<Longrightarrow>
    lm_step retries digest s (set_proc t (Waiting n plan (r # todo) acquired) s)"
| wake: "sys_procs s t = Waiting n plan todo acquired \<Longrightarrow>
    lm_step retries digest s (set_proc t (Acquiring n plan todo acquired) s)"
| timeout: "sys_procs s t = Waiting n plan todo acquired \<Longrightarrow>
    lm_step retries digest s (set_proc t (attempt (n - 1) plan acquired) s)"
| granted_all: "sys_procs s t = Acquiring n plan [] acquired \<Longrightarrow>
    lm_step retries digest s (set_proc t (Holding acquired) s)"
| fail: "sys_procs s t = Failed acquired \<Longrightarrow>
    lm_step retries digest s (set_proc t (Releasing acquired) s)"
| leave: "sys_procs s t = Holding acquired \<Longrightarrow>
    lm_step retries digest s (set_proc t (Releasing acquired) s)"
| release: "sys_procs s t = Releasing (acquired @ [r]) \<Longrightarrow>
    lm_step retries digest s (set_proc t (Releasing acquired) (drop_lock t r s))"
| finish: "sys_procs s t = Releasing [] \<Longrightarrow>
    lm_step retries digest s (set_proc t Idle s)"

definition init_sys :: "'k sys" where
  "init_sys = \<lparr>sys_locks = (\<lambda>_. new_rw_lock), sys_procs = (\<lambda>_. Idle)\<rparr>"

inductive lm_reachable :: "nat \<Rightarrow> (string \<Rightarrow> 'k::linorder) \<Rightarrow> 'k sys \<Rightarrow> bool"
  for retries :: nat and digest :: "string \<Rightarrow> 'k" where
  start: "lm_reachable retries digest init_sys"
| step: "lm_reachable retries digest s \<Longrightarrow> lm_step retries digest s s' \<Longrightarrow>
    lm_reachable retries digest s'"

subsection \<open>What a thread holds\<close>

fun held :: "'k proc \<Rightarrow> 'k request list" where
  "held Idle = []"
| "held (Unwinding n plan acquired) = acquired"
| "held (Acquiring n plan todo acquired) = acquired"
| "held (Waiting n plan todo acquired) = acquired"
| "held (Holding acquired) = acquired"
| "held (Failed acquired) = acquired"
| "held (Releasing acquired) = acquired"

text \<open>How often the lock records thread \<open>t\<close> in mode \<open>m\<close>.\<close>

definition lock_count :: "access_mode \<Rightarrow> tid \<Rightarrow> rw_lock \<Rightarrow> int" where
  "lock_count m t l =
     (case m of READ \<Rightarrow> reader_holds l t | WRITE \<Rightarrow> (if writer l = Some t then 1 else 0))"

lemma rw_holds_count: "rw_holds m t l \<longleftrightarrow> 1 \<le> lock_count m t l"
  by (cases m) (simp_all add: rw_holds_def lock_count_def)

lemma lock_count_acquire:
  "rw_acquire m t l = Some l' \<Longrightarrow>
     lock_count m' t' l' = lock_count m' t' l + (if m' = m \<and> t' = t then 1 else 0)"
  by (cases m; cases m') (auto simp: lock_count_def rw_ops reader_holds_def split: if_splits option.splits)

lemma lock_count_release:
  assumes "rw_inv l" and "rw_holds m t l" and "rw_release m t l = Inr l'"
  shows "lock_count m' t' l' = lock_count m' t' l - (if m' = m \<and> t' = t then 1 else 0)"
proof (cases m)
  case READ
  with assms(2) obtain b where b: "map_of (reader_threads l) t = Some b" "1 \<le> b"
    using rw_holds_dict [of t l] by (auto simp: rw_holds_def reader_holds_def)
  with READ assms(3) show ?thesis
    by (cases m') (auto simp: lock_count_def rw_ops reader_holds_def Let_def split: if_splits option.splits)
next
  case WRITE
  with assms(2,3) show ?thesis
    by (cases m') (auto simp: lock_count_def rw_ops rw_holds_def reader_holds_def)
qed

definition accounted :: "'k sys \<Rightarrow> bool" where
  "accounted s \<longleftrightarrow> (\<forall>k. rw_inv (sys_locks s k)) \<and>
     (\<forall>k m t. lock_count m t (sys_locks s k) = int (count_list (held (sys_procs s t)) (k, m)))"

lemma accounted_init: "accounted init_sys"
  by (auto simp: accounted_def init_sys_def lock_count_def reader_holds_def new_rw_lock_def
      rw_inv_def rw_excl_def rw_books_def split: access_mode.splits)

text \<open>Three kinds of change keep the accounts: none, one grant, one release.\<close>

lemma accounted_set_proc:
  "accounted s \<Longrightarrow> held p = held (sys_procs s t) \<Longrightarrow> accounted (set_proc t p s)"
  by (simp add: accounted_def set_proc_def)

lemma accounted_grant:
  assumes "accounted s" and "rw_acquire (snd r) t (sys_locks s (fst r)) = Some l"
    and "held p = held (sys_procs s t) @ [r]"
  shows "accounted (set_proc t p (s\<lparr>sys_locks := (sys_locks s)(fst r := l)\<rparr>))"
  using assms rw_inv_acquire [OF _ assms(2)] lock_count_acquire [OF assms(2)]
  by (auto simp: accounted_def set_proc_def prod_eq_iff)

lemma held_releasable:
  assumes "accounted s" and "r \<in> set (held (sys_procs s t))"
  shows "\<exists>l. rw_release (snd r) t (sys_locks s (fst r)) = Inr l \<and> rw_inv l"
proof (rule rw_release_ok)
  show "rw_inv (sys_locks s (fst r))" using assms(1) by (simp add: accounted_def)
  have "0 < count_list (held (sys_procs s t)) (fst r, snd r)"
    using assms(2) by (simp add: count_list_0_iff zero_less_iff_neq_zero)
  then show "rw_holds (snd r) t (sys_locks s (fst r))"
    using assms(1) by (simp add: rw_holds_count accounted_def)
qed

lemma accounted_release:
  assumes "accounted s" and "held (sys_procs s t) = held p @ [r]"
  shows "accounted (set_proc t p (drop_lock t r s))"
proof -
  have r: "r \<in> set (held (sys_procs s t))" using assms(2) by simp
  from held_releasable [OF assms(1) r] obtain l
    where l: "rw_release (snd r) t (sys_locks s (fst r)) = Inr l" "rw_inv l" by blast
  have h: "rw_holds (snd r) t (sys_locks s (fst r))"
    using assms by (simp add: rw_holds_count accounted_def)
  have i: "rw_inv (sys_locks s (fst r))" using assms(1) by (simp add: accounted_def)
  show ?thesis
    using assms l lock_count_release [OF i h l(1)]
    by (auto simp: accounted_def set_proc_def drop_lock_def release_one_def prod_eq_iff)
qed

lemma held_attempt [simp]: "held (attempt n plan acquired) = acquired"
  by (simp add: attempt_def)

lemma lm_step_accounted: "lm_step retries digest s s' \<Longrightarrow> accounted s \<Longrightarrow> accounted s'"
  by (induction rule: lm_step.induct)
     (auto intro: accounted_set_proc accounted_grant accounted_release)

lemma reachable_accounted: "lm_reachable retries digest s \<Longrightarrow> accounted s"
  by (induction rule: lm_reachable.induct) (auto intro: accounted_init lm_step_accounted)


inductive_cases lm_stepE: "lm_step retries digest s s'"

subsection \<open>Mutual exclusion\<close>

text \<open>C7: in every reachable state of any number of interleaved threads, a resource written by
  one thread is held by no other thread in any mode.\<close>

theorem write_lock_exclusive:
  assumes "lm_reachable retries digest s" and "(k, WRITE) \<in> set (held (sys_procs s t))"
    and "(k, m) \<in> set (held (sys_procs s t'))"
  shows "t' = t"
proof (rule ccontr)
  assume ne: "t' \<noteq> t"
  have acc: "accounted s" using assms(1) by (rule reachable_accounted)
  have pos: "0 < count_list (held (sys_procs s u)) q" if "q \<in> set (held (sys_procs s u))" for u q
    using that by (simp add: count_list_0_iff zero_less_iff_neq_zero)
  let ?l = "sys_locks s k"
  have c: "1 \<le> lock_count WRITE t ?l" "1 \<le> lock_count m t' ?l"
    using acc pos [OF assms(2)] pos [OF assms(3)] by (simp_all add: accounted_def)
  then have w: "writer ?l = Some t" by (simp add: lock_count_def split: if_splits)
  with c(2) ne have m: "m = READ" by (cases m) (simp_all add: lock_count_def)
  have inv: "rw_inv ?l" using acc by (simp add: accounted_def)
  from c(2) m obtain b where "map_of (reader_threads ?l) t' = Some b"
    using rw_holds_dict [of t' ?l] by (auto simp: rw_holds_count)
  with inv have "1 \<le> readers ?l"
    using reader_holds_pos [of ?l t' b] by (auto simp: rw_inv_def)
  with inv w show False by (simp add: rw_inv_def rw_excl_def)
qed

text \<open>A thread releases only what it holds, so the swallowed \<open>RuntimeError\<close> never occurs.\<close>

lemma release_never_fails:
  assumes "lm_reachable retries digest s" and "r \<in> set (held (sys_procs s t))"
  shows "\<exists>l. rw_release (snd r) t (sys_locks s (fst r)) = Inr l"
  using held_releasable [OF reachable_accounted [OF assms(1)] assms(2)] by blast

subsection \<open>No circular wait\<close>

fun plan_of :: "'k proc \<Rightarrow> 'k request list" where
  "plan_of (Unwinding n plan acquired) = plan"
| "plan_of (Acquiring n plan todo acquired) = plan"
| "plan_of (Waiting n plan todo acquired) = plan"
| "plan_of _ = []"

fun in_order :: "'k::linorder proc \<Rightarrow> bool" where
  "in_order (Unwinding n plan acquired) = sorted (map fst plan)"
| "in_order (Acquiring n plan todo acquired) = (sorted (map fst plan) \<and> plan = acquired @ todo)"
| "in_order (Waiting n plan todo acquired) =
     (sorted (map fst plan) \<and> plan = acquired @ todo \<and> todo \<noteq> [])"
| "in_order _ = True"

definition ordered :: "'k::linorder sys \<Rightarrow> bool" where
  "ordered s \<longleftrightarrow> finite {t. sys_procs s t \<noteq> Idle} \<and> (\<forall>t. in_order (sys_procs s t))"

lemma ordered_set_proc:
  assumes "ordered s" and "in_order p" and "sys_procs s' = sys_procs s"
  shows "ordered (set_proc t p s')"
proof -
  have "{u. sys_procs (set_proc t p s') u \<noteq> Idle} \<subseteq> insert t {u. sys_procs s u \<noteq> Idle}"
    using assms(3) by (auto simp: set_proc_def)
  then have "finite {u. sys_procs (set_proc t p s') u \<noteq> Idle}"
    using assms(1) by (auto simp: ordered_def intro: finite_subset)
  moreover have "in_order (sys_procs (set_proc t p s') u)" for u
    using assms by (simp add: ordered_def set_proc_def)
  ultimately show ?thesis by (simp add: ordered_def)
qed

lemma sorted_plan: "sorted (map fst (sorted_requests digest ds))"
  by (simp add: sorted_requests_def comp_def)

lemma ordered_proc: "ordered s \<Longrightarrow> sys_procs s t = p \<Longrightarrow> in_order p"
  by (auto simp: ordered_def)

lemma lm_step_ordered: "lm_step retries digest s s' \<Longrightarrow> ordered s \<Longrightarrow> ordered s'"
  by (induction rule: lm_step.induct; rule ordered_set_proc, assumption)
     (auto simp: attempt_def sorted_plan drop_lock_def dest: ordered_proc)

lemma reachable_ordered: "lm_reachable retries digest s \<Longrightarrow> ordered s"
proof (induction rule: lm_reachable.induct)
  case start
  show ?case by (simp add: ordered_def init_sys_def)
qed (rule lm_step_ordered)

text \<open>A thread that can move without waiting for a timeout.\<close>

fun runnable :: "'k sys \<Rightarrow> tid \<Rightarrow> bool" where
  "runnable s t =
     (case sys_procs s t of
        Idle \<Rightarrow> False
      | Waiting n plan todo acquired \<Rightarrow>
          (case todo of [] \<Rightarrow> False | r # _ \<Rightarrow> rw_acquire (snd r) t (sys_locks s (fst r)) \<noteq> None)
      | _ \<Rightarrow> True)"

text \<open>A refused request is refused because some thread holds the key.\<close>

lemma refused_holder:
  assumes "accounted s" and "rw_acquire m t (sys_locks s k) = None"
  shows "\<exists>u m'. (k, m') \<in> set (held (sys_procs s u))"
proof -
  let ?l = "sys_locks s k"
  have inv: "rw_inv ?l" using assms(1) by (simp add: accounted_def)
  have mem: "(k, m') \<in> set (held (sys_procs s u))" if "1 \<le> lock_count m' u ?l" for m' u
  proof -
    have "count_list (held (sys_procs s u)) (k, m') \<noteq> 0"
      using that assms(1) by (simp add: accounted_def)
    then show ?thesis by (simp add: count_list_0_iff)
  qed
  show ?thesis
  proof (cases "writer ?l")
    case (Some w)
    then show ?thesis using mem [of WRITE w] by (auto simp: lock_count_def)
  next
    case None
    with assms(2) have "0 < readers ?l" by (cases m) (auto simp: rw_ops split: if_splits)
    with inv obtain u c where "(u, c) \<in> set (reader_threads ?l)"
      by (cases "reader_threads ?l") (auto simp: rw_inv_def rw_books_def)
    moreover have "dict_ok (reader_threads ?l)" "counts_pos (reader_threads ?l)"
      using inv by (simp_all add: rw_inv_def rw_books_def)
    ultimately have "1 \<le> lock_count READ u ?l"
      by (auto simp: lock_count_def reader_holds_def counts_pos_def dict_ok_def)
    then show ?thesis using mem by blast
  qed
qed

lemma stalled_chain:
  assumes "accounted s" and "ordered s" and "\<forall>t. \<not> runnable s t"
    and "distinct (map fst (plan_of (sys_procs s t)))"
    and "sys_procs s t = Waiting n plan (r # todo) acquired"
    and holder: "(k, m) \<in> set (held (sys_procs s t))"
  shows "k < fst r"
proof -
  have "in_order (Waiting n plan (r # todo) acquired)" using assms(2,5) by (rule ordered_proc)
  then have plan: "plan = acquired @ r # todo" and srt: "sorted (map fst plan)" by auto
  have "distinct (map fst plan)" using assms(4,5) by simp
  then have "fst r \<notin> set (map fst acquired)" unfolding plan by simp
  moreover have "\<forall>x \<in> set (map fst acquired). x \<le> fst r"
    using srt unfolding plan by (simp add: sorted_append)
  moreover have "(k, m) \<in> set acquired" using holder assms(5) by simp
  then have "k \<in> set (map fst acquired)" by force
  ultimately have "k \<le> fst r" "k \<noteq> fst r" by metis+
  then show ?thesis by simp
qed



subsection \<open>A run of two threads\<close>

text \<open>Thread 1 takes the write lock on a file; thread 2 asks for the same file and waits.\<close>

definition demo_request :: "nat request list" where
  "demo_request = [(7, WRITE)]"

definition demo_held :: "nat sys" where
  "demo_held = set_proc 1 (Acquiring 3 demo_request [] demo_request)
     (set_proc 1 (Acquiring 3 demo_request demo_request [])
       (set_proc 1 (attempt 3 demo_request []) init_sys)
       \<lparr>sys_locks := (sys_locks init_sys)(7 := new_rw_lock\<lparr>writer := Some 1\<rparr>)\<rparr>)"

lemma demo_requests: "sorted_requests length [file_decl ''a'' WRITE] = demo_request"
  by (simp add: sorted_requests_def demo_request_def lock_key_def file_decl_def)

lemma demo_held_reachable: "lm_reachable 3 length demo_held"
proof -
  let ?s1 = "set_proc 1 (attempt 3 demo_request []) init_sys"
  let ?s2 = "set_proc 1 (Acquiring 3 demo_request demo_request []) ?s1"
  have "lm_step 3 length init_sys ?s1"
    using lm_step.begin_call [of init_sys 1 "[file_decl ''a'' WRITE]" 3 length]
    by (simp add: demo_requests init_sys_def)
  moreover have "lm_step 3 length ?s1 ?s2"
    by (rule lm_step.restart [of _ _ 3]) (simp add: set_proc_def attempt_def)
  moreover have "lm_step 3 length ?s2 demo_held"
    using lm_step.grant [of ?s2 1 3 demo_request "(7, WRITE)" "[]" "[]" "new_rw_lock\<lparr>writer := Some 1\<rparr>"]
    by (simp add: demo_held_def demo_request_def set_proc_def rw_ops init_sys_def new_rw_lock_def)
  ultimately show ?thesis by (blast intro: lm_reachable.intros)
qed

theorem write_lock_exclusive_witness:
  "lm_reachable 3 length demo_held \<and> (7, WRITE) \<in> set (held (sys_procs demo_held 1)) \<and>
   (7, READ) \<notin> set (held (sys_procs demo_held 2))"
proof -
  have h: "(7, WRITE) \<in> set (held (sys_procs demo_held 1))"
    by (simp add: demo_held_def set_proc_def demo_request_def)
  show ?thesis
    using demo_held_reachable h write_lock_exclusive [OF demo_held_reachable h, of READ 2] by auto
qed


end
