(* ===== verification/Tool_Executor.thy ===== *)
theory Tool_Executor
  imports Lock_Manager
begin

text \<open>
  \<open>app/parallel_executor/executor.py\<close>: scheduling groups, the execution of one call, and the
  collection of results and metrics by the thread-pool and the asyncio executor.  A tool is a
  function from its call to an outcome; the order in which futures complete is an argument.
\<close>

subsection \<open>Calls and results\<close>

datatype tool_call_status = PENDING | RUNNING | COMPLETED | FAILED | TIMED_OUT

datatype progress_event_type =
  EV_STARTED | EV_COMPLETED | EV_FAILED | EV_TIMED_OUT | EV_GROUP_STARTED | EV_GROUP_COMPLETED

record tool_call =
  call_id :: string
  tool_name :: string
  call_resources :: declared_resources
  call_timeout :: "time option"

text \<open>What the tool does within its time limit: return, raise, or fail to finish.\<close>

datatype 'v outcome = Returns 'v | Raises string | Overruns

datatype tool_error = TimeoutError | ToolError string | ResultMissing

record 'v tool_result =
  result_id :: string
  result_tool :: string
  result_status :: tool_call_status
  result_value :: "'v option"
  result_error :: "tool_error option"

definition success :: "'v tool_result \<Rightarrow> bool" where
  "success r = (result_status r = COMPLETED)"

subsection \<open>Scheduling groups\<close>

text \<open>
  The inner loop of \<open>_build_scheduling_groups\<close>: the conflicts met on the way, and the groups with
  the call added to the first group that does not conflict, if there is one.
\<close>

type_synonym sched_group = "tool_call list \<times> declared_resources"

fun place_call ::
  "(string \<Rightarrow> 'k) \<Rightarrow> tool_call \<Rightarrow> sched_group list \<Rightarrow> nat \<times> sched_group list option" where
  "place_call digest c [] = (0, None)"
| "place_call digest c ((g, res) # gs) =
     (if conflicts_with digest res (call_resources c)
      then (case place_call digest c gs of (n, r) \<Rightarrow> (Suc n, map_option ((#) (g, res)) r))
      else (0, Some ((g @ [c], resources_union res (call_resources c)) # gs)))"

fun add_call :: "(string \<Rightarrow> 'k) \<Rightarrow> tool_call \<Rightarrow> sched_group list \<times> nat \<Rightarrow> sched_group list \<times> nat" where
  "add_call digest c (gs, n) =
     (case place_call digest c gs of
        (k, None) \<Rightarrow> (gs @ [([c], call_resources c)], n + k)
      | (k, Some gs') \<Rightarrow> (gs', n + k))"

definition build_scheduling_groups ::
  "(string \<Rightarrow> 'k) \<Rightarrow> tool_call list \<Rightarrow> tool_call list list \<times> nat" where
  "build_scheduling_groups digest calls =
     (case fold (add_call digest) calls ([], 0) of (gs, n) \<Rightarrow> (map fst gs, n))"

definition calls_of :: "sched_group list \<Rightarrow> tool_call multiset" where
  "calls_of gs = mset (concat (map fst gs))"

lemma place_call_mset:
  "place_call digest c gs = (n, Some gs') \<Longrightarrow> calls_of gs' = add_mset c (calls_of gs)"
  by (induction digest c gs arbitrary: n gs' rule: place_call.induct)
     (auto simp: calls_of_def split: if_splits prod.splits)

lemma add_call_mset: "calls_of (fst (add_call digest c st)) = add_mset c (calls_of (fst st))"
  by (cases st) (auto simp: calls_of_def dest: place_call_mset split: prod.splits option.splits)

lemma fold_add_call_mset:
  "calls_of (fst (fold (add_call digest) cs st)) = mset cs + calls_of (fst st)"
  by (induction cs arbitrary: st) (simp_all add: add_call_mset)

text \<open>
  The group invariant: the recorded resources are those of its calls, name each key once, and no
  two of its calls conflict.  It needs that distinct resources have distinct lock keys, which is
  what SHA-256 is used for.
\<close>

definition keys_distinguish :: "(string \<Rightarrow> 'k) \<Rightarrow> resource_declaration set \<Rightarrow> bool" where
  "keys_distinguish digest D \<longleftrightarrow>
     (\<forall>a\<in>D. \<forall>b\<in>D. lock_key digest a = lock_key digest b \<longrightarrow> mode a = mode b \<longrightarrow> a = b)"

abbreviation calls_conflict :: "(string \<Rightarrow> 'k) \<Rightarrow> tool_call \<Rightarrow> tool_call \<Rightarrow> bool" where
  "calls_conflict digest a b \<equiv>
     conflict_spec digest (set (call_resources a)) (set (call_resources b))"

definition group_ok :: "(string \<Rightarrow> 'k) \<Rightarrow> resource_declaration set \<Rightarrow> sched_group \<Rightarrow> bool" where
  "group_ok digest D g \<longleftrightarrow>
     set (snd g) = (\<Union>c\<in>set (fst g). set (call_resources c)) \<and> set (snd g) \<subseteq> D \<and>
     one_mode_per_key digest (snd g) \<and>
     sorted_wrt (\<lambda>a b. \<not> calls_conflict digest a b) (fst g)"

definition call_ok :: "(string \<Rightarrow> 'k) \<Rightarrow> resource_declaration set \<Rightarrow> tool_call \<Rightarrow> bool" where
  "call_ok digest D c \<longleftrightarrow>
     one_mode_per_key digest (call_resources c) \<and> set (call_resources c) \<subseteq> D"

lemma one_mode_per_key_iff:
  "one_mode_per_key digest ds \<longleftrightarrow> distinct ds \<and> inj_on (lock_key digest) (set ds)"
  by (simp add: one_mode_per_key_def distinct_map)

lemma union_one_mode:
  assumes D: "keys_distinguish digest D" and "set a \<subseteq> D" and "set b \<subseteq> D"
    and a: "one_mode_per_key digest a" and b: "one_mode_per_key digest b"
    and nc: "\<not> conflict_spec digest (set a) (set b)"
  shows "one_mode_per_key digest (resources_union a b)"
proof -
  have eq: "x = y" if "x \<in> set a" "y \<in> set b" "lock_key digest x = lock_key digest y" for x y
  proof -
    from nc that have "mode x = READ" "mode y = READ"
      by (auto simp: conflict_spec_def is_write_def intro: access_mode.exhaust)
    with that assms(2,3) D show ?thesis unfolding keys_distinguish_def by (metis subsetD)
  qed
  have "inj_on (lock_key digest) (set a \<union> set b)"
  proof (rule inj_onI)
    fix x y
    assume "x \<in> set a \<union> set b" "y \<in> set a \<union> set b" and k: "lock_key digest x = lock_key digest y"
    then consider "x \<in> set a" "y \<in> set a" | "x \<in> set b" "y \<in> set b"
      | "x \<in> set a" "y \<in> set b" | "x \<in> set b" "y \<in> set a" by blast
    then show "x = y"
      using a b k eq [of x y] eq [of y x] by cases (auto simp: one_mode_per_key_iff dest: inj_onD)
  qed
  then show ?thesis
    by (simp add: one_mode_per_key_iff) (simp add: resources_union_def declared_def)
qed

lemma group_ok_add:
  assumes D: "keys_distinguish digest D" and g: "group_ok digest D (g, res)" and c: "call_ok digest D c"
    and nc: "\<not> conflicts_with digest res (call_resources c)"
  shows "group_ok digest D (g @ [c], resources_union res (call_resources c))"
proof -
  have nc': "\<not> conflict_spec digest (set res) (set (call_resources c))"
    using conflicts_complete_unique [of digest res "call_resources c"] g c nc
    by (auto simp: group_ok_def call_ok_def)
  then have "\<forall>a\<in>set g. \<not> calls_conflict digest a c"
    using g by (fastforce simp: group_ok_def conflict_spec_def)
  moreover have "one_mode_per_key digest (resources_union res (call_resources c))"
    using g c by (intro union_one_mode [OF D _ _ _ _ nc']) (auto simp: group_ok_def call_ok_def)
  ultimately show ?thesis using g c by (auto simp: group_ok_def call_ok_def sorted_wrt_append)
qed

lemma place_call_ok:
  assumes "keys_distinguish digest D" and "\<forall>g\<in>set gs. group_ok digest D g" and "call_ok digest D c"
    and "place_call digest c gs = (n, Some gs')"
  shows "\<forall>g\<in>set gs'. group_ok digest D g"
  using assms(2,4)
proof (induction gs arbitrary: n gs')
  case (Cons g gs)
  obtain h res where g: "g = (h, res)" by (cases g)
  show ?case
  proof (cases "conflicts_with digest res (call_resources c)")
    case True
    with Cons g show ?thesis by (auto split: prod.splits)
  next
    case False
    with Cons.prems g group_ok_add [OF assms(1) _ assms(3) False, of h] show ?thesis by auto
  qed
qed simp

lemma fold_add_call_ok:
  assumes "keys_distinguish digest D" and "\<forall>g\<in>set (fst st). group_ok digest D g"
    and "\<forall>c\<in>set cs. call_ok digest D c"
  shows "\<forall>g\<in>set (fst (fold (add_call digest) cs st)). group_ok digest D g"
  using assms(2,3)
proof (induction cs arbitrary: st)
  case (Cons c cs)
  obtain gs n where st: "st = (gs, n)" by (cases st)
  have "group_ok digest D ([c], call_resources c)"
    using Cons.prems by (auto simp: group_ok_def call_ok_def)
  with Cons.prems st have "\<forall>g\<in>set (fst (add_call digest c st)). group_ok digest D g"
    using place_call_ok [OF assms(1)]
    by (auto split: prod.splits option.splits)
  with Cons show ?case by simp
qed simp

text \<open>C5: the scheduler partitions the calls, and when distinct resources have distinct lock keys
  and each call names a key in one mode, no two calls of one group conflict.  (The docstring
  says the opposite, that conflicting calls share a group.)\<close>

theorem scheduling_groups_correct:
  assumes "keys_distinguish digest (\<Union>c\<in>set calls. set (call_resources c))"
    and "\<forall>c\<in>set calls. one_mode_per_key digest (call_resources c)"
    and "build_scheduling_groups digest calls = (groups, n)"
  shows "mset (concat groups) = mset calls \<and>
    (\<forall>g\<in>set groups. \<forall>i j. i < j \<longrightarrow> j < length g \<longrightarrow> \<not> calls_conflict digest (g ! i) (g ! j))"
proof -
  let ?D = "\<Union>c\<in>set calls. set (call_resources c)"
  obtain gs m where f: "fold (add_call digest) calls ([], 0) = (gs, m)" by (metis prod.exhaust)
  with assms(3) have g: "groups = map fst gs" by (simp add: build_scheduling_groups_def)
  have "\<forall>c\<in>set calls. call_ok digest ?D c" using assms(2) by (auto simp: call_ok_def)
  then have "\<forall>g\<in>set gs. group_ok digest ?D g"
    using fold_add_call_ok [OF assms(1), of "([], 0)" calls] f by simp
  then have "\<forall>g\<in>set groups. sorted_wrt (\<lambda>a b. \<not> calls_conflict digest a b) g"
    using g by (auto simp: group_ok_def)
  moreover have "mset (concat groups) = mset calls"
    using fold_add_call_mset [of digest calls "([], 0)"] f g by (simp add: calls_of_def)
  ultimately show ?thesis by (auto simp: sorted_wrt_iff_nth_less)
qed


definition demo_call :: "string \<Rightarrow> declared_resources \<Rightarrow> tool_call" where
  "demo_call i ds = \<lparr>call_id = i, tool_name = ''tool'', call_resources = ds, call_timeout = None\<rparr>"

theorem scheduling_groups_correct_witness:
  "fst (build_scheduling_groups id
      [demo_call ''1'' [file_decl ''a'' WRITE], demo_call ''2'' [file_decl ''a'' READ],
       demo_call ''3'' [file_decl ''b'' READ]]) =
     [[demo_call ''1'' [file_decl ''a'' WRITE], demo_call ''3'' [file_decl ''b'' READ]],
      [demo_call ''2'' [file_decl ''a'' READ]]] \<and>
   \<not> calls_conflict id (demo_call ''1'' [file_decl ''a'' WRITE]) (demo_call ''3'' [file_decl ''b'' READ])"
proof -
  let ?a = "demo_call ''1'' [file_decl ''a'' WRITE]" and ?b = "demo_call ''3'' [file_decl ''b'' READ]"
  let ?cs = "[?a, demo_call ''2'' [file_decl ''a'' READ], ?b]"
  have d: "keys_distinguish id (\<Union>c\<in>set ?cs. set (call_resources c))"
    by (simp add: keys_distinguish_def lock_key_def file_decl_def demo_call_def)
  have m: "\<forall>c\<in>set ?cs. one_mode_per_key id (call_resources c)"
    by (simp add: one_mode_per_key_def demo_call_def)
  have g: "build_scheduling_groups id ?cs = ([[?a, ?b], [demo_call ''2'' [file_decl ''a'' READ]]], 1)"
    by (simp add: build_scheduling_groups_def conflicts_with_def by_key_def lock_key_def file_decl_def demo_call_def
        resources_union_def is_write_def)
  from scheduling_groups_correct [OF d m g] have "\<not> calls_conflict id ([?a, ?b] ! 0) ([?a, ?b] ! 1)"
    by (metis One_nat_def length_Cons lessI list.set_intros(1) list.size(3) numeral_nat(7))
  with g show ?thesis by simp
qed

subsection \<open>One call\<close>

text \<open>
  \<open>call.timeout or self._default_timeout\<close>: a timeout of zero counts as none.
\<close>

definition effective_timeout :: "time option \<Rightarrow> tool_call \<Rightarrow> time option" where
  "effective_timeout dflt c =
     (case call_timeout c of None \<Rightarrow> dflt | Some t \<Rightarrow> if t = 0 then dflt else Some t)"

text \<open>
  \<open>_execute_single\<close> with the outcome of the lock-protected tool call: the events emitted and the
  result.  Without a limit a tool that never finishes gives no result.
\<close>

definition execute_single ::
  "time option \<Rightarrow> (tool_call \<Rightarrow> 'v outcome) \<Rightarrow> tool_call \<Rightarrow>
     (progress_event_type list \<times> 'v tool_result) option" where
  "execute_single dflt run c =
     (let res = (\<lambda>st v e. \<lparr>result_id = call_id c, result_tool = tool_name c,
                            result_status = st, result_value = v, result_error = e\<rparr>)
      in case run c of
           Returns v \<Rightarrow> Some ([EV_STARTED, EV_COMPLETED], res COMPLETED (Some v) None)
         | Raises e \<Rightarrow> Some ([EV_STARTED, EV_FAILED], res FAILED None (Some (ToolError e)))
         | Overruns \<Rightarrow>
             (if effective_timeout dflt c = None then None
              else Some ([EV_STARTED, EV_TIMED_OUT], res TIMED_OUT None (Some TimeoutError))))"

definition terminal_event :: "tool_call_status \<Rightarrow> progress_event_type" where
  "terminal_event st =
     (case st of COMPLETED \<Rightarrow> EV_COMPLETED | TIMED_OUT \<Rightarrow> EV_TIMED_OUT | _ \<Rightarrow> EV_FAILED)"

lemma execute_single_shape:
  assumes "execute_single dflt run c = Some (evs, r)"
  shows "evs = [EV_STARTED, terminal_event (result_status r)] \<and> result_id r = call_id c \<and>
    result_status r \<in> {COMPLETED, FAILED, TIMED_OUT} \<and>
    (result_value r = None) = (result_status r \<noteq> COMPLETED)"
  using assms by (auto simp: execute_single_def terminal_event_def Let_def split: outcome.splits if_splits)

lemma execute_single_returns:
  assumes "run c = Overruns \<longrightarrow> effective_timeout dflt c \<noteq> None"
  shows "\<exists>evs r. execute_single dflt run c = Some (evs, r)"
  using assms by (auto simp: execute_single_def split: outcome.splits)

subsection \<open>Collecting the results\<close>

definition missing_result :: "tool_call \<Rightarrow> 'v tool_result" where
  "missing_result c = \<lparr>result_id = call_id c, result_tool = tool_name c, result_status = FAILED,
     result_value = None, result_error = Some ResultMissing\<rparr>"

definition ordered_results ::
  "tool_call list \<Rightarrow> (string \<times> 'v tool_result) list \<Rightarrow> 'v tool_result list" where
  "ordered_results calls by_id =
     map (\<lambda>c. case map_of by_id (call_id c) of Some r \<Rightarrow> r | None \<Rightarrow> missing_result c) calls"

text \<open>
  \<open>ParallelToolExecutor.execute\<close>: \<open>call_futures\<close> is keyed by call id, \<open>perm\<close> is the order in
  which \<open>as_completed\<close> yields its futures, and a future whose result raises is skipped.
\<close>

definition call_futures :: "tool_call list \<Rightarrow> (string \<times> tool_call) list" where
  "call_futures calls = fold (\<lambda>c. AList.update (call_id c) c) calls []"

definition collect_completed ::
  "(tool_call \<Rightarrow> 'v tool_result option) \<Rightarrow> tool_call list \<Rightarrow> (string \<times> 'v tool_result) list" where
  "collect_completed single perm =
     fold (\<lambda>c d. case single c of None \<Rightarrow> d | Some r \<Rightarrow> AList.update (result_id r) r d) perm []"

definition execute_pool ::
  "(tool_call list \<Rightarrow> tool_call list) \<Rightarrow> (tool_call \<Rightarrow> 'v tool_result option) \<Rightarrow>
     tool_call list \<Rightarrow> 'v tool_result list" where
  "execute_pool perm single calls =
     ordered_results calls (collect_completed single (perm (map snd (call_futures calls))))"

text \<open>
  \<open>AsyncParallelToolExecutor.execute\<close>: one task per distinct id, \<open>gather\<close> returns results in task
  order, and \<open>zip\<close> pairs them with the calls; an exception in a task becomes a FAILED result.
\<close>

definition failed_result :: "tool_call \<Rightarrow> string \<Rightarrow> 'v tool_result" where
  "failed_result c e = \<lparr>result_id = call_id c, result_tool = tool_name c, result_status = FAILED,
     result_value = None, result_error = Some (ToolError e)\<rparr>"

definition execute_async ::
  "(tool_call \<Rightarrow> string + 'v tool_result) \<Rightarrow> tool_call list \<Rightarrow> 'v tool_result list" where
  "execute_async single calls =
     ordered_results calls
       (fold (\<lambda>(c, raw) d. AList.update (call_id c)
                (case raw of Inl e \<Rightarrow> failed_result c e | Inr r \<Rightarrow> r) d)
          (zip calls (map single (map snd (call_futures calls)))) [])"

subsection \<open>Metrics\<close>

record metrics =
  num_tool_calls :: nat
  num_succeeded :: nat
  num_failed :: nat
  num_timed_out :: nat
  num_scheduling_groups :: nat
  num_resource_conflicts :: nat

definition build_metrics ::
  "(string \<Rightarrow> 'k) \<Rightarrow> tool_call list \<Rightarrow> 'v tool_result list \<Rightarrow> metrics" where
  "build_metrics digest calls results =
     (case build_scheduling_groups digest calls of (groups, conflicts) \<Rightarrow>
       \<lparr>num_tool_calls = length calls,
        num_succeeded = length (filter success results),
        num_failed = length (filter (\<lambda>r. result_status r = FAILED) results),
        num_timed_out = length (filter (\<lambda>r. result_status r = TIMED_OUT) results),
        num_scheduling_groups = length groups,
        num_resource_conflicts = conflicts\<rparr>)"

subsection \<open>Order of results\<close>

lemma call_futures_distinct:
  "distinct (map call_id calls) \<Longrightarrow> call_futures calls = map (\<lambda>c. (call_id c, c)) calls"
proof -
  have "fold (\<lambda>c. AList.update (call_id c) c) cs d = d @ map (\<lambda>c. (call_id c, c)) cs"
    if "distinct (map call_id cs)" "fst ` set d \<inter> call_id ` set cs = {}" for cs d
    using that
  proof (induction cs arbitrary: d)
    case (Cons c cs)
    then have "AList.update (call_id c) c d = d @ [(call_id c, c)]" by (intro update_new) auto
    with Cons show ?case by auto
  qed simp
  from this [of calls "[]"] show "distinct (map call_id calls) \<Longrightarrow> ?thesis"
    by (simp add: call_futures_def)
qed

lemma collect_completed_lookup:
  assumes "\<forall>c r. single c = Some r \<longrightarrow> result_id r = call_id c" and "distinct (map call_id cs)"
    and "c \<in> set cs"
  shows "map_of (collect_completed single cs) (call_id c) = single c"
proof -
  have frame: "map_of (fold (\<lambda>c d. case single c of None \<Rightarrow> d | Some r \<Rightarrow> AList.update (result_id r) r d) cs d) i
      = map_of d i" if "i \<notin> call_id ` set cs" for cs d i
    using that assms(1) by (induction cs arbitrary: d) (auto split: option.splits)
  have "map_of (fold (\<lambda>c d. case single c of None \<Rightarrow> d | Some r \<Rightarrow> AList.update (result_id r) r d) cs d) (call_id c)
      = single c" if "distinct (map call_id cs)" "c \<in> set cs" "map_of d (call_id c) = None" for d
    using that
  proof (induction cs arbitrary: d)
    case (Cons x xs)
    show ?case
    proof (cases "x = c")
      case True
      with Cons.prems assms(1) show ?thesis by (cases "single c") (simp_all add: frame)
    next
      case False
      with Cons.prems have "call_id x \<noteq> call_id c" by auto
      with Cons False assms(1) show ?thesis by (cases "single x") auto
    qed
  qed simp
  from this [of "[]"] assms(2,3) show ?thesis by (simp add: collect_completed_def)
qed

text \<open>with distinct call ids the pool executor returns one result per call in the order of the
  calls, whatever order the futures complete in: the call's own result, or the "missing" failure
  when its future raised.\<close>

theorem execute_pool_ordered:
  assumes "distinct (map call_id calls)" and "\<forall>c r. single c = Some r \<longrightarrow> result_id r = call_id c"
    and "\<forall>xs. mset (perm xs) = mset xs"
  shows "execute_pool perm single calls =
    map (\<lambda>c. case single c of Some r \<Rightarrow> r | None \<Rightarrow> missing_result c) calls"
proof -
  have fut: "map snd (call_futures calls) = calls"
    using assms(1) by (simp add: call_futures_distinct comp_def)
  have p: "mset (perm calls) = mset calls" using assms(3) by blast
  then have "set (perm calls) = set calls" by (rule mset_eq_setD)
  moreover have "mset (map call_id (perm calls)) = mset (map call_id calls)" using p by simp
  then have "distinct (map call_id (perm calls))"
    using assms(1) mset_eq_imp_distinct_iff by blast
  ultimately show ?thesis
    using collect_completed_lookup [OF assms(2)] by (simp add: execute_pool_def ordered_results_def fut)
qed

theorem execute_pool_ordered_witness:
  "execute_pool rev (\<lambda>c. if call_id c = ''2'' then None else map_option snd
       (execute_single None (\<lambda>_. Returns (7::int)) c)) [demo_call ''1'' [], demo_call ''2'' []] =
   [\<lparr>result_id = ''1'', result_tool = ''tool'', result_status = COMPLETED, result_value = Some 7,
     result_error = None\<rparr>, missing_result (demo_call ''2'' [])]"
  (is "execute_pool rev ?single ?calls = _")
proof -
  have d: "distinct (map call_id ?calls)" by (simp add: demo_call_def)
  have i: "\<forall>c r. ?single c = Some r \<longrightarrow> result_id r = call_id c"
    by (auto dest: execute_single_shape)
  have p: "\<forall>xs :: tool_call list. mset (rev xs) = mset xs" by simp
  show ?thesis unfolding execute_pool_ordered [OF d i p]
    by (simp add: demo_call_def execute_single_def Let_def)
qed

text \<open>on distinct call ids the asyncio executor and the thread pool give the same results
  for the same outcomes.\<close>

theorem async_agrees_with_pool:
  assumes "distinct (map call_id calls)" and "\<forall>c. result_id (single c) = call_id c"
    and "\<forall>xs. mset (perm xs) = mset xs"
  shows "execute_async (Inr \<circ> single) calls = execute_pool perm (Some \<circ> single) calls"
proof -
  have fut: "map snd (call_futures calls) = calls"
    using assms(1) by (simp add: call_futures_distinct comp_def)
  have zip: "fold (\<lambda>(c, raw) d. AList.update (call_id c)
        (case raw of Inl e \<Rightarrow> failed_result c e | Inr r \<Rightarrow> r) d) (zip cs (map (Inr \<circ> single) cs)) d
      = fold (\<lambda>c d. case (Some \<circ> single) c of None \<Rightarrow> d | Some r \<Rightarrow> AList.update (result_id r) r d) cs d"
    for cs :: "tool_call list" and d
    using assms(2) by (induction cs arbitrary: d) auto
  have same: "execute_async (Inr \<circ> single) calls = execute_pool id (Some \<circ> single) calls"
    by (simp add: execute_async_def execute_pool_def collect_completed_def fut zip del: map_map)
  have "set (perm calls) = set calls" "distinct (map call_id (perm calls))"
  proof -
    have p: "mset (perm calls) = mset calls" using assms(3) by blast
    then show "set (perm calls) = set calls" by (rule mset_eq_setD)
    from p have "mset (map call_id (perm calls)) = mset (map call_id calls)" by simp
    then show "distinct (map call_id (perm calls))" using assms(1) mset_eq_imp_distinct_iff by blast
  qed
  with assms(1,2) have "execute_pool perm (Some \<circ> single) calls = execute_pool id (Some \<circ> single) calls"
    by (simp add: execute_pool_def ordered_results_def fut collect_completed_lookup)
  with same show ?thesis by simp
qed

theorem async_agrees_with_pool_witness:
  "execute_async (Inr \<circ> (missing_result :: tool_call \<Rightarrow> int tool_result)) [demo_call ''1'' [], demo_call ''2'' []] =
   execute_pool rev (Some \<circ> missing_result) [demo_call ''1'' [], demo_call ''2'' []]"
  by (rule async_agrees_with_pool) (simp_all add: demo_call_def missing_result_def)

text \<open>with a repeated call id the asyncio executor pairs results with the wrong calls: for
  three calls of which the first two share an id, the first call is answered with the third call's
  result, and the third is reported missing although its tool returned.\<close>

theorem async_misattributes_duplicates:
  assumes "call_id a = call_id b" and "call_id c \<noteq> call_id a"
  shows "execute_async (Inr \<circ> single) [a, b, c] = [single c, single c, missing_result c]"
  using assms by (simp add: execute_async_def ordered_results_def call_futures_def)

theorem async_misattributes_duplicates_witness:
  "execute_async (Inr \<circ> (missing_result :: tool_call \<Rightarrow> int tool_result))
     [demo_call ''1'' [], demo_call ''1'' [], demo_call ''2'' []] =
   [missing_result (demo_call ''2'' []), missing_result (demo_call ''2'' []), missing_result (demo_call ''2'' [])]"
  by (rule async_misattributes_duplicates) (simp_all add: demo_call_def)

text \<open>The counts of the metrics add up when every result has a final status.\<close>

lemma metrics_add_up:
  assumes "\<forall>r\<in>set results. result_status r \<in> {COMPLETED, FAILED, TIMED_OUT}"
    and "length results = length calls"
  shows "num_succeeded (build_metrics digest calls results) + num_failed (build_metrics digest calls results)
    + num_timed_out (build_metrics digest calls results) = num_tool_calls (build_metrics digest calls results)"
proof -
  have "length (filter success rs) + length (filter (\<lambda>r. result_status r = FAILED) rs)
      + length (filter (\<lambda>r. result_status r = TIMED_OUT) rs) = length rs"
    if "\<forall>r\<in>set rs. result_status r \<in> {COMPLETED, FAILED, TIMED_OUT}" for rs :: "'a tool_result list"
    using that by (induction rs) (auto simp: success_def)
  with assms show ?thesis by (simp add: build_metrics_def split: prod.splits)
qed

end
