(* ===== verification/Fifo_Lock.thy ===== *)
theory Fifo_Lock
  imports Resource_Lock
begin

text \<open>
  \<open>app/conversation/fifo_lock.py\<close>: the threading and the asyncio FIFO lock as step relations over
  any number of threads or tasks.  A waiter's event or future is named by the thread or task that
  waits on it, since each waits on one at a time.
\<close>

section \<open>The synchronous lock\<close>

text \<open>
  Where a thread is: outside; blocked in \<open>event.wait\<close>; past a timeout but before \<open>with self._lock\<close>;
  signalled but before it takes the lock; or inside its critical section.
\<close>

datatype fifo_pc = Outside | Blocked | TimedOut | Woken | Inside

record fifo =
  fifo_held :: bool
  fifo_owner :: "tid option"
  fifo_hold_count :: nat
  fifo_waiters :: "tid list"
  fifo_set :: "tid set"
  fifo_pc :: "tid \<Rightarrow> fifo_pc"

definition init_fifo :: fifo where
  "init_fifo = \<lparr>fifo_held = False, fifo_owner = None, fifo_hold_count = 0, fifo_waiters = [], fifo_set = {},
                fifo_pc = (\<lambda>_. Outside)\<rparr>"

text \<open>The two critical sections of \<open>acquire\<close>, and what the timed-out thread does.\<close>

definition acquire_enter :: "tid \<Rightarrow> fifo \<Rightarrow> fifo" where
  "acquire_enter t s =
     (if \<not> fifo_held s
      then s\<lparr>fifo_held := True, fifo_owner := Some t, fifo_hold_count := 1, fifo_pc := (fifo_pc s)(t := Inside)\<rparr>
      else s\<lparr>fifo_waiters := fifo_waiters s @ [t], fifo_set := fifo_set s - {t},
             fifo_pc := (fifo_pc s)(t := Blocked)\<rparr>)"

definition acquire_timed_out :: "tid \<Rightarrow> fifo \<Rightarrow> fifo" where
  "acquire_timed_out t s =
     (if t \<in> set (fifo_waiters s)
      then s\<lparr>fifo_waiters := remove1 t (fifo_waiters s), fifo_pc := (fifo_pc s)(t := Outside)\<rparr>
      else s\<lparr>fifo_pc := (fifo_pc s)(t := Woken)\<rparr>)"

definition acquire_take :: "tid \<Rightarrow> fifo \<Rightarrow> fifo" where
  "acquire_take t s =
     s\<lparr>fifo_held := True, fifo_owner := Some t, fifo_hold_count := 1, fifo_pc := (fifo_pc s)(t := Inside)\<rparr>"

datatype fifo_error = UnheldLock

definition fifo_release :: "tid \<Rightarrow> fifo \<Rightarrow> fifo_error + fifo" where
  "fifo_release t s =
     (if \<not> fifo_held s then Inl UnheldLock
      else let s' = s\<lparr>fifo_held := False, fifo_owner := None, fifo_hold_count := 0, fifo_pc := (fifo_pc s)(t := Outside)\<rparr>
           in case fifo_waiters s of
                [] \<Rightarrow> Inr s'
              | w # ws \<Rightarrow> Inr (s'\<lparr>fifo_waiters := ws, fifo_set := insert w (fifo_set s)\<rparr>))"

text \<open>
  The steps.  With \<open>barging\<close> off, a thread never starts to acquire while a signalled waiter has not
  yet taken the lock; the code has no such restriction.
\<close>

definition handover_pending :: "fifo \<Rightarrow> bool" where
  "handover_pending s \<longleftrightarrow> (\<exists>t. fifo_pc s t = Woken \<or> (t \<in> fifo_set s \<and> fifo_pc s t \<in> {Blocked, TimedOut}))"

inductive fifo_step :: "bool \<Rightarrow> fifo \<Rightarrow> fifo \<Rightarrow> bool" for barging :: bool where
  enter: "fifo_pc s t = Outside \<Longrightarrow> barging \<or> \<not> handover_pending s \<Longrightarrow>
    fifo_step barging s (acquire_enter t s)"
| signalled: "fifo_pc s t = Blocked \<Longrightarrow> t \<in> fifo_set s \<Longrightarrow>
    fifo_step barging s (s\<lparr>fifo_pc := (fifo_pc s)(t := Woken)\<rparr>)"
| wait_expires: "fifo_pc s t = Blocked \<Longrightarrow> t \<notin> fifo_set s \<Longrightarrow>
    fifo_step barging s (s\<lparr>fifo_pc := (fifo_pc s)(t := TimedOut)\<rparr>)"
| after_timeout: "fifo_pc s t = TimedOut \<Longrightarrow> fifo_step barging s (acquire_timed_out t s)"
| take: "fifo_pc s t = Woken \<Longrightarrow> fifo_step barging s (acquire_take t s)"
| leave: "fifo_pc s t = Inside \<Longrightarrow> fifo_release t s = Inr s' \<Longrightarrow> fifo_step barging s s'"

inductive fifo_reachable :: "bool \<Rightarrow> fifo \<Rightarrow> bool" for barging :: bool where
  start: "fifo_reachable barging init_fifo"
| step: "fifo_reachable barging s \<Longrightarrow> fifo_step barging s s' \<Longrightarrow> fifo_reachable barging s'"

text \<open>the lock does not exclude: \<open>release\<close> clears \<open>_held\<close> before the signalled waiter has
  taken it, so a third thread can enter by the fast path in between and both end up inside.\<close>

theorem fifo_lock_barging:
  "\<exists>s. fifo_reachable True s \<and> fifo_pc s 2 = Inside \<and> fifo_pc s 3 = Inside"
proof -
  let ?s1 = "acquire_enter 1 init_fifo"
  let ?s2 = "acquire_enter 2 ?s1"
  let ?s3 = "?s2\<lparr>fifo_held := False, fifo_owner := None, fifo_hold_count := 0, fifo_waiters := [], fifo_set := {2},
    fifo_pc := (fifo_pc ?s2)(1 := Outside)\<rparr>"
  let ?s4 = "acquire_enter 3 ?s3"
  let ?s5 = "?s4\<lparr>fifo_pc := (fifo_pc ?s4)(2 := Woken)\<rparr>"
  let ?s6 = "acquire_take 2 ?s5"
  note defs = acquire_enter_def init_fifo_def acquire_take_def
  have "fifo_reachable True ?s1"
    by (rule fifo_reachable.step [OF fifo_reachable.start], rule fifo_step.enter) (simp_all add: init_fifo_def)
  then have "fifo_reachable True ?s2"
    by (rule fifo_reachable.step, intro fifo_step.enter) (simp_all add: defs)
  then have "fifo_reachable True ?s3"
    by (rule fifo_reachable.step, intro fifo_step.leave [of _ 1]) (simp_all add: defs fifo_release_def Let_def)
  then have "fifo_reachable True ?s4"
    by (rule fifo_reachable.step, intro fifo_step.enter) (simp_all add: defs)
  then have "fifo_reachable True ?s5"
    by (rule fifo_reachable.step, intro fifo_step.signalled) (simp_all add: defs)
  then have "fifo_reachable True ?s6"
    by (rule fifo_reachable.step, intro fifo_step.take) (simp_all add: defs)
  then show ?thesis by (intro exI [of _ ?s6]) (simp add: defs)
qed

subsection \<open>What holds without barging\<close>

text \<open>
  The lock has one current user: the thread inside, or the one the lock was handed to.  The
  queue holds, without repetition, exactly the unsignalled waiters.
\<close>

definition fifo_user :: "fifo \<Rightarrow> tid \<Rightarrow> bool" where
  "fifo_user s t \<longleftrightarrow> fifo_pc s t \<in> {Inside, Woken} \<or> (fifo_pc s t \<in> {Blocked, TimedOut} \<and> t \<in> fifo_set s)"

definition fifo_inv :: "fifo \<Rightarrow> bool" where
  "fifo_inv s \<longleftrightarrow> distinct (fifo_waiters s) \<and>
     (\<forall>t. t \<in> set (fifo_waiters s) \<longleftrightarrow> fifo_pc s t \<in> {Blocked, TimedOut} \<and> t \<notin> fifo_set s) \<and>
     (\<forall>t t'. fifo_user s t \<longrightarrow> fifo_user s t' \<longrightarrow> t = t') \<and>
     (fifo_held s \<longleftrightarrow> Inside \<in> range (fifo_pc s))"

lemma fifo_inv_init: "fifo_inv init_fifo"
  by (auto simp: fifo_inv_def fifo_user_def init_fifo_def)

lemma fifo_inv_cases:
  assumes "fifo_inv s"
  shows "distinct (fifo_waiters s)"
    and "t \<in> set (fifo_waiters s) \<longleftrightarrow> fifo_pc s t \<in> {Blocked, TimedOut} \<and> t \<notin> fifo_set s"
    and "fifo_user s t \<Longrightarrow> fifo_user s t' \<Longrightarrow> t = t'"
    and "fifo_held s \<longleftrightarrow> (\<exists>u. fifo_pc s u = Inside)"
  using assms by (auto simp: fifo_inv_def image_iff) metis+

lemma fifo_invI:
  assumes "distinct (fifo_waiters s)"
    and "\<And>t. t \<in> set (fifo_waiters s) \<longleftrightarrow> fifo_pc s t \<in> {Blocked, TimedOut} \<and> t \<notin> fifo_set s"
    and "\<And>t t'. fifo_user s t \<Longrightarrow> fifo_user s t' \<Longrightarrow> t = t'"
    and "fifo_held s \<longleftrightarrow> (\<exists>u. fifo_pc s u = Inside)"
  shows "fifo_inv s"
  using assms by (auto simp: fifo_inv_def image_iff) metis+

lemma fifo_inv_enter:
  assumes inv: "fifo_inv s" and out: "fifo_pc s t = Outside" and quiet: "\<not> handover_pending s"
  shows "fifo_inv (acquire_enter t s)"
proof (cases "fifo_held s")
  case True
  then have e: "acquire_enter t s = s\<lparr>fifo_waiters := fifo_waiters s @ [t], fifo_set := fifo_set s - {t},
      fifo_pc := (fifo_pc s)(t := Blocked)\<rparr>" by (simp add: acquire_enter_def)
  obtain u where u: "fifo_pc s u = Inside" using True fifo_inv_cases(4) [OF inv] by blast
  have users: "fifo_user (acquire_enter t s) v = fifo_user s v" for v
    using out by (auto simp: e fifo_user_def)
  show ?thesis
  proof (rule fifo_invI)
    show "distinct (fifo_waiters (acquire_enter t s))"
      using fifo_inv_cases(1) [OF inv] fifo_inv_cases(2) [OF inv, of t] out by (simp add: e)
    show "fifo_held (acquire_enter t s) \<longleftrightarrow> (\<exists>u. fifo_pc (acquire_enter t s) u = Inside)"
      using True u out by (auto simp: e intro!: exI [of _ u])
    show "v \<in> set (fifo_waiters (acquire_enter t s)) \<longleftrightarrow>
        fifo_pc (acquire_enter t s) v \<in> {Blocked, TimedOut} \<and> v \<notin> fifo_set (acquire_enter t s)" for v
      using fifo_inv_cases(2) [OF inv, of v] out by (auto simp: e)
  qed (use users fifo_inv_cases(3) [OF inv] in simp)
next
  case False
  then have e: "acquire_enter t s = s\<lparr>fifo_held := True, fifo_owner := Some t, fifo_hold_count := 1,
      fifo_pc := (fifo_pc s)(t := Inside)\<rparr>" by (simp add: acquire_enter_def)
  have none: "\<not> fifo_user s v" for v
    using False quiet fifo_inv_cases(4) [OF inv] by (auto simp: fifo_user_def handover_pending_def)
  then have users: "fifo_user (acquire_enter t s) v \<longleftrightarrow> v = t" for v
    by (auto simp: e fifo_user_def split: if_splits)
  show ?thesis
  proof (rule fifo_invI)
    show "v \<in> set (fifo_waiters (acquire_enter t s)) \<longleftrightarrow>
        fifo_pc (acquire_enter t s) v \<in> {Blocked, TimedOut} \<and> v \<notin> fifo_set (acquire_enter t s)" for v
      using fifo_inv_cases(2) [OF inv, of v] out by (auto simp: e)
  qed (use users fifo_inv_cases(1) [OF inv] in \<open>auto simp: e\<close>)
qed

lemma fifo_inv_move:
  assumes inv: "fifo_inv s"
    and pc: "s' = s\<lparr>fifo_pc := (fifo_pc s)(t := p)\<rparr>"
    and same: "fifo_user s' t = fifo_user s t" "p \<noteq> Inside" "fifo_pc s t \<noteq> Inside"
      "(p \<in> {Blocked, TimedOut} \<and> t \<notin> fifo_set s) = (fifo_pc s t \<in> {Blocked, TimedOut} \<and> t \<notin> fifo_set s)"
  shows "fifo_inv s'"
proof (rule fifo_invI)
  have users: "fifo_user s' v = fifo_user s v" for v
    using same(1) by (cases "v = t") (simp_all add: pc fifo_user_def)
  show "fifo_user s' v \<Longrightarrow> fifo_user s' w \<Longrightarrow> v = w" for v w
    using users fifo_inv_cases(3) [OF inv] by simp
  show "distinct (fifo_waiters s')" using fifo_inv_cases(1) [OF inv] pc by simp
  show "v \<in> set (fifo_waiters s') \<longleftrightarrow> fifo_pc s' v \<in> {Blocked, TimedOut} \<and> v \<notin> fifo_set s'" for v
    using fifo_inv_cases(2) [OF inv, of v] same(4) by (cases "v = t") (simp_all add: pc)
  show "fifo_held s' \<longleftrightarrow> (\<exists>u. fifo_pc s' u = Inside)"
    using fifo_inv_cases(4) [OF inv] same(2,3) by (auto simp: pc)
qed

lemma fifo_inv_step: "fifo_step False s s' \<Longrightarrow> fifo_inv s \<Longrightarrow> fifo_inv s'"
proof (induction rule: fifo_step.induct)
  case (enter s t)
  then show ?case by (simp add: fifo_inv_enter)
next
  case (signalled s t)
  then show ?case by (intro fifo_inv_move [OF _ refl]) (auto simp: fifo_user_def)
next
  case (wait_expires s t)
  then show ?case by (intro fifo_inv_move [OF _ refl]) (auto simp: fifo_user_def)
next
  case (after_timeout s t)
  show ?case
  proof (cases "t \<in> set (fifo_waiters s)")
    case False
    with after_timeout fifo_inv_cases(2) [OF after_timeout.prems, of t] show ?thesis
      by (auto simp: acquire_timed_out_def fifo_user_def intro!: fifo_inv_move [OF _ refl])
  next
    case True
    note inv = after_timeout.prems
    have notset: "t \<notin> fifo_set s" using True fifo_inv_cases(2) [OF inv] by blast
    then have users: "fifo_user (acquire_timed_out t s) v = fifo_user s v" for v
      using True after_timeout.hyps by (auto simp: acquire_timed_out_def fifo_user_def)
    show ?thesis
    proof (rule fifo_invI)
      show "v \<in> set (fifo_waiters (acquire_timed_out t s)) \<longleftrightarrow>
          fifo_pc (acquire_timed_out t s) v \<in> {Blocked, TimedOut} \<and> v \<notin> fifo_set (acquire_timed_out t s)" for v
        using True fifo_inv_cases(1) [OF inv] fifo_inv_cases(2) [OF inv, of v]
        by (auto simp: acquire_timed_out_def)
      have "fifo_pc (acquire_timed_out t s) u = Inside \<longleftrightarrow> fifo_pc s u = Inside" for u
        using True after_timeout.hyps by (cases "u = t") (simp_all add: acquire_timed_out_def)
      moreover have "fifo_held (acquire_timed_out t s) = fifo_held s"
        by (simp add: acquire_timed_out_def)
      ultimately show "fifo_held (acquire_timed_out t s) \<longleftrightarrow> (\<exists>u. fifo_pc (acquire_timed_out t s) u = Inside)"
        using fifo_inv_cases(4) [OF inv] by simp
    qed (use True users fifo_inv_cases(1,3) [OF inv] in \<open>auto simp: acquire_timed_out_def\<close>)
  qed
next
  case (take s t)
  note inv = take.prems
  have users: "fifo_user (acquire_take t s) v = fifo_user s v" for v
    using take.hyps by (auto simp: acquire_take_def fifo_user_def)
  show ?case
  proof (rule fifo_invI)
    show "v \<in> set (fifo_waiters (acquire_take t s)) \<longleftrightarrow>
        fifo_pc (acquire_take t s) v \<in> {Blocked, TimedOut} \<and> v \<notin> fifo_set (acquire_take t s)" for v
      using take.hyps fifo_inv_cases(2) [OF inv, of v] by (auto simp: acquire_take_def)
  qed (use users fifo_inv_cases(1,3) [OF inv] in \<open>auto simp: acquire_take_def\<close>)
next
  case (leave s t s')
  note inv = leave.prems
  have me: "fifo_user s t" using leave.hyps by (simp add: fifo_user_def)
  have only: "fifo_user s v \<Longrightarrow> v = t" for v using fifo_inv_cases(3) [OF inv me] by metis
  show ?case
  proof (cases "fifo_waiters s")
    case Nil
    then have s': "s' = s\<lparr>fifo_held := False, fifo_owner := None, fifo_hold_count := 0, fifo_pc := (fifo_pc s)(t := Outside)\<rparr>"
      using leave.hyps by (simp add: fifo_release_def Let_def split: if_splits)
    have users: "\<not> fifo_user s' v" for v
    proof (cases "v = t")
      case False
      then have "fifo_user s' v = fifo_user s v" by (simp add: s' fifo_user_def)
      with False only show ?thesis by blast
    qed (simp add: s' fifo_user_def)
    show ?thesis
    proof (rule fifo_invI)
      show "v \<in> set (fifo_waiters s') \<longleftrightarrow> fifo_pc s' v \<in> {Blocked, TimedOut} \<and> v \<notin> fifo_set s'" for v
        using leave.hyps fifo_inv_cases(2) [OF inv, of v] by (auto simp: s')
      show "fifo_held s' \<longleftrightarrow> (\<exists>u. fifo_pc s' u = Inside)"
        using users by (simp add: s' fifo_user_def)
      show "distinct (fifo_waiters s')" using Nil by (simp add: s')
    qed (use users in blast)
  next
    case (Cons w ws)
    then have s': "s' = s\<lparr>fifo_held := False, fifo_owner := None, fifo_hold_count := 0, fifo_pc := (fifo_pc s)(t := Outside),
        fifo_waiters := ws, fifo_set := insert w (fifo_set s)\<rparr>"
      using leave.hyps by (simp add: fifo_release_def Let_def split: if_splits)
    have w: "fifo_pc s w \<in> {Blocked, TimedOut}" "w \<notin> set ws"
      using fifo_inv_cases(1) [OF inv] fifo_inv_cases(2) [OF inv, of w] Cons by auto
    have "w \<noteq> t" using w leave.hyps by auto
    then have iw: "fifo_user s' w" using w by (auto simp: s' fifo_user_def)
    have users: "v = w" if "fifo_user s' v" for v
    proof (rule ccontr)
      assume "v \<noteq> w"
      moreover have "v \<noteq> t" using that by (auto simp: s' fifo_user_def)
      ultimately have "fifo_user s v" using that by (simp add: s' fifo_user_def)
      with only \<open>v \<noteq> t\<close> show False by blast
    qed
    have notin: "fifo_pc s' v \<noteq> Inside" for v
    proof
      assume i: "fifo_pc s' v = Inside"
      then have "v = w" using users by (simp add: fifo_user_def)
      with i w \<open>w \<noteq> t\<close> show False by (simp add: s')
    qed
    show ?thesis
    proof (rule fifo_invI)
      show "v \<in> set (fifo_waiters s') \<longleftrightarrow> fifo_pc s' v \<in> {Blocked, TimedOut} \<and> v \<notin> fifo_set s'" for v
        using leave.hyps fifo_inv_cases(2) [OF inv, of v] Cons w by (auto simp: s')
      show "fifo_held s' \<longleftrightarrow> (\<exists>u. fifo_pc s' u = Inside)"
        using notin by (simp add: s')
      show "distinct (fifo_waiters s')" using fifo_inv_cases(1) [OF inv] Cons by (simp add: s')
    qed (use users in blast)
  qed
qed

lemma reachable_fifo_inv: "fifo_reachable False s \<Longrightarrow> fifo_inv s"
  by (induction rule: fifo_reachable.induct) (auto intro: fifo_inv_init fifo_inv_step)

text \<open>the barging acquirer is the only way to lose exclusion: if no thread starts to acquire
  while a hand-over is under way, at most one thread is ever inside, timeouts included.\<close>

theorem fifo_lock_exclusive_without_barging:
  assumes "fifo_reachable False s" and "fifo_pc s t = Inside" and "fifo_pc s t' = Inside"
  shows "t = t'"
  using fifo_inv_cases(3) [OF reachable_fifo_inv [OF assms(1)]] assms(2,3) by (simp add: fifo_user_def)

theorem fifo_lock_exclusive_without_barging_witness:
  "fifo_reachable False (acquire_enter 1 init_fifo) \<and> fifo_pc (acquire_enter 1 init_fifo) 1 = Inside \<and>
   fifo_pc (acquire_enter 1 init_fifo) 2 \<noteq> Inside"
proof -
  have r: "fifo_reachable False (acquire_enter 1 init_fifo)"
    by (rule fifo_reachable.step [OF fifo_reachable.start], rule fifo_step.enter)
       (simp_all add: init_fifo_def handover_pending_def)
  have i: "fifo_pc (acquire_enter 1 init_fifo) 1 = Inside"
    by (simp add: acquire_enter_def init_fifo_def)
  from fifo_lock_exclusive_without_barging [OF r i, of 2] r i show ?thesis by auto
qed

text \<open>The lock is handed over in arrival order.\<close>

lemma fifo_release_order:
  "fifo_release t s = Inr s' \<Longrightarrow> fifo_waiters s = w # ws \<Longrightarrow>
     w \<in> fifo_set s' \<and> fifo_waiters s' = ws \<and> \<not> fifo_held s'"
  by (auto simp: fifo_release_def Let_def split: if_splits)

lemma fifo_enter_order:
  "fifo_held s \<Longrightarrow> fifo_waiters (acquire_enter t s) = fifo_waiters s @ [t]"
  by (simp add: acquire_enter_def)

end
