(* ===== verification/Async_Fifo_Lock.thy ===== *)
theory Async_Fifo_Lock
  imports Resource_Lock
begin

text \<open>
  \<open>AsyncFIFOLock\<close> of \<open>app/conversation/fifo_lock.py\<close> as a step relation over the tasks of one event
  loop.  Code between two \<open>await\<close>s is one step.  A task's future is named by the task, since a task
  waits on one future at a time.
\<close>

datatype fut_state = Pending | Granted | Cancelled

datatype task_pc = TOut | TWait | TIn

text \<open>\<open>af_must_cancel\<close> is the task's own flag: a \<open>cancel\<close> that arrives when the awaited future is
  already done is delivered when the task next runs.\<close>

record afifo =
  af_held :: bool
  af_waiters :: "tid list"
  af_fut :: "tid \<Rightarrow> fut_state"
  af_must_cancel :: "tid set"
  af_pc :: "tid \<Rightarrow> task_pc"

definition init_afifo :: afifo where
  "init_afifo = \<lparr>af_held = False, af_waiters = [], af_fut = (\<lambda>_. Pending), af_must_cancel = {},
                 af_pc = (\<lambda>_. TOut)\<rparr>"

text \<open>\<open>acquire\<close> up to \<open>await future\<close>.\<close>

definition async_acquire :: "tid \<Rightarrow> afifo \<Rightarrow> afifo" where
  "async_acquire t s =
     (if \<not> af_held s then s\<lparr>af_held := True, af_pc := (af_pc s)(t := TIn)\<rparr>
      else s\<lparr>af_waiters := af_waiters s @ [t], af_fut := (af_fut s)(t := Pending),
             af_pc := (af_pc s)(t := TWait)\<rparr>)"

text \<open>The loop of \<open>release\<close>: pop until a future that is not done; the others are dropped.\<close>

fun grant_next :: "(tid \<Rightarrow> fut_state) \<Rightarrow> tid list \<Rightarrow> tid option \<times> tid list" where
  "grant_next fut [] = (None, [])"
| "grant_next fut (w # ws) = (if fut w = Pending then (Some w, ws) else grant_next fut ws)"

datatype afifo_error = UnheldAsyncLock

definition async_release :: "tid \<Rightarrow> afifo \<Rightarrow> afifo_error + afifo" where
  "async_release t s =
     (if \<not> af_held s then Inl UnheldAsyncLock
      else let s' = s\<lparr>af_held := False, af_pc := (af_pc s)(t := TOut)\<rparr>
           in case grant_next (af_fut s) (af_waiters s) of
                (None, ws) \<Rightarrow> Inr (s'\<lparr>af_waiters := ws\<rparr>)
              | (Some w, ws) \<Rightarrow>
                  Inr (s'\<lparr>af_held := True, af_waiters := ws, af_fut := (af_fut s)(w := Granted)\<rparr>))"

text \<open>The \<open>except CancelledError\<close> branch: \<open>_remove_from_queue\<close> and \<open>raise\<close>.\<close>

definition async_cancelled :: "tid \<Rightarrow> afifo \<Rightarrow> afifo" where
  "async_cancelled t s =
     s\<lparr>af_waiters := remove1 t (af_waiters s), af_must_cancel := af_must_cancel s - {t},
       af_pc := (af_pc s)(t := TOut)\<rparr>"

text \<open>
  The steps.  With \<open>late\<close> off, no cancellation arrives between the grant and the task's next turn;
  asyncio gives no such guarantee.
\<close>

inductive af_step :: "bool \<Rightarrow> afifo \<Rightarrow> afifo \<Rightarrow> bool" for late :: bool where
  acquire: "af_pc s t = TOut \<Longrightarrow> af_step late s (async_acquire t s)"
| resume: "af_pc s t = TWait \<Longrightarrow> af_fut s t = Granted \<Longrightarrow> t \<notin> af_must_cancel s \<Longrightarrow>
    af_step late s (s\<lparr>af_pc := (af_pc s)(t := TIn)\<rparr>)"
| cancel_waiting: "af_pc s t = TWait \<Longrightarrow> af_fut s t = Pending \<Longrightarrow>
    af_step late s (s\<lparr>af_fut := (af_fut s)(t := Cancelled)\<rparr>)"
| cancel_granted: "late \<Longrightarrow> af_pc s t = TWait \<Longrightarrow> af_fut s t = Granted \<Longrightarrow>
    af_step late s (s\<lparr>af_must_cancel := insert t (af_must_cancel s)\<rparr>)"
| deliver_cancel: "af_pc s t = TWait \<Longrightarrow> af_fut s t = Cancelled \<or> t \<in> af_must_cancel s \<Longrightarrow>
    af_step late s (async_cancelled t s)"
| release: "af_pc s t = TIn \<Longrightarrow> async_release t s = Inr s' \<Longrightarrow> af_step late s s'"

inductive af_reachable :: "bool \<Rightarrow> afifo \<Rightarrow> bool" for late :: bool where
  start: "af_reachable late init_afifo"
| step: "af_reachable late s \<Longrightarrow> af_step late s s' \<Longrightarrow> af_reachable late s'"

section \<open>The invariant\<close>

text \<open>
  The lock's user is the task inside or the one whose future was granted.  There is at most one,
  only while the lock is held, and every task that waits on a pending future is in the queue.
\<close>

definition af_user :: "afifo \<Rightarrow> tid \<Rightarrow> bool" where
  "af_user s t \<longleftrightarrow> af_pc s t = TIn \<or> (af_pc s t = TWait \<and> af_fut s t = Granted)"

definition af_inv :: "afifo \<Rightarrow> bool" where
  "af_inv s \<longleftrightarrow> (\<forall>t t'. af_user s t \<longrightarrow> af_user s t' \<longrightarrow> t = t') \<and>
     (\<forall>t. af_user s t \<longrightarrow> af_held s) \<and> distinct (af_waiters s) \<and>
     (\<forall>t \<in> set (af_waiters s). af_pc s t = TWait \<and> af_fut s t \<noteq> Granted) \<and>
     (\<forall>t. af_pc s t = TWait \<longrightarrow> af_fut s t = Pending \<longrightarrow> t \<in> set (af_waiters s))"

lemma af_invD:
  assumes "af_inv s"
  shows "af_user s t \<Longrightarrow> af_user s t' \<Longrightarrow> t = t'" and "af_user s t \<Longrightarrow> af_held s"
    and "distinct (af_waiters s)" and "t \<in> set (af_waiters s) \<Longrightarrow> af_pc s t = TWait"
    and "t \<in> set (af_waiters s) \<Longrightarrow> af_fut s t \<noteq> Granted"
    and "af_pc s t = TWait \<Longrightarrow> af_fut s t = Pending \<Longrightarrow> t \<in> set (af_waiters s)"
  using assms by (auto simp: af_inv_def)

lemma grant_next_NoneD: "grant_next fut ws = (None, ws') \<Longrightarrow> ws' = [] \<and> (\<forall>w \<in> set ws. fut w \<noteq> Pending)"
  by (induction ws) (auto split: if_splits)

lemma grant_next_SomeD:
  "grant_next fut ws = (Some w, ws') \<Longrightarrow>
     \<exists>us. ws = us @ w # ws' \<and> fut w = Pending \<and> (\<forall>u \<in> set us. fut u \<noteq> Pending)"
proof (induction ws)
  case (Cons v vs)
  show ?case
  proof (cases "fut v = Pending")
    case True
    with Cons.prems show ?thesis by auto
  next
    case False
    with Cons obtain us where "vs = us @ w # ws'" "fut w = Pending" "\<forall>u \<in> set us. fut u \<noteq> Pending"
      by auto
    with False show ?thesis by (intro exI [of _ "v # us"]) simp
  qed
qed simp

lemma af_inv_init: "af_inv init_afifo"
  by (simp add: af_inv_def af_user_def init_afifo_def)

lemma af_user_at: "af_pc s' t = af_pc s t \<Longrightarrow> af_fut s' t = af_fut s t \<Longrightarrow> af_user s' t = af_user s t"
  by (simp add: af_user_def)

lemma af_inv_acquire:
  assumes inv: "af_inv s" and out: "af_pc s t = TOut"
  shows "af_inv (async_acquire t s)"
proof (cases "af_held s")
  case True
  have "af_user (async_acquire t s) u = af_user s u" for u
    using out True by (cases "u = t") (simp_all add: async_acquire_def af_user_def)
  with inv out True show ?thesis by (auto simp: af_inv_def async_acquire_def)
next
  case False
  have "af_user (async_acquire t s) u \<longleftrightarrow> u = t" for u
    using inv False by (cases "u = t") (auto simp: af_inv_def async_acquire_def af_user_def)
  with inv out False show ?thesis by (auto simp: af_inv_def async_acquire_def)
qed

lemma async_release_None:
  "async_release t s = Inr s' \<Longrightarrow> grant_next (af_fut s) (af_waiters s) = (None, ws) \<Longrightarrow>
     s' = s\<lparr>af_held := False, af_pc := (af_pc s)(t := TOut), af_waiters := ws\<rparr>"
  by (auto simp: async_release_def split: if_splits)

lemma async_release_Some:
  "async_release t s = Inr s' \<Longrightarrow> grant_next (af_fut s) (af_waiters s) = (Some w, ws) \<Longrightarrow>
     s' = s\<lparr>af_held := True, af_pc := (af_pc s)(t := TOut), af_waiters := ws,
            af_fut := (af_fut s)(w := Granted)\<rparr>"
  by (auto simp: async_release_def split: if_splits)

lemma af_inv_release:
  assumes inv: "af_inv s" and me: "af_pc s t = TIn" and r: "async_release t s = Inr s'"
  shows "af_inv s'"
proof -
  have only: "u = t" if "af_user s u" for u
    using inv me that by (auto simp: af_inv_def af_user_def)
  obtain g ws where g: "grant_next (af_fut s) (af_waiters s) = (g, ws)" by fastforce
  show ?thesis
  proof (cases g)
    case None
    with g have d: "ws = []" "\<forall>w \<in> set (af_waiters s). af_fut s w \<noteq> Pending"
      by (auto dest: grant_next_NoneD)
    note s' = async_release_None [OF r g [unfolded None]]
    have nouser: "\<not> af_user s' u" for u
    proof (cases "u = t")
      case False
      then have "af_user s' u = af_user s u" by (simp add: s' af_user_def)
      with False only show ?thesis by blast
    qed (simp add: s' af_user_def)
    have nowait: "\<not> (af_pc s' u = TWait \<and> af_fut s' u = Pending)" for u
    proof (cases "u = t")
      case False
      then have "af_pc s' u = af_pc s u" "af_fut s' u = af_fut s u" by (simp_all add: s')
      with d(2) af_invD(6) [OF inv, of u] show ?thesis by auto
    qed (simp add: s')
    have "af_waiters s' = []" using d(1) by (simp add: s')
    with nouser nowait show ?thesis unfolding af_inv_def by simp
  next
    case (Some w)
    with g obtain us where us: "af_waiters s = us @ w # ws" "af_fut s w = Pending"
        "\<forall>u \<in> set us. af_fut s u \<noteq> Pending"
      by (auto dest: grant_next_SomeD)
    note s' = async_release_Some [OF r g [unfolded Some]]
    have w: "af_pc s w = TWait" using us by (intro af_invD(4) [OF inv]) simp
    then have "w \<noteq> t" using me by auto
    have "u = w" if "af_user s' u" for u
    proof (rule ccontr)
      assume "u \<noteq> w"
      moreover have "u \<noteq> t" using that by (auto simp: s' af_user_def)
      ultimately have "af_user s u" using that by (simp add: s' af_user_def)
      with only \<open>u \<noteq> t\<close> show False by blast
    qed
    moreover have "af_held s'" "af_waiters s' = ws" by (simp_all add: s')
    moreover have "distinct ws" "w \<notin> set ws" using af_invD(3) [OF inv] us by auto
    moreover have "af_pc s' u = TWait \<and> af_fut s' u \<noteq> Granted" if "u \<in> set ws" for u
      using af_invD(4,5) [OF inv, of u] that us \<open>w \<notin> set ws\<close> me by (auto simp: s')
    moreover have "u \<in> set ws" if "af_pc s' u = TWait" "af_fut s' u = Pending" for u
      using af_invD(6) [OF inv, of u] that us by (auto simp: s' split: if_splits)
    ultimately show ?thesis by (auto simp: af_inv_def)
  qed
qed

lemma af_inv_cancelled:
  assumes inv: "af_inv s" and w: "af_pc s t = TWait"
  shows "af_inv (async_cancelled t s)"
proof -
  have users: "af_user (async_cancelled t s) u \<Longrightarrow> af_user s u" for u
    by (cases "u = t") (simp_all add: async_cancelled_def af_user_def)
  have kept: "af_held (async_cancelled t s) = af_held s" "af_fut (async_cancelled t s) = af_fut s"
      "af_waiters (async_cancelled t s) = remove1 t (af_waiters s)"
      "af_pc (async_cancelled t s) = (af_pc s)(t := TOut)"
    by (simp_all add: async_cancelled_def)
  show ?thesis
    unfolding af_inv_def
  proof (intro conjI allI impI ballI)
    show "af_user (async_cancelled t s) u \<Longrightarrow> af_user (async_cancelled t s) v \<Longrightarrow> u = v" for u v
      using users af_invD(1) [OF inv] by blast
    show "af_user (async_cancelled t s) u \<Longrightarrow> af_held (async_cancelled t s)" for u
      using users af_invD(2) [OF inv] kept(1) by blast
  qed (use af_invD(3-6) [OF inv] in \<open>auto simp: kept split: if_splits\<close>)
qed

lemma af_inv_step: "af_step late s s' \<Longrightarrow> af_inv s \<Longrightarrow> af_inv s'"
proof (induction rule: af_step.induct)
  case (resume s t)
  let ?s = "s\<lparr>af_pc := (af_pc s)(t := TIn)\<rparr>"
  have "af_user ?s u = af_user s u" for u
    using resume.hyps by (cases "u = t") (simp_all add: af_user_def)
  with resume show ?case by (auto simp: af_inv_def)
next
  case (cancel_waiting s t)
  let ?s = "s\<lparr>af_fut := (af_fut s)(t := Cancelled)\<rparr>"
  have "af_user ?s u = af_user s u" for u
    using cancel_waiting.hyps by (cases "u = t") (simp_all add: af_user_def)
  with cancel_waiting show ?case by (auto simp: af_inv_def)
next
  case (cancel_granted s t)
  then show ?case by (simp add: af_inv_def af_user_def)
qed (simp_all add: af_inv_acquire af_inv_release af_inv_cancelled)

lemma af_reachable_inv: "af_reachable late s \<Longrightarrow> af_inv s"
  by (induction rule: af_reachable.induct) (auto intro: af_inv_init af_inv_step)

text \<open>C8: at most one task is ever inside the asyncio lock, whatever is cancelled and when.\<close>

theorem async_lock_exclusive:
  assumes "af_reachable late s" and "af_pc s t = TIn" and "af_pc s t' = TIn"
  shows "t = t' \<and> af_held s"
  using af_reachable_inv [OF assms(1)] assms(2,3) by (auto simp: af_inv_def af_user_def)

theorem async_lock_exclusive_witness:
  "af_reachable True (async_acquire 1 init_afifo) \<and> af_pc (async_acquire 1 init_afifo) 1 = TIn \<and>
   af_held (async_acquire 1 init_afifo)"
proof -
  have r: "af_reachable True (async_acquire 1 init_afifo)"
    by (rule af_reachable.step [OF af_reachable.start], rule af_step.acquire) (simp add: init_afifo_def)
  have i: "af_pc (async_acquire 1 init_afifo) 1 = TIn"
    by (simp add: async_acquire_def init_afifo_def)
  from async_lock_exclusive [OF r i i] r i show ?thesis by simp
qed

section \<open>Lost and kept wake-ups\<close>

text \<open>Without late cancellations a held lock has a user.\<close>

definition af_live :: "afifo \<Rightarrow> bool" where
  "af_live s \<longleftrightarrow> af_must_cancel s = {} \<and> (af_held s \<longrightarrow> (\<exists>t. af_user s t)) \<and>
     (\<forall>t. af_pc s t = TWait \<longrightarrow> af_fut s t = Pending \<longrightarrow> af_held s)"

lemma af_live_step:
  assumes "af_step False s s'" and "af_inv s" and "af_live s"
  shows "af_live s'"
  using assms
proof (induction rule: af_step.induct)
  case (acquire s t)
  show ?case
  proof (cases "af_held s")
    case True
    with acquire obtain u where u: "af_user s u" by (auto simp: af_live_def)
    moreover have "u \<noteq> t" using u acquire.hyps by (auto simp: af_user_def)
    ultimately have "af_user (async_acquire t s) u" using True by (simp add: async_acquire_def af_user_def)
    with acquire True show ?thesis by (auto simp: af_live_def async_acquire_def)
  next
    case False
    then have "af_user (async_acquire t s) t" by (simp add: async_acquire_def af_user_def)
    with acquire False show ?thesis by (auto simp: af_live_def async_acquire_def)
  qed
next
  case (resume s t)
  have "af_user (s\<lparr>af_pc := (af_pc s)(t := TIn)\<rparr>) t" by (simp add: af_user_def)
  with resume show ?case by (auto simp: af_live_def)
next
  case (cancel_waiting s t)
  have "af_user (s\<lparr>af_fut := (af_fut s)(t := Cancelled)\<rparr>) u" if "af_user s u" for u
    using that cancel_waiting.hyps by (cases "u = t") (simp_all add: af_user_def)
  with cancel_waiting show ?case by (auto simp: af_live_def)
next
  case (deliver_cancel s t)
  then have c: "af_fut s t = Cancelled" by (simp add: af_live_def)
  have "af_user (async_cancelled t s) u" if "af_user s u" for u
    using that c deliver_cancel.hyps by (cases "u = t") (simp_all add: af_user_def async_cancelled_def)
  with deliver_cancel show ?case by (auto simp: af_live_def async_cancelled_def)
next
  case (release s t s')
  obtain g ws where g: "grant_next (af_fut s) (af_waiters s) = (g, ws)" by fastforce
  show ?case
  proof (cases g)
    case None
    with g have "\<forall>w \<in> set (af_waiters s). af_fut s w \<noteq> Pending" by (auto dest: grant_next_NoneD)
    then have "af_pc s u = TWait \<Longrightarrow> af_fut s u \<noteq> Pending" for u
      using af_invD(6) [OF release.prems(1)] by blast
    with release.prems(2) show ?thesis
      by (simp add: af_live_def async_release_None [OF release.hyps(2) g [unfolded None]])
  next
    case (Some w)
    with g have "w \<in> set (af_waiters s)" by (auto dest!: grant_next_SomeD)
    then have w: "af_pc s w = TWait" by (rule af_invD(4) [OF release.prems(1)])
    then have "w \<noteq> t" using release.hyps by auto
    note s' = async_release_Some [OF release.hyps(2) g [unfolded Some]]
    have "af_user s' w" using w \<open>w \<noteq> t\<close> by (simp add: s' af_user_def)
    with release.prems(2) show ?thesis by (auto simp: af_live_def s')
  qed
qed simp

lemma af_reachable_live: "af_reachable False s \<Longrightarrow> af_live s"
proof (induction rule: af_reachable.induct)
  case start
  show ?case by (simp add: af_live_def init_afifo_def)
next
  case (step s s')
  then show ?case by (blast intro: af_live_step af_reachable_inv)
qed

text \<open>C9: without a cancellation that hits a granted future no wake-up is lost: while a task waits on
  its pending future, the lock is held by another task that is inside or about to resume.\<close>

theorem async_lock_no_lost_wakeup:
  assumes "af_reachable False s" and "af_pc s t = TWait" and "af_fut s t = Pending"
  shows "\<exists>u. u \<noteq> t \<and> (af_pc s u = TIn \<or> (af_pc s u = TWait \<and> af_fut s u = Granted))"
proof -
  obtain u where "af_user s u" using af_reachable_live [OF assms(1)] assms(2,3) by (auto simp: af_live_def)
  with assms(2,3) show ?thesis by (intro exI [of _ u]) (auto simp: af_user_def)
qed

definition queued_afifo :: afifo where
  "queued_afifo = async_acquire 2 (async_acquire 1 init_afifo)"

lemma queued_reachable: "af_reachable late queued_afifo"
  unfolding queued_afifo_def
  by (rule af_reachable.step, rule af_reachable.step [OF af_reachable.start];
      rule af_step.acquire) (simp_all add: init_afifo_def async_acquire_def)

lemma queued_afifo_simp:
  "queued_afifo = \<lparr>af_held = True, af_waiters = [2], af_fut = (\<lambda>_. Pending), af_must_cancel = {},
     af_pc = (\<lambda>_. TOut)(1 := TIn, 2 := TWait)\<rparr>"
  by (simp add: queued_afifo_def async_acquire_def init_afifo_def fun_eq_iff)

theorem async_lock_no_lost_wakeup_witness:
  "\<exists>u. u \<noteq> (2 :: tid) \<and> (af_pc queued_afifo u = TIn \<or>
     (af_pc queued_afifo u = TWait \<and> af_fut queued_afifo u = Granted))"
  by (rule async_lock_no_lost_wakeup [OF queued_reachable]) (simp_all add: queued_afifo_simp)

text \<open>A lock that is held without a user stays so.\<close>

definition af_lost :: "afifo \<Rightarrow> bool" where
  "af_lost s \<longleftrightarrow> af_held s \<and> (\<forall>t. \<not> af_user s t)"

lemma af_lost_step: "af_step late s s' \<Longrightarrow> af_lost s \<Longrightarrow> af_lost s'"
proof (induction rule: af_step.induct)
  case (acquire s t)
  have "\<not> af_user (async_acquire t s) u" for u
    using acquire.prems by (cases "u = t") (simp_all add: async_acquire_def af_lost_def af_user_def)
  with acquire show ?case by (simp add: af_lost_def async_acquire_def)
next
  case (resume s t)
  then show ?case by (auto simp: af_lost_def af_user_def)
next
  case (cancel_waiting s t)
  have "\<not> af_user (s\<lparr>af_fut := (af_fut s)(t := Cancelled)\<rparr>) u" for u
    using cancel_waiting by (cases "u = t") (simp_all add: af_lost_def af_user_def)
  with cancel_waiting show ?case by (simp add: af_lost_def)
next
  case (cancel_granted s t)
  then show ?case by (auto simp: af_lost_def af_user_def)
next
  case (deliver_cancel s t)
  have "\<not> af_user (async_cancelled t s) u" for u
    using deliver_cancel.prems by (cases "u = t") (simp_all add: async_cancelled_def af_lost_def af_user_def)
  with deliver_cancel show ?case by (simp add: af_lost_def async_cancelled_def)
next
  case (release s t s')
  then show ?case by (auto simp: af_lost_def af_user_def)
qed

lemma af_lost_steps: "(af_step late)\<^sup>*\<^sup>* s s' \<Longrightarrow> af_lost s \<Longrightarrow> af_lost s'"
  by (induction rule: rtranclp_induct) (auto intro: af_lost_step)

text \<open>a task cancelled after its future was granted and before it runs loses the lock for good:
  a state is reachable in which every task is outside, nobody waits, and yet no continuation ever
  lets a task in again.\<close>

theorem async_lock_lost_by_cancel:
  "\<exists>s. af_reachable True s \<and> af_pc s = (\<lambda>_. TOut) \<and> af_waiters s = [] \<and>
       \<not> (\<exists>s' t. (af_step True)\<^sup>*\<^sup>* s s' \<and> af_pc s' t = TIn)"
proof -
  let ?q = "\<lambda>p m. \<lparr>af_held = True, af_waiters = [], af_fut = (\<lambda>_. Pending)(2 := Granted),
      af_must_cancel = m, af_pc = p\<rparr>"
  let ?s1 = "?q ((\<lambda>_. TOut)(2 := TWait)) {}"
  let ?s2 = "?q ((\<lambda>_. TOut)(2 := TWait)) {2}"
  let ?s3 = "?q (\<lambda>_. TOut) {}"
  have "async_release 1 queued_afifo = Inr ?s1"
    by (auto simp: queued_afifo_simp async_release_def fun_eq_iff)
  then have "af_reachable True ?s1"
    by (intro af_reachable.step [OF queued_reachable] af_step.release [of _ 1]) (simp_all add: queued_afifo_simp)
  moreover have "af_step True ?s1 ?s2"
    using af_step.cancel_granted [of True ?s1 2] by simp
  moreover have "af_step True ?s2 ?s3"
    using af_step.deliver_cancel [of ?s2 2 True] by (simp add: async_cancelled_def fun_upd_idem)
  ultimately have r: "af_reachable True ?s3" by (blast intro: af_reachable.step)
  have "af_lost ?s3" by (simp add: af_lost_def af_user_def)
  then have "(af_step True)\<^sup>*\<^sup>* ?s3 s' \<Longrightarrow> af_pc s' t \<noteq> TIn" for s' t
    using af_lost_steps [of True ?s3 s'] by (auto simp: af_lost_def af_user_def)
  with r show ?thesis by (intro exI [of _ ?s3]) auto
qed

end
