(* ===== verification/Secret_Registry.thy ===== *)
theory Secret_Registry
  imports Prelude
begin

text \<open>
  \<open>SecretRegistry\<close> of \<open>app/conversation/state.py\<close>: the registered secrets as a dictionary in
  insertion order, and the redaction of a text, with Python's \<open>str.replace\<close> written out.
\<close>

type_synonym secrets = "(string \<times> string) list"

definition register :: "string \<Rightarrow> string \<Rightarrow> secrets \<Rightarrow> secrets" where
  "register key val sec = (if val = [] then sec else AList.update key val sec)"

definition unregister :: "string \<Rightarrow> secrets \<Rightarrow> secrets" where
  "unregister key sec = AList.delete key sec"

definition clear_secrets :: "secrets \<Rightarrow> secrets" where
  "clear_secrets sec = []"

text \<open>\<open>text.replace(w, p)\<close> for a non-empty \<open>w\<close>: occurrences are replaced from the left, without overlap.\<close>

function str_replace :: "string \<Rightarrow> string \<Rightarrow> string \<Rightarrow> string" where
  "str_replace w p [] = []"
| "str_replace w p (c # cs) =
     (if w \<noteq> [] \<and> prefix w (c # cs) then p @ str_replace w p (drop (length w) (c # cs))
      else c # str_replace w p cs)"
  by pat_completeness auto
termination by (relation "measure (\<lambda>(_, _, t). length t)") (auto simp: neq_Nil_conv)

definition placeholder :: "string \<Rightarrow> string" where
  "placeholder key = ''<REDACTED:'' @ key @ ''>''"

definition redact_one :: "string \<times> string \<Rightarrow> string \<Rightarrow> string" where
  "redact_one kv t =
     (if snd kv \<noteq> [] \<and> sublist (snd kv) t then str_replace (snd kv) (placeholder (fst kv)) t else t)"

definition redact :: "secrets \<Rightarrow> string \<Rightarrow> string" where
  "redact sec t = fold redact_one sec t"

section \<open>The registry\<close>

definition registry_ok :: "secrets \<Rightarrow> bool" where
  "registry_ok sec \<longleftrightarrow> dict_ok sec \<and> (\<forall>(k, v) \<in> set sec. v \<noteq> [])"

lemma registry_ok_register: "registry_ok sec \<Longrightarrow> registry_ok (register k v sec)"
  using set_update_subset [of k v sec] by (auto simp: registry_ok_def register_def)

lemma registry_ok_unregister: "registry_ok sec \<Longrightarrow> registry_ok (unregister k sec)"
  by (auto simp: registry_ok_def unregister_def AList.delete_eq dict_ok_def distinct_map inj_on_def)

lemma register_lookup:
  "map_of (register k v sec) = (if v = [] then map_of sec else (map_of sec)(k \<mapsto> v))"
  by (simp add: register_def)

section \<open>Replacement\<close>

lemma str_replace_absent: "\<not> sublist w t \<Longrightarrow> str_replace w p t = t"
  by (induction t) (auto simp: sublist_Cons_right)

lemma str_replace_hit: "w \<noteq> [] \<Longrightarrow> str_replace w p (w @ t) = p @ str_replace w p t"
  by (cases w) auto

text \<open>A string is \<open>unbracketed\<close> when it shares no bracket with the placeholders.\<close>

definition unbracketed :: "string \<Rightarrow> bool" where
  "unbracketed v \<longleftrightarrow> v \<noteq> [] \<and> CHR ''<'' \<notin> set v \<and> CHR ''>'' \<notin> set v"

lemma placeholder_snoc: "placeholder k = (''<REDACTED:'' @ k) @ [CHR ''>'']"
  by (simp add: placeholder_def)

lemma unbracketed_not_prefix:
  "unbracketed v \<Longrightarrow> \<not> prefix v (placeholder k @ t)"
  by (cases v) (auto simp: unbracketed_def placeholder_def)

lemma sublist_after_placeholder:
  assumes v: "unbracketed v" "\<not> sublist v (placeholder k)" and s: "sublist v (placeholder k @ t)"
  shows "sublist v t"
proof -
  have "sublist v t" if "v = a @ b" "suffix a (placeholder k)" "prefix b t" for a b
  proof (cases a rule: rev_cases)
    case Nil
    with that show ?thesis by simp
  next
    case (snoc a' x)
    with that(2) have "x = CHR ''>''" unfolding placeholder_snoc snoc snoc_suffix_snoc by simp
    with that(1) snoc v(1) show ?thesis by (simp add: unbracketed_def)
  qed
  with v s show ?thesis unfolding sublist_append by blast
qed

lemma prefix_str_replace:
  "prefix v (str_replace w (placeholder k) t) \<Longrightarrow> CHR ''<'' \<notin> set v \<Longrightarrow> prefix v t"
proof (induction t arbitrary: v)
  case (Cons c cs)
  show ?case
  proof (cases v)
    case (Cons x xs)
    then show ?thesis
      using Cons.prems Cons.IH [of xs] by (auto simp: placeholder_def split: if_splits)
  qed simp
qed simp

lemma sublist_of_drop: "sublist v (drop n t) \<Longrightarrow> sublist v t"
  by (erule sublist_order.order.trans) (rule sublist_drop)

lemma sublist_str_replace:
  assumes v: "unbracketed v" "\<not> sublist v (placeholder k)"
  shows "sublist v (str_replace w (placeholder k) t) \<Longrightarrow> sublist v t"
proof (induction w "placeholder k" t rule: str_replace.induct)
  case (2 w c cs)
  show ?case
  proof (cases "w \<noteq> [] \<and> prefix w (c # cs)")
    case True
    with 2(3) have "sublist v (placeholder k @ str_replace w (placeholder k) (drop (length w) (c # cs)))"
      by simp
    then have "sublist v (str_replace w (placeholder k) (drop (length w) (c # cs)))"
      by (rule sublist_after_placeholder [OF v])
    then show ?thesis using 2(1) True by (blast intro: sublist_of_drop)
  next
    case False
    with 2(3) have "prefix v (c # str_replace w (placeholder k) cs) \<or>
        sublist v (str_replace w (placeholder k) cs)"
      by (simp add: sublist_Cons_right)
    then show ?thesis
    proof
      assume p: "prefix v (c # str_replace w (placeholder k) cs)"
      then have "prefix v (c # cs)"
        using v(1) prefix_str_replace by (cases v) (auto simp: unbracketed_def)
      then show ?thesis by (simp add: sublist_Cons_right)
    qed (use 2(2) False in \<open>simp add: sublist_Cons_right\<close>)
  qed
qed simp

lemma str_replace_removes:
  assumes v: "unbracketed v" "\<not> sublist v (placeholder k)"
  shows "\<not> sublist v (str_replace v (placeholder k) t)"
  using v
proof (induction v "placeholder k" t rule: str_replace.induct)
  case (1 w)
  then show ?case by (simp add: unbracketed_def)
next
  case (2 w c cs)
  show ?case
  proof (cases "prefix w (c # cs)")
    case True
    moreover have "w \<noteq> []" using 2(3) by (simp add: unbracketed_def)
    ultimately have "\<not> sublist w (str_replace w (placeholder k) (drop (length w) (c # cs)))"
      using 2(1,3,4) by blast
    then have "\<not> sublist w (placeholder k @ str_replace w (placeholder k) (drop (length w) (c # cs)))"
      using sublist_after_placeholder [OF 2(3,4)] by blast
    with True \<open>w \<noteq> []\<close> show ?thesis by simp
  next
    case False
    have "\<not> prefix w (c # str_replace w (placeholder k) cs)"
    proof
      assume "prefix w (c # str_replace w (placeholder k) cs)"
      then have "prefix w (c # cs)"
        using 2(3) prefix_str_replace by (cases w) (auto simp: unbracketed_def)
      with False show False ..
    qed
    with False 2 show ?thesis by (simp add: sublist_Cons_right)
  qed
qed

lemma redact_one_keeps_out:
  assumes v: "unbracketed v" "\<not> sublist v (placeholder (fst kv))" and t: "\<not> sublist v t"
  shows "\<not> sublist v (redact_one kv t)"
proof -
  have "\<not> sublist v (str_replace (snd kv) (placeholder (fst kv)) t)"
    using sublist_str_replace [OF v] t by blast
  with t show ?thesis unfolding redact_one_def by (rule if_split [THEN iffD2, OF conjI, OF impI impI, rotated])
qed

lemma redact_keeps_out:
  "unbracketed v \<Longrightarrow> \<forall>(k, _) \<in> set sec. \<not> sublist v (placeholder k) \<Longrightarrow> \<not> sublist v t \<Longrightarrow>
     \<not> sublist v (redact sec t)"
  unfolding redact_def
  by (induction sec arbitrary: t) (auto simp: redact_one_keeps_out)

lemma redact_append: "redact (xs @ ys) t = redact ys (redact xs t)"
  by (simp add: redact_def)

text \<open>C11: redaction is complete: no registered value without angle brackets survives in the redacted
  text, whatever the other secrets and the text are, unless the value is itself part of one of the
  placeholders.\<close>

theorem redact_complete:
  assumes "(key, v) \<in> set sec" and "unbracketed v" and "\<forall>(k, _) \<in> set sec. \<not> sublist v (placeholder k)"
  shows "\<not> sublist v (redact sec t)"
proof -
  obtain xs ys where sec: "sec = xs @ (key, v) # ys" using assms(1) by (auto dest: split_list)
  then have "\<not> sublist v (placeholder key)" using assms(3) by simp
  then have "\<not> sublist v (redact_one (key, v) (redact xs t))"
    using str_replace_removes [OF assms(2)] by (simp add: redact_one_def assms(2) [unfolded unbracketed_def])
  then have "\<not> sublist v (redact ys (redact_one (key, v) (redact xs t)))"
    using assms by (intro redact_keeps_out) (auto simp: sec)
  then show ?thesis by (simp add: sec redact_def)
qed

definition demo_secrets :: secrets where
  "demo_secrets = register ''b'' ''hunter2'' (register ''a'' ''hunter'' [])"

theorem redact_complete_witness:
  "\<not> sublist ''hunter'' (redact demo_secrets ''the hunter2 token'')"
  by (rule redact_complete [of "''a''"])
     (simp_all add: demo_secrets_def register_def unbracketed_def placeholder_def sublist_Cons_right)

text \<open>a secret that begins with an earlier registered one is only partly redacted: the shorter
  value is replaced first and the rest of the longer secret stays readable in the text.\<close>

theorem redact_leaks_suffix:
  assumes "v \<noteq> []" and "rest \<noteq> []" and "\<not> sublist v rest" and "k1 \<noteq> k2"
    and "\<not> sublist (v @ rest) (placeholder k1 @ rest)"
  shows "redact (register k2 (v @ rest) (register k1 v [])) (v @ rest) = placeholder k1 @ rest"
  using assms
  by (simp add: register_def redact_def redact_one_def str_replace_hit str_replace_absent)

theorem redact_leaks_suffix_witness:
  "redact (register ''b'' ''hunter2'' (register ''a'' ''hunter'' [])) ''hunter2'' = ''<REDACTED:a>2''"
  using redact_leaks_suffix [of "''hunter''" "''2''" "''a''" "''b''"]
  by (simp add: placeholder_def sublist_Cons_right)

end
