(* ===== verification/Conversation.thy ===== *)
theory Conversation
  imports Secret_Registry Resource_Lock
begin

text \<open>
  The life cycle of a conversation: \<open>app/conversation/cancellation_token.py\<close>, the status machine of
  \<open>app/conversation/state.py\<close>, and \<open>run\<close>, \<open>interrupt\<close>, \<open>resume\<close> and \<open>send_message\<close> of
  \<open>app/conversation/base.py\<close> with the hooks of \<open>local_conversation.py\<close> they call, as a step
  relation over the threads that use one conversation.  The agent is the environment: it may return
  or raise at any time.
\<close>

section \<open>The cancellation token\<close>

record token =
  tok_cancelled :: bool
  tok_reason :: string
  tok_event :: bool
  tok_at :: "time option"

datatype execution_status = IDLE | RUNNING | PAUSED | FINISHED | ERROR

datatype conv_error = CancelledError string | ValueErr execution_status execution_status | RuntimeErr execution_status

definition fresh_token :: token where
  "fresh_token = \<lparr>tok_cancelled = False, tok_reason = [], tok_event = False, tok_at = None\<rparr>"

definition cancel :: "time \<Rightarrow> string \<Rightarrow> token \<Rightarrow> token" where
  "cancel now reason k =
     (if tok_cancelled k then k
      else \<lparr>tok_cancelled = True, tok_reason = reason, tok_event = True, tok_at = Some now\<rparr>)"

definition raise_if_cancelled :: "token \<Rightarrow> conv_error + unit" where
  "raise_if_cancelled k = (if tok_cancelled k then Inl (CancelledError (tok_reason k)) else Inr ())"

definition elapsed_since_cancel :: "time \<Rightarrow> token \<Rightarrow> time option" where
  "elapsed_since_cancel now k = map_option (\<lambda>c. now - c) (tok_at k)"

definition exit_token :: "time \<Rightarrow> token \<Rightarrow> token" where
  "exit_token now k = (if \<not> tok_cancelled k then cancel now ''CancellationToken context exited'' k else k)"

lemma cancel_first_wins: "cancel now' r' (cancel now r k) = cancel now r k"
  by (simp add: cancel_def)

lemma cancel_raises: "raise_if_cancelled (cancel now r fresh_token) = Inl (CancelledError r)"
  by (simp add: cancel_def raise_if_cancelled_def fresh_token_def)

section \<open>The status machine\<close>

fun is_terminal :: "execution_status \<Rightarrow> bool" where
  "is_terminal s = (s = FINISHED \<or> s = ERROR)"

fun valid_transitions :: "execution_status \<Rightarrow> execution_status list" where
  "valid_transitions IDLE = [RUNNING]"
| "valid_transitions RUNNING = [FINISHED, PAUSED, ERROR, IDLE]"
| "valid_transitions PAUSED = [RUNNING, ERROR]"
| "valid_transitions FINISHED = []"
| "valid_transitions ERROR = []"

record conv_state =
  cs_status :: execution_status
  cs_updated_at :: "time option"
  cs_error_message :: "string option"
  cs_pause_reason :: "string option"
  cs_blocked_actions :: "(string \<times> string) list list"
  cs_blocked_messages :: "(string \<times> string) list list"
  cs_secrets :: secrets

definition init_conv_state :: conv_state where
  "init_conv_state = \<lparr>cs_status = IDLE, cs_updated_at = None, cs_error_message = None,
     cs_pause_reason = None, cs_blocked_actions = [], cs_blocked_messages = [], cs_secrets = []\<rparr>"

definition set_status ::
  "time \<Rightarrow> execution_status \<Rightarrow> conv_state \<Rightarrow> conv_error + (execution_status \<times> conv_state)" where
  "set_status now new s =
     (let old = cs_status s in
      if new \<notin> set (valid_transitions old) then
        if old = new then Inr (old, s) else Inl (ValueErr old new)
      else
        let s1 = s\<lparr>cs_status := new, cs_updated_at := Some now\<rparr>;
            s2 = (if new = IDLE then s1\<lparr>cs_error_message := None, cs_pause_reason := None\<rparr>
                  else if new = RUNNING then s1\<lparr>cs_pause_reason := None\<rparr>
                  else s1)
        in Inr (old, s2))"

definition try_set_status :: "time \<Rightarrow> execution_status \<Rightarrow> conv_state \<Rightarrow> bool \<times> conv_state" where
  "try_set_status now new s =
     (case set_status now new s of Inl _ \<Rightarrow> (False, s) | Inr (_, s') \<Rightarrow> (True, s'))"

definition add_blocked_action :: "(string \<times> string) list \<Rightarrow> conv_state \<Rightarrow> conv_state" where
  "add_blocked_action a s = s\<lparr>cs_blocked_actions := cs_blocked_actions s @ [a]\<rparr>"

definition add_blocked_message :: "(string \<times> string) list \<Rightarrow> conv_state \<Rightarrow> conv_state" where
  "add_blocked_message m s = s\<lparr>cs_blocked_messages := cs_blocked_messages s @ [m]\<rparr>"

lemma set_status_refuses:
  "set_status now new s = Inl e \<longleftrightarrow>
     new \<notin> set (valid_transitions (cs_status s)) \<and> new \<noteq> cs_status s \<and> e = ValueErr (cs_status s) new"
  by (auto simp: set_status_def Let_def)

lemma set_status_returns_old: "set_status now new s = Inr (old, s') \<Longrightarrow> old = cs_status s \<and> cs_status s' = new"
  by (auto simp: set_status_def Let_def split: if_splits)

lemma set_status_clears:
  "set_status now new s = Inr (old, s') \<Longrightarrow> new \<noteq> old \<Longrightarrow>
     cs_error_message s' = (if new = IDLE then None else cs_error_message s) \<and>
     cs_pause_reason s' = (if new \<in> {IDLE, RUNNING} then None else cs_pause_reason s)"
  by (auto simp: set_status_def Let_def split: if_splits)

lemma terminal_iff_stuck:
  "is_terminal (cs_status s) \<longleftrightarrow> (\<forall>st. snd (try_set_status now st s) = s)"
proof
  assume "\<forall>st. snd (try_set_status now st s) = s"
  then have stay: "cs_status (snd (try_set_status now st s)) = cs_status s" for st by simp
  show "is_terminal (cs_status s)"
    using stay [of RUNNING] stay [of FINISHED] stay [of ERROR]
    by (cases "cs_status s") (simp_all add: try_set_status_def set_status_def Let_def)
next
  assume "is_terminal (cs_status s)"
  then show "\<forall>st. snd (try_set_status now st s) = s"
    by (cases "cs_status s") (auto simp: try_set_status_def set_status_def Let_def)
qed

section \<open>The life cycle\<close>

datatype conv_event =
    MessageEvent string
  | StateUpdateEvent execution_status execution_status
  | InterruptEvent string
  | ResumeTranscriptEvent
  | AgentErrorEvent string

text \<open>A thread is outside, past the \<open>is_idle\<close> check of \<open>run\<close>, or in the agent loop.\<close>

datatype conv_pc = Away | Checked string | Working

record conv =
  cv_state :: conv_state
  cv_token :: token
  cv_log :: "conv_event list"
  cv_pc :: "tid \<Rightarrow> conv_pc"

definition init_conv :: conv where
  "init_conv = \<lparr>cv_state = init_conv_state, cv_token = fresh_token, cv_log = [], cv_pc = (\<lambda>_. Away)\<rparr>"

definition status :: "conv \<Rightarrow> execution_status" where
  "status c = cs_status (cv_state c)"

text \<open>\<open>run\<close> up to the call of \<open>_do_run\<close>, and the events that \<open>_do_run\<close> records first.\<close>

definition run_check :: "tid \<Rightarrow> string \<Rightarrow> conv \<Rightarrow> conv_error + conv" where
  "run_check t prompt c =
     (if status c \<noteq> IDLE then Inl (RuntimeErr (status c)) else Inr (c\<lparr>cv_pc := (cv_pc c)(t := Checked prompt)\<rparr>))"

definition run_go :: "time \<Rightarrow> tid \<Rightarrow> string \<Rightarrow> conv \<Rightarrow> conv" where
  "run_go now t prompt c =
     (case set_status now RUNNING (cv_state c) of
        Inl _ \<Rightarrow> c\<lparr>cv_token := fresh_token, cv_pc := (cv_pc c)(t := Away)\<rparr>
      | Inr (_, s) \<Rightarrow> c\<lparr>cv_state := s, cv_token := fresh_token,
          cv_log := cv_log c @ [MessageEvent prompt, StateUpdateEvent IDLE RUNNING],
          cv_pc := (cv_pc c)(t := Working)\<rparr>)"

definition status_to :: "time \<Rightarrow> execution_status \<Rightarrow> conv \<Rightarrow> conv" where
  "status_to now st c = c\<lparr>cv_state := snd (try_set_status now st (cv_state c))\<rparr>"

text \<open>The three ways out of the loop: normal return, \<open>CancelledError\<close>, any other exception.\<close>

definition run_returns :: "time \<Rightarrow> tid \<Rightarrow> conv \<Rightarrow> conv" where
  "run_returns now t c =
     (let c1 = c\<lparr>cv_pc := (cv_pc c)(t := Away)\<rparr>
      in if status c = RUNNING
         then status_to now FINISHED (c1\<lparr>cv_log := cv_log c @ [StateUpdateEvent RUNNING FINISHED]\<rparr>)
         else c1)"

definition run_cancelled :: "time \<Rightarrow> tid \<Rightarrow> conv \<Rightarrow> conv" where
  "run_cancelled now t c =
     (let c1 = c\<lparr>cv_log := cv_log c @ [InterruptEvent (tok_reason (cv_token c))],
                cv_pc := (cv_pc c)(t := Away)\<rparr>
      in if status c = RUNNING
         then let c2 = status_to now FINISHED c1
              in c2\<lparr>cv_state := (cv_state c2)\<lparr>cs_error_message := Some ''Run was cancelled''\<rparr>\<rparr>
         else c1)"

definition run_raises :: "time \<Rightarrow> tid \<Rightarrow> string \<Rightarrow> conv \<Rightarrow> conv" where
  "run_raises now t e c =
     (let c1 = c\<lparr>cv_log := cv_log c @ [AgentErrorEvent e], cv_pc := (cv_pc c)(t := Away)\<rparr>
      in if status c = RUNNING \<or> status c = PAUSED
         then let c2 = status_to now ERROR c1
              in c2\<lparr>cv_state := (cv_state c2)\<lparr>cs_error_message := Some e\<rparr>\<rparr>
         else c1)"

definition interrupt :: "time \<Rightarrow> string \<Rightarrow> conv \<Rightarrow> conv" where
  "interrupt now reason c =
     (let c1 = c\<lparr>cv_token := cancel now reason (cv_token c), cv_log := cv_log c @ [InterruptEvent reason]\<rparr>
      in if status c = RUNNING
         then let c2 = status_to now PAUSED c1
              in c2\<lparr>cv_state := (cv_state c2)\<lparr>cs_pause_reason := Some reason\<rparr>\<rparr>
         else c1)"

definition resume :: "time \<Rightarrow> conv \<Rightarrow> conv_error + conv" where
  "resume now c =
     (if status c \<noteq> PAUSED then Inl (RuntimeErr (status c))
      else Inr (status_to now RUNNING (c\<lparr>cv_token := fresh_token, cv_log := cv_log c @ [ResumeTranscriptEvent]\<rparr>)))"

text \<open>\<open>send_message\<close> up to the point where it enters \<open>run\<close>, when an agent is configured.\<close>

definition send_message :: "tid \<Rightarrow> bool \<Rightarrow> string \<Rightarrow> conv \<Rightarrow> conv_error + conv" where
  "send_message t has_agent m c =
     (if is_terminal (status c) then Inl (RuntimeErr (status c))
      else let m' = redact (cs_secrets (cv_state c)) m;
               c1 = c\<lparr>cv_log := cv_log c @ [MessageEvent m']\<rparr>
           in if has_agent \<and> status c = IDLE then run_check t m' c1 else Inr c1)"

lemmas [ops] = status_def run_check_def run_go_def status_to_def run_returns_def run_cancelled_def
  run_raises_def interrupt_def resume_def try_set_status_def set_status_def Let_def

inductive conv_step :: "conv \<Rightarrow> conv \<Rightarrow> bool" where
  check: "cv_pc c t = Away \<Longrightarrow> run_check t prompt c = Inr c' \<Longrightarrow> conv_step c c'"
| send: "cv_pc c t = Away \<Longrightarrow> send_message t has_agent m c = Inr c' \<Longrightarrow> conv_step c c'"
| go: "cv_pc c t = Checked prompt \<Longrightarrow> conv_step c (run_go now t prompt c)"
| returns: "cv_pc c t = Working \<Longrightarrow> conv_step c (run_returns now t c)"
| cancelled: "cv_pc c t = Working \<Longrightarrow> raise_if_cancelled (cv_token c) \<noteq> Inr () \<Longrightarrow>
    conv_step c (run_cancelled now t c)"
| raises: "cv_pc c t = Working \<Longrightarrow> conv_step c (run_raises now t e c)"
| interrupt: "conv_step c (interrupt now reason c)"
| resume: "resume now c = Inr c' \<Longrightarrow> conv_step c c'"

inductive conv_reachable :: "conv \<Rightarrow> bool" where
  start: "conv_reachable init_conv"
| step: "conv_reachable c \<Longrightarrow> conv_step c c' \<Longrightarrow> conv_reachable c'"

subsection \<open>Invariants\<close>

text \<open>Every status change of a step is one of the table's.\<close>

lemma status_to_cases:
  "status (status_to now st c) = (if st \<in> set (valid_transitions (status c)) then st else status c)"
  by (simp add: ops)

lemma step_status:
  "conv_step c c' \<Longrightarrow> status c' = status c \<or> status c' \<in> set (valid_transitions (status c))"
proof (induction rule: conv_step.induct)
  case (check c t prompt c')
  then show ?case by (auto simp: run_check_def status_def split: if_splits)
next
  case (send c t has_agent m c')
  then show ?case by (auto simp: send_message_def run_check_def status_def Let_def split: if_splits)
next
  case (go c t prompt now)
  show ?case by (cases "cs_status (cv_state c)") (simp_all add: ops)
next
  case (returns c t now)
  show ?case by (cases "cs_status (cv_state c)") (simp_all add: ops)
next
  case (cancelled c t now)
  show ?case by (cases "cs_status (cv_state c)") (simp_all add: ops)
next
  case (raises c t now e)
  show ?case by (cases "cs_status (cv_state c)") (simp_all add: ops)
next
  case (interrupt c now reason)
  show ?case by (cases "cs_status (cv_state c)") (simp_all add: ops)
next
  case (resume now c c')
  then show ?case by (auto simp: ops split: if_splits)
qed

text \<open>No step returns to \<open>IDLE\<close>.\<close>

lemma step_not_idle: "conv_step c c' \<Longrightarrow> status c \<noteq> IDLE \<Longrightarrow> status c' \<noteq> IDLE"
proof (induction rule: conv_step.induct)
  case (check c t prompt c')
  then show ?case by (auto simp: run_check_def)
next
  case (send c t has_agent m c')
  then show ?case by (auto simp: send_message_def status_def Let_def split: if_splits)
qed (auto simp: ops split: if_splits)


text \<open>A conversation whose first run was interrupted and has unwound.\<close>

definition started_conv :: conv where
  "started_conv = run_go 1 1 ''task'' (init_conv\<lparr>cv_pc := (\<lambda>_. Away)(1 := Checked ''task'')\<rparr>)"

definition paused_conv :: conv where
  "paused_conv = run_cancelled 3 1 (interrupt 2 ''stop'' started_conv)"

lemma started_steps: "conv_reachable started_conv"
proof -
  have "conv_step init_conv (init_conv\<lparr>cv_pc := (\<lambda>_. Away)(1 := Checked ''task'')\<rparr>)"
    by (rule conv_step.check [of _ 1 "''task''"])
       (simp_all add: init_conv_def run_check_def status_def init_conv_state_def)
  moreover have "conv_step (init_conv\<lparr>cv_pc := (\<lambda>_. Away)(1 := Checked ''task'')\<rparr>) started_conv"
    unfolding started_conv_def by (rule conv_step.go) simp
  ultimately show ?thesis by (blast intro: conv_reachable.intros)
qed

lemma started_simps:
  "status started_conv = RUNNING" "cv_pc started_conv = (\<lambda>_. Away)(1 := Working)"
  "cv_token started_conv = fresh_token"
  by (simp_all add: started_conv_def init_conv_def init_conv_state_def ops)

lemma paused_steps: "conv_step\<^sup>*\<^sup>* started_conv paused_conv" "conv_reachable paused_conv"
proof -
  have a: "conv_step started_conv (interrupt 2 ''stop'' started_conv)" by (rule conv_step.interrupt)
  have "cv_pc (interrupt 2 ''stop'' started_conv) = cv_pc started_conv"
    and "cv_token (interrupt 2 ''stop'' started_conv) = cancel 2 ''stop'' fresh_token"
    by (simp_all add: interrupt_def Let_def started_simps status_to_def)
  then have b: "conv_step (interrupt 2 ''stop'' started_conv) paused_conv"
    unfolding paused_conv_def
    by (intro conv_step.cancelled) (simp_all add: started_simps cancel_raises)
  show "conv_step\<^sup>*\<^sup>* started_conv paused_conv" using a b by (auto intro: converse_rtranclp_into_rtranclp)
  show "conv_reachable paused_conv" using a b started_steps by (blast intro: conv_reachable.step)
qed

lemma paused_simps: "status paused_conv = PAUSED" "cv_pc paused_conv = (\<lambda>_. Away)"
  by (simp_all add: paused_conv_def run_cancelled_def interrupt_def Let_def started_simps status_to_def
      status_def try_set_status_def set_status_def fun_upd_idem started_simps [unfolded status_def])


subsection \<open>Resuming\<close>

definition nobody_runs :: "conv \<Rightarrow> bool" where
  "nobody_runs c \<longleftrightarrow> (\<forall>t. cv_pc c t = Away) \<and> status c \<in> {PAUSED, RUNNING}"

lemma nobody_runs_step: "conv_step c c' \<Longrightarrow> nobody_runs c \<Longrightarrow> nobody_runs c'"
proof (induction rule: conv_step.induct)
  case (check c t prompt c')
  then show ?case by (auto simp: nobody_runs_def run_check_def)
next
  case (send c t has_agent m c')
  then show ?case by (auto simp: nobody_runs_def send_message_def Let_def status_def split: if_splits)
next
  case (interrupt c now reason)
  then show ?case by (cases "cs_status (cv_state c)") (simp_all add: nobody_runs_def ops)
next
  case (resume now c c')
  then show ?case by (auto simp: nobody_runs_def ops split: if_splits)
qed (simp_all add: nobody_runs_def)

text \<open>\<open>resume\<close> does not resume a run that has unwound: once the interrupted agent loop has
  returned, the conversation moves between \<open>PAUSED\<close> and \<open>RUNNING\<close> for ever, no thread ever enters the
  loop again, and it never reaches a terminal status.\<close>

theorem resume_restarts_nothing:
  assumes "conv_step\<^sup>*\<^sup>* c c'" and "\<forall>t. cv_pc c t = Away" and "status c \<in> {PAUSED, RUNNING}"
  shows "(\<forall>t. cv_pc c' t = Away) \<and> status c' \<in> {PAUSED, RUNNING} \<and> \<not> is_terminal (status c')"
proof -
  have "nobody_runs c" using assms(2,3) by (simp add: nobody_runs_def)
  with assms(1) have "nobody_runs c'" by (induction rule: rtranclp_induct) (blast intro: nobody_runs_step)+
  then show ?thesis by (auto simp: nobody_runs_def)
qed

theorem resume_restarts_nothing_witness:
  "\<exists>c'. conv_reachable paused_conv \<and> resume 4 paused_conv = Inr c' \<and> status c' = RUNNING \<and>
        (\<forall>t. cv_pc c' t = Away) \<and> \<not> is_terminal (status c')"
proof -
  obtain c' where r: "resume 4 paused_conv = Inr c'" "status c' = RUNNING"
    using paused_simps(1) by (auto simp: resume_def status_to_cases status_def [symmetric])
       (simp add: status_def status_to_def try_set_status_def set_status_def Let_def)
  have "conv_step\<^sup>*\<^sup>* paused_conv c'" using conv_step.resume [OF r(1)] by blast
  from resume_restarts_nothing [OF this] paused_simps r paused_steps(2) show ?thesis by auto
qed

text \<open>the \<open>IDLE\<close> check of \<open>run\<close> does not protect it: two threads can both pass it before either
  changes the status, and since \<open>RUNNING\<close> to \<open>RUNNING\<close> is a no-op both run the agent.\<close>

theorem conversation_double_run:
  "\<exists>c. conv_reachable c \<and> cv_pc c 1 = Working \<and> cv_pc c 2 = Working"
proof -
  let ?p = "(\<lambda>_. Away) :: tid \<Rightarrow> conv_pc"
  let ?c1 = "init_conv\<lparr>cv_pc := ?p(1 := Checked ''a'')\<rparr>"
  let ?c2 = "init_conv\<lparr>cv_pc := ?p(1 := Checked ''a'', 2 := Checked ''b'')\<rparr>"
  let ?c3 = "run_go 1 1 ''a'' ?c2"
  note defs = init_conv_def run_check_def status_def init_conv_state_def
  have "conv_reachable ?c1"
    by (rule conv_reachable.step [OF conv_reachable.start], rule conv_step.check [of _ 1 "''a''"])
       (simp_all add: defs)
  then have "conv_reachable ?c2"
    by (rule conv_reachable.step, intro conv_step.check [of _ 2 "''b''"]) (simp_all add: defs)
  then have "conv_reachable ?c3"
    by (rule conv_reachable.step, intro conv_step.go) simp
  then have "conv_reachable (run_go 2 2 ''b'' ?c3)"
    by (rule conv_reachable.step, intro conv_step.go) (simp add: defs ops)
  moreover have "cv_pc (run_go 2 2 ''b'' ?c3) 1 = Working \<and> cv_pc (run_go 2 2 ''b'' ?c3) 2 = Working"
    by (simp add: defs ops)
  ultimately show ?thesis by blast
qed

text \<open>what a run records: a message sent to an idle conversation with an agent is recorded twice,
  redacted, while a prompt passed to \<open>run\<close> directly is recorded as it is, secrets included.\<close>

theorem prompt_recording:
  assumes "status c = IDLE"
  shows "(\<exists>c1. send_message t True m c = Inr c1 \<and>
      cv_log (run_go now t (redact (cs_secrets (cv_state c)) m) c1) =
        cv_log c @ [MessageEvent (redact (cs_secrets (cv_state c)) m),
          MessageEvent (redact (cs_secrets (cv_state c)) m), StateUpdateEvent IDLE RUNNING]) \<and>
    (\<exists>c1. run_check t m c = Inr c1 \<and>
      cv_log (run_go now t m c1) = cv_log c @ [MessageEvent m, StateUpdateEvent IDLE RUNNING])"
  using assms by (simp add: send_message_def ops)

definition secretive_conv :: conv where
  "secretive_conv = init_conv\<lparr>cv_state := init_conv_state\<lparr>cs_secrets := register ''k'' ''pw'' []\<rparr>\<rparr>"

theorem prompt_recording_witness:
  "\<exists>c1 c2. send_message 1 True ''pw'' secretive_conv = Inr c1 \<and>
     cv_log (run_go 1 1 ''<REDACTED:k>'' c1) =
       [MessageEvent ''<REDACTED:k>'', MessageEvent ''<REDACTED:k>'', StateUpdateEvent IDLE RUNNING] \<and>
     run_check 1 ''pw'' secretive_conv = Inr c2 \<and>
     cv_log (run_go 1 1 ''pw'' c2) = [MessageEvent ''pw'', StateUpdateEvent IDLE RUNNING]"
proof -
  have "status secretive_conv = IDLE" by (simp add: secretive_conv_def status_def init_conv_state_def)
  moreover have "redact (cs_secrets (cv_state secretive_conv)) ''pw'' = ''<REDACTED:k>''"
    by (simp add: secretive_conv_def register_def redact_def redact_one_def placeholder_def)
  moreover have "cv_log secretive_conv = []" by (simp add: secretive_conv_def init_conv_def)
  ultimately show ?thesis using prompt_recording [of secretive_conv 1 "''pw''" 1] by auto
qed

end
