(* ===== verification/Stuck_Detector.thy ===== *)
theory Stuck_Detector
  imports Prelude
begin

text \<open>
  \<open>app/conversation/stuck_detector.py\<close>: the five stuck patterns and \<open>analyze\<close>.  The md5
  fingerprint is the parameter \<open>dg\<close>.  The two pair-building loops are partial functions, since they
  do not always end.  The report keeps the pattern, the confidence and the number in its metadata;
  the texts for the user are left out.
\<close>

section \<open>Events\<close>

datatype ev_kind = KAction | KObservation | KMessage | KAgentError | KConversationError
  | KCondensationRequest | KOther

datatype tool_ref = NoCall | BareCall string | FunctionCall string string

record ev =
  ev_kind :: ev_kind
  ev_call :: tool_ref
  ev_str :: string
  ev_tool_name :: string
  ev_content :: string
  ev_success :: bool
  ev_source :: string
  ev_role :: string
  ev_error :: string
  ev_error_type :: string

definition action_fingerprint :: "(string \<Rightarrow> string) \<Rightarrow> ev \<Rightarrow> string" where
  "action_fingerprint dg e = dg
     (case ev_call e of FunctionCall name args \<Rightarrow> name @ '':'' @ args
      | BareCall raw \<Rightarrow> raw | NoCall \<Rightarrow> ev_str e)"

definition observation_fingerprint :: "(string \<Rightarrow> string) \<Rightarrow> ev \<Rightarrow> string" where
  "observation_fingerprint dg e = dg (ev_tool_name e @ '':'' @ take 200 (ev_content e))"

definition is_action :: "ev \<Rightarrow> bool" where "is_action e \<longleftrightarrow> ev_kind e = KAction"

definition is_observation :: "ev \<Rightarrow> bool" where "is_observation e \<longleftrightarrow> ev_kind e = KObservation"

definition is_user_message :: "ev \<Rightarrow> bool" where
  "is_user_message e \<longleftrightarrow> ev_kind e = KMessage \<and> (ev_source e = ''user'' \<or> ev_role e = ''user'')"

definition is_failed_observation :: "ev \<Rightarrow> bool" where
  "is_failed_observation e \<longleftrightarrow> is_observation e \<and> \<not> ev_success e"

definition context_keywords :: "string list" where
  "context_keywords = [''token'', ''context'', ''window'', ''maximum'', ''too many'', ''exceed'',
     ''length'', ''context_length'']"

definition is_context_window_error :: "ev \<Rightarrow> bool" where
  "is_context_window_error e \<longleftrightarrow>
     (if ev_kind e = KCondensationRequest then True
      else if ev_kind e \<in> {KAgentError, KConversationError} then
        let combined = map lower_char (ev_error_type e @ '' '' @ ev_error e)
        in list_ex (\<lambda>kw. sublist kw combined) context_keywords
      else False)"

section \<open>The detector\<close>

record detector =
  window_size :: nat
  repeat_threshold :: nat
  monologue_threshold :: nat
  context_error_threshold :: nat

definition default_detector :: detector where
  "default_detector = \<lparr>window_size = 20, repeat_threshold = 3, monologue_threshold = 8,
                       context_error_threshold = 2\<rparr>"

definition set_window_size :: "nat \<Rightarrow> detector \<Rightarrow> detector" where
  "set_window_size v d = d\<lparr>window_size := max 4 v\<rparr>"

definition set_repeat_threshold :: "nat \<Rightarrow> detector \<Rightarrow> detector" where
  "set_repeat_threshold v d = d\<lparr>repeat_threshold := max 2 v\<rparr>"

definition set_monologue_threshold :: "nat \<Rightarrow> detector \<Rightarrow> detector" where
  "set_monologue_threshold v d = d\<lparr>monologue_threshold := max 3 v\<rparr>"

datatype stuck_pattern = RepeatingActionObservation | RepeatingActionError | AgentMonologue
  | AlternatingActionObservation | ContextWindowErrorLoop

text \<open>\<open>None\<close> is a report that is not stuck.\<close>

record stuck_report =
  sr_pattern :: stuck_pattern
  sr_confidence :: real
  sr_count :: nat

type_synonym report = "stuck_report option"

text \<open>\<open>xs[-n:]\<close>, where \<open>xs[-0:]\<close> is the whole list.\<close>

definition py_tail :: "nat \<Rightarrow> 'a list \<Rightarrow> 'a list" where
  "py_tail n xs = (if n = 0 then xs else py_last n xs)"

definition all_same :: "'a list \<Rightarrow> bool" where
  "all_same xs \<longleftrightarrow> length (remdups xs) = 1"

subsection \<open>The search for the observation of an action\<close>

datatype scan_result = FoundObs nat | FoundAction | Exhausted

fun scan :: "ev list \<Rightarrow> nat \<Rightarrow> scan_result" where
  "scan [] j = Exhausted"
| "scan (e # es) j =
     (if is_observation e then FoundObs j else if is_action e then FoundAction else scan es (Suc j))"

abbreviation scan_after :: "ev list \<Rightarrow> nat \<Rightarrow> scan_result" where
  "scan_after es i \<equiv> scan (drop (Suc i) es) (Suc i)"

text \<open>The \<open>while\<close> loop of pattern 1.  A following action leaves \<open>i\<close> where it is.\<close>

partial_function (option) obs_pairs ::
  "(string \<Rightarrow> string) \<Rightarrow> ev list \<Rightarrow> nat \<Rightarrow> string list \<Rightarrow> string list option" where
  "obs_pairs dg es i pairs =
     (if i < length es then
        if is_action (es ! i) then
          (case scan_after es i of
             FoundObs j \<Rightarrow> obs_pairs dg es (Suc j)
               (pairs @ [action_fingerprint dg (es ! i) @ '':'' @ observation_fingerprint dg (es ! j)])
           | FoundAction \<Rightarrow> obs_pairs dg es i (pairs @ [action_fingerprint dg (es ! i) @ '':''])
           | Exhausted \<Rightarrow> obs_pairs dg es (Suc i) (pairs @ [action_fingerprint dg (es ! i) @ '':'']))
        else obs_pairs dg es (Suc i) pairs
      else Some pairs)"

text \<open>The loop of pattern 2, which keeps a pair only when the observation failed.\<close>

definition err_pair :: "(string \<Rightarrow> string) \<Rightarrow> ev \<Rightarrow> ev \<Rightarrow> string list" where
  "err_pair dg a ob =
     (if is_failed_observation ob \<and> observation_fingerprint dg ob \<noteq> []
      then [action_fingerprint dg a @ '':ERR:'' @ observation_fingerprint dg ob] else [])"

partial_function (option) err_pairs ::
  "(string \<Rightarrow> string) \<Rightarrow> ev list \<Rightarrow> nat \<Rightarrow> string list \<Rightarrow> string list option" where
  "err_pairs dg es i pairs =
     (if i < length es then
        if is_action (es ! i) then
          (case scan_after es i of
             FoundObs j \<Rightarrow> err_pairs dg es (Suc j) (pairs @ err_pair dg (es ! i) (es ! j))
           | FoundAction \<Rightarrow> err_pairs dg es i pairs
           | Exhausted \<Rightarrow> err_pairs dg es (Suc i) pairs)
        else err_pairs dg es (Suc i) pairs
      else Some pairs)"

subsection \<open>The five checks\<close>

definition check_repeating_action_observation ::
  "(string \<Rightarrow> string) \<Rightarrow> detector \<Rightarrow> ev list \<Rightarrow> report option" where
  "check_repeating_action_observation dg d es =
     map_option (\<lambda>pairs.
       let thr = repeat_threshold d; last_n = py_tail thr pairs in
       if length pairs < thr then None
       else if all_same last_n \<and> hd last_n \<noteq> '':''
       then Some \<lparr>sr_pattern = RepeatingActionObservation, sr_confidence = 85 / 100, sr_count = thr\<rparr>
       else None) (obs_pairs dg es 0 [])"

definition check_repeating_action_error ::
  "(string \<Rightarrow> string) \<Rightarrow> detector \<Rightarrow> ev list \<Rightarrow> report option" where
  "check_repeating_action_error dg d es =
     map_option (\<lambda>pairs.
       let thr = repeat_threshold d; last_n = py_tail thr pairs in
       if length pairs < thr then None
       else if all_same last_n
       then Some \<lparr>sr_pattern = RepeatingActionError, sr_confidence = 90 / 100, sr_count = thr\<rparr>
       else None) (err_pairs dg es 0 [])"

text \<open>The pair is \<open>consecutive_non_user\<close> and \<open>max_consecutive\<close>.\<close>

definition monologue_step :: "ev \<Rightarrow> nat \<times> nat \<Rightarrow> nat \<times> nat" where
  "monologue_step e = (\<lambda>(run, best).
     if is_user_message e then (0, best)
     else if ev_kind e \<in> {KAction, KMessage, KObservation} then (Suc run, max best (Suc run))
     else (run, best))"

definition check_agent_monologue :: "detector \<Rightarrow> ev list \<Rightarrow> report" where
  "check_agent_monologue d es =
     (let best = snd (fold monologue_step es (0, 0))
      in if monologue_threshold d \<le> best
         then Some \<lparr>sr_pattern = AgentMonologue, sr_confidence = 60 / 100, sr_count = best\<rparr>
         else None)"

definition check_alternating_action_observation ::
  "(string \<Rightarrow> string) \<Rightarrow> detector \<Rightarrow> ev list \<Rightarrow> report" where
  "check_alternating_action_observation dg d es =
     (let fps = map (action_fingerprint dg) (filter is_action es); n = repeat_threshold d * 2;
          last = py_tail n fps
      in if length fps < n then None
         else if 4 \<le> length last \<and> last ! 0 \<noteq> last ! 1 \<and>
           list_all (\<lambda>k. last ! k = (if even k then last ! 0 else last ! 1)) [0..<length last]
         then Some \<lparr>sr_pattern = AlternatingActionObservation, sr_confidence = 80 / 100,
                    sr_count = length last\<rparr>
         else None)"

definition check_context_window_error_loop :: "detector \<Rightarrow> ev list \<Rightarrow> report" where
  "check_context_window_error_loop d es =
     (let n = length (filter is_context_window_error es)
      in if context_error_threshold d \<le> n
         then Some \<lparr>sr_pattern = ContextWindowErrorLoop, sr_confidence = 95 / 100, sr_count = n\<rparr>
         else None)"

text \<open>\<open>analyze\<close>; the outer \<open>None\<close> is a call that does not return.\<close>

definition window_of :: "detector \<Rightarrow> ev list \<Rightarrow> ev list" where
  "window_of d es = (if window_size d < length es then py_tail (window_size d) es else es)"

definition or_else :: "report \<Rightarrow> report \<Rightarrow> report" where
  "or_else r r' = (case r of None \<Rightarrow> r' | Some _ \<Rightarrow> r)"

definition analyze :: "(string \<Rightarrow> string) \<Rightarrow> detector \<Rightarrow> ev list \<Rightarrow> report option" where
  "analyze dg d es =
     (if es = [] then Some None
      else let w = window_of d es in
        case check_repeating_action_observation dg d w of
          None \<Rightarrow> None
        | Some (Some r) \<Rightarrow> Some (Some r)
        | Some None \<Rightarrow>
            (case check_repeating_action_error dg d w of
               None \<Rightarrow> None
             | Some (Some r) \<Rightarrow> Some (Some r)
             | Some None \<Rightarrow>
                 Some (or_else (check_agent_monologue d w)
                   (or_else (check_alternating_action_observation dg d w)
                     (check_context_window_error_loop d w)))))"

section \<open>When the loops end\<close>

text \<open>Every action gets its observation before the next action, if any action follows.\<close>

definition paired :: "ev list \<Rightarrow> bool" where
  "paired es \<longleftrightarrow> list_all (\<lambda>i. is_action (es ! i) \<longrightarrow> scan_after es i \<noteq> FoundAction) [0..<length es]"

lemma scan_bounds: "scan es j = FoundObs k \<Longrightarrow> j \<le> k \<and> k < j + length es \<and> is_observation (es ! (k - j)) \<and>
    (\<forall>m < k - j. \<not> is_action (es ! m))"
proof (induction es j rule: scan.induct)
  case (2 e es j)
  show ?case
  proof (cases "is_observation e \<or> is_action e")
    case True
    with 2(2) show ?thesis by (auto split: if_splits)
  next
    case False
    with 2 have "Suc j \<le> k" "k < Suc j + length es" "is_observation (es ! (k - Suc j))"
        "\<forall>m < k - Suc j. \<not> is_action (es ! m)"
      by simp_all
    moreover from this have "k - j = Suc (k - Suc j)" by simp
    ultimately show ?thesis using False by (auto simp: less_Suc_eq_0_disj)
  qed
qed simp

lemma scan_after_obs:
  assumes "scan_after es i = FoundObs k"
  shows "i < k \<and> k < length es \<and> is_observation (es ! k) \<and> (\<forall>m. i < m \<longrightarrow> m \<le> k \<longrightarrow> \<not> is_action (es ! m))"
proof -
  note b = scan_bounds [OF assms]
  then have k: "i < k" "k < length es" by auto
  then have obs: "is_observation (es ! k)" using b by (auto simp: nth_append)
  have "\<not> is_action (es ! m)" if "i < m" "m \<le> k" for m
  proof (cases "m = k")
    case True
    with obs show ?thesis by (simp add: is_action_def is_observation_def)
  next
    case False
    with that k have "m - Suc i < k - Suc i" "Suc i + (m - Suc i) = m" by auto
    with b that k show ?thesis by (metis nth_drop Suc_leI less_imp_le order_trans le_less_trans)
  qed
  with k obs show ?thesis by blast
qed

text \<open>The reference: one pair per action, with the observation that the scan finds.\<close>

definition action_indices :: "ev list \<Rightarrow> nat list" where
  "action_indices es = filter (\<lambda>k. is_action (es ! k)) [0..<length es]"

definition pair_at :: "(string \<Rightarrow> string) \<Rightarrow> ev list \<Rightarrow> nat \<Rightarrow> string" where
  "pair_at dg es i = action_fingerprint dg (es ! i) @ '':'' @
     (case scan_after es i of FoundObs j \<Rightarrow> observation_fingerprint dg (es ! j) | _ \<Rightarrow> [])"

definition err_pair_at :: "(string \<Rightarrow> string) \<Rightarrow> ev list \<Rightarrow> nat \<Rightarrow> string list" where
  "err_pair_at dg es i = (case scan_after es i of FoundObs j \<Rightarrow> err_pair dg (es ! i) (es ! j) | _ \<Rightarrow> [])"

lemma actions_from_obs:
  assumes "i < length es" and "is_action (es ! i)" and "scan_after es i = FoundObs j"
  shows "filter (\<lambda>k. is_action (es ! k)) [i..<length es] =
         i # filter (\<lambda>k. is_action (es ! k)) [Suc j..<length es]"
proof -
  note b = scan_after_obs [OF assms(3)]
  have "Suc j \<le> length es" "Suc i \<le> Suc j" using b by auto
  then obtain k where "length es = Suc j + k" by (auto dest: le_Suc_ex)
  with \<open>Suc i \<le> Suc j\<close> have "[Suc i..<length es] = [Suc i..<Suc j] @ [Suc j..<length es]"
    using upt_add_eq_append [of "Suc i" "Suc j" k] by (simp only:)
  then have "[i..<length es] = i # [Suc i..<Suc j] @ [Suc j..<length es]"
    using assms(1) by (simp add: upt_conv_Cons del: upt_Suc)
  moreover have "filter (\<lambda>k. is_action (es ! k)) [Suc i..<Suc j] = []"
    using b by (auto simp: filter_empty_conv)
  ultimately show ?thesis using assms(2) by simp
qed

lemma actions_from_skip:
  "i < length es \<Longrightarrow> filter (\<lambda>k. is_action (es ! k)) [i..<length es] =
     (if is_action (es ! i) then [i] else []) @ filter (\<lambda>k. is_action (es ! k)) [Suc i..<length es]"
  by (simp add: upt_conv_Cons)

lemma obs_pairs_paired:
  assumes "paired es"
  shows "obs_pairs dg es i ps = Some (ps @ map (pair_at dg es) (filter (\<lambda>k. is_action (es ! k)) [i..<length es]))"
proof (induction "length es - i" arbitrary: i ps rule: less_induct)
  case less
  show ?case
  proof (cases "i < length es \<and> is_action (es ! i)")
    case False
    then show ?thesis
      using less [of "Suc i"] by (subst obs_pairs.simps) (auto simp: actions_from_skip)
  next
    case True
    then have nf: "scan_after es i \<noteq> FoundAction" using assms by (auto simp: paired_def list_all_iff)
    show ?thesis
    proof (cases "scan_after es i")
      case (FoundObs j)
      then have "length es - Suc j < length es - i" using True scan_after_obs [OF FoundObs] by auto
      with True FoundObs actions_from_obs [OF _ _ FoundObs] less [of "Suc j"] show ?thesis
        by (subst obs_pairs.simps) (simp add: pair_at_def)
    next
      case Exhausted
      have "length es - Suc i < length es - i" using True by auto
      with Exhausted True less [of "Suc i"] show ?thesis
        by (subst obs_pairs.simps) (simp add: pair_at_def actions_from_skip)
    qed (use nf in simp)
  qed
qed

lemma err_pairs_paired:
  assumes "paired es"
  shows "err_pairs dg es i ps =
    Some (ps @ concat (map (err_pair_at dg es) (filter (\<lambda>k. is_action (es ! k)) [i..<length es])))"
proof (induction "length es - i" arbitrary: i ps rule: less_induct)
  case less
  show ?case
  proof (cases "i < length es \<and> is_action (es ! i)")
    case False
    then show ?thesis
      using less [of "Suc i"] by (subst err_pairs.simps) (auto simp: actions_from_skip)
  next
    case True
    then have nf: "scan_after es i \<noteq> FoundAction" using assms by (auto simp: paired_def list_all_iff)
    show ?thesis
    proof (cases "scan_after es i")
      case (FoundObs j)
      then have "length es - Suc j < length es - i" using True scan_after_obs [OF FoundObs] by auto
      with True FoundObs actions_from_obs [OF _ _ FoundObs] less [of "Suc j"] show ?thesis
        by (subst err_pairs.simps) (simp add: err_pair_at_def)
    next
      case Exhausted
      have "length es - Suc i < length es - i" using True by auto
      with Exhausted True less [of "Suc i"] show ?thesis
        by (subst err_pairs.simps) (simp add: err_pair_at_def actions_from_skip)
    qed (use nf in simp)
  qed
qed

text \<open>A loop that returns has met no action whose scan stops at another action.\<close>

lemma obs_pairs_Some:
  assumes "obs_pairs dg es i ps = Some r"
  shows "\<forall>k. i \<le> k \<longrightarrow> k < length es \<longrightarrow> is_action (es ! k) \<longrightarrow> scan_after es k \<noteq> FoundAction"
  using assms
proof (induction rule: obs_pairs.raw_induct [rotated, consumes 1, case_names step])
  case (step obs_pairs dg es i ps r)
  have skip: "\<forall>k. i \<le> k \<longrightarrow> k < length es \<longrightarrow> is_action (es ! k) \<longrightarrow> scan_after es k \<noteq> FoundAction"
    if "\<forall>k. Suc j \<le> k \<longrightarrow> k < length es \<longrightarrow> is_action (es ! k) \<longrightarrow> scan_after es k \<noteq> FoundAction"
       "\<forall>m. i < m \<longrightarrow> m \<le> j \<longrightarrow> \<not> is_action (es ! m)" "is_action (es ! i) \<longrightarrow> scan_after es i \<noteq> FoundAction" for j
    using that by (metis le_neq_implies_less not_less_eq_eq)
  show ?case
  proof (cases "i < length es \<and> is_action (es ! i)")
    case False
    then show ?thesis using step skip [of i] by (auto split: if_splits)
  next
    case True
    show ?thesis
    proof (cases "scan_after es i")
      case (FoundObs j)
      with True step skip [of j] scan_after_obs [OF FoundObs] show ?thesis by simp
    next
      case FoundAction
      with True step show ?thesis by simp
    next
      case Exhausted
      with True step skip [of i] show ?thesis by simp
    qed
  qed
qed

lemma obs_pairs_returns_iff: "(\<exists>r. obs_pairs dg es 0 [] = Some r) \<longleftrightarrow> paired es"
  using obs_pairs_Some [of dg es 0 "[]"] obs_pairs_paired [of es dg 0 "[]"]
  by (auto simp: paired_def list_all_iff)

text \<open>C12: \<open>analyze\<close> returns exactly when, in its window, every action is followed by an observation
  before the next action; on two actions in a row, as parallel tool calls produce, it loops for ever
  and its list of pairs grows without bound.\<close>

theorem analyze_returns_iff: "analyze dg d es \<noteq> None \<longleftrightarrow> es = [] \<or> paired (window_of d es)"
proof (cases "paired (window_of d es)")
  case True
  then show ?thesis
    by (auto simp: analyze_def Let_def check_repeating_action_observation_def obs_pairs_paired
        check_repeating_action_error_def err_pairs_paired split: option.split)
next
  case False
  then have "obs_pairs dg (window_of d es) 0 [] = None"
    using obs_pairs_returns_iff [of dg "window_of d es"] by (cases "obs_pairs dg (window_of d es) 0 []") auto
  with False show ?thesis by (simp add: analyze_def check_repeating_action_observation_def)
qed

section \<open>What is detected\<close>

lemma all_same_iff: "all_same xs \<longleftrightarrow> xs \<noteq> [] \<and> (\<exists>p. \<forall>x \<in> set xs. x = p)"
proof -
  have "length (remdups xs) = card (set xs)" by (simp add: length_remdups_card_conv)
  then show ?thesis by (cases xs) (auto simp: all_same_def card_1_singleton_iff)
qed

text \<open>on a window where the loops end, pattern 1 is reported exactly when the last threshold
  actions have the same fingerprint and got observations with the same fingerprint.\<close>

theorem repeating_detected_iff:
  assumes "es \<noteq> []" and "paired (window_of d es)" and "1 \<le> repeat_threshold d"
  shows "(\<exists>r. analyze dg d es = Some (Some r) \<and> sr_pattern r = RepeatingActionObservation) \<longleftrightarrow>
    (let idx = action_indices (window_of d es); last = py_last (repeat_threshold d) idx in
     repeat_threshold d \<le> length idx \<and>
     (\<exists>p. p \<noteq> '':'' \<and> (\<forall>k \<in> set last. pair_at dg (window_of d es) k = p)))"
proof -
  let ?w = "window_of d es" and ?n = "repeat_threshold d"
  let ?ps = "map (pair_at dg ?w) (action_indices ?w)"
  let ?last = "map (pair_at dg ?w) (py_last ?n (action_indices ?w))"
  have tail: "py_tail ?n ?ps = ?last" using assms(3) by (simp add: py_tail_def py_last_def drop_map)
  have p1: "check_repeating_action_observation dg d ?w =
      Some (if length ?ps < ?n then None
        else if all_same ?last \<and> hd ?last \<noteq> '':''
        then Some \<lparr>sr_pattern = RepeatingActionObservation, sr_confidence = 85 / 100, sr_count = ?n\<rparr> else None)"
    using obs_pairs_paired [OF assms(2), of dg 0 "[]"] tail
    by (simp add: check_repeating_action_observation_def action_indices_def Let_def)
  have others: "sr_pattern r \<noteq> RepeatingActionObservation"
    if "or_else (check_agent_monologue d ?w) (or_else (check_alternating_action_observation dg d ?w)
      (check_context_window_error_loop d ?w)) = Some r \<or> check_repeating_action_error dg d ?w = Some (Some r)" for r
    using that by (auto simp: or_else_def check_agent_monologue_def check_alternating_action_observation_def
        check_context_window_error_loop_def check_repeating_action_error_def Let_def split: option.splits if_splits)
  have "(\<exists>r. analyze dg d es = Some (Some r) \<and> sr_pattern r = RepeatingActionObservation) \<longleftrightarrow>
      \<not> length ?ps < ?n \<and> all_same ?last \<and> hd ?last \<noteq> '':''"
    using assms(1) others by (auto simp: analyze_def p1 Let_def split: option.splits)
  also have "\<dots> \<longleftrightarrow> ?n \<le> length (action_indices ?w) \<and> (\<exists>p. p \<noteq> '':'' \<and> (\<forall>x \<in> set ?last. x = p))"
  proof (cases "?n \<le> length (action_indices ?w)")
    case True
    then have "?last \<noteq> []" using assms(3) by (auto simp: py_last_def)
    then have "hd ?last \<in> set ?last" by (rule hd_in_set)
    with \<open>?last \<noteq> []\<close> True show ?thesis unfolding all_same_iff by (auto simp del: hd_map)
  qed simp
  finally show ?thesis by (simp add: Let_def)
qed

definition bash_call :: "string \<Rightarrow> ev" where
  "bash_call args = \<lparr>ev_kind = KAction, ev_call = FunctionCall ''bash'' args, ev_str = [],
     ev_tool_name = [], ev_content = [], ev_success = True, ev_source = ''agent'', ev_role = [],
     ev_error = [], ev_error_type = []\<rparr>"

definition bash_result :: "string \<Rightarrow> ev" where
  "bash_result out = (bash_call [])\<lparr>ev_kind := KObservation, ev_tool_name := ''bash'', ev_content := out\<rparr>"

definition stuck_events :: "ev list" where
  "stuck_events = concat (replicate 3 [bash_call ''ls'', bash_result ''f''])"

lemma demo_kinds [simp]: "is_action (bash_call a)" "\<not> is_action (bash_result b)" "is_observation (bash_result b)"
    "\<not> is_observation (bash_call a)"
  by (simp_all add: is_action_def is_observation_def bash_call_def bash_result_def)

theorem repeating_detected_iff_witness:
  "\<exists>r. analyze id default_detector stuck_events = Some (Some r) \<and> sr_pattern r = RepeatingActionObservation"
proof -
  have w: "window_of default_detector stuck_events = stuck_events"
    by (simp add: window_of_def default_detector_def stuck_events_def numeral_3_eq_3)
  have l: "stuck_events = [bash_call ''ls'', bash_result ''f'', bash_call ''ls'', bash_result ''f'',
      bash_call ''ls'', bash_result ''f'']"
    by (simp add: stuck_events_def numeral_3_eq_3)
  have p: "paired stuck_events" by (simp add: paired_def l upt_rec)
  have i: "action_indices stuck_events = [0, 2, 4]" by (simp add: action_indices_def l upt_rec)
  have t: "repeat_threshold default_detector = 3" by (simp add: default_detector_def)
  have a: "pair_at id stuck_events k = ''bash:ls:bash:f''" if "k \<in> {0, 2, 4}" for k
    using that by (auto simp: pair_at_def l action_fingerprint_def observation_fingerprint_def)
       (simp_all add: bash_call_def bash_result_def)
  show ?thesis
  proof (rule repeating_detected_iff [THEN iffD2])
    show "let idx = action_indices (window_of default_detector stuck_events);
        last = py_last (repeat_threshold default_detector) idx in
      repeat_threshold default_detector \<le> length idx \<and>
      (\<exists>p. p \<noteq> '':'' \<and> (\<forall>k \<in> set last. pair_at id (window_of default_detector stuck_events) k = p))"
      unfolding w i t Let_def using a by (intro conjI exI [of _ "''bash:ls:bash:f''"]) auto
  qed (use p in \<open>simp_all add: w t\<close>, simp add: l)
qed

text \<open>An alternation: the last actions are the two actions in turn.\<close>

lemma alternating_list_iff:
  "length xs = 2 * n \<Longrightarrow>
     (\<forall>k < length xs. xs ! k = (if even k then a else b)) \<longleftrightarrow> xs = concat (replicate n [a, b])"
proof (induction n arbitrary: xs)
  case (Suc n)
  then obtain x y zs where xs: "xs = x # y # zs" "length zs = 2 * n"
    by (cases xs; cases "tl xs") auto
  have "(\<forall>k < length xs. xs ! k = (if even k then a else b)) \<longleftrightarrow>
      x = a \<and> y = b \<and> (\<forall>k < length zs. zs ! k = (if even k then a else b))"
    by (auto simp: xs less_Suc_eq_0_disj all_conj_distrib nth_Cons split: nat.splits)
  with Suc.IH [OF xs(2)] xs(1) show ?case by simp
qed simp

text \<open>pattern 4 looks at the actions only, against its description: it is reported exactly when
  the last actions of the window, twice the threshold of them, are two different actions in turn.\<close>

theorem alternating_detected_iff:
  assumes "2 \<le> repeat_threshold d"
  shows "check_alternating_action_observation dg d es \<noteq> None \<longleftrightarrow>
    (\<exists>a b. a \<noteq> b \<and>
       suffix (concat (replicate (repeat_threshold d) [a, b])) (map (action_fingerprint dg) (filter is_action es)))"
proof -
  let ?n = "repeat_threshold d" and ?f = "map (action_fingerprint dg) (filter is_action es)"
  have len: "length (concat (replicate k [a, b])) = 2 * k" for k and a b :: string by (induction k) auto
  show ?thesis
  proof (cases "length ?f < 2 * ?n")
    case True
    then have "\<not> suffix (concat (replicate ?n [a, b])) ?f" for a b
      using suffix_length_le [of "concat (replicate ?n [a, b])" ?f] len [of ?n a b] by linarith
    with True show ?thesis by (simp add: check_alternating_action_observation_def Let_def mult.commute)
  next
    case False
    define last where "last = py_last (2 * ?n) ?f"
    have l: "length last = 2 * ?n" using False by (simp add: last_def)
    have sfx: "suffix ys ?f \<longleftrightarrow> ys = last" if "length ys = 2 * ?n" for ys
      using that suffix_py_last [of "2 * ?n" ?f] l unfolding last_def [symmetric]
      by (metis suffix_order.antisym suffix_length_suffix le_refl)
    have tail: "py_tail (?n * 2) ?f = last"
      using assms by (simp add: last_def py_tail_def mult.commute)
    have "check_alternating_action_observation dg d es \<noteq> None \<longleftrightarrow> 4 \<le> length last \<and> last ! 0 \<noteq> last ! 1 \<and>
        list_all (\<lambda>k. last ! k = (if even k then last ! 0 else last ! 1)) [0..<length last]"
      unfolding check_alternating_action_observation_def Let_def tail using False by (simp add: mult.commute)
    also have "\<dots> \<longleftrightarrow> last ! 0 \<noteq> last ! 1 \<and> (\<forall>k < length last. last ! k = (if even k then last ! 0 else last ! 1))"
    proof -
      have "4 \<le> length last" using assms l by linarith
      then show ?thesis by (simp only: list_all_iff set_upt Ball_def atLeastLessThan_iff) blast
    qed
    also have "\<dots> \<longleftrightarrow> (\<exists>a b. a \<noteq> b \<and> (\<forall>k < length last. last ! k = (if even k then a else b)))"
    proof
      assume "\<exists>a b. a \<noteq> b \<and> (\<forall>k < length last. last ! k = (if even k then a else b))"
      then obtain a b where ab: "a \<noteq> b" "\<forall>k < length last. last ! k = (if even k then a else b)" by blast
      then have "last ! 0 = a" "last ! 1 = b" using l assms by auto
      with ab show "last ! 0 \<noteq> last ! 1 \<and> (\<forall>k < length last. last ! k = (if even k then last ! 0 else last ! 1))"
        by simp
    qed blast
    also have "\<dots> \<longleftrightarrow> (\<exists>a b. a \<noteq> b \<and> suffix (concat (replicate ?n [a, b])) ?f)"
      unfolding alternating_list_iff [OF l] using sfx len by metis
    finally show ?thesis .
  qed
qed

theorem alternating_detected_iff_witness:
  "check_alternating_action_observation id (set_repeat_threshold 2 default_detector)
     [bash_call ''ls'', bash_call ''pwd'', bash_call ''ls'', bash_call ''pwd''] \<noteq> None"
proof -
  have "repeat_threshold (set_repeat_threshold 2 default_detector) = 2"
    by (simp add: set_repeat_threshold_def)
  moreover have "action_fingerprint id (bash_call a) = ''bash:'' @ a" for a
    by (simp add: action_fingerprint_def bash_call_def)
  moreover have "concat (replicate 2 [a, b]) = [a, b, a, b]" for a b :: string
    by (simp add: numeral_2_eq_2)
  ultimately show ?thesis
    by (intro alternating_detected_iff [THEN iffD2] exI [of _ "''bash:ls''"] exI [of _ "''bash:pwd''"]) simp_all
qed

text \<open>The monologue counter is the longest stretch between user messages, so it never exceeds the
  number of convertible events.\<close>

lemma monologue_bound:
  "fold monologue_step es (r, m) = (r', m') \<Longrightarrow> r \<le> m \<Longrightarrow>
     m \<le> m' \<and> r' \<le> m' \<and> m' \<le> m + length (filter (\<lambda>e. ev_kind e \<in> {KAction, KMessage, KObservation}) es)"
proof (induction es arbitrary: r m)
  case (Cons e es)
  obtain r1 m1 where s: "monologue_step e (r, m) = (r1, m1)" by fastforce
  then have "r1 \<le> m1" "m \<le> m1" "m1 \<le> m + (if ev_kind e \<in> {KAction, KMessage, KObservation} then 1 else 0)"
    using Cons.prems(2) by (auto simp: monologue_step_def split: if_splits)
  with Cons.IH [of r1 m1] Cons.prems(1) s show ?case by auto
qed simp

end
