(* ===== verification/View_Properties.thy ===== *)
theory View_Properties
  imports Prelude
begin

text \<open>
  \<open>app/context/view_properties.py\<close>: the events of a context view and the four structural
  properties, each with its \<open>check\<close>, \<open>enforce\<close> and \<open>safe_indices\<close>.  A Python set of strings is a
  list used through \<open>set\<close>; a set of indices is a set.  The locale \<open>view_property\<close> is the contract of
  the abstract base class, interpreted on all four.
\<close>

section \<open>Events\<close>

datatype vrole = SystemRole | UserRole | AssistantRole | ToolRole | OtherRole string

record vcall =
  vc_id :: "string option"
  vc_name :: string
  vc_arguments :: string

record vevent =
  ve_id :: string
  ve_role :: vrole
  ve_content :: "string option"
  ve_tool_calls :: "vcall list option"
  ve_tool_call_id :: "string option"
  ve_name :: "string option"
  ve_batch_id :: "string option"

definition is_assistant :: "vevent \<Rightarrow> bool" where "is_assistant e \<longleftrightarrow> ve_role e = AssistantRole"

definition is_tool :: "vevent \<Rightarrow> bool" where "is_tool e \<longleftrightarrow> ve_role e = ToolRole"

definition has_tool_calls :: "vevent \<Rightarrow> bool" where
  "has_tool_calls e = (case ve_tool_calls e of None \<Rightarrow> False | Some cs \<Rightarrow> cs \<noteq> [])"

definition tool_call_ids :: "vevent \<Rightarrow> string list" where
  "tool_call_ids e = (case ve_tool_calls e of None \<Rightarrow> [] | Some cs \<Rightarrow> List.map_filter vc_id cs)"

abbreviation calls_tools :: "vevent \<Rightarrow> bool" where
  "calls_tools e \<equiv> is_assistant e \<and> has_tool_calls e"

abbreviation answers :: "vevent \<Rightarrow> bool" where
  "answers e \<equiv> is_tool e \<and> truthy (ve_tool_call_id e)"

text \<open>The call ids declared by assistant messages, and those of the tool responses.\<close>

definition declared_ids :: "vevent list \<Rightarrow> string list" where
  "declared_ids es = concat (map tool_call_ids (filter calls_tools es))"

definition response_ids :: "vevent list \<Rightarrow> string list" where
  "response_ids es = map (\<lambda>e. the (ve_tool_call_id e)) (filter answers es)"

definition id_in :: "string option \<Rightarrow> string list \<Rightarrow> bool" where
  "id_in i xs = (case i of None \<Rightarrow> False | Some x \<Rightarrow> x \<in> set xs)"

section \<open>BatchAtomicity\<close>

fun batch_scan :: "string list \<Rightarrow> vevent list \<Rightarrow> bool" where
  "batch_scan active [] = True"
| "batch_scan active (e # es) =
     (if calls_tools e then batch_scan (active @ tool_call_ids e) es
      else if is_assistant e then batch_scan active es
      else if is_tool e then id_in (ve_tool_call_id e) active \<and> batch_scan active es
      else batch_scan active es)"

definition batch_check :: "vevent list \<Rightarrow> bool" where
  "batch_check es = batch_scan [] es"

definition batch_keep :: "string list \<Rightarrow> string list \<Rightarrow> vevent \<Rightarrow> bool" where
  "batch_keep ds rs e =
     (if is_tool e then id_in (ve_tool_call_id e) ds
      else if calls_tools e then list_ex (\<lambda>i. i \<in> set rs) (tool_call_ids e)
      else True)"

definition batch_enforce :: "vevent list \<Rightarrow> vevent list" where
  "batch_enforce es = filter (batch_keep (declared_ids es) (response_ids es)) es"

text \<open>\<open>batch_map\<close>: call id to the assistant's index and the indices of its responses.\<close>

type_synonym batch_map = "(string \<times> nat \<times> nat list) list"

definition batch_map_step :: "nat \<times> vevent \<Rightarrow> batch_map \<Rightarrow> batch_map" where
  "batch_map_step = (\<lambda>(i, e) m.
     if i = 0 then m
     else if calls_tools e then fold (\<lambda>t. AList.update t (i, [])) (tool_call_ids e) m
     else if answers e then
       (let t = the (ve_tool_call_id e) in
        case map_of m t of None \<Rightarrow> m | Some (a, ts) \<Rightarrow> AList.update t (a, ts @ [i]) m)
     else m)"

definition batch_map :: "vevent list \<Rightarrow> batch_map" where
  "batch_map es = fold batch_map_step (enumerate 0 es) []"

definition standalone_indices :: "vevent list \<Rightarrow> nat set" where
  "standalone_indices es = set (filter (\<lambda>i. i \<noteq> 0 \<and> \<not> is_tool (es ! i) \<and> \<not> calls_tools (es ! i)) [0..<length es])"

definition batch_indices :: "vevent list \<Rightarrow> batch_map \<Rightarrow> nat \<Rightarrow> nat set" where
  "batch_indices es m a = insert a (set (concat (map (\<lambda>t. case map_of m t of None \<Rightarrow> [] | Some (_, ts) \<Rightarrow> ts)
     (tool_call_ids (es ! a)))))"

definition batch_safe :: "vevent list \<Rightarrow> nat set" where
  "batch_safe es =
     (let m = batch_map es in
      snd (fold (\<lambda>(t, a, _) (seen, safe). if a \<in> seen then (seen, safe)
                   else (insert a seen, safe \<union> batch_indices es m a))
             m ({}, standalone_indices es)))"

section \<open>ObservationUniqueness\<close>

fun uniq_scan :: "string list \<Rightarrow> vevent list \<Rightarrow> bool" where
  "uniq_scan seen [] = True"
| "uniq_scan seen (e # es) =
     (if answers e then
        (let t = the (ve_tool_call_id e) in t \<notin> set seen \<and> uniq_scan (t # seen) es)
      else uniq_scan seen es)"

definition uniq_check :: "vevent list \<Rightarrow> bool" where "uniq_check es = uniq_scan [] es"

fun uniq_drop :: "string list \<Rightarrow> vevent list \<Rightarrow> vevent list" where
  "uniq_drop seen [] = []"
| "uniq_drop seen (e # es) =
     (if answers e then
        (let t = the (ve_tool_call_id e) in
         if t \<in> set seen then uniq_drop seen es else e # uniq_drop (t # seen) es)
      else e # uniq_drop seen es)"

definition uniq_enforce :: "vevent list \<Rightarrow> vevent list" where "uniq_enforce es = uniq_drop [] es"

fun first_occurrences :: "nat \<Rightarrow> string list \<Rightarrow> vevent list \<Rightarrow> nat set" where
  "first_occurrences i seen [] = {}"
| "first_occurrences i seen (e # es) =
     (if answers e \<and> the (ve_tool_call_id e) \<notin> set seen
      then insert i (first_occurrences (Suc i) (the (ve_tool_call_id e) # seen) es)
      else first_occurrences (Suc i) seen es)"

definition uniq_safe :: "vevent list \<Rightarrow> nat set" where
  "uniq_safe es = {1..<length es} - first_occurrences 0 [] es"

section \<open>ToolCallMatching\<close>

definition match_check :: "vevent list \<Rightarrow> bool" where
  "match_check es \<longleftrightarrow> set (declared_ids es) = set (response_ids es)"

definition match_event :: "string list \<Rightarrow> string list \<Rightarrow> vevent \<Rightarrow> vevent option" where
  "match_event rs ds e =
     (if calls_tools e then
        (let matched = filter (\<lambda>c. id_in (vc_id c) rs) (the (ve_tool_calls e)) in
         if matched \<noteq> [] then Some (e\<lparr>ve_tool_calls := Some matched\<rparr>)
         else if truthy (ve_content e) then Some (e\<lparr>ve_tool_calls := None\<rparr>)
         else None)
      else if is_tool e then (if id_in (ve_tool_call_id e) ds then Some e else None)
      else Some e)"

definition match_enforce :: "vevent list \<Rightarrow> vevent list" where
  "match_enforce es = List.map_filter (match_event (response_ids es) (declared_ids es)) es"

definition call_index_step :: "nat \<times> vevent \<Rightarrow> (string \<times> nat) list \<times> (string \<times> nat) list \<Rightarrow>
    (string \<times> nat) list \<times> (string \<times> nat) list" where
  "call_index_step = (\<lambda>(i, e) (asst, tool).
     if i = 0 then (asst, tool)
     else if calls_tools e then (fold (\<lambda>t. AList.update t i) (tool_call_ids e) asst, tool)
     else if answers e then (asst, AList.update (the (ve_tool_call_id e)) i tool)
     else (asst, tool))"

definition match_safe :: "vevent list \<Rightarrow> nat set" where
  "match_safe es =
     (let (asst, tool) = fold call_index_step (enumerate 0 es) ([], []) in
      \<Union> (set (map (\<lambda>t. {the (map_of asst t), the (map_of tool t)})
                 (filter (\<lambda>t. t \<in> set (map fst tool)) (map fst asst)))) \<union> standalone_indices es)"

section \<open>ToolLoopAtomicity\<close>

record loop_state =
  ls_loops :: "nat list list"
  ls_current :: "nat list"
  ls_name :: "string option"

definition close_loop :: "nat \<Rightarrow> loop_state \<Rightarrow> nat list list" where
  "close_loop min_len s =
     (if min_len * 2 \<le> length (ls_current s) then ls_loops s @ [ls_current s] else ls_loops s)"

definition loop_step :: "nat \<Rightarrow> vevent list \<Rightarrow> nat \<Rightarrow> loop_state \<Rightarrow> loop_state" where
  "loop_step min_len es i s =
     (let e = es ! i in
      if is_tool e \<and> truthy (ve_name e) then
        if ve_name e = ls_name s then
          (let cur = (if ls_current s \<noteq> [] \<and> last (ls_current s) \<noteq> i - 1
                      then ls_current s @ [i - 1] else ls_current s)
           in s\<lparr>ls_current := cur @ [i]\<rparr>)
        else \<lparr>ls_loops = close_loop min_len s,
              ls_current = (if 0 < i \<and> is_assistant (es ! (i - 1)) then [i - 1, i] else [i]),
              ls_name = ve_name e\<rparr>
      else if is_assistant e then s
      else \<lparr>ls_loops = close_loop min_len s, ls_current = [], ls_name = None\<rparr>)"

definition detect_loops :: "nat \<Rightarrow> vevent list \<Rightarrow> nat list list" where
  "detect_loops min_len es =
     close_loop min_len (fold (loop_step min_len es) [0..<length es]
       \<lparr>ls_loops = [], ls_current = [], ls_name = None\<rparr>)"

definition loop_names :: "vevent list \<Rightarrow> nat list \<Rightarrow> string list" where
  "loop_names es l = map (\<lambda>i. the (ve_name (es ! i)))
     (filter (\<lambda>i. i < length es \<and> is_tool (es ! i) \<and> truthy (ve_name (es ! i))) l)"

definition loop_check :: "nat \<Rightarrow> vevent list \<Rightarrow> bool" where
  "loop_check min_len es =
     list_all (\<lambda>l. loop_names es l = [] \<or> length (remdups (loop_names es l)) = 1) (detect_loops min_len es)"

definition loop_enforce :: "nat \<Rightarrow> vevent list \<Rightarrow> vevent list" where
  "loop_enforce min_len es = es"

definition loop_safe :: "nat \<Rightarrow> vevent list \<Rightarrow> nat set" where
  "loop_safe min_len es = {1..<length es}"

definition get_loop_groups :: "nat \<Rightarrow> vevent list \<Rightarrow> nat set list" where
  "get_loop_groups min_len es =
     map set (filter (\<lambda>l. min_len * 2 \<le> length l) (detect_loops min_len es))"

section \<open>Enforcement restores the checks\<close>

lemma tool_not_assistant: "is_tool e \<Longrightarrow> \<not> is_assistant e"
  by (simp add: is_tool_def is_assistant_def)

lemma declared_Nil [simp]: "declared_ids [] = []"
  by (simp add: declared_ids_def)

lemma declared_Cons [simp]:
  "declared_ids (e # es) = (if calls_tools e then tool_call_ids e else []) @ declared_ids es"
  by (simp add: declared_ids_def)

lemma response_Nil [simp]: "response_ids [] = []"
  by (simp add: response_ids_def)

lemma response_Cons [simp]:
  "response_ids (e # es) = (if answers e then [the (ve_tool_call_id e)] else []) @ response_ids es"
  by (simp add: response_ids_def)

lemma id_in_simps [simp]: "id_in None xs = False" "id_in (Some i) xs = (i \<in> set xs)"
  by (simp_all add: id_in_def)

lemma declared_subseq: "subseq xs ys \<Longrightarrow> set (declared_ids xs) \<subseteq> set (declared_ids ys)"
  by (induction rule: list_emb.induct) auto

text \<open>A response whose id is in \<open>K\<close> comes after the assistant that declares it.\<close>

fun ordered_on :: "string set \<Rightarrow> string set \<Rightarrow> vevent list \<Rightarrow> bool" where
  "ordered_on K active [] = True"
| "ordered_on K active (e # es) =
     ((is_tool e \<longrightarrow> (\<forall>i. ve_tool_call_id e = Some i \<longrightarrow> i \<in> K \<longrightarrow> i \<in> active)) \<and>
      ordered_on K (if calls_tools e then active \<union> set (tool_call_ids e) else active) es)"

lemma batch_scan_ordered: "batch_scan active es \<Longrightarrow> ordered_on K (set active) es"
  by (induction active es rule: batch_scan.induct)
     (auto simp: tool_not_assistant id_in_def split: if_splits option.splits)

lemma ordered_subseq:
  assumes "subseq es es0" and "batch_scan act es0"
    and "set act \<inter> set (declared_ids es0) = {}" and "distinct (declared_ids es0)"
    and "set act' \<subseteq> set act" and "set act \<inter> K \<subseteq> set act'" and "K \<subseteq> set act' \<union> set (declared_ids es)"
  shows "ordered_on K (set act') es"
  using assms
proof (induction es es0 arbitrary: act act' rule: list_emb.induct)
  case (list_emb_Cons xs ys y)
  show ?case
  proof (cases "calls_tools y")
    case True
    have "set (tool_call_ids y) \<inter> set act' = {}"
      using True list_emb_Cons.prems(2,4) by auto
    moreover have "set (tool_call_ids y) \<inter> set (declared_ids xs) = {}"
      using True list_emb_Cons.prems(3) declared_subseq [OF list_emb_Cons.hyps(1)] by auto
    ultimately have "set (tool_call_ids y) \<inter> K = {}" using list_emb_Cons.prems(6) by blast
    then show ?thesis
      using True list_emb_Cons.prems by (intro list_emb_Cons.IH [of "act @ tool_call_ids y"]) auto
  next
    case False
    then show ?thesis
      using list_emb_Cons.prems by (intro list_emb_Cons.IH [of act]) (auto split: if_splits)
  qed
next
  case (list_emb_Cons2 x y xs ys)
  show ?case
  proof (cases "calls_tools x")
    case True
    have "ordered_on K (set (act' @ tool_call_ids x)) xs"
      using True list_emb_Cons2.prems list_emb_Cons2.hyps(1)
      by (intro list_emb_Cons2.IH [of "act @ tool_call_ids x"]) auto
    with True show ?thesis by (auto simp: tool_not_assistant)
  next
    case False
    then have "ordered_on K (set act') xs"
      using list_emb_Cons2.prems list_emb_Cons2.hyps(1)
      by (intro list_emb_Cons2.IH [of act]) (auto split: if_splits)
    moreover have "i \<in> set act" if "is_tool x" "ve_tool_call_id x = Some i" for i
      using that list_emb_Cons2.prems(1) list_emb_Cons2.hyps(1) by (auto simp: tool_not_assistant)
    ultimately show ?thesis using False list_emb_Cons2.prems(5) by auto
  qed
qed simp

lemma batch_scan_filter:
  assumes "ordered_on D act es"
    and "\<forall>e \<in> set es. P e \<longrightarrow> is_tool e \<longrightarrow> (\<exists>i. ve_tool_call_id e = Some i \<and> i \<in> D \<and> i \<in> K)"
    and "\<forall>e \<in> set es. calls_tools e \<longrightarrow> set (tool_call_ids e) \<inter> K \<noteq> {} \<longrightarrow> P e"
    and "act \<inter> K \<subseteq> set act'"
  shows "batch_scan act' (filter P es)"
  using assms
proof (induction es arbitrary: act act')
  case (Cons e es)
  show ?case
  proof (cases "calls_tools e")
    case True
    have "act \<union> set (tool_call_ids e) \<inter> K \<subseteq> act \<union> set (act' @ tool_call_ids e)" by auto
    show ?thesis
    proof (cases "P e")
      case P: True
      have "batch_scan (act' @ tool_call_ids e) (filter P es)"
        using Cons.prems True by (intro Cons.IH [of "act \<union> set (tool_call_ids e)"]) auto
      with True P show ?thesis by simp
    next
      case False
      with Cons.prems(3) True have "set (tool_call_ids e) \<inter> K = {}" by auto
      then have "batch_scan act' (filter P es)"
        using Cons.prems True by (intro Cons.IH [of "act \<union> set (tool_call_ids e)"]) auto
      with False show ?thesis by simp
    qed
  next
    case False
    have "batch_scan act' (filter P es)"
      using Cons.prems False by (intro Cons.IH [of act]) auto
    moreover have "id_in (ve_tool_call_id e) act'" if t: "is_tool e" "P e"
    proof -
      from Cons.prems(2) t obtain i where "ve_tool_call_id e = Some i" "i \<in> D" "i \<in> K" by auto
      with Cons.prems(1,4) t show ?thesis by auto
    qed
    ultimately show ?thesis using False by simp
  qed
qed simp

lemma batch_enforce_check:
  assumes "ordered_on (set (declared_ids es)) {} es" and "[] \<notin> set (declared_ids es)"
  shows "batch_check (batch_enforce es)"
  unfolding batch_check_def batch_enforce_def
proof (rule batch_scan_filter [OF assms(1), where K = "set (response_ids es)"])
  show "\<forall>e \<in> set es. batch_keep (declared_ids es) (response_ids es) e \<longrightarrow> is_tool e \<longrightarrow>
      (\<exists>i. ve_tool_call_id e = Some i \<and> i \<in> set (declared_ids es) \<and> i \<in> set (response_ids es))"
  proof (intro ballI impI)
    fix e
    assume e: "e \<in> set es" "batch_keep (declared_ids es) (response_ids es) e" "is_tool e"
    then obtain i where i: "ve_tool_call_id e = Some i" "i \<in> set (declared_ids es)"
      by (cases "ve_tool_call_id e") (simp_all add: batch_keep_def)
    then have "answers e" using assms(2) e(3) by auto
    then have "i \<in> set (response_ids es)"
      unfolding response_ids_def using e(1) i(1) by (auto intro!: image_eqI [of _ _ e])
    with i show "\<exists>i. ve_tool_call_id e = Some i \<and> i \<in> set (declared_ids es) \<and> i \<in> set (response_ids es)"
      by blast
  qed
  show "\<forall>e \<in> set es. calls_tools e \<longrightarrow> set (tool_call_ids e) \<inter> set (response_ids es) \<noteq> {} \<longrightarrow>
      batch_keep (declared_ids es) (response_ids es) e"
    by (auto simp: batch_keep_def tool_not_assistant list_ex_iff)
qed simp

lemma uniq_drop_check: "uniq_scan seen (uniq_drop seen es)"
  by (induction seen es rule: uniq_drop.induct) (auto simp: Let_def)

lemma uniq_drop_batch: "batch_scan act es \<Longrightarrow> batch_scan act (uniq_drop seen es)"
  by (induction act es arbitrary: seen rule: batch_scan.induct) (auto simp: Let_def tool_not_assistant)

lemma match_event_cases:
  assumes "match_event rs ds e = Some e'"
  shows "ve_role e' = ve_role e" and "ve_tool_call_id e' = ve_tool_call_id e" and "ve_id e' = ve_id e"
    and "calls_tools e' \<Longrightarrow> calls_tools e"
    and "\<not> calls_tools e \<Longrightarrow> e' = e"
  using assms by (auto simp: match_event_def Let_def is_assistant_def is_tool_def has_tool_calls_def split: if_splits)

lemma match_event_ids:
  assumes "match_event rs ds e = Some e'" and "calls_tools e"
  shows "set (if calls_tools e' then tool_call_ids e' else []) = set (tool_call_ids e) \<inter> set rs"
proof -
  have ids: "set (List.map_filter vc_id (filter (\<lambda>c. id_in (vc_id c) rs) cs)) =
      set (List.map_filter vc_id cs) \<inter> set rs" for cs
    by (induction cs) (auto simp: map_filter_simps id_in_def split: option.splits)
  obtain cs where cs: "ve_tool_calls e = Some cs" using assms(2) by (auto simp: has_tool_calls_def split: option.splits)
  show ?thesis
  proof (cases "filter (\<lambda>c. id_in (vc_id c) rs) cs = []")
    case True
    with ids [of cs] have "set (List.map_filter vc_id cs) \<inter> set rs = {}" by (simp add: map_filter_simps)
    with True assms cs show ?thesis
      by (auto simp: match_event_def Let_def tool_call_ids_def has_tool_calls_def split: if_splits)
  next
    case False
    with assms cs have e': "e' = e\<lparr>ve_tool_calls := Some (filter (\<lambda>c. id_in (vc_id c) rs) cs)\<rparr>"
      by (simp add: match_event_def Let_def)
    have "calls_tools e'" using False assms(2) by (simp add: e' is_assistant_def has_tool_calls_def)
    moreover have "tool_call_ids e' = List.map_filter vc_id (filter (\<lambda>c. id_in (vc_id c) rs) cs)"
      "tool_call_ids e = List.map_filter vc_id cs"
      by (simp_all add: e' cs tool_call_ids_def)
    ultimately show ?thesis using ids [of cs] by simp
  qed
qed

lemma match_event_dropped:
  assumes "match_event rs ds e = None" and "calls_tools e"
  shows "set (tool_call_ids e) \<inter> set rs = {}"
proof -
  obtain cs where cs: "ve_tool_calls e = Some cs" using assms(2) by (auto simp: has_tool_calls_def split: option.splits)
  with assms have "filter (\<lambda>c. id_in (vc_id c) rs) cs = []" by (simp add: match_event_def Let_def split: if_splits)
  then have "set (List.map_filter vc_id cs) \<inter> set rs = {}"
    by (induction cs) (auto simp: map_filter_simps id_in_def split: option.splits if_splits)
  with cs show ?thesis by (simp add: tool_call_ids_def)
qed

lemma map_filter_Cons':
  "List.map_filter f (x # xs) = (case f x of None \<Rightarrow> [] | Some y \<Rightarrow> [y]) @ List.map_filter f xs"
  by (simp add: map_filter_simps split: option.split)

lemma match_declared:
  "set (declared_ids (List.map_filter (match_event rs ds) es)) = set (declared_ids es) \<inter> set rs"
proof (induction es)
  case (Cons e es)
  show ?case
  proof (cases "match_event rs ds e")
    case None
    with Cons match_event_dropped [OF None] show ?thesis by (auto simp: map_filter_Cons')
  next
    case (Some e')
    show ?thesis
    proof (cases "calls_tools e")
      case True
      with Some Cons match_event_ids [OF Some True] show ?thesis by (simp add: map_filter_Cons' Int_Un_distrib2)
    next
      case False
      then have "e' = e" by (rule match_event_cases(5) [OF Some])
      with False Some Cons show ?thesis by (cases "is_assistant e") (simp_all add: map_filter_Cons')
    qed
  qed
qed (simp add: map_filter_simps)

lemma match_responses:
  "set (response_ids (List.map_filter (match_event rs ds) es)) = set (response_ids es) \<inter> set ds"
proof (induction es)
  case (Cons e es)
  show ?case
  proof (cases "is_tool e")
    case True
    with Cons show ?thesis
      by (auto simp: map_filter_Cons' match_event_def tool_not_assistant id_in_def truthy_def split: option.splits)
  next
    case False
    then have "match_event rs ds e = Some e' \<Longrightarrow> \<not> is_tool e'" for e'
      using match_event_cases(1) by (auto simp: is_tool_def)
    with False Cons show ?thesis by (auto simp: map_filter_Cons' split: option.split)
  qed
qed (simp add: map_filter_simps)

lemma match_enforce_check: "match_check (match_enforce es)"
  by (auto simp: match_check_def match_enforce_def match_declared match_responses)

lemma match_batch:
  assumes "batch_scan act es" and "set (response_ids es) \<subseteq> set rs" and "[] \<notin> set act" and "[] \<notin> set (declared_ids es)"
    and "set act \<inter> set rs \<subseteq> set act'"
  shows "batch_scan act' (List.map_filter (match_event rs ds) es)"
  using assms
proof (induction act es arbitrary: act' rule: batch_scan.induct)
  case (2 act e es)
  show ?case
  proof (cases "calls_tools e")
    case True
    show ?thesis
    proof (cases "match_event rs ds e")
      case None
      with True 2 match_event_dropped [OF None True] show ?thesis by (auto simp: map_filter_Cons' tool_not_assistant)
    next
      case (Some e')
      have role: "is_assistant e'" using True match_event_cases(1) [OF Some] by (simp add: is_assistant_def)
      note ids = match_event_ids [OF Some True]
      have "batch_scan (if calls_tools e' then act' @ tool_call_ids e' else act')
          (List.map_filter (match_event rs ds) es)"
        using True 2(2-) ids by (intro 2(1)) (auto simp: tool_not_assistant split: if_splits)
      with Some role show ?thesis by (auto simp: map_filter_Cons' split: if_splits)
    qed
  next
    case False
    show ?thesis
    proof (cases "is_tool e")
      case True
      with 2 False show ?thesis
        by (auto simp: map_filter_Cons' match_event_def tool_not_assistant id_in_def truthy_def split: option.splits)
    next
      case F: False
      with 2 False show ?thesis by (auto simp: map_filter_Cons' match_event_def)
    qed
  qed
qed (simp add: map_filter_simps)

lemma uniq_scan_mono: "uniq_scan seen es \<Longrightarrow> set seen' \<subseteq> set seen \<Longrightarrow> uniq_scan seen' es"
proof (induction seen es arbitrary: seen' rule: uniq_scan.induct)
  case (2 seen e es)
  show ?case
  proof (cases "answers e")
    case True
    let ?t = "the (ve_tool_call_id e)"
    from 2(3) have h: "?t \<notin> set seen" "uniq_scan (?t # seen) es"
      by (simp_all only: uniq_scan.simps True if_True Let_def simp_thms)
    have "set (?t # seen') \<subseteq> set (?t # seen)" using 2(4) by auto
    with h(2) have "uniq_scan (?t # seen') es" by (rule 2(1) [OF True refl])
    moreover have "?t \<notin> set seen'" using h(1) 2(4) by blast
    ultimately show ?thesis by (simp only: uniq_scan.simps True if_True Let_def simp_thms)
  next
    case False
    from 2(3) have "uniq_scan seen es" by (simp only: uniq_scan.simps False if_False)
    then have "uniq_scan seen' es" by (rule 2(2) [OF False _ 2(4)])
    then show ?thesis by (simp only: uniq_scan.simps False if_False)
  qed
qed simp

lemma match_uniq:
  "uniq_scan seen es \<Longrightarrow> uniq_scan seen (List.map_filter (match_event rs ds) es)"
proof (induction seen es rule: uniq_scan.induct)
  case (2 seen e es)
  have tail: "uniq_scan seen es"
    using 2(3) by (cases "answers e") (auto simp: Let_def simp del: uniq_scan.simps(1) intro: uniq_scan_mono)
  have rest: "uniq_scan seen (List.map_filter (match_event rs ds) es)"
  proof (cases "answers e")
    case True
    then have "uniq_scan (the (ve_tool_call_id e) # seen) es" using 2(3) by (simp add: Let_def)
    then show ?thesis using uniq_scan_mono [OF 2(1) [OF True refl]] by (simp add: subset_insertI)
  next
    case False
    then show ?thesis using 2(2) tail by blast
  qed
  show ?case
  proof (cases "match_event rs ds e")
    case None
    with rest show ?thesis by (simp add: map_filter_Cons')
  next
    case (Some e')
    then have t: "is_tool e' = is_tool e" "ve_tool_call_id e' = ve_tool_call_id e"
      using match_event_cases(1,2) [OF Some] by (simp_all add: is_tool_def)
    show ?thesis
    proof (cases "answers e")
      case True
      then have "the (ve_tool_call_id e) \<notin> set seen"
          "uniq_scan (the (ve_tool_call_id e) # seen) (List.map_filter (match_event rs ds) es)"
        using 2(1) [OF True refl] 2(3) by (simp_all add: Let_def)
      with True Some show ?thesis by (simp add: map_filter_Cons' t Let_def)
    next
      case False
      then have "\<not> answers e'" by (simp only: t not_False_eq_True)
      with Some rest show ?thesis
        by (simp only: map_filter_Cons' option.case append_Cons append_Nil uniq_scan.simps if_False)
    qed
  qed
qed (simp add: map_filter_simps)

subsection \<open>Loops are homogeneous\<close>

definition named_tool :: "vevent list \<Rightarrow> nat \<Rightarrow> bool" where
  "named_tool es i \<longleftrightarrow> is_tool (es ! i) \<and> truthy (ve_name (es ! i))"

definition one_name :: "vevent list \<Rightarrow> string option \<Rightarrow> nat list \<Rightarrow> bool" where
  "one_name es nm l \<longleftrightarrow> (\<forall>j \<in> set l. named_tool es j \<longrightarrow> ve_name (es ! j) = nm)"

definition loop_inv :: "vevent list \<Rightarrow> nat \<Rightarrow> loop_state \<Rightarrow> bool" where
  "loop_inv es k s \<longleftrightarrow> (\<forall>l \<in> set (ls_loops s). \<exists>nm. one_name es nm l) \<and>
     one_name es (ls_name s) (ls_current s) \<and>
     (0 < k \<longrightarrow> named_tool es (k - 1) \<longrightarrow> ls_current s \<noteq> [] \<and> last (ls_current s) = k - 1)"

lemma close_loop_names:
  "\<forall>l \<in> set (ls_loops s). \<exists>nm. one_name es nm l \<Longrightarrow> one_name es (ls_name s) (ls_current s) \<Longrightarrow>
     \<forall>l \<in> set (close_loop min_len s). \<exists>nm. one_name es nm l"
  by (auto simp: close_loop_def)

lemma loop_inv_step:
  assumes inv: "loop_inv es i s"
  shows "loop_inv es (Suc i) (loop_step min_len es i s)"
proof -
  have loops: "\<forall>l \<in> set (ls_loops s). \<exists>nm. one_name es nm l"
    and cur: "one_name es (ls_name s) (ls_current s)"
    and prev: "0 < i \<Longrightarrow> named_tool es (i - 1) \<Longrightarrow> ls_current s \<noteq> [] \<and> last (ls_current s) = i - 1"
    using inv by (auto simp: loop_inv_def)
  note closed = close_loop_names [OF loops cur, of min_len]
  consider (same) "named_tool es i" "ve_name (es ! i) = ls_name s"
    | (fresh) "named_tool es i" "ve_name (es ! i) \<noteq> ls_name s"
    | (assistant) "\<not> named_tool es i" "is_assistant (es ! i)"
    | (other) "\<not> named_tool es i" "\<not> is_assistant (es ! i)" by blast
  then show ?thesis
  proof cases
    case same
    have "one_name es (ls_name s) [i - 1]" if "last (ls_current s) \<noteq> i - 1"
      using that prev same(2) by (cases i) (auto simp: one_name_def)
    with same loops cur show ?thesis
      by (auto simp: loop_inv_def loop_step_def Let_def named_tool_def one_name_def)
  next
    case fresh
    then have "one_name es (ve_name (es ! i)) (if 0 < i \<and> is_assistant (es ! (i - 1)) then [i - 1, i] else [i])"
      by (auto simp: one_name_def named_tool_def tool_not_assistant)
    with fresh closed show ?thesis by (simp add: loop_inv_def loop_step_def Let_def named_tool_def)
  next
    case assistant
    then have "\<not> is_tool (es ! i)" using tool_not_assistant by blast
    with assistant loops cur show ?thesis by (simp add: loop_inv_def loop_step_def Let_def named_tool_def tool_not_assistant)
  next
    case other
    with closed show ?thesis by (auto simp: loop_inv_def loop_step_def Let_def named_tool_def one_name_def)
  qed
qed

lemma loop_inv_fold:
  "loop_inv es k (fold (loop_step min_len es) [0..<k] \<lparr>ls_loops = [], ls_current = [], ls_name = None\<rparr>)"
  by (induction k) (simp add: loop_inv_def one_name_def, simp add: loop_inv_step)

lemma loop_check_always: "loop_check min_len es"
proof -
  let ?s = "fold (loop_step min_len es) [0..<length es] \<lparr>ls_loops = [], ls_current = [], ls_name = None\<rparr>"
  have "\<forall>l \<in> set (detect_loops min_len es). \<exists>nm. one_name es nm l"
    using loop_inv_fold [of es "length es" min_len] close_loop_names [of ?s es min_len]
    by (simp add: detect_loops_def loop_inv_def)
  moreover have "loop_names es l = [] \<or> length (remdups (loop_names es l)) = 1" if "one_name es nm l" for nm l
  proof -
    have "x = the nm" if "x \<in> set (loop_names es l)" for x
      using \<open>one_name es nm l\<close> that by (auto simp: loop_names_def one_name_def named_tool_def)
    then have "set (loop_names es l) \<subseteq> {the nm}" by blast
    then have "set (loop_names es l) = {} \<or> set (loop_names es l) = {the nm}" by (rule subset_singletonD)
    then show ?thesis unfolding length_remdups_card_conv by (elim disjE) simp_all
  qed
  ultimately show ?thesis unfolding loop_check_def list_all_iff by blast
qed

section \<open>The contract of a view property\<close>

text \<open>
  What the view relies on: the empty view passes the check, \<open>enforce\<close> only removes events (it may strip
  calls from one, but keeps its id and the order), and a safe index lies inside the list and is not 0.
\<close>

locale view_property =
  fixes check :: "vevent list \<Rightarrow> bool"
    and enforce :: "vevent list \<Rightarrow> vevent list"
    and safe :: "vevent list \<Rightarrow> nat set"
  assumes empty_passes: "check []"
    and removes_only: "subseq (map ve_id (enforce es)) (map ve_id es)"
    and safe_range: "i \<in> safe es \<Longrightarrow> 0 < i \<and> i < length es"
begin

lemma no_new_ids: "ve_id ` set (enforce es) \<subseteq> ve_id ` set es"
  using set_subseq [OF removes_only [of es]] by simp

lemma never_longer: "length (enforce es) \<le> length es"
  using length_subseq [OF removes_only [of es]] by simp

lemma first_never_safe: "0 \<notin> safe es"
  using safe_range by blast

lemma enforce_empty: "enforce [] = []"
  using never_longer [of "[]"] by simp

lemma empty_enforced_passes: "check (enforce [])"
  by (simp add: enforce_empty empty_passes)

end

lemma standalone_range: "i \<in> standalone_indices es \<Longrightarrow> 0 < i \<and> i < length es"
  by (simp add: standalone_indices_def)

lemma enumerate_range: "x \<in> set (enumerate 0 es) \<Longrightarrow> fst x < length es"
  by (auto simp: in_set_enumerate_eq)

definition batch_map_ok :: "nat \<Rightarrow> batch_map \<Rightarrow> bool" where
  "batch_map_ok n m \<longleftrightarrow> (\<forall>(t, a, ts) \<in> set m. 0 < a \<and> a < n \<and> (\<forall>j \<in> set ts. 0 < j \<and> j < n))"

lemma batch_map_ok_update:
  "batch_map_ok n m \<Longrightarrow> 0 < a \<Longrightarrow> a < n \<Longrightarrow> \<forall>j \<in> set ts. 0 < j \<and> j < n \<Longrightarrow>
     batch_map_ok n (AList.update t (a, ts) m)"
  using set_update_subset [of t "(a, ts)" m] by (fastforce simp: batch_map_ok_def)

lemma batch_map_ok_step:
  assumes "fst x < n" and "batch_map_ok n m"
  shows "batch_map_ok n (batch_map_step x m)"
proof -
  obtain i e where x: "x = (i, e)" by fastforce
  have calls: "batch_map_ok n (fold (\<lambda>t. AList.update t (i, [])) ts m)" if "0 < i" for ts
    using that assms by (intro fold_invariant [where P = "batch_map_ok n" and Q = "\<lambda>_. True"])
      (auto simp: x intro: batch_map_ok_update)
  have "batch_map_ok n (AList.update t (a, ts @ [i]) m)" if "map_of m t = Some (a, ts)" "0 < i" for t a ts
  proof -
    have "(t, a, ts) \<in> set m" using that by (simp add: map_of_SomeD)
    then show ?thesis using that assms by (intro batch_map_ok_update) (auto simp: x batch_map_ok_def)
  qed
  with calls assms(2) show ?thesis by (auto simp: batch_map_step_def x Let_def split: option.split)
qed

lemma batch_map_range: "batch_map_ok (length es) (batch_map es)"
  unfolding batch_map_def
  by (rule fold_invariant [where Q = "\<lambda>x. fst x < length es"])
     (auto simp: enumerate_range batch_map_ok_step, simp add: batch_map_ok_def)

lemma batch_safe_range: "i \<in> batch_safe es \<Longrightarrow> 0 < i \<and> i < length es"
proof -
  define m where "m = batch_map es"
  have ok: "batch_map_ok (length es) m" using batch_map_range by (simp add: m_def)
  have one: "\<forall>j \<in> batch_indices es m a. 0 < j \<and> j < length es" if "(t, a, ts) \<in> set m" for t a ts
  proof -
    have "0 < a \<and> a < length es" using ok that by (auto simp: batch_map_ok_def)
    moreover have "\<forall>j \<in> set (case map_of m u of None \<Rightarrow> [] | Some (_, us) \<Rightarrow> us). 0 < j \<and> j < length es" for u
    proof (cases "map_of m u")
      case (Some y)
      with ok map_of_SomeD [OF Some] show ?thesis by (cases y) (auto simp: batch_map_ok_def)
    qed simp
    ultimately show ?thesis by (auto simp: batch_indices_def)
  qed
  let ?P = "\<lambda>st :: nat set \<times> nat set. \<forall>j \<in> snd st. 0 < j \<and> j < length es"
  have "?P (fold (\<lambda>(t, a, _) (seen, safe). if a \<in> seen then (seen, safe)
      else (insert a seen, safe \<union> batch_indices es m a)) m ({}, standalone_indices es))"
    using one by (intro fold_invariant [where Q = "\<lambda>x. x \<in> set m" and P = ?P])
      (auto simp: standalone_range split: if_splits)
  then show "i \<in> batch_safe es \<Longrightarrow> 0 < i \<and> i < length es" unfolding batch_safe_def Let_def m_def [symmetric] by blast
qed

definition index_map_ok :: "nat \<Rightarrow> (string \<times> nat) list \<Rightarrow> bool" where
  "index_map_ok n m \<longleftrightarrow> (\<forall>(t, i) \<in> set m. 0 < i \<and> i < n)"

lemma index_map_ok_update: "index_map_ok n m \<Longrightarrow> 0 < i \<Longrightarrow> i < n \<Longrightarrow> index_map_ok n (AList.update t i m)"
  using set_update_subset [of t i m] by (fastforce simp: index_map_ok_def)

lemma index_map_ok_lookup: "index_map_ok n m \<Longrightarrow> t \<in> fst ` set m \<Longrightarrow> 0 < the (map_of m t) \<and> the (map_of m t) < n"
  by (cases "map_of m t") (auto simp: index_map_ok_def map_of_eq_None_iff dest!: map_of_SomeD)

lemma match_safe_range: "i \<in> match_safe es \<Longrightarrow> 0 < i \<and> i < length es"
proof -
  let ?P = "\<lambda>st. index_map_ok (length es) (fst st) \<and> index_map_ok (length es) (snd st)"
  have step: "?P (call_index_step x st)" if q: "fst x < length es" and p: "?P st" for x st
  proof -
    obtain j e where x: "x = (j, e)" by fastforce
    obtain asst tool where st: "st = (asst, tool)" by fastforce
    have "index_map_ok (length es) (fold (\<lambda>t. AList.update t j) ts asst)" if "0 < j" for ts
      using that p q by (intro fold_invariant [where P = "index_map_ok (length es)" and Q = "\<lambda>_. True"])
        (auto simp: x st intro: index_map_ok_update)
    with p q show ?thesis by (auto simp: call_index_step_def x st intro: index_map_ok_update)
  qed
  have "?P (fold call_index_step (enumerate 0 es) ([], []))"
  proof (rule fold_invariant [where Q = "\<lambda>x. fst x < length es"])
    show "?P ([], [])" by (simp add: index_map_ok_def)
  qed (rule enumerate_range, assumption, rule step)
  then show "i \<in> match_safe es \<Longrightarrow> 0 < i \<and> i < length es"
    by (auto simp: match_safe_def standalone_range index_map_ok_lookup split: prod.splits)
       (auto dest!: index_map_ok_lookup)
qed

lemma uniq_drop_subseq: "subseq (uniq_drop seen es) es"
  by (induction seen es rule: uniq_drop.induct) (auto simp: Let_def)

lemma match_subseq: "subseq (map ve_id (List.map_filter (match_event rs ds) es)) (map ve_id es)"
  by (induction es) (auto simp: map_filter_Cons' map_filter_simps match_event_cases(3) split: option.split)

interpretation batch: view_property batch_check batch_enforce batch_safe
  by unfold_locales (auto simp: batch_check_def batch_enforce_def subseq_map batch_safe_range)

interpretation uniq: view_property uniq_check uniq_enforce uniq_safe
  by unfold_locales
    (auto simp: uniq_check_def uniq_enforce_def uniq_safe_def intro: subseq_map uniq_drop_subseq)

interpretation matching: view_property match_check match_enforce match_safe
  by unfold_locales (auto simp: match_check_def match_enforce_def match_subseq match_safe_range)

interpretation tool_loop: view_property "loop_check n" "loop_enforce n" "loop_safe n" for n
  by unfold_locales (auto simp: loop_check_always loop_enforce_def loop_safe_def)

end
