(* ===== verification/Context_View.thy ===== *)
theory Context_View
  imports View_Properties
begin

text \<open>
  \<open>app/context/view.py\<close>: the view an LLM is shown, with its cached manipulation indices, its removal
  operations and the enforcement of the registered properties.  A property is a record of the three
  functions of the contract; \<open>default_properties\<close> is \<open>DEFAULT_PROPERTIES\<close>.
\<close>

record vprop =
  vp_name :: string
  vp_check :: "vevent list \<Rightarrow> bool"
  vp_enforce :: "vevent list \<Rightarrow> vevent list"
  vp_safe :: "vevent list \<Rightarrow> nat set"

definition default_properties :: "vprop list" where
  "default_properties =
     [\<lparr>vp_name = ''BatchAtomicity'', vp_check = batch_check, vp_enforce = batch_enforce, vp_safe = batch_safe\<rparr>,
      \<lparr>vp_name = ''ObservationUniqueness'', vp_check = uniq_check, vp_enforce = uniq_enforce, vp_safe = uniq_safe\<rparr>,
      \<lparr>vp_name = ''ToolCallMatching'', vp_check = match_check, vp_enforce = match_enforce, vp_safe = match_safe\<rparr>,
      \<lparr>vp_name = ''ToolLoopAtomicity'', vp_check = loop_check 3, vp_enforce = loop_enforce 3, vp_safe = loop_safe 3\<rparr>]"

record view =
  v_events :: "vevent list"
  v_properties :: "vprop list"
  v_keep_first :: nat
  v_cache :: "nat set option"

definition new_view :: "vevent list \<Rightarrow> vprop list \<Rightarrow> nat \<Rightarrow> view" where
  "new_view es ps k = \<lparr>v_events = es, v_properties = (if ps = [] then default_properties else ps),
                       v_keep_first = k, v_cache = None\<rparr>"

definition set_keep_first :: "int \<Rightarrow> view \<Rightarrow> view" where
  "set_keep_first k v = v\<lparr>v_keep_first := nat (max 0 k), v_cache := None\<rparr>"

definition add_event :: "vevent \<Rightarrow> view \<Rightarrow> view" where
  "add_event e v = v\<lparr>v_events := v_events v @ [e], v_cache := None\<rparr>"

definition add_events :: "vevent list \<Rightarrow> view \<Rightarrow> view" where
  "add_events es v = v\<lparr>v_events := v_events v @ es, v_cache := None\<rparr>"

text \<open>The property with its cache: the set, and the view with the cache filled.\<close>

definition compute_indices :: "view \<Rightarrow> nat set" where
  "compute_indices v =
     (let combined = (case map (\<lambda>p. vp_safe p (v_events v)) (v_properties v) of
                        [] \<Rightarrow> {0..<length (v_events v)}
                      | s # ss \<Rightarrow> fold (\<lambda>t acc. acc \<inter> t) ss s)
      in {i \<in> combined. v_keep_first v \<le> i})"

definition manipulation_indices :: "view \<Rightarrow> nat set \<times> view" where
  "manipulation_indices v =
     (case v_cache v of
        Some c \<Rightarrow> (c, v)
      | None \<Rightarrow>
          let r = (if v_events v = [] then {} else compute_indices v) in (r, v\<lparr>v_cache := Some r\<rparr>))"

definition enforce_properties :: "view \<Rightarrow> view" where
  "enforce_properties v =
     v\<lparr>v_events := fold vp_enforce (v_properties v) (v_events v), v_cache := None\<rparr>"

definition check_properties :: "view \<Rightarrow> (string \<times> bool) list" where
  "check_properties v = fold (\<lambda>p. AList.update (vp_name p) (vp_check p (v_events v))) (v_properties v) []"

definition is_valid :: "view \<Rightarrow> bool" where
  "is_valid v = list_all snd (check_properties v)"

definition remove_indices :: "nat set \<Rightarrow> view \<Rightarrow> view" where
  "remove_indices is v =
     enforce_properties (new_view (nths (v_events v) (- is)) (v_properties v) (v_keep_first v))"

definition remove_event_ids :: "string set \<Rightarrow> view \<Rightarrow> view" where
  "remove_event_ids is v =
     enforce_properties (new_view (filter (\<lambda>e. ve_id e \<notin> is) (v_events v)) (v_properties v) (v_keep_first v))"

definition token_estimate :: "view \<Rightarrow> nat" where
  "token_estimate v =
     (let total = sum_list (map (\<lambda>e. case ve_content e of None \<Rightarrow> 0 | Some c \<Rightarrow> length c) (v_events v)) +
        sum_list (map (\<lambda>e. case ve_tool_calls e of None \<Rightarrow> 0
                          | Some cs \<Rightarrow> sum_list (map (\<lambda>c. length (vc_arguments c)) cs)) (v_events v))
      in max 1 (total div 4))"

definition to_event_ids :: "view \<Rightarrow> string list" where
  "to_event_ids v = map ve_id (v_events v)"

definition view_diff :: "view \<Rightarrow> view \<Rightarrow> string set \<times> string set" where
  "view_diff v w =
     (set (to_event_ids v) - set (to_event_ids w), set (to_event_ids w) - set (to_event_ids v))"

section \<open>The registered properties\<close>

text \<open>Every registered property meets the contract.\<close>

definition props_ok :: "vprop list \<Rightarrow> bool" where
  "props_ok ps \<longleftrightarrow> (\<forall>p \<in> set ps. view_property (vp_check p) (vp_enforce p) (vp_safe p))"

lemma default_props_ok: "props_ok default_properties"
  by (simp add: props_ok_def default_properties_def batch.view_property_axioms uniq.view_property_axioms
      matching.view_property_axioms tool_loop.view_property_axioms)

lemma enforce_chain_subseq:
  "props_ok ps \<Longrightarrow> subseq (map ve_id (fold vp_enforce ps es)) (map ve_id es)"
proof (induction ps arbitrary: es)
  case (Cons p ps)
  then have "subseq (map ve_id (vp_enforce p es)) (map ve_id es)"
    unfolding props_ok_def by (auto intro: view_property.removes_only)
  moreover have "subseq (map ve_id (fold vp_enforce ps (vp_enforce p es))) (map ve_id (vp_enforce p es))"
    using Cons by (simp add: props_ok_def)
  ultimately show ?case by (auto intro: subseq_order.order_trans)
qed simp

lemma fold_inter: "fold (\<lambda>t acc. acc \<inter> t) ss s = s \<inter> \<Inter> (set ss)"
  by (induction ss arbitrary: s) auto

text \<open>The cache, when it is filled, holds what would be computed.\<close>

definition cache_ok :: "view \<Rightarrow> bool" where
  "cache_ok v \<longleftrightarrow> (\<forall>c. v_cache v = Some c \<longrightarrow> c = (if v_events v = [] then {} else compute_indices v))"

lemma cache_ok_ops [simp]:
  "cache_ok (new_view es ps k)" "cache_ok (set_keep_first n v)" "cache_ok (add_event e v)"
  "cache_ok (add_events es v)" "cache_ok (enforce_properties v)" "cache_ok (remove_indices is v)"
  "cache_ok (remove_event_ids ids v)"
  by (simp_all add: cache_ok_def new_view_def set_keep_first_def add_event_def add_events_def
      enforce_properties_def remove_indices_def remove_event_ids_def)

lemma manipulation_indices_cached:
  assumes "cache_ok v"
  shows "fst (manipulation_indices v) = (if v_events v = [] then {} else compute_indices v)"
    and "cache_ok (snd (manipulation_indices v))"
proof -
  have "compute_indices (v\<lparr>v_cache := c\<rparr>) = compute_indices v" for c
    by (simp only: compute_indices_def view.select_convs view.update_convs)
       (cases v, simp only: view.select_convs view.update_convs)
  with assms show "fst (manipulation_indices v) = (if v_events v = [] then {} else compute_indices v)"
    and "cache_ok (snd (manipulation_indices v))"
    by (auto simp: manipulation_indices_def cache_ok_def Let_def split: option.split)
qed

lemma compute_indices_mem:
  "v_properties v \<noteq> [] \<Longrightarrow>
     i \<in> compute_indices v \<longleftrightarrow> v_keep_first v \<le> i \<and> (\<forall>p \<in> set (v_properties v). i \<in> vp_safe p (v_events v))"
  by (cases "v_properties v") (auto simp: compute_indices_def fold_inter)

lemma manipulation_indices_bound:
  assumes "cache_ok v" and "props_ok (v_properties v)" and "v_properties v \<noteq> []"
    and "i \<in> fst (manipulation_indices v)"
  shows "0 < i \<and> v_keep_first v \<le> i \<and> i < length (v_events v)"
proof -
  have i: "i \<in> compute_indices v"
    using assms(4) manipulation_indices_cached [OF assms(1)] by (simp split: if_splits)
  obtain p where p: "p \<in> set (v_properties v)" using assms(3) by (cases "v_properties v") auto
  then have "i \<in> vp_safe p (v_events v)" using i assms(3) by (simp add: compute_indices_mem)
  moreover have "view_property (vp_check p) (vp_enforce p) (vp_safe p)" using p assms(2) by (simp add: props_ok_def)
  ultimately have "0 < i \<and> i < length (v_events v)" by (blast dest: view_property.safe_range)
  with i assms(3) show ?thesis by (simp add: compute_indices_mem)
qed

text \<open>An event that is neither a response nor calls tools may be removed on its own.\<close>

lemma first_occurrences_answers:
  "j \<in> first_occurrences i seen es \<Longrightarrow> i \<le> j \<and> j < i + length es \<and> answers (es ! (j - i))"
proof (induction i seen es rule: first_occurrences.induct)
  case (2 i seen e es)
  have "j = i \<and> answers e \<or> (Suc i \<le> j \<and> j < Suc i + length es \<and> answers (es ! (j - Suc i)))"
    using 2 by (auto split: if_splits)
  moreover have "(e # es) ! (j - i) = es ! (j - Suc i)" if "Suc i \<le> j"
  proof -
    have "j - i = Suc (j - Suc i)" using that by simp
    then show ?thesis by simp
  qed
  ultimately show ?case by auto
qed simp

lemma standalone_safe:
  assumes "i \<in> standalone_indices es"
  shows "i \<in> batch_safe es" and "i \<in> uniq_safe es" and "i \<in> match_safe es" and "i \<in> loop_safe n es"
proof -
  let ?P = "\<lambda>st :: nat set \<times> nat set. i \<in> snd st"
  have "?P (fold (\<lambda>(t, a, _) (seen, safe). if a \<in> seen then (seen, safe)
      else (insert a seen, safe \<union> batch_indices es m a)) m ({}, standalone_indices es))" for m
    using assms by (intro fold_invariant [where Q = "\<lambda>_. True" and P = ?P]) (auto split: if_splits)
  then show "i \<in> batch_safe es" unfolding batch_safe_def Let_def by blast
  have r: "0 < i" "i < length es" "\<not> View_Properties.is_tool (es ! i)"
    using assms by (simp_all add: standalone_indices_def)
  then show "i \<in> uniq_safe es" using first_occurrences_answers [of i 0 "[]" es] by (auto simp: uniq_safe_def)
  show "i \<in> match_safe es" using assms by (auto simp: match_safe_def split: prod.split)
  show "i \<in> loop_safe n es" using r by (simp add: loop_safe_def)
qed

lemma standalone_manipulable:
  assumes "i \<in> standalone_indices (v_events v)" and "v_keep_first v \<le> i" and "v_properties v = default_properties"
    and "cache_ok v"
  shows "i \<in> fst (manipulation_indices v)"
proof -
  have "\<forall>p \<in> set (v_properties v). i \<in> vp_safe p (v_events v)"
    using standalone_safe [OF assms(1)] assms(3) by (simp add: default_properties_def)
  moreover have "v_properties v \<noteq> []" using assms(3) by (simp add: default_properties_def)
  moreover have "v_events v \<noteq> []" using standalone_range [OF assms(1)] by auto
  ultimately show ?thesis using manipulation_indices_cached(1) [OF assms(4)] assms(2) compute_indices_mem by simp
qed

text \<open>A view with a system prompt, a user message and two complete batches.\<close>

definition msg :: "string \<Rightarrow> vrole \<Rightarrow> vevent" where
  "msg i r = \<lparr>ve_id = i, ve_role = r, ve_content = Some ''text'', ve_tool_calls = None,
              ve_tool_call_id = None, ve_name = None, ve_batch_id = None\<rparr>"

definition calling :: "string \<Rightarrow> string list \<Rightarrow> vevent" where
  "calling i ts = (msg i AssistantRole)\<lparr>ve_tool_calls :=
     Some (map (\<lambda>t. \<lparr>vc_id = Some t, vc_name = ''bash'', vc_arguments = ''{}''\<rparr>) ts)\<rparr>"

definition answer :: "string \<Rightarrow> string \<Rightarrow> vevent" where
  "answer i t = (msg i ToolRole)\<lparr>ve_tool_call_id := Some t, ve_name := Some ''bash''\<rparr>"

definition demo_events :: "vevent list" where
  "demo_events = [msg ''s'' SystemRole, msg ''u'' UserRole, calling ''a1'' [''c1'', ''c2''],
     answer ''t1'' ''c1'', answer ''t2'' ''c2'', calling ''a2'' [''c3''], answer ''t3'' ''c3'', msg ''m'' UserRole]"

definition demo_view :: view where
  "demo_view = new_view demo_events [] 1"

lemma demo_roles [simp]:
  "View_Properties.is_tool (msg i r) = (r = ToolRole)" "View_Properties.is_tool (answer i t)"
  "\<not> View_Properties.is_tool (calling i ts)" "is_assistant (msg i r) = (r = AssistantRole)"
  "is_assistant (calling i ts)" "\<not> is_assistant (answer i t)" "has_tool_calls (calling i ts) = (ts \<noteq> [])"
  "\<not> has_tool_calls (msg i r)" "tool_call_ids (calling i ts) = ts" "ve_tool_call_id (answer i t) = Some t"
  "ve_id (msg i r) = i" "ve_id (calling i ts) = i" "ve_id (answer i t) = i"
  by (simp_all add: msg_def calling_def answer_def is_tool_def is_assistant_def has_tool_calls_def
      tool_call_ids_def map_filter_def comp_def)

section \<open>Removal keeps a view valid\<close>

lemma default_chain:
  "fold vp_enforce default_properties es = match_enforce (uniq_enforce (batch_enforce es))"
  by (simp add: default_properties_def loop_enforce_def)

lemma default_checks:
  "v_properties v = default_properties \<Longrightarrow>
     is_valid v \<longleftrightarrow> batch_check (v_events v) \<and> uniq_check (v_events v) \<and> match_check (v_events v)"
  by (simp add: is_valid_def check_properties_def default_properties_def loop_check_always)

lemma subseq_nths: "subseq (nths xs I) xs"
proof (induction xs arbitrary: I)
  case (Cons x xs)
  then show ?case by (simp add: nths_Cons list_emb_Cons)
qed simp

lemma uniq_drop_declared: "declared_ids (uniq_drop seen es) = declared_ids es"
  by (induction seen es rule: uniq_drop.induct) (auto simp: Let_def tool_not_assistant)

lemma chain_valid:
  assumes "ordered_on (set (declared_ids es)) {} es" and "[] \<notin> set (declared_ids es)"
  shows "batch_check (match_enforce (uniq_enforce (batch_enforce es)))"
    and "uniq_check (match_enforce (uniq_enforce (batch_enforce es)))"
    and "match_check (match_enforce (uniq_enforce (batch_enforce es)))"
proof -
  let ?b = "batch_enforce es" and ?u = "uniq_enforce (batch_enforce es)"
  have "batch_scan [] ?u"
    using batch_enforce_check [OF assms] by (simp add: batch_check_def uniq_enforce_def uniq_drop_batch)
  moreover have "[] \<notin> set (declared_ids ?u)"
  proof -
    have "set (declared_ids ?b) \<subseteq> set (declared_ids es)"
      by (intro declared_subseq) (simp add: batch_enforce_def)
    then show ?thesis using assms(2) by (auto simp: uniq_enforce_def uniq_drop_declared)
  qed
  ultimately show "batch_check (match_enforce ?u)"
    unfolding batch_check_def match_enforce_def by (intro match_batch [where act = "[]"]) simp_all
  show "uniq_check (match_enforce ?u)"
    unfolding uniq_check_def match_enforce_def uniq_enforce_def by (rule match_uniq [OF uniq_drop_check])
  show "match_check (match_enforce ?u)" by (rule match_enforce_check)
qed

lemma removed_chain_valid:
  assumes "batch_check es" and "distinct (declared_ids es)" and "[] \<notin> set (declared_ids es)" and "subseq xs es"
  shows "batch_check (match_enforce (uniq_enforce (batch_enforce xs)))"
    and "uniq_check (match_enforce (uniq_enforce (batch_enforce xs)))"
    and "match_check (match_enforce (uniq_enforce (batch_enforce xs)))"
proof -
  have "ordered_on (set (declared_ids xs)) (set []) xs"
    using assms(1,2) by (intro ordered_subseq [OF assms(4), of "[]"]) (simp_all add: batch_check_def)
  then have o: "ordered_on (set (declared_ids xs)) {} xs" by simp
  have d: "[] \<notin> set (declared_ids xs)" using declared_subseq [OF assms(4)] assms(3) by blast
  show "batch_check (match_enforce (uniq_enforce (batch_enforce xs)))"
    and "uniq_check (match_enforce (uniq_enforce (batch_enforce xs)))"
    and "match_check (match_enforce (uniq_enforce (batch_enforce xs)))"
    by (rule chain_valid [OF o d])+
qed

lemma removal_valid:
  assumes "batch_check es" and "distinct (declared_ids es)" and "[] \<notin> set (declared_ids es)" and "subseq xs es"
  shows "is_valid (enforce_properties (new_view xs default_properties k))"
  using removed_chain_valid [OF assms]
  by (simp add: default_checks new_view_def enforce_properties_def default_chain)



text \<open>enforcement alone does not repair a view: a response that precedes the message that calls it
  survives every \<open>enforce\<close>, so the enforced view fails \<open>BatchAtomicity\<close>.\<close>

theorem enforce_keeps_misordered:
  assumes "i \<noteq> []"
  shows "v_events (enforce_properties (new_view [msg s SystemRole, answer t i, calling a [i]] [] k)) =
      [msg s SystemRole, answer t i, calling a [i]] \<and>
    \<not> is_valid (enforce_properties (new_view [msg s SystemRole, answer t i, calling a [i]] [] k))"
proof -
  let ?es = "[msg s SystemRole, answer t i, calling a [i]]"
  have r: "response_ids ?es = [i]" and d: "declared_ids ?es = [i]" using assms by simp_all
  have b: "batch_enforce ?es = ?es" unfolding batch_enforce_def r d by (simp add: batch_keep_def)
  have u: "uniq_enforce ?es = ?es" by (simp add: uniq_enforce_def Let_def)
  have "match_event [i] [i] (calling a [i]) = Some (calling a [i])"
    by (simp add: match_event_def calling_def is_assistant_def has_tool_calls_def msg_def)
  then have m: "match_enforce ?es = ?es"
    unfolding match_enforce_def r d by (simp add: map_filter_Cons' map_filter_simps) (simp add: match_event_def)
  have e: "v_events (enforce_properties (new_view ?es [] k)) = ?es"
    by (simp add: enforce_properties_def new_view_def default_chain b u m)
  moreover have "v_properties (enforce_properties (new_view ?es [] k)) = default_properties"
    by (simp add: enforce_properties_def new_view_def)
  ultimately show ?thesis by (simp add: default_checks batch_check_def)
qed

theorem enforce_keeps_misordered_witness:
  "\<not> is_valid (enforce_properties (new_view [msg ''s'' SystemRole, answer ''t'' ''c'', calling ''a'' [''c'']] [] 1))"
  using enforce_keeps_misordered [of "''c''" "''s''" "''t''" "''a''" 1] by simp

end
