(* ===== verification/Condensers.thy ===== *)
theory Condensers
  imports Context_View
begin

text \<open>
  \<open>app/context/condenser\<close>: actions, \<open>CondenserBase.apply\<close>, the rolling, no-op and pipeline condensers.
  A condenser is a record of the functions the pipeline calls; an exception is the left side of a sum.  Durations and log texts are left out; a fresh event id is an argument.
\<close>

datatype reason = REQUEST | TOKENS | EVENTS

definition is_hard :: "reason \<Rightarrow> bool" where "is_hard r \<longleftrightarrow> r = REQUEST"

record action =
  ca_forgotten :: "string set"
  ca_summary :: "string option"
  ca_reason :: reason

record condenser_metrics =
  cm_calls :: nat
  cm_condensations :: nat
  cm_removed :: nat
  cm_saved :: nat
  cm_errors :: nat

definition record_call :: "nat \<Rightarrow> nat \<Rightarrow> bool \<Rightarrow> bool \<Rightarrow> condenser_metrics \<Rightarrow> condenser_metrics" where
  "record_call removed saved condensed err m =
     (let m1 = m\<lparr>cm_calls := cm_calls m + 1\<rparr>;
          m2 = (if condensed then m1\<lparr>cm_condensations := cm_condensations m1 + 1,
                  cm_removed := cm_removed m1 + removed, cm_saved := cm_saved m1 + saved\<rparr> else m1)
      in if err then m2\<lparr>cm_errors := cm_errors m2 + 1\<rparr> else m2)"

text \<open>\<open>Event.user(content=...)\<close> with its fresh id, and \<open>CondenserBase.apply\<close>.\<close>

definition user_event :: "string \<Rightarrow> string \<Rightarrow> vevent" where
  "user_event i c = \<lparr>ve_id = i, ve_role = UserRole, ve_content = Some c, ve_tool_calls = None,
     ve_tool_call_id = None, ve_name = None, ve_batch_id = None\<rparr>"

definition apply_action :: "string \<Rightarrow> view \<Rightarrow> action \<Rightarrow> view" where
  "apply_action fresh v a =
     (if ca_forgotten a = {} \<and> \<not> truthy (ca_summary a) then v
      else let v1 = remove_event_ids (ca_forgotten a) v;
               v2 = (if truthy (ca_summary a) then add_event (user_event fresh (the (ca_summary a))) v1 else v1)
           in enforce_properties v2)"

section \<open>The rolling condenser\<close>

definition rolling_should :: "nat \<Rightarrow> view \<Rightarrow> bool" where
  "rolling_should max_events v \<longleftrightarrow> max_events + v_keep_first v < length (v_events v)"

definition rolling_condense :: "nat \<Rightarrow> view \<Rightarrow> reason \<Rightarrow> action option" where
  "rolling_condense max_events v reason =
     (let es = v_events v; total = length es; keep = v_keep_first v in
      if total \<le> max_events + keep then None
      else let manipulable = fst (manipulation_indices v); cutoff = total - max_events in
        if cutoff \<le> keep then None
        else let removable = {keep..<cutoff} \<inter> manipulable in
          if removable = {} then None
          else let forgotten = (\<lambda>i. ve_id (es ! i)) ` (removable \<inter> {..<length es}) in
            if forgotten = {} then None
            else Some \<lparr>ca_forgotten = forgotten, ca_summary = None, ca_reason = reason\<rparr>)"

section \<open>The pipeline\<close>

record condenser =
  cd_should :: "view \<Rightarrow> string + bool"
  cd_condense :: "view \<Rightarrow> reason \<Rightarrow> string + action option"
  cd_apply :: "view \<Rightarrow> action \<Rightarrow> string + view"

definition rolling_condenser :: "string \<Rightarrow> nat \<Rightarrow> condenser" where
  "rolling_condenser fresh n =
     \<lparr>cd_should = (\<lambda>v. Inr (rolling_should n v)), cd_condense = (\<lambda>v r. Inr (rolling_condense n v r)),
      cd_apply = (\<lambda>v a. Inr (apply_action fresh v a))\<rparr>"

definition noop_condenser :: "string \<Rightarrow> condenser" where
  "noop_condenser fresh =
     \<lparr>cd_should = (\<lambda>_. Inr False), cd_condense = (\<lambda>_ _. Inr None),
      cd_apply = (\<lambda>v a. Inr (apply_action fresh v a))\<rparr>"

record pipeline_state =
  ps_view :: view
  ps_forgotten :: "string set"
  ps_summary :: "string option"
  ps_reason :: reason
  ps_actions :: nat

fun pipeline_run :: "bool \<Rightarrow> reason \<Rightarrow> condenser list \<Rightarrow> pipeline_state \<Rightarrow> pipeline_state" where
  "pipeline_run stop reason [] s = s"
| "pipeline_run stop reason (c # cs) s =
     (case cd_should c (ps_view s) of
        Inl _ \<Rightarrow> pipeline_run stop reason cs s
      | Inr False \<Rightarrow> pipeline_run stop reason cs s
      | Inr True \<Rightarrow>
          (case cd_condense c (ps_view s) reason of
             Inl _ \<Rightarrow> pipeline_run stop reason cs s
           | Inr None \<Rightarrow> pipeline_run stop reason cs s
           | Inr (Some a) \<Rightarrow>
               (case cd_apply c (ps_view s) a of
                  Inl _ \<Rightarrow> pipeline_run stop reason cs s
                | Inr v \<Rightarrow>
                    let s' = \<lparr>ps_view = v, ps_forgotten = ps_forgotten s \<union> ca_forgotten a,
                              ps_summary = (if truthy (ca_summary a) then ca_summary a else ps_summary s),
                              ps_reason = ca_reason a, ps_actions = Suc (ps_actions s)\<rparr>
                    in if stop then s' else pipeline_run stop reason cs s')))"

definition pipeline_condense :: "bool \<Rightarrow> condenser list \<Rightarrow> view \<Rightarrow> reason \<Rightarrow> action option" where
  "pipeline_condense stop cs v reason =
     (if cs = [] then None
      else let s = pipeline_run stop reason cs
                     \<lparr>ps_view = v, ps_forgotten = {}, ps_summary = None, ps_reason = reason, ps_actions = 0\<rparr>
           in if ps_forgotten s = {} then None
              else Some \<lparr>ca_forgotten = ps_forgotten s, ca_summary = ps_summary s, ca_reason = ps_reason s\<rparr>)"

fun pipeline_should :: "condenser list \<Rightarrow> view \<Rightarrow> string + bool" where
  "pipeline_should [] v = Inr False"
| "pipeline_should (c # cs) v =
     (case cd_should c v of Inl e \<Rightarrow> Inl e | Inr b \<Rightarrow> if b then Inr True else pipeline_should cs v)"

definition pipeline_apply :: "string \<Rightarrow> view \<Rightarrow> action \<Rightarrow> view" where
  "pipeline_apply fresh v a =
     (if ca_forgotten a = {} then v
      else let v1 = remove_event_ids (ca_forgotten a) v;
               v2 = (if truthy (ca_summary a) then add_event (user_event fresh (the (ca_summary a))) v1 else v1)
           in enforce_properties v2)"

section \<open>What the rolling condenser forgets\<close>

lemma rolling_condense_eq:
  assumes "n + v_keep_first v < length (v_events v)"
  shows "rolling_condense n v r =
    (let R = {v_keep_first v..<length (v_events v) - n} \<inter> fst (manipulation_indices v) in
     if R = {} then None
     else Some \<lparr>ca_forgotten = (\<lambda>i. ve_id (v_events v ! i)) ` R, ca_summary = None, ca_reason = r\<rparr>)"
proof -
  have R: "{v_keep_first v..<length (v_events v) - n} \<inter> fst (manipulation_indices v) \<inter> {..<length (v_events v)} =
      {v_keep_first v..<length (v_events v) - n} \<inter> fst (manipulation_indices v)" by auto
  show ?thesis using assms unfolding rolling_condense_def Let_def R by auto
qed

lemma rolling_condense_Some:
  assumes "rolling_condense n v r = Some a"
  shows "ca_summary a = None" and "ca_reason a = r" and "n + v_keep_first v < length (v_events v)"
    and "ca_forgotten a \<noteq> {}"
    and "ca_forgotten a = (\<lambda>i. ve_id (v_events v ! i)) `
      ({v_keep_first v..<length (v_events v) - n} \<inter> fst (manipulation_indices v))"
proof -
  let ?R = "{v_keep_first v..<length (v_events v) - n} \<inter> fst (manipulation_indices v)"
  let ?F = "(\<lambda>i. ve_id (v_events v ! i)) ` ?R"
  show g: "n + v_keep_first v < length (v_events v)"
  proof (rule ccontr)
    assume "\<not> n + v_keep_first v < length (v_events v)"
    then have "rolling_condense n v r = None" by (simp add: rolling_condense_def Let_def)
    with assms show False by simp
  qed
  have "rolling_condense n v r =
      (if ?R = {} then None else Some \<lparr>ca_forgotten = ?F, ca_summary = None, ca_reason = r\<rparr>)"
    using rolling_condense_eq [OF g] by (simp add: Let_def)
  with assms have "?R \<noteq> {}" and a: "a = \<lparr>ca_forgotten = ?F, ca_summary = None, ca_reason = r\<rparr>"
    by (simp_all split: if_splits)
  then show "ca_summary a = None" and "ca_reason a = r" and "ca_forgotten a \<noteq> {}" and "ca_forgotten a = ?F"
    by simp_all
qed

text \<open>In a view with the uniqueness property no response is a manipulation index: the first response
  to a call is never safe, and a unique view has no other.\<close>

lemma uniq_scan_first:
  "uniq_scan seen es \<Longrightarrow> k < length es \<Longrightarrow> answers (es ! k) \<Longrightarrow> i + k \<in> first_occurrences i seen es"
proof (induction i seen es arbitrary: k rule: first_occurrences.induct)
  case (2 i seen e es)
  show ?case
  proof (cases k)
    case 0
    with 2(3,5) show ?thesis by (simp add: Let_def)
  next
    case (Suc k')
    have k': "k' < length es" "answers (es ! k')" using 2(4,5) Suc by simp_all
    show ?thesis
    proof (cases "answers e")
      case True
      then have u: "the (ve_tool_call_id e) \<notin> set seen" "uniq_scan (the (ve_tool_call_id e) # seen) es"
        using 2(3) by (simp_all add: Let_def)
      with True have c: "answers e \<and> the (ve_tool_call_id e) \<notin> set seen" by blast
      have "Suc i + k' \<in> first_occurrences (Suc i) (the (ve_tool_call_id e) # seen) es"
        by (rule 2(1) [OF c u(2) k'])
      with c Suc show ?thesis by simp
    next
      case False
      then have c: "\<not> (answers e \<and> the (ve_tool_call_id e) \<notin> set seen)" by blast
      have "uniq_scan seen es" using 2(3) by (simp only: uniq_scan.simps False if_False)
      from 2(2) [OF c this k'] Suc show ?thesis by (simp only: first_occurrences.simps c if_False) simp
    qed
  qed
qed simp

lemma response_not_manipulable:
  assumes "cache_ok v" and "v_properties v = default_properties" and "uniq_check (v_events v)"
    and "i \<in> fst (manipulation_indices v)"
  shows "\<not> answers (v_events v ! i)"
proof
  assume a: "answers (v_events v ! i)"
  have ne: "v_properties v \<noteq> []" using assms(2) by (simp add: default_properties_def)
  have i: "i < length (v_events v)"
    using manipulation_indices_bound [OF assms(1) _ ne assms(4)] assms(2) default_props_ok by simp
  have "i \<in> compute_indices v"
    using assms(4) manipulation_indices_cached(1) [OF assms(1)] by (simp split: if_splits)
  then have "i \<in> uniq_safe (v_events v)"
    using assms(2) ne by (auto simp: compute_indices_mem default_properties_def)
  then show False using uniq_scan_first [of "[]" "v_events v" i 0] assms(3) a i by (simp add: uniq_safe_def uniq_check_def)
qed

lemma forgotten_middle:
  assumes "rolling_condense n v r = Some a" and "cache_ok v" and "v_properties v = default_properties"
    and "uniq_check (v_events v)" and "distinct (map ve_id (v_events v))"
  shows "ca_forgotten a \<noteq> {} \<and>
    (\<forall>i < length (v_events v). ve_id (v_events v ! i) \<in> ca_forgotten a \<longrightarrow>
       0 < i \<and> v_keep_first v \<le> i \<and> i < length (v_events v) - n \<and> \<not> answers (v_events v ! i))"
proof -
  note s = rolling_condense_Some [OF assms(1)]
  have "0 < i \<and> v_keep_first v \<le> i \<and> i < length (v_events v) - n \<and> \<not> answers (v_events v ! i)"
    if i: "i < length (v_events v)" and f: "ve_id (v_events v ! i) \<in> ca_forgotten a" for i
  proof -
    obtain j where j: "j \<in> {v_keep_first v..<length (v_events v) - n}" "j \<in> fst (manipulation_indices v)"
        "ve_id (v_events v ! i) = ve_id (v_events v ! j)"
      using f unfolding s(5) by blast
    have ne: "v_properties v \<noteq> []" using assms(3) by (simp add: default_properties_def)
    have b: "0 < j \<and> j < length (v_events v)"
      using manipulation_indices_bound [OF assms(2) _ ne j(2)] assms(3) default_props_ok by simp
    then have "i = j" using assms(5) i j(3) nth_eq_iff_index_eq [of "map ve_id (v_events v)" i j] by simp
    with j b response_not_manipulable [OF assms(2-4) j(2)] show ?thesis by auto
  qed
  with s(4) show ?thesis by blast
qed

section \<open>What survives the enforcement\<close>

text \<open>
  The views an agent builds: valid, with distinct event ids and distinct non-empty call ids, every
  call carrying its id.
\<close>

definition wf_view :: "view \<Rightarrow> bool" where
  "wf_view v \<longleftrightarrow> v_properties v = default_properties \<and> is_valid v \<and>
     distinct (map ve_id (v_events v)) \<and> distinct (declared_ids (v_events v)) \<and>
     [] \<notin> set (declared_ids (v_events v)) \<and>
     (\<forall>e \<in> set (v_events v). calls_tools e \<longrightarrow> tool_call_ids e \<noteq> [])"

lemma wf_viewD:
  assumes "wf_view v"
  shows "v_properties v = default_properties" and "batch_check (v_events v)" and "uniq_check (v_events v)"
    and "match_check (v_events v)" and "distinct (map ve_id (v_events v))"
    and "distinct (declared_ids (v_events v))" and "[] \<notin> set (declared_ids (v_events v))"
    and "e \<in> set (v_events v) \<Longrightarrow> calls_tools e \<Longrightarrow> tool_call_ids e \<noteq> []"
proof -
  have "v_properties v = default_properties" "is_valid v" using assms by (simp_all add: wf_view_def)
  then show "v_properties v = default_properties" and "batch_check (v_events v)" and "uniq_check (v_events v)"
    and "match_check (v_events v)" by (simp_all add: default_checks)
  show "distinct (map ve_id (v_events v))" and "distinct (declared_ids (v_events v))"
    and "[] \<notin> set (declared_ids (v_events v))"
    and "e \<in> set (v_events v) \<Longrightarrow> calls_tools e \<Longrightarrow> tool_call_ids e \<noteq> []"
    using assms unfolding wf_view_def by blast+
qed

lemma declared_iff: "i \<in> set (declared_ids es) \<longleftrightarrow> (\<exists>e \<in> set es. calls_tools e \<and> i \<in> set (tool_call_ids e))"
  by (auto simp: declared_ids_def)

lemma response_iff: "i \<in> set (response_ids es) \<longleftrightarrow> (\<exists>e \<in> set es. is_tool e \<and> ve_tool_call_id e = Some i \<and> i \<noteq> [])"
  by (auto simp: response_ids_def truthy_iff image_iff)

text \<open>A response comes after its declaring message.\<close>

lemma batch_scan_declarer:
  "batch_scan act es \<Longrightarrow> k < length es \<Longrightarrow> is_tool (es ! k) \<Longrightarrow>
     \<exists>i. ve_tool_call_id (es ! k) = Some i \<and>
       (i \<in> set act \<or> (\<exists>j < k. calls_tools (es ! j) \<and> i \<in> set (tool_call_ids (es ! j))))"
proof (induction act es arbitrary: k rule: batch_scan.induct)
  case (2 act e es)
  show ?case
  proof (cases k)
    case 0
    with 2(5,7) show ?thesis by (auto simp: tool_not_assistant id_in_def split: option.splits)
  next
    case (Suc k')
    then have k': "k' < length es" "is_tool (es ! k')" using 2(6,7) by simp_all
    obtain act' where act': "batch_scan act' es" "set act' = set act \<union> (if calls_tools e then set (tool_call_ids e) else {})"
        "\<exists>i. ve_tool_call_id (es ! k') = Some i \<and>
          (i \<in> set act' \<or> (\<exists>j < k'. calls_tools (es ! j) \<and> i \<in> set (tool_call_ids (es ! j))))"
    proof (cases "calls_tools e")
      case True
      then have "batch_scan (act @ tool_call_ids e) es" using 2(5) by simp
      with 2(1) [OF True this k'] True show ?thesis by (intro that [of "act @ tool_call_ids e"]) auto
    next
      case False
      then have "batch_scan act es" using 2(5) by (auto split: if_splits)
      with 2(2-4) False k' show ?thesis by (intro that [of act]) (cases "is_assistant e"; cases "is_tool e"; simp)+
    qed
    then obtain i where i: "ve_tool_call_id (es ! k') = Some i"
        "i \<in> set act' \<or> (\<exists>j < k'. calls_tools (es ! j) \<and> i \<in> set (tool_call_ids (es ! j)))" by blast
    have "i \<in> set act \<or> (\<exists>j < k. calls_tools ((e # es) ! j) \<and> i \<in> set (tool_call_ids ((e # es) ! j)))"
      using i(2)
    proof
      assume "i \<in> set act'"
      with act'(2) Suc show ?thesis by (cases "calls_tools e") auto
    next
      assume "\<exists>j < k'. calls_tools (es ! j) \<and> i \<in> set (tool_call_ids (es ! j))"
      then obtain j where "j < k'" "calls_tools (es ! j)" "i \<in> set (tool_call_ids (es ! j))" by blast
      with Suc show ?thesis by (intro disjI2 exI [of _ "Suc j"]) simp
    qed
    with i(1) Suc show ?thesis by simp
  qed
qed simp

lemma uniq_scan_subseq: "subseq xs es \<Longrightarrow> uniq_scan seen es \<Longrightarrow> uniq_scan seen xs"
proof (induction xs es arbitrary: seen rule: list_emb.induct)
  case (list_emb_Cons xs es e)
  have "uniq_scan seen es"
  proof (cases "answers e")
    case True
    then have "uniq_scan (the (ve_tool_call_id e) # seen) es" using list_emb_Cons.prems by (simp add: Let_def)
    then show ?thesis by (rule uniq_scan_mono) auto
  next
    case False
    then show ?thesis using list_emb_Cons.prems by (simp only: uniq_scan.simps if_False)
  qed
  then show ?case by (rule list_emb_Cons.IH)
next
  case (list_emb_Cons2 x e xs es)
  show ?case
  proof (cases "answers e")
    case True
    with list_emb_Cons2 show ?thesis by (simp add: Let_def)
  next
    case False
    with list_emb_Cons2 show ?thesis by (simp only: uniq_scan.simps if_False)
  qed
qed simp

lemma uniq_drop_id: "uniq_scan seen es \<Longrightarrow> uniq_drop seen es = es"
proof (induction seen es rule: uniq_scan.induct)
  case (2 seen e es)
  show ?case
  proof (cases "answers e")
    case True
    with 2(1) [OF True refl] 2(3) show ?thesis by (simp add: Let_def)
  next
    case False
    with 2(2) [OF False] 2(3) show ?thesis by (simp only: uniq_scan.simps uniq_drop.simps if_False)
  qed
qed simp

text \<open>A response whose call is declared, and a calling message with a response, pass the filters.\<close>

lemma match_event_keeps:
  assumes "is_tool e \<Longrightarrow> id_in (ve_tool_call_id e) ds"
    and "calls_tools e \<Longrightarrow> set (tool_call_ids e) \<inter> set rs \<noteq> {}"
  shows "\<exists>e'. match_event rs ds e = Some e' \<and> ve_id e' = ve_id e"
proof (cases "match_event rs ds e")
  case None
  then have "is_tool e \<or> calls_tools e" by (auto simp: match_event_def split: if_splits)
  then show ?thesis
  proof
    assume "is_tool e"
    with assms(1) None show ?thesis by (simp add: match_event_def tool_not_assistant)
  next
    assume "calls_tools e"
    with assms(2) match_event_dropped [OF None] show ?thesis by blast
  qed
next
  case (Some e')
  with match_event_cases(3) show ?thesis by blast
qed

lemma map_filter_ids:
  "(\<And>e. e \<in> set es \<Longrightarrow> \<exists>e'. f e = Some e' \<and> ve_id e' = ve_id e) \<Longrightarrow>
     map ve_id (List.map_filter f es) = map ve_id es"
proof (induction es)
  case (Cons e es)
  from Cons.prems [of e] obtain e' where "f e = Some e'" "ve_id e' = ve_id e" by auto
  with Cons show ?case by (simp add: map_filter_Cons')
qed (simp add: map_filter_simps)

text \<open>Enforcement keeps every event of a valid list whose calls carry their ids.\<close>

lemma chain_keeps_valid:
  assumes b: "batch_check es" and u: "uniq_check es" and m: "match_check es"
    and ids: "\<And>e. e \<in> set es \<Longrightarrow> calls_tools e \<Longrightarrow> tool_call_ids e \<noteq> []"
  shows "map ve_id (match_enforce (uniq_enforce (batch_enforce es))) = map ve_id es"
proof -
  have tools: "id_in (ve_tool_call_id e) (declared_ids es)" if "e \<in> set es" "is_tool e" for e
  proof -
    from that(1) obtain k where k: "k < length es" "es ! k = e" by (auto simp: in_set_conv_nth)
    have "batch_scan [] es" "is_tool (es ! k)" using b that(2) k(2) by (simp_all add: batch_check_def)
    from batch_scan_declarer [OF this(1) k(1) this(2)] obtain i j where
      ij: "ve_tool_call_id e = Some i" "j < k" "calls_tools (es ! j)" "i \<in> set (tool_call_ids (es ! j))"
      unfolding k(2) by auto
    moreover have "es ! j \<in> set es" using ij(2) k(1) by simp
    ultimately have "i \<in> set (declared_ids es)" unfolding declared_iff by blast
    with ij(1) show ?thesis by simp
  qed
  have calls: "set (tool_call_ids e) \<inter> set (response_ids es) \<noteq> {}" if e: "e \<in> set es" "calls_tools e" for e
  proof -
    have "tool_call_ids e \<noteq> []" by (rule ids [OF e])
    then obtain i where "i \<in> set (tool_call_ids e)" by (cases "tool_call_ids e") auto
    moreover from this e have "i \<in> set (declared_ids es)" by (auto simp: declared_iff)
    ultimately show ?thesis using m by (auto simp: match_check_def)
  qed
  have "batch_enforce es = es"
    unfolding batch_enforce_def
  proof (intro filter_True ballI)
    fix e assume e: "e \<in> set es"
    show "batch_keep (declared_ids es) (response_ids es) e"
    proof (cases "is_tool e")
      case True
      with tools [OF e] show ?thesis by (simp add: batch_keep_def)
    next
      case False
      have "calls_tools e \<Longrightarrow> list_ex (\<lambda>i. i \<in> set (response_ids es)) (tool_call_ids e)"
        using calls [OF e] unfolding list_ex_iff by blast
      with False show ?thesis by (simp add: batch_keep_def)
    qed
  qed
  moreover have "uniq_enforce es = es" using u by (simp add: uniq_check_def uniq_enforce_def uniq_drop_id)
  moreover have "map ve_id (match_enforce es) = map ve_id es"
    unfolding match_enforce_def by (intro map_filter_ids match_event_keeps tools calls)
  ultimately show ?thesis by simp
qed

lemma chain_declared:
  assumes "i \<in> set (declared_ids (match_enforce (uniq_enforce (batch_enforce es))))"
  shows "i \<in> set (declared_ids es)"
proof -
  have "i \<in> set (declared_ids (batch_enforce es))"
    using assms by (simp add: match_enforce_def match_declared uniq_enforce_def uniq_drop_declared)
  moreover have "subseq (batch_enforce es) es" by (simp add: batch_enforce_def)
  ultimately show ?thesis using declared_subseq by blast
qed

lemma match_enforce_call_ids:
  assumes "e' \<in> set (match_enforce es)" and "calls_tools e'"
  shows "tool_call_ids e' \<noteq> []"
proof -
  obtain e where e: "match_event (response_ids es) (declared_ids es) e = Some e'"
    using assms(1) by (auto simp: match_enforce_def map_filter_def)
  then have c: "calls_tools e" using assms(2) by (rule match_event_cases(4))
  let ?m = "filter (\<lambda>c. id_in (vc_id c) (response_ids es)) (the (ve_tool_calls e))"
  have "?m \<noteq> []" and calls: "ve_tool_calls e' = Some ?m"
    using e c assms(2) by (auto simp: match_event_def Let_def has_tool_calls_def split: if_splits)
  then obtain x xs where "?m = x # xs" by (cases ?m) auto
  moreover from this have "x \<in> set ?m" by simp
  then have "id_in (vc_id x) (response_ids es)" by simp
  then obtain i where "vc_id x = Some i" by (cases "vc_id x") simp_all
  ultimately show ?thesis using calls by (simp add: tool_call_ids_def map_filter_simps)
qed

lemma enforce_events:
  "v_properties v = default_properties \<Longrightarrow>
     v_events (enforce_properties v) = match_enforce (uniq_enforce (batch_enforce (v_events v)))"
  by (simp add: enforce_properties_def default_chain)

text \<open>The first enforcement keeps what was not forgotten, as long as no response was forgotten and the
  message a response answers is kept.\<close>

lemma first_chain_keeps:
  assumes wf: "wf_view v" and xs: "xs = filter (\<lambda>e. ve_id e \<notin> F) (v_events v)"
    and noresp: "\<And>e. e \<in> set (v_events v) \<Longrightarrow> ve_id e \<in> F \<Longrightarrow> \<not> is_tool e"
    and e: "e \<in> set xs" and decl: "is_tool e \<Longrightarrow> id_in (ve_tool_call_id e) (declared_ids xs)"
  shows "\<exists>e' \<in> set (match_enforce (uniq_enforce (batch_enforce xs))). ve_id e' = ve_id e"
proof -
  let ?b = "batch_enforce xs"
  have ev: "e \<in> set (v_events v)" using e xs by simp
  have resp: "i \<in> set (response_ids xs)" if "a \<in> set xs" "calls_tools a" "i \<in> set (tool_call_ids a)" for a i
  proof -
    have "i \<in> set (declared_ids (v_events v))" using that xs by (auto simp: declared_iff)
    then have "i \<in> set (response_ids (v_events v))" using wf_viewD(4) [OF wf] by (simp add: match_check_def)
    then obtain t where t: "t \<in> set (v_events v)" "is_tool t" "ve_tool_call_id t = Some i" "i \<noteq> []"
      by (auto simp: response_iff)
    moreover from t have "t \<in> set xs" using noresp xs by auto
    ultimately show ?thesis by (auto simp: response_iff)
  qed
  have kept_call: "a \<in> set ?b" if "a \<in> set xs" "calls_tools a" for a
  proof -
    have "tool_call_ids a \<noteq> []" using that xs by (intro wf_viewD(8) [OF wf]) simp_all
    then obtain i where "i \<in> set (tool_call_ids a)" by (cases "tool_call_ids a") auto
    with resp [OF that] have "list_ex (\<lambda>i. i \<in> set (response_ids xs)) (tool_call_ids a)" by (auto simp: list_ex_iff)
    with that show ?thesis by (auto simp: batch_enforce_def batch_keep_def tool_not_assistant)
  qed
  have eb: "e \<in> set ?b"
  proof (cases "calls_tools e")
    case False
    with e decl show ?thesis by (auto simp: batch_enforce_def batch_keep_def)
  qed (rule kept_call [OF e])
  have "subseq ?b (v_events v)" by (auto simp: batch_enforce_def xs intro: subseq_filter_left subseq_order.order_trans)
  then have u: "uniq_enforce ?b = ?b"
    using wf_viewD(3) [OF wf] uniq_scan_subseq by (simp add: uniq_check_def uniq_enforce_def uniq_drop_id)
  have "\<exists>e'. match_event (response_ids ?b) (declared_ids ?b) e = Some e' \<and> ve_id e' = ve_id e"
  proof (rule match_event_keeps)
    assume t: "is_tool e"
    from decl [OF t] obtain i a where "ve_tool_call_id e = Some i" "a \<in> set xs" "calls_tools a" "i \<in> set (tool_call_ids a)"
      by (auto simp: id_in_def declared_iff split: option.splits)
    with kept_call show "id_in (ve_tool_call_id e) (declared_ids ?b)" by (auto simp: declared_iff)
  next
    assume c: "calls_tools e"
    obtain i where i: "i \<in> set (tool_call_ids e)" using wf_viewD(8) [OF wf ev c] by (cases "tool_call_ids e") auto
    from resp [OF e c i] obtain t where t: "t \<in> set xs" "is_tool t" "ve_tool_call_id t = Some i" "i \<noteq> []"
      by (auto simp: response_iff)
    have "i \<in> set (declared_ids xs)" using e c i by (auto simp: declared_iff)
    with t have "t \<in> set ?b" by (simp add: batch_enforce_def batch_keep_def)
    with t have "i \<in> set (response_ids ?b)" unfolding response_iff by blast
    with i show "set (tool_call_ids e) \<inter> set (response_ids ?b) \<noteq> {}" by blast
  qed
  then obtain e' where "match_event (response_ids ?b) (declared_ids ?b) e = Some e'" "ve_id e' = ve_id e" by blast
  with eb have "e' \<in> set (match_enforce ?b)" by (auto simp: match_enforce_def map_filter_def intro!: image_eqI [of _ _ e])
  with \<open>ve_id e' = ve_id e\<close> u show ?thesis by auto
qed

abbreviation enforced :: "vevent list \<Rightarrow> vevent list" where
  "enforced es \<equiv> match_enforce (uniq_enforce (batch_enforce es))"

abbreviation remaining :: "view \<Rightarrow> action \<Rightarrow> vevent list" where
  "remaining v a \<equiv> filter (\<lambda>e. ve_id e \<notin> ca_forgotten a) (v_events v)"

text \<open>The second enforcement finds nothing to do.\<close>

lemma second_enforcement:
  assumes "wf_view v" and "subseq xs (v_events v)"
  shows "map ve_id (enforced (enforced xs)) = map ve_id (enforced xs)"
  by (intro chain_keeps_valid removed_chain_valid [OF wf_viewD(2,6,7) [OF assms(1)] assms(2)] match_enforce_call_ids)

text \<open>The call that a response of the view answers stands before it.\<close>

lemma answered_before:
  assumes "wf_view v" and "i < length (v_events v)" and "is_tool (v_events v ! i)"
  obtains q j where "ve_tool_call_id (v_events v ! i) = Some q" "j < i" "calls_tools (v_events v ! j)"
    "q \<in> set (tool_call_ids (v_events v ! j))" "q \<noteq> []"
proof -
  have "batch_scan [] (v_events v)" using wf_viewD(2) [OF assms(1)] by (simp add: batch_check_def)
  from batch_scan_declarer [OF this assms(2,3)] obtain q j where
    q: "ve_tool_call_id (v_events v ! i) = Some q" "j < i" "calls_tools (v_events v ! j)" "q \<in> set (tool_call_ids (v_events v ! j))"
    by auto
  have "v_events v ! j \<in> set (v_events v)" using q(2) assms(2) by simp
  with q have "q \<in> set (declared_ids (v_events v))" unfolding declared_iff by blast
  with wf_viewD(7) [OF assms(1)] have "q \<noteq> []" by blast
  with q that show thesis by blast
qed

lemma protected_kept:
  assumes wf: "wf_view v" and cache: "cache_ok v" and act: "rolling_condense n v r = Some a" and i: "i < v_keep_first v"
  shows "ve_id (v_events v ! i) \<in> ve_id ` set (enforced (remaining v a))"
proof -
  note s = rolling_condense_Some [OF act] and d = wf_viewD [OF wf]
  have middle: "v_keep_first v \<le> j \<and> \<not> answers (v_events v ! j)" if "j < length (v_events v)" "ve_id (v_events v ! j) \<in> ca_forgotten a" for j
    using forgotten_middle [OF act cache d(1,3,5)] that by blast
  have l: "i < length (v_events v)" using i s(3) by simp
  have kept: "v_events v ! j \<in> set (remaining v a)" if "j \<le> i" for j using middle [of j] that i l by auto
  have "\<exists>e' \<in> set (enforced (remaining v a)). ve_id e' = ve_id (v_events v ! i)"
  proof (rule first_chain_keeps [OF wf refl])
    show "\<not> is_tool e" if "e \<in> set (v_events v)" "ve_id e \<in> ca_forgotten a" for e
    proof
      assume t: "is_tool e"
      from that(1) obtain k where k: "k < length (v_events v)" "v_events v ! k = e" by (auto simp: in_set_conv_nth)
      from answered_before [OF wf k(1)] t k(2) obtain q where "ve_tool_call_id e = Some q" "q \<noteq> []" by auto
      with t middle [OF k(1)] k(2) that(2) show False by simp
    qed
    show "id_in (ve_tool_call_id (v_events v ! i)) (declared_ids (remaining v a))" if t: "is_tool (v_events v ! i)"
    proof -
      from answered_before [OF wf l t] obtain q j where
        q: "ve_tool_call_id (v_events v ! i) = Some q" "j < i" "calls_tools (v_events v ! j)" "q \<in> set (tool_call_ids (v_events v ! j))" .
      then have "q \<in> set (declared_ids (remaining v a))" unfolding declared_iff using kept [of j] by auto
      with q(1) show ?thesis by simp
    qed
  qed (rule kept [OF le_refl])
  then show ?thesis by (metis imageI)
qed

lemma rolling_apply_facts:
  assumes wf: "wf_view v" and cache: "cache_ok v" and act: "rolling_condense n v r = Some a"
  shows "is_valid (apply_action fresh v a) \<and>
    length (v_events (apply_action fresh v a)) < length (v_events v) \<and>
    (\<forall>i < v_keep_first v. ve_id (v_events v ! i) \<in> ve_id ` set (v_events (apply_action fresh v a)))"
proof -
  note d = wf_viewD [OF wf] and s = rolling_condense_Some [OF act]
  let ?xs = "remaining v a"
  have res: "v_events (apply_action fresh v a) = enforced (enforced ?xs)"
    and props: "v_properties (apply_action fresh v a) = default_properties"
    using s(1,4) d(1)
    by (simp_all add: apply_action_def remove_event_ids_def new_view_def enforce_properties_def default_chain)
  have sub: "subseq ?xs (v_events v)" by simp
  note valid = removed_chain_valid [OF d(2,6,7) sub] and ids = second_enforcement [OF wf sub]
  have "ordered_on (set (declared_ids (enforced ?xs))) {} (enforced ?xs)"
    using valid(1) batch_scan_ordered [of "[]" "enforced ?xs"] by (simp add: batch_check_def)
  moreover have "[] \<notin> set (declared_ids (enforced ?xs))" using chain_declared declared_subseq [OF sub] d(7) by blast
  ultimately have "is_valid (apply_action fresh v a)" using chain_valid by (simp add: default_checks [OF props] res)
  moreover have "length (v_events (apply_action fresh v a)) < length (v_events v)"
  proof -
    obtain f where f: "f \<in> ca_forgotten a" using s(4) by blast
    then obtain j where "j < length (v_events v) - n" "f = ve_id (v_events v ! j)" unfolding s(5) by auto
    with f have "length ?xs < length (v_events v)" by (intro length_filter_less [of "v_events v ! j"]) simp_all
    moreover have "length (enforced (enforced ?xs)) \<le> length ?xs"
      using ids enforce_chain_subseq [OF default_props_ok, of ?xs] length_subseq by (metis default_chain length_map)
    ultimately show ?thesis by (simp add: res)
  qed
  moreover have "ve_id ` set (enforced (enforced ?xs)) = ve_id ` set (enforced ?xs)"
    using arg_cong [OF ids, of set] by (simp only: list.set_map)
  then have "\<forall>i < v_keep_first v. ve_id (v_events v ! i) \<in> ve_id ` set (v_events (apply_action fresh v a))"
    using protected_kept [OF wf cache act] unfolding res by blast
  ultimately show ?thesis by blast
qed

text \<open>C10: applying the rolling condenser to a well-formed view gives a valid, strictly smaller view in
  which every event of the protected zone is still present, although the enforcement runs twice.\<close>

theorem rolling_apply_correct:
  assumes "wf_view v" "cache_ok v" "rolling_condense n v r = Some a"
  shows "is_valid (apply_action fresh v a) \<and>
    length (v_events (apply_action fresh v a)) < length (v_events v) \<and>
    (\<forall>i < v_keep_first v. ve_id (v_events v ! i) \<in> ve_id ` set (v_events (apply_action fresh v a)))"
  by (rule rolling_apply_facts [OF assms])

definition rolling_demo :: action where
  "rolling_demo = \<lparr>ca_forgotten = {''u''}, ca_summary = None, ca_reason = TOKENS\<rparr>"

lemma demo_wf: "wf_view demo_view" "cache_ok demo_view"
proof -
  have "response_ids demo_events = [''c1'', ''c2'', ''c3'']" "declared_ids demo_events = [''c1'', ''c2'', ''c3'']"
    by (simp_all add: demo_events_def)
  then have "match_check demo_events" by (simp add: match_check_def)
  moreover have "batch_check demo_events" "uniq_check demo_events"
    by (simp_all add: demo_events_def batch_check_def uniq_check_def Let_def)
  moreover have "v_properties demo_view = default_properties" "v_events demo_view = demo_events"
    by (simp_all add: demo_view_def new_view_def)
  ultimately show "wf_view demo_view"
    by (simp add: wf_view_def default_checks) (simp add: demo_events_def)
  show "cache_ok demo_view" by (simp add: demo_view_def)
qed

theorem rolling_apply_correct_witness:
  "\<exists>a. rolling_condense 6 demo_view TOKENS = Some a \<and> is_valid (apply_action ''x'' demo_view a) \<and>
       length (v_events (apply_action ''x'' demo_view a)) < 8"
proof -
  have e: "v_events demo_view = demo_events" "v_keep_first demo_view = 1" "v_properties demo_view = default_properties"
    by (simp_all add: demo_view_def new_view_def)
  have "1 \<in> standalone_indices (v_events demo_view)"
    by (simp add: e standalone_indices_def) (simp add: demo_events_def)
  then have "1 \<in> fst (manipulation_indices demo_view)"
    by (intro standalone_manipulable) (simp_all add: e demo_wf)
  then have "1 \<in> {1..<2} \<inter> fst (manipulation_indices demo_view)" by simp
  then have "{1..<2} \<inter> fst (manipulation_indices demo_view) \<noteq> {}" by blast
  moreover have l: "length (v_events demo_view) = 8" by (simp add: e demo_events_def)
  ultimately obtain a where a: "rolling_condense 6 demo_view TOKENS = Some a"
    using rolling_condense_eq [of 6 demo_view TOKENS] by (simp add: Let_def e(2))
  from rolling_apply_correct [OF demo_wf a, of "''x''"] a l show ?thesis by auto
qed

section \<open>Applying a summary\<close>

lemma uniq_scan_append_plain:
  "\<not> answers e \<Longrightarrow> uniq_scan seen (es @ [e]) = uniq_scan seen es"
  by (induction seen es rule: uniq_scan.induct) (auto simp: Let_def)

text \<open>Enforcement never touches a user message at the end.\<close>

lemma enforce_chain_user_last:
  assumes "ve_role e = UserRole"
  shows "\<exists>es'. match_enforce (uniq_enforce (batch_enforce (es @ [e]))) = es' @ [e]"
proof -
  have plain: "\<not> is_tool e" "\<not> is_assistant e" using assms by (simp_all add: is_tool_def is_assistant_def)
  have b: "\<exists>es'. batch_enforce (ys @ [e]) = es' @ [e]" for ys
    using plain by (simp add: batch_enforce_def batch_keep_def)
  have u: "\<exists>es'. uniq_drop seen (ys @ [e]) = es' @ [e]" for seen ys
  proof (induction seen ys rule: uniq_drop.induct)
    case (2 seen y ys)
    then show ?case by (auto simp: Let_def)
  qed (use plain in simp)
  have m: "\<exists>es'. match_enforce (ys @ [e]) = es' @ [e]" for ys
    using plain by (simp add: match_enforce_def map_filter_def match_event_def)
  obtain b' where "batch_enforce (es @ [e]) = b' @ [e]" using b by blast
  moreover obtain u' where "uniq_enforce (b' @ [e]) = u' @ [e]" using u by (auto simp: uniq_enforce_def)
  ultimately show ?thesis using m by simp
qed

text \<open>against its description, the summary of an action does not take the place of the forgotten
  events: \<open>apply\<close> leaves it as the last message of the view, after the most recent user message.\<close>

theorem summary_is_last:
  assumes "v_properties v = default_properties" and "ca_summary a = Some t" and "t \<noteq> []"
  shows "v_events (apply_action fresh v a) \<noteq> [] \<and> last (v_events (apply_action fresh v a)) = user_event fresh t"
proof -
  let ?w = "add_event (user_event fresh t) (remove_event_ids (ca_forgotten a) v)"
  have "v_properties ?w = default_properties"
    using assms(1) by (simp add: add_event_def remove_event_ids_def enforce_properties_def new_view_def)
  moreover obtain es where "v_events ?w = es @ [user_event fresh t]" by (simp add: add_event_def)
  ultimately obtain es' where "v_events (enforce_properties ?w) = es' @ [user_event fresh t]"
    using enforce_chain_user_last [of "user_event fresh t" es] by (auto simp: enforce_events user_event_def)
  with assms(2,3) show ?thesis by (simp add: apply_action_def Let_def)
qed

theorem summary_is_last_witness:
  "last (v_events (apply_action ''x'' demo_view
     \<lparr>ca_forgotten = {''u''}, ca_summary = Some ''earlier'', ca_reason = TOKENS\<rparr>)) = user_event ''x'' ''earlier''"
  by (rule summary_is_last [THEN conjunct2]) (simp_all add: demo_view_def new_view_def)

section \<open>The pipeline's merged action\<close>

text \<open>The action one condenser takes on a view with the view it leads to, and the actions the pipeline
  takes, in order.\<close>

definition taken :: "condenser \<Rightarrow> view \<Rightarrow> reason \<Rightarrow> (action \<times> view) option" where
  "taken c v reason =
     (case (cd_should c v, cd_condense c v reason) of
        (Inr True, Inr (Some a)) \<Rightarrow> (case cd_apply c v a of Inl _ \<Rightarrow> None | Inr v' \<Rightarrow> Some (a, v'))
      | _ \<Rightarrow> None)"

fun pipeline_actions :: "bool \<Rightarrow> reason \<Rightarrow> condenser list \<Rightarrow> view \<Rightarrow> action list" where
  "pipeline_actions stop reason [] v = []"
| "pipeline_actions stop reason (c # cs) v =
     (case taken c v reason of
        None \<Rightarrow> pipeline_actions stop reason cs v
      | Some (a, v') \<Rightarrow> a # (if stop then [] else pipeline_actions stop reason cs v'))"

definition pipeline_step :: "action \<Rightarrow> view \<Rightarrow> pipeline_state \<Rightarrow> pipeline_state" where
  "pipeline_step a v s =
     \<lparr>ps_view = v, ps_forgotten = ps_forgotten s \<union> ca_forgotten a,
      ps_summary = (if truthy (ca_summary a) then ca_summary a else ps_summary s),
      ps_reason = ca_reason a, ps_actions = Suc (ps_actions s)\<rparr>"

lemma pipeline_run_Cons:
  "pipeline_run stop reason (c # cs) s =
     (case taken c (ps_view s) reason of
        None \<Rightarrow> pipeline_run stop reason cs s
      | Some (a, v) \<Rightarrow> if stop then pipeline_step a v s else pipeline_run stop reason cs (pipeline_step a v s))"
  by (simp add: taken_def pipeline_step_def Let_def split: sum.split option.split bool.split)

fun last_summary :: "string option \<Rightarrow> action list \<Rightarrow> string option" where
  "last_summary t [] = t"
| "last_summary t (a # as) = last_summary (if truthy (ca_summary a) then ca_summary a else t) as"

lemma pipeline_run_actions:
  "ps_forgotten (pipeline_run stop reason cs s) =
     ps_forgotten s \<union> \<Union> (ca_forgotten ` set (pipeline_actions stop reason cs (ps_view s)))"
  by (induction cs arbitrary: s)
     (auto simp: pipeline_run_Cons pipeline_step_def simp del: pipeline_run.simps(2) split: option.split)

lemma pipeline_run_summary:
  "ps_summary (pipeline_run stop reason cs s) = last_summary (ps_summary s) (pipeline_actions stop reason cs (ps_view s))"
  by (induction cs arbitrary: s)
     (auto simp: pipeline_run_Cons pipeline_step_def simp del: pipeline_run.simps(2) split: option.split)

lemma pipeline_run_reason:
  "ps_reason (pipeline_run stop reason cs s) =
     (if pipeline_actions stop reason cs (ps_view s) = [] then ps_reason s
      else ca_reason (last (pipeline_actions stop reason cs (ps_view s))))"
  by (induction cs arbitrary: s)
     (auto simp: pipeline_run_Cons pipeline_step_def simp del: pipeline_run.simps(2) split: option.split)

lemma pipeline_stop_first: "length (pipeline_actions True reason cs v) \<le> 1"
  by (induction cs) (auto split: option.split)

text \<open>the pipeline's result is the merge of the actions its condensers took, failing and idle
  condensers contributing nothing: all forgotten ids and the last summary.  But when those actions
  forget nothing the result is \<open>None\<close>, so a summary produced alone is lost.\<close>

theorem pipeline_merges:
  "pipeline_condense stop cs v reason =
    (let as = pipeline_actions stop reason cs v; ids = \<Union> (ca_forgotten ` set as) in
     if ids = {} then None
     else Some \<lparr>ca_forgotten = ids, ca_summary = last_summary None as, ca_reason = ca_reason (last as)\<rparr>)"
proof (cases "cs = []")
  case False
  then show ?thesis
    unfolding pipeline_condense_def Let_def pipeline_run_actions pipeline_run_summary pipeline_run_reason by auto
qed (simp add: pipeline_condense_def)

end
