(* ===== verification/Py_Text.thy ===== *)
theory Py_Text
  imports Prelude
begin

text \<open>
  The string methods the program uses, on text whose code points are below 256, and the decimal text of
  integers.
\<close>

definition newline :: string where "newline = [CHR 0x0A]"

fun join :: "string \<Rightarrow> string list \<Rightarrow> string" where
  "join sep [] = []"
| "join sep [x] = x"
| "join sep (x # y # zs) = x @ sep @ join sep (y # zs)"

lemma join_Cons: "xs \<noteq> [] \<Longrightarrow> join sep (x # xs) = x @ sep @ join sep xs"
  by (cases xs) simp_all

text \<open>White space as \<open>str.isspace\<close>, \<open>str.split()\<close> and \<open>str.strip()\<close> see it.\<close>

definition is_space :: "char \<Rightarrow> bool" where
  "is_space c \<longleftrightarrow> (let n = of_char c :: nat in 9 \<le> n \<and> n \<le> 13 \<or> 28 \<le> n \<and> n \<le> 32 \<or> n \<in> {133, 160})"

definition strip :: "string \<Rightarrow> string" where
  "strip s = rev (dropWhile is_space (rev (dropWhile is_space s)))"

lemma strip_ne: "x \<in> set s \<Longrightarrow> \<not> is_space x \<Longrightarrow> strip s \<noteq> []"
proof
  assume x: "x \<in> set s" "\<not> is_space x" and "strip s = []"
  hence "dropWhile is_space (rev (dropWhile is_space s)) = []" by (simp add: strip_def)
  hence all: "\<forall>y \<in> set (dropWhile is_space s). is_space y" by simp
  have "dropWhile is_space s \<noteq> []" using x by (auto simp: dropWhile_eq_Nil_conv)
  thus False using all hd_dropWhile [of is_space s] hd_in_set by blast
qed

text \<open>\<open>str.split()\<close>: the maximal runs of characters that are no white space.\<close>

fun split_words :: "string \<Rightarrow> string \<Rightarrow> string list" where
  "split_words w [] = (if w = [] then [] else [w])"
| "split_words w (c # cs) =
     (if is_space c then (if w = [] then split_words [] cs else w # split_words [] cs)
      else split_words (w @ [c]) cs)"

definition is_line_break :: "char \<Rightarrow> bool" where
  "is_line_break c \<longleftrightarrow> (let n = of_char c :: nat in 10 \<le> n \<and> n \<le> 13 \<or> 28 \<le> n \<and> n \<le> 30 \<or> n = 133)"

text \<open>\<open>str.splitlines()\<close>, but with an empty line inside a carriage return and line feed.\<close>

fun split_lines :: "string \<Rightarrow> string \<Rightarrow> string list" where
  "split_lines w [] = (if w = [] then [] else [w])"
| "split_lines w (c # cs) = (if is_line_break c then w # split_lines [] cs else split_lines (w @ [c]) cs)"

definition is_digit :: "char \<Rightarrow> bool" where
  "is_digit c \<longleftrightarrow> (let n = of_char c :: nat in 48 \<le> n \<and> n \<le> 57)"

definition is_letter :: "char \<Rightarrow> bool" where
  "is_letter c \<longleftrightarrow> (let n = of_char c :: nat in 65 \<le> n \<and> n \<le> 90 \<or> 97 \<le> n \<and> n \<le> 122)"

text \<open>The rest of a text that starts with a given one.\<close>

definition after_prefix :: "string \<Rightarrow> string \<Rightarrow> string option" where
  "after_prefix p s = (if take (length p) s = p then Some (drop (length p) s) else None)"

lemma after_prefix_append [simp]: "after_prefix p (p @ s) = Some s"
  by (simp add: after_prefix_def)

lemma after_prefix_SomeD: "after_prefix p s = Some r \<Longrightarrow> s = p @ r"
  by (metis after_prefix_def append_take_drop_id option.distinct(1) option.inject)

lemma after_prefix_length: "after_prefix p s = Some r \<Longrightarrow> length r \<le> length s"
  by (auto dest: after_prefix_SomeD)

definition rstrip :: "string \<Rightarrow> string" where
  "rstrip s = rev (dropWhile is_space (rev s))"

definition lower :: "string \<Rightarrow> string" where
  "lower = map lower_char"

text \<open>The text before and after the first place where a matcher succeeds.\<close>

fun split_by :: "(string \<Rightarrow> string option) \<Rightarrow> string \<Rightarrow> (string \<times> string) option" where
  "split_by m [] = map_option (\<lambda>r. ([], r)) (m [])"
| "split_by m (c # cs) =
     (case m (c # cs) of
        Some r \<Rightarrow> Some ([], r)
      | None \<Rightarrow> map_option (\<lambda>(a, r). (c # a, r)) (split_by m cs))"

lemma split_by_length:
  assumes "\<And>u r. m u = Some r \<Longrightarrow> length r \<le> length u" "split_by m s = Some (a, r)"
  shows "length r \<le> length s"
  using assms(2)
proof (induction s arbitrary: a)
  case (Cons c cs)
  show ?case
  proof (cases "m (c # cs)")
    case None
    thus ?thesis using Cons by force
  qed (use Cons.prems assms(1) in fastforce)
qed (use assms(1) [of "[]"] in auto)

lemma dropWhile_Cons_length: "dropWhile P s = c # r \<Longrightarrow> length r < length s"
  using length_dropWhile_le [of P s] by simp

lemma split_by_here: "m s = Some r \<Longrightarrow> split_by m s = Some ([], r)"
  by (cases s) simp_all

lemma split_by_later:
  "(\<And>t u. a = t @ u \<Longrightarrow> u \<noteq> [] \<Longrightarrow> m (u @ s) = None) \<Longrightarrow> m s = Some r \<Longrightarrow> split_by m (a @ s) = Some (a, r)"
proof (induction a)
  case (Cons c a)
  have "m ((c # a) @ s) = None" by (rule Cons.prems(1) [of "[]"]) simp_all
  moreover have "split_by m (a @ s) = Some (a, r)"
    using Cons.prems(1) [of "c # _"] Cons.prems(2) by (intro Cons.IH) auto
  ultimately show ?case by simp
qed (simp add: split_by_here)

lemma takeWhile_stop: "r = [] \<or> \<not> P (hd r) \<Longrightarrow> takeWhile P (xs @ r) = takeWhile P xs"
  by (induction xs) (cases r, auto)

lemma takeWhile_stop_all: "\<forall>x \<in> set xs. P x \<Longrightarrow> r = [] \<or> \<not> P (hd r) \<Longrightarrow> takeWhile P (xs @ r) = xs"
  by (cases r) auto

lemma hd_append_ne: "xs \<noteq> [] \<Longrightarrow> hd (xs @ ys) = hd xs"
  by simp

subsection \<open>Decimal text\<close>

definition read_nat :: "string \<Rightarrow> nat" where
  "read_nat s = foldl (\<lambda>n c. 10 * n + (of_char c - 48)) 0 s"

definition show_int :: "int \<Rightarrow> string" where
  "show_int i = (if i < 0 then CHR ''-'' # show_nat (nat (- i)) else show_nat (nat i))"

lemma read_nat_snoc: "read_nat (s @ [c]) = 10 * read_nat s + (of_char c - 48)"
  by (simp add: read_nat_def)

lemma read_show_nat [simp]: "read_nat (show_nat n) = n"
proof (induction n rule: show_nat.induct)
  case (1 n)
  show ?case
  proof (cases "n < 10")
    case True
    thus ?thesis by (simp add: show_nat.simps [of n] read_nat_def of_char_of take_bit_eq_mod)
  next
    case False
    hence "read_nat (show_nat (n div 10)) = n div 10" using 1 by simp
    moreover have "(48 + n mod 10) mod 256 = 48 + n mod 10" by (simp add: mod_less)
    ultimately show ?thesis using False
      by (simp add: show_nat.simps [of n] read_nat_snoc of_char_of take_bit_eq_mod)
  qed
qed

lemma digit_char: "k < 10 \<Longrightarrow> is_digit (char_of (48 + k :: nat))"
  by (simp add: is_digit_def of_char_of take_bit_eq_mod)

lemma show_nat_digits: "\<forall>c \<in> set (show_nat n). is_digit c"
proof (induction n rule: show_nat.induct)
  case (1 n)
  thus ?case using digit_char [of n] digit_char [of "n mod 10"] by (auto simp: show_nat.simps [of n])
qed

lemma show_nat_leading: "hd (show_nat n) = CHR ''0'' \<Longrightarrow> show_nat n = ''0''"
proof (induction n rule: show_nat.induct)
  case (1 n)
  show ?case
  proof (cases "n < 10")
    case True
    thus ?thesis using "1.prems" by (simp add: show_nat.simps [of n])
  next
    case False
    hence "show_nat (n div 10) = ''0''" using 1 by (simp add: show_nat.simps [of n])
    hence "read_nat (show_nat (n div 10)) = 0" by (simp add: read_nat_def)
    hence "n div 10 = 0" by simp
    thus ?thesis using False by simp
  qed
qed

end
