(* ===== verification/Event_Log.thy ===== *)
theory Event_Log
  imports Py_Text
begin

text \<open>
  \<open>app/events/event_log.py\<close>: the append-only log as the text of its \<open>.jsonl\<close> file, the \<open>.count\<close>
  file and the count in memory.  Serialization is the pair of parameters \<open>ser\<close> and \<open>des\<close>, which the theory
  \<open>Events\<close> provides; \<open>des\<close> is \<open>None\<close> where DeserializationError is raised.  A replaced file is written at once, as
  \<open>os.replace\<close> does.
\<close>

record elog =
  el_file :: "string option"
  el_count_file :: "nat option"
  el_count :: nat
  el_appended :: nat
  el_read_errors :: nat

datatype log_error = IndexErr | ReadErr

section \<open>Lines\<close>

text \<open>The boundaries of \<open>str.splitlines\<close> below code point 256.\<close>

definition is_break :: "char \<Rightarrow> bool" where
  "is_break c \<longleftrightarrow> (of_char c :: nat) \<in> {10, 11, 12, 13, 28, 29, 30, 133}"

definition line_feed :: char where "line_feed = char_of (10 :: nat)"

fun split_lines :: "string \<Rightarrow> string list" where
  "split_lines [] = [[]]"
| "split_lines (c # cs) =
     (if is_break c then [] # split_lines cs
      else case split_lines cs of [] \<Rightarrow> [[c]] | l # ls \<Rightarrow> (c # l) # ls)"

definition non_empty_lines :: "string \<Rightarrow> string list" where
  "non_empty_lines text = filter (\<lambda>l. strip l \<noteq> []) (split_lines text)"

section \<open>Reading\<close>

definition file_text :: "elog \<Rightarrow> string" where
  "file_text l = (case el_file l of None \<Rightarrow> [] | Some c \<Rightarrow> c)"

text \<open>The loop of \<open>_read_range\<close>: corrupted lines are skipped and counted.\<close>

fun parse_lines :: "(string \<Rightarrow> 'e option) \<Rightarrow> string list \<Rightarrow> 'e list \<times> nat" where
  "parse_lines des [] = ([], 0)"
| "parse_lines des (x # xs) =
     (let (es, n) = parse_lines des xs in
      case des (strip x) of None \<Rightarrow> (es, Suc n) | Some e \<Rightarrow> (e # es, n))"

definition read_range :: "(string \<Rightarrow> 'e option) \<Rightarrow> nat \<Rightarrow> nat \<Rightarrow> elog \<Rightarrow> 'e list \<times> elog" where
  "read_range des a b l =
     (case el_file l of
        None \<Rightarrow> ([], l)
      | Some raw \<Rightarrow>
          let ls = non_empty_lines raw; total = length ls; b' = min b total in
          if total \<le> a \<or> b' \<le> a then ([], l)
          else let (es, n) = parse_lines des (take (b' - a) (drop a ls))
               in (es, l\<lparr>el_read_errors := el_read_errors l + n\<rparr>))"

definition get :: "(string \<Rightarrow> 'e option) \<Rightarrow> int \<Rightarrow> elog \<Rightarrow> log_error + 'e" where
  "get des i l =
     (let j = (if i < 0 then int (el_count l) + i else i) in
      if j < 0 \<or> int (el_count l) \<le> j then Inl IndexErr
      else case fst (read_range des (nat j) (nat j + 1) l) of [] \<Rightarrow> Inl IndexErr | e # _ \<Rightarrow> Inr e)"

definition get_range :: "(string \<Rightarrow> 'e option) \<Rightarrow> int \<Rightarrow> int option \<Rightarrow> elog \<Rightarrow> 'e list" where
  "get_range des start end_opt l =
     (let n = int (el_count l); e0 = (case end_opt of None \<Rightarrow> n | Some e \<Rightarrow> e);
          s = (if start < 0 then max 0 (n + start) else start);
          e = (if e0 < 0 then max 0 (n + e0) else e0)
      in if e < s then [] else if n \<le> s then [] else fst (read_range des (nat s) (nat (min e n)) l))"

definition get_last :: "(string \<Rightarrow> 'e option) \<Rightarrow> int \<Rightarrow> elog \<Rightarrow> 'e list" where
  "get_last des n l =
     (if n \<le> 0 then [] else fst (read_range des (el_count l - nat n) (el_count l) l))"

definition find_by_id :: "(string \<Rightarrow> 'e option) \<Rightarrow> ('e \<Rightarrow> string) \<Rightarrow> string \<Rightarrow> elog \<Rightarrow> 'e option" where
  "find_by_id des eid i l = find (\<lambda>e. eid e = i) (get_range des 0 None l)"

definition find_by :: "(string \<Rightarrow> 'e option) \<Rightarrow> ('e \<Rightarrow> string) \<Rightarrow> string \<Rightarrow> elog \<Rightarrow> 'e list" where
  "find_by des field x l = filter (\<lambda>e. field e = x) (get_range des 0 None l)"

section \<open>Writing\<close>

definition open_log :: "string option \<Rightarrow> nat option \<Rightarrow> elog" where
  "open_log file cnt = \<lparr>el_file = file, el_count_file = cnt,
     el_count = (case cnt of None \<Rightarrow> 0 | Some n \<Rightarrow> n), el_appended = 0, el_read_errors = 0\<rparr>"

definition set_count :: "nat \<Rightarrow> elog \<Rightarrow> elog" where
  "set_count n l = l\<lparr>el_count := n, el_count_file := Some n\<rparr>"

text \<open>The two writes of \<open>append\<close>: the log file, then the count.\<close>

definition append_line :: "string \<Rightarrow> elog \<Rightarrow> elog" where
  "append_line line l =
     l\<lparr>el_file := Some (file_text l @ (if line \<noteq> [] \<and> last line = line_feed then line else line @ [line_feed]))\<rparr>"

definition append :: "('e \<Rightarrow> string) \<Rightarrow> 'e \<Rightarrow> elog \<Rightarrow> elog" where
  "append ser e l =
     (let l1 = append_line (ser e) l; l2 = set_count (el_count l1 + 1) l1
      in l2\<lparr>el_appended := el_appended l2 + 1\<rparr>)"

fun join_lines :: "string list \<Rightarrow> string" where
  "join_lines [] = []"
| "join_lines [x] = x"
| "join_lines (x # xs) = x @ line_feed # join_lines xs"

definition append_batch :: "('e \<Rightarrow> string) \<Rightarrow> 'e list \<Rightarrow> elog \<Rightarrow> elog" where
  "append_batch ser es l =
     (let content = join_lines (map ser es);
          content' = (if content \<noteq> [] \<and> last content \<noteq> line_feed then content @ [line_feed] else content);
          l1 = l\<lparr>el_file := Some (file_text l @ content')\<rparr>;
          l2 = set_count (el_count l1 + length es) l1
      in l2\<lparr>el_appended := el_appended l2 + length es\<rparr>)"

definition reindex :: "elog \<Rightarrow> nat \<times> elog" where
  "reindex l = (let n = (case el_file l of None \<Rightarrow> 0 | Some raw \<Rightarrow> length (non_empty_lines raw)) in (n, set_count n l))"

definition truncate :: "('e \<Rightarrow> string) \<Rightarrow> (string \<Rightarrow> 'e option) \<Rightarrow> int \<Rightarrow> elog \<Rightarrow> nat \<times> elog" where
  "truncate ser des keep_last l =
     (if int (el_count l) \<le> keep_last then (0, l)
      else if keep_last \<le> 0 then
        (let l1 = set_count 0 (l\<lparr>el_file := Some []\<rparr>) in (el_count l1, l1))
      else
        (let k = nat keep_last; (kept, l1) = read_range des (el_count l - k) (el_count l) l;
             content = join_lines (map ser kept);
             content' = (if content \<noteq> [] then content @ [line_feed] else content);
             old = el_count l1; l2 = set_count k (l1\<lparr>el_file := Some content'\<rparr>)
         in (old - k, l2)))"

section \<open>The text of a list of events\<close>

text \<open>
  What the log needs of serialization: parsing gives the event back, and a serialized event is one
  non-blank line without surrounding blanks, as compact JSON with escaped control characters is.
\<close>

definition codec_ok :: "('e \<Rightarrow> string) \<Rightarrow> (string \<Rightarrow> 'e option) \<Rightarrow> bool" where
  "codec_ok ser des \<longleftrightarrow> (\<forall>e. des (ser e) = Some e \<and> ser e \<noteq> [] \<and> strip (ser e) = ser e \<and>
     (\<forall>c \<in> set (ser e). \<not> is_break c))"

definition text_of :: "('e \<Rightarrow> string) \<Rightarrow> 'e list \<Rightarrow> string" where
  "text_of ser es = concat (map (\<lambda>e. ser e @ [line_feed]) es)"

lemma newline_break [simp]: "is_break line_feed"
  by (simp add: is_break_def line_feed_def)

lemma text_of_simps [simp]:
  "text_of ser [] = []" "text_of ser (e # es) = ser e @ line_feed # text_of ser es"
  "text_of ser (es @ fs) = text_of ser es @ text_of ser fs"
  by (simp_all add: text_of_def)

lemma split_lines_not_Nil: "split_lines t \<noteq> []"
  by (induction t) (auto split: list.split)

lemma split_lines_line:
  "\<forall>c \<in> set x. \<not> is_break c \<Longrightarrow> split_lines (x @ line_feed # t) = x # split_lines t"
  by (induction x) (auto split: list.split)

lemma non_empty_text:
  assumes "codec_ok ser des"
  shows "non_empty_lines (text_of ser es) = map ser es"
proof (induction es)
  case Nil
  show ?case by (simp add: non_empty_lines_def strip_def)
next
  case (Cons e es)
  have "split_lines (text_of ser (e # es)) = ser e # split_lines (text_of ser es)"
    using assms by (simp add: codec_ok_def split_lines_line)
  moreover have "strip (ser e) \<noteq> []" using assms by (simp add: codec_ok_def)
  ultimately show ?case using Cons by (simp add: non_empty_lines_def)
qed

lemma ser_last: "codec_ok ser des \<Longrightarrow> ser e \<noteq> [] \<and> last (ser e) \<noteq> line_feed"
  by (metis codec_ok_def last_in_set newline_break)

lemma parse_serialized: "codec_ok ser des \<Longrightarrow> parse_lines des (map ser es) = (es, 0)"
  by (induction es) (auto simp: codec_ok_def)

lemma join_text: "es \<noteq> [] \<Longrightarrow> join_lines (map ser es) @ [line_feed] = text_of ser es"
  by (induction es rule: induct_list012) simp_all

lemma join_nonempty:
  assumes "codec_ok ser des" and "es \<noteq> []"
  shows "join_lines (map ser es) \<noteq> [] \<and> last (join_lines (map ser es)) \<noteq> line_feed"
  using assms(2)
proof (induction es rule: induct_list012)
  case (2 e)
  then show ?case using ser_last [OF assms(1)] by simp
next
  case (3 e f es)
  then show ?case by simp
qed simp

section \<open>Refinement to a list of events\<close>

definition represents :: "('e \<Rightarrow> string) \<Rightarrow> elog \<Rightarrow> 'e list \<Rightarrow> bool" where
  "represents ser l es \<longleftrightarrow> file_text l = text_of ser es \<and> el_count l = length es \<and>
     (el_count_file l = Some (length es) \<or> (el_count_file l = None \<and> es = []))"

lemma read_range_represents:
  assumes "codec_ok ser des" and "file_text l = text_of ser es"
  shows "read_range des a b l = (take (min b (length es) - a) (drop a es), l)"
proof (cases "el_file l")
  case None
  with assms(2) have "es = []" by (cases es) (simp_all add: file_text_def)
  with None show ?thesis by (simp add: read_range_def)
next
  case (Some raw)
  with assms(2) have "non_empty_lines raw = map ser es"
    using non_empty_text [OF assms(1)] by (simp add: file_text_def)
  with Some parse_serialized [OF assms(1)] show ?thesis
    by (simp add: read_range_def Let_def take_map drop_map)
qed

lemma get_range_represents:
  assumes "codec_ok ser des" and "file_text l = text_of ser es" and "el_count l \<le> length es"
  shows "get_range des a None l =
    (let s = nat (if a < 0 then max 0 (int (el_count l) + a) else a) in take (el_count l - s) (drop s es))"
proof -
  let ?n = "int (el_count l)" and ?s = "if a < 0 then max 0 (int (el_count l) + a) else a"
  have "get_range des a None l = (if ?n \<le> ?s then [] else fst (read_range des (nat ?s) (nat ?n) l))"
    unfolding get_range_def Let_def by auto
  also have "\<dots> = take (el_count l - nat ?s) (drop (nat ?s) es)"
  proof (cases "?n \<le> ?s")
    case True
    then have "el_count l - nat ?s = 0" by linarith
    with True show ?thesis by simp
  next
    case False
    then show ?thesis using assms(3) unfolding read_range_represents [OF assms(1,2)] by simp
  qed
  finally show ?thesis by (simp add: Let_def)
qed

lemma append_represents:
  "codec_ok ser des \<Longrightarrow> represents ser l es \<Longrightarrow> represents ser (append ser e l) (es @ [e])"
  using ser_last [of ser des e]
  by (simp add: represents_def append_def append_line_def set_count_def file_text_def)

lemma append_batch_represents:
  assumes "codec_ok ser des" and "represents ser l es"
  shows "represents ser (append_batch ser fs l) (es @ fs)"
proof (cases "fs = []")
  case True
  with assms(2) show ?thesis
    by (simp add: represents_def append_batch_def set_count_def file_text_def Let_def)
next
  case False
  with assms join_nonempty [OF assms(1) False] join_text [OF False] show ?thesis
    by (simp add: represents_def append_batch_def set_count_def file_text_def Let_def)
qed

lemma reindex_represents:
  assumes "codec_ok ser des" and "file_text l = text_of ser es"
  shows "fst (reindex l) = length es \<and> represents ser (snd (reindex l)) es"
proof (cases "el_file l")
  case None
  with assms(2) have "es = []" by (cases es) (simp_all add: file_text_def)
  with None assms(2) show ?thesis by (simp add: reindex_def represents_def set_count_def file_text_def)
next
  case (Some raw)
  with assms(2) have "non_empty_lines raw = map ser es"
    using non_empty_text [OF assms(1)] by (simp add: file_text_def)
  with Some assms(2) show ?thesis by (simp add: reindex_def represents_def set_count_def file_text_def Let_def)
qed


text \<open>truncation keeps exactly the last events and reports how many it removed, except that
  truncating to empty reports 0: the count is cleared before it is read.\<close>

theorem truncate_correct:
  assumes "codec_ok ser des" and "represents ser l es"
  shows "represents ser (snd (truncate ser des k l)) (if k \<le> 0 then [] else py_last (nat k) es) \<and>
    fst (truncate ser des k l) = (if k \<le> 0 then 0 else length es - nat k)"
proof -
  have n: "el_count l = length es" and tx: "file_text l = text_of ser es"
    using assms(2) by (simp_all add: represents_def)
  note rr = read_range_represents [OF assms(1) tx]
  consider (all) "int (length es) \<le> k" | (none) "k < int (length es)" "k \<le> 0"
    | (some) "k < int (length es)" "0 < k" by linarith
  then show ?thesis
  proof cases
    case all
    then have "length es \<le> nat k" by simp
    with all assms(2) n show ?thesis by (cases "es = []") (auto simp: truncate_def)
  next
    case none
    then show ?thesis by (simp add: truncate_def n Let_def set_count_def represents_def file_text_def)
  next
    case some
    let ?ks = "py_last (nat k) es"
    have k: "nat k < length es" "nat k \<noteq> 0" using some by auto
    then have ne: "?ks \<noteq> []" by (auto simp: py_last_def)
    have kept: "read_range des (length es - nat k) (length es) l = (?ks, l)" by (simp add: rr py_last_def)
    have "truncate ser des k l =
        (length es - nat k, set_count (nat k) (l\<lparr>el_file := Some (text_of ser ?ks)\<rparr>))"
      using some join_nonempty [OF assms(1) ne] join_text [OF ne, of ser]
      by (simp add: truncate_def n kept Let_def)
    with some k show ?thesis by (simp add: represents_def set_count_def file_text_def)
  qed
qed

text \<open>A crash between the two writes of \<open>append\<close>, then a restart.\<close>

definition crash_in_append :: "('e \<Rightarrow> string) \<Rightarrow> 'e \<Rightarrow> elog \<Rightarrow> elog" where
  "crash_in_append ser e l =
     (let l1 = append_line (ser e) l in open_log (el_file l1) (el_count_file l1))"

lemma stale_append:
  "codec_ok ser des \<Longrightarrow> file_text l = text_of ser es \<Longrightarrow>
     file_text (append ser e l) = text_of ser (es @ [e]) \<and> el_count (append ser e l) = Suc (el_count l)"
  using ser_last [of ser des e] by (simp add: append_def append_line_def set_count_def file_text_def Let_def)

lemma stale_appends:
  assumes "codec_ok ser des"
  shows "file_text l = text_of ser es \<Longrightarrow>
     file_text (fold (append ser) fs l) = text_of ser (es @ fs) \<and>
     el_count (fold (append ser) fs l) = el_count l + length fs"
proof (induction fs arbitrary: l es)
  case (Cons f fs)
  note s = stale_append [OF assms Cons.prems, of f]
  from Cons.IH [OF conjunct1 [OF s]] s show ?case by simp
qed simp

text \<open>after a crash between the log write and the count write the log is behind by one: every event
  appended later is hidden by the one before it until \<open>reindex\<close>, which recovers all of them.\<close>

theorem crash_hides_last_event:
  assumes "codec_ok ser des" and "represents ser l es"
  shows "get_range des 0 None (fold (append ser) fs (crash_in_append ser e l)) = butlast (es @ e # fs) \<and>
    get_range des 0 None (snd (reindex (fold (append ser) fs (crash_in_append ser e l)))) = es @ e # fs"
proof -
  let ?c = "crash_in_append ser e l" and ?l = "fold (append ser) fs (crash_in_append ser e l)"
  have "file_text ?c = text_of ser (es @ [e])" and "el_count ?c = length es"
    using assms(2) ser_last [OF assms(1), of e]
    by (auto simp: crash_in_append_def append_line_def open_log_def represents_def file_text_def Let_def)
  with stale_appends [OF assms(1), of ?c "es @ [e]" fs]
  have t: "file_text ?l = text_of ser (es @ e # fs)" and n: "el_count ?l = length es + length fs" by simp_all
  have "get_range des 0 None ?l = take (length es + length fs) (es @ e # fs)"
    using get_range_represents [OF assms(1) t, of 0] by (simp add: n Let_def)
  also have "\<dots> = butlast (es @ e # fs)" by (simp add: butlast_conv_take)
  finally have hidden: "get_range des 0 None ?l = butlast (es @ e # fs)" .
  have r: "represents ser (snd (reindex ?l)) (es @ e # fs)" using reindex_represents [OF assms(1) t] by simp
  then have "file_text (snd (reindex ?l)) = text_of ser (es @ e # fs)"
      "el_count (snd (reindex ?l)) = length (es @ e # fs)" by (simp_all add: represents_def)
  then have "get_range des 0 None (snd (reindex ?l)) = es @ e # fs"
    using get_range_represents [OF assms(1), of "snd (reindex ?l)" "es @ e # fs" 0] by (simp add: Let_def)
  with hidden show ?thesis by blast
qed

subsection \<open>A concrete codec\<close>

text \<open>Numbers as that many letters in brackets.\<close>

definition nat_ser :: "nat \<Rightarrow> string" where "nat_ser n = ''['' @ replicate n CHR ''a'' @ '']''"

definition nat_des :: "string \<Rightarrow> nat option" where
  "nat_des x = (if 2 \<le> length x then Some (length x - 2) else None)"

lemma nat_codec: "codec_ok nat_ser nat_des"
  by (auto simp: codec_ok_def nat_ser_def nat_des_def strip_def is_space_def is_break_def)


theorem truncate_correct_witness:
  "fst (truncate nat_ser nat_des 0 (append nat_ser 3 (open_log None None))) = 0 \<and>
   represents nat_ser (snd (truncate nat_ser nat_des 0 (append nat_ser 3 (open_log None None)))) []"
proof -
  have "represents nat_ser (open_log None None) []" by (simp add: represents_def open_log_def file_text_def)
  from truncate_correct [OF nat_codec append_represents [OF nat_codec this], of 0 3] show ?thesis by simp
qed

theorem crash_hides_last_event_witness:
  "get_range nat_des 0 None (fold (append nat_ser) [2] (crash_in_append nat_ser 1 (open_log None None))) = [1]"
proof -
  have "represents nat_ser (open_log None None) []" by (simp add: represents_def open_log_def file_text_def)
  from crash_hides_last_event [OF nat_codec this, of "[2]" 1] show ?thesis by simp
qed

end
