(* ===== verification/Task_Queue.thy ===== *)
theory Task_Queue
  imports Prelude
begin

text \<open>
  \<open>app/task_queue.py\<close>: the persistent task queue.  The SQLite table is a dictionary from task id to
  entry and \<open>updated_at\<close>; the clock is the parameter \<open>clk\<close>, read once per write, with the number of
  reads in the state; the prompt hash is the parameter \<open>hs\<close>.  A worker's local copy of its task is a
  part of the state, since the worker writes it back when the task ends.
\<close>

datatype task_status = QUEUED | RUNNING | PAUSED | COMPLETED | FAILED | CANCELLED

record checkpoint =
  cp_step_count :: nat
  cp_last_tool_call :: "string option"
  cp_memory :: "string list option"

record task =
  t_id :: string
  t_prompt :: string
  t_status :: task_status
  t_priority :: nat
  t_result :: "string option"
  t_error :: "string option"
  t_checkpoint :: "checkpoint option"
  t_created_at :: time
  t_started_at :: "time option"
  t_completed_at :: "time option"
  t_retry_count :: nat
  t_max_retries :: nat

text \<open>\<open>_recent_prompts\<close> is declared to hold submit times; \<open>submit\<close> stores the task id.\<close>

datatype recent = SubmitTime time | TaskId string

record queue =
  q_rows :: "(string \<times> task \<times> time) list"
  q_recent :: "(string \<times> recent) list"
  q_active :: "(string \<times> task) list"
  q_ticks :: nat

datatype queue_error = TypeErr

definition new_queue :: "(string \<times> task \<times> time) list \<Rightarrow> nat \<Rightarrow> queue" where
  "new_queue rows n = \<lparr>q_rows = rows, q_recent = [], q_active = [], q_ticks = n\<rparr>"

section \<open>Reading and writing\<close>

definition save :: "(nat \<Rightarrow> time) \<Rightarrow> task \<Rightarrow> queue \<Rightarrow> queue" where
  "save clk t q = q\<lparr>q_rows := AList.update (t_id t) (t, clk (q_ticks q)) (q_rows q), q_ticks := Suc (q_ticks q)\<rparr>"

definition load :: "string \<Rightarrow> queue \<Rightarrow> task option" where
  "load i q = map_option fst (map_of (q_rows q) i)"

text \<open>\<open>ORDER BY updated_at DESC\<close>.\<close>

definition list_tasks :: "task_status option \<Rightarrow> queue \<Rightarrow> task list" where
  "list_tasks st q = map (\<lambda>(_, t, _). t) (rev (sort_key (\<lambda>(_, _, u). u)
     (filter (\<lambda>(_, t, _). st = None \<or> st = Some (t_status t)) (q_rows q))))"

text \<open>\<open>ORDER BY priority DESC, updated_at ASC LIMIT 1\<close>, as two stable sorts.\<close>

definition next_queued_task :: "queue \<Rightarrow> task option" where
  "next_queued_task q =
     (case sort_key (\<lambda>(_, t, _). - int (t_priority t)) (sort_key (\<lambda>(_, _, u). u)
        (filter (\<lambda>(_, t, _). t_status t = QUEUED) (q_rows q))) of
        [] \<Rightarrow> None | (_, t, _) # _ \<Rightarrow> Some t)"

section \<open>Operations\<close>

text \<open>The pruning comprehension: \<open>now - v\<close> raises on a string.\<close>

fun prune_recent :: "time \<Rightarrow> (string \<times> recent) list \<Rightarrow> queue_error + (string \<times> recent) list" where
  "prune_recent now [] = Inr []"
| "prune_recent now ((k, v) # rs) =
     (case v of
        TaskId _ \<Rightarrow> Inl TypeErr
      | SubmitTime u \<Rightarrow>
          (case prune_recent now rs of
             Inl e \<Rightarrow> Inl e
           | Inr rs' \<Rightarrow> Inr (if now - u < 60 then (k, v) # rs' else rs')))"

definition new_task :: "string \<Rightarrow> string \<Rightarrow> nat \<Rightarrow> time \<Rightarrow> task" where
  "new_task i prompt prio now =
     \<lparr>t_id = i, t_prompt = prompt, t_status = QUEUED, t_priority = prio, t_result = None, t_error = None,
      t_checkpoint = None, t_created_at = now, t_started_at = None, t_completed_at = None,
      t_retry_count = 0, t_max_retries = 3\<rparr>"

definition existing_duplicate :: "(string \<Rightarrow> string) \<Rightarrow> string \<Rightarrow> queue \<Rightarrow> task option" where
  "existing_duplicate hs prompt q =
     (case map_of (q_recent q) (hs prompt) of
        Some (TaskId i) \<Rightarrow>
          if i = [] then None
          else (case load i q of Some t \<Rightarrow> if t_status t = QUEUED then Some t else None | None \<Rightarrow> None)
      | _ \<Rightarrow> None)"

definition submit :: "(string \<Rightarrow> string) \<Rightarrow> (nat \<Rightarrow> time) \<Rightarrow> string \<Rightarrow> string \<Rightarrow> nat \<Rightarrow> queue \<Rightarrow>
    queue_error + (task \<times> queue)" where
  "submit hs clk fresh prompt prio q =
     (case existing_duplicate hs prompt q of
        Some t \<Rightarrow> Inr (t, q)
      | None \<Rightarrow>
          (case prune_recent (clk (q_ticks q)) (q_recent q) of
             Inl e \<Rightarrow> Inl e
           | Inr rs \<Rightarrow>
               let t = new_task fresh prompt prio (clk (q_ticks q)); q' = save clk t (q\<lparr>q_recent := rs\<rparr>)
               in Inr (t, q'\<lparr>q_recent := AList.update (hs prompt) (TaskId fresh) (q_recent q')\<rparr>)))"

definition cancel_task :: "(nat \<Rightarrow> time) \<Rightarrow> string \<Rightarrow> queue \<Rightarrow> bool \<times> queue" where
  "cancel_task clk i q =
     (case load i q of
        None \<Rightarrow> (False, q)
      | Some t \<Rightarrow>
          if t_status t \<in> {QUEUED, RUNNING, PAUSED}
          then (True, save clk (t\<lparr>t_status := CANCELLED, t_completed_at := Some (clk (q_ticks q))\<rparr>) q)
          else (False, q))"

definition retry_task :: "(nat \<Rightarrow> time) \<Rightarrow> string \<Rightarrow> queue \<Rightarrow> bool \<times> queue" where
  "retry_task clk i q =
     (case load i q of
        None \<Rightarrow> (False, q)
      | Some t \<Rightarrow>
          if t_status t \<notin> {FAILED, CANCELLED} then (False, q)
          else (True, save clk (t\<lparr>t_status := QUEUED, t_retry_count := t_retry_count t + 1, t_error := None,
                                  t_result := None\<rparr>) q))"

definition save_checkpoint :: "(nat \<Rightarrow> time) \<Rightarrow> string \<Rightarrow> checkpoint \<Rightarrow> queue \<Rightarrow> queue" where
  "save_checkpoint clk i c q =
     (case load i q of None \<Rightarrow> q | Some t \<Rightarrow> save clk (t\<lparr>t_checkpoint := Some c\<rparr>) q)"

definition cleanup_completed :: "time \<Rightarrow> nat \<Rightarrow> queue \<Rightarrow> nat \<times> queue" where
  "cleanup_completed now hours q =
     (let old = (\<lambda>(_, t, u). t_status t \<in> {COMPLETED, FAILED, CANCELLED} \<and> u < now - real hours * 3600)
      in (length (filter old (q_rows q)), q\<lparr>q_rows := filter (\<lambda>r. \<not> old r) (q_rows q)\<rparr>))"

subsection \<open>The worker\<close>

datatype task_end = Returned string | WasCancelled | Raised string

definition worker_pick :: "(nat \<Rightarrow> time) \<Rightarrow> queue \<Rightarrow> queue" where
  "worker_pick clk q =
     (case next_queued_task q of
        None \<Rightarrow> q
      | Some t \<Rightarrow>
          let t' = t\<lparr>t_status := RUNNING, t_started_at := Some (clk (q_ticks q))\<rparr>; q' = save clk t' q
          in q'\<lparr>q_active := AList.update (t_id t) t' (q_active q')\<rparr>)"

definition end_task :: "time \<Rightarrow> task_end \<Rightarrow> task \<Rightarrow> task" where
  "end_task now e t =
     (case e of
        Returned r \<Rightarrow> t\<lparr>t_status := COMPLETED, t_result := Some r, t_completed_at := Some now\<rparr>
      | WasCancelled \<Rightarrow> t\<lparr>t_status := PAUSED\<rparr>
      | Raised x \<Rightarrow> t\<lparr>t_status := FAILED, t_error := Some x, t_completed_at := Some now\<rparr>)"

definition worker_end :: "(nat \<Rightarrow> time) \<Rightarrow> string \<Rightarrow> task_end \<Rightarrow> queue \<Rightarrow> queue" where
  "worker_end clk i e q =
     (case map_of (q_active q) i of
        None \<Rightarrow> q
      | Some t \<Rightarrow>
          save clk (end_task (clk (q_ticks q)) e t) (q\<lparr>q_active := AList.delete i (q_active q)\<rparr>))"

text \<open>\<open>resume_interrupted\<close>: one task of \<open>list_tasks()\<close> at a time, with the count of resumed tasks.\<close>

definition resume_one :: "(nat \<Rightarrow> time) \<Rightarrow> task \<Rightarrow> nat \<times> queue \<Rightarrow> nat \<times> queue" where
  "resume_one clk t = (\<lambda>(n, q).
     if t_status t = RUNNING then
       (let t' = t\<lparr>t_status := QUEUED, t_retry_count := t_retry_count t + 1\<rparr> in
        if t_retry_count t' \<le> t_max_retries t' then (Suc n, save clk t' q)
        else (n, save clk (t'\<lparr>t_status := FAILED,
                  t_error := Some ''Max retries exceeded after multiple interruptions''\<rparr>) q))
     else if t_status t = PAUSED then (Suc n, save clk (t\<lparr>t_status := QUEUED\<rparr>) q)
     else (n, q))"

definition resume_interrupted :: "(nat \<Rightarrow> time) \<Rightarrow> queue \<Rightarrow> nat \<times> queue" where
  "resume_interrupted clk q = fold (resume_one clk) (list_tasks None q) (0, q)"

definition status_count :: "task_status \<Rightarrow> queue \<Rightarrow> nat" where
  "status_count st q = length (filter (\<lambda>t. t_status t = st) (list_tasks None q))"

section \<open>Submission\<close>

lemma prune_task_ids: "rs \<noteq> [] \<Longrightarrow> \<forall>(k, v) \<in> set rs. \<exists>i. v = TaskId i \<Longrightarrow> prune_recent now rs = Inl TypeErr"
  by (cases rs) auto

text \<open>Everything ever stored in the cache is a task id.\<close>

inductive queue_step :: "(string \<Rightarrow> string) \<Rightarrow> (nat \<Rightarrow> time) \<Rightarrow> queue \<Rightarrow> queue \<Rightarrow> bool" for hs clk where
  submits: "submit hs clk fresh p prio q = Inr (t, q') \<Longrightarrow> queue_step hs clk q q'"
| cancels: "queue_step hs clk q (snd (cancel_task clk i q))"
| retries: "queue_step hs clk q (snd (retry_task clk i q))"
| checkpoints: "queue_step hs clk q (save_checkpoint clk i c q)"
| cleans: "queue_step hs clk q (snd (cleanup_completed now hours q))"
| picks: "queue_step hs clk q (worker_pick clk q)"
| ends: "queue_step hs clk q (worker_end clk i e q)"

definition recent_ids :: "queue \<Rightarrow> bool" where
  "recent_ids q \<longleftrightarrow> (\<forall>(k, v) \<in> set (q_recent q). \<exists>i. v = TaskId i)"

lemma save_recent [simp]: "q_recent (save clk t q) = q_recent q"
  by (simp add: save_def)

lemma quiet_recent:
  "q_recent (snd (cancel_task clk i q)) = q_recent q" "q_recent (snd (retry_task clk i q)) = q_recent q"
  "q_recent (save_checkpoint clk i c q) = q_recent q" "q_recent (snd (cleanup_completed now hours q)) = q_recent q"
  "q_recent (worker_pick clk q) = q_recent q" "q_recent (worker_end clk i e q) = q_recent q"
  by (simp_all add: cancel_task_def retry_task_def save_checkpoint_def cleanup_completed_def worker_pick_def
      worker_end_def Let_def split: option.split)

lemma submit_cases:
  assumes "submit hs clk fresh p prio q = Inr (t, q')" and "recent_ids q"
  shows "(existing_duplicate hs p q = Some t \<and> q' = q) \<or>
     (q_recent q = [] \<and> q_recent q' = [(hs p, TaskId fresh)] \<and> t = new_task fresh p prio (clk (q_ticks q)))"
proof (cases "existing_duplicate hs p q")
  case None
  have "q_recent q = []"
  proof (rule ccontr)
    assume "q_recent q \<noteq> []"
    then have "prune_recent (clk (q_ticks q)) (q_recent q) = Inl TypeErr"
      using assms(2) by (intro prune_task_ids) (auto simp: recent_ids_def)
    with assms(1) None show False by (simp add: submit_def)
  qed
  with assms(1) None show ?thesis by (auto simp: submit_def Let_def save_def)
qed (use assms(1) in \<open>simp add: submit_def\<close>)

lemma step_recent:
  assumes "queue_step hs clk q q'" and "recent_ids q"
  shows "recent_ids q' \<and> (q_recent q \<noteq> [] \<longrightarrow> q_recent q' = q_recent q)"
  using assms
proof (induction rule: queue_step.induct)
  case (submits fresh p prio q t q')
  from submit_cases [OF submits.hyps submits.prems] show ?case
    using submits.prems by (auto simp: recent_ids_def)
qed (simp_all add: quiet_recent recent_ids_def)

text \<open>a process can submit one task only: after its first new submission the cache holds a task id
  where the pruning expects a time, so every later submission that does not return a still queued
  duplicate raises \<open>TypeError\<close>, whatever the other operations and the workers do in between.\<close>

theorem one_submission_per_process:
  assumes "submit hs clk fresh p prio (new_queue rows n) = Inr (t, q)" and "(queue_step hs clk)\<^sup>*\<^sup>* q q'"
  shows "submit hs clk' fresh' p' prio' q' =
    (case existing_duplicate hs p' q' of Some d \<Rightarrow> Inr (d, q') | None \<Rightarrow> Inl TypeErr)"
proof -
  have first: "recent_ids (new_queue rows n)" by (simp add: recent_ids_def new_queue_def)
  have "existing_duplicate hs p (new_queue rows n) = None" by (simp add: existing_duplicate_def new_queue_def)
  with submit_cases [OF assms(1) first] have "q_recent q = [(hs p, TaskId fresh)]" by simp
  then have start: "recent_ids q \<and> q_recent q \<noteq> []" by (simp add: recent_ids_def)
  from assms(2) have "recent_ids q' \<and> q_recent q' \<noteq> []"
  proof (induction rule: rtranclp_induct)
    case (step q1 q2)
    then show ?case using step_recent by metis
  qed (rule start)
  then have "prune_recent now (q_recent q') = Inl TypeErr" for now
    by (intro prune_task_ids) (auto simp: recent_ids_def)
  then show ?thesis by (simp add: submit_def split: option.split)
qed

theorem one_submission_per_process_witness:
  "\<exists>t q. submit id real ''t1'' ''first'' 1 (new_queue [] 0) = Inr (t, q) \<and>
         submit id real ''t2'' ''second'' 1 q = Inl TypeErr"
proof -
  obtain t q where s: "submit id real ''t1'' ''first'' 1 (new_queue [] 0) = Inr (t, q)"
      "existing_duplicate id ''second'' q = None"
    by (simp add: submit_def existing_duplicate_def new_queue_def save_def Let_def)
  from one_submission_per_process [OF s(1) rtranclp.rtrancl_refl, of real "''t2''" "''second''" 1] s
  show ?thesis by auto
qed

section \<open>Cancelling and checkpointing a running task\<close>

lemma load_save: "load i (save clk t q) = (if i = t_id t then Some t else load i q)"
  by (simp add: load_def save_def)

text \<open>The worker's copy belongs to its id.\<close>

definition active_ok :: "queue \<Rightarrow> bool" where
  "active_ok q \<longleftrightarrow> (\<forall>i t. map_of (q_active q) i = Some t \<longrightarrow> t_id t = i)"

text \<open>what a worker writes back is its own stale copy: a cancelled running task ends up \<open>PAUSED\<close>, so
  that the next start runs it again, and a checkpoint saved while the task ran is overwritten by the
  copy's old one.\<close>

theorem worker_overwrites_cancel_and_checkpoint:
  assumes "active_ok q" and "map_of (q_active q) i = Some t" and "load i q = Some r" and "t_status r = RUNNING"
  shows "fst (cancel_task clk i (save_checkpoint clk i c q)) \<and>
    (\<exists>p. load i (worker_end clk i WasCancelled
             (snd (cancel_task clk i (save_checkpoint clk i c q)))) = Some p \<and>
           t_status p = PAUSED \<and> t_checkpoint p = t_checkpoint t)"
proof -
  obtain r' where "load i (save_checkpoint clk i c q) = Some r'" "t_status r' = RUNNING"
    using assms(3,4) by (cases "t_id r = i") (simp_all add: save_checkpoint_def load_save)
  then have returned: "fst (cancel_task clk i (save_checkpoint clk i c q))" by (simp add: cancel_task_def)
  have id: "t_id t = i" using assms(1,2) by (simp add: active_ok_def)
  have act: "q_active (snd (cancel_task clk i q1)) = q_active q1" "q_active (save_checkpoint clk i c q1) = q_active q1" for q1
    by (simp_all add: cancel_task_def save_checkpoint_def save_def split: option.split)
  have "load i (worker_end clk i WasCancelled (snd (cancel_task clk i (save_checkpoint clk i c q)))) =
      Some (t\<lparr>t_status := PAUSED\<rparr>)"
    using assms(2) id by (simp add: worker_end_def act end_task_def load_save)
  with returned show ?thesis by simp
qed

definition running_queue :: queue where
  "running_queue = worker_pick real (save real (new_task ''t'' ''job'' 1 0) (new_queue [] 0))"

lemma running_queue_simps:
  "load ''t'' running_queue = Some ((new_task ''t'' ''job'' 1 0)\<lparr>t_status := RUNNING, t_started_at := Some 1\<rparr>)"
  "q_active running_queue = [(''t'', (new_task ''t'' ''job'' 1 0)\<lparr>t_status := RUNNING, t_started_at := Some 1\<rparr>)]"
  by (simp_all add: running_queue_def worker_pick_def next_queued_task_def save_def new_queue_def new_task_def
      Let_def load_def)

theorem worker_overwrites_cancel_and_checkpoint_witness:
  "fst (cancel_task real ''t'' (save_checkpoint real ''t''
      \<lparr>cp_step_count = 7, cp_last_tool_call = None, cp_memory = None\<rparr> running_queue)) \<and>
   (\<exists>p. load ''t'' (worker_end real ''t'' WasCancelled (snd (cancel_task real ''t''
      (save_checkpoint real ''t'' \<lparr>cp_step_count = 7, cp_last_tool_call = None, cp_memory = None\<rparr> running_queue)))) =
      Some p \<and> t_status p = PAUSED \<and> t_checkpoint p = None)"
proof -
  let ?t = "(new_task ''t'' ''job'' 1 0)\<lparr>t_status := RUNNING, t_started_at := Some 1\<rparr>"
  have "active_ok running_queue" by (simp add: active_ok_def running_queue_simps new_task_def)
  moreover have "map_of (q_active running_queue) ''t'' = Some ?t" by (simp add: running_queue_simps)
  moreover have "t_checkpoint ?t = None" "t_status ?t = RUNNING" by (simp_all add: new_task_def)
  ultimately show ?thesis
    using worker_overwrites_cancel_and_checkpoint [of running_queue "''t''" ?t _ real] running_queue_simps(1) by metis
qed

section \<open>Scheduling order\<close>

lemma sort_key_hd:
  assumes "sort_key f (sort_key g xs) = z # zs" and "y \<in> set xs"
  shows "f z \<le> f y \<and> (f y = f z \<longrightarrow> g z \<le> g y)"
proof -
  have y: "y \<in> set (z # zs)" using assms by (metis set_sort)
  have sorted: "sorted (map f (z # zs))" using assms(1) by (metis sorted_sort_key)
  then have "f z \<le> f y" using y by auto
  moreover have "g z \<le> g y" if "f y = f z"
  proof -
    have "filter (\<lambda>x. f x = f z) (sort_key g xs) = z # filter (\<lambda>x. f x = f z) zs"
      using sort_key_stable [of f "f z" "sort_key g xs"] assms(1) by simp
    moreover have "sorted (map g (filter (\<lambda>x. f x = f z) (sort_key g xs)))"
      by (rule sorted_filter) simp
    moreover have "y \<in> set (filter (\<lambda>x. f x = f z) (sort_key g xs))" using that assms(2) by simp
    ultimately show ?thesis by auto
  qed
  ultimately show ?thesis by blast
qed

text \<open>C14: a worker picks a queued task of the highest priority and, among those, the one written first;
  it picks none only when nothing is queued.\<close>

theorem next_queued_correct:
  "(case next_queued_task q of
      None \<Rightarrow> \<forall>(i, t, u) \<in> set (q_rows q). t_status t \<noteq> QUEUED
    | Some t \<Rightarrow> t_status t = QUEUED \<and> (\<exists>i u. (i, t, u) \<in> set (q_rows q) \<and>
        (\<forall>(j, t', u') \<in> set (q_rows q). t_status t' = QUEUED \<longrightarrow>
           t_priority t' \<le> t_priority t \<and> (t_priority t' = t_priority t \<longrightarrow> u \<le> u'))))"
proof -
  let ?xs = "filter (\<lambda>(_, t, _). t_status t = QUEUED) (q_rows q)"
  let ?f = "\<lambda>(_ :: string, t, _ :: time). - int (t_priority t)" and ?g = "\<lambda>(_ :: string, _ :: task, u :: time). u"
  show ?thesis
  proof (cases "sort_key ?f (sort_key ?g ?xs)")
    case Nil
    then have "?xs = []" by (metis set_empty set_sort)
    with Nil show ?thesis by (auto simp: next_queued_task_def filter_empty_conv)
  next
    case (Cons z zs)
    obtain i t u where z: "z = (i, t, u)" by (cases z) auto
    have "z \<in> set ?xs" using Cons by (metis list.set_intros(1) set_sort)
    then have m: "(i, t, u) \<in> set (q_rows q)" "t_status t = QUEUED" by (auto simp: z)
    have "t_priority t' \<le> t_priority t \<and> (t_priority t' = t_priority t \<longrightarrow> u \<le> u')"
      if "(j, t', u') \<in> set (q_rows q)" "t_status t' = QUEUED" for j t' u'
      using sort_key_hd [OF Cons, of "(j, t', u')"] that by (auto simp: z)
    moreover have "next_queued_task q = Some t" unfolding next_queued_task_def Cons z by simp
    ultimately show ?thesis using m by (simp only: option.case) (intro conjI exI [of _ i] exI [of _ u]; auto)
  qed
qed

definition waiting_queue :: queue where
  "waiting_queue = new_queue [(''a'', new_task ''a'' ''p'' 5 0, 1), (''b'', new_task ''b'' ''q'' 10 0, 2)] 2"

theorem next_queued_correct_witness: "map_option t_id (next_queued_task waiting_queue) = Some ''b''"
proof (cases "next_queued_task waiting_queue")
  case None
  with next_queued_correct [of waiting_queue] show ?thesis by (simp add: waiting_queue_def new_queue_def new_task_def)
next
  case (Some t)
  with next_queued_correct [of waiting_queue] show ?thesis
    by (auto simp: waiting_queue_def new_queue_def new_task_def)
qed

section \<open>Resuming after a restart\<close>

definition resumed :: "task \<Rightarrow> task" where
  "resumed t =
     (if t_status t = RUNNING then
        (if t_retry_count t < t_max_retries t
         then t\<lparr>t_status := QUEUED, t_retry_count := t_retry_count t + 1\<rparr>
         else t\<lparr>t_status := FAILED, t_retry_count := t_retry_count t + 1,
                t_error := Some ''Max retries exceeded after multiple interruptions''\<rparr>)
      else if t_status t = PAUSED then t\<lparr>t_status := QUEUED\<rparr>
      else t)"

lemma resumed_id [simp]: "t_id (resumed t) = t_id t"
  by (simp add: resumed_def)

lemma resume_one_load:
  "load (t_id t) q = Some t \<Longrightarrow>
     load i (snd (resume_one clk t (n, q))) = (if i = t_id t then Some (resumed t) else load i q)"
  by (auto simp: resume_one_def resumed_def Let_def load_save)

lemma resume_fold_load:
  assumes "distinct (map t_id ts)" and "\<forall>t \<in> set ts. load (t_id t) q = Some t"
  shows "load i (snd (fold (resume_one clk) ts (n, q))) =
    (if i \<in> t_id ` set ts then map_option resumed (load i q) else load i q)"
  using assms
proof (induction ts arbitrary: n q)
  case (Cons t ts)
  obtain n' q' where r: "resume_one clk t (n, q) = (n', q')" by fastforce
  have load': "load j q' = (if j = t_id t then Some (resumed t) else load j q)" for j
    using resume_one_load [of t q j clk n] Cons.prems(2) r by simp
  have nt: "t_id t \<notin> t_id ` set ts" using Cons.prems(1) by simp
  have "\<forall>u \<in> set ts. load (t_id u) q' = Some u"
  proof
    fix u assume u: "u \<in> set ts"
    with nt have "t_id u \<noteq> t_id t" by (metis imageI)
    then show "load (t_id u) q' = Some u" using Cons.prems(2) u by (simp add: load')
  qed
  moreover have "distinct (map t_id ts)" using Cons.prems(1) by simp
  ultimately have "load i (snd (fold (resume_one clk) ts (n', q'))) =
      (if i \<in> t_id ` set ts then map_option resumed (load i q') else load i q')"
    by (rule Cons.IH [rotated])
  moreover have "load (t_id t) q = Some t" using Cons.prems(2) by simp
  ultimately show ?case using nt by (simp add: r load')
qed simp

text \<open>The table maps every id to a task with that id.\<close>

definition rows_ok :: "queue \<Rightarrow> bool" where
  "rows_ok q \<longleftrightarrow> dict_ok (q_rows q) \<and> (\<forall>(i, t, u) \<in> set (q_rows q). t_id t = i)"

lemma list_tasks_all:
  assumes "rows_ok q"
  shows "distinct (map t_id (list_tasks None q))" and "t \<in> set (list_tasks None q) \<longleftrightarrow> load (t_id t) q = Some t"
    and "t_id ` set (list_tasks None q) = dom (\<lambda>i. load i q)"
proof -
  let ?s = "sort_key (\<lambda>(_, _, u). u) (q_rows q)"
  have l: "list_tasks None q = map (\<lambda>(_, t, _). t) (rev ?s)" by (simp add: list_tasks_def)
  have tid: "(i, t, u) \<in> set (q_rows q) \<Longrightarrow> t_id t = i" for i t u using assms by (auto simp: rows_ok_def)
  have ids: "map t_id (map (\<lambda>(_, t, _). t) xs) = map fst xs" if "set xs \<subseteq> set (q_rows q)" for xs
    using that by (induction xs) (auto intro: tid)
  have "distinct (map fst ?s)"
    using assms unfolding rows_ok_def dict_ok_def
    by (metis distinct_map distinct_sort set_sort)
  then show "distinct (map t_id (list_tasks None q))" unfolding l by (subst ids) (simp_all add: rev_map [symmetric])
  have m: "(i, t, u) \<in> set (q_rows q) \<longleftrightarrow> map_of (q_rows q) i = Some (t, u)" for i t u
    using assms by (simp add: rows_ok_def dict_ok_def)
  have mem: "t \<in> set (list_tasks None q) \<longleftrightarrow> (\<exists>i u. (i, t, u) \<in> set (q_rows q))" for t
    by (force simp: l)
  show in_tasks: "t \<in> set (list_tasks None q) \<longleftrightarrow> load (t_id t) q = Some t" for t
    using tid by (auto simp: mem load_def m)
  show "t_id ` set (list_tasks None q) = dom (\<lambda>i. load i q)"
  proof (intro set_eqI iffI)
    fix i assume "i \<in> dom (\<lambda>i. load i q)"
    then obtain t u where "(i, t, u) \<in> set (q_rows q)" by (auto simp: load_def m)
    with mem tid show "i \<in> t_id ` set (list_tasks None q)" by (metis imageI)
  qed (auto simp: in_tasks)
qed

text \<open>at start-up every task is resumed once, by its status: interrupted ones are queued again while
  they have retries left and failed otherwise, paused ones are queued, the rest is untouched; so no
  task is left running or paused.\<close>

theorem resume_interrupted_correct:
  assumes "rows_ok q"
  shows "load i (snd (resume_interrupted clk q)) = map_option resumed (load i q) \<and>
    (\<forall>t. load i (snd (resume_interrupted clk q)) = Some t \<longrightarrow> t_status t \<notin> {RUNNING, PAUSED})"
proof -
  note l = list_tasks_all [OF assms]
  have "\<forall>t \<in> set (list_tasks None q). load (t_id t) q = Some t" using l(2) by blast
  note r = resume_fold_load [OF l(1) this, of i clk 0, folded resume_interrupted_def, unfolded l(3)]
  have eq: "load i (snd (resume_interrupted clk q)) = map_option resumed (load i q)"
    unfolding r by (cases "load i q") (simp_all add: domIff)
  have "t_status (resumed u) \<notin> {RUNNING, PAUSED}" for u by (simp add: resumed_def)
  with eq show ?thesis by (cases "load i q") simp_all
qed

theorem resume_interrupted_correct_witness:
  "map_option t_status (load ''t'' (snd (resume_interrupted real running_queue))) = Some QUEUED"
proof -
  have "rows_ok running_queue"
    by (simp add: rows_ok_def running_queue_def worker_pick_def next_queued_task_def save_def new_queue_def
        new_task_def Let_def dict_ok_def)
  note r = resume_interrupted_correct [OF this, of "''t''" real, THEN conjunct1]
  show ?thesis unfolding r by (simp add: running_queue_simps resumed_def new_task_def)
qed

end
