(* ===== verification/Security_Analysis.thy ===== *)
theory Security_Analysis
  imports Event_Log "HOL-Library.List_Lexorder" "HOL-Library.Char_ord"
begin

text \<open>
  \<open>app/security\<close>: risk levels and assessments (\<open>base.py\<close>), the pattern and the policy-rail analyzers,
  the ensemble, the confirmation policies and the check in \<open>local_conversation.py\<close> that applies them.
  Whether the regular expression of a detector matches a text is the parameter \<open>hit\<close>, by detector id.
  Of the extras the lists of detector ids are kept; snippets and previews are left out.  In the texts a
  hyphen stands for the em dash.
\<close>

section \<open>Risk\<close>

datatype risk = UNKNOWN | LOW | MEDIUM | HIGH

fun risk_value :: "risk \<Rightarrow> nat" where
  "risk_value UNKNOWN = 0" | "risk_value LOW = 1" | "risk_value MEDIUM = 2" | "risk_value HIGH = 3"

fun risk_name :: "risk \<Rightarrow> string" where
  "risk_name UNKNOWN = ''UNKNOWN''" | "risk_name LOW = ''LOW''" | "risk_name MEDIUM = ''MEDIUM''"
| "risk_name HIGH = ''HIGH''"

lemma risk_value_inj: "risk_value r = risk_value s \<longleftrightarrow> r = s"
  by (cases r; cases s) simp_all

instantiation risk :: linorder
begin

definition less_eq_risk :: "risk \<Rightarrow> risk \<Rightarrow> bool" where
  "less_eq_risk r s \<longleftrightarrow> risk_value r \<le> risk_value s"

definition less_risk :: "risk \<Rightarrow> risk \<Rightarrow> bool" where
  "less_risk r s \<longleftrightarrow> risk_value r < risk_value s"

instance
  by standard (auto simp: less_eq_risk_def less_risk_def risk_value_inj dest: risk_value_inj [THEN iffD1] antisym)

end

lemmas risk_order = less_eq_risk_def less_risk_def

lemma risk_bounds [simp]: "UNKNOWN \<le> r" "r \<le> HIGH" "r \<le> UNKNOWN \<longleftrightarrow> r = UNKNOWN" "HIGH \<le> r \<longleftrightarrow> r = HIGH"
  by (cases r; simp add: risk_order)+

record assessment =
  ra_risk :: risk
  ra_detector :: string
  ra_reason :: string
  ra_ids :: "string list"

definition no_assessment :: assessment where
  "no_assessment = \<lparr>ra_risk = UNKNOWN, ra_detector = ''base:unknown'', ra_reason = [], ra_ids = []\<rparr>"

definition is_risky :: "risk \<Rightarrow> assessment \<Rightarrow> bool" where
  "is_risky threshold a \<longleftrightarrow> threshold \<le> ra_risk a"

definition merge_assessments :: "assessment \<Rightarrow> assessment \<Rightarrow> assessment" where
  "merge_assessments a b =
     (if ra_risk a < ra_risk b then b
      else if ra_risk b < ra_risk a then a
      else \<lparr>ra_risk = ra_risk b, ra_detector = ra_detector a @ '','' @ ra_detector b,
             ra_reason = (if ra_reason a \<noteq> [] then ra_reason a @ ''; '' @ ra_reason b else ra_reason b),
             ra_ids = ra_ids a @ ra_ids b\<rparr>)"

section \<open>Analyzers\<close>

text \<open>\<open>analyze\<close> raises, returns something else, or returns an assessment.\<close>

datatype analysis = Raises string | Malformed | Assessed assessment

record analyzer =
  an_name :: string
  an_analyze :: "string \<Rightarrow> string \<Rightarrow> analysis"

definition safe_analyze :: "analyzer \<Rightarrow> string \<Rightarrow> string \<Rightarrow> assessment" where
  "safe_analyze an act tool =
     (case an_analyze an act tool of
        Assessed a \<Rightarrow> a
      | Malformed \<Rightarrow> \<lparr>ra_risk = LOW, ra_detector = an_name an @ '':invalid_return'',
            ra_reason = ''Analyzer returned non-RiskAssessment; downgraded to LOW'', ra_ids = []\<rparr>
      | Raises e \<Rightarrow> \<lparr>ra_risk = LOW, ra_detector = an_name an @ '':exception'',
            ra_reason = ''Analyzer error (sanitised): '' @ take 300 e, ra_ids = []\<rparr>)"

definition analyze_sequence :: "analyzer list \<Rightarrow> string \<Rightarrow> string \<Rightarrow> assessment" where
  "analyze_sequence ans act tool =
     fold (\<lambda>an current. merge_assessments current (safe_analyze an act tool)) ans no_assessment"

subsection \<open>The pattern analyzer\<close>

datatype corpus = Executable | AllField

record pattern =
  pt_id :: string
  pt_risk :: risk
  pt_reason :: string
  pt_corpus :: corpus

definition pattern_catalogue :: "pattern list" where
  "pattern_catalogue =
     map (\<lambda>(i, r, t, c). \<lparr>pt_id = i, pt_risk = r, pt_reason = t, pt_corpus = c\<rparr>)
       [(''pattern:rm_rf'', HIGH, ''Recursive force-delete (rm -rf) detected'', Executable),
        (''pattern:sudo_rm'', HIGH, ''Privileged delete (sudo rm) detected'', Executable),
        (''pattern:eval_call'', MEDIUM, ''Dynamic code execution via eval() detected'', Executable),
        (''pattern:subprocess'', MEDIUM,
           ''Subprocess invocation detected - possible command injection'', Executable),
        (''pattern:curl_pipe_exec'', HIGH, ''Download-then-execute (curl | sh) detected'', Executable),
        (''pattern:inject_override'', HIGH, ''Prompt-injection: instruction override detected'', AllField),
        (''pattern:inject_mode_switch'', HIGH, ''Prompt-injection: mode/role switch detected'', AllField),
        (''pattern:inject_identity'', HIGH, ''Prompt-injection: identity impersonation detected'', AllField)]"

definition executable_tools :: "string list" where
  "executable_tools = [''bash'', ''python_execute'', ''shell'', ''exec'', ''str_replace_editor'']"

text \<open>The patterns that are scanned: the all-field corpus, then the executable one.\<close>

definition patterns_to_scan :: "string \<Rightarrow> pattern list" where
  "patterns_to_scan tool =
     filter (\<lambda>p. pt_corpus p = AllField) pattern_catalogue @
     (if tool \<in> set executable_tools then filter (\<lambda>p. pt_corpus p = Executable) pattern_catalogue else [])"

fun best_pattern :: "pattern option \<Rightarrow> pattern list \<Rightarrow> pattern option" where
  "best_pattern best [] = best"
| "best_pattern best (p # ps) =
     (case best of
        None \<Rightarrow> best_pattern (Some p) ps
      | Some b \<Rightarrow> if pt_risk b < pt_risk p then best_pattern (Some p) ps else best_pattern best ps)"

definition pattern_analyze :: "(string \<Rightarrow> string \<Rightarrow> bool) \<Rightarrow> string \<Rightarrow> string \<Rightarrow> assessment" where
  "pattern_analyze hit act tool =
     (if strip act = [] then
        \<lparr>ra_risk = UNKNOWN, ra_detector = ''pattern:empty'', ra_reason = ''Empty action - nothing to scan'', ra_ids = []\<rparr>
      else let matched = filter (\<lambda>p. hit (pt_id p) act) (patterns_to_scan (map lower_char tool)) in
        case best_pattern None matched of
          None \<Rightarrow> \<lparr>ra_risk = UNKNOWN, ra_detector = ''pattern:no_match'',
                   ra_reason = ''No dangerous patterns detected'', ra_ids = []\<rparr>
        | Some b \<Rightarrow> \<lparr>ra_risk = pt_risk b, ra_detector = pt_id b, ra_reason = pt_reason b,
                     ra_ids = map pt_id matched\<rparr>)"

subsection \<open>The policy rails\<close>

fun split_on :: "(char \<Rightarrow> bool) \<Rightarrow> string \<Rightarrow> string list" where
  "split_on d [] = [[]]"
| "split_on d (c # cs) =
     (if d c then [] # split_on d cs
      else case split_on d cs of [] \<Rightarrow> [[c]] | l # ls \<Rightarrow> (c # l) # ls)"

definition is_delimiter :: "char \<Rightarrow> bool" where
  "is_delimiter c \<longleftrightarrow> (of_char c :: nat) \<in> {59, 10, 13}"

definition split_segments :: "string \<Rightarrow> string list" where
  "split_segments act = map strip (filter (\<lambda>s. strip s \<noteq> []) (split_on is_delimiter act))"

record rail =
  rl_id :: string
  rl_risk :: risk
  rl_reason :: string
  rl_exec :: "string option"
  rl_combined :: bool

definition rails :: "rail list" where
  "rails =
     [\<lparr>rl_id = ''rail:fetch-to-exec'', rl_risk = HIGH,
        rl_reason = ''Download piped to interpreter - possible remote code execution'',
        rl_exec = Some ''rail:fetch-to-exec/exec'', rl_combined = True\<rparr>,
      \<lparr>rl_id = ''rail:raw-disk-op'', rl_risk = HIGH,
        rl_reason = ''Raw disk operation detected - direct block device write or format'',
        rl_exec = None, rl_combined = False\<rparr>,
      \<lparr>rl_id = ''rail:catastrophic-delete'', rl_risk = HIGH,
        rl_reason = ''Recursive force-delete of critical system path detected'',
        rl_exec = None, rl_combined = False\<rparr>]"

definition evaluate_rail :: "(string \<Rightarrow> string \<Rightarrow> bool) \<Rightarrow> rail \<Rightarrow> string \<Rightarrow> bool" where
  "evaluate_rail hit r seg \<longleftrightarrow>
     hit (rl_id r) seg \<and>
     (if \<not> rl_combined r then True
      else case rl_exec r of None \<Rightarrow> False | Some e \<Rightarrow> hit e seg)"

definition triggered_rails :: "(string \<Rightarrow> string \<Rightarrow> bool) \<Rightarrow> string list \<Rightarrow> rail list" where
  "triggered_rails hit segs = filter (\<lambda>r. list_ex (evaluate_rail hit r) segs) rails"

fun best_rail :: "rail option \<Rightarrow> rail list \<Rightarrow> rail option" where
  "best_rail best [] = best"
| "best_rail best (r # rs) =
     (case best of
        None \<Rightarrow> best_rail (Some r) rs
      | Some b \<Rightarrow> if rl_risk b < rl_risk r then best_rail (Some r) rs else best_rail best rs)"

definition empty_rails :: "string \<Rightarrow> assessment" where
  "empty_rails why = \<lparr>ra_risk = UNKNOWN, ra_detector = ''policy_rails:empty'', ra_reason = why, ra_ids = []\<rparr>"

definition rail_analyze :: "(string \<Rightarrow> string \<Rightarrow> bool) \<Rightarrow> string \<Rightarrow> assessment" where
  "rail_analyze hit act =
     (if strip act = [] then empty_rails ''Empty action - nothing to scan''
      else if split_segments act = [] then empty_rails ''No non-empty segments found''
      else let trig = triggered_rails hit (split_segments act) in
        case best_rail None trig of
          None \<Rightarrow> \<lparr>ra_risk = UNKNOWN, ra_detector = ''policy_rails:clear'',
                   ra_reason = ''No structural policy violations detected'', ra_ids = []\<rparr>
        | Some b \<Rightarrow> \<lparr>ra_risk = rl_risk b, ra_detector = rl_id b, ra_reason = rl_reason b, ra_ids = map rl_id trig\<rparr>)"

subsection \<open>The ensemble\<close>

fun join_with :: "string \<Rightarrow> string list \<Rightarrow> string" where
  "join_with sep [] = []"
| "join_with sep [x] = x"
| "join_with sep (x # xs) = x @ sep @ join_with sep xs"

definition fuse :: "string \<Rightarrow> assessment list \<Rightarrow> assessment" where
  "fuse name as =
     (if as = [] then
        \<lparr>ra_risk = UNKNOWN, ra_detector = name @ '':empty_fusion'', ra_reason = ''No assessments to fuse'', ra_ids = []\<rparr>
      else let top = Max (set (map ra_risk as)); tops = filter (\<lambda>a. ra_risk a = top) as;
               reasons = filter (\<lambda>r. r \<noteq> []) (map ra_reason tops)
        in \<lparr>ra_risk = top,
            ra_detector = (if length tops = 1 then ra_detector (hd tops)
                           else join_with '','' (sorted_list_of_set (set (map ra_detector tops)))),
            ra_reason = (if reasons \<noteq> [] then join_with ''; '' reasons else ''Ensemble risk: '' @ risk_name top),
            ra_ids = map ra_detector as\<rparr>)"

definition ensemble_analyze :: "string \<Rightarrow> analyzer list \<Rightarrow> string \<Rightarrow> string \<Rightarrow> assessment" where
  "ensemble_analyze name ans act tool =
     (if ans = [] then
        \<lparr>ra_risk = UNKNOWN, ra_detector = name @ '':no_analyzers'',
         ra_reason = ''No sub-analyzers configured in ensemble'', ra_ids = []\<rparr>
      else if strip act = [] then
        \<lparr>ra_risk = UNKNOWN, ra_detector = name @ '':empty'', ra_reason = ''Empty action - nothing to scan'', ra_ids = []\<rparr>
      else fuse name (map (\<lambda>an. safe_analyze an act tool) ans))"

definition remove_analyzer :: "string \<Rightarrow> analyzer list \<Rightarrow> bool \<times> analyzer list" where
  "remove_analyzer n ans =
     (if list_ex (\<lambda>a. an_name a = n) ans
      then (True, takeWhile (\<lambda>a. an_name a \<noteq> n) ans @ tl (dropWhile (\<lambda>a. an_name a \<noteq> n) ans))
      else (False, ans))"

section \<open>Confirmation\<close>

record policy =
  cp_threshold :: risk
  cp_block_high :: bool

datatype confirmation_policy = NeverConfirm | ConfirmRisky policy

datatype decision_reason = AutoApprove | BelowThreshold | Blocked | MustConfirm

definition requires_confirmation :: "confirmation_policy \<Rightarrow> assessment \<Rightarrow> bool \<times> decision_reason" where
  "requires_confirmation p a =
     (case p of
        NeverConfirm \<Rightarrow> (False, AutoApprove)
      | ConfirmRisky c \<Rightarrow>
          if ra_risk a < cp_threshold c then (False, BelowThreshold)
          else if ra_risk a = HIGH \<and> cp_block_high c then (False, Blocked)
          else (True, MustConfirm))"

text \<open>\<open>LocalConversation._check_security\<close> and \<open>_requires_confirmation\<close>.\<close>

definition check_security :: "analyzer option \<Rightarrow> string \<Rightarrow> string \<Rightarrow> assessment option" where
  "check_security an act tool = map_option (\<lambda>a. safe_analyze a act tool) an"

definition conversation_confirms :: "confirmation_policy option \<Rightarrow> assessment option \<Rightarrow> bool" where
  "conversation_confirms pol a =
     (case pol of None \<Rightarrow> False
      | Some p \<Rightarrow> (case a of None \<Rightarrow> False | Some x \<Rightarrow> fst (requires_confirmation p x)))"

section \<open>Fusion takes the maximum\<close>

lemma merge_risk: "ra_risk (merge_assessments a b) = max (ra_risk a) (ra_risk b)"
  by (auto simp: merge_assessments_def max_def not_less)

lemma fold_merge_risk:
  "ra_risk (fold (\<lambda>an current. merge_assessments current (f an)) ans c) =
     Max (insert (ra_risk c) ((\<lambda>an. ra_risk (f an)) ` set ans))"
proof (induction ans arbitrary: c)
  case (Cons an ans)
  have "Max (insert (max (ra_risk c) (ra_risk (f an))) ((\<lambda>an. ra_risk (f an)) ` set ans)) =
      Max (insert (ra_risk c) (insert (ra_risk (f an)) ((\<lambda>an. ra_risk (f an)) ` set ans)))"
    by (cases "(\<lambda>an. ra_risk (f an)) ` set ans = {}") (simp_all add: max.assoc)
  with Cons show ?case by (simp add: merge_risk)
qed simp

text \<open>the ensemble reports the highest risk of its analyzers, agrees on it with the plain sequence, and
  the order of the analyzers does not matter.\<close>

theorem ensemble_takes_max:
  assumes "ans \<noteq> []" and "strip act \<noteq> []"
  shows "ra_risk (ensemble_analyze name ans act tool) = Max ((\<lambda>an. ra_risk (safe_analyze an act tool)) ` set ans) \<and>
    ra_risk (analyze_sequence ans act tool) = ra_risk (ensemble_analyze name ans act tool) \<and>
    (set ans' = set ans \<longrightarrow>
       ra_risk (ensemble_analyze name ans' act tool) = ra_risk (ensemble_analyze name ans act tool))"
proof -
  have e: "ra_risk (ensemble_analyze name xs act tool) = Max ((\<lambda>an. ra_risk (safe_analyze an act tool)) ` set xs)"
    if "xs \<noteq> []" for xs
    using that assms(2) by (simp add: ensemble_analyze_def fuse_def Let_def image_image)
  have "ra_risk (analyze_sequence ans act tool) =
      max UNKNOWN (Max ((\<lambda>an. ra_risk (safe_analyze an act tool)) ` set ans))"
    using assms(1) by (simp add: analyze_sequence_def fold_merge_risk no_assessment_def)
  then have "ra_risk (analyze_sequence ans act tool) = Max ((\<lambda>an. ra_risk (safe_analyze an act tool)) ` set ans)"
    by (simp add: max_absorb2)
  moreover have "ans' \<noteq> []" if "set ans' = set ans" using that assms(1) by auto
  ultimately show ?thesis using e assms(1) by simp
qed

definition constant_analyzer :: "string \<Rightarrow> risk \<Rightarrow> analyzer" where
  "constant_analyzer n r = \<lparr>an_name = n, an_analyze = (\<lambda>_ _. Assessed (no_assessment\<lparr>ra_risk := r\<rparr>))\<rparr>"

definition broken_analyzer :: analyzer where
  "broken_analyzer = \<lparr>an_name = ''broken'', an_analyze = (\<lambda>_ _. Raises ''boom'')\<rparr>"

theorem ensemble_takes_max_witness:
  "ra_risk (ensemble_analyze ''e'' [constant_analyzer ''a'' MEDIUM, broken_analyzer] ''ls'' ''bash'') = MEDIUM"
proof -
  have "strip ''ls'' \<noteq> []" by (simp add: strip_def is_space_def)
  from ensemble_takes_max [OF _ this, of "[constant_analyzer ''a'' MEDIUM, broken_analyzer]" "''e''" "''bash''"]
  show ?thesis by (simp add: safe_analyze_def constant_analyzer_def broken_analyzer_def max_def risk_order)
qed

section \<open>The pattern analyzer reports the first worst match\<close>

text \<open>The worst element of a list, the first among equals.\<close>

lemma best_pattern_Some:
  "\<exists>b. best_pattern (Some p) ps = Some b \<and> b \<in> set (p # ps) \<and> (\<forall>q \<in> set (p # ps). pt_risk q \<le> pt_risk b) \<and>
     (\<exists>us vs. p # ps = us @ b # vs \<and> (\<forall>u \<in> set us. pt_risk u < pt_risk b))"
proof (induction ps arbitrary: p)
  case Nil
  show ?case by (auto intro: exI [of _ "[]"])
next
  case (Cons q ps)
  show ?case
  proof (cases "pt_risk p < pt_risk q")
    case True
    from Cons [of q] obtain b us vs where b: "best_pattern (Some q) ps = Some b" "b \<in> set (q # ps)"
        "\<forall>x \<in> set (q # ps). pt_risk x \<le> pt_risk b" "q # ps = us @ b # vs" "\<forall>u \<in> set us. pt_risk u < pt_risk b" by blast
    have p: "pt_risk p < pt_risk b" using True b(3) by (meson less_le_trans list.set_intros(1))
    have "best_pattern (Some p) (q # ps) = Some b" using True b(1) by simp
    moreover have "b \<in> set (p # q # ps)" using b(2) by simp
    moreover have "\<forall>x \<in> set (p # q # ps). pt_risk x \<le> pt_risk b" using b(3) p by simp
    moreover have "p # q # ps = (p # us) @ b # vs" using b(4) by simp
    moreover have "\<forall>u \<in> set (p # us). pt_risk u < pt_risk b" using b(5) p by simp
    ultimately show ?thesis by blast
  next
    case False
    from Cons [of p] obtain b us vs where b: "best_pattern (Some p) ps = Some b" "b \<in> set (p # ps)"
        "\<forall>x \<in> set (p # ps). pt_risk x \<le> pt_risk b" "p # ps = us @ b # vs" "\<forall>u \<in> set us. pt_risk u < pt_risk b" by blast
    have q: "pt_risk q \<le> pt_risk b" using False b(3) by (meson dual_order.trans leI list.set_intros(1))
    have "\<exists>us' vs'. p # q # ps = us' @ b # vs' \<and> (\<forall>u \<in> set us'. pt_risk u < pt_risk b)"
    proof (cases us)
      case Nil
      with b(4) show ?thesis by (intro exI [of _ "[]"] exI [of _ "q # vs"]) simp
    next
      case (Cons u us')
      then have "u = p" "pt_risk p < pt_risk b" using b(4,5) by auto
      moreover from this have "pt_risk q < pt_risk b" using False by (meson not_less order.strict_trans1)
      ultimately show ?thesis using b(4,5) Cons by (intro exI [of _ "p # q # us'"] exI [of _ vs]) auto
    qed
    moreover have "best_pattern (Some p) (q # ps) = Some b" using False b(1) by simp
    moreover have "b \<in> set (p # q # ps)" using b(2) by auto
    moreover have "\<forall>x \<in> set (p # q # ps). pt_risk x \<le> pt_risk b" using b(3) q by simp
    ultimately show ?thesis by blast
  qed
qed

text \<open>the pattern analyzer reports the worst pattern that matches, the first in scan order among
  those of that risk, and lists every matching pattern; the executable corpus is scanned for the
  executable tools only.\<close>

theorem pattern_analyze_worst_first:
  assumes "strip act \<noteq> []" and "p \<in> set (patterns_to_scan (map lower_char tool))" and "hit (pt_id p) act"
  shows "\<exists>us b vs. filter (\<lambda>p. hit (pt_id p) act) (patterns_to_scan (map lower_char tool)) = us @ b # vs \<and>
    (\<forall>u \<in> set us. pt_risk u < pt_risk b) \<and> (\<forall>v \<in> set vs. pt_risk v \<le> pt_risk b) \<and>
    pattern_analyze hit act tool =
       \<lparr>ra_risk = pt_risk b, ra_detector = pt_id b, ra_reason = pt_reason b, ra_ids = map pt_id (us @ b # vs)\<rparr>"
proof -
  define ms where "ms = filter (\<lambda>p. hit (pt_id p) act) (patterns_to_scan (map lower_char tool))"
  have "p \<in> set ms" using assms(2,3) by (simp add: ms_def)
  then obtain m ms' where ms: "ms = m # ms'" by (cases ms) auto
  from best_pattern_Some [of m ms'] obtain b us vs where b: "best_pattern (Some m) ms' = Some b"
    "\<forall>q \<in> set ms. pt_risk q \<le> pt_risk b" "ms = us @ b # vs" "\<forall>u \<in> set us. pt_risk u < pt_risk b"
    unfolding ms by blast
  have best: "best_pattern None ms = Some b" using b(1) by (simp add: ms)
  show ?thesis
  proof (rule exI [of _ us], rule exI [of _ b], rule exI [of _ vs], intro conjI)
    show "filter (\<lambda>p. hit (pt_id p) act) (patterns_to_scan (map lower_char tool)) = us @ b # vs" using b(3) by (simp only: ms_def)
    show "\<forall>u \<in> set us. pt_risk u < pt_risk b" by (rule b(4))
    show "\<forall>v \<in> set vs. pt_risk v \<le> pt_risk b" using b(2,3) by simp
    show "pattern_analyze hit act tool =
       \<lparr>ra_risk = pt_risk b, ra_detector = pt_id b, ra_reason = pt_reason b, ra_ids = map pt_id (us @ b # vs)\<rparr>"
      using assms(1) best by (simp add: pattern_analyze_def ms_def [symmetric] Let_def b(3) [symmetric])
  qed
qed

theorem pattern_analyze_worst_first_witness:
  "ra_risk (pattern_analyze (\<lambda>i _. i \<in> {''pattern:eval_call'', ''pattern:rm_rf''}) ''rm -rf'' ''bash'') = HIGH"
proof -
  let ?hit = "\<lambda>i _ :: string. i \<in> {''pattern:eval_call'', ''pattern:rm_rf''}"
  let ?p = "\<lparr>pt_id = ''pattern:rm_rf'', pt_risk = HIGH, pt_reason = ''Recursive force-delete (rm -rf) detected'',
    pt_corpus = Executable\<rparr>"
  have "strip ''rm -rf'' \<noteq> []" by (simp add: strip_def is_space_def)
  moreover have p: "?p \<in> set (patterns_to_scan (map lower_char ''bash''))"
    by (simp add: patterns_to_scan_def executable_tools_def pattern_catalogue_def lower_char_def)
  ultimately obtain us b vs where b: "filter (\<lambda>p. ?hit (pt_id p) ''rm -rf'') (patterns_to_scan (map lower_char ''bash'')) = us @ b # vs"
      "\<forall>u \<in> set us. pt_risk u < pt_risk b" "\<forall>v \<in> set vs. pt_risk v \<le> pt_risk b"
      "ra_risk (pattern_analyze ?hit ''rm -rf'' ''bash'') = pt_risk b"
    using pattern_analyze_worst_first [of "''rm -rf''" ?p "''bash''" ?hit] by auto
  have "?p \<in> set (us @ b # vs)" using p unfolding b(1) [symmetric] by simp
  then consider "?p \<in> set us" | "?p = b" | "?p \<in> set vs" by auto
  then have "pt_risk ?p \<le> pt_risk b" using b(2,3) by cases (blast intro: less_imp_le order_refl)+
  then show ?thesis using b(4) by simp
qed

section \<open>Segments are judged on their own\<close>

lemma split_on_not_Nil: "split_on d t \<noteq> []"
  by (induction t) (auto split: list.split)

lemma split_on_append: "d c \<Longrightarrow> split_on d (a @ c # b) = split_on d a @ split_on d b"
proof (induction a)
  case (Cons x a)
  then show ?case using split_on_not_Nil [of d a] by (auto split: list.split)
qed simp

lemma split_segments_append: "is_delimiter c \<Longrightarrow> split_segments (a @ c # b) = split_segments a @ split_segments b"
  by (simp add: split_segments_def split_on_append)

text \<open>the rails judge each segment on its own: joining two actions with a delimiter triggers exactly
  the rails that one of them triggers, so a download in one segment and an interpreter in another
  are never taken for a pipe.\<close>

theorem rails_are_segment_local:
  assumes "is_delimiter c"
  shows "set (triggered_rails hit (split_segments (a @ c # b))) =
    set (triggered_rails hit (split_segments a)) \<union> set (triggered_rails hit (split_segments b))"
  using assms by (auto simp: split_segments_append triggered_rails_def)

theorem rails_are_segment_local_witness:
  "set (triggered_rails (\<lambda>i s. i \<noteq> ''rail:raw-disk-op'') (split_segments ''a;b'')) =
   set (triggered_rails (\<lambda>i s. i \<noteq> ''rail:raw-disk-op'') (split_segments ''a'')) \<union>
   set (triggered_rails (\<lambda>i s. i \<noteq> ''rail:raw-disk-op'') (split_segments ''b''))"
proof -
  have "is_delimiter CHR '';''" by (simp add: is_delimiter_def)
  from rails_are_segment_local [OF this, of _ "''a''" "''b''"] show ?thesis by simp
qed

section \<open>Confirmation fails open\<close>

text \<open>two ways in which the check lets an action through without confirmation: a detector that
  crashes counts as \<open>LOW\<close>, below every threshold above it; and with \<open>block_high\<close> a \<open>HIGH\<close> risk is the
  one at or above the threshold that the conversation does not confirm, although it is meant to be
  blocked.\<close>

theorem confirmation_fails_open:
  assumes "LOW < th" and "an_analyze an act tool = Raises e"
  shows "\<not> conversation_confirms (Some (ConfirmRisky \<lparr>cp_threshold = th, cp_block_high = bh\<rparr>))
            (check_security (Some an) act tool) \<and>
    (th \<le> ra_risk a \<longrightarrow>
       (conversation_confirms (Some (ConfirmRisky \<lparr>cp_threshold = th, cp_block_high = True\<rparr>)) (Some a) \<longleftrightarrow>
          ra_risk a \<noteq> HIGH))"
  using assms
  by (auto simp: conversation_confirms_def check_security_def requires_confirmation_def safe_analyze_def not_less)

theorem confirmation_fails_open_witness:
  "\<not> conversation_confirms (Some (ConfirmRisky \<lparr>cp_threshold = MEDIUM, cp_block_high = True\<rparr>))
        (check_security (Some broken_analyzer) ''rm'' ''bash'') \<and>
   \<not> conversation_confirms (Some (ConfirmRisky \<lparr>cp_threshold = MEDIUM, cp_block_high = True\<rparr>))
        (Some (no_assessment\<lparr>ra_risk := HIGH\<rparr>))"
proof -
  have "LOW < MEDIUM" by (simp add: risk_order)
  from confirmation_fails_open [OF this, of broken_analyzer "''rm''" "''bash''" "''boom''" True
      "no_assessment\<lparr>ra_risk := HIGH\<rparr>"]
  show ?thesis by (simp add: broken_analyzer_def)
qed

end
