(* ===== verification/Agent_Router.thy ===== *)
theory Agent_Router
  imports Prelude
begin

text \<open>
  \<open>app/agent/router.py\<close>: routing rules, the LRU/TTL cache of agent instances and \<open>AgentRouter\<close>.
  An \<open>OrderedDict\<close> is an association list, oldest entry first.  Parameters: \<open>search\<close> is \<open>re.search\<close>
  (\<open>None\<close> when the pattern does not compile), \<open>build\<close> imports, looks up and constructs a class
  (\<open>None\<close> when one of them raises), \<open>manus\<close> is a default agent.  The clean-up that eviction schedules
  has no effect on the registry and is left out, and so is \<open>extra_config\<close>, which nothing reads.
\<close>

section \<open>Rules\<close>

record route_rule =
  rr_channel :: string
  rr_user_id :: string
  rr_chat_id :: string
  rr_agent_name :: string
  rr_priority :: int

definition match_pattern :: "(string \<Rightarrow> string \<Rightarrow> bool option) \<Rightarrow> string \<Rightarrow> string \<Rightarrow> bool" where
  "match_pattern search p v =
     (if p = [] then True
      else if p = v then True
      else case search p v of Some b \<Rightarrow> b | None \<Rightarrow> p = v)"

definition rule_matches ::
  "(string \<Rightarrow> string \<Rightarrow> bool option) \<Rightarrow> route_rule \<Rightarrow> string \<Rightarrow> string \<Rightarrow> string \<Rightarrow> bool" where
  "rule_matches search r platform user channel =
     (if rr_channel r \<noteq> [] \<and> \<not> match_pattern search (rr_channel r) platform then False
      else if rr_user_id r \<noteq> [] \<and> \<not> match_pattern search (rr_user_id r) user then False
      else if rr_chat_id r \<noteq> [] \<and> \<not> match_pattern search (rr_chat_id r) channel then False
      else True)"

section \<open>The registry\<close>

record 'a registry =
  rg_cache :: "(string \<times> 'a) list"
  rg_last_active :: "(string \<times> time) list"
  rg_size :: int
  rg_idle_ttl :: time

definition new_registry :: "int \<Rightarrow> time \<Rightarrow> 'a registry" where
  "new_registry n ttl = \<lparr>rg_cache = [], rg_last_active = [], rg_size = n, rg_idle_ttl = ttl\<rparr>"

definition forget_key :: "string \<Rightarrow> 'a registry \<Rightarrow> 'a registry" where
  "forget_key k r =
     r\<lparr>rg_cache := AList.delete k (rg_cache r), rg_last_active := AList.delete k (rg_last_active r)\<rparr>"

definition evict_idle :: "time \<Rightarrow> 'a registry \<Rightarrow> 'a registry" where
  "evict_idle now r =
     fold forget_key (map fst (filter (\<lambda>(k, t). now - t > rg_idle_ttl r) (rg_last_active r))) r"

text \<open>The loop pops the oldest entry until there is room; \<open>popitem\<close> raises \<open>KeyError\<close> when empty.\<close>

fun pop_oldest :: "int \<Rightarrow> (string \<times> 'a) list \<Rightarrow> (string \<times> time) list \<Rightarrow>
    ((string \<times> 'a) list \<times> (string \<times> time) list) option" where
  "pop_oldest n [] la = (if 0 \<ge> n then None else Some ([], la))"
| "pop_oldest n ((k, a) # c) la =
     (if int (length ((k, a) # c)) \<ge> n then pop_oldest n c (AList.delete k la) else Some ((k, a) # c, la))"

definition evict_lru :: "'a registry \<Rightarrow> 'a registry option" where
  "evict_lru r =
     map_option (\<lambda>(c, la). r\<lparr>rg_cache := c, rg_last_active := la\<rparr>)
       (pop_oldest (rg_size r) (rg_cache r) (rg_last_active r))"

definition move_to_end :: "string \<Rightarrow> (string \<times> 'a) list \<Rightarrow> (string \<times> 'a) list" where
  "move_to_end k c = (case map_of c k of None \<Rightarrow> c | Some a \<Rightarrow> AList.delete k c @ [(k, a)])"

definition registry_get :: "time \<Rightarrow> string \<Rightarrow> 'a registry \<Rightarrow> ('a option \<times> 'a registry) option" where
  "registry_get now k r =
     map_option (\<lambda>r'. case map_of (rg_cache r') k of
         Some a \<Rightarrow> (Some a, r'\<lparr>rg_cache := move_to_end k (rg_cache r'),
                               rg_last_active := AList.update k now (rg_last_active r')\<rparr>)
       | None \<Rightarrow> (None, r'))
       (evict_lru (evict_idle now r))"

definition registry_put :: "time \<Rightarrow> string \<Rightarrow> 'a \<Rightarrow> 'a registry \<Rightarrow> 'a registry option" where
  "registry_put now k a r =
     map_option (\<lambda>r'. (if map_of (rg_cache r') k \<noteq> None
          then r'\<lparr>rg_cache := AList.update k a (move_to_end k (rg_cache r'))\<rparr>
          else r'\<lparr>rg_cache := AList.update k a (rg_cache r')\<rparr>)
         \<lparr>rg_last_active := AList.update k now (rg_last_active r')\<rparr>)
       (evict_lru (evict_idle now r))"

definition registry_remove :: "string \<Rightarrow> 'a registry \<Rightarrow> 'a option \<times> 'a registry" where
  "registry_remove k r = (map_of (rg_cache r) k, forget_key k r)"

definition cleanup_all :: "'a registry \<Rightarrow> 'a registry" where
  "cleanup_all r = r\<lparr>rg_cache := [], rg_last_active := []\<rparr>"

section \<open>The router\<close>

record agent_config =
  ac_name :: string
  ac_system_prompt :: "string option"
  ac_tools :: "string list"
  ac_sandbox_mode :: bool
  ac_workspace_dir :: string
  ac_class_path :: string

text \<open>The \<open>agents\<close> section of the configuration; \<open>None\<close> is a key that is not there.\<close>

record raw_agent =
  ra_system_prompt :: "string option"
  ra_tools :: "string list option"
  ra_sandbox_mode :: "bool option"
  ra_workspace_dir :: "string option"
  ra_class_path :: "string option"

record raw_route =
  rt_channel :: "string option"
  rt_user_id :: "string option"
  rt_chat_id :: "string option"
  rt_agent_name :: "string option"
  rt_priority :: "int option"

record agents_data =
  ad_sandbox_mode :: "bool option"
  ad_workspace_dir :: "string option"
  ad_definitions :: "(string \<times> raw_agent) list"
  ad_routes :: "raw_route list"

definition get_or :: "'b option \<Rightarrow> 'b \<Rightarrow> 'b" where
  "get_or x d = (case x of None \<Rightarrow> d | Some v \<Rightarrow> v)"

definition manus_path :: string where "manus_path = ''app.agent.manus.Manus''"

definition configs_of :: "agents_data \<Rightarrow> (string \<times> agent_config) list" where
  "configs_of d =
     (let sandbox = get_or (ad_sandbox_mode d) False; workspace = get_or (ad_workspace_dir d) ''workspace'' in
      fold (\<lambda>(name, a). AList.update name
             \<lparr>ac_name = name, ac_system_prompt = ra_system_prompt a, ac_tools = get_or (ra_tools a) [],
              ac_sandbox_mode = get_or (ra_sandbox_mode a) sandbox,
              ac_workspace_dir = get_or (ra_workspace_dir a) workspace,
              ac_class_path = get_or (ra_class_path a) manus_path\<rparr>)
        (ad_definitions d)
        [(''manus'', \<lparr>ac_name = ''manus'', ac_system_prompt = None, ac_tools = [], ac_sandbox_mode = sandbox,
                     ac_workspace_dir = workspace, ac_class_path = manus_path\<rparr>)])"

definition rule_of :: "raw_route \<Rightarrow> route_rule" where
  "rule_of r = \<lparr>rr_channel = get_or (rt_channel r) [], rr_user_id = get_or (rt_user_id r) [],
     rr_chat_id = get_or (rt_chat_id r) [], rr_agent_name = get_or (rt_agent_name r) ''manus'',
     rr_priority = get_or (rt_priority r) 0\<rparr>"

text \<open>\<open>sort\<close> with \<open>reverse=True\<close> keeps the order of equal keys.\<close>

definition rules_of :: "agents_data \<Rightarrow> route_rule list" where
  "rules_of d = sort_key (\<lambda>r. - rr_priority r) (map rule_of (ad_routes d))"

record 'a router =
  rt_configs :: "(string \<times> agent_config) list"
  rt_rules :: "route_rule list"
  rt_registry :: "'a registry"

definition parse_config :: "agents_data \<Rightarrow> 'a router" where
  "parse_config d = \<lparr>rt_configs = configs_of d, rt_rules = rules_of d, rt_registry = new_registry 64 300\<rparr>"

definition resolve_route ::
  "(string \<Rightarrow> string \<Rightarrow> bool option) \<Rightarrow> 'a router \<Rightarrow> string \<Rightarrow> string \<Rightarrow> string \<Rightarrow> string" where
  "resolve_route search rt platform user channel =
     (case List.find (\<lambda>r. rule_matches search r platform user channel) (rt_rules rt) of
        None \<Rightarrow> ''manus''
      | Some r \<Rightarrow> if rr_agent_name r \<in> fst ` set (rt_configs rt) then rr_agent_name r else ''manus'')"

definition session_key :: "string \<Rightarrow> string \<Rightarrow> string \<Rightarrow> string \<Rightarrow> string" where
  "session_key route platform user channel = route @ '':'' @ platform @ '':'' @ user @ '':'' @ channel"

text \<open>\<open>rsplit('.', 1)\<close>: the module path and the class name, when there is a dot.\<close>

definition rsplit_dot :: "string \<Rightarrow> (string \<times> string) option" where
  "rsplit_dot s =
     (if CHR ''.'' \<in> set s
      then Some (rev (tl (dropWhile (\<lambda>c. c \<noteq> CHR ''.'') (rev s))), rev (takeWhile (\<lambda>c. c \<noteq> CHR ''.'') (rev s)))
      else None)"

definition import_class :: "(string \<Rightarrow> string \<Rightarrow> 'a option) \<Rightarrow> string \<Rightarrow> 'a option" where
  "import_class build path =
     (case rsplit_dot path of
        None \<Rightarrow> None
      | Some (m, c) \<Rightarrow> if take 4 m \<noteq> ''app.'' then None else build m c)"

definition create_agent ::
  "(string \<Rightarrow> string \<Rightarrow> 'a option) \<Rightarrow> 'a \<Rightarrow> (string \<times> agent_config) list \<Rightarrow> string \<Rightarrow> 'a" where
  "create_agent build manus configs name =
     (case map_of configs name of
        None \<Rightarrow> manus
      | Some c \<Rightarrow> (case import_class build (ac_class_path c) of None \<Rightarrow> manus | Some a \<Rightarrow> a))"

text \<open>\<open>get_agent\<close> reads the clock twice: at the look-up and when it stores a new agent.\<close>

definition get_agent ::
  "(string \<Rightarrow> string \<Rightarrow> bool option) \<Rightarrow> (string \<Rightarrow> string \<Rightarrow> 'a option) \<Rightarrow> 'a \<Rightarrow> time \<Rightarrow> time \<Rightarrow>
     string \<Rightarrow> string \<Rightarrow> string \<Rightarrow> 'a router \<Rightarrow> ('a \<times> 'a router) option" where
  "get_agent search build manus t1 t2 platform user channel rt =
     (let route = resolve_route search rt platform user channel;
          key = session_key route platform user channel
      in case registry_get t1 key (rt_registry rt) of
           None \<Rightarrow> None
         | Some (Some a, rg) \<Rightarrow> Some (a, rt\<lparr>rt_registry := rg\<rparr>)
         | Some (None, rg) \<Rightarrow>
             (let a = create_agent build manus (rt_configs rt) route
              in map_option (\<lambda>rg'. (a, rt\<lparr>rt_registry := rg'\<rparr>)) (registry_put t2 key a rg)))"


section \<open>Routing\<close>

lemma find_filter: "List.find P xs = (case filter P xs of [] \<Rightarrow> None | x # _ \<Rightarrow> Some x)"
  by (induction xs) simp_all

text \<open>The first match in a list sorted by a key is the first of the matches with the least key.\<close>

lemma find_sort_key:
  assumes "x \<in> set xs" and "P x"
  shows "\<exists>us b vs. xs = us @ b # vs \<and> P b \<and> List.find P (sort_key f xs) = Some b \<and>
    (\<forall>u \<in> set us. P u \<longrightarrow> f b < f u) \<and> (\<forall>v \<in> set vs. P v \<longrightarrow> f b \<le> f v)"
proof -
  let ?ys = "filter P xs"
  have "sort_key f ?ys \<noteq> []" using assms by (auto dest: arg_cong [of _ _ set])
  then obtain b bs where b: "sort_key f ?ys = b # bs" by (cases "sort_key f ?ys") auto
  have "sorted (map f (b # bs))" unfolding b [symmetric] by simp
  then have least: "f b \<le> f y" if "y \<in> set ?ys" for y
    using that b [THEN arg_cong [of _ _ set]] by auto
  have "filter (\<lambda>y. f y = f b) ?ys = filter (\<lambda>y. f y = f b) (sort_key f ?ys)" by (rule sort_key_stable [symmetric])
  then have "filter (\<lambda>y. P y \<and> f y = f b) xs = b # filter (\<lambda>y. f y = f b) bs" by (simp add: b conj_commute)
  then obtain us vs where xs: "xs = us @ b # vs" "\<forall>u \<in> set us. \<not> (P u \<and> f u = f b)" "P b"
    unfolding filter_eq_Cons_iff by auto
  have "f b < f u" if "u \<in> set us" "P u" for u using least [of u] xs(1,2) that by force
  moreover have "f b \<le> f v" if "v \<in> set vs" "P v" for v using least [of v] xs(1) that by simp
  moreover have "List.find P (sort_key f xs) = Some b" by (simp add: find_filter filter_sort b)
  ultimately show ?thesis using xs(1,3) by blast
qed

lemma keys_fold_update: "fst ` set (fold (\<lambda>(n, a). AList.update n (g n a)) ds c) = fst ` set ds \<union> fst ` set c"
  by (induction ds arbitrary: c) (simp_all add: keys_update case_prod_beta)

lemma configs_of_keys: "fst ` set (configs_of d) = insert ''manus'' (fst ` set (ad_definitions d))"
  unfolding configs_of_def Let_def keys_fold_update by auto

text \<open>a message goes to the agent of the rule with the highest priority among those that match,
  the earliest in the configuration among equals, whatever the rules' specificity; to \<open>manus\<close> when that
  agent is not configured.\<close>

theorem route_highest_priority:
  assumes "r \<in> set (map rule_of (ad_routes d))" and "rule_matches search r platform user channel"
  shows "\<exists>us b vs. map rule_of (ad_routes d) = us @ b # vs \<and> rule_matches search b platform user channel \<and>
    (\<forall>u \<in> set us. rule_matches search u platform user channel \<longrightarrow> rr_priority u < rr_priority b) \<and>
    (\<forall>v \<in> set vs. rule_matches search v platform user channel \<longrightarrow> rr_priority v \<le> rr_priority b) \<and>
    resolve_route search (parse_config d) platform user channel =
      (if rr_agent_name b \<in> fst ` set (ad_definitions d) then rr_agent_name b else ''manus'')"
proof -
  from find_sort_key [where P = "\<lambda>r. rule_matches search r platform user channel" and f = "\<lambda>r. - rr_priority r",
      OF assms] obtain us b vs where
    b: "map rule_of (ad_routes d) = us @ b # vs" "rule_matches search b platform user channel"
      "List.find (\<lambda>r. rule_matches search r platform user channel) (rules_of d) = Some b"
      "\<forall>u \<in> set us. rule_matches search u platform user channel \<longrightarrow> - rr_priority b < - rr_priority u"
      "\<forall>v \<in> set vs. rule_matches search v platform user channel \<longrightarrow> - rr_priority b \<le> - rr_priority v"
    unfolding rules_of_def by blast
  have "resolve_route search (parse_config d) platform user channel =
      (if rr_agent_name b \<in> fst ` set (ad_definitions d) then rr_agent_name b else ''manus'')"
    by (simp add: resolve_route_def parse_config_def b(3) configs_of_keys)
  with b show ?thesis by (intro exI [of _ us] exI [of _ b] exI [of _ vs] conjI) simp_all
qed

section \<open>The cache\<close>

definition registry_ok :: "'a registry \<Rightarrow> bool" where
  "registry_ok r \<longleftrightarrow> dict_ok (rg_cache r) \<and> dict_ok (rg_last_active r) \<and>
     fst ` set (rg_cache r) = fst ` set (rg_last_active r)"

definition fresh_key :: "time \<Rightarrow> 'a registry \<Rightarrow> string \<Rightarrow> bool" where
  "fresh_key now r k \<longleftrightarrow> (case map_of (rg_last_active r) k of None \<Rightarrow> True | Some t \<Rightarrow> now - t \<le> rg_idle_ttl r)"

lemma delete_filter: "AList.delete k d = filter (\<lambda>e. fst e \<noteq> k) d"
  by (induction d) auto

lemma forget_key_sel:
  "rg_cache (forget_key k r) = filter (\<lambda>e. fst e \<noteq> k) (rg_cache r)"
  "rg_last_active (forget_key k r) = filter (\<lambda>e. fst e \<noteq> k) (rg_last_active r)"
  "rg_size (forget_key k r) = rg_size r" "rg_idle_ttl (forget_key k r) = rg_idle_ttl r"
  by (simp_all add: forget_key_def delete_filter)

lemma fold_forget:
  "rg_cache (fold forget_key ks r) = filter (\<lambda>e. fst e \<notin> set ks) (rg_cache r)"
  "rg_last_active (fold forget_key ks r) = filter (\<lambda>e. fst e \<notin> set ks) (rg_last_active r)"
  "rg_size (fold forget_key ks r) = rg_size r" "rg_idle_ttl (fold forget_key ks r) = rg_idle_ttl r"
  by (induction ks arbitrary: r) (simp_all add: forget_key_sel case_prod_beta conj_commute)

lemma keys_filter: "fst ` {e \<in> D. P (fst e)} = {k \<in> fst ` D. P k}"
  by auto

lemma dict_ok_filter: "dict_ok d \<Longrightarrow> dict_ok (filter Q d)"
  by (simp add: dict_ok_def distinct_map_filter)

lemma fresh_iff:
  assumes "registry_ok r"
  shows "k \<notin> fst ` {(k, t) \<in> set (rg_last_active r). now - t > rg_idle_ttl r} \<longleftrightarrow> fresh_key now r k"
proof -
  have "distinct (map fst (rg_last_active r))" using assms by (simp add: registry_ok_def dict_ok_def)
  then have "(k, t) \<in> set (rg_last_active r) \<longleftrightarrow> map_of (rg_last_active r) k = Some t" for t by simp
  then show ?thesis by (force simp: fresh_key_def not_less split: option.split)
qed

lemma evict_idle_eq:
  assumes "registry_ok r"
  shows "rg_cache (evict_idle now r) = filter (\<lambda>e. fresh_key now r (fst e)) (rg_cache r)"
    and "rg_last_active (evict_idle now r) = filter (\<lambda>e. fresh_key now r (fst e)) (rg_last_active r)"
    and "rg_size (evict_idle now r) = rg_size r" and "rg_idle_ttl (evict_idle now r) = rg_idle_ttl r"
  using fresh_iff [OF assms, of _ now]
  by (simp_all add: evict_idle_def fold_forget case_prod_beta image_def)

lemma evict_idle_ok: "registry_ok r \<Longrightarrow> registry_ok (evict_idle now r)"
  by (simp add: registry_ok_def [of "evict_idle now r"] evict_idle_eq keys_filter)
     (simp add: registry_ok_def dict_ok_filter)

lemma pop_oldest_eq:
  "pop_oldest n c la =
     (if n \<le> 0 then None
      else Some (py_last (nat n - 1) c, filter (\<lambda>e. fst e \<notin> fst ` set (take (length c - (nat n - 1)) c)) la))"
proof (induction n c la rule: pop_oldest.induct)
  case (2 n k a c la)
  show ?case
  proof (cases "n \<le> int (length ((k, a) # c))")
    case True
    then have "length ((k, a) # c) - (nat n - 1) = Suc (length c - (nat n - 1))" if "0 < n" using that by simp
    with 2 True show ?thesis
      by (simp add: py_last_def delete_filter case_prod_beta conj_commute Suc_diff_le)
  next
    case False
    then show ?thesis by (simp add: py_last_def)
  qed
qed (simp add: py_last_def)

text \<open>What \<open>get\<close> and \<open>put\<close> start from: the fresh entries, and of these the last \<open>size - 1\<close>.\<close>

definition retained :: "time \<Rightarrow> 'a registry \<Rightarrow> (string \<times> 'a) list" where
  "retained now r = py_last (nat (rg_size r) - 1) (filter (\<lambda>e. fresh_key now r (fst e)) (rg_cache r))"

lemma map_of_filter_key: "P k \<Longrightarrow> map_of (filter (\<lambda>x. P (fst x)) m) k = map_of m k"
  by (induction m) auto

lemma evict_Some:
  assumes "registry_ok r" and "0 < rg_size r"
  obtains r' where "evict_lru (evict_idle now r) = Some r'" "registry_ok r'" "rg_cache r' = retained now r"
    "rg_size r' = rg_size r" "rg_idle_ttl r' = rg_idle_ttl r"
    "\<And>k. k \<in> fst ` set (retained now r) \<Longrightarrow> map_of (rg_last_active r') k = map_of (rg_last_active r) k"
proof -
  define e where "e = evict_idle now r"
  define c where "c = rg_cache e"
  define n where "n = length c - (nat (rg_size r) - 1)"
  define la where "la = filter (\<lambda>x. fst x \<notin> fst ` set (take n c)) (rg_last_active e)"
  define r' where "r' = e\<lparr>rg_cache := drop n c, rg_last_active := la\<rparr>"
  have e: "registry_ok e" "rg_size e = rg_size r" "rg_idle_ttl e = rg_idle_ttl r"
    "rg_last_active e = filter (\<lambda>x. fresh_key now r (fst x)) (rg_last_active r)"
    using assms(1) by (simp_all add: e_def evict_idle_ok evict_idle_eq)
  have c: "drop n c = retained now r"
    using assms(1) by (simp add: retained_def n_def c_def e_def py_last_def evict_idle_eq)
  have d: "distinct (map fst c)" "dict_ok (rg_last_active e)" "fst ` set c = fst ` set (rg_last_active e)"
    using e(1) by (simp_all add: registry_ok_def dict_ok_def c_def)
  have split: "fst ` set (drop n c) = fst ` set c - fst ` set (take n c)"
  proof -
    have "distinct (map fst (take n c) @ map fst (drop n c))" using d(1) by (simp flip: map_append)
    moreover have "fst ` set c = fst ` set (take n c) \<union> fst ` set (drop n c)"
      by (metis append_take_drop_id image_Un set_append)
    ultimately show ?thesis by auto
  qed
  have keys: "fst ` set la = fst ` set (drop n c)"
    unfolding split d(3) la_def by auto
  have "dict_ok (drop n c)" using d(1) by (simp add: dict_ok_def drop_map [symmetric])
  moreover have "dict_ok la" using d(2) by (simp add: la_def dict_ok_filter)
  ultimately have ok: "registry_ok r'" using keys by (simp add: r'_def registry_ok_def)
  have lookup: "map_of (rg_last_active r') k = map_of (rg_last_active r) k" if "k \<in> fst ` set (retained now r)" for k
  proof -
    from that have "k \<notin> fst ` set (take n c)" unfolding c [symmetric] split by simp
    moreover have "fresh_key now r k" using that set_py_last unfolding retained_def by fastforce
    ultimately show ?thesis
      using map_of_filter_key [of "\<lambda>k. fresh_key now r k \<and> k \<notin> fst ` set (take n c)" k]
      by (simp add: r'_def la_def e(4))
  qed
  have "evict_lru e = Some r'"
    using assms(2) e(2)
    by (simp add: evict_lru_def pop_oldest_eq r'_def la_def n_def c_def py_last_def)
  then show ?thesis using that [of r'] ok lookup c e(2,3) by (simp add: e_def r'_def)
qed

lemma evict_None: "rg_size r \<le> 0 \<Longrightarrow> registry_ok r \<Longrightarrow> evict_lru (evict_idle now r) = None"
  by (simp add: evict_lru_def pop_oldest_eq evict_idle_eq)

lemma length_retained: "0 < rg_size r \<Longrightarrow> int (length (retained now r)) < rg_size r"
  by (simp add: retained_def)

lemma keys_delete: "fst ` set (AList.delete k c) = fst ` set c - {k}"
  by (induction c) auto

lemma keys_move_to_end: "fst ` set (move_to_end k c) = fst ` set c"
proof (cases "map_of c k")
  case (Some a)
  then have "k \<in> fst ` set c" by (metis domI dom_map_of_conv_image_fst)
  then show ?thesis using Some by (auto simp: move_to_end_def keys_delete)
qed (simp add: move_to_end_def)

lemma move_to_end_present:
  assumes "dict_ok c" and "map_of c k = Some a"
  shows "move_to_end k c = AList.delete k c @ [(k, a)]" and "length (move_to_end k c) = length c"
    and "dict_ok (move_to_end k c)"
proof -
  show eq: "move_to_end k c = AList.delete k c @ [(k, a)]" using assms(2) by (simp add: move_to_end_def)
  from assms(2) have k: "k \<in> fst ` set c" by (metis domI dom_map_of_conv_image_fst)
  show "dict_ok (move_to_end k c)" using assms(1) unfolding eq dict_ok_def by (simp add: distinct_delete keys_delete)
  then have "length (move_to_end k c) = card (fst ` set (move_to_end k c))"
    unfolding dict_ok_def by (metis distinct_card length_map set_map)
  also have "\<dots> = length c"
    using assms(1) unfolding keys_move_to_end dict_ok_def by (metis distinct_card length_map set_map)
  finally show "length (move_to_end k c) = length c" .
qed

text \<open>\<open>get\<close> answers from the fresh entries that survive its own eviction.  That eviction makes
  room for one more entry although none is added, so the cache holds \<open>size - 1\<close> agents for a reader: a
  registry of size 1 never hits, and one of size 0 raises \<open>KeyError\<close>.\<close>

theorem registry_get_spec:
  assumes "registry_ok r"
  shows "(rg_size r \<le> 0 \<longrightarrow> registry_get now k r = None) \<and>
    (0 < rg_size r \<longrightarrow> (\<exists>r'. registry_get now k r = Some (map_of (retained now r) k, r') \<and> registry_ok r' \<and>
       int (length (rg_cache r')) < rg_size r)) \<and>
    (rg_size r = 1 \<longrightarrow> (\<exists>r'. registry_get now k r = Some (None, r') \<and> rg_cache r' = []))"
proof (cases "0 < rg_size r")
  case True
  from evict_Some [OF assms True, of now] obtain e where
    e: "evict_lru (evict_idle now r) = Some e" "registry_ok e" "rg_cache e = retained now r" "rg_size e = rg_size r" .
  have "\<exists>r'. registry_get now k r = Some (map_of (retained now r) k, r') \<and> registry_ok r' \<and>
      int (length (rg_cache r')) < rg_size r"
  proof (cases "map_of (retained now r) k")
    case None
    then show ?thesis using e length_retained [OF True, of now] by (simp add: registry_get_def)
  next
    case (Some a)
    have d: "dict_ok (retained now r)" using e(2,3) by (simp add: registry_ok_def)
    have k: "k \<in> fst ` set (retained now r)" using Some by (metis domI dom_map_of_conv_image_fst)
    show ?thesis
      using e Some k move_to_end_present(2,3) [OF d Some] length_retained [OF True, of now]
      by (simp add: registry_get_def registry_ok_def keys_move_to_end keys_update insert_absorb)
  qed
  moreover have "\<exists>r'. registry_get now k r = Some (None, r') \<and> rg_cache r' = []" if "rg_size r = 1"
    using that e by (simp add: registry_get_def retained_def py_last_def)
  ultimately show ?thesis using True by simp
next
  case False
  then show ?thesis using evict_None [of r now] assms by (simp add: registry_get_def)
qed

definition demo_registry :: "nat registry" where
  "demo_registry = \<lparr>rg_cache = [(''a'', 1), (''b'', 2)], rg_last_active = [(''a'', 0), (''b'', 5)], rg_size = 2,
                    rg_idle_ttl = 300\<rparr>"

theorem registry_get_spec_witness:
  "\<exists>r'. registry_get 10 ''a'' demo_registry = Some (None, r')"
proof -
  have "registry_ok demo_registry" by (simp add: registry_ok_def dict_ok_def demo_registry_def)
  moreover have "map_of (retained 10 demo_registry) ''a'' = None"
    by (simp add: retained_def py_last_def fresh_key_def demo_registry_def)
  moreover have "0 < rg_size demo_registry" by (simp add: demo_registry_def)
  ultimately show ?thesis using registry_get_spec [of demo_registry 10 "''a''"] by auto
qed

section \<open>Sessions\<close>

lemma update_last: "k \<notin> fst ` set xs \<Longrightarrow> AList.update k a (xs @ [(k, b)]) = xs @ [(k, a)]"
  by (induction xs) auto

lemma registry_put_spec:
  assumes "registry_ok r" and "0 < rg_size r"
  obtains r' where "registry_put now k a r = Some r'" "registry_ok r'"
    "rg_cache r' = AList.delete k (retained now r) @ [(k, a)]" "map_of (rg_last_active r') k = Some now"
    "rg_size r' = rg_size r" "rg_idle_ttl r' = rg_idle_ttl r" "int (length (rg_cache r')) \<le> rg_size r"
proof -
  from evict_Some [OF assms, of now] obtain e where
    e: "evict_lru (evict_idle now r) = Some e" "registry_ok e" "rg_cache e = retained now r" "rg_size e = rg_size r"
      "rg_idle_ttl e = rg_idle_ttl r" .
  define r' where "r' = e\<lparr>rg_cache := AList.delete k (retained now r) @ [(k, a)],
    rg_last_active := AList.update k now (rg_last_active e)\<rparr>"
  have d: "dict_ok (retained now r)" using e(2,3) by (simp add: registry_ok_def)
  have "registry_put now k a r = Some r'"
  proof (cases "map_of (retained now r) k")
    case None
    then have "k \<notin> fst ` set (retained now r)" by (simp add: map_of_eq_None_iff)
    then show ?thesis using e None by (simp add: registry_put_def r'_def update_new delete_absent)
  next
    case (Some b)
    then show ?thesis
      using e move_to_end_present(1) [OF d Some] by (simp add: registry_put_def r'_def update_last keys_delete)
  qed
  moreover have "registry_ok r'"
    using e(2,3) by (simp add: registry_ok_def r'_def keys_update keys_delete insert_Diff_if)
       (simp add: dict_ok_def keys_delete distinct_delete)
  moreover have "int (length (rg_cache r')) \<le> rg_size r"
    using length_retained [OF assms(2), of now] length_delete_le [of k "retained now r"] by (simp add: r'_def)
  ultimately show ?thesis using that [of r'] e(4,5) by (simp add: r'_def)
qed

lemma latest_entry_hits:
  assumes "registry_ok r" and "rg_cache r = c @ [(k, a)]" and "map_of (rg_last_active r) k = Some t"
    and "now - t \<le> rg_idle_ttl r" and "1 < rg_size r"
  shows "\<exists>r'. registry_get now k r = Some (Some a, r')"
proof -
  have "fresh_key now r k" using assms(3,4) by (simp add: fresh_key_def)
  then have "filter (\<lambda>e. fresh_key now r (fst e)) (rg_cache r) = filter (\<lambda>e. fresh_key now r (fst e)) c @ [(k, a)]"
    by (simp add: assms(2))
  moreover obtain m where "nat (rg_size r) - 1 = Suc m" using assms(5) by (cases "nat (rg_size r) - 1") auto
  ultimately obtain c' where c': "retained now r = c' @ [(k, a)]" by (auto simp: retained_def py_last_def Suc_diff_le)
  have r: "0 < rg_size r" using assms(5) by simp
  from evict_Some [OF assms(1) r, of now] have "dict_ok (retained now r)" by (metis registry_ok_def)
  then have "map_of c' k = None" unfolding c' by (simp add: dict_ok_def map_of_eq_None_iff)
  then have "map_of (retained now r) k = Some a" unfolding c' by (simp add: map_add_def)
  with registry_get_spec [OF assms(1), of now k] r show ?thesis by auto
qed

lemma get_hit_is_latest:
  assumes "registry_ok r" and "registry_get now k r = Some (Some a, r')"
  obtains c where "registry_ok r'" "rg_cache r' = c @ [(k, a)]" "map_of (rg_last_active r') k = Some now"
    "rg_size r' = rg_size r" "rg_idle_ttl r' = rg_idle_ttl r"
proof -
  have r: "0 < rg_size r" using registry_get_spec [OF assms(1), of now k] assms(2) by (cases "0 < rg_size r") auto
  from evict_Some [OF assms(1) r, of now] obtain e where
    e: "evict_lru (evict_idle now r) = Some e" "registry_ok e" "rg_size e = rg_size r" "rg_idle_ttl e = rg_idle_ttl r" .
  have a: "map_of (rg_cache e) k = Some a"
    and r': "r' = e\<lparr>rg_cache := move_to_end k (rg_cache e), rg_last_active := AList.update k now (rg_last_active e)\<rparr>"
    using assms(2) e(1) by (auto simp: registry_get_def split: option.splits)
  have d: "dict_ok (rg_cache e)" using e(2) by (simp add: registry_ok_def)
  have k: "k \<in> fst ` set (rg_cache e)" using a by (metis domI dom_map_of_conv_image_fst)
  have "registry_ok r'"
    using e(2) k move_to_end_present(3) [OF d a]
    by (simp add: r' registry_ok_def keys_move_to_end keys_update insert_absorb)
  then show ?thesis using that move_to_end_present(1) [OF d a] e(3,4) by (simp add: r')
qed

lemma resolve_route_registry [simp]:
  "resolve_route search (rt\<lparr>rt_registry := g\<rparr>) platform user channel = resolve_route search rt platform user channel"
  by (simp add: resolve_route_def split: option.split)

lemma get_agent_again:
  assumes "registry_ok (rt_registry rt)" and "1 < rg_size (rt_registry rt)"
    and "resolve_route search rt p' u' c' = resolve_route search rt p u c"
    and "session_key (resolve_route search rt p u c) p' u' c' = session_key (resolve_route search rt p u c) p u c"
    and got: "get_agent search build manus t1 t2 p u c rt = Some (a, rt')"
    and "t3 - t1 \<le> rg_idle_ttl (rt_registry rt)" and "t3 - t2 \<le> rg_idle_ttl (rt_registry rt)"
  shows "\<exists>rt''. get_agent search build' manus' t3 t4 p' u' c' rt' = Some (a, rt'')"
proof -
  let ?r = "rt_registry rt"
  let ?k = "session_key (resolve_route search rt p u c) p u c"
  from registry_get_spec [OF assms(1), of t1 ?k] assms(2) obtain r1 where
    r1: "registry_get t1 ?k ?r = Some (map_of (retained t1 ?r) ?k, r1)" "registry_ok r1" by force
  have "\<exists>cs r2 t. rt' = rt\<lparr>rt_registry := r2\<rparr> \<and> registry_ok r2 \<and> rg_cache r2 = cs @ [(?k, a)] \<and>
      map_of (rg_last_active r2) ?k = Some t \<and> t \<in> {t1, t2} \<and> rg_size r2 = rg_size ?r \<and> rg_idle_ttl r2 = rg_idle_ttl ?r"
  proof (cases "map_of (retained t1 ?r) ?k")
    case (Some b)
    then have "registry_get t1 ?k ?r = Some (Some b, r1)" using r1(1) by simp
    moreover from this got have "b = a" "rt' = rt\<lparr>rt_registry := r1\<rparr>" by (simp_all add: get_agent_def Let_def)
    ultimately show ?thesis by (metis get_hit_is_latest [OF assms(1)] insertI1)
  next
    case None
    have size: "rg_size r1 = rg_size ?r" "rg_idle_ttl r1 = rg_idle_ttl ?r"
    proof -
      have pos: "0 < rg_size ?r" using assms(2) by simp
      from evict_Some [OF assms(1) pos, of t1] obtain e where
        e: "evict_lru (evict_idle t1 ?r) = Some e" "rg_cache e = retained t1 ?r" "rg_size e = rg_size ?r"
          "rg_idle_ttl e = rg_idle_ttl ?r" .
      then have "r1 = e" using r1(1) None by (simp add: registry_get_def)
      then show "rg_size r1 = rg_size ?r" "rg_idle_ttl r1 = rg_idle_ttl ?r" using e by simp_all
    qed
    have pos: "0 < rg_size r1" using size(1) assms(2) by simp
    define b where "b = create_agent build manus (rt_configs rt) (resolve_route search rt p u c)"
    from registry_put_spec [OF r1(2) pos, where now = t2 and k = ?k and a = b] obtain r2 where
      r2: "registry_put t2 ?k b r1 = Some r2" "registry_ok r2" "rg_cache r2 = AList.delete ?k (retained t2 r1) @ [(?k, b)]"
        "map_of (rg_last_active r2) ?k = Some t2" "rg_size r2 = rg_size r1" "rg_idle_ttl r2 = rg_idle_ttl r1" .
    have "registry_get t1 ?k ?r = Some (None, r1)" using r1(1) None by simp
    then have "b = a \<and> rt' = rt\<lparr>rt_registry := r2\<rparr>"
      using got r2(1) by (simp add: get_agent_def Let_def b_def)
    then show ?thesis using r2 size by auto
  qed
  then obtain cs r2 t where r2: "rt' = rt\<lparr>rt_registry := r2\<rparr>" "registry_ok r2" "rg_cache r2 = cs @ [(?k, a)]"
    "map_of (rg_last_active r2) ?k = Some t" "t \<in> {t1, t2}" "rg_size r2 = rg_size ?r" "rg_idle_ttl r2 = rg_idle_ttl ?r"
    by blast
  have "\<exists>r3. registry_get t3 ?k r2 = Some (Some a, r3)"
    by (rule latest_entry_hits [OF r2(2,3,4)]) (use r2(5,6,7) assms(2,6,7) in auto)
  then show ?thesis using assms(3,4) by (auto simp: get_agent_def Let_def r2(1))
qed

text \<open>a context gets its agent back while the agent is not idle; but the session key joins its parts
  with colons, so when ids may hold one, another user gets that same agent.\<close>

theorem session_keys_collide:
  assumes "registry_ok (rt_registry rt)" and "1 < rg_size (rt_registry rt)"
    and "get_agent search build manus t1 t2 p (u @ '':'' @ x) c rt = Some (a, rt')"
    and "t3 - t1 \<le> rg_idle_ttl (rt_registry rt)" and "t3 - t2 \<le> rg_idle_ttl (rt_registry rt)"
  shows "(\<exists>rt''. get_agent search build manus t3 t4 p (u @ '':'' @ x) c rt' = Some (a, rt'')) \<and>
    (resolve_route search rt p u (x @ '':'' @ c) = resolve_route search rt p (u @ '':'' @ x) c \<longrightarrow>
       (\<exists>rt''. get_agent search build manus t3 t4 p u (x @ '':'' @ c) rt' = Some (a, rt'')))"
proof -
  have "\<exists>rt''. get_agent search build manus t3 t4 p (u @ '':'' @ x) c rt' = Some (a, rt'')"
    by (rule get_agent_again [OF assms(1,2) refl refl assms(3-5)])
  moreover have "\<exists>rt''. get_agent search build manus t3 t4 p u (x @ '':'' @ c) rt' = Some (a, rt'')"
    if "resolve_route search rt p u (x @ '':'' @ c) = resolve_route search rt p (u @ '':'' @ x) c"
    by (rule get_agent_again [OF assms(1,2) that _ assms(3-5)]) (simp add: session_key_def)
  ultimately show ?thesis by blast
qed

definition demo_data :: agents_data where
  "demo_data = \<lparr>ad_sandbox_mode = None, ad_workspace_dir = None,
     ad_definitions = [(''coder'', \<lparr>ra_system_prompt = None, ra_tools = None, ra_sandbox_mode = None,
        ra_workspace_dir = None, ra_class_path = None\<rparr>)],
     ad_routes = [\<lparr>rt_channel = Some ''discord'', rt_user_id = None, rt_chat_id = None,
        rt_agent_name = Some ''coder'', rt_priority = Some 5\<rparr>]\<rparr>"

definition exact_search :: "string \<Rightarrow> string \<Rightarrow> bool option" where "exact_search p v = Some (p = v)"

theorem route_highest_priority_witness:
  "resolve_route exact_search (parse_config demo_data :: nat router) ''discord'' ''u'' ''c'' = ''coder''"
proof -
  let ?r = "\<lparr>rr_channel = ''discord'', rr_user_id = [], rr_chat_id = [], rr_agent_name = ''coder'', rr_priority = 5\<rparr>"
  have rules: "map rule_of (ad_routes demo_data) = [?r]" by (simp add: demo_data_def rule_of_def get_or_def)
  have m: "rule_matches exact_search ?r ''discord'' ''u'' ''c''" by (simp add: rule_matches_def match_pattern_def)
  have "?r \<in> set (map rule_of (ad_routes demo_data))" by (simp add: rules)
  from route_highest_priority [OF this m] obtain us b vs where b: "[?r] = us @ b # vs"
      "resolve_route exact_search (parse_config demo_data :: nat router) ''discord'' ''u'' ''c'' =
         (if rr_agent_name b \<in> fst ` set (ad_definitions demo_data) then rr_agent_name b else ''manus'')"
    unfolding rules by blast
  have "b = ?r" using b(1) by (cases us) auto
  then show ?thesis using b(2) by (simp add: demo_data_def)
qed

theorem session_keys_collide_witness:
  "\<exists>a rt'. get_agent exact_search (\<lambda>_ _. None) (7 :: nat) 0 1 ''p'' ''u:x'' ''c'' (parse_config demo_data) = Some (a, rt') \<and>
     (\<exists>rt''. get_agent exact_search (\<lambda>_ _. None) 7 2 3 ''p'' ''u'' ''x:c'' rt' = Some (a, rt''))"
proof -
  let ?rt = "parse_config demo_data :: nat router"
  have ok: "registry_ok (rt_registry ?rt)" "1 < rg_size (rt_registry ?rt)" "rg_idle_ttl (rt_registry ?rt) = 300"
    by (simp_all add: parse_config_def new_registry_def registry_ok_def)
  have route: "resolve_route exact_search ?rt ''p'' v w = ''manus''" for v w
    by (simp add: resolve_route_def parse_config_def rules_of_def demo_data_def rule_of_def get_or_def
        rule_matches_def match_pattern_def exact_search_def)
  have "\<exists>a rt'. get_agent exact_search (\<lambda>_ _. None) 7 0 1 ''p'' ''u:x'' ''c'' ?rt = Some (a, rt')"
  proof -
    let ?k = "session_key ''manus'' ''p'' ''u:x'' ''c''"
    have "evict_idle 0 (rt_registry ?rt) = rt_registry ?rt"
      by (simp add: evict_idle_def parse_config_def new_registry_def)
    then have get: "registry_get 0 ?k (rt_registry ?rt) = Some (None, rt_registry ?rt)"
      by (simp add: registry_get_def evict_lru_def parse_config_def new_registry_def)
    have "0 < rg_size (rt_registry ?rt)" using ok(2) by simp
    from registry_put_spec [OF ok(1) this, where now = 1 and k = ?k and
        a = "create_agent (\<lambda>_ _. None) 7 (rt_configs ?rt) ''manus''"]
    obtain rg where put: "registry_put 1 ?k (create_agent (\<lambda>_ _. None) 7 (rt_configs ?rt) ''manus'') (rt_registry ?rt) = Some rg" .
    show ?thesis unfolding get_agent_def Let_def route get by (simp add: put)
  qed
  then obtain a rt' where got: "get_agent exact_search (\<lambda>_ _. None) 7 0 1 ''p'' (''u'' @ '':'' @ ''x'') ''c'' ?rt = Some (a, rt')"
    by auto
  from session_keys_collide [OF ok(1,2) got, of 2 3] ok(3) route
  have "\<exists>rt''. get_agent exact_search (\<lambda>_ _. None) 7 2 3 ''p'' ''u'' ''x:c'' rt' = Some (a, rt'')" by auto
  with got show ?thesis by auto
qed

end
