(* ===== verification/Llm_Retry.thy ===== *)
theory Llm_Retry
  imports Prelude
begin

text \<open>
  \<open>app/llm/retry.py\<close>: the classification of errors, their mapping to the program's own exceptions
  (\<open>app/exceptions.py\<close>), the back-off strategies and the retry executors.  An exception is the record
  of what the code reads of it.  Parameters: the outcome of every call, the time elapsed at every
  budget check, the random draws, and the two regular expressions that find a waiting time in a
  message.  The synchronous and the asynchronous executor are the same code around \<open>await\<close>.
\<close>

section \<open>Errors\<close>

datatype category = RATE_LIMIT | CONTEXT_WINDOW | AUTH | SERVICE_UNAVAILABLE | SERVER_ERROR | TIMEOUT
  | CONNECTION | BAD_REQUEST | VALIDATION | QUOTA | CONTENT_FILTER | UNKNOWN_ERROR

text \<open>The class as the chain of \<open>isinstance\<close> tests sees it, and an attribute that may be absent or no
  integer.\<close>

datatype err_class = TokenLimitExceeded | RateLimitError | LLMAuthError | NonRetryableError
  | RetryableError | ForeignError

datatype attr = Absent | IntAttr int | OtherAttr

record raw_error =
  er_class :: err_class
  er_status_code :: attr
  er_http_status :: attr
  er_response_status :: attr
  er_msg :: string
  er_retry_after :: "time option"
  er_header_retry_after :: "time option"

definition status_category :: "int \<Rightarrow> category option" where
  "status_category n = map_of
     [(400, BAD_REQUEST), (401, AUTH), (403, AUTH), (404, BAD_REQUEST), (408, TIMEOUT), (429, RATE_LIMIT),
      (500, SERVER_ERROR), (502, SERVER_ERROR), (503, SERVICE_UNAVAILABLE), (504, SERVER_ERROR),
      (529, RATE_LIMIT)] n"

definition retryable_categories :: "category list" where
  "retryable_categories = [RATE_LIMIT, SERVICE_UNAVAILABLE, SERVER_ERROR, TIMEOUT, CONNECTION]"

definition status_of :: "raw_error \<Rightarrow> attr" where
  "status_of e =
     (if er_status_code e \<noteq> Absent then er_status_code e
      else if er_http_status e \<noteq> Absent then er_http_status e
      else er_response_status e)"

definition category_by_status :: "raw_error \<Rightarrow> category option" where
  "category_by_status e =
     (case status_of e of IntAttr n \<Rightarrow> (if n = 0 then None else status_category n) | _ \<Rightarrow> None)"

definition keyword_rules :: "(string list \<times> category) list" where
  "keyword_rules =
     [([''rate limit'', ''rate_limit'', ''too many requests'', ''429''], RATE_LIMIT),
      ([''context window'', ''token limit'', ''max_tokens'', ''context_length''], CONTEXT_WINDOW),
      ([''unauthorized'', ''invalid api key'', ''authentication'', ''forbidden''], AUTH),
      ([''timeout'', ''timed out'', ''deadline exceeded''], TIMEOUT),
      ([''connection'', ''network'', ''reset'', ''broken pipe'', ''refused''], CONNECTION),
      ([''service unavailable'', ''overloaded'', ''capacity''], SERVICE_UNAVAILABLE),
      ([''bad request'', ''invalid'', ''validation''], BAD_REQUEST),
      ([''quota'', ''billing'', ''limit exceeded''], QUOTA),
      ([''content_filter'', ''content policy'', ''safety''], CONTENT_FILTER)]"

definition contains :: "string \<Rightarrow> string \<Rightarrow> bool" where
  "contains msg kw \<longleftrightarrow> sublist kw msg"

definition category_by_keyword :: "string \<Rightarrow> category option" where
  "category_by_keyword msg =
     map_option snd (List.find (\<lambda>(kws, _). list_ex (contains msg) kws) keyword_rules)"

definition category_by_provider :: "string \<Rightarrow> string \<Rightarrow> category" where
  "category_by_provider provider msg =
     (let p = map lower_char provider in
      if p = ''anthropic'' then (if contains msg ''overloaded'' then SERVICE_UNAVAILABLE else UNKNOWN_ERROR)
      else if p = ''openai'' then (if contains msg ''insufficient_quota'' then QUOTA else UNKNOWN_ERROR)
      else if p = ''google'' then (if contains msg ''resource_exhausted'' then RATE_LIMIT else UNKNOWN_ERROR)
      else UNKNOWN_ERROR)"

definition classify_error :: "raw_error \<Rightarrow> string \<Rightarrow> category" where
  "classify_error e provider =
     (case er_class e of
        TokenLimitExceeded \<Rightarrow> CONTEXT_WINDOW
      | RateLimitError \<Rightarrow> RATE_LIMIT
      | LLMAuthError \<Rightarrow> AUTH
      | NonRetryableError \<Rightarrow> UNKNOWN_ERROR
      | RetryableError \<Rightarrow> SERVER_ERROR
      | ForeignError \<Rightarrow>
          (case category_by_status e of
             Some c \<Rightarrow> c
           | None \<Rightarrow>
               let msg = map lower_char (er_msg e) in
               case category_by_keyword msg of
                 Some c \<Rightarrow> c
               | None \<Rightarrow> category_by_provider provider msg))"

definition is_retryable :: "raw_error \<Rightarrow> string \<Rightarrow> bool" where
  "is_retryable e provider \<longleftrightarrow> classify_error e provider \<in> set retryable_categories"

text \<open>\<open>float(...)\<close> of the attribute and of the header, \<open>None\<close> when there is none or it is no number.\<close>

definition extract_retry_after ::
  "(string \<Rightarrow> time option) \<Rightarrow> (string \<Rightarrow> time option) \<Rightarrow> raw_error \<Rightarrow> time" where
  "extract_retry_after rx_retry rx_wait e =
     (case er_retry_after e of Some t \<Rightarrow> t
      | None \<Rightarrow> (case er_header_retry_after e of Some t \<Rightarrow> t
      | None \<Rightarrow> (case rx_retry (map lower_char (er_msg e)) of Some t \<Rightarrow> t
      | None \<Rightarrow> (case rx_wait (map lower_char (er_msg e)) of Some t \<Rightarrow> t | None \<Rightarrow> 5))))"

record llm_error =
  le_class :: err_class
  le_msg :: string
  le_wait_s :: "time option"

definition map_provider_exception ::
  "(raw_error \<Rightarrow> time) \<Rightarrow> raw_error \<Rightarrow> string \<Rightarrow> string \<Rightarrow> llm_error" where
  "map_provider_exception retry_after e provider model =
     (let c = classify_error e provider;
          msg = (if model \<noteq> [] then ''['' @ model @ ''] '' @ er_msg e else er_msg e)
      in if c = RATE_LIMIT then \<lparr>le_class = RateLimitError, le_msg = msg, le_wait_s = Some (retry_after e)\<rparr>
         else if c = CONTEXT_WINDOW then \<lparr>le_class = TokenLimitExceeded, le_msg = msg, le_wait_s = None\<rparr>
         else if c = AUTH then \<lparr>le_class = LLMAuthError, le_msg = msg, le_wait_s = None\<rparr>
         else if c \<in> set retryable_categories
           then \<lparr>le_class = RetryableError, le_msg = msg, le_wait_s = Some 2\<rparr>
         else \<lparr>le_class = NonRetryableError, le_msg = msg, le_wait_s = None\<rparr>)"

text \<open>A mapped error as the next layer sees it: \<open>wait_s\<close> is no attribute that the code above reads.\<close>

definition as_raw :: "llm_error \<Rightarrow> raw_error" where
  "as_raw e = \<lparr>er_class = le_class e, er_status_code = Absent, er_http_status = Absent,
     er_response_status = Absent, er_msg = le_msg e, er_retry_after = None, er_header_retry_after = None\<rparr>"

section \<open>Back-off\<close>

datatype backoff_strategy = FIXED | LINEAR | EXPONENTIAL | EXPONENTIAL_JITTER | DECORRELATED_JITTER

record retry_config =
  rc_max_retries :: int
  rc_base_wait :: time
  rc_max_wait :: time
  rc_strategy :: backoff_strategy
  rc_budget :: time
  rc_provider :: string

definition default_retry_config :: retry_config where
  "default_retry_config = \<lparr>rc_max_retries = 8, rc_base_wait = 1, rc_max_wait = 60,
     rc_strategy = EXPONENTIAL_JITTER, rc_budget = 300, rc_provider = []\<rparr>"

text \<open>\<open>random.uniform(a, b)\<close> for a draw \<open>u\<close> between 0 and 1.\<close>

definition uniform :: "real \<Rightarrow> real \<Rightarrow> real \<Rightarrow> real" where
  "uniform u a b = a + (b - a) * u"

definition compute_wait :: "retry_config \<Rightarrow> real \<Rightarrow> nat \<Rightarrow> time \<Rightarrow> time" where
  "compute_wait cfg u attempt last_wait =
     (case rc_strategy cfg of
        FIXED \<Rightarrow> rc_base_wait cfg
      | LINEAR \<Rightarrow> min (rc_base_wait cfg * real attempt) (rc_max_wait cfg)
      | EXPONENTIAL \<Rightarrow> min (rc_base_wait cfg * 2 ^ (attempt - 1)) (rc_max_wait cfg)
      | EXPONENTIAL_JITTER \<Rightarrow>
          (let w = rc_base_wait cfg * 2 ^ (attempt - 1) in min (w + uniform u 0 (w / 2)) (rc_max_wait cfg))
      | DECORRELATED_JITTER \<Rightarrow>
          (let l = (if last_wait = 0 then rc_base_wait cfg else last_wait)
           in min (uniform u (rc_base_wait cfg) (l * 3)) (rc_max_wait cfg)))"

section \<open>The executor\<close>

record retry_metrics =
  rm_total_attempts :: nat
  rm_total_retries :: nat
  rm_total_retry_time :: time
  rm_first_try :: nat
  rm_after_retry :: nat
  rm_exhausted :: nat
  rm_budget_exhausted :: nat
  rm_by_category :: "(category \<times> nat) list"
  rm_by_provider :: "(string \<times> nat) list"

definition new_retry_metrics :: retry_metrics where
  "new_retry_metrics = \<lparr>rm_total_attempts = 0, rm_total_retries = 0, rm_total_retry_time = 0, rm_first_try = 0,
     rm_after_retry = 0, rm_exhausted = 0, rm_budget_exhausted = 0, rm_by_category = [], rm_by_provider = []\<rparr>"

definition bump :: "'k \<Rightarrow> ('k \<times> nat) list \<Rightarrow> ('k \<times> nat) list" where
  "bump k d = AList.update k (case map_of d k of None \<Rightarrow> 1 | Some n \<Rightarrow> n + 1) d"

definition record_attempt ::
  "bool \<Rightarrow> nat \<Rightarrow> time \<Rightarrow> category option \<Rightarrow> string \<Rightarrow> retry_metrics \<Rightarrow> retry_metrics" where
  "record_attempt ok retries retry_time cat provider m =
     (let m1 = m\<lparr>rm_total_attempts := rm_total_attempts m + 1,
                 rm_total_retries := rm_total_retries m + retries,
                 rm_total_retry_time := rm_total_retry_time m + retry_time\<rparr>;
          m2 = (if ok \<and> retries = 0 then m1\<lparr>rm_first_try := rm_first_try m1 + 1\<rparr>
                else if ok then m1\<lparr>rm_after_retry := rm_after_retry m1 + 1\<rparr>
                else m1\<lparr>rm_exhausted := rm_exhausted m1 + 1\<rparr>);
          m3 = (case cat of None \<Rightarrow> m2 | Some c \<Rightarrow> m2\<lparr>rm_by_category := bump c (rm_by_category m2)\<rparr>)
      in if provider \<noteq> [] then m3\<lparr>rm_by_provider := bump provider (rm_by_provider m3)\<rparr> else m3)"

definition record_budget_exhausted :: "retry_metrics \<Rightarrow> retry_metrics" where
  "record_budget_exhausted m = m\<lparr>rm_budget_exhausted := rm_budget_exhausted m + 1\<rparr>"

definition first_try_success_rate :: "retry_metrics \<Rightarrow> real" where
  "first_try_success_rate m =
     (if rm_total_attempts m = 0 then 0 else real (rm_first_try m) / real (rm_total_attempts m))"

definition overall_success_rate :: "retry_metrics \<Rightarrow> real" where
  "overall_success_rate m =
     (if rm_total_attempts m = 0 then 0
      else real (rm_first_try m + rm_after_retry m) / real (rm_total_attempts m))"

record retry_state =
  rs_last_wait :: time
  rs_retries :: nat
  rs_last_error :: "raw_error option"
  rs_slept :: "time list"
  rs_metrics :: retry_metrics

text \<open>The world of one call of \<open>execute\<close>: what attempt \<open>n\<close> does, the time elapsed before it and when
  it is over, the draw.\<close>

record 'v world =
  w_call :: "nat \<Rightarrow> raw_error + 'v"
  w_elapsed :: "nat \<Rightarrow> time"
  w_done :: "nat \<Rightarrow> time"
  w_draw :: "nat \<Rightarrow> real"
  w_retry_after :: "raw_error \<Rightarrow> time"

definition raise_last :: "retry_config \<Rightarrow> 'v world \<Rightarrow> string \<Rightarrow> retry_state \<Rightarrow> llm_error" where
  "raise_last cfg w otherwise s =
     (case rs_last_error s of
        Some e \<Rightarrow> map_provider_exception (w_retry_after w) e (rc_provider cfg) []
      | None \<Rightarrow> \<lparr>le_class = NonRetryableError, le_msg = otherwise, le_wait_s = None\<rparr>)"

text \<open>What happens between a retryable failure and the next attempt.\<close>

definition retry_wait :: "retry_config \<Rightarrow> 'v world \<Rightarrow> nat \<Rightarrow> raw_error \<Rightarrow> retry_state \<Rightarrow> retry_state" where
  "retry_wait cfg w n e s =
     (let wait = compute_wait cfg (w_draw w n) (n + 1) (rs_last_wait s);
          slept = (if classify_error e (rc_provider cfg) = RATE_LIMIT then max wait (w_retry_after w e) else wait)
      in s\<lparr>rs_last_wait := wait, rs_retries := rs_retries s + 1, rs_last_error := Some e,
           rs_slept := rs_slept s @ [slept]\<rparr>)"

fun retry_loop ::
  "retry_config \<Rightarrow> category list \<Rightarrow> 'v world \<Rightarrow> nat list \<Rightarrow> retry_state \<Rightarrow> (llm_error + 'v) \<times> retry_state" where
  "retry_loop cfg cats w [] s = (Inl (raise_last cfg w ''Retry executor reached unreachable state'' s), s)"
| "retry_loop cfg cats w (n # ns) s =
     (if rc_budget cfg > 0 \<and> rs_retries s > 0 \<and> w_elapsed w n \<ge> rc_budget cfg
      then (Inl (raise_last cfg w ''Retry budget exhausted'' s),
            s\<lparr>rs_metrics := record_budget_exhausted (rs_metrics s)\<rparr>)
      else case w_call w n of
        Inr v \<Rightarrow>
          (Inr v, s\<lparr>rs_metrics := record_attempt True (rs_retries s)
             (if rs_retries s > 0 then w_done w n else 0) None (rc_provider cfg) (rs_metrics s)\<rparr>)
      | Inl e \<Rightarrow>
          let cat = classify_error e (rc_provider cfg);
              err = map_provider_exception (w_retry_after w) e (rc_provider cfg) []
          in if cat \<notin> set cats
             then (Inl err, s\<lparr>rs_last_error := Some e,
                     rs_metrics := record_attempt False (rs_retries s) 0 (Some cat) (rc_provider cfg) (rs_metrics s)\<rparr>)
             else if int n \<ge> rc_max_retries cfg
             then (Inl err, s\<lparr>rs_last_error := Some e,
                     rs_metrics := record_attempt False (rs_retries s) (w_done w n) (Some cat) (rc_provider cfg)
                                     (rs_metrics s)\<rparr>)
             else retry_loop cfg cats w ns (retry_wait cfg w n e s))"

definition retry_cats :: "category list option \<Rightarrow> category list" where
  "retry_cats retry_on = (case retry_on of None \<Rightarrow> retryable_categories | Some [] \<Rightarrow> retryable_categories | Some cs \<Rightarrow> cs)"

definition initial_retry_state :: "retry_metrics \<Rightarrow> retry_state" where
  "initial_retry_state m =
     \<lparr>rs_last_wait = 0, rs_retries = 0, rs_last_error = None, rs_slept = [], rs_metrics = m\<rparr>"

definition retry_execute ::
  "retry_config \<Rightarrow> category list option \<Rightarrow> 'v world \<Rightarrow> retry_metrics \<Rightarrow> (llm_error + 'v) \<times> retry_state" where
  "retry_execute cfg retry_on w m =
     retry_loop cfg (retry_cats retry_on) w [0..<nat (rc_max_retries cfg + 1)] (initial_retry_state m)"

section \<open>Waiting times\<close>

definition wait_cap :: "retry_config \<Rightarrow> time" where
  "wait_cap cfg = (if rc_strategy cfg = FIXED then rc_base_wait cfg else rc_max_wait cfg)"

lemma uniform_nonneg: "0 \<le> u \<Longrightarrow> u \<le> 1 \<Longrightarrow> 0 \<le> a \<Longrightarrow> 0 \<le> b \<Longrightarrow> 0 \<le> uniform u a b"
proof -
  assume "0 \<le> u" "u \<le> 1" "0 \<le> a" "0 \<le> b"
  hence "0 \<le> a * (1 - u) + b * u" by simp
  thus ?thesis by (simp add: uniform_def algebra_simps)
qed

lemma compute_wait_range:
  assumes "0 \<le> u" "u \<le> 1" "0 \<le> rc_base_wait cfg" "0 \<le> rc_max_wait cfg" "0 \<le> l"
  shows "0 \<le> compute_wait cfg u n l" and "compute_wait cfg u n l \<le> wait_cap cfg"
  using assms
  by (cases "rc_strategy cfg"; auto simp: compute_wait_def wait_cap_def Let_def intro!: uniform_nonneg add_nonneg_nonneg)+

section \<open>The loop\<close>

definition starts :: "retry_config \<Rightarrow> 'v world \<Rightarrow> nat \<Rightarrow> bool" where
  "starts cfg w n \<longleftrightarrow> n = 0 \<or> \<not> (rc_budget cfg > 0 \<and> w_elapsed w n \<ge> rc_budget cfg)"

definition retried :: "retry_config \<Rightarrow> category list \<Rightarrow> 'v world \<Rightarrow> nat \<Rightarrow> bool" where
  "retried cfg cats w n \<longleftrightarrow>
     (case w_call w n of Inl e \<Rightarrow> classify_error e (rc_provider cfg) \<in> set cats | Inr _ \<Rightarrow> False)"

lemma retry_wait_simps [simp]:
  "rs_retries (retry_wait cfg w n e s) = Suc (rs_retries s)"
  "rs_last_error (retry_wait cfg w n e s) = Some e"
  "rs_metrics (retry_wait cfg w n e s) = rs_metrics s"
  "length (rs_slept (retry_wait cfg w n e s)) = Suc (length (rs_slept s))"
  by (simp_all add: retry_wait_def Let_def)

text \<open>The state after \<open>n\<close> retries: every earlier attempt started, failed with an error to retry on,
  and was slept after.\<close>

definition after_retries :: "retry_config \<Rightarrow> category list \<Rightarrow> 'v world \<Rightarrow> nat \<Rightarrow> retry_state \<Rightarrow> bool" where
  "after_retries cfg cats w n s \<longleftrightarrow>
     rs_retries s = n \<and> length (rs_slept s) = n \<and> (\<forall>k<n. starts cfg w k \<and> retried cfg cats w k) \<and>
     (case n of 0 \<Rightarrow> rs_last_error s = None
      | Suc k \<Rightarrow> \<exists>e. w_call w k = Inl e \<and> rs_last_error s = Some e)"

lemma starts_iff:
  "after_retries cfg cats w n s \<Longrightarrow>
     (rc_budget cfg > 0 \<and> rs_retries s > 0 \<and> w_elapsed w n \<ge> rc_budget cfg) \<longleftrightarrow> \<not> starts cfg w n"
  by (auto simp: after_retries_def starts_def)

lemma loop_step:
  assumes "after_retries cfg cats w n s" "starts cfg w n" "retried cfg cats w n" "int n < rc_max_retries cfg"
  shows "\<exists>s'. retry_loop cfg cats w (n # ns) s = retry_loop cfg cats w ns s' \<and>
              after_retries cfg cats w (Suc n) s' \<and> rs_metrics s' = rs_metrics s"
proof -
  obtain e where e: "w_call w n = Inl e" "classify_error e (rc_provider cfg) \<in> set cats"
    using assms(3) by (auto simp: retried_def split: sum.splits)
  have "retry_loop cfg cats w (n # ns) s = retry_loop cfg cats w ns (retry_wait cfg w n e s)"
    using assms(2,4) e starts_iff [OF assms(1)] by (auto simp: Let_def)
  moreover have "after_retries cfg cats w (Suc n) (retry_wait cfg w n e s)"
    using assms(1-3) e by (auto simp: after_retries_def less_Suc_eq)
  ultimately show ?thesis by (meson retry_wait_simps(3))
qed

lemma loop_last_attempt:
  assumes "after_retries cfg cats w i s" "int i \<le> rc_max_retries cfg"
  shows "\<exists>n s'. int n \<le> rc_max_retries cfg \<and> after_retries cfg cats w n s' \<and> rs_metrics s' = rs_metrics s \<and>
     (\<not> starts cfg w n \<or> \<not> retried cfg cats w n \<or> int n = rc_max_retries cfg) \<and>
     retry_loop cfg cats w [i..<nat (rc_max_retries cfg + 1)] s =
       retry_loop cfg cats w (n # [Suc n..<nat (rc_max_retries cfg + 1)]) s'"
  using assms
proof (induction "nat (rc_max_retries cfg) - i" arbitrary: i s)
  case 0
  hence "[i..<nat (rc_max_retries cfg + 1)] = i # [Suc i..<nat (rc_max_retries cfg + 1)]"
    by (simp add: upt_rec)
  with 0 show ?case by (intro exI [of _ i] exI [of _ s]) auto
next
  case (Suc d)
  have split: "[i..<nat (rc_max_retries cfg + 1)] = i # [Suc i..<nat (rc_max_retries cfg + 1)]"
    using Suc.prems by (simp add: upt_rec)
  show ?case
  proof (cases "starts cfg w i \<and> retried cfg cats w i")
    case True
    moreover have "int i < rc_max_retries cfg" using Suc.hyps(2) by simp
    ultimately obtain s' where s': "retry_loop cfg cats w [i..<nat (rc_max_retries cfg + 1)] s =
        retry_loop cfg cats w [Suc i..<nat (rc_max_retries cfg + 1)] s'"
      "after_retries cfg cats w (Suc i) s'" "rs_metrics s' = rs_metrics s"
      using loop_step [OF Suc.prems(1)] split by metis
    have "d = nat (rc_max_retries cfg) - Suc i" "int (Suc i) \<le> rc_max_retries cfg"
      using Suc.hyps(2) by simp_all
    from Suc.hyps(1) [OF this(1) s'(2) this(2)] show ?thesis unfolding s'(1) s'(3) .
  next
    case False
    thus ?thesis unfolding split using Suc.prems by (intro exI [of _ i] exI [of _ s]) auto
  qed
qed

text \<open>What the last attempt makes of its outcome.\<close>

lemma last_attempt_result:
  assumes "after_retries cfg cats w n s" "\<not> starts cfg w n \<or> \<not> retried cfg cats w n \<or> int n = rc_max_retries cfg"
  shows "fst (retry_loop cfg cats w (n # ns) s) =
     (if \<not> starts cfg w n
      then Inl (map_provider_exception (w_retry_after w) (projl (w_call w (n - 1))) (rc_provider cfg) [])
      else case w_call w n of Inr v \<Rightarrow> Inr v
      | Inl e \<Rightarrow> Inl (map_provider_exception (w_retry_after w) e (rc_provider cfg) []))"
proof (cases "starts cfg w n")
  case True
  thus ?thesis using assms starts_iff [OF assms(1)]
    by (auto simp: Let_def retried_def split: sum.splits)
next
  case False
  then obtain k where k: "n = Suc k" by (cases n) (auto simp: starts_def)
  then obtain e where "w_call w k = Inl e" "rs_last_error s = Some e"
    using assms(1) by (auto simp: after_retries_def)
  thus ?thesis using False k starts_iff [OF assms(1)] by (auto simp: raise_last_def)
qed

lemma execute_last_attempt:
  assumes "0 \<le> rc_max_retries cfg"
  shows "\<exists>n s'. int n \<le> rc_max_retries cfg \<and> after_retries cfg (retry_cats r) w n s' \<and> rs_metrics s' = m \<and>
     (\<not> starts cfg w n \<or> \<not> retried cfg (retry_cats r) w n \<or> int n = rc_max_retries cfg) \<and>
     retry_execute cfg r w m = retry_loop cfg (retry_cats r) w (n # [Suc n..<nat (rc_max_retries cfg + 1)]) s'"
proof -
  have "after_retries cfg (retry_cats r) w 0 (initial_retry_state m)" "rs_metrics (initial_retry_state m) = m"
    by (simp_all add: after_retries_def initial_retry_state_def)
  thus ?thesis unfolding retry_execute_def using loop_last_attempt [of cfg _ w 0] assms by fastforce
qed

text \<open>The attempt that decides: the first that is not started, not to be retried, or the last allowed.\<close>

definition deciding :: "retry_config \<Rightarrow> category list \<Rightarrow> 'v world \<Rightarrow> nat \<Rightarrow> bool" where
  "deciding cfg cats w n \<longleftrightarrow> int n \<le> rc_max_retries cfg \<and> (\<forall>k<n. starts cfg w k \<and> retried cfg cats w k) \<and>
     (\<not> starts cfg w n \<or> \<not> retried cfg cats w n \<or> int n = rc_max_retries cfg)"

lemma deciding_unique:
  assumes "deciding cfg cats w n" "deciding cfg cats w k"
  shows "n = k"
proof (rule ccontr)
  assume "n \<noteq> k"
  hence "n < k \<or> k < n" by arith
  thus False using assms by (auto simp: deciding_def)
qed

lemma execute_result:
  assumes "deciding cfg (retry_cats r) w n"
  shows "fst (retry_execute cfg r w m) =
     (if \<not> starts cfg w n
      then Inl (map_provider_exception (w_retry_after w) (projl (w_call w (n - 1))) (rc_provider cfg) [])
      else case w_call w n of Inr v \<Rightarrow> Inr v
      | Inl e \<Rightarrow> Inl (map_provider_exception (w_retry_after w) e (rc_provider cfg) []))"
proof -
  have "0 \<le> rc_max_retries cfg" using assms by (simp add: deciding_def)
  then obtain k s where k: "int k \<le> rc_max_retries cfg" "after_retries cfg (retry_cats r) w k s"
      "\<not> starts cfg w k \<or> \<not> retried cfg (retry_cats r) w k \<or> int k = rc_max_retries cfg"
      "retry_execute cfg r w m = retry_loop cfg (retry_cats r) w (k # [Suc k..<nat (rc_max_retries cfg + 1)]) s"
    using execute_last_attempt by metis
  hence "deciding cfg (retry_cats r) w k" by (simp add: deciding_def after_retries_def)
  from deciding_unique [OF assms this] show ?thesis using last_attempt_result [OF k(2,3)] k(4) by simp
qed

lemma deciding_exists: "0 \<le> rc_max_retries cfg \<Longrightarrow> \<exists>n. deciding cfg (retry_cats r) w n"
  using execute_last_attempt unfolding deciding_def after_retries_def by blast

lemma returned_value:
  assumes "fst (retry_execute cfg r w m) = Inr v" "0 \<le> rc_max_retries cfg"
  shows "\<exists>n. deciding cfg (retry_cats r) w n \<and> starts cfg w n \<and> w_call w n = Inr v"
proof -
  obtain n where n: "deciding cfg (retry_cats r) w n" using deciding_exists [OF assms(2)] by blast
  thus ?thesis using execute_result [OF n] assms(1) by (auto split: if_splits sum.splits)
qed

text \<open>With a retry allowance of at least 0, the executor returns a value exactly if some attempt
  within the allowance returns it, all earlier attempts failed with errors to retry on, and the time
  budget was not used up when any of them was to start.\<close>

theorem retry_returns_iff:
  assumes "0 \<le> rc_max_retries cfg"
  shows "fst (retry_execute cfg r w m) = Inr v \<longleftrightarrow>
     (\<exists>n. int n \<le> rc_max_retries cfg \<and> w_call w n = Inr v \<and>
        (\<forall>k<n. retried cfg (retry_cats r) w k) \<and> (\<forall>k\<le>n. starts cfg w k))"
proof
  assume "fst (retry_execute cfg r w m) = Inr v"
  from returned_value [OF this assms] obtain n
    where n: "deciding cfg (retry_cats r) w n" "starts cfg w n" "w_call w n = Inr v" by blast
  have "starts cfg w k" if "k \<le> n" for k using that n by (cases "k = n") (simp_all add: deciding_def)
  thus "\<exists>n. int n \<le> rc_max_retries cfg \<and> w_call w n = Inr v \<and>
      (\<forall>k<n. retried cfg (retry_cats r) w k) \<and> (\<forall>k\<le>n. starts cfg w k)"
    using n by (intro exI [of _ n]) (simp add: deciding_def)
next
  assume "\<exists>n. int n \<le> rc_max_retries cfg \<and> w_call w n = Inr v \<and>
      (\<forall>k<n. retried cfg (retry_cats r) w k) \<and> (\<forall>k\<le>n. starts cfg w k)"
  then obtain n where n: "int n \<le> rc_max_retries cfg" "w_call w n = Inr v"
      "\<forall>k<n. retried cfg (retry_cats r) w k" "\<forall>k\<le>n. starts cfg w k" by blast
  hence "deciding cfg (retry_cats r) w n" by (simp add: deciding_def retried_def)
  from execute_result [OF this] show "fst (retry_execute cfg r w m) = Inr v" using n by simp
qed

definition flaky_error :: raw_error where
  "flaky_error = \<lparr>er_class = ForeignError, er_status_code = IntAttr 429, er_http_status = Absent,
     er_response_status = Absent, er_msg = ''slow down'', er_retry_after = Some 7, er_header_retry_after = None\<rparr>"

definition flaky_world :: "string world" where
  "flaky_world = \<lparr>w_call = (\<lambda>n. if n = 0 then Inl flaky_error else Inr ''ok''), w_elapsed = (\<lambda>n. 7),
     w_done = (\<lambda>n. 8), w_draw = (\<lambda>n. 1 / 2),
     w_retry_after = extract_retry_after (\<lambda>_. None) (\<lambda>_. None)\<rparr>"

theorem retry_returns_iff_witness:
  "fst (retry_execute default_retry_config None flaky_world new_retry_metrics) = Inr ''ok''"
proof -
  have "retried default_retry_config (retry_cats None) flaky_world 0"
    by (simp add: retried_def flaky_world_def flaky_error_def default_retry_config_def retry_cats_def
        classify_error_def category_by_status_def status_of_def status_category_def retryable_categories_def)
  moreover have "starts default_retry_config flaky_world k" for k
    by (simp add: starts_def default_retry_config_def flaky_world_def)
  ultimately show ?thesis
    by (subst retry_returns_iff, simp add: default_retry_config_def)
       (rule exI [of _ 1], simp add: default_retry_config_def flaky_world_def)
qed

lemma raised_error:
  "fst (retry_execute cfg r w m) = Inl err \<Longrightarrow>
     (\<exists>n e. int n \<le> rc_max_retries cfg \<and> w_call w n = Inl e \<and>
        err = map_provider_exception (w_retry_after w) e (rc_provider cfg) [] \<and>
        (\<forall>k<n. starts cfg w k \<and> retried cfg (retry_cats r) w k) \<and>
        (\<not> retried cfg (retry_cats r) w n \<or> int n = rc_max_retries cfg \<or> \<not> starts cfg w (Suc n))) \<or>
     rc_max_retries cfg < 0 \<and> le_class err = NonRetryableError"
proof (cases "0 \<le> rc_max_retries cfg")
  case True
  assume err: "fst (retry_execute cfg r w m) = Inl err"
  obtain n where n: "deciding cfg (retry_cats r) w n" using deciding_exists [OF True] by blast
  show ?thesis
  proof (cases "starts cfg w n")
    case True
    then obtain e where "w_call w n = Inl e" "err = map_provider_exception (w_retry_after w) e (rc_provider cfg) []"
      using execute_result [OF n] err by (auto split: sum.splits)
    thus ?thesis using n True unfolding deciding_def by blast
  next
    case False
    then obtain k where k: "n = Suc k" by (cases n) (auto simp: starts_def)
    have "retried cfg (retry_cats r) w k" using n k by (simp add: deciding_def)
    then obtain e where e: "w_call w k = Inl e" by (auto simp: retried_def split: sum.splits)
    hence "err = map_provider_exception (w_retry_after w) e (rc_provider cfg) []"
      using execute_result [OF n] err False k by simp
    moreover have "int k \<le> rc_max_retries cfg" "\<forall>j<k. starts cfg w j \<and> retried cfg (retry_cats r) w j"
      using n k by (auto simp: deciding_def)
    ultimately show ?thesis using e False k by blast
  qed
next
  case False
  assume "fst (retry_execute cfg r w m) = Inl err"
  thus ?thesis using False by (auto simp: retry_execute_def raise_last_def initial_retry_state_def)
qed

text \<open>The executor raises exactly the mapping of the error of the last attempt it made, or its own
  error when the retry allowance is negative, in which case the function is never called.\<close>

theorem retry_raises_last_error:
  "fst (retry_execute cfg r w m) = Inl err \<Longrightarrow>
     (\<exists>n e. int n \<le> rc_max_retries cfg \<and> w_call w n = Inl e \<and>
        err = map_provider_exception (w_retry_after w) e (rc_provider cfg) [] \<and>
        (\<forall>k<n. starts cfg w k \<and> retried cfg (retry_cats r) w k) \<and>
        (\<not> retried cfg (retry_cats r) w n \<or> int n = rc_max_retries cfg \<or> \<not> starts cfg w (Suc n))) \<or>
     rc_max_retries cfg < 0 \<and> le_class err = NonRetryableError"
  by (rule raised_error)

theorem retry_raises_last_error_witness:
  "let cfg = default_retry_config\<lparr>rc_max_retries := -1\<rparr>;
       err = \<lparr>le_class = NonRetryableError, le_msg = ''Retry executor reached unreachable state'', le_wait_s = None\<rparr>
   in (\<exists>n e. int n \<le> rc_max_retries cfg \<and> w_call flaky_world n = Inl e \<and>
        err = map_provider_exception (w_retry_after flaky_world) e (rc_provider cfg) [] \<and>
        (\<forall>k<n. starts cfg flaky_world k \<and> retried cfg (retry_cats None) flaky_world k) \<and>
        (\<not> retried cfg (retry_cats None) flaky_world n \<or> int n = rc_max_retries cfg
         \<or> \<not> starts cfg flaky_world (Suc n))) \<or>
     rc_max_retries cfg < 0 \<and> le_class err = NonRetryableError"
  unfolding Let_def
  by (rule retry_raises_last_error)
     (simp add: retry_execute_def raise_last_def initial_retry_state_def default_retry_config_def)

section \<open>How long it sleeps\<close>

definition slept_ok :: "retry_config \<Rightarrow> time \<Rightarrow> retry_state \<Rightarrow> bool" where
  "slept_ok cfg R s \<longleftrightarrow> 0 \<le> rs_last_wait s \<and> set (rs_slept s) \<subseteq> {0..max (wait_cap cfg) R}"

lemma retry_wait_slept_ok:
  assumes "slept_ok cfg R s" "0 \<le> w_draw w n" "w_draw w n \<le> 1" "0 \<le> rc_base_wait cfg" "0 \<le> rc_max_wait cfg"
    and "w_retry_after w e \<le> R"
  shows "slept_ok cfg R (retry_wait cfg w n e s)"
proof -
  have "0 \<le> compute_wait cfg (w_draw w n) (n + 1) (rs_last_wait s)"
    "compute_wait cfg (w_draw w n) (n + 1) (rs_last_wait s) \<le> wait_cap cfg"
    using compute_wait_range [OF assms(2-5)] assms(1) by (auto simp: slept_ok_def)
  thus ?thesis using assms(1,6) by (auto simp: slept_ok_def retry_wait_def Let_def)
qed

lemma slept_ok_cong [simp]:
  "slept_ok cfg R (s\<lparr>rs_metrics := m\<rparr>) = slept_ok cfg R s"
  "slept_ok cfg R (s\<lparr>rs_last_error := e\<rparr>) = slept_ok cfg R s"
  "slept_ok cfg R (s\<lparr>rs_last_error := e, rs_metrics := m\<rparr>) = slept_ok cfg R s"
  by (simp_all add: slept_ok_def)

lemma retry_loop_slept_ok:
  assumes "\<And>n. 0 \<le> w_draw w n \<and> w_draw w n \<le> 1" "0 \<le> rc_base_wait cfg" "0 \<le> rc_max_wait cfg"
    and "\<And>e. w_retry_after w e \<le> R" "slept_ok cfg R s"
  shows "slept_ok cfg R (snd (retry_loop cfg cats w ns s))"
  using assms(5)
proof (induction ns arbitrary: s)
  case (Cons n ns)
  have "slept_ok cfg R (retry_wait cfg w n e s)" for e
    using retry_wait_slept_ok [OF Cons.prems] assms(1-4) by blast
  thus ?case using Cons by (auto simp: Let_def split: sum.splits)
qed simp

text \<open>C16: For non-negative waiting times, draws in the unit interval and a bound on the announced
  \<open>retry-after\<close> values, every sleep of one call is at least 0 and at most the larger of that bound and
  the cap (\<open>max_wait_s\<close>, or the base for the fixed strategy), and there are at most \<open>max_retries\<close> sleeps,
  so the time slept in one call is bounded; no strategy, attempt number or earlier wait exceeds it.\<close>

theorem retry_sleeps_bounded:
  fixes cfg r m and w :: "'v world"
  assumes "\<And>n. 0 \<le> w_draw w n \<and> w_draw w n \<le> 1" "0 \<le> rc_base_wait cfg" "0 \<le> rc_max_wait cfg"
    and "\<And>e. w_retry_after w e \<le> R"
  defines "slept \<equiv> rs_slept (snd (retry_execute cfg r w m))"
  shows "length slept \<le> nat (rc_max_retries cfg) \<and> set slept \<subseteq> {0..max (wait_cap cfg) R} \<and>
     sum_list slept \<le> real (nat (rc_max_retries cfg)) * max (wait_cap cfg) R"
proof -
  have "slept_ok cfg R (initial_retry_state m)" by (simp add: slept_ok_def initial_retry_state_def)
  from retry_loop_slept_ok [OF assms(1-4) this] have range: "set slept \<subseteq> {0..max (wait_cap cfg) R}"
    unfolding slept_def retry_execute_def slept_ok_def by blast
  have len: "length slept \<le> nat (rc_max_retries cfg)"
  proof (cases "0 \<le> rc_max_retries cfg")
    case True
    then obtain n s where n: "int n \<le> rc_max_retries cfg" "after_retries cfg (retry_cats r) w n s"
        "\<not> starts cfg w n \<or> \<not> retried cfg (retry_cats r) w n \<or> int n = rc_max_retries cfg"
        "retry_execute cfg r w m = retry_loop cfg (retry_cats r) w (n # [Suc n..<nat (rc_max_retries cfg + 1)]) s"
      using execute_last_attempt by metis
    have "length (rs_slept (snd (retry_loop cfg (retry_cats r) w (n # ns) s))) = n" for ns
      using n(2,3) starts_iff [OF n(2)]
      by (auto simp: Let_def retried_def after_retries_def split: sum.splits)
    thus ?thesis using n(1,4) unfolding slept_def by simp
  qed (simp add: slept_def retry_execute_def initial_retry_state_def)
  have "sum_list slept \<le> real (length slept) * max (wait_cap cfg) R"
    using range by (induction slept) (auto simp: algebra_simps)
  also have "\<dots> \<le> real (nat (rc_max_retries cfg)) * max (wait_cap cfg) R"
    using len assms(2,3) by (intro mult_right_mono) (auto simp: wait_cap_def)
  finally show ?thesis using range len by blast
qed

theorem retry_sleeps_bounded_witness:
  "let slept = rs_slept (snd (retry_execute default_retry_config None
        (flaky_world\<lparr>w_retry_after := (\<lambda>_. 7)\<rparr>) new_retry_metrics))
   in length slept \<le> 8 \<and> set slept \<subseteq> {0..60} \<and> sum_list slept \<le> 480"
  using retry_sleeps_bounded [of "flaky_world\<lparr>w_retry_after := (\<lambda>_. 7)\<rparr>" default_retry_config 7 None new_retry_metrics]
  by (simp add: flaky_world_def default_retry_config_def wait_cap_def Let_def)

section \<open>Metrics\<close>

definition metrics_ok :: "retry_metrics \<Rightarrow> bool" where
  "metrics_ok m \<longleftrightarrow> rm_total_attempts m = rm_first_try m + rm_after_retry m + rm_exhausted m"

lemma record_attempt_simps [simp]:
  "rm_total_attempts (record_attempt ok n t c p m) = Suc (rm_total_attempts m)"
  "rm_budget_exhausted (record_attempt ok n t c p m) = rm_budget_exhausted m"
  "metrics_ok (record_attempt ok n t c p m) = metrics_ok m"
  by (auto simp: record_attempt_def metrics_ok_def Let_def split: option.splits)

lemma record_budget_simps [simp]:
  "rm_total_attempts (record_budget_exhausted m) = rm_total_attempts m"
  "rm_budget_exhausted (record_budget_exhausted m) = Suc (rm_budget_exhausted m)"
  "metrics_ok (record_budget_exhausted m) = metrics_ok m"
  by (simp_all add: record_budget_exhausted_def metrics_ok_def)

lemma retry_metrics_ok:
  "metrics_ok (rs_metrics s) \<Longrightarrow> metrics_ok (rs_metrics (snd (retry_loop cfg cats w ns s)))"
  by (induction ns arbitrary: s) (auto simp: Let_def split: sum.splits)

lemma success_rates_range:
  assumes "metrics_ok m"
  shows "0 \<le> first_try_success_rate m \<and> first_try_success_rate m \<le> overall_success_rate m \<and>
     overall_success_rate m \<le> 1"
  using assms by (auto simp: metrics_ok_def first_try_success_rate_def overall_success_rate_def divide_simps)

text \<open>Every call of \<open>execute\<close> with a non-negative allowance is counted once: in \<open>total_attempts\<close>, or,
  when the time budget ran out, only in \<open>budget_exhausted\<close>.\<close>

theorem retry_counted_once:
  fixes cfg r m and w :: "'v world"
  assumes "0 \<le> rc_max_retries cfg"
  defines "m' \<equiv> rs_metrics (snd (retry_execute cfg r w m))"
  shows "rm_total_attempts m' + rm_budget_exhausted m' = Suc (rm_total_attempts m + rm_budget_exhausted m)"
proof -
  obtain n s where n: "after_retries cfg (retry_cats r) w n s" "rs_metrics s = m"
      "\<not> starts cfg w n \<or> \<not> retried cfg (retry_cats r) w n \<or> int n = rc_max_retries cfg"
      "retry_execute cfg r w m = retry_loop cfg (retry_cats r) w (n # [Suc n..<nat (rc_max_retries cfg + 1)]) s"
    using execute_last_attempt [OF assms(1)] by metis
  show ?thesis unfolding m'_def n(4) using n(2,3) starts_iff [OF n(1)]
    by (auto simp: Let_def retried_def split: sum.splits)
qed

section \<open>Mapped errors\<close>

lemma classify_mapped:
  "classify_error (as_raw (map_provider_exception ra e p model)) q =
     (let c = classify_error e p in
      if c \<in> {RATE_LIMIT, CONTEXT_WINDOW, AUTH} then c
      else if c \<in> set retryable_categories then SERVER_ERROR else UNKNOWN_ERROR)"
  by (auto simp: map_provider_exception_def Let_def as_raw_def classify_error_def [of "\<lparr>er_class = _, er_status_code = _,
        er_http_status = _, er_response_status = _, er_msg = _, er_retry_after = _, er_header_retry_after = _\<rparr>"]
      retryable_categories_def)

text \<open>What a layer above sees of a mapped error: its category is kept for rate limits, context
  overflows and authentication errors, is \<open>SERVER_ERROR\<close> for every other retryable category and
  \<open>UNKNOWN\<close> for the rest, whatever provider is named; in particular mapping keeps whether an error is
  to be retried, and mapping twice is mapping once, up to the message prefix.\<close>

theorem mapping_keeps_retryability:
  "classify_error (as_raw (map_provider_exception ra e p model)) q =
     (let c = classify_error e p in
      if c \<in> {RATE_LIMIT, CONTEXT_WINDOW, AUTH} then c
      else if c \<in> set retryable_categories then SERVER_ERROR else UNKNOWN_ERROR) \<and>
   is_retryable (as_raw (map_provider_exception ra e p model)) q = is_retryable e p \<and>
   le_class (map_provider_exception ra' (as_raw (map_provider_exception ra e p model)) q model') =
     le_class (map_provider_exception ra e p model)"
  unfolding is_retryable_def map_provider_exception_def [of _ "as_raw _"] classify_mapped
  by (auto simp: map_provider_exception_def Let_def retryable_categories_def)

text \<open>The waiting time a rate limit announces is lost by mapping: the next executor finds only what the
  message still says, or its default of 5 seconds.\<close>

theorem mapping_loses_retry_after:
  "extract_retry_after rx rx' (as_raw (map_provider_exception ra e p [])) =
     (case rx (map lower_char (er_msg e)) of Some t \<Rightarrow> t
      | None \<Rightarrow> (case rx' (map lower_char (er_msg e)) of Some t \<Rightarrow> t | None \<Rightarrow> 5))"
  by (simp add: extract_retry_after_def as_raw_def map_provider_exception_def Let_def split: option.splits)

text \<open>The heuristics for Anthropic and OpenAI are never reached with an effect: their words contain
  keywords that were tried before.\<close>

lemma contains_trans: "contains msg kw \<Longrightarrow> sublist kw' kw \<Longrightarrow> contains msg kw'"
  unfolding contains_def using sublist_order.order.trans by blast

lemma keyword_first: "list_ex (contains msg) kws \<Longrightarrow> (kws, c) \<in> set keyword_rules \<Longrightarrow> category_by_keyword msg \<noteq> None"
  unfolding category_by_keyword_def by (auto simp: find_None_iff)

theorem provider_heuristics_dead:
  assumes "map lower_char p \<noteq> ''google''"
  shows "classify_error e p = classify_error e []"
proof -
  let ?msg = "map lower_char (er_msg e)"
  have "sublist ''quota'' ''insufficient_quota''" by (simp add: sublist_code)
  hence "contains ?msg ''overloaded'' \<or> contains ?msg ''insufficient_quota'' \<Longrightarrow> category_by_keyword ?msg \<noteq> None"
    using keyword_first [of ?msg "[''service unavailable'', ''overloaded'', ''capacity'']"]
      keyword_first [of ?msg "[''quota'', ''billing'', ''limit exceeded'']"]
    by (auto simp: keyword_rules_def dest: contains_trans)
  thus ?thesis using assms
    by (auto simp: classify_error_def category_by_provider_def Let_def split: err_class.splits option.splits)
qed

end
