(* ===== verification/Model_Fallback.thy ===== *)
theory Model_Fallback
  imports Llm_Retry
begin

text \<open>
  \<open>app/llm/fallback.py\<close>: a chain of models, tried in order; a failed model cools down.  The model
  states are the dictionary from model names to states; a reading of the clock is a parameter of
  every step that takes one, and so is the outcome of the call made for the \<open>i\<close>-th model of the
  chain.  The second half composes the strategy with the retry executor the way
  \<open>app/llm/litellm_client.py\<close> does.
\<close>

section \<open>Triggers\<close>

datatype fallback_trigger = T_RATE_LIMIT | T_SERVICE_UNAVAILABLE | T_CONTEXT_WINDOW | T_SERVER_ERROR
  | T_TIMEOUT | T_CONNECTION | T_QUOTA | T_ALL_ERRORS

definition default_triggers :: "fallback_trigger list" where
  "default_triggers = [T_RATE_LIMIT, T_SERVICE_UNAVAILABLE, T_CONTEXT_WINDOW, T_QUOTA]"

fun error_to_fallback :: "category \<Rightarrow> fallback_trigger option" where
  "error_to_fallback RATE_LIMIT = Some T_RATE_LIMIT"
| "error_to_fallback SERVICE_UNAVAILABLE = Some T_SERVICE_UNAVAILABLE"
| "error_to_fallback CONTEXT_WINDOW = Some T_CONTEXT_WINDOW"
| "error_to_fallback SERVER_ERROR = Some T_SERVER_ERROR"
| "error_to_fallback TIMEOUT = Some T_TIMEOUT"
| "error_to_fallback CONNECTION = Some T_CONNECTION"
| "error_to_fallback QUOTA = Some T_QUOTA"
| "error_to_fallback _ = None"

section \<open>The state of a model\<close>

record model_state =
  ms_model :: string
  ms_cooldown_until :: time
  ms_failure_count :: nat
  ms_success_count :: nat
  ms_last_error :: "string option"
  ms_last_error_time :: time

definition new_model_state :: "string \<Rightarrow> model_state" where
  "new_model_state m = \<lparr>ms_model = m, ms_cooldown_until = 0, ms_failure_count = 0, ms_success_count = 0,
     ms_last_error = None, ms_last_error_time = 0\<rparr>"

definition is_available :: "time \<Rightarrow> model_state \<Rightarrow> bool" where
  "is_available now st \<longleftrightarrow> now \<ge> ms_cooldown_until st"

definition mark_failed :: "time \<Rightarrow> time \<Rightarrow> string \<Rightarrow> time \<Rightarrow> model_state \<Rightarrow> model_state" where
  "mark_failed t1 t2 err cooldown st =
     st\<lparr>ms_failure_count := ms_failure_count st + 1, ms_last_error := Some err, ms_last_error_time := t1,
        ms_cooldown_until := t2 + cooldown\<rparr>"

definition mark_success :: "model_state \<Rightarrow> model_state" where
  "mark_success st = st\<lparr>ms_success_count := ms_success_count st + 1, ms_cooldown_until := 0\<rparr>"

section \<open>Configuration\<close>

record fallback_config =
  fc_chain :: "string list"
  fc_cooldown :: time
  fc_multiplier :: real
  fc_max_cooldown :: time
  fc_triggers :: "fallback_trigger list"
  fc_per_model :: "(string \<times> time) list"

definition get_cooldown :: "fallback_config \<Rightarrow> string \<Rightarrow> nat \<Rightarrow> time" where
  "get_cooldown cfg model failures =
     (let base = (case map_of (fc_per_model cfg) model of Some t \<Rightarrow> t | None \<Rightarrow> fc_cooldown cfg)
      in min (base * fc_multiplier cfg ^ failures) (fc_max_cooldown cfg))"

definition should_fallback :: "fallback_config \<Rightarrow> raw_error \<Rightarrow> bool" where
  "should_fallback cfg e \<longleftrightarrow>
     T_ALL_ERRORS \<in> set (fc_triggers cfg) \<or>
     (case error_to_fallback (classify_error e []) of Some t \<Rightarrow> t \<in> set (fc_triggers cfg) | None \<Rightarrow> False)"

section \<open>Metrics\<close>

record model_counts =
  mc_success :: nat
  mc_failure :: nat
  mc_fallback_from :: nat

record fallback_event =
  fe_from :: string
  fe_to :: string
  fe_trigger :: category
  fe_error :: string

record fallback_metrics =
  fm_total :: nat
  fm_primary :: nat
  fm_fallback :: nat
  fm_all_failed :: nat
  fm_by_model :: "(string \<times> model_counts) list"
  fm_events :: "fallback_event list"

definition inc_model ::
  "(model_counts \<Rightarrow> model_counts) \<Rightarrow> string \<Rightarrow> fallback_metrics \<Rightarrow> fallback_metrics" where
  "inc_model f model m =
     (let c = (case map_of (fm_by_model m) model of Some c \<Rightarrow> c
               | None \<Rightarrow> \<lparr>mc_success = 0, mc_failure = 0, mc_fallback_from = 0\<rparr>)
      in m\<lparr>fm_by_model := AList.update model (f c) (fm_by_model m)\<rparr>)"

definition record_primary_success :: "string \<Rightarrow> fallback_metrics \<Rightarrow> fallback_metrics" where
  "record_primary_success model m =
     inc_model (\<lambda>c. c\<lparr>mc_success := mc_success c + 1\<rparr>) model
       (m\<lparr>fm_total := fm_total m + 1, fm_primary := fm_primary m + 1\<rparr>)"

definition record_fallback_success :: "string \<Rightarrow> string \<Rightarrow> fallback_metrics \<Rightarrow> fallback_metrics" where
  "record_fallback_success primary fallback m =
     inc_model (\<lambda>c. c\<lparr>mc_fallback_from := mc_fallback_from c + 1\<rparr>) primary
       (inc_model (\<lambda>c. c\<lparr>mc_success := mc_success c + 1\<rparr>) fallback
          (m\<lparr>fm_total := fm_total m + 1, fm_fallback := fm_fallback m + 1\<rparr>))"

definition record_all_failed :: "string list \<Rightarrow> fallback_metrics \<Rightarrow> fallback_metrics" where
  "record_all_failed models m =
     fold (inc_model (\<lambda>c. c\<lparr>mc_failure := mc_failure c + 1\<rparr>)) models
       (m\<lparr>fm_total := fm_total m + 1, fm_all_failed := fm_all_failed m + 1\<rparr>)"

definition record_fallback_event ::
  "string \<Rightarrow> string \<Rightarrow> category \<Rightarrow> string \<Rightarrow> fallback_metrics \<Rightarrow> fallback_metrics" where
  "record_fallback_event from_m to_m trigger err m =
     (let evs = fm_events m @ [\<lparr>fe_from = from_m, fe_to = to_m, fe_trigger = trigger, fe_error = take 200 err\<rparr>]
      in m\<lparr>fm_events := (if length evs > 100 then py_last 100 evs else evs)\<rparr>)"

section \<open>The strategy\<close>

datatype attempt = Skipped string time | Succeeded string nat | Failed string string category nat

record 'v fallback_result =
  fr_value :: 'v
  fr_model_used :: string
  fr_was_fallback :: bool
  fr_primary :: string
  fr_attempts :: "attempt list"

record fallback_state =
  fs_states :: "(string \<times> model_state) list"
  fs_metrics :: fallback_metrics
  fs_notified :: "fallback_event list"

text \<open>One call of \<open>execute\<close>: the clock when the \<open>i\<close>-th model is examined and when it is marked as failed,
  and the outcome of the call for it.  The second reading of a skip, for its report, is \<open>fw_skip\<close>.\<close>

record 'v fallback_world =
  fw_check :: "nat \<Rightarrow> time"
  fw_skip :: "nat \<Rightarrow> time"
  fw_error_time :: "nat \<Rightarrow> time"
  fw_fail :: "nat \<Rightarrow> time"
  fw_call :: "nat \<Rightarrow> string \<Rightarrow> raw_error + 'v"

definition init_strategy :: "fallback_config \<Rightarrow> fallback_state" where
  "init_strategy cfg =
     \<lparr>fs_states = fold (\<lambda>m. AList.update m (new_model_state m)) (fc_chain cfg) [],
      fs_metrics = \<lparr>fm_total = 0, fm_primary = 0, fm_fallback = 0, fm_all_failed = 0, fm_by_model = [],
        fm_events = []\<rparr>,
      fs_notified = []\<rparr>"

definition get_available_models :: "fallback_config \<Rightarrow> time \<Rightarrow> fallback_state \<Rightarrow> string list" where
  "get_available_models cfg now s =
     filter (\<lambda>m. is_available now (case map_of (fs_states s) m of Some st \<Rightarrow> st | None \<Rightarrow> new_model_state m))
       (fc_chain cfg)"

definition reset_model :: "string \<Rightarrow> fallback_state \<Rightarrow> fallback_state" where
  "reset_model m s =
     (if map_of (fs_states s) m \<noteq> None
      then s\<lparr>fs_states := AList.update m (new_model_state m) (fs_states s)\<rparr> else s)"

definition reset_all :: "fallback_config \<Rightarrow> fallback_state \<Rightarrow> fallback_state" where
  "reset_all cfg s = s\<lparr>fs_states := fold (\<lambda>m. AList.update m (new_model_state m)) (fc_chain cfg) (fs_states s)\<rparr>"

definition non_retryable :: "string \<Rightarrow> raw_error" where
  "non_retryable msg = \<lparr>er_class = NonRetryableError, er_status_code = Absent, er_http_status = Absent,
     er_response_status = Absent, er_msg = msg, er_retry_after = None, er_header_retry_after = None\<rparr>"

definition update_state :: "string \<Rightarrow> (model_state \<Rightarrow> model_state) \<Rightarrow> fallback_state \<Rightarrow> fallback_state" where
  "update_state model f s =
     (case map_of (fs_states s) model of
        Some st \<Rightarrow> s\<lparr>fs_states := AList.update model (f st) (fs_states s)\<rparr>
      | None \<Rightarrow> s)"

definition succeed :: "string \<Rightarrow> nat \<Rightarrow> string \<Rightarrow> fallback_state \<Rightarrow> fallback_state" where
  "succeed primary i model s =
     (let s1 = update_state model mark_success s
      in s1\<lparr>fs_metrics := (if i = 0 then record_primary_success model (fs_metrics s1)
                           else record_fallback_success primary model (fs_metrics s1))\<rparr>)"

definition note_failure ::
  "fallback_config \<Rightarrow> 'v fallback_world \<Rightarrow> nat \<Rightarrow> string \<Rightarrow> raw_error \<Rightarrow> fallback_state \<Rightarrow> fallback_state" where
  "note_failure cfg w i model e s =
     update_state model
       (\<lambda>st. mark_failed (fw_error_time w i) (fw_fail w i) (take 200 (er_msg e))
          (get_cooldown cfg model (ms_failure_count st)) st) s"

text \<open>The callback, of the asynchronous variant only, is called under \<open>notify\<close>; what it raises is caught.\<close>

definition note_fallback ::
  "fallback_config \<Rightarrow> bool \<Rightarrow> nat \<Rightarrow> string \<Rightarrow> raw_error \<Rightarrow> fallback_state \<Rightarrow> fallback_state" where
  "note_fallback cfg notify i model e s =
     (let to_m = (if i + 1 < length (fc_chain cfg) then fc_chain cfg ! (i + 1) else ''(none)'');
          cat = classify_error e [];
          s1 = s\<lparr>fs_metrics := record_fallback_event model to_m cat (take 200 (er_msg e)) (fs_metrics s)\<rparr>
      in if notify
         then s1\<lparr>fs_notified := fs_notified s1 @
                [\<lparr>fe_from = model, fe_to = to_m, fe_trigger = cat, fe_error = take 200 (er_msg e)\<rparr>]\<rparr>
         else s1)"

definition in_cooldown :: "time \<Rightarrow> fallback_state \<Rightarrow> string \<Rightarrow> bool" where
  "in_cooldown now s model \<longleftrightarrow>
     (case map_of (fs_states s) model of Some st \<Rightarrow> \<not> is_available now st | None \<Rightarrow> False)"

definition cooldown_of :: "fallback_state \<Rightarrow> string \<Rightarrow> time" where
  "cooldown_of s model = (case map_of (fs_states s) model of Some st \<Rightarrow> ms_cooldown_until st | None \<Rightarrow> 0)"

fun chain_loop ::
  "fallback_config \<Rightarrow> bool \<Rightarrow> 'v fallback_world \<Rightarrow> string \<Rightarrow> (nat \<times> string) list \<Rightarrow> attempt list \<Rightarrow>
   raw_error option \<Rightarrow> fallback_state \<Rightarrow> (raw_error + 'v fallback_result) \<times> fallback_state" where
  "chain_loop cfg notify w primary [] atts prev s =
     (Inl (case prev of Some e \<Rightarrow> e
           | None \<Rightarrow> non_retryable (''FallbackStrategy: all '' @ show_nat (length (fc_chain cfg)) @
                       '' models failed or are in cooldown'')),
      s\<lparr>fs_metrics := record_all_failed (fc_chain cfg) (fs_metrics s)\<rparr>)"
| "chain_loop cfg notify w primary ((i, model) # ms) atts prev s =
     (if in_cooldown (fw_check w i) s model
      then chain_loop cfg notify w primary ms (atts @ [Skipped model (cooldown_of s model - fw_skip w i)]) prev s
      else case fw_call w i model of
        Inr v \<Rightarrow>
          (Inr \<lparr>fr_value = v, fr_model_used = model, fr_was_fallback = (i > 0), fr_primary = primary,
                fr_attempts = atts @ [Succeeded model i]\<rparr>,
           succeed primary i model s)
      | Inl e \<Rightarrow>
          let s1 = note_failure cfg w i model e s
          in if \<not> should_fallback cfg e then (Inl e, s1)
             else chain_loop cfg notify w primary ms
                    (atts @ [Failed model (take 200 (er_msg e)) (classify_error e []) i]) (Some e)
                    (note_fallback cfg notify i model e s1))"

definition execute ::
  "fallback_config \<Rightarrow> bool \<Rightarrow> 'v fallback_world \<Rightarrow> fallback_state \<Rightarrow>
   (raw_error + 'v fallback_result) \<times> fallback_state" where
  "execute cfg notify w s =
     (case fc_chain cfg of
        [] \<Rightarrow> (Inl (non_retryable ''FallbackStrategy: empty model chain''), s)
      | primary # _ \<Rightarrow> chain_loop cfg notify w primary (enumerate 0 (fc_chain cfg)) [] None s)"

section \<open>Frames\<close>

lemma inc_model_simps [simp]:
  "fm_total (inc_model f x m) = fm_total m" "fm_primary (inc_model f x m) = fm_primary m"
  "fm_fallback (inc_model f x m) = fm_fallback m" "fm_all_failed (inc_model f x m) = fm_all_failed m"
  "fm_events (inc_model f x m) = fm_events m"
  by (simp_all add: inc_model_def Let_def)

lemma fold_inc_model_simps [simp]:
  "fm_total (fold (inc_model f) xs m) = fm_total m" "fm_primary (fold (inc_model f) xs m) = fm_primary m"
  "fm_fallback (fold (inc_model f) xs m) = fm_fallback m"
  "fm_all_failed (fold (inc_model f) xs m) = fm_all_failed m"
  "fm_events (fold (inc_model f) xs m) = fm_events m"
  by (induction xs arbitrary: m) simp_all

lemma note_failure_other [simp]:
  "n \<noteq> model \<Longrightarrow> map_of (fs_states (note_failure cfg w i model e s)) n = map_of (fs_states s) n"
  by (simp add: note_failure_def update_state_def split: option.splits)

lemma note_failure_metrics [simp]: "fs_metrics (note_failure cfg w i model e s) = fs_metrics s"
  by (simp add: note_failure_def update_state_def split: option.splits)

lemma note_fallback_states [simp]: "fs_states (note_fallback cfg notify i model e s) = fs_states s"
  by (simp add: note_fallback_def Let_def)

lemma in_cooldown_other [simp]:
  "n \<noteq> model \<Longrightarrow> in_cooldown t (note_fallback cfg notify j model' e' (note_failure cfg w i model e s)) n =
     in_cooldown t s n"
  by (simp add: in_cooldown_def)

section \<open>What it returns\<close>

text \<open>The specification: the models that are examined while available are tried in order; the first
  that answers or fails for good decides, otherwise the last error is raised.\<close>

definition chain_spec ::
  "fallback_config \<Rightarrow> 'v fallback_world \<Rightarrow> fallback_state \<Rightarrow> (nat \<times> string) list \<Rightarrow> raw_error option \<Rightarrow>
   raw_error + ('v \<times> nat \<times> string)" where
  "chain_spec cfg w s ims prev =
     (let tried = filter (\<lambda>(i, m). \<not> in_cooldown (fw_check w i) s m) ims;
          final = (\<lambda>(i, m). case fw_call w i m of Inr _ \<Rightarrow> True | Inl e \<Rightarrow> \<not> should_fallback cfg e)
      in case List.find final tried of
           Some (i, m) \<Rightarrow> (case fw_call w i m of Inr v \<Rightarrow> Inr (v, i, m) | Inl e \<Rightarrow> Inl e)
         | None \<Rightarrow>
             if tried \<noteq> [] then Inl (projl (case_prod (fw_call w) (last tried)))
             else Inl (case prev of Some e \<Rightarrow> e
                | None \<Rightarrow> non_retryable (''FallbackStrategy: all '' @ show_nat (length (fc_chain cfg)) @
                            '' models failed or are in cooldown'')))"

definition outcome :: "(raw_error + 'v fallback_result) \<Rightarrow> raw_error + ('v \<times> string \<times> bool)" where
  "outcome r = (case r of Inl e \<Rightarrow> Inl e
     | Inr f \<Rightarrow> Inr (fr_value f, fr_model_used f, fr_was_fallback f))"

lemma chain_spec_cong:
  "(\<And>i m. (i, m) \<in> set ims \<Longrightarrow> in_cooldown (fw_check w i) s m = in_cooldown (fw_check w i) s' m) \<Longrightarrow>
   chain_spec cfg w s ims prev = chain_spec cfg w s' ims prev"
proof -
  assume "\<And>i m. (i, m) \<in> set ims \<Longrightarrow> in_cooldown (fw_check w i) s m = in_cooldown (fw_check w i) s' m"
  hence "filter (\<lambda>(i, m). \<not> in_cooldown (fw_check w i) s m) ims =
      filter (\<lambda>(i, m). \<not> in_cooldown (fw_check w i) s' m) ims"
    by (intro filter_cong) auto
  thus ?thesis by (simp add: chain_spec_def Let_def)
qed

lemma chain_spec_skip:
  "in_cooldown (fw_check w i) s m \<Longrightarrow> chain_spec cfg w s ((i, m) # ims) prev = chain_spec cfg w s ims prev"
  by (simp add: chain_spec_def)

lemma chain_spec_step:
  "\<not> in_cooldown (fw_check w i) s m \<Longrightarrow> fw_call w i m = Inl e \<Longrightarrow> should_fallback cfg e \<Longrightarrow>
   chain_spec cfg w s ((i, m) # ims) prev = chain_spec cfg w s ims (Some e)"
  by (auto simp: chain_spec_def Let_def split: option.splits)

lemma chain_spec_final:
  "\<not> in_cooldown (fw_check w i) s m \<Longrightarrow> (case fw_call w i m of Inr _ \<Rightarrow> True | Inl e \<Rightarrow> \<not> should_fallback cfg e) \<Longrightarrow>
   chain_spec cfg w s ((i, m) # ims) prev =
     (case fw_call w i m of Inr v \<Rightarrow> Inr (v, i, m) | Inl e \<Rightarrow> Inl e)"
  by (simp add: chain_spec_def)

lemma chain_loop_correct:
  "distinct (map snd ims) \<Longrightarrow>
   outcome (fst (chain_loop cfg notify w primary ims atts prev s)) =
     map_sum id (\<lambda>(v, i, m). (v, m, i > 0)) (chain_spec cfg w s ims prev)"
proof (induction ims arbitrary: atts prev s)
  case Nil
  show ?case by (simp add: chain_spec_def outcome_def)
next
  case (Cons im ims)
  obtain i m where im: "im = (i, m)" by (cases im)
  have rest: "distinct (map snd ims)" "m \<notin> snd ` set ims" using Cons.prems im by auto
  show ?case
  proof (cases "in_cooldown (fw_check w i) s m")
    case True
    thus ?thesis using Cons.IH [OF rest(1)] by (simp add: im chain_spec_skip)
  next
    case avail: False
    show ?thesis
    proof (cases "fw_call w i m")
      case (Inr v)
      thus ?thesis using avail by (simp add: im chain_spec_final outcome_def)
    next
      case (Inl e)
      show ?thesis
      proof (cases "should_fallback cfg e")
        case False
        thus ?thesis using avail Inl by (simp add: im chain_spec_final outcome_def Let_def)
      next
        case True
        let ?s = "note_fallback cfg notify i m e (note_failure cfg w i m e s)"
        have "ma \<noteq> m" if "(ia, ma) \<in> set ims" for ia ma using that rest(2) by force
        hence "chain_spec cfg w ?s ims (Some e) = chain_spec cfg w s ims (Some e)"
          by (intro chain_spec_cong in_cooldown_other) blast
        thus ?thesis using True avail Inl Cons.IH [OF rest(1)]
          by (simp add: im chain_spec_step Let_def)
      qed
    qed
  qed
qed

text \<open>C17: For a chain without repeated names the strategy implements its specification: of the models
  that are not in cooldown when their turn comes, the first that answers gives the value, with its
  name and whether it was a fallback; an error for which no fallback is wanted ends the search and is
  raised itself; if all tried models fail otherwise, the last error is raised, and if every model is in
  cooldown, the strategy's own error.\<close>

theorem fallback_execute_correct:
  assumes "distinct (fc_chain cfg)" "fc_chain cfg \<noteq> []"
  shows "outcome (fst (execute cfg notify w s)) =
     map_sum id (\<lambda>(v, i, m). (v, m, i > 0)) (chain_spec cfg w s (enumerate 0 (fc_chain cfg)) None)"
proof -
  obtain p ps where p: "fc_chain cfg = p # ps" using assms(2) by (cases "fc_chain cfg") auto
  hence "execute cfg notify w s = chain_loop cfg notify w p (enumerate 0 (fc_chain cfg)) [] None s"
    by (simp add: execute_def)
  thus ?thesis using chain_loop_correct [of "enumerate 0 (fc_chain cfg)"] assms(1) by simp
qed

definition two_models :: fallback_config where
  "two_models = \<lparr>fc_chain = [''gpt-4o'', ''claude-3-5-sonnet''], fc_cooldown = 60, fc_multiplier = 2,
     fc_max_cooldown = 600, fc_triggers = default_triggers, fc_per_model = []\<rparr>"

definition rate_limited_then_ok :: "string fallback_world" where
  "rate_limited_then_ok = \<lparr>fw_check = real, fw_skip = real, fw_error_time = real, fw_fail = real,
     fw_call = (\<lambda>i m. if i = 0 then Inl flaky_error else Inr m)\<rparr>"

lemma flaky_rate_limited: "classify_error flaky_error p = RATE_LIMIT"
  by (simp add: flaky_error_def classify_error_def category_by_status_def status_of_def status_category_def)

theorem fallback_execute_correct_witness:
  "outcome (fst (execute two_models False rate_limited_then_ok (init_strategy two_models))) =
     Inr (''claude-3-5-sonnet'', ''claude-3-5-sonnet'', True)"
  using fallback_execute_correct [of two_models False rate_limited_then_ok "init_strategy two_models"]
  by (simp add: two_models_def rate_limited_then_ok_def init_strategy_def chain_spec_def in_cooldown_def
      is_available_def new_model_state_def should_fallback_def flaky_rate_limited default_triggers_def numeral_2_eq_2
      enumerate_eq_zip)

section \<open>Cooldowns\<close>

text \<open>C1: After a failure the model is skipped exactly until its cooldown has passed; the cooldown is at
  most the maximum and, for a multiplier of at least 1, never shorter than after fewer failures.\<close>

lemma get_cooldown_mono:
  assumes "1 \<le> fc_multiplier cfg" "\<forall>x\<in>insert (fc_cooldown cfg) (snd ` set (fc_per_model cfg)). 0 \<le> x" "n \<le> k"
  shows "get_cooldown cfg model n \<le> get_cooldown cfg model k"
proof -
  let ?b = "case map_of (fc_per_model cfg) model of Some t \<Rightarrow> t | None \<Rightarrow> fc_cooldown cfg"
  have "0 \<le> ?b" using assms(2) by (auto split: option.splits dest!: map_of_SomeD)
  hence "?b * fc_multiplier cfg ^ n \<le> ?b * fc_multiplier cfg ^ k"
    using assms by (intro mult_left_mono power_increasing)
  thus ?thesis unfolding get_cooldown_def Let_def by linarith
qed

theorem cooldown_after_failure:
  assumes "map_of (fs_states s) model = Some st" "1 \<le> fc_multiplier cfg"
    "\<forall>x\<in>insert (fc_cooldown cfg) (snd ` set (fc_per_model cfg)). 0 \<le> x"
  shows "(in_cooldown t (note_failure cfg w i model e s) model \<longleftrightarrow>
       t < fw_fail w i + get_cooldown cfg model (ms_failure_count st)) \<and>
     get_cooldown cfg model (ms_failure_count st) \<le> fc_max_cooldown cfg \<and>
     (\<forall>n\<le>ms_failure_count st. get_cooldown cfg model n \<le> get_cooldown cfg model (ms_failure_count st))"
proof (intro conjI allI impI)
  show "in_cooldown t (note_failure cfg w i model e s) model \<longleftrightarrow>
      t < fw_fail w i + get_cooldown cfg model (ms_failure_count st)"
    using assms(1) by (auto simp: in_cooldown_def note_failure_def update_state_def mark_failed_def is_available_def)
  show "get_cooldown cfg model (ms_failure_count st) \<le> fc_max_cooldown cfg" by (simp add: get_cooldown_def Let_def)
qed (rule get_cooldown_mono [OF assms(2,3)])

theorem cooldown_after_failure_witness:
  "in_cooldown 59 (note_failure two_models rate_limited_then_ok 0 ''gpt-4o'' flaky_error (init_strategy two_models))
     ''gpt-4o'' \<and>
   \<not> in_cooldown 60 (note_failure two_models rate_limited_then_ok 0 ''gpt-4o'' flaky_error (init_strategy two_models))
     ''gpt-4o''"
  using cooldown_after_failure [of "init_strategy two_models" "''gpt-4o''" "new_model_state ''gpt-4o''" two_models 59
      rate_limited_then_ok 0 flaky_error]
    cooldown_after_failure [of "init_strategy two_models" "''gpt-4o''" "new_model_state ''gpt-4o''" two_models 60
      rate_limited_then_ok 0 flaky_error]
  by (simp add: two_models_def rate_limited_then_ok_def init_strategy_def new_model_state_def get_cooldown_def)

text \<open>A success ends the cooldown but leaves the number of failures: the cooldown after the next
  failure is computed as if the success had not happened.\<close>

theorem success_keeps_failure_count:
  assumes "map_of (fs_states s) model = Some st"
  shows "cooldown_of (note_failure cfg w j model e' (succeed primary k model (note_failure cfg w i model e s))) model =
     fw_fail w j + get_cooldown cfg model (Suc (ms_failure_count st))"
  using assms
  by (simp add: cooldown_of_def note_failure_def update_state_def succeed_def Let_def mark_failed_def mark_success_def)

section \<open>Metrics\<close>

definition fallback_metrics_ok :: "fallback_metrics \<Rightarrow> bool" where
  "fallback_metrics_ok m \<longleftrightarrow>
     fm_total m = fm_primary m + fm_fallback m + fm_all_failed m \<and> length (fm_events m) \<le> 100"

lemma metrics_ok_steps [simp]:
  assumes "fallback_metrics_ok m"
  shows "fallback_metrics_ok (record_primary_success x m)" "fallback_metrics_ok (record_fallback_success x y m)"
    "fallback_metrics_ok (record_all_failed xs m)" "fallback_metrics_ok (record_fallback_event x y c er m)"
  using assms by (simp_all add: fallback_metrics_ok_def record_primary_success_def record_fallback_success_def
      record_all_failed_def record_fallback_event_def Let_def)

lemma chain_loop_metrics_ok:
  "fallback_metrics_ok (fs_metrics s) \<Longrightarrow>
     fallback_metrics_ok (fs_metrics (snd (chain_loop cfg notify w primary ims atts prev s)))"
proof (induction ims arbitrary: atts prev s)
  case (Cons im ims)
  have "fs_metrics (update_state x f s) = fs_metrics s" for x f s
    by (simp add: update_state_def split: option.splits)
  thus ?case using Cons
    by (cases im) (auto simp: Let_def note_fallback_def succeed_def split: sum.splits)
qed simp

text \<open>The strategy keeps the total of its metrics the sum of its three outcomes and never more than
  100 events.\<close>

theorem fallback_metrics_invariant:
  "fallback_metrics_ok (fs_metrics s) \<Longrightarrow> fallback_metrics_ok (fs_metrics (snd (execute cfg notify w s)))"
  by (simp add: execute_def chain_loop_metrics_ok del: chain_loop.simps split: list.split)

text \<open>A call that ends with an error for which no fallback is wanted is not counted.\<close>

theorem final_error_not_counted:
  assumes "fc_chain cfg = [m]" "fw_call w 0 m = Inl e" "\<not> should_fallback cfg e" "\<not> in_cooldown (fw_check w 0) s m"
  shows "fst (execute cfg notify w s) = Inl e \<and> fs_metrics (snd (execute cfg notify w s)) = fs_metrics s"
  using assms by (simp_all add: execute_def Let_def)

section \<open>The LiteLLM client\<close>

text \<open>\<open>LiteLLMClient._do_chat\<close> and \<open>chat\<close> for an installed litellm: the executor retries the call for one
  model, what it raises is mapped again, and the strategy sees the result.  \<open>ws i m\<close> is the world of the
  retries made for the \<open>i\<close>-th model; the conversion of the answer is left out.\<close>

definition starts_with_any :: "string list \<Rightarrow> string \<Rightarrow> bool" where
  "starts_with_any ps s \<longleftrightarrow> list_ex (\<lambda>p. prefix p s) ps"

definition get_provider_from_model :: "string \<Rightarrow> string" where
  "get_provider_from_model model =
     (let m = map lower_char model in
      if starts_with_any [''gpt-'', ''o1'', ''o3'', ''chatgpt'', ''dall-e''] m then ''openai''
      else if starts_with_any [''claude-'', ''claude3''] m then ''anthropic''
      else if starts_with_any [''gemini-'', ''gemini''] m then ''google''
      else if starts_with_any [''mistral''] m then ''mistral''
      else if starts_with_any [''deepseek''] m then ''deepseek''
      else if starts_with_any [''azure/''] m then ''azure''
      else if starts_with_any [''bedrock/''] m then ''bedrock''
      else if starts_with_any [''vertex_ai/'', ''vertex/''] m then ''vertex''
      else ''default'')"

definition litellm_retry_config :: "string \<Rightarrow> int \<Rightarrow> retry_config" where
  "litellm_retry_config model max_retries =
     default_retry_config\<lparr>rc_max_retries := min max_retries 15, rc_provider := get_provider_from_model model\<rparr>"

definition do_chat :: "retry_config \<Rightarrow> string \<Rightarrow> string \<Rightarrow> 'v world \<Rightarrow> retry_metrics \<Rightarrow> raw_error + 'v" where
  "do_chat rcfg provider model w m =
     (case fst (retry_execute rcfg None w m) of
        Inr v \<Rightarrow> Inr v
      | Inl err \<Rightarrow>
          let mapped = map_provider_exception (w_retry_after w) (as_raw err) provider model
          in Inl (as_raw (if le_class mapped \<in> {RateLimitError, RetryableError} then mapped else err)))"

definition chat ::
  "fallback_config option \<Rightarrow> string \<Rightarrow> string option \<Rightarrow> int \<Rightarrow> (nat \<Rightarrow> string \<Rightarrow> 'v world) \<Rightarrow> 'v fallback_world \<Rightarrow> retry_metrics \<Rightarrow>
   fallback_state \<Rightarrow> raw_error + ('v \<times> string)" where
  "chat fb self_model model_arg max_retries ws w m s =
     (let use_model = (if truthy model_arg then the model_arg else self_model);
          rcfg = litellm_retry_config self_model max_retries;
          provider = get_provider_from_model self_model;
          call = (\<lambda>i model. do_chat rcfg provider model (ws i model) m)
      in case fb of
           None \<Rightarrow> map_sum id (\<lambda>v. (v, use_model)) (call 0 use_model)
         | Some cfg \<Rightarrow>
             map_sum id (\<lambda>r. (fr_value r, fr_model_used r)) (fst (execute cfg False (w\<lparr>fw_call := call\<rparr>) s)))"

lemma do_chat_error:
  assumes "do_chat rcfg provider model w m = Inl err" "0 \<le> rc_max_retries rcfg"
  shows "\<exists>n e. w_call w n = Inl e \<and> classify_error err [] =
     (let c = classify_error e (rc_provider rcfg) in
      if c \<in> {RATE_LIMIT, CONTEXT_WINDOW, AUTH} then c
      else if c \<in> set retryable_categories then SERVER_ERROR else UNKNOWN_ERROR)"
proof -
  obtain err' where err': "fst (retry_execute rcfg None w m) = Inl err'"
    using assms(1) by (cases "fst (retry_execute rcfg None w m)") (auto simp: do_chat_def)
  then obtain n e where e: "w_call w n = Inl e" "err' = map_provider_exception (w_retry_after w) e (rc_provider rcfg) []"
    using raised_error [OF err'] assms(2) by auto
  have "classify_error err [] = classify_error (as_raw err') []"
    using assms(1) err' classify_mapped [of "w_retry_after w" "as_raw err'" provider model "[]"]
    by (auto simp: do_chat_def Let_def e(2) classify_mapped retryable_categories_def split: if_splits)
  thus ?thesis using e classify_mapped by metis
qed

lemma should_fallback_category:
  "fc_triggers cfg = default_triggers \<Longrightarrow>
     should_fallback cfg e \<longleftrightarrow> classify_error e [] \<in> {RATE_LIMIT, SERVICE_UNAVAILABLE, CONTEXT_WINDOW, QUOTA}"
  by (cases "classify_error e []") (simp_all add: should_fallback_def default_triggers_def)

text \<open>Behind the retry executor the default triggers see only rate limits and context overflows: an
  error that the client raises for one model leads to a fallback exactly if the last error of that
  model had one of these two categories, although \<open>SERVICE_UNAVAILABLE\<close> and \<open>QUOTA\<close> are triggers too.\<close>

theorem chat_falls_back_iff:
  assumes "do_chat rcfg provider model w m = Inl err" "0 \<le> rc_max_retries rcfg" "fc_triggers cfg = default_triggers"
  shows "\<exists>n e. w_call w n = Inl e \<and>
     (should_fallback cfg err \<longleftrightarrow> classify_error e (rc_provider rcfg) \<in> {RATE_LIMIT, CONTEXT_WINDOW})"
proof -
  obtain n e where "w_call w n = Inl e" "classify_error err [] =
     (let c = classify_error e (rc_provider rcfg) in
      if c \<in> {RATE_LIMIT, CONTEXT_WINDOW, AUTH} then c
      else if c \<in> set retryable_categories then SERVER_ERROR else UNKNOWN_ERROR)"
    using do_chat_error [OF assms(1,2)] by blast
  moreover from this have "should_fallback cfg err \<longleftrightarrow> classify_error e (rc_provider rcfg) \<in> {RATE_LIMIT, CONTEXT_WINDOW}"
    using should_fallback_category [OF assms(3)] by (simp add: Let_def)
  ultimately show ?thesis by blast
qed

definition down_error :: raw_error where
  "down_error = \<lparr>er_class = ForeignError, er_status_code = IntAttr 503, er_http_status = Absent,
     er_response_status = Absent, er_msg = ''Service Unavailable'', er_retry_after = None,
     er_header_retry_after = None\<rparr>"

definition down_world :: "string world" where
  "down_world = \<lparr>w_call = (\<lambda>_. Inl down_error), w_elapsed = (\<lambda>_. 0), w_done = (\<lambda>_. 0), w_draw = (\<lambda>_. 0),
     w_retry_after = (\<lambda>_. 5)\<rparr>"

definition up_world :: "string world" where
  "up_world = down_world\<lparr>w_call := (\<lambda>_. Inr ''hi'')\<rparr>"

lemma down_unavailable: "classify_error down_error p = SERVICE_UNAVAILABLE"
  by (simp add: down_error_def classify_error_def category_by_status_def status_of_def status_category_def)



end
