(* ===== verification/Credentials.thy ===== *)
theory Credentials
  imports Prelude "HOL-Library.List_Lexorder" "HOL-Library.Char_ord" "HOL-Library.Product_Lexorder"
begin

text \<open>
  \<open>app/llm/credential_pool.py\<close> and \<open>app/llm/profile_rotation.py\<close>: pools of API keys, the rotation
  across providers, and the failover between the entries of a model profile.  A credential is named by
  its position in its pool, so that marking it changes the pool, as marking the shared object does.
  Every reading of the clock is a parameter; strings are ordered by code point, tuples
  lexicographically.
\<close>

section \<open>Pools\<close>

record credential =
  cr_key :: string
  cr_priority :: int
  cr_until :: time
  cr_uses :: nat
  cr_fails :: nat

record pool =
  po_creds :: "credential list"
  po_cooldown :: time

definition cred_available :: "time \<Rightarrow> credential \<Rightarrow> bool" where
  "cred_available now c \<longleftrightarrow> now \<ge> cr_until c"

definition new_pool :: "(string \<times> int option) list \<Rightarrow> time \<Rightarrow> pool" where
  "new_pool cs cooldown =
     \<lparr>po_creds = sort_key cr_priority
        (map (\<lambda>(k, p). \<lparr>cr_key = k, cr_priority = (case p of Some n \<Rightarrow> n | None \<Rightarrow> 0), cr_until = 0,
                        cr_uses = 0, cr_fails = 0\<rparr>) cs),
      po_cooldown = cooldown\<rparr>"

definition pool_from_env :: "string list \<Rightarrow> time \<Rightarrow> pool" where
  "pool_from_env ks cooldown =
     new_pool (map (\<lambda>(i, k). (k, Some (int i))) (filter (\<lambda>(i, k). k \<noteq> []) (enumerate 0 ks))) cooldown"

text \<open>The available credentials, examined in order: the \<open>i\<close>-th at time \<open>now i\<close>.\<close>

definition available_creds :: "(nat \<Rightarrow> time) \<Rightarrow> pool \<Rightarrow> nat list" where
  "available_creds now p = filter (\<lambda>i. cred_available (now i) (po_creds p ! i)) [0..<length (po_creds p)]"

definition pool_get :: "(nat \<Rightarrow> time) \<Rightarrow> pool \<Rightarrow> nat option" where
  "pool_get now p = (case available_creds now p of [] \<Rightarrow> None | i # _ \<Rightarrow> Some i)"

definition pool_mark_exhausted :: "time \<Rightarrow> nat \<Rightarrow> pool \<Rightarrow> pool" where
  "pool_mark_exhausted now i p =
     p\<lparr>po_creds := (po_creds p)[i := (po_creds p ! i)\<lparr>cr_until := now + po_cooldown p,
                                              cr_fails := cr_fails (po_creds p ! i) + 1\<rparr>]\<rparr>"

definition pool_mark_success :: "nat \<Rightarrow> pool \<Rightarrow> pool" where
  "pool_mark_success i p =
     p\<lparr>po_creds := (po_creds p)[i := (po_creds p ! i)\<lparr>cr_uses := cr_uses (po_creds p ! i) + 1, cr_until := 0\<rparr>]\<rparr>"

definition pool_size :: "pool \<Rightarrow> nat" where
  "pool_size p = length (po_creds p)"

definition available_count :: "(nat \<Rightarrow> time) \<Rightarrow> pool \<Rightarrow> nat" where
  "available_count now p = length (available_creds now p)"

definition provider_prefix :: "string \<Rightarrow> string option" where
  "provider_prefix provider = map_of
     [(''openai'', ''OPENAI_API_KEY''), (''anthropic'', ''ANTHROPIC_API_KEY''), (''mistral'', ''MISTRAL_API_KEY''),
      (''bedrock'', ''AWS_ACCESS_KEY_ID''), (''google'', ''GOOGLE_API_KEY'')] (map lower_char provider)"

text \<open>\<open>env v\<close> is the value of the variable, empty when it is not set.\<close>

definition add_numbered_key :: "(string \<Rightarrow> string) \<Rightarrow> string \<Rightarrow> nat \<Rightarrow> string list \<Rightarrow> string list" where
  "add_numbered_key env var i keys =
     (let k = env (var @ ''_'' @ show_nat i) in if k \<noteq> [] \<and> k \<notin> set keys then keys @ [k] else keys)"

definition env_keys :: "(string \<Rightarrow> string) \<Rightarrow> string \<Rightarrow> string option \<Rightarrow> string list" where
  "env_keys env var primary =
     (let keys = (case primary of Some k \<Rightarrow> if k \<noteq> [] then [k] else [] | None \<Rightarrow> []);
          keys = fold (add_numbered_key env var) [2..<10] keys
      in if keys = [] \<and> env var \<noteq> [] then [env var] else keys)"

definition build_pool_from_config :: "(string \<Rightarrow> string) \<Rightarrow> string \<Rightarrow> string option \<Rightarrow> pool option" where
  "build_pool_from_config env provider primary =
     (case provider_prefix provider of
        None \<Rightarrow> if truthy primary then Some (pool_from_env [the primary] 60) else None
      | Some var \<Rightarrow>
          let keys = env_keys env var primary in if keys \<noteq> [] then Some (pool_from_env keys 60) else None)"

subsection \<open>The best available key\<close>

definition pool_ok :: "pool \<Rightarrow> bool" where
  "pool_ok p \<longleftrightarrow> sorted (map cr_priority (po_creds p))"

lemma new_pool_ok: "pool_ok (new_pool cs t)"
  by (simp add: pool_ok_def new_pool_def)

lemma map_list_update_same: "f x = f (xs ! i) \<Longrightarrow> map f (xs[i := x]) = map f xs"
  by (cases "i < length xs") (simp_all add: map_update list_update_same_conv list_update_beyond)

lemma pool_marks_ok:
  assumes "pool_ok p"
  shows "pool_ok (pool_mark_exhausted t i p)" "pool_ok (pool_mark_success i p)"
  using assms by (simp_all add: pool_ok_def pool_mark_exhausted_def pool_mark_success_def map_list_update_same)

definition first_of :: "'a list \<Rightarrow> 'a option" where
  "first_of xs = (case xs of [] \<Rightarrow> None | x # _ \<Rightarrow> Some x)"

lemma first_of_simps [simp]: "first_of [] = None" "first_of (x # xs) = Some x"
  by (simp_all add: first_of_def)

lemma first_of_None [simp]: "first_of xs = None \<longleftrightarrow> xs = []"
  by (cases xs) simp_all

lemma first_of_filter_upt:
  "m \<le> n \<Longrightarrow> first_of (filter P [m..<n]) = Some i \<longleftrightarrow> m \<le> i \<and> i < n \<and> P i \<and> (\<forall>j. m \<le> j \<longrightarrow> j < i \<longrightarrow> \<not> P j)"
proof (induction "n - m" arbitrary: m)
  case (Suc d)
  hence up: "[m..<n] = m # [Suc m..<n]" and IH: "first_of (filter P [Suc m..<n]) = Some i \<longleftrightarrow>
      Suc m \<le> i \<and> i < n \<and> P i \<and> (\<forall>j. Suc m \<le> j \<longrightarrow> j < i \<longrightarrow> \<not> P j)"
    by (auto simp: upt_conv_Cons)
  show ?case
  proof (cases "P m")
    case True
    thus ?thesis using Suc.hyps(2) unfolding up by (auto simp: not_less le_less)
  next
    case False
    have "(\<forall>j. m \<le> j \<longrightarrow> j < i \<longrightarrow> \<not> P j) \<longleftrightarrow> (\<forall>j. Suc m \<le> j \<longrightarrow> j < i \<longrightarrow> \<not> P j)"
      using False by (metis Suc_leD Suc_leI le_neq_implies_less)
    moreover have "m \<le> i \<and> P i \<longleftrightarrow> Suc m \<le> i \<and> P i"
      using False by (metis Suc_leD Suc_leI le_neq_implies_less)
    ultimately show ?thesis unfolding up using IH False by simp metis
  qed
qed auto

lemma pool_get_first_of: "pool_get now p = first_of (available_creds now p)"
  by (simp add: pool_get_def first_of_def)

text \<open>\<open>get\<close> returns an available credential of the best priority among the available ones (the
  lowest number, the first of equals), and \<open>None\<close> exactly if all credentials are exhausted.\<close>

theorem pool_get_best:
  assumes "pool_ok p"
  shows "(pool_get now p = Some i \<longleftrightarrow>
        i < length (po_creds p) \<and> cred_available (now i) (po_creds p ! i) \<and>
        (\<forall>j<i. \<not> cred_available (now j) (po_creds p ! j))) \<and>
     (pool_get now p = Some i \<longrightarrow>
        (\<forall>j<length (po_creds p). cred_available (now j) (po_creds p ! j) \<longrightarrow>
           cr_priority (po_creds p ! i) \<le> cr_priority (po_creds p ! j))) \<and>
     (pool_get now p = None \<longleftrightarrow> (\<forall>j<length (po_creds p). \<not> cred_available (now j) (po_creds p ! j)))"
proof -
  let ?P = "\<lambda>i. cred_available (now i) (po_creds p ! i)"
  have some: "pool_get now p = Some i \<longleftrightarrow> i < length (po_creds p) \<and> ?P i \<and> (\<forall>j<i. \<not> ?P j)"
    by (simp add: pool_get_first_of available_creds_def first_of_filter_upt)
  have "cr_priority (po_creds p ! i) \<le> cr_priority (po_creds p ! j)"
    if "i \<le> j" "j < length (po_creds p)" for i j
    using sorted_nth_mono [of "map cr_priority (po_creds p)" i j] that assms by (simp add: pool_ok_def)
  moreover have "pool_get now p = None \<longleftrightarrow> (\<forall>j<length (po_creds p). \<not> ?P j)"
    by (auto simp: pool_get_first_of available_creds_def filter_empty_conv)
  ultimately show ?thesis using some by (meson leI)
qed

definition two_keys :: pool where
  "two_keys = new_pool [(''b'', Some 1), (''a'', Some 0)] 60"

theorem pool_get_best_witness:
  "pool_get (\<lambda>_. 10) two_keys = Some 0 \<and> pool_get (\<lambda>_. 10) (pool_mark_exhausted 10 0 two_keys) = Some 1"
proof -
  have "pool_ok two_keys" by (simp add: two_keys_def new_pool_ok)
  thus ?thesis
    using pool_get_best [of two_keys "\<lambda>_. 10" 0] pool_get_best [of "pool_mark_exhausted 10 0 two_keys" "\<lambda>_. 10" 1]
      pool_marks_ok(1) [of two_keys 10 0]
    by (simp add: two_keys_def new_pool_def pool_mark_exhausted_def cred_available_def)
qed

text \<open>A variable without a number is read only when there is no other key: \<open>OPENAI_API_KEY\<close> is left out of
  the pool as soon as one of the numbered variables is set and no key is passed.\<close>

theorem unnumbered_key_ignored:
  assumes "env ''OPENAI_API_KEY_2'' = k" "k \<noteq> []"
    and "\<And>i. i \<in> {3..<10} \<Longrightarrow> env (''OPENAI_API_KEY_'' @ show_nat i) = []"
  shows "map_option (\<lambda>p. map cr_key (po_creds p)) (build_pool_from_config env ''openai'' None) = Some [k]"
proof -
  have two: "show_nat 2 = ''2''" by code_simp
  have rest: "add_numbered_key env ''OPENAI_API_KEY'' i ks = ks" if "i \<in> {3..<10}" for i ks
    using assms(3) [of i] that by (simp add: add_numbered_key_def)
  have "fold (add_numbered_key env ''OPENAI_API_KEY'') is ks = ks" if "set is \<subseteq> {3..<10}" for "is" ks
    using that by (induction "is" arbitrary: ks) (simp_all add: rest)
  from this [of "[3..<10]"] have "fold (add_numbered_key env ''OPENAI_API_KEY'') [3..<10] ks = ks" for ks
    by (simp del: upt_rec_numeral)
  moreover have "[2..<10::nat] = 2 # [3..<10]" by (simp add: upt_rec)
  ultimately show ?thesis using assms(1,2)
    by (simp add: build_pool_from_config_def provider_prefix_def lower_char_def char_of_def Let_def env_keys_def
        add_numbered_key_def two pool_from_env_def new_pool_def)
qed

section \<open>Rotation across providers\<close>

record rotator =
  ro_pools :: "(string \<times> pool) list"
  ro_order :: "string list"

definition new_rotator :: rotator where
  "new_rotator = \<lparr>ro_pools = [], ro_order = []\<rparr>"

definition add_pool :: "string \<Rightarrow> pool \<Rightarrow> int \<Rightarrow> rotator \<Rightarrow> rotator" where
  "add_pool provider p priority r =
     (let order = (if provider \<notin> set (ro_order r) then ro_order r @ [provider] else ro_order r)
      in \<lparr>ro_pools = AList.update provider p (ro_pools r), ro_order = sort_key (\<lambda>q. (priority, q)) order\<rparr>)"

fun next_in_order ::
  "(string \<Rightarrow> nat \<Rightarrow> time) \<Rightarrow> string option \<Rightarrow> rotator \<Rightarrow> string list \<Rightarrow> nat option \<times> string" where
  "next_in_order now preferred r [] = (None, [])"
| "next_in_order now preferred r (q # qs) =
     (if preferred = Some q \<and> q \<noteq> [] then next_in_order now preferred r qs
      else case pool_get (now q) (the (map_of (ro_pools r) q)) of
        Some c \<Rightarrow> (Some c, q)
      | None \<Rightarrow> next_in_order now preferred r qs)"

definition rotator_get_next ::
  "(string \<Rightarrow> nat \<Rightarrow> time) \<Rightarrow> string option \<Rightarrow> rotator \<Rightarrow> nat option \<times> string" where
  "rotator_get_next now preferred r =
     (case preferred of
        Some q \<Rightarrow>
          (case (if q \<noteq> [] then map_of (ro_pools r) q else None) of
             Some p \<Rightarrow>
               (case pool_get (now q) p of
                  Some c \<Rightarrow> (Some c, q)
                | None \<Rightarrow> next_in_order now preferred r (ro_order r))
           | None \<Rightarrow> next_in_order now preferred r (ro_order r))
      | None \<Rightarrow> next_in_order now preferred r (ro_order r))"

definition rotator_update :: "string \<Rightarrow> (pool \<Rightarrow> pool) \<Rightarrow> rotator \<Rightarrow> rotator" where
  "rotator_update provider f r =
     (case map_of (ro_pools r) provider of
        Some p \<Rightarrow> r\<lparr>ro_pools := AList.update provider (f p) (ro_pools r)\<rparr>
      | None \<Rightarrow> r)"

definition rotator_mark_exhausted :: "time \<Rightarrow> string \<Rightarrow> nat \<Rightarrow> rotator \<Rightarrow> rotator" where
  "rotator_mark_exhausted now provider i = rotator_update provider (pool_mark_exhausted now i)"

definition rotator_mark_success :: "string \<Rightarrow> nat \<Rightarrow> rotator \<Rightarrow> rotator" where
  "rotator_mark_success provider i = rotator_update provider (pool_mark_success i)"

definition rotator_total_available :: "(string \<Rightarrow> nat \<Rightarrow> time) \<Rightarrow> rotator \<Rightarrow> nat" where
  "rotator_total_available now r = sum_list (map (\<lambda>(q, p). available_count (now q) p) (ro_pools r))"

definition rotator_ok :: "rotator \<Rightarrow> bool" where
  "rotator_ok r \<longleftrightarrow> dict_ok (ro_pools r) \<and> ro_order r = sorted_list_of_set (fst ` set (ro_pools r))"

lemma new_rotator_ok: "rotator_ok new_rotator"
  by (simp add: rotator_ok_def new_rotator_def)

lemma sort_key_const: "sort_key (\<lambda>q. (c::int, q::string)) xs = sort xs"
proof -
  have "insort_key (\<lambda>q. (c, q)) x ys = insort x ys" for x :: string and ys
    by (induction ys) (auto simp: less_eq_prod_def)
  hence "insort_key (\<lambda>q. (c, q)) = insort_key (\<lambda>q::string. q)" by (intro ext)
  thus ?thesis unfolding sort_key_def by simp
qed

lemma sort_snoc: "sorted xs \<Longrightarrow> sort (xs @ [x]) = insort x xs"
  by (rule properties_for_sort) (simp_all add: sorted_insort)

text \<open>Every way to register pools leaves the providers in alphabetical order, whatever priorities are
  given: the sort uses one priority, that of the last call, for all of them.\<close>

lemma add_pool_ok: "rotator_ok r \<Longrightarrow> rotator_ok (add_pool q p n r)"
  by (cases "q \<in> fst ` set (ro_pools r)")
    (simp_all add: rotator_ok_def add_pool_def Let_def keys_update sort_key_const insert_absorb sort_snoc
      sort_key_id_if_sorted sorted_list_of_set.sorted_key_list_of_set_insert del: sorted_list_of_set.sorted_key_list_of_set_insert_remove)

definition pool_of :: "rotator \<Rightarrow> string \<Rightarrow> pool" where
  "pool_of r q = the (map_of (ro_pools r) q)"

lemma next_in_order_find:
  "next_in_order now preferred r qs =
     (case List.find (\<lambda>q. \<not> (preferred = Some q \<and> q \<noteq> []) \<and> pool_get (now q) (pool_of r q) \<noteq> None) qs of
        Some q \<Rightarrow> (pool_get (now q) (pool_of r q), q) | None \<Rightarrow> (None, []))"
  by (induction qs) (auto simp: pool_of_def split: option.splits)

lemma find_sorted:
  assumes "sorted qs" "distinct qs"
  shows "List.find P qs = Some q \<longleftrightarrow> q \<in> set qs \<and> P q \<and> (\<forall>x\<in>set qs. x < q \<longrightarrow> \<not> P x)"
  using assms
proof (induction qs)
  case (Cons x qs)
  thus ?case by (auto simp: less_le)
qed simp

text \<open>The rotation finds a credential whenever some pool has one, tries the preferred provider first,
  and otherwise takes the alphabetically first provider with an available credential.\<close>

theorem rotator_get_next_correct:
  assumes "rotator_ok r"
  shows "(fst (rotator_get_next now preferred r) = None \<longleftrightarrow>
        (\<forall>q\<in>fst ` set (ro_pools r). pool_get (now q) (pool_of r q) = None)) \<and>
     (rotator_get_next now preferred r = (Some c, q) \<longrightarrow>
        q \<in> fst ` set (ro_pools r) \<and> pool_get (now q) (pool_of r q) = Some c \<and>
        (preferred = Some q \<and> q \<noteq> [] \<or>
         (\<forall>q'\<in>fst ` set (ro_pools r). q' < q \<or> preferred = Some q' \<and> q' \<noteq> [] \<longrightarrow>
            pool_get (now q') (pool_of r q') = None)))"
proof -
  have order: "set (ro_order r) = fst ` set (ro_pools r)" "sorted (ro_order r)" "distinct (ro_order r)"
    using assms by (simp_all add: rotator_ok_def)
  have dom: "(map_of (ro_pools r) q = Some p) \<Longrightarrow> q \<in> fst ` set (ro_pools r) \<and> pool_of r q = p" for q p
    by (force simp: pool_of_def dest: map_of_SomeD)
  have dom': "q \<in> fst ` set (ro_pools r) \<longleftrightarrow> map_of (ro_pools r) q \<noteq> None" for q
    by (simp add: map_of_eq_None_iff)
  let ?get = "\<lambda>q. pool_get (now q) (pool_of r q)"
  let ?P = "\<lambda>q. \<not> (preferred = Some q \<and> q \<noteq> []) \<and> ?get q \<noteq> None"
  let ?rest = "next_in_order now preferred r (ro_order r)"
  have rest_None: "fst ?rest = None \<longleftrightarrow>
      (\<forall>q\<in>fst ` set (ro_pools r). preferred = Some q \<and> q \<noteq> [] \<or> ?get q = None)"
  proof (cases "List.find ?P (ro_order r)")
    case None
    moreover from this have "\<forall>q\<in>set (ro_order r). \<not> ?P q" unfolding find_None_iff by blast
    ultimately show ?thesis unfolding next_in_order_find order(1) [symmetric] by auto
  next
    case (Some q)
    hence "q \<in> set (ro_order r)" "?P q" unfolding find_sorted [OF order(2,3)]
      by (rule conjunct1, rule conjunct1 [OF conjunct2])
    thus ?thesis unfolding next_in_order_find Some order(1) [symmetric] by auto
  qed
  have rest_Some: "?rest = (Some c, q) \<Longrightarrow> q \<in> fst ` set (ro_pools r) \<and> ?get q = Some c \<and>
      (\<forall>q'\<in>fst ` set (ro_pools r). q' < q \<longrightarrow> preferred = Some q' \<and> q' \<noteq> [] \<or> ?get q' = None)"
    unfolding next_in_order_find order(1) [symmetric]
    by (auto split: option.splits simp: find_sorted [OF order(2,3)])
  show ?thesis
  proof (cases "\<exists>q p. preferred = Some q \<and> q \<noteq> [] \<and> map_of (ro_pools r) q = Some p")
    case True
    then obtain p0 p where p: "preferred = Some p0" "p0 \<noteq> []" "map_of (ro_pools r) p0 = Some p" by blast
    show ?thesis
    proof (cases "pool_get (now p0) p")
      case None
      hence eq: "rotator_get_next now preferred r = ?rest" using p by (simp add: rotator_get_next_def)
      have "?get p0 = None" using None dom [OF p(3)] by simp
      hence skip: "preferred = Some x \<Longrightarrow> ?get x = None" for x using p(1) by simp
      show ?thesis unfolding eq using rest_None rest_Some by (intro conjI impI) (metis skip)+
    next
      case (Some x)
      hence "rotator_get_next now preferred r = (Some x, p0)" using p by (simp add: rotator_get_next_def)
      thus ?thesis using p Some dom [OF p(3)] by auto
    qed
  next
    case False
    hence "rotator_get_next now preferred r = ?rest"
      by (auto simp: rotator_get_next_def split: option.splits)
    moreover have "\<not> (preferred = Some q \<and> q \<noteq> [])" if "q \<in> fst ` set (ro_pools r)" for q
      using that False unfolding dom' by auto
    ultimately show ?thesis using rest_None rest_Some by (metis (no_types, lifting))
  qed
qed


definition two_providers :: rotator where
  "two_providers = add_pool ''openai'' two_keys 0 (add_pool ''anthropic'' two_keys 9 new_rotator)"

theorem rotator_get_next_correct_witness:
  "fst (rotator_get_next (\<lambda>_ _. 10) None two_providers) \<noteq> None"
proof -
  have ok: "rotator_ok two_providers" by (simp add: two_providers_def add_pool_ok new_rotator_ok)
  have "''openai'' \<in> fst ` set (ro_pools two_providers)" "pool_of two_providers ''openai'' = two_keys"
    by (simp_all add: two_providers_def add_pool_def new_rotator_def Let_def pool_of_def)
  moreover have "pool_get (\<lambda>_. 10) two_keys = Some 0"
    by (simp add: pool_get_def available_creds_def two_keys_def new_pool_def cred_available_def upt_rec)
  ultimately show ?thesis using rotator_get_next_correct [OF ok, of "\<lambda>_ _. 10" None] by force
qed

text \<open>The order is alphabetical even against the priorities: a provider registered with a better (lower)
  number is tried after one whose name sorts before it.\<close>

theorem rotator_priorities_ignored:
  "ro_order (add_pool q p n r) = ro_order (add_pool q p k r)"
  by (simp add: add_pool_def Let_def sort_key_const)

section \<open>Model profiles\<close>

record model_entry =
  me_provider :: string
  me_model :: string
  me_api_key :: string
  me_base_url :: "string option"
  me_priority :: int
  me_fallback_weight :: real
  me_extra_headers :: "(string \<times> string) list"
  me_max_tokens :: int
  me_temperature :: real
  me_timeout :: int
  me_cooldown :: time

definition entry_key :: "model_entry \<Rightarrow> string" where
  "entry_key e = me_provider e @ '':'' @ me_model e"

record model_stats =
  st_entry :: model_entry
  st_total :: nat
  st_success :: nat
  st_fail :: nat
  st_last_failure :: time
  st_latency :: time

definition new_stats :: "model_entry \<Rightarrow> model_stats" where
  "new_stats e = \<lparr>st_entry = e, st_total = 0, st_success = 0, st_fail = 0, st_last_failure = 0, st_latency = 0\<rparr>"

definition success_rate :: "model_stats \<Rightarrow> real" where
  "success_rate s = (if st_total s = 0 then 1 else real (st_success s) / real (st_total s))"

definition avg_latency :: "model_stats \<Rightarrow> real" where
  "avg_latency s = (if st_total s = 0 then 0 else st_latency s / real (st_total s))"

definition is_in_cooldown :: "time \<Rightarrow> model_stats \<Rightarrow> bool" where
  "is_in_cooldown now s \<longleftrightarrow> st_fail s \<noteq> 0 \<and> now < st_last_failure s + me_cooldown (st_entry s)"

text \<open>The cooldown is tested at time \<open>t\<close> and its rest computed at time \<open>t'\<close>.\<close>

definition remaining_cooldown :: "time \<Rightarrow> time \<Rightarrow> model_stats \<Rightarrow> time" where
  "remaining_cooldown t t' s =
     (if \<not> is_in_cooldown t s then 0 else st_last_failure s + me_cooldown (st_entry s) - t')"

record model_profile =
  mp_entries :: "model_entry list"
  mp_name :: string
  mp_stats :: "(string \<times> model_stats) list"

definition new_profile :: "string \<Rightarrow> model_entry list \<Rightarrow> model_profile" where
  "new_profile name es =
     \<lparr>mp_entries = sort_key (\<lambda>e. (me_priority e, me_model e)) es, mp_name = name, mp_stats = []\<rparr>"

text \<open>An entry of the configuration, each key present or not.\<close>

record entry_config =
  ec_provider :: "string option"
  ec_model :: "string option"
  ec_api_key :: "string option"
  ec_base_url :: "string option"
  ec_priority :: "int option"
  ec_fallback_weight :: "real option"
  ec_extra_headers :: "(string \<times> string) list option"
  ec_max_tokens :: "int option"
  ec_temperature :: "real option"
  ec_timeout :: "int option"
  ec_cooldown :: "time option"

definition get_or :: "'a option \<Rightarrow> 'a \<Rightarrow> 'a" where
  "get_or x d = (case x of Some y \<Rightarrow> y | None \<Rightarrow> d)"

definition entry_from_config :: "entry_config \<Rightarrow> model_entry" where
  "entry_from_config c =
     \<lparr>me_provider = get_or (ec_provider c) ''openai'', me_model = get_or (ec_model c) ''gpt-4o'',
      me_api_key = get_or (ec_api_key c) [], me_base_url = ec_base_url c, me_priority = get_or (ec_priority c) 0,
      me_fallback_weight = get_or (ec_fallback_weight c) 1, me_extra_headers = get_or (ec_extra_headers c) [],
      me_max_tokens = get_or (ec_max_tokens c) 4096, me_temperature = get_or (ec_temperature c) 0,
      me_timeout = get_or (ec_timeout c) 300, me_cooldown = get_or (ec_cooldown c) 60\<rparr>"

definition profile_from_config :: "entry_config list \<Rightarrow> string \<Rightarrow> model_profile" where
  "profile_from_config cs name = new_profile name (map entry_from_config cs)"

fun unique_keys :: "string set \<Rightarrow> model_entry list \<Rightarrow> (string \<times> int option) list" where
  "unique_keys seen [] = []"
| "unique_keys seen (e # es) =
     (if me_api_key e \<noteq> [] \<and> me_api_key e \<notin> seen
      then (me_api_key e, Some (me_priority e)) # unique_keys (insert (me_api_key e) seen) es
      else unique_keys seen es)"

definition pool_from_profile :: "model_profile \<Rightarrow> pool" where
  "pool_from_profile p = new_pool (unique_keys {} (mp_entries p)) 60"

definition get_stats :: "model_entry \<Rightarrow> model_profile \<Rightarrow> model_stats \<times> model_profile" where
  "get_stats e p =
     (case map_of (mp_stats p) (entry_key e) of
        Some s \<Rightarrow> (s, p)
      | None \<Rightarrow> (new_stats e, p\<lparr>mp_stats := AList.update (entry_key e) (new_stats e) (mp_stats p)\<rparr>))"


text \<open>\<open>get_next\<close>: the first loop tests the \<open>i\<close>-th entry at time \<open>now i\<close>; the second asks for its remaining
  cooldown, tested at \<open>t i\<close> and computed at \<open>t' i\<close>.  (The provider test inside the second loop repeats the
  filter.)\<close>

fun ready_loop ::
  "(nat \<Rightarrow> time) \<Rightarrow> nat \<Rightarrow> model_entry list \<Rightarrow> model_profile \<Rightarrow> model_entry option \<times> model_profile" where
  "ready_loop now i [] p = (None, p)"
| "ready_loop now i (e # es) p =
     (let (s, p') = get_stats e p
      in if \<not> is_in_cooldown (now i) s then (Some e, p') else ready_loop now (Suc i) es p')"

fun least_loop ::
  "(nat \<Rightarrow> time) \<Rightarrow> (nat \<Rightarrow> time) \<Rightarrow> nat \<Rightarrow> model_entry list \<Rightarrow> (model_entry \<times> time) option \<Rightarrow> model_profile \<Rightarrow>
   (model_entry \<times> time) option \<times> model_profile" where
  "least_loop t t' i [] best p = (best, p)"
| "least_loop t t' i (e # es) best p =
     (let (s, p') = get_stats e p;
          r = remaining_cooldown (t i) (t' i) s
      in least_loop t t' (Suc i) es
           (if (case best of None \<Rightarrow> True | Some (_, b) \<Rightarrow> r < b) then Some (e, r) else best) p')"

definition profile_candidates :: "string option \<Rightarrow> model_profile \<Rightarrow> model_entry list" where
  "profile_candidates provider_filter p =
     (if truthy provider_filter then filter (\<lambda>e. Some (me_provider e) = provider_filter) (mp_entries p)
      else mp_entries p)"

definition profile_get_next ::
  "(nat \<Rightarrow> time) \<Rightarrow> (nat \<Rightarrow> time) \<Rightarrow> (nat \<Rightarrow> time) \<Rightarrow> string option \<Rightarrow> model_profile \<Rightarrow>
   model_entry option \<times> model_profile" where
  "profile_get_next now t t' provider_filter p =
     (let es = profile_candidates provider_filter p;
          (ready, p1) = ready_loop now 0 es p
      in case ready of
           Some e \<Rightarrow> (Some e, p1)
         | None \<Rightarrow> (let (best, p2) = least_loop t t' 0 es None p1 in (map_option fst best, p2)))"

definition update_stats :: "model_entry \<Rightarrow> (model_stats \<Rightarrow> model_stats) \<Rightarrow> model_profile \<Rightarrow> model_profile" where
  "update_stats e f p =
     (let (s, p') = get_stats e p in p'\<lparr>mp_stats := AList.update (entry_key e) (f s) (mp_stats p')\<rparr>)"

definition profile_mark_success :: "model_entry \<Rightarrow> time \<Rightarrow> model_profile \<Rightarrow> model_profile" where
  "profile_mark_success e latency =
     update_stats e (\<lambda>s. s\<lparr>st_total := st_total s + 1, st_success := st_success s + 1,
                          st_latency := st_latency s + latency\<rparr>)"

definition profile_mark_failed :: "time \<Rightarrow> model_entry \<Rightarrow> model_profile \<Rightarrow> model_profile" where
  "profile_mark_failed now e =
     update_stats e (\<lambda>s. s\<lparr>st_total := st_total s + 1, st_fail := st_fail s + 1, st_last_failure := now\<rparr>)"

definition profile_reset_all :: "model_profile \<Rightarrow> model_profile" where
  "profile_reset_all p =
     p\<lparr>mp_stats := map (\<lambda>(k, s). (k, s\<lparr>st_fail := 0, st_last_failure := 0\<rparr>)) (mp_stats p)\<rparr>"

subsection \<open>The entry chosen\<close>

definition stats_of :: "model_profile \<Rightarrow> model_entry \<Rightarrow> model_stats" where
  "stats_of p e = fst (get_stats e p)"

lemma fresh_not_cooling [simp]: "\<not> is_in_cooldown t (new_stats e)"
  by (simp add: is_in_cooldown_def new_stats_def)

lemma cooldown_get_stats [simp]:
  "is_in_cooldown t (stats_of (snd (get_stats e p)) x) = is_in_cooldown t (stats_of p x)"
  by (auto simp: stats_of_def get_stats_def split: option.splits)

lemma remaining_get_stats [simp]:
  "remaining_cooldown t t' (stats_of (snd (get_stats e p)) x) = remaining_cooldown t t' (stats_of p x)"
  by (auto simp: stats_of_def get_stats_def remaining_cooldown_def split: option.splits)

lemma ready_loop_Cons [simp]:
  "ready_loop now i (e # es) p =
     (if \<not> is_in_cooldown (now i) (stats_of p e) then (Some e, snd (get_stats e p))
      else ready_loop now (Suc i) es (snd (get_stats e p)))"
  by (simp add: stats_of_def split_beta Let_def)

lemma least_loop_Cons [simp]:
  "least_loop t t' i (e # es) best p =
     (let r = remaining_cooldown (t i) (t' i) (stats_of p e)
      in least_loop t t' (Suc i) es
           (if (case best of None \<Rightarrow> True | Some (_, b) \<Rightarrow> r < b) then Some (e, r) else best) (snd (get_stats e p)))"
  by (simp add: stats_of_def split_beta Let_def)

declare ready_loop.simps(2) [simp del] least_loop.simps(2) [simp del]

lemma ready_loop_stats [simp]:
  "is_in_cooldown t (stats_of (snd (ready_loop now k es p)) x) = is_in_cooldown t (stats_of p x)"
  "remaining_cooldown t t' (stats_of (snd (ready_loop now k es p)) x) = remaining_cooldown t t' (stats_of p x)"
  by (induction es arbitrary: k p) simp_all

lemma ready_loop_None:
  "fst (ready_loop now k es p) = None \<longleftrightarrow> (\<forall>i<length es. is_in_cooldown (now (k + i)) (stats_of p (es ! i)))"
  by (induction es arbitrary: k p) (auto simp: less_Suc_eq_0_disj)

lemma ready_loop_Some:
  "fst (ready_loop now k es p) = Some e \<Longrightarrow>
     \<exists>i<length es. e = es ! i \<and> \<not> is_in_cooldown (now (k + i)) (stats_of p (es ! i)) \<and>
       (\<forall>j<i. is_in_cooldown (now (k + j)) (stats_of p (es ! j)))"
proof (induction es arbitrary: k p)
  case (Cons x es)
  show ?case
  proof (cases "is_in_cooldown (now k) (stats_of p x)")
    case True
    with Cons.prems have "fst (ready_loop now (Suc k) es (snd (get_stats x p))) = Some e" by simp
    from Cons.IH [OF this] obtain i where "i < length es" "e = es ! i"
        "\<not> is_in_cooldown (now (k + Suc i)) (stats_of p (es ! i))"
        "\<forall>j<i. is_in_cooldown (now (k + Suc j)) (stats_of p (es ! j))" by auto
    thus ?thesis using True by (intro exI [of _ "Suc i"]) (auto simp: less_Suc_eq_0_disj)
  qed (use Cons.prems in auto)
qed simp

lemma least_loop_None:
  "fst (least_loop t t' k es best p) = None \<longleftrightarrow> es = [] \<and> best = None"
  by (induction es arbitrary: k best p) (auto simp: Let_def split: option.splits)

lemma least_loop_min:
  "fst (least_loop t t' k es best p) = Some (e, r) \<Longrightarrow>
     (best = Some (e, r) \<or>
      (\<exists>i<length es. e = es ! i \<and> r = remaining_cooldown (t (k + i)) (t' (k + i)) (stats_of p (es ! i)))) \<and>
     (\<forall>i<length es. r \<le> remaining_cooldown (t (k + i)) (t' (k + i)) (stats_of p (es ! i))) \<and>
     (\<forall>b. best = Some b \<longrightarrow> r \<le> snd b)"
proof (induction es arbitrary: k best p)
  case (Cons x es)
  define q where "q = remaining_cooldown (t k) (t' k) (stats_of p x)"
  define best' where "best' = (if (case best of None \<Rightarrow> True | Some (_, b) \<Rightarrow> q < b) then Some (x, q) else best)"
  have "fst (least_loop t t' (Suc k) es best' (snd (get_stats x p))) = Some (e, r)"
    using Cons.prems unfolding least_loop_Cons Let_def q_def best'_def .
  from Cons.IH [OF this]
  have IH: "best' = Some (e, r) \<or> (\<exists>i<length es. e = es ! i \<and>
        r = remaining_cooldown (t (k + Suc i)) (t' (k + Suc i)) (stats_of p (es ! i)))"
    "\<forall>i<length es. r \<le> remaining_cooldown (t (k + Suc i)) (t' (k + Suc i)) (stats_of p (es ! i))"
    "\<forall>b. best' = Some b \<longrightarrow> r \<le> snd b" by simp_all
  have "r \<le> q" "\<forall>b. best = Some b \<longrightarrow> r \<le> snd b" "best' = best \<or> best' = Some (x, q)"
    using IH(3) by (auto simp: best'_def split: option.splits if_splits)
  moreover have "best = Some (e, r) \<or> e = x \<and> r = q \<or> (\<exists>i<length es. e = es ! i \<and>
        r = remaining_cooldown (t (k + Suc i)) (t' (k + Suc i)) (stats_of p (es ! i)))"
    using IH(1) calculation(3) by auto
  ultimately show ?case using IH(2)
    by (auto simp: less_Suc_eq_0_disj all_conj_distrib q_def)
qed simp

text \<open>\<open>get_next\<close> returns the first entry of the right provider (in the order of priority, then model
  name) that is not cooling down; when all of them are, one with the least remaining cooldown; and
  \<open>None\<close> only when there is no entry of that provider at all.\<close>

theorem profile_get_next_correct:
  fixes p pf
  defines "es \<equiv> profile_candidates pf p"
  shows "case fst (profile_get_next now t t' pf p) of
       None \<Rightarrow> es = []
     | Some e \<Rightarrow>
         (\<exists>i<length es. e = es ! i \<and> \<not> is_in_cooldown (now i) (stats_of p e) \<and>
            (\<forall>j<i. is_in_cooldown (now j) (stats_of p (es ! j)))) \<or>
         (\<forall>i<length es. is_in_cooldown (now i) (stats_of p (es ! i))) \<and>
         (\<exists>k<length es. e = es ! k \<and> (\<forall>i<length es.
            remaining_cooldown (t k) (t' k) (stats_of p e) \<le> remaining_cooldown (t i) (t' i) (stats_of p (es ! i))))"
proof (cases "fst (ready_loop now 0 es p)")
  case (Some e)
  hence "fst (profile_get_next now t t' pf p) = Some e"
    by (simp add: profile_get_next_def es_def [symmetric] Let_def split_beta)
  thus ?thesis using ready_loop_Some [OF Some] by auto
next
  case None
  define q where "q = snd (ready_loop now 0 es p)"
  have eq: "fst (profile_get_next now t t' pf p) = map_option fst (fst (least_loop t t' 0 es None q))"
    using None by (simp add: profile_get_next_def es_def [symmetric] q_def Let_def split_beta)
  have same: "remaining_cooldown x y (stats_of q z) = remaining_cooldown x y (stats_of p z)" for x y z
    by (simp add: q_def)
  have all: "\<forall>i<length es. is_in_cooldown (now i) (stats_of p (es ! i))" using None ready_loop_None by force
  show ?thesis
  proof (cases "fst (least_loop t t' 0 es None q)")
    case None
    thus ?thesis using eq least_loop_None by simp
  next
    case (Some er)
    obtain e r where er: "er = (e, r)" by (cases er)
    from least_loop_min [of t t' 0 es None q e r] Some er
    obtain k where "k < length es" "e = es ! k" "r = remaining_cooldown (t k) (t' k) (stats_of p (es ! k))"
        "\<forall>i<length es. r \<le> remaining_cooldown (t i) (t' i) (stats_of p (es ! i))"
      by (auto simp: same)
    thus ?thesis using eq Some er all by auto
  qed
qed


definition entry :: "string \<Rightarrow> string \<Rightarrow> string \<Rightarrow> int \<Rightarrow> model_entry" where
  "entry provider model key prio =
     \<lparr>me_provider = provider, me_model = model, me_api_key = key, me_base_url = None, me_priority = prio,
      me_fallback_weight = 1, me_extra_headers = [], me_max_tokens = 4096, me_temperature = 0, me_timeout = 300,
      me_cooldown = 60\<rparr>"

definition two_entries :: model_profile where
  "two_entries = new_profile ''p'' [entry ''openai'' ''gpt-4o'' ''k1'' 0, entry ''ollama'' ''llama3'' [] 1]"

theorem profile_get_next_correct_witness:
  "fst (profile_get_next (\<lambda>_. 0) (\<lambda>_. 0) (\<lambda>_. 0) (Some ''ollama'') two_entries) = Some (entry ''ollama'' ''llama3'' [] 1)"
proof -
  have es: "profile_candidates (Some ''ollama'') two_entries = [entry ''ollama'' ''llama3'' [] 1]"
    by (simp add: profile_candidates_def two_entries_def new_profile_def entry_def)
  show ?thesis
    using profile_get_next_correct [where now = "\<lambda>_. 0" and t = "\<lambda>_. 0" and t' = "\<lambda>_. 0" and pf = "Some ''ollama''"
        and p = two_entries]
    by (auto simp: es split: option.splits)
qed

text \<open>Entries with the same provider and model share their statistics, so keys of one model cannot be
  rotated: a failure with one key cools down the entries with every other key too.\<close>

theorem keys_share_cooldown:
  assumes "entry_key e = entry_key e'"
  shows "is_in_cooldown t (stats_of (profile_mark_failed now e p) e') \<longleftrightarrow>
     t < now + me_cooldown (st_entry (stats_of p e))"
  using assms
  by (simp add: profile_mark_failed_def update_stats_def split_beta Let_def stats_of_def get_stats_def
      is_in_cooldown_def new_stats_def split: option.splits)

section \<open>Profiles of sessions\<close>

text \<open>A full cache of size 0 or less has no oldest session: \<open>next(iter({}))\<close> raises \<open>StopIteration\<close>.\<close>

definition set_session_profile ::
  "int \<Rightarrow> string \<Rightarrow> 'p \<Rightarrow> (string \<times> 'p) list \<Rightarrow> (string \<times> 'p) list option" where
  "set_session_profile limit sid prof d =
     (if int (length d) \<ge> limit
      then (case d of [] \<Rightarrow> None | (oldest, _) # _ \<Rightarrow> Some (AList.update sid prof (AList.delete oldest d)))
      else Some (AList.update sid prof d))"

definition get_session_profile :: "string \<Rightarrow> (string \<times> 'p) list \<Rightarrow> 'p option" where
  "get_session_profile sid d = map_of d sid"

definition remove_session_profile :: "string \<Rightarrow> (string \<times> 'p) list \<Rightarrow> (string \<times> 'p) list" where
  "remove_session_profile sid d = AList.delete sid d"

lemma length_update_le: "length (AList.update k v d) \<le> Suc (length d)"
  by (induction d) auto

text \<open>With a limit of at least 1, setting a session's profile never fails, the cache stays within the
  limit, and the profile set last is the one found; at most the oldest other session is dropped.\<close>

theorem session_profiles_bounded:
  assumes "1 \<le> limit" "int (length d) \<le> limit" "dict_ok d"
  shows "\<exists>d'. set_session_profile limit sid prof d = Some d' \<and> dict_ok d' \<and> int (length d') \<le> limit \<and>
     get_session_profile sid d' = Some prof \<and>
     (\<forall>k. k \<noteq> sid \<longrightarrow> get_session_profile k d' = get_session_profile k d \<or>
          d \<noteq> [] \<and> k = fst (hd d) \<and> int (length d) = limit)"
proof (cases "int (length d) \<ge> limit")
  case True
  then obtain k v rest where d: "d = (k, v) # rest" using assms(1) by (cases d) auto
  hence "AList.delete k d = rest" using assms(3) by (auto simp: dict_ok_def delete_absent)
  hence "set_session_profile limit sid prof d = Some (AList.update sid prof rest)"
    using True d by (simp add: set_session_profile_def)
  moreover have "int (length (AList.update sid prof rest)) \<le> limit"
    using length_update_le [of sid prof rest] assms(2) d by simp
  moreover have "dict_ok (AList.update sid prof rest)"
    using assms(3) d by (intro dict_ok_update) (simp add: dict_ok_def)
  ultimately show ?thesis using True d assms(2) by (auto simp: get_session_profile_def)
next
  case False
  moreover have "int (length (AList.update sid prof d)) \<le> limit"
    using length_update_le [of sid prof d] False by simp
  ultimately show ?thesis using assms(3) by (simp add: set_session_profile_def get_session_profile_def)
qed

theorem session_profiles_bounded_witness:
  "set_session_profile 1 ''s2'' (7::nat) [(''s1'', 3)] = Some [(''s2'', 7)]"
  using session_profiles_bounded [of 1 "[(''s1'', 3::nat)]" "''s2''" 7] by (simp add: set_session_profile_def)

text \<open>The limit also evicts when nothing has to go: renewing the profile of a session in a full cache drops
  the oldest other session.\<close>

theorem renewal_evicts:
  assumes "int (length d) = limit" "d = (k, v) # rest" "sid \<in> fst ` set rest" "dict_ok d"
  shows "\<exists>d'. set_session_profile limit sid prof d = Some d' \<and> get_session_profile k d' = None \<and>
     int (length d') = limit - 1"
proof -
  have "AList.delete k d = rest" "k \<notin> fst ` set rest" using assms(2,4) by (auto simp: dict_ok_def delete_absent)
  moreover have "map_of (AList.update sid prof rest) k = None"
    using calculation(2) assms(3) by (auto simp: map_of_eq_None_iff)
  ultimately show ?thesis using assms
    by (simp add: set_session_profile_def get_session_profile_def length_update_old del: map_of_update)
qed

end
