(* ===== verification/Agent_Memory.thy ===== *)
theory Agent_Memory
  imports Py_Text
begin

text \<open>
  What an agent keeps between steps: the message buffer of \<open>app/schema.py\<close> (\<open>Memory\<close>) with the
  extensions of \<open>app/memory/short_term.py\<close>, the task history with its loop detector, and the token
  budget of \<open>app/llm/token_tracker.py\<close>.  A time stamp is left out; the canonical JSON text of
  arguments (\<open>json.dumps(args, sort_keys=True)\<close>) is kept as the arguments of an observation.
\<close>

section \<open>Messages\<close>

datatype role = SYSTEM | USER | ASSISTANT | TOOL

record tool_call =
  tc_id :: string
  tc_name :: string
  tc_arguments :: string

record message =
  m_role :: role
  m_content :: "string option"
  m_tool_calls :: "tool_call list option"
  m_tool_call_id :: "string option"
  m_name :: "string option"

definition system_msg :: "string \<Rightarrow> message" where
  "system_msg c = \<lparr>m_role = SYSTEM, m_content = Some c, m_tool_calls = None, m_tool_call_id = None, m_name = None\<rparr>"

definition user_msg :: "string \<Rightarrow> message" where
  "user_msg c = \<lparr>m_role = USER, m_content = Some c, m_tool_calls = None, m_tool_call_id = None, m_name = None\<rparr>"

definition assistant_msg :: "string option \<Rightarrow> tool_call list option \<Rightarrow> message" where
  "assistant_msg c tcs = \<lparr>m_role = ASSISTANT, m_content = c, m_tool_calls = tcs, m_tool_call_id = None, m_name = None\<rparr>"

definition tool_msg :: "string \<Rightarrow> string \<Rightarrow> string \<Rightarrow> message" where
  "tool_msg c cid n = \<lparr>m_role = TOOL, m_content = Some c, m_tool_calls = None, m_tool_call_id = Some cid, m_name = Some n\<rparr>"

definition has_calls :: "message \<Rightarrow> bool" where
  "has_calls m \<longleftrightarrow> (case m_tool_calls m of None \<Rightarrow> False | Some tcs \<Rightarrow> tcs \<noteq> [])"

section \<open>Memory\<close>

record memory =
  me_messages :: "message list"
  me_max :: int

definition new_memory :: memory where
  "new_memory = \<lparr>me_messages = [], me_max = 100\<rparr>"

fun drop_tools :: "message list \<Rightarrow> message list" where
  "drop_tools [] = []"
| "drop_tools (m # ms) = (if m_role m = TOOL then drop_tools ms else m # ms)"

fun drop_unanswered :: "message list \<Rightarrow> message list" where
  "drop_unanswered [] = []"
| "drop_unanswered (m # ms) =
     (if m_role m = ASSISTANT \<and> has_calls m \<and> (case ms of [] \<Rightarrow> True | m' # _ \<Rightarrow> m_role m' \<noteq> TOOL)
      then drop_unanswered ms else m # ms)"

definition trim :: "memory \<Rightarrow> memory" where
  "trim mem =
     (if int (length (me_messages mem)) \<le> me_max mem then mem
      else
        let sys = filter (\<lambda>m. m_role m = SYSTEM) (me_messages mem);
            rest = filter (\<lambda>m. m_role m \<noteq> SYSTEM) (me_messages mem);
            keep = max (me_max mem - int (length sys)) 0
        in if keep = 0 then mem\<lparr>me_messages := sys\<rparr>
           else mem\<lparr>me_messages := sys @ drop_unanswered (drop_tools (py_last (nat keep) rest))\<rparr>)"

definition add :: "message \<Rightarrow> memory \<Rightarrow> memory" where
  "add m mem = trim (mem\<lparr>me_messages := me_messages mem @ [m]\<rparr>)"

definition token_estimate :: "memory \<Rightarrow> int" where
  "token_estimate mem =
     (let content = (\<lambda>m. case m_content m of Some c \<Rightarrow> c | None \<Rightarrow> []);
          chars = sum_list (map (\<lambda>m. length (content m)) (me_messages mem));
          words = sum_list (map (\<lambda>m. length (split_words [] (content m))) (me_messages mem))
      in max (int (chars div 4)) \<lfloor>1.3 * real words\<rfloor>)"

subsection \<open>Short-term memory\<close>

definition add_context_refresh :: "string \<Rightarrow> memory \<Rightarrow> memory" where
  "add_context_refresh summary = add (user_msg (''[CONTEXT REFRESH]'' @ [CHR 0x0A] @ summary @ [CHR 0x0A] @ ''[END CONTEXT REFRESH]''))"

definition snapshot :: "memory \<Rightarrow> message list" where
  "snapshot mem = me_messages mem"

definition restore :: "message list \<Rightarrow> memory \<Rightarrow> memory" where
  "restore ms mem = mem\<lparr>me_messages := ms\<rparr>"

definition last_assistant :: "memory \<Rightarrow> string option" where
  "last_assistant mem =
     (case List.find (\<lambda>m. m_role m = ASSISTANT \<and> truthy (m_content m)) (rev (me_messages mem)) of
        Some m \<Rightarrow> m_content m | None \<Rightarrow> None)"

text \<open>A system message without content cannot be extended: \<open>None + str\<close> raises.\<close>

fun update_system :: "string \<Rightarrow> message list \<Rightarrow> (message list option) option" where
  "update_system c [] = Some None"
| "update_system c (m # ms) =
     (if m_role m = SYSTEM
      then (case m_content m of None \<Rightarrow> None | Some old \<Rightarrow> Some (Some (system_msg (old @ [CHR 0x0A, CHR 0x0A] @ c) # ms)))
      else map_option (map_option (\<lambda>ms'. m # ms')) (update_system c ms))"

definition inject_system_update :: "string \<Rightarrow> memory \<Rightarrow> memory option" where
  "inject_system_update c mem =
     (case update_system c (me_messages mem) of
        None \<Rightarrow> None
      | Some (Some ms) \<Rightarrow> Some (mem\<lparr>me_messages := ms\<rparr>)
      | Some None \<Rightarrow> Some (mem\<lparr>me_messages := system_msg c # me_messages mem\<rparr>))"

definition short_token_estimate :: "memory \<Rightarrow> nat" where
  "short_token_estimate mem =
     sum_list (map (\<lambda>m. case m_content m of Some c \<Rightarrow> length c | None \<Rightarrow> 0) (me_messages mem)) div 4"

definition recent_tool_calls :: "nat \<Rightarrow> memory \<Rightarrow> string list" where
  "recent_tool_calls n mem =
     (let names = concat (map (\<lambda>m. case m_tool_calls m of Some tcs \<Rightarrow> map tc_name tcs | None \<Rightarrow> []) (me_messages mem))
      in py_tail n names)"

subsection \<open>Trimming\<close>

abbreviation is_sys :: "message \<Rightarrow> bool" where "is_sys m \<equiv> m_role m = SYSTEM"

lemma suffix_drop_tools: "suffix (drop_tools ms) ms"
  by (induction ms) (auto intro: suffix_ConsI)

lemma suffix_drop_unanswered: "suffix (drop_unanswered ms) ms"
  by (induction ms) (auto intro: suffix_ConsI)

text \<open>The head of the trimmed part: no tool result without its call, no call without its result.\<close>

definition head_ok :: "message list \<Rightarrow> bool" where
  "head_ok ms \<longleftrightarrow>
     (case ms of [] \<Rightarrow> True
      | m # rest \<Rightarrow> m_role m \<noteq> TOOL \<and>
          (m_role m = ASSISTANT \<and> has_calls m \<longrightarrow> (case rest of [] \<Rightarrow> False | m' # _ \<Rightarrow> m_role m' = TOOL)))"

definition no_tool_head :: "message list \<Rightarrow> bool" where
  "no_tool_head ms \<longleftrightarrow> (case ms of [] \<Rightarrow> True | m # _ \<Rightarrow> m_role m \<noteq> TOOL)"

lemma no_tool_head_simps [simp]: "no_tool_head []" "no_tool_head (m # ms) \<longleftrightarrow> m_role m \<noteq> TOOL"
  by (simp_all add: no_tool_head_def)

lemma drop_tools_head: "no_tool_head (drop_tools ms)"
  by (induction ms) simp_all

lemma drop_unanswered_head: "no_tool_head ms \<Longrightarrow> head_ok (drop_unanswered ms)"
proof (induction ms)
  case (Cons m ms)
  show ?case
  proof (cases "m_role m = ASSISTANT \<and> has_calls m \<and> (case ms of [] \<Rightarrow> True | m' # _ \<Rightarrow> m_role m' \<noteq> TOOL)")
    case True
    hence "no_tool_head ms" by (simp add: no_tool_head_def)
    thus ?thesis using True Cons.IH by simp
  next
    case False
    hence eq: "drop_unanswered (m # ms) = m # ms" by (simp only: drop_unanswered.simps if_False)
    show ?thesis unfolding eq using False Cons.prems by (cases ms) (auto simp: head_ok_def)
  qed
qed (simp add: head_ok_def)

lemma trimmed_head: "head_ok (drop_unanswered (drop_tools ms))"
  by (rule drop_unanswered_head [OF drop_tools_head])

lemma filter_sys_suffix: "suffix xs (filter (\<lambda>m. \<not> is_sys m) ms) \<Longrightarrow> filter is_sys xs = [] \<and> filter (\<lambda>m. \<not> is_sys m) xs = xs"
  by (auto simp: filter_empty_conv filter_id_conv dest!: set_mono_suffix)

lemma trimmed_split:
  assumes "out = filter is_sys ms @ kept" "suffix kept (filter (\<lambda>m. \<not> is_sys m) ms)" "head_ok kept"
    and "int (length (filter is_sys ms @ kept)) \<le> mx"
  shows "filter is_sys out = filter is_sys ms \<and>
     suffix (filter (\<lambda>x. \<not> is_sys x) out) (filter (\<lambda>x. \<not> is_sys x) ms) \<and>
     int (length out) \<le> max mx (int (length (filter is_sys ms))) \<and>
     (out = ms \<or> (\<exists>kept. out = filter is_sys ms @ kept \<and> head_ok kept))"
  using assms filter_sys_suffix [OF assms(2)] by auto



definition three_messages :: memory where
  "three_messages = \<lparr>me_messages = [system_msg ''s'', user_msg ''go'',
     assistant_msg None (Some [\<lparr>tc_id = ''c'', tc_name = ''bash'', tc_arguments = ''{}''\<rparr>])], me_max = 3\<rparr>"


section \<open>Task history\<close>

record observation =
  ob_tool :: string
  ob_args :: string
  ob_output :: "string option"
  ob_error :: "string option"
  ob_success :: bool
  ob_attempt :: nat

record task_step =
  ts_number :: nat
  ts_goal :: string
  ts_observations :: "observation list"
  ts_resolved :: bool

record task_history =
  th_goal :: string
  th_steps :: "task_step list"

definition add_step :: "string \<Rightarrow> task_history \<Rightarrow> task_history" where
  "add_step goal h =
     h\<lparr>th_steps := th_steps h @ [\<lparr>ts_number = length (th_steps h) + 1, ts_goal = goal, ts_observations = [],
                                ts_resolved = False\<rparr>]\<rparr>"

definition last_step :: "task_history \<Rightarrow> task_step option" where
  "last_step h = (if th_steps h \<noteq> [] then Some (last (th_steps h)) else None)"

definition observe :: "observation \<Rightarrow> task_history \<Rightarrow> task_history" where
  "observe ob h =
     h\<lparr>th_steps := butlast (th_steps h) @
        [(last (th_steps h))\<lparr>ts_observations := ts_observations (last (th_steps h)) @ [ob]\<rparr>]\<rparr>"

definition is_looping :: "nat \<Rightarrow> task_history \<Rightarrow> bool" where
  "is_looping window h =
     (if length (th_steps h) < window then False
      else
        let recent = py_tail window (th_steps h);
            sigs = concat (map (\<lambda>s. map (\<lambda>ob. (ob_tool ob, ob_args ob)) (ts_observations s)) recent)
        in (\<forall>s \<in> set recent. \<not> ts_resolved s) \<and> card (set sigs) = 1 \<and> sigs \<noteq> [])"

text \<open>A loop is reported when the last \<open>window\<close> steps are unresolved and all their tool calls together, at
  least one, have the same name and arguments: a single call in the whole window is enough, whether it
  failed or not.\<close>

theorem is_looping_iff:
  assumes "0 < window"
  shows "is_looping window h \<longleftrightarrow> window \<le> length (th_steps h) \<and>
     (\<forall>s \<in> set (py_last window (th_steps h)). \<not> ts_resolved s) \<and>
     (\<exists>tool args. (\<exists>s \<in> set (py_last window (th_steps h)). ts_observations s \<noteq> []) \<and>
        (\<forall>s \<in> set (py_last window (th_steps h)). \<forall>ob \<in> set (ts_observations s). ob_tool ob = tool \<and> ob_args ob = args))"
proof -
  let ?recent = "py_last window (th_steps h)"
  let ?sigs = "concat (map (\<lambda>s. map (\<lambda>ob. (ob_tool ob, ob_args ob)) (ts_observations s)) ?recent)"
  have "card (set ?sigs) = 1 \<longleftrightarrow> (\<exists>sig. set ?sigs = {sig})" by (rule card_1_singleton_iff [unfolded One_nat_def [symmetric]])
  also have "\<dots> \<longleftrightarrow> (\<exists>tool args. (\<exists>s \<in> set ?recent. ts_observations s \<noteq> []) \<and>
        (\<forall>s \<in> set ?recent. \<forall>ob \<in> set (ts_observations s). ob_tool ob = tool \<and> ob_args ob = args))"
  proof
    assume "\<exists>sig. set ?sigs = {sig}"
    then obtain tool args where sig: "set ?sigs = {(tool, args)}" by (metis surj_pair)
    hence "\<forall>s \<in> set ?recent. \<forall>ob \<in> set (ts_observations s). ob_tool ob = tool \<and> ob_args ob = args" by auto
    moreover have "\<exists>s \<in> set ?recent. ts_observations s \<noteq> []"
    proof (rule ccontr)
      assume "\<not> ?thesis"
      hence "set ?sigs = {}" by auto
      thus False using sig by simp
    qed
    ultimately show "\<exists>tool args. (\<exists>s \<in> set ?recent. ts_observations s \<noteq> []) \<and>
        (\<forall>s \<in> set ?recent. \<forall>ob \<in> set (ts_observations s). ob_tool ob = tool \<and> ob_args ob = args)" by blast
  next
    assume "\<exists>tool args. (\<exists>s \<in> set ?recent. ts_observations s \<noteq> []) \<and>
        (\<forall>s \<in> set ?recent. \<forall>ob \<in> set (ts_observations s). ob_tool ob = tool \<and> ob_args ob = args)"
    then obtain tool args s where "s \<in> set ?recent" "ts_observations s \<noteq> []"
        "\<forall>s \<in> set ?recent. \<forall>ob \<in> set (ts_observations s). ob_tool ob = tool \<and> ob_args ob = args" by blast
    moreover from this obtain ob where "ob \<in> set (ts_observations s)" by (cases "ts_observations s") auto
    ultimately have "set ?sigs = {(tool, args)}" by force
    thus "\<exists>sig. set ?sigs = {sig}" by blast
  qed
  finally show ?thesis using assms unfolding is_looping_def py_tail_def Let_def by (auto simp: not_less)
qed

section \<open>Token budget\<close>

record token_usage =
  tu_input :: int
  tu_output :: int
  tu_cache_read :: int
  tu_cache_write :: int
  tu_reasoning :: int

definition usage_total :: "token_usage \<Rightarrow> int" where
  "usage_total u = tu_input u + tu_output u"

definition usage_add :: "token_usage \<Rightarrow> token_usage \<Rightarrow> token_usage" where
  "usage_add u v = \<lparr>tu_input = tu_input u + tu_input v, tu_output = tu_output u + tu_output v,
     tu_cache_read = tu_cache_read u + tu_cache_read v, tu_cache_write = tu_cache_write u + tu_cache_write v,
     tu_reasoning = tu_reasoning u + tu_reasoning v\<rparr>"

definition no_usage :: token_usage where
  "no_usage = \<lparr>tu_input = 0, tu_output = 0, tu_cache_read = 0, tu_cache_write = 0, tu_reasoning = 0\<rparr>"

record token_budget =
  tb_max :: int
  tb_usage :: token_usage
  tb_grace_used :: bool
  tb_grace_available :: bool

definition new_budget :: "int \<Rightarrow> token_budget" where
  "new_budget n = \<lparr>tb_max = n, tb_usage = no_usage, tb_grace_used = False, tb_grace_available = (n > 0)\<rparr>"

text \<open>The \<open>usage\<close> entry of a response: the keys it has.\<close>

record usage_dict =
  ud_prompt_tokens :: "int option"
  ud_input_tokens :: "int option"
  ud_completion_tokens :: "int option"
  ud_output_tokens :: "int option"
  ud_cache_read :: "int option"
  ud_cache_creation :: "int option"
  ud_reasoning :: "int option"

fun first_some :: "int option list \<Rightarrow> int" where
  "first_some [] = 0"
| "first_some (Some n # _) = n"
| "first_some (None # xs) = first_some xs"

definition record_usage :: "usage_dict option \<Rightarrow> token_budget \<Rightarrow> token_usage \<times> token_budget" where
  "record_usage ud b =
     (case ud of
        None \<Rightarrow> (no_usage, b)
      | Some d \<Rightarrow>
          let delta = \<lparr>tu_input = first_some [ud_prompt_tokens d, ud_input_tokens d],
                       tu_output = first_some [ud_completion_tokens d, ud_output_tokens d],
                       tu_cache_read = first_some [ud_cache_read d],
                       tu_cache_write = first_some [ud_cache_creation d],
                       tu_reasoning = first_some [ud_reasoning d]\<rparr>
          in (delta, b\<lparr>tb_usage := usage_add (tb_usage b) delta\<rparr>))"

definition is_exhausted :: "token_budget \<Rightarrow> bool" where
  "is_exhausted b = (if tb_max b \<le> 0 then False else usage_total (tb_usage b) \<ge> tb_max b)"

definition use_grace :: "token_budget \<Rightarrow> bool \<times> token_budget" where
  "use_grace b = (if tb_grace_available b \<and> \<not> tb_grace_used b then (True, b\<lparr>tb_grace_used := True\<rparr>) else (False, b))"

definition remaining_tokens :: "token_budget \<Rightarrow> int" where
  "remaining_tokens b = (if tb_max b \<le> 0 then -1 else max 0 (tb_max b - usage_total (tb_usage b)))"

definition budget_ok :: "token_budget \<Rightarrow> bool" where
  "budget_ok b \<longleftrightarrow> tb_grace_available b = (tb_max b > 0)"

lemma budget_ok_steps [simp]:
  "budget_ok (new_budget n)" "budget_ok b \<Longrightarrow> budget_ok (snd (record_usage ud b))"
  "budget_ok b \<Longrightarrow> budget_ok (snd (use_grace b))"
  by (auto simp: budget_ok_def new_budget_def record_usage_def use_grace_def Let_def split: option.splits)

text \<open>An exhausted budget grants its grace call exactly once.\<close>

lemma grace_once:
  "budget_ok b \<Longrightarrow> is_exhausted b \<Longrightarrow> \<not> tb_grace_used b \<Longrightarrow>
     fst (use_grace b) \<and> tb_grace_used (snd (use_grace b)) \<and> \<not> fst (use_grace (snd (use_grace b)))"
  by (auto simp: budget_ok_def is_exhausted_def use_grace_def split: if_splits)

end
