(* ===== verification/Permission_Gate.thy ===== *)
theory Permission_Gate
  imports Prelude
begin

text \<open>
  \<open>app/permissions/gate.py\<close>: the three-tier permission check.  The patterns are named in the order of
  the code's lists; whether one matches a text (\<open>re.search\<close>), the digest of the approval key (the first
  32 hex digits of SHA-256) and the text of the sorted arguments are parameters.  An argument that is no
  string keeps only its truth value: searching or encoding it raises \<open>TypeError\<close> or
  \<open>AttributeError\<close>.
\<close>

datatype tier = ALLOW | ASK | DENY

datatype agent_mode = BUILD | PLAN

datatype deny_pattern =
    Rm_Root | Rm_Root_Star | Rm_No_Preserve_Root | Chmod_Root | Chown_Root | Sudo_Rm_Root | Fork_Bomb | Dd_Zero
  | Redirect_Device | Mkfs | Fdisk_Wipe | Wipefs | Kill_All | Killall | Shred_System
  | Py_Fork_Bomb | Py_Spawn_Bomb | Py_Open_Device

definition allow_tools :: "string list" where
  "allow_tools = [''web_search'', ''crawl'', ''str_replace_editor_view'', ''ask_human'', ''planning'', ''terminate'',
     ''data_viz'']"

definition ask_tools :: "string list" where
  "ask_tools = [''bash'', ''python_execute'', ''str_replace_editor'', ''browser_use'', ''platform_control'', ''delegate'']"

definition deny_command_patterns :: "deny_pattern list" where
  "deny_command_patterns = [Rm_Root, Rm_Root_Star, Rm_No_Preserve_Root, Chmod_Root, Chown_Root, Sudo_Rm_Root,
     Fork_Bomb, Dd_Zero, Redirect_Device, Mkfs, Fdisk_Wipe, Wipefs, Kill_All, Killall, Shred_System]"

definition deny_code_patterns :: "deny_pattern list" where
  "deny_code_patterns = [Py_Fork_Bomb, Py_Spawn_Bomb, Py_Open_Device]"

datatype arg_value = Text string | Other_Value bool

type_synonym tool_args = "(string \<times> arg_value) list"

record gate_env =
  ge_matches :: "deny_pattern \<Rightarrow> string \<Rightarrow> bool"
  ge_digest :: "string \<Rightarrow> string"
  ge_items_text :: "tool_args \<Rightarrow> string"

record gate =
  pg_mode :: agent_mode
  pg_approved :: "string list"

datatype verdict = Tier tier | Denied deny_pattern | Bad_Content

definition new_gate :: "agent_mode \<Rightarrow> gate" where
  "new_gate mode = \<lparr>pg_mode = mode, pg_approved = []\<rparr>"

definition extract_content :: "string \<Rightarrow> tool_args \<Rightarrow> arg_value option" where
  "extract_content tool args =
     (let get = (\<lambda>k. case map_of args k of Some v \<Rightarrow> v | None \<Rightarrow> Text [])
      in if tool = ''bash'' then Some (get ''command'')
         else if tool = ''python_execute'' then Some (get ''code'')
         else None)"

definition truthy_value :: "arg_value option \<Rightarrow> bool" where
  "truthy_value v = (case v of None \<Rightarrow> False | Some (Text s) \<Rightarrow> s \<noteq> [] | Some (Other_Value b) \<Rightarrow> b)"

definition check_catastrophic :: "gate_env \<Rightarrow> string \<Rightarrow> string \<Rightarrow> deny_pattern option" where
  "check_catastrophic env tool content =
     List.find (\<lambda>p. ge_matches env p content)
       (if tool = ''bash'' then deny_command_patterns
        else if tool = ''python_execute'' then deny_code_patterns
        else deny_command_patterns @ deny_code_patterns)"

definition approval_key :: "gate_env \<Rightarrow> string \<Rightarrow> tool_args \<Rightarrow> string option" where
  "approval_key env tool args =
     (let v = extract_content tool args
      in case (if truthy_value v then the v else Text (ge_items_text env args)) of
           Text content \<Rightarrow> Some (tool @ '':'' @ ge_digest env content)
         | Other_Value _ \<Rightarrow> None)"

definition resolve_tier :: "gate_env \<Rightarrow> gate \<Rightarrow> string \<Rightarrow> tool_args \<Rightarrow> verdict" where
  "resolve_tier env g tool args =
     (if tool \<in> set allow_tools then Tier ALLOW
      else if tool \<in> set ask_tools
      then (if pg_mode g = BUILD then Tier ALLOW
            else case approval_key env tool args of
              None \<Rightarrow> Bad_Content
            | Some key \<Rightarrow> if key \<in> set (pg_approved g) then Tier ALLOW else Tier ASK)
      else Tier ASK)"

definition check_tool :: "gate_env \<Rightarrow> gate \<Rightarrow> string \<Rightarrow> tool_args \<Rightarrow> verdict" where
  "check_tool env g tool args =
     (let v = extract_content tool args
      in if truthy_value v
         then (case the v of
                 Other_Value _ \<Rightarrow> Bad_Content
               | Text content \<Rightarrow>
                   (case check_catastrophic env tool content of
                      Some p \<Rightarrow> Denied p
                    | None \<Rightarrow> resolve_tier env g tool args))
         else resolve_tier env g tool args)"

definition approve :: "gate_env \<Rightarrow> string \<Rightarrow> tool_args \<Rightarrow> gate \<Rightarrow> gate option" where
  "approve env tool args g =
     map_option (\<lambda>key. g\<lparr>pg_approved := List.insert key (pg_approved g)\<rparr>) (approval_key env tool args)"

definition is_plan_mode :: "gate \<Rightarrow> bool" where
  "is_plan_mode g \<longleftrightarrow> pg_mode g = PLAN"

text \<open>The typed answer, stripped and in lower case; \<open>None\<close> when there is no terminal (\<open>EOFError\<close>).\<close>

definition request_approval ::
  "gate_env \<Rightarrow> string option \<Rightarrow> string \<Rightarrow> tool_args \<Rightarrow> gate \<Rightarrow> (bool \<times> gate) option" where
  "request_approval env answer tool args g =
     (case answer of
        None \<Rightarrow> Some (False, g)
      | Some a \<Rightarrow>
          if a = ''y'' \<or> a = ''yes'' then map_option (Pair True) (approve env tool args g) else Some (False, g))"

section \<open>What the tiers mean\<close>

text \<open>A call whose command or code matches a catastrophic pattern.\<close>

definition catastrophic :: "gate_env \<Rightarrow> string \<Rightarrow> tool_args \<Rightarrow> bool" where
  "catastrophic env tool args \<longleftrightarrow>
     (\<exists>content. extract_content tool args = Some (Text content) \<and> content \<noteq> [] \<and>
        check_catastrophic env tool content \<noteq> None)"

text \<open>A call that runs without asking: by its name, by the mode, or because the same call was approved.\<close>

definition cleared :: "gate_env \<Rightarrow> gate \<Rightarrow> string \<Rightarrow> tool_args \<Rightarrow> bool" where
  "cleared env g tool args \<longleftrightarrow> tool \<in> set allow_tools \<or> tool \<in> set ask_tools \<and>
     (pg_mode g = BUILD \<or> (\<exists>key. approval_key env tool args = Some key \<and> key \<in> set (pg_approved g)))"

definition text_args :: "string \<Rightarrow> tool_args \<Rightarrow> bool" where
  "text_args tool args \<longleftrightarrow> extract_content tool args \<noteq> Some (Other_Value True)"

lemma key_of_text_args: "text_args tool args \<Longrightarrow> \<exists>key. approval_key env tool args = Some key"
  by (auto simp: text_args_def approval_key_def truthy_value_def Let_def split: option.splits arg_value.splits)

lemma check_tool_tiers:
  assumes "text_args tool args"
  shows "((\<exists>p. check_tool env g tool args = Denied p) \<longleftrightarrow> catastrophic env tool args) \<and>
     (check_tool env g tool args = Tier ALLOW \<longleftrightarrow> \<not> catastrophic env tool args \<and> cleared env g tool args) \<and>
     (check_tool env g tool args = Tier ASK \<longleftrightarrow> \<not> catastrophic env tool args \<and> \<not> cleared env g tool args)"
proof -
  obtain key where key: "approval_key env tool args = Some key" using key_of_text_args [OF assms] by blast
  have tier: "resolve_tier env g tool args = (if cleared env g tool args then Tier ALLOW else Tier ASK)"
    using key by (auto simp: resolve_tier_def cleared_def)
  have "check_tool env g tool args =
      (if catastrophic env tool args
       then Denied (the (check_catastrophic env tool (case the (extract_content tool args) of Text c \<Rightarrow> c)))
       else resolve_tier env g tool args)"
    using assms
    by (auto simp: check_tool_def catastrophic_def text_args_def truthy_value_def Let_def
        split: option.splits arg_value.splits)
  thus ?thesis unfolding tier by auto
qed


definition no_patterns :: gate_env where
  "no_patterns = \<lparr>ge_matches = (\<lambda>p c. p = Rm_Root \<and> c = ''rm -rf /''), ge_digest = (\<lambda>s. s), ge_items_text = (\<lambda>_. ''items'')\<rparr>"

text \<open>For calls whose command or code is a string: a call is denied exactly if its content matches a
  catastrophic pattern, whatever the mode and the approvals; otherwise it runs without asking exactly if
  its tool is harmless by name, or needs permission and the mode is \<open>BUILD\<close> or the same call was
  approved; everything else, every unknown tool included, is to be asked for, also in \<open>BUILD\<close> mode.\<close>

theorem check_tool_correct:
  assumes "text_args tool args"
  shows "((\<exists>p. check_tool env g tool args = Denied p) \<longleftrightarrow> catastrophic env tool args) \<and>
     (check_tool env g tool args = Tier ALLOW \<longleftrightarrow> \<not> catastrophic env tool args \<and> cleared env g tool args) \<and>
     (check_tool env g tool args = Tier ASK \<longleftrightarrow> \<not> catastrophic env tool args \<and> \<not> cleared env g tool args)"
  by (rule check_tool_tiers [OF assms])

theorem check_tool_correct_witness:
  "check_tool no_patterns (new_gate PLAN) ''bash'' [(''command'', Text ''ls'')] = Tier ASK \<and>
   (\<exists>p. check_tool no_patterns (new_gate BUILD) ''bash'' [(''command'', Text ''rm -rf /'')] = Denied p)"
proof
  have "text_args ''bash'' [(''command'', Text c)]" for c by (simp add: text_args_def extract_content_def)
  note correct = check_tool_correct [OF this, of no_patterns]
  have "\<not> catastrophic no_patterns ''bash'' [(''command'', Text ''ls'')]"
    by (simp add: catastrophic_def extract_content_def check_catastrophic_def no_patterns_def find_None_iff)
  moreover have "\<not> cleared no_patterns (new_gate PLAN) ''bash'' [(''command'', Text ''ls'')]"
    by (simp add: cleared_def allow_tools_def new_gate_def)
  ultimately show "check_tool no_patterns (new_gate PLAN) ''bash'' [(''command'', Text ''ls'')] = Tier ASK"
    using correct [of "new_gate PLAN" "''ls''"] by blast
  have "catastrophic no_patterns ''bash'' [(''command'', Text ''rm -rf /'')]"
    by (simp add: catastrophic_def extract_content_def check_catastrophic_def no_patterns_def deny_command_patterns_def)
  thus "\<exists>p. check_tool no_patterns (new_gate BUILD) ''bash'' [(''command'', Text ''rm -rf /'')] = Denied p"
    using correct [of "new_gate BUILD" "''rm -rf /''"] by blast
qed

text \<open>Approvals are only added.\<close>

lemma request_approval_mono:
  "request_approval env answer tool args g = Some (b, g') \<Longrightarrow>
     set (pg_approved g) \<subseteq> set (pg_approved g') \<and> pg_mode g' = pg_mode g \<and>
     (b \<longrightarrow> (\<exists>key. approval_key env tool args = Some key \<and> key \<in> set (pg_approved g')))"
  by (auto simp: request_approval_def approve_def split: option.splits if_splits)

text \<open>An approval clears the same call of a tool that needs permission for the rest of the session, but not
  that of an unknown tool: it is asked for again and again.\<close>

theorem approval_effect:
  assumes "request_approval env answer tool args g = Some (True, g')" "\<not> catastrophic env tool args"
    "text_args tool args" "pg_mode g = PLAN"
  shows "check_tool env g' tool args =
     (if tool \<in> set allow_tools \<or> tool \<in> set ask_tools then Tier ALLOW else Tier ASK)"
  using check_tool_tiers [OF assms(3), of env g'] request_approval_mono [OF assms(1)] assms(2,4)
  by (auto simp: cleared_def)


lemma catastrophic_denied: "catastrophic env tool args \<Longrightarrow> \<exists>p. check_tool env g tool args = Denied p"
  by (auto simp: catastrophic_def check_tool_def truthy_value_def Let_def)

end
