(* ===== verification/Tool_Selector.thy ===== *)
theory Tool_Selector
  imports Prelude
begin

text \<open>
  \<open>app/tool/selector.py\<close>: the confidence scores that recommend a tool for a goal.  What the \<open>i\<close>-th
  pattern of a tool finds in the goal is a parameter; the weights are the code's.  Instead of a text, the
  reasoning keeps its strength and the signals their values.  Floats are exact reals, so the rounding to
  three decimals is that of multiples of 0.005.
\<close>

section \<open>Signals\<close>

definition signal_weights :: "(string \<times> real list) list" where
  "signal_weights =
    [(''python_execute'', [0.45, 0.15, -0.25]),
     (''bash'', [0.50, 0.20, -0.20]),
     (''str_replace_editor'', [0.40, 0.15, -0.20]),
     (''browser_use'', [0.55, 0.10, -0.15]),
     (''web_search'', [0.50, 0.20, -0.20]),
     (''crawl'', [0.50, 0.20, -0.20]),
     (''data_viz'', [0.60, 0.20, -0.15]),
     (''ask_human'', [0.55, 0.30]),
     (''planning'', [0.55, 0.20]),
     (''terminate'', [0.70, 0.30]),
     (''image_gen'', [0.55, 0.25]),
     (''delegate'', [0.55, 0.20]),
     (''memory'', [0.55, 0.25]),
     (''skill_manager'', [0.55]),
     (''cross_session_search'', [0.55]),
     (''node_execute'', [0.50, 0.20]),
     (''platform_control'', [0.55, 0.20])]"

datatype signal = Matched string real | Failure_Penalty real | Recency_Penalty | LLM_Scored

datatype strength = Strongly_Recommended | Good_Fit | Possible_Option | Low_Relevance | LLM_Reason string | Fallback

record tool_score =
  sc_tool :: string
  sc_confidence :: real
  sc_reasoning :: strength
  sc_signals :: "signal list"

record selection =
  sel_goal :: string
  sel_scores :: "tool_score list"
  sel_recommended :: string
  sel_rationale :: strength

record selector =
  se_tools :: "string list"
  se_failures :: "(string \<times> nat) list"
  se_recent :: "string list"

definition new_selector :: "string list \<Rightarrow> selector" where
  "new_selector names = \<lparr>se_tools = names, se_failures = [], se_recent = []\<rparr>"

text \<open>\<open>hit tool i goal\<close> is what the \<open>i\<close>-th pattern of the tool finds in the lower-case goal.\<close>

type_synonym pattern_hit = "string \<Rightarrow> nat \<Rightarrow> string \<Rightarrow> string option"

definition heuristic_score :: "pattern_hit \<Rightarrow> string \<Rightarrow> string \<Rightarrow> real \<times> signal list" where
  "heuristic_score hit tool goal =
     fold (\<lambda>(i, weight) (base, signals).
             case hit tool i goal of
               None \<Rightarrow> (base, signals)
             | Some found \<Rightarrow> (base + weight, signals @ [Matched (take 20 found) weight]))
       (enumerate 0 (case map_of signal_weights tool of Some ws \<Rightarrow> ws | None \<Rightarrow> []))
       (0.10, [])"

definition build_reasoning :: "real \<Rightarrow> strength" where
  "build_reasoning conf =
     (if conf \<ge> 0.7 then Strongly_Recommended else if conf \<ge> 0.45 then Good_Fit
      else if conf \<ge> 0.25 then Possible_Option else Low_Relevance)"

definition round3 :: "real \<Rightarrow> real" where
  "round3 x = real_of_int (py_round (x * 1000)) / 1000"

definition failure_count :: "selector \<Rightarrow> string \<Rightarrow> nat" where
  "failure_count s tool = (case map_of (se_failures s) tool of Some n \<Rightarrow> n | None \<Rightarrow> 0)"

definition score_tool :: "pattern_hit \<Rightarrow> selector \<Rightarrow> string \<Rightarrow> string list \<Rightarrow> string \<Rightarrow> tool_score" where
  "score_tool hit s goal failed tool =
     (let (conf, signals) = heuristic_score hit tool goal;
          penalty = 0.30 * (1 + real (failure_count s tool) * 0.15);
          (conf, signals) =
            (if tool \<in> set failed then (max 0 (conf - penalty), signals @ [Failure_Penalty penalty]) else (conf, signals));
          (conf, signals) =
            (if se_recent s \<noteq> [] \<and> last (se_recent s) = tool
             then (max 0 (conf - 0.10), signals @ [Recency_Penalty]) else (conf, signals));
          conf = round3 (min 1 (max 0 conf))
      in \<lparr>sc_tool = tool, sc_confidence = conf, sc_reasoning = build_reasoning conf, sc_signals = signals\<rparr>)"

text \<open>\<open>scores.sort(key=confidence, reverse=True)\<close> keeps the order of equal scores.  Without tools,
  \<open>scores[0]\<close> raises \<open>IndexError\<close>: \<open>None\<close>.\<close>

definition sort_scores :: "tool_score list \<Rightarrow> tool_score list" where
  "sort_scores scores = sort_key (\<lambda>t. - sc_confidence t) scores"

definition score :: "pattern_hit \<Rightarrow> string \<Rightarrow> string list \<Rightarrow> selector \<Rightarrow> selection option" where
  "score hit goal failed s =
     (case sort_scores (map (score_tool hit s (map lower_char goal) failed) (se_tools s)) of
        [] \<Rightarrow> None
      | first # rest \<Rightarrow> Some \<lparr>sel_goal = goal, sel_scores = first # rest, sel_recommended = sc_tool first,
                          sel_rationale = sc_reasoning first\<rparr>)"

definition record_use :: "string \<Rightarrow> selector \<Rightarrow> selector" where
  "record_use tool s =
     (let uses = se_recent s @ [tool] in s\<lparr>se_recent := (if length uses > 5 then tl uses else uses)\<rparr>)"

definition record_failure :: "string \<Rightarrow> selector \<Rightarrow> selector" where
  "record_failure tool s = s\<lparr>se_failures := AList.update tool (failure_count s tool + 1) (se_failures s)\<rparr>"

definition record_success :: "string \<Rightarrow> selector \<Rightarrow> selector" where
  "record_success tool s = s\<lparr>se_failures := AList.delete tool (se_failures s)\<rparr>"

definition get_stats :: "selector \<Rightarrow> (string \<times> nat \<times> nat) list" where
  "get_stats s = map (\<lambda>t. (t, failure_count s t, length (filter (\<lambda>u. u = t) (se_recent s)))) (se_tools s)"

definition set_stats :: "(string \<times> nat) list \<Rightarrow> selector \<Rightarrow> selector" where
  "set_stats stats s =
     fold (\<lambda>(t, fc) s. if t \<in> set (se_tools s) \<and> fc > 0
                       then s\<lparr>se_failures := AList.update t fc (se_failures s)\<rparr> else s) stats s"

text \<open>\<open>llm_score_tools\<close>: the entries of the model's answer, or \<open>None\<close> when the call or its parsing fails.
  The fallback entry without tools raises \<open>IndexError\<close>, which is caught, as everything is.\<close>

definition llm_score_tools ::
  "pattern_hit \<Rightarrow> string \<Rightarrow> string list \<Rightarrow> (string \<times> real \<times> string option) list option \<Rightarrow> selection option" where
  "llm_score_tools hit goal tools answer =
     (case answer of
        None \<Rightarrow> score hit goal [] (new_selector tools)
      | Some entries \<Rightarrow>
          let scores = sort_scores (map (\<lambda>(t, sc, reason).
                         \<lparr>sc_tool = t, sc_confidence = round3 (sc / 100),
                          sc_reasoning = LLM_Reason (case reason of Some r \<Rightarrow> r | None \<Rightarrow> []),
                          sc_signals = [LLM_Scored]\<rparr>) entries)
          in (case scores of
                first # _ \<Rightarrow> Some \<lparr>sel_goal = goal, sel_scores = scores, sel_recommended = sc_tool first,
                              sel_rationale = sc_reasoning first\<rparr>
              | [] \<Rightarrow>
                  (case tools of
                     t # _ \<Rightarrow> Some \<lparr>sel_goal = goal, sel_scores = [], sel_recommended = t, sel_rationale = Fallback\<rparr>
                   | [] \<Rightarrow> score hit goal [] (new_selector tools))))"

section \<open>Correctness\<close>

lemma round3_range: "0 \<le> x \<Longrightarrow> x \<le> 1 \<Longrightarrow> 0 \<le> round3 x \<and> round3 x \<le> 1"
  using py_round_range [of "x * 1000" 1000] by (simp add: round3_def)

lemma score_tool_range: "0 \<le> sc_confidence (score_tool hit s goal failed tool) \<and> sc_confidence (score_tool hit s goal failed tool) \<le> 1"
  unfolding score_tool_def Let_def split_beta tool_score.simps by (rule round3_range) (simp_all only: min.cobounded1 min.bounded_iff max.cobounded1 zero_le_one simp_thms)

lemma score_tool_name [simp]: "sc_tool (score_tool hit s goal failed tool) = tool"
  unfolding score_tool_def Let_def split_beta tool_score.simps ..

lemma mset_sort_scores: "mset (sort_scores xs) = mset xs"
  by (simp add: sort_scores_def)

lemma sort_scores_sorted: "sorted_wrt (\<lambda>a b. sc_confidence a \<ge> sc_confidence b) (sort_scores xs)"
proof -
  have "sorted (map (\<lambda>t. - sc_confidence t) (sort_scores xs))" by (simp add: sort_scores_def)
  thus ?thesis by (simp add: sorted_map)
qed

text \<open>\<open>score\<close> fails only without tools; otherwise it scores every tool once, with confidences between 0
  and 1 in descending order, and recommends a tool of the highest confidence.\<close>

theorem score_correct:
  "case score hit goal failed s of
     None \<Rightarrow> se_tools s = []
   | Some r \<Rightarrow>
       mset (map sc_tool (sel_scores r)) = mset (se_tools s) \<and>
       set (map sc_confidence (sel_scores r)) \<subseteq> {0..1} \<and>
       sorted_wrt (\<lambda>a b. sc_confidence a \<ge> sc_confidence b) (sel_scores r) \<and>
       (\<exists>best. best \<in> set (sel_scores r) \<and> sc_tool best = sel_recommended r \<and>
          Max (set (map sc_confidence (sel_scores r))) = sc_confidence best)"
proof -
  let ?raw = "map (score_tool hit s (map lower_char goal) failed) (se_tools s)"
  show ?thesis
  proof (cases "sort_scores ?raw")
    case Nil
    hence "mset ?raw = {#}" using mset_sort_scores [of ?raw] by simp
    thus ?thesis using Nil by (simp add: score_def)
  next
    case (Cons first rest)
    let ?r = "\<lparr>sel_goal = goal, sel_scores = first # rest, sel_recommended = sc_tool first, sel_rationale = sc_reasoning first\<rparr>"
    have eq: "score hit goal failed s = Some ?r" by (simp add: score_def Cons)
    have ms: "mset (first # rest) = mset ?raw" using mset_sort_scores [of ?raw] Cons by simp
    have "mset (map sc_tool (first # rest)) = image_mset sc_tool (mset ?raw)" unfolding mset_map ms ..
    also have "\<dots> = mset (se_tools s)" by (simp add: multiset.map_comp comp_def)
    finally have tools: "mset (map sc_tool (first # rest)) = mset (se_tools s)" .
    have "\<forall>t \<in> set ?raw. 0 \<le> sc_confidence t \<and> sc_confidence t \<le> 1" using score_tool_range by simp
    moreover have "set (first # rest) = set ?raw" using ms by (metis set_mset_mset)
    ultimately have "\<forall>t \<in> set (first # rest). 0 \<le> sc_confidence t \<and> sc_confidence t \<le> 1" by simp
    hence range: "set (map sc_confidence (first # rest)) \<subseteq> {0..1}" by auto
    have sorted: "sorted_wrt (\<lambda>a b. sc_confidence a \<ge> sc_confidence b) (first # rest)"
      using sort_scores_sorted [of ?raw] Cons by simp
    have "Max (set (map sc_confidence (first # rest))) = sc_confidence first"
      using sorted by (intro Max_eqI) auto
    thus ?thesis using eq tools range sorted by auto
  qed
qed

text \<open>A recommendation of the language model is neither bounded nor one of the tools.\<close>

theorem llm_score_unchecked:
  "map_option (\<lambda>r. (sel_recommended r, map sc_confidence (sel_scores r)))
     (llm_score_tools hit goal [''bash''] (Some [(''rm'', 250, None), (''bash'', 80, None)])) =
   Some (''rm'', [5 / 2, 4 / 5])"
  by (simp add: llm_score_tools_def sort_scores_def round3_def py_round_def)

lemma record_use_window: "length (se_recent s) \<le> 5 \<Longrightarrow> length (se_recent (record_use tool s)) \<le> 5"
  by (simp add: record_use_def Let_def)

end
