(* ===== verification/Agent_Loop.thy ===== *)
theory Agent_Loop
  imports Agent_Memory Permission_Gate Tool_Selector
begin

text \<open>
  The agent loop: \<open>app/agent/base.py\<close> (\<open>BaseAgent.run\<close> and its helpers) and
  \<open>app/agent/toolcall.py\<close> (\<open>ToolCallAgent\<close>: think, act, the retry loop around a tool call).  The language
  model, the tools, the user at the terminal, JSON parsing, the wording of generated prompts and the
  regular expressions are the environment; the \<open>n\<close>-th call of each has its own outcome.  An exception is
  its text.  The list of executed calls is added to the agent's state; back-off sleeps, logging, the
  session database and cleaning up are left out.
\<close>

section \<open>State and environment\<close>

datatype agent_state = IDLE | RUNNING | FINISHED | ERROR

record tool_result =
  tr_output :: "string option"
  tr_error :: "string option"
  tr_system :: "string option"

text \<open>\<open>ToolResult.__str__\<close> and \<open>ToolResult(error=...)\<close>.\<close>

definition result_text :: "tool_result \<Rightarrow> string" where
  "result_text r =
     (let parts = (if truthy (tr_output r) then [the (tr_output r)] else []) @
                  (if truthy (tr_error r) then [''ERROR: '' @ the (tr_error r)] else []) @
                  (if truthy (tr_system r) then [''[system: '' @ the (tr_system r) @ '']''] else [])
      in if parts \<noteq> [] then join newline parts else ''(no output)'')"

definition error_result :: "string \<Rightarrow> tool_result" where
  "error_result e = \<lparr>tr_output = None, tr_error = Some e, tr_system = None\<rparr>"

definition success :: "tool_result \<Rightarrow> bool" where
  "success r \<longleftrightarrow> tr_error r = None"

text \<open>The wording of the prompts the agent adds to its memory.\<close>

record texts =
  tx_blocked :: "deny_pattern \<Rightarrow> string"
  tx_rejected :: "string \<Rightarrow> string"
  tx_hint :: "selection \<Rightarrow> string"
  tx_retry :: "string \<Rightarrow> nat \<Rightarrow> string \<Rightarrow> selection \<Rightarrow> string"
  tx_crash :: "string \<Rightarrow> nat \<Rightarrow> string \<Rightarrow> string"
  tx_not_found :: "string \<Rightarrow> string list \<Rightarrow> string"
  tx_context :: "task_history \<Rightarrow> string"
  tx_grace :: string
  tx_repeating :: string
  tx_looping :: string

record env =
  ev_gate :: gate_env
  ev_hit :: pattern_hit
  ev_texts :: texts
  ev_answer :: "nat \<Rightarrow> string option"
  ev_tools :: "string list"
  ev_tool :: "nat \<Rightarrow> string \<Rightarrow> tool_args \<Rightarrow> string + tool_result"
  ev_llm :: "nat \<Rightarrow> message list \<Rightarrow> string + message"
  ev_usage :: "nat \<Rightarrow> usage_dict option"
  ev_parse :: "string \<Rightarrow> tool_args option"
  ev_args_text :: "tool_args \<Rightarrow> string"
  ev_skip_goal :: "string \<Rightarrow> bool"
  ev_done :: "string \<Rightarrow> bool"
  ev_max_retries :: nat
  ev_skill_threshold :: nat
  ev_suggest :: "nat \<Rightarrow> task_history option \<Rightarrow> string option"

record agent =
  ag_state :: agent_state
  ag_memory :: memory
  ag_gate :: gate
  ag_selector :: selector
  ag_history :: "task_history option"
  ag_budget :: token_budget
  ag_steps :: nat
  ag_tool_calls :: nat
  ag_skills_injected :: bool
  ag_asked :: nat
  ag_ran :: nat
  ag_llm_calls :: nat
  ag_executed :: "(string \<times> tool_args) list"

definition remember :: "message \<Rightarrow> agent \<Rightarrow> agent" where
  "remember m a = a\<lparr>ag_memory := add m (ag_memory a)\<rparr>"

section \<open>Permission\<close>

definition check_permission :: "env \<Rightarrow> string \<Rightarrow> tool_args \<Rightarrow> agent \<Rightarrow> (string + bool) \<times> agent" where
  "check_permission env tool args a =
     (case check_tool (ev_gate env) (ag_gate a) tool args of
        Bad_Content \<Rightarrow> (Inl ''expected string or bytes-like object'', a)
      | Denied p \<Rightarrow> (Inr False, remember (user_msg (tx_blocked (ev_texts env) p)) a)
      | Tier t \<Rightarrow>
          if t = ASK \<and> is_plan_mode (ag_gate a)
          then (let a1 = a\<lparr>ag_asked := ag_asked a + 1\<rparr>
                in case request_approval (ev_gate env) (ev_answer env (ag_asked a)) tool args (ag_gate a) of
                     None \<Rightarrow> (Inl ''no attribute encode'', a1)
                   | Some (approved, g) \<Rightarrow>
                       if approved then (Inr True, a1\<lparr>ag_gate := g\<rparr>)
                       else (Inr False, remember (user_msg (tx_rejected (ev_texts env) tool)) (a1\<lparr>ag_gate := g\<rparr>)))
          else (Inr True, a))"

section \<open>One tool call\<close>

definition run_tool :: "env \<Rightarrow> string \<Rightarrow> tool_args \<Rightarrow> agent \<Rightarrow> (string + tool_result) \<times> agent" where
  "run_tool env tool args a =
     (if tool \<notin> set (ev_tools env)
      then (Inr (error_result (tx_not_found (ev_texts env) tool (ev_tools env))), a)
      else (ev_tool env (ag_ran a) tool args,
            a\<lparr>ag_ran := ag_ran a + 1, ag_executed := ag_executed a @ [(tool, args)]\<rparr>))"

definition ask_llm :: "env \<Rightarrow> agent \<Rightarrow> (string + message) \<times> agent" where
  "ask_llm env a =
     (let n = ag_llm_calls a;
          a1 = a\<lparr>ag_llm_calls := n + 1\<rparr>
      in case ev_llm env n (me_messages (ag_memory a)) of
           Inl ex \<Rightarrow> (Inl ex, a1)
         | Inr m \<Rightarrow> (Inr m, remember m (a1\<lparr>ag_budget := snd (record_usage (ev_usage env n) (ag_budget a1))\<rparr>)))"

definition record_observation ::
  "env \<Rightarrow> string \<Rightarrow> tool_args \<Rightarrow> string option \<Rightarrow> string option \<Rightarrow> nat \<Rightarrow> agent \<Rightarrow> agent" where
  "record_observation env tool args out err attempt a =
     (let a1 = a\<lparr>ag_tool_calls := ag_tool_calls a + 1\<rparr>
      in case ag_history a1 of
           None \<Rightarrow> a1
         | Some h \<Rightarrow>
             let h1 = (if last_step h = None then add_step (''step '' @ show_nat (ag_steps a1)) h else h);
                 ob = \<lparr>ob_tool = tool, ob_args = ev_args_text env args, ob_output = out, ob_error = err,
                       ob_success = (err = None), ob_attempt = attempt\<rparr>
             in a1\<lparr>ag_history := Some (observe ob h1)\<rparr>)"

definition current_goal :: "env \<Rightarrow> agent \<Rightarrow> string" where
  "current_goal env a =
     (case List.find (\<lambda>m. m_role m \<in> {USER, ASSISTANT} \<and> truthy (m_content m) \<and>
                        \<not> ev_skip_goal env (strip (the (m_content m)))) (rev (me_messages (ag_memory a))) of
        Some m \<Rightarrow> take 300 (strip (the (m_content m)))
      | None \<Rightarrow> ''general task'')"

datatype attempt_outcome = Return tool_result | Corrected string tool_args string | Raised string

definition correct_call :: "env \<Rightarrow> nat \<Rightarrow> string \<Rightarrow> tool_result \<Rightarrow> agent \<Rightarrow> attempt_outcome \<times> agent" where
  "correct_call env n tool r a =
     (let a1 = a\<lparr>ag_selector := record_failure tool (ag_selector a)\<rparr>
      in case score (ev_hit env) (current_goal env a1) [tool] (ag_selector a1) of
           None \<Rightarrow> (Raised ''list index out of range'', a1)
         | Some sel \<Rightarrow>
             let a2 = remember (user_msg (tx_retry (ev_texts env) tool n (the (tr_error r)) sel)) a1
             in case ask_llm env a2 of
                  (Inl ex, a3) \<Rightarrow> (Raised ex, a3)
                | (Inr m, a3) \<Rightarrow>
                    (case m_tool_calls m of
                       Some (tc # _) \<Rightarrow>
                         (let text = (if tc_arguments tc \<noteq> [] then tc_arguments tc else ''{}'')
                          in (Corrected (tc_name tc) (case ev_parse env text of Some x \<Rightarrow> x | None \<Rightarrow> []) (tc_id tc), a3))
                     | _ \<Rightarrow> (Return r, a3)))"

definition attempt_once ::
  "env \<Rightarrow> nat \<Rightarrow> string \<Rightarrow> tool_args \<Rightarrow> string \<Rightarrow> agent \<Rightarrow> attempt_outcome \<times> agent" where
  "attempt_once env n tool args cid a =
     (case check_permission env tool args a of
        (Inl ex, a1) \<Rightarrow> (Raised ex, a1)
      | (Inr False, a1) \<Rightarrow>
          let r = error_result (''Permission denied for tool '' @ [CHR 0x27] @ tool @ [CHR 0x27] @ ''.'')
          in (Return r, remember (tool_msg (result_text r) cid tool) a1)
      | (Inr True, a1) \<Rightarrow>
          (case run_tool env tool args a1 of
             (Inl ex, a2) \<Rightarrow> (Raised ex, a2)
           | (Inr r, a2) \<Rightarrow>
               let a3 = record_observation env tool args (tr_output r) (tr_error r) n a2;
                   a4 = remember (tool_msg (result_text r) cid tool) a3
               in if truthy (tr_error r) \<and> n < ev_max_retries env
                  then correct_call env n tool r a4 else (Return r, a4)))"

fun retry_tool ::
  "env \<Rightarrow> nat list \<Rightarrow> string \<Rightarrow> tool_args \<Rightarrow> string \<Rightarrow> tool_result \<Rightarrow> agent \<Rightarrow> tool_result \<times> agent" where
  "retry_tool env [] tool args cid prev a = (prev, remember (tool_msg (result_text prev) cid tool) a)"
| "retry_tool env (n # ns) tool args cid prev a =
     (case attempt_once env n tool args cid a of
        (Return r, a1) \<Rightarrow> (r, a1)
      | (Corrected tool' args' cid', a1) \<Rightarrow> retry_tool env ns tool' args' cid' prev a1
      | (Raised ex, a1) \<Rightarrow>
          let a2 = a1\<lparr>ag_selector := record_failure tool (ag_selector a1)\<rparr>;
              a3 = record_observation env tool args None (Some ex) n a2;
              a4 = (if n < ev_max_retries env
                    then remember (user_msg (tx_crash (ev_texts env) tool n ex))
                           (remember (tool_msg (''ERROR: '' @ ex) cid tool) a3)
                    else a3)
          in retry_tool env ns tool args cid (error_result ex) a4)"

definition execute_with_retry :: "env \<Rightarrow> string \<Rightarrow> tool_args \<Rightarrow> string \<Rightarrow> agent \<Rightarrow> tool_result \<times> agent" where
  "execute_with_retry env tool args cid a =
     retry_tool env [1..<ev_max_retries env + 1] tool args cid (error_result ''Unknown error'') a"

section \<open>One step\<close>

definition recently_failed :: "agent \<Rightarrow> string list" where
  "recently_failed a =
     (case ag_history a of
        None \<Rightarrow> []
      | Some h \<Rightarrow> concat (map (\<lambda>s. map ob_tool (filter (\<lambda>ob. \<not> ob_success ob) (ts_observations s))) (py_last 3 (th_steps h))))"

definition think :: "env \<Rightarrow> agent \<Rightarrow> (string + string) \<times> agent" where
  "think env a =
     (case score (ev_hit env) (current_goal env a) (recently_failed a) (ag_selector a) of
        None \<Rightarrow> (Inl ''list index out of range'', a)
      | Some sel \<Rightarrow>
          (case ask_llm env (remember (user_msg (tx_hint (ev_texts env) sel)) a) of
             (Inl ex, a1) \<Rightarrow> (Inl ex, a1)
           | (Inr m, a1) \<Rightarrow> (Inr (case m_content m of Some c \<Rightarrow> c | None \<Rightarrow> []), a1)))"

fun act_calls :: "env \<Rightarrow> tool_call list \<Rightarrow> string list \<Rightarrow> agent \<Rightarrow> string list \<times> agent" where
  "act_calls env [] outs a = (outs, a)"
| "act_calls env (tc # tcs) outs a =
     (let args = (if tc_arguments tc \<noteq> [] then (case ev_parse env (tc_arguments tc) of Some x \<Rightarrow> x | None \<Rightarrow> []) else []);
          a1 = a\<lparr>ag_selector := record_use (tc_name tc) (ag_selector a)\<rparr>;
          (r, a2) = execute_with_retry env (tc_name tc) args (tc_id tc) a1;
          a3 = a2\<lparr>ag_selector := (if success r then record_success (tc_name tc) (ag_selector a2)
                                   else record_failure (tc_name tc) (ag_selector a2))\<rparr>;
          a4 = (if tr_system r = Some ''terminate'' then a3\<lparr>ag_state := FINISHED\<rparr> else a3)
      in act_calls env tcs (outs @ [result_text r]) a4)"

definition act :: "env \<Rightarrow> string \<Rightarrow> agent \<Rightarrow> (string + string option) \<times> agent" where
  "act env thought a =
     (if me_messages (ag_memory a) = [] then (Inl ''list index out of range'', a)
      else case m_tool_calls (last (me_messages (ag_memory a))) of
        Some (tc # tcs) \<Rightarrow> (let (outs, a1) = act_calls env (tc # tcs) [] a in (Inr (Some (join newline outs)), a1))
      | _ \<Rightarrow> (Inr (if thought \<noteq> [] then Some thought else None), a))"

definition enter_step :: "agent \<Rightarrow> agent" where
  "enter_step a = a\<lparr>ag_history := map_option (add_step (''step '' @ show_nat (ag_steps a))) (ag_history a)\<rparr>"

definition tool_call_step :: "env \<Rightarrow> agent \<Rightarrow> (string + string option) \<times> agent" where
  "tool_call_step env a =
     (case think env (enter_step a) of
           (Inl ex, a1) \<Rightarrow> (Inl ex, a1)
         | (Inr _, a1) \<Rightarrow>
             (case act env [] a1 of
                (Inl ex, a2) \<Rightarrow> (Inl ex, a2)
              | (Inr r, a2) \<Rightarrow>
                  if ag_state a2 = FINISHED then (Inr r, a2)
                  else let content = (case last_assistant (ag_memory a2) of Some c \<Rightarrow> map lower_char c | None \<Rightarrow> [])
                       in (Inr r, if ev_done env content then a2\<lparr>ag_state := FINISHED\<rparr> else a2)))"


section \<open>Only permitted calls are executed\<close>

text \<open>A call is permitted if its content matches no catastrophic pattern and, in plan mode, its tool is
  harmless by name or the user approved this very call.\<close>

definition permitted :: "env \<Rightarrow> gate \<Rightarrow> string \<times> tool_args \<Rightarrow> bool" where
  "permitted env g x \<longleftrightarrow> \<not> catastrophic (ev_gate env) (fst x) (snd x) \<and>
     (pg_mode g = PLAN \<longrightarrow> fst x \<in> set allow_tools \<or>
        (\<exists>key. approval_key (ev_gate env) (fst x) (snd x) = Some key \<and> key \<in> set (pg_approved g)))"

definition safe :: "env \<Rightarrow> agent \<Rightarrow> bool" where
  "safe env a \<longleftrightarrow> (\<forall>x \<in> set (ag_executed a). permitted env (ag_gate a) x)"

lemma permitted_mono:
  "permitted env g x \<Longrightarrow> set (pg_approved g) \<subseteq> set (pg_approved g') \<Longrightarrow> pg_mode g' = pg_mode g \<Longrightarrow> permitted env g' x"
  by (auto simp: permitted_def)

text \<open>What does not touch the gate and the executed calls.\<close>

definition quiet :: "agent \<Rightarrow> agent \<Rightarrow> bool" where
  "quiet a a' \<longleftrightarrow> ag_gate a' = ag_gate a \<and> ag_executed a' = ag_executed a"

lemma quiet_refl [simp]: "quiet a a"
  by (simp add: quiet_def)

lemma quiet_trans: "quiet a b \<Longrightarrow> quiet b c \<Longrightarrow> quiet a c"
  by (simp add: quiet_def)

lemma quiet_safe: "quiet a a' \<Longrightarrow> safe env a' = safe env a"
  by (simp add: quiet_def safe_def)

lemma remember_simps [simp]:
  "ag_gate (remember m a) = ag_gate a" "ag_executed (remember m a) = ag_executed a"
  "ag_state (remember m a) = ag_state a" "ag_steps (remember m a) = ag_steps a"
  "ag_history (remember m a) = ag_history a" "ag_selector (remember m a) = ag_selector a"
  by (simp_all add: remember_def)

lemma record_observation_simps [simp]:
  "ag_gate (record_observation env t x out err n a) = ag_gate a"
  "ag_executed (record_observation env t x out err n a) = ag_executed a"
  "ag_state (record_observation env t x out err n a) = ag_state a"
  "ag_steps (record_observation env t x out err n a) = ag_steps a"
  by (simp_all add: record_observation_def Let_def split: option.splits)

lemma ask_llm_simps [simp]:
  "ag_gate (snd (ask_llm env a)) = ag_gate a" "ag_executed (snd (ask_llm env a)) = ag_executed a"
  "ag_state (snd (ask_llm env a)) = ag_state a" "ag_steps (snd (ask_llm env a)) = ag_steps a"
  by (simp_all add: ask_llm_def Let_def split: sum.splits)

lemma correct_call_simps [simp]:
  "ag_gate (snd (correct_call env n t r a)) = ag_gate a"
  "ag_executed (snd (correct_call env n t r a)) = ag_executed a"
  "ag_state (snd (correct_call env n t r a)) = ag_state a"
  "ag_steps (snd (correct_call env n t r a)) = ag_steps a"
  by (simp_all add: correct_call_def Let_def prod.case_eq_if split: option.split sum.split list.split)


lemma check_permission_true:
  assumes "check_permission env t x a = (Inr True, a')"
  shows "permitted env (ag_gate a') (t, x) \<and> set (pg_approved (ag_gate a)) \<subseteq> set (pg_approved (ag_gate a')) \<and>
     pg_mode (ag_gate a') = pg_mode (ag_gate a) \<and> ag_executed a' = ag_executed a"
proof -
  obtain t' where tier: "check_tool (ev_gate env) (ag_gate a) t x = Tier t'"
    using assms by (auto simp: check_permission_def split: verdict.splits)
  have harmless: "\<not> catastrophic (ev_gate env) t x"
    using tier catastrophic_denied [of "ev_gate env" t x "ag_gate a"] by auto
  show ?thesis
  proof (cases "t' = ASK \<and> is_plan_mode (ag_gate a)")
    case True
    then obtain g where g: "request_approval (ev_gate env) (ev_answer env (ag_asked a)) t x (ag_gate a) = Some (True, g)"
        "a' = a\<lparr>ag_asked := ag_asked a + 1, ag_gate := g\<rparr>"
      using assms tier by (auto simp: check_permission_def Let_def split: option.splits if_splits)
    thus ?thesis using request_approval_mono [OF g(1)] harmless by (auto simp: permitted_def)
  next
    case False
    hence a': "a' = a" using assms tier by (auto simp: check_permission_def)
    have "resolve_tier (ev_gate env) (ag_gate a) t x = Tier t'"
      using tier by (auto simp: check_tool_def Let_def split: if_splits option.splits arg_value.splits)
    moreover have "t' \<noteq> ASK \<or> pg_mode (ag_gate a) = BUILD"
      using False by (cases "pg_mode (ag_gate a)") (auto simp: is_plan_mode_def)
    ultimately have "pg_mode (ag_gate a) = BUILD \<or> t \<in> set allow_tools \<or>
        (\<exists>key. approval_key (ev_gate env) t x = Some key \<and> key \<in> set (pg_approved (ag_gate a)))"
      by (auto simp: resolve_tier_def split: if_splits option.splits)
    thus ?thesis using a' harmless by (auto simp: permitted_def)
  qed
qed

lemma check_permission_safe:
  assumes "safe env a"
  shows "safe env (snd (check_permission env t x a))"
proof -
  have "request_approval (ev_gate env) ans t x (ag_gate a) = Some (b, g) \<Longrightarrow> \<forall>y \<in> set (ag_executed a). permitted env g y"
    for ans b g
    using assms request_approval_mono [of "ev_gate env" ans t x "ag_gate a" b g]
    by (auto simp: safe_def intro: permitted_mono)
  thus ?thesis using assms
    by (auto simp: check_permission_def safe_def Let_def split: verdict.splits option.splits)
qed

lemma attempt_once_safe:
  assumes "safe env a"
  shows "safe env (snd (attempt_once env n t x cid a))"
proof -
  obtain res a1 where perm: "check_permission env t x a = (res, a1)" by (cases "check_permission env t x a")
  have a1: "safe env a1" using check_permission_safe [OF assms, of t x] perm by simp
  have run: "safe env (snd (run_tool env t x a1))" if "res = Inr True"
    using a1 check_permission_true [of env t x a a1] perm that by (auto simp: run_tool_def safe_def)
  show ?thesis
  proof (cases res)
    case (Inl ex)
    thus ?thesis using a1 perm by (simp add: attempt_once_def)
  next
    case (Inr b)
    show ?thesis
    proof (cases b)
      case False
      thus ?thesis using a1 perm Inr by (simp add: attempt_once_def safe_def Let_def)
    next
      case True
      thus ?thesis using run perm Inr
        by (simp add: attempt_once_def Let_def prod.case_eq_if safe_def split: sum.split)
    qed
  qed
qed

lemma retry_tool_safe: "safe env a \<Longrightarrow> safe env (snd (retry_tool env ns t x cid prev a))"
proof (induction ns arbitrary: t x cid prev a)
  case (Cons n ns)
  obtain o' a1 where one: "attempt_once env n t x cid a = (o', a1)" by (cases "attempt_once env n t x cid a")
  have "safe env a1" using attempt_once_safe [OF Cons.prems, of n t x cid] one by simp
  thus ?case using one Cons.IH
    by (cases o') (auto simp: Let_def safe_def)
qed (simp add: safe_def)

lemma think_safe: "safe env a \<Longrightarrow> safe env (snd (think env a))"
  by (simp add: think_def prod.case_eq_if safe_def split: option.split sum.split)

lemma act_calls_safe: "safe env a \<Longrightarrow> safe env (snd (act_calls env tcs outs a))"
proof (induction tcs arbitrary: outs a)
  case (Cons tc tcs)
  define args where "args = (if tc_arguments tc \<noteq> []
    then (case ev_parse env (tc_arguments tc) of Some x \<Rightarrow> x | None \<Rightarrow> []) else [])"
  obtain r a2 where run: "execute_with_retry env (tc_name tc) args (tc_id tc)
      (a\<lparr>ag_selector := record_use (tc_name tc) (ag_selector a)\<rparr>) = (r, a2)" by force
  have "safe env (a\<lparr>ag_selector := record_use (tc_name tc) (ag_selector a)\<rparr>)" using Cons.prems by (simp add: safe_def)
  hence "safe env a2" using run retry_tool_safe unfolding execute_with_retry_def by (metis snd_conv)
  hence "safe env (b\<lparr>ag_state := st\<rparr>)" "safe env b" if "b = a2\<lparr>ag_selector := s\<rparr>" for b st s
    using that by (simp_all add: safe_def)
  thus ?case using Cons.IH run unfolding act_calls.simps args_def [symmetric] Let_def
    by simp
qed simp

lemma think_act_safe:
  assumes "safe env a"
  shows "safe env (snd (think env (enter_step a)))" "safe env (snd (act env th (snd (think env (enter_step a)))))"
proof -
  have "safe env (enter_step a)" using assms by (simp add: enter_step_def safe_def)
  thus think: "safe env (snd (think env (enter_step a)))" by (rule think_safe)
  have "safe env b \<Longrightarrow> safe env (snd (act env th b))" for b
    using act_calls_safe
    by (simp add: act_def Let_def prod.case_eq_if del: act_calls.simps split: option.split list.split)
  thus "safe env (snd (act env th (snd (think env (enter_step a)))))" using think .
qed

lemma safe_simps [simp]:
  "safe env (a\<lparr>ag_state := st\<rparr>) = safe env a" "safe env (remember m a) = safe env a"
  by (simp_all add: safe_def)

lemma tool_call_step_safe: "safe env a \<Longrightarrow> safe env (snd (tool_call_step env a))"
  using think_act_safe(1) [of env a] think_act_safe(2) [of env a, where th = "[]"] by (simp add: tool_call_step_def Let_def prod.case_eq_if split: sum.split)

section \<open>The general agent\<close>

text \<open>\<open>Manus.step\<close>: no search for words that say the task is done, but a self-check every third step;
  \<open>check\<close> is its wording.\<close>

definition manus_step :: "(task_history option \<Rightarrow> string) \<Rightarrow> env \<Rightarrow> agent \<Rightarrow> (string + string option) \<times> agent" where
  "manus_step check env a =
     (case think env (enter_step a) of
           (Inl ex, a1) \<Rightarrow> (Inl ex, a1)
         | (Inr _, a1) \<Rightarrow>
             (case act env [] a1 of
                (Inl ex, a2) \<Rightarrow> (Inl ex, a2)
              | (Inr r, a2) \<Rightarrow>
                  if ag_state a2 = FINISHED then (Inr r, a2)
                  else (Inr r, if ag_steps a2 mod 3 = 0 then remember (user_msg (check (ag_history a2))) a2 else a2)))"

lemma manus_step_safe: "safe env a \<Longrightarrow> safe env (snd (manus_step check env a))"
  using think_act_safe(1) [of env a] think_act_safe(2) [of env a, where th = "[]"] by (simp add: manus_step_def Let_def prod.case_eq_if split: sum.split)

end
