(* ===== verification/Agent_Run.thy ===== *)
theory Agent_Run
  imports Agent_Loop
begin

text \<open>
  \<open>BaseAgent.run\<close> of \<open>app/agent/base.py\<close>: the life cycle of an agent around its abstract \<open>step\<close>.  What
  the loop needs of a step is the locale \<open>agent_step\<close>; \<open>ToolCallAgent.step\<close> is its interpretation.
\<close>

section \<open>Nudges\<close>

definition words :: "string \<Rightarrow> string set" where
  "words s = set (split_words [] (map lower_char s))"

definition similarity :: "string \<Rightarrow> string \<Rightarrow> real" where
  "similarity x y =
     (if words x = {} \<and> words y = {} then 1
      else if words x = {} \<or> words y = {} then 0
      else real (card (words x \<inter> words y)) / real (max (card (words x)) (card (words y))))"

definition is_stuck_by_duplicates :: "memory \<Rightarrow> bool" where
  "is_stuck_by_duplicates mem =
     (let msgs = map (\<lambda>m. the (m_content m))
            (filter (\<lambda>m. m_role m = ASSISTANT \<and> truthy (m_content m)) (py_last 6 (me_messages mem)))
      in if length msgs < 3 then False
         else let recent = py_last 3 msgs
              in card (set recent) = 1 \<or>
                 (\<forall>i \<in> set [0..<length recent - 1]. similarity (recent ! i) (recent ! (i + 1)) \<ge> 0.80))"

definition nudge :: "env \<Rightarrow> agent \<Rightarrow> agent" where
  "nudge env a =
     (let a1 = (if is_stuck_by_duplicates (ag_memory a) then remember (user_msg (tx_repeating (ev_texts env))) a else a)
      in case ag_history a1 of
           None \<Rightarrow> a1
         | Some h \<Rightarrow> if is_looping 3 h then remember (user_msg (tx_looping (ev_texts env))) a1 else a1)"

text \<open>The remainder by a threshold of 0 raises, outside the \<open>try\<close> block.\<close>

definition maybe_suggest_skill :: "env \<Rightarrow> agent \<Rightarrow> (string + unit) \<times> agent" where
  "maybe_suggest_skill env a =
     (if ag_tool_calls a > 0 \<and> ev_skill_threshold env = 0 then (Inl ''integer modulo by zero'', a)
      else if ag_tool_calls a > 0 \<and> ag_tool_calls a mod ev_skill_threshold env = 0
      then (case ev_suggest env (ag_tool_calls a) (ag_history a) of
              Some text \<Rightarrow> (Inr (), remember (user_msg text) a)
            | None \<Rightarrow> (Inr (), a))
      else (Inr (), a))"

section \<open>The run\<close>

type_synonym step = "agent \<Rightarrow> (string + string option) \<times> agent"

text \<open>Before a step: the grace call when the budget is used up, the counter, the refresh of every fifth step.\<close>

definition begin_step :: "env \<Rightarrow> agent \<Rightarrow> agent" where
  "begin_step env a =
     (let a1 = (if is_exhausted (ag_budget a)
                then remember (user_msg (tx_grace (ev_texts env))) (a\<lparr>ag_budget := snd (use_grace (ag_budget a))\<rparr>)
                else a);
          a2 = a1\<lparr>ag_steps := ag_steps a1 + 1\<rparr>
      in case ag_history a2 of
           Some h \<Rightarrow>
             if ag_steps a2 > 1 \<and> ag_steps a2 mod 5 = 0
             then a2\<lparr>ag_memory := add_context_refresh (tx_context (ev_texts env) h) (ag_memory a2)\<rparr> else a2
         | None \<Rightarrow> a2)"

text \<open>The loop with \<open>k\<close> steps left; the first component is an exception that ended it.\<close>

fun run_loop :: "step \<Rightarrow> env \<Rightarrow> nat \<Rightarrow> string list \<Rightarrow> agent \<Rightarrow> string option \<times> string list \<times> agent" where
  "run_loop step env 0 results a = (None, results, a)"
| "run_loop step env (Suc k) results a =
     (if ag_state a \<noteq> RUNNING then (None, results, a)
      else if is_exhausted (ag_budget a) \<and> tb_grace_used (ag_budget a)
      then (None, results, a\<lparr>ag_state := FINISHED\<rparr>)
      else case step (begin_step env a) of
        (Inl ex, a1) \<Rightarrow> (Some ex, results, a1)
      | (Inr r, a1) \<Rightarrow>
          let results1 = (if truthy r then results @ [the r] else results)
          in case maybe_suggest_skill env (nudge env a1) of
               (Inl ex, a2) \<Rightarrow> (Some ex, results1, a2)
             | (Inr _, a2) \<Rightarrow> run_loop step env k results1 a2)"

text \<open>What a run gets from outside: the identity prompt, the skill messages for a prompt, the verdict of the
  identity guard with the cleaned prompt, and the outcome of opening a session.\<close>

record run_input =
  ri_system :: string
  ri_skills :: "string \<Rightarrow> string list"
  ri_guard :: "string \<Rightarrow> bool \<times> string"
  ri_reinforcement :: string
  ri_session :: "string option"
  ri_max_steps :: int

definition start_run :: "run_input \<Rightarrow> string \<Rightarrow> agent \<Rightarrow> agent" where
  "start_run ri prompt a =
     (let a1 = a\<lparr>ag_state := RUNNING, ag_steps := 0, ag_tool_calls := 0,
                 ag_history := Some \<lparr>th_goal = prompt, th_steps = []\<rparr>\<rparr>;
          a2 = remember (system_msg (ri_system ri)) a1;
          a3 = (if ag_skills_injected a2 then a2
                else (fold (\<lambda>text. remember (user_msg text)) (ri_skills ri prompt) a2)\<lparr>ag_skills_injected := True\<rparr>);
          (manipulated, safe_prompt) = ri_guard ri prompt;
          a4 = (if manipulated then remember (system_msg (ri_reinforcement ri)) a3 else a3)
      in remember (user_msg safe_prompt) a4)"

definition finish_run ::
  "run_input \<Rightarrow> string option \<times> string list \<times> agent \<Rightarrow> string \<times> agent" where
  "finish_run ri out =
     (case out of (ex, results, a) \<Rightarrow>
        let (results, a) =
              (case ex of
                 Some e \<Rightarrow> (results @ [''Agent error: '' @ e], a\<lparr>ag_state := ERROR\<rparr>)
               | None \<Rightarrow> (results, if int (ag_steps a) \<ge> ri_max_steps ri \<and> ag_state a = RUNNING
                                   then a\<lparr>ag_state := FINISHED\<rparr> else a))
        in (if results \<noteq> [] then join newline results else ''(Agent completed with no text output.)'', a))"

text \<open>A failure to open the session leaves the agent \<open>RUNNING\<close>.\<close>

definition run :: "step \<Rightarrow> env \<Rightarrow> run_input \<Rightarrow> string \<Rightarrow> agent \<Rightarrow> (string + string) \<times> agent" where
  "run step env ri prompt a =
     (if ag_state a \<noteq> IDLE then (Inl ''Agent not idle'', a)
      else
        let a1 = start_run ri prompt a
        in case ri_session ri of
             Some ex \<Rightarrow> (Inl ex, a1)
           | None \<Rightarrow> (let (text, a2) = finish_run ri (run_loop step env (nat (ri_max_steps ri)) [] a1) in (Inr text, a2)))"

section \<open>What the loop needs of a step\<close>

lemma nudge_simps [simp]:
  "ag_gate (nudge env a) = ag_gate a" "ag_executed (nudge env a) = ag_executed a"
  "ag_state (nudge env a) = ag_state a" "ag_steps (nudge env a) = ag_steps a"
  by (simp_all add: nudge_def Let_def split: option.splits)

lemma maybe_suggest_skill_simps [simp]:
  "ag_gate (snd (maybe_suggest_skill env a)) = ag_gate a"
  "ag_executed (snd (maybe_suggest_skill env a)) = ag_executed a"
  "ag_state (snd (maybe_suggest_skill env a)) = ag_state a"
  "ag_steps (snd (maybe_suggest_skill env a)) = ag_steps a"
  by (simp_all add: maybe_suggest_skill_def split: option.splits)

lemma begin_step_simps [simp]:
  "ag_gate (begin_step env a) = ag_gate a" "ag_executed (begin_step env a) = ag_executed a"
  "ag_state (begin_step env a) = ag_state a" "ag_steps (begin_step env a) = Suc (ag_steps a)"
  by (simp_all add: begin_step_def Let_def split: option.splits)

lemma start_run_simps [simp]:
  "ag_gate (start_run ri p a) = ag_gate a" "ag_executed (start_run ri p a) = ag_executed a"
  "ag_state (start_run ri p a) = RUNNING" "ag_steps (start_run ri p a) = 0"
proof -
  have "ag_gate (fold (\<lambda>t. remember (user_msg t)) ts b) = ag_gate b \<and>
      ag_executed (fold (\<lambda>t. remember (user_msg t)) ts b) = ag_executed b \<and>
      ag_state (fold (\<lambda>t. remember (user_msg t)) ts b) = ag_state b \<and>
      ag_steps (fold (\<lambda>t. remember (user_msg t)) ts b) = ag_steps b" for ts b
    by (induction ts arbitrary: b) simp_all
  thus "ag_gate (start_run ri p a) = ag_gate a" "ag_executed (start_run ri p a) = ag_executed a"
    "ag_state (start_run ri p a) = RUNNING" "ag_steps (start_run ri p a) = 0"
    by (simp_all add: start_run_def Let_def split_beta)
qed

locale agent_step =
  fixes step :: step and inv :: "agent \<Rightarrow> bool"
  assumes step_keeps_count: "ag_steps (snd (step a)) = ag_steps a"
    and step_state: "ag_state a = RUNNING \<Longrightarrow> ag_state (snd (step a)) \<in> {RUNNING, FINISHED}"
    and step_inv: "inv a \<Longrightarrow> inv (snd (step a))"
    and quiet_inv: "quiet a a' \<Longrightarrow> inv a \<Longrightarrow> inv a'"
begin

lemma run_loop_inv: "inv a \<Longrightarrow> inv (snd (snd (run_loop step env k results a)))"
proof (induction k arbitrary: results a)
  case (Suc k)
  obtain res a1 where one: "step (begin_step env a) = (res, a1)" by force
  have a1: "inv a1"
    using step_inv [OF quiet_inv [OF _ Suc.prems], of "begin_step env a"] one by (simp add: quiet_def)
  obtain res2 a2 where two: "maybe_suggest_skill env (nudge env a1) = (res2, a2)" by force
  have "quiet a1 a2" using maybe_suggest_skill_simps [of env "nudge env a1"] two by (simp add: quiet_def)
  hence "inv a2" using quiet_inv a1 by blast
  moreover have "inv (a\<lparr>ag_state := FINISHED\<rparr>)" by (rule quiet_inv [OF _ Suc.prems]) (simp add: quiet_def)
  ultimately show ?case using Suc one two a1 by (cases res; cases res2) (simp_all add: Let_def)
qed simp

lemma run_loop_state:
  assumes "run_loop step env k results a = (ex, results', a')" "ag_state a \<in> {RUNNING, FINISHED}"
  shows "ag_steps a' \<le> ag_steps a + k \<and> ag_state a' \<in> {RUNNING, FINISHED} \<and>
     (ex = None \<and> ag_state a' = RUNNING \<longrightarrow> ag_steps a' = ag_steps a + k)"
  using assms
proof (induction k arbitrary: results a)
  case (Suc k)
  show ?case
  proof (cases "ag_state a \<noteq> RUNNING \<or> is_exhausted (ag_budget a) \<and> tb_grace_used (ag_budget a)")
    case True
    thus ?thesis using Suc.prems by (auto split: if_splits)
  next
    case False
    obtain res a1 where one: "step (begin_step env a) = (res, a1)" by force
    obtain res2 a2 where two: "maybe_suggest_skill env (nudge env a1) = (res2, a2)" by force
    have a1: "ag_steps a1 = Suc (ag_steps a)" "ag_state a1 \<in> {RUNNING, FINISHED}"
      using step_keeps_count [of "begin_step env a"] step_state [of "begin_step env a"] one False by simp_all
    have a2: "ag_steps a2 = ag_steps a1" "ag_state a2 = ag_state a1"
      using maybe_suggest_skill_simps [of env "nudge env a1"] two by simp_all
    show ?thesis
    proof (cases "\<exists>r. res = Inr r \<and> res2 = Inr ()")
      case True
      then obtain r where "res = Inr r" "res2 = Inr ()" by blast
      hence "run_loop step env k (if truthy r then results @ [the r] else results) a2 = (ex, results', a')"
        using Suc.prems(1) one two False by (auto simp: Let_def)
      from Suc.IH [OF this] show ?thesis using a1 a2 by auto
    next
      case err: False
      hence "ex \<noteq> None \<and> (a' = a1 \<or> a' = a2)"
        using Suc.prems(1) one two False by (cases res; cases res2) (auto simp: Let_def)
      thus ?thesis using a1 a2 by auto
    qed
  qed
qed simp

lemma run_state:
  assumes "run step env ri prompt a = (Inr text, a')"
  shows "ag_state a = IDLE \<and> ag_state a' \<in> {FINISHED, ERROR} \<and> int (ag_steps a') \<le> max 0 (ri_max_steps ri)"
proof -
  have idle: "ag_state a = IDLE" "ri_session ri = None"
    using assms by (auto simp: run_def Let_def split: if_splits option.splits prod.splits)
  obtain ex results b where loop: "run_loop step env (nat (ri_max_steps ri)) [] (start_run ri prompt a) = (ex, results, b)"
    by (metis prod_cases3)
  have st: "ag_steps b \<le> nat (ri_max_steps ri) \<and> ag_state b \<in> {RUNNING, FINISHED} \<and>
     (ex = None \<and> ag_state b = RUNNING \<longrightarrow> ag_steps b = nat (ri_max_steps ri))"
    using run_loop_state [OF loop] by simp
  have "a' = snd (finish_run ri (ex, results, b))"
    using assms idle loop by (auto simp: run_def Let_def split: prod.splits)
  hence "a' = (if ex \<noteq> None then b\<lparr>ag_state := ERROR\<rparr>
      else if int (ag_steps b) \<ge> ri_max_steps ri \<and> ag_state b = RUNNING then b\<lparr>ag_state := FINISHED\<rparr> else b)"
    by (cases ex) (simp_all add: finish_run_def Let_def)
  thus ?thesis using st idle(1) by (cases "ex = None") (auto simp: max_def split: if_splits)
qed

lemma run_uses_up: "ag_state (snd (run step env ri prompt a)) \<noteq> IDLE"
proof (cases "fst (run step env ri prompt a)")
  case (Inl ex)
  thus ?thesis by (auto simp: run_def Let_def split_beta split: if_splits option.splits)
next
  case (Inr r)
  hence "run step env ri prompt a = (Inr r, snd (run step env ri prompt a))" by (simp add: prod_eq_iff)
  from run_state [OF this] show ?thesis by auto
qed

lemma run_inv: "inv a \<Longrightarrow> inv (snd (run step env ri prompt a))"
proof -
  assume a: "inv a"
  have start: "inv (start_run ri prompt a)" by (rule quiet_inv [OF _ a]) (simp add: quiet_def)
  obtain ex results b where loop: "run_loop step env (nat (ri_max_steps ri)) [] (start_run ri prompt a) = (ex, results, b)"
    by (metis prod_cases3)
  have b: "inv b" using run_loop_inv [OF start, of env "nat (ri_max_steps ri)" "[]"] loop by simp
  have "quiet b (snd (finish_run ri (ex, results, b)))"
    by (cases ex) (simp_all add: finish_run_def quiet_def Let_def)
  hence "inv (snd (finish_run ri (ex, results, b)))" using quiet_inv b by blast
  thus ?thesis using a start loop by (simp add: run_def Let_def split_beta split: option.split)
qed

end

section \<open>The tool-calling agent\<close>


definition same_run :: "agent \<Rightarrow> agent \<Rightarrow> bool" where
  "same_run a a' \<longleftrightarrow> ag_steps a' = ag_steps a \<and> (ag_state a' = ag_state a \<or> ag_state a' = FINISHED)"

lemma same_run_refl: "same_run a a" and same_run_trans: "same_run a b \<Longrightarrow> same_run b c \<Longrightarrow> same_run a c"
  by (auto simp: same_run_def)

lemma check_permission_same: "same_run a (snd (check_permission env t x a))"
  by (auto simp: check_permission_def same_run_def Let_def split: verdict.splits option.splits)

lemma attempt_once_same: "same_run a (snd (attempt_once env n t x cid a))"
proof -
  obtain res a1 where perm: "check_permission env t x a = (res, a1)" by force
  have "same_run a a1" using check_permission_same [of a env t x] perm by simp
  moreover have "same_run a1 (snd (run_tool env t x a1))" by (simp add: run_tool_def same_run_def)
  ultimately show ?thesis using perm
    by (cases res) (auto simp: attempt_once_def Let_def prod.case_eq_if same_run_def split: sum.split bool.split)
qed

lemma retry_tool_same: "same_run a (snd (retry_tool env ns t x cid prev a))"
proof (induction ns arbitrary: t x cid prev a)
  case (Cons n ns)
  obtain o' a1 where one: "attempt_once env n t x cid a = (o', a1)" by force
  have a1: "same_run a a1" using attempt_once_same [of a env n t x cid] one by simp
  have "same_run a (snd (retry_tool env ns t' x' cid' prev' b))" if "same_run a1 b" for t' x' cid' prev' b
    using same_run_trans [OF same_run_trans [OF a1 that] Cons.IH] .
  thus ?case using one a1 by (cases o') (simp_all add: Let_def same_run_def)
qed (simp add: same_run_def)

lemma act_calls_same: "same_run a (snd (act_calls env tcs outs a))"
proof (induction tcs arbitrary: outs a)
  case (Cons tc tcs)
  define args where "args = (if tc_arguments tc \<noteq> []
    then (case ev_parse env (tc_arguments tc) of Some x \<Rightarrow> x | None \<Rightarrow> []) else [])"
  obtain r a2 where run: "execute_with_retry env (tc_name tc) args (tc_id tc)
      (a\<lparr>ag_selector := record_use (tc_name tc) (ag_selector a)\<rparr>) = (r, a2)" by force
  have "same_run (a\<lparr>ag_selector := record_use (tc_name tc) (ag_selector a)\<rparr>) a2"
    using run retry_tool_same unfolding execute_with_retry_def by (metis snd_conv)
  hence "same_run a a2" by (simp add: same_run_def)
  hence "same_run a (b\<lparr>ag_state := FINISHED\<rparr>)" "same_run a b" if "b = a2\<lparr>ag_selector := s\<rparr>" for b s
    using that by (auto simp: same_run_def)
  thus ?case using same_run_trans [OF _ Cons.IH] run unfolding act_calls.simps args_def [symmetric] Let_def
    by simp
qed (simp add: same_run_refl)

lemma think_act_same:
  "same_run a (snd (think env (enter_step a)))" "same_run a (snd (act env th (snd (think env (enter_step a)))))"
proof -
  have "same_run a (enter_step a)" by (simp add: enter_step_def same_run_def)
  moreover have "same_run b (snd (think env b))" for b
    by (simp add: think_def prod.case_eq_if same_run_def split: option.split sum.split)
  ultimately show think: "same_run a (snd (think env (enter_step a)))" using same_run_trans by blast
  have "same_run b (snd (act env th b))" for b
    using act_calls_same same_run_refl
    by (simp add: act_def Let_def prod.case_eq_if del: act_calls.simps split: option.split list.split)
  thus "same_run a (snd (act env th (snd (think env (enter_step a)))))" using same_run_trans [OF think] by blast
qed

lemma same_run_more:
  "same_run a b \<Longrightarrow> same_run a (b\<lparr>ag_state := FINISHED\<rparr>)" "same_run a b \<Longrightarrow> same_run a (remember m b)"
  by (simp_all add: same_run_def)

lemma tool_call_step_same: "same_run a (snd (tool_call_step env a))"
  using think_act_same(1) [of a env] think_act_same(2) [of a env, where th = "[]"] same_run_more
  by (simp add: tool_call_step_def Let_def prod.case_eq_if split: sum.split)

lemma manus_step_same: "same_run a (snd (manus_step check env a))"
  using think_act_same(1) [of a env] think_act_same(2) [of a env, where th = "[]"] same_run_more
  by (simp add: manus_step_def Let_def prod.case_eq_if split: sum.split)

text \<open>The contract of a step is met by \<open>ToolCallAgent.step\<close> and \<open>Manus.step\<close>, with the safety of executed
  calls as its invariant.\<close>

lemma agent_step_of_same:
  assumes "\<And>a. same_run a (snd (step a))" "\<And>a. safe env a \<Longrightarrow> safe env (snd (step a))"
  shows "agent_step step (safe env)"
proof
  show "ag_steps (snd (step a)) = ag_steps a" for a using assms(1) [of a] by (simp add: same_run_def)
  show "ag_state a = RUNNING \<Longrightarrow> ag_state (snd (step a)) \<in> {RUNNING, FINISHED}" for a
    using assms(1) [of a] by (auto simp: same_run_def)
  show "safe env a \<Longrightarrow> safe env (snd (step a))" for a by (rule assms(2))
  show "quiet a a' \<Longrightarrow> safe env a \<Longrightarrow> safe env a'" for a a' by (simp add: quiet_safe)
qed

interpretation tool_call: agent_step "tool_call_step env" "safe env" for env
  by (rule agent_step_of_same [OF tool_call_step_same tool_call_step_safe])

interpretation manus: agent_step "manus_step check env" "safe env" for check env
  by (rule agent_step_of_same [OF manus_step_same manus_step_safe])

definition new_agent :: "string list \<Rightarrow> agent_mode \<Rightarrow> int \<Rightarrow> agent" where
  "new_agent tools mode token_limit =
     \<lparr>ag_state = IDLE, ag_memory = new_memory, ag_gate = new_gate mode, ag_selector = new_selector tools,
      ag_history = None, ag_budget = new_budget token_limit, ag_steps = 0, ag_tool_calls = 0,
      ag_skills_injected = False, ag_asked = 0, ag_ran = 0, ag_llm_calls = 0, ag_executed = []\<rparr>"

text \<open>C15: Whatever the language model, the tools and the user do, every tool call that a new agent has
  executed at the end of a run, self-corrected calls and retries included, is permitted: its command or
  code matches no catastrophic pattern, and in plan mode its tool is harmless by name or the user approved
  this very call.\<close>

theorem agent_executes_only_permitted:
  "x \<in> set (ag_executed (snd (run (tool_call_step env) env ri prompt (new_agent tools mode token_limit)))) \<Longrightarrow>
     permitted env (ag_gate (snd (run (tool_call_step env) env ri prompt (new_agent tools mode token_limit)))) x"
proof -
  assume x: "x \<in> set (ag_executed (snd (run (tool_call_step env) env ri prompt (new_agent tools mode token_limit))))"
  have "safe env (new_agent tools mode token_limit)" by (simp add: safe_def new_agent_def)
  from tool_call.run_inv [OF this, of env ri prompt] x show ?thesis unfolding safe_def by blast
qed

text \<open>A run that returns began with an idle agent, took at most \<open>max_steps\<close> steps and leaves the agent
  finished or in error, never idle, so every later run of the same agent raises.\<close>

theorem agent_runs_once:
  assumes "run (tool_call_step env) env ri prompt a = (Inr text, a')"
  shows "ag_state a = IDLE \<and> ag_state a' \<in> {FINISHED, ERROR} \<and> int (ag_steps a') \<le> max 0 (ri_max_steps ri) \<and>
     run (tool_call_step env) env ri' prompt' a' = (Inl ''Agent not idle'', a')"
  using tool_call.run_state [OF assms] by (auto simp: run_def)

lemma attempt_once_executed:
  "length (ag_executed (snd (attempt_once env n t x cid a))) \<le> Suc (length (ag_executed a))"
proof -
  obtain res a1 where perm: "check_permission env t x a = (res, a1)" by force
  have "ag_executed a1 = ag_executed a"
    using perm by (auto simp: check_permission_def Let_def split: verdict.splits option.splits if_splits)
  moreover have "length (ag_executed (snd (run_tool env t x a1))) \<le> Suc (length (ag_executed a1))"
    by (simp add: run_tool_def)
  ultimately show ?thesis using perm
    by (cases res) (auto simp: attempt_once_def Let_def prod.case_eq_if split: sum.split bool.split)
qed

lemma retry_tool_executed:
  "length (ag_executed (snd (retry_tool env ns t x cid prev a))) \<le> length ns + length (ag_executed a)"
proof (induction ns arbitrary: t x cid prev a)
  case (Cons n ns)
  obtain o' a1 where one: "attempt_once env n t x cid a = (o', a1)" by force
  have a1: "length (ag_executed a1) \<le> Suc (length (ag_executed a))"
    using attempt_once_executed [of env n t x cid a] one by simp
  have "length (ag_executed (snd (retry_tool env ns t' x' cid' prev' b))) \<le> length (n # ns) + length (ag_executed a)"
    if "ag_executed b = ag_executed a1" for t' x' cid' prev' b
    using Cons.IH [of t' x' cid' prev' b] a1 that by simp
  thus ?case using one a1 by (cases o') (simp_all add: Let_def)
qed simp

text \<open>One tool call of the model runs at most \<open>MAX_TOOL_RETRIES\<close> tools.\<close>

theorem tool_call_bounded:
  "length (ag_executed (snd (execute_with_retry env t x cid a))) \<le> ev_max_retries env + length (ag_executed a)"
  unfolding execute_with_retry_def
  by (rule order.trans [OF retry_tool_executed]) (simp del: upt_Suc)


subsection \<open>A small world\<close>

text \<open>A model that calls \<open>bash\<close> and then \<open>terminate\<close>; the tool fails once; the user says yes.\<close>

definition demo_texts :: texts where
  "demo_texts = \<lparr>tx_blocked = (\<lambda>_. ''blocked''), tx_rejected = (\<lambda>_. ''rejected''), tx_hint = (\<lambda>_. ''hint''),
     tx_retry = (\<lambda>_ _ _ _. ''retry''), tx_crash = (\<lambda>_ _ _. ''crash''), tx_not_found = (\<lambda>_ _. ''none''),
     tx_context = (\<lambda>_. ''context''), tx_grace = ''grace'', tx_repeating = ''repeating'', tx_looping = ''looping''\<rparr>"

definition demo_call :: "string \<Rightarrow> tool_call" where
  "demo_call t = \<lparr>tc_id = t, tc_name = t, tc_arguments = ''ls''\<rparr>"

definition demo_env :: env where
  "demo_env =
     \<lparr>ev_gate = no_patterns, ev_hit = (\<lambda>_ _ _. None), ev_texts = demo_texts, ev_answer = (\<lambda>_. Some ''y''),
      ev_tools = [''bash'', ''terminate''],
      ev_tool = (\<lambda>_ t _. Inr \<lparr>tr_output = Some ''ok'', tr_error = None,
                               tr_system = (if t = ''terminate'' then Some t else None)\<rparr>),
      ev_llm = (\<lambda>n _. Inr (assistant_msg None (Some [demo_call ''bash'', demo_call ''terminate'']))),
      ev_usage = (\<lambda>_. None),
      ev_parse = (\<lambda>s. Some [(''command'', Text s)]), ev_args_text = (\<lambda>_. ''{}''), ev_skip_goal = (\<lambda>_. False),
      ev_done = (\<lambda>_. False), ev_max_retries = 3, ev_skill_threshold = 10, ev_suggest = (\<lambda>_ _. None)\<rparr>"

definition demo_input :: run_input where
  "demo_input = \<lparr>ri_system = ''sys'', ri_skills = (\<lambda>_. []), ri_guard = (\<lambda>p. (False, p)), ri_reinforcement = [],
     ri_session = None, ri_max_steps = 5\<rparr>"

definition demo_new :: agent where
  "demo_new = new_agent [''bash'', ''terminate''] PLAN 0"

definition demo_agent :: agent where
  "demo_agent = snd (run (tool_call_step demo_env) demo_env demo_input ''list'' demo_new)"

lemma demo_run: "ag_executed demo_agent = [(''bash'', [(''command'', Text ''ls'')]), (''terminate'', [(''command'', Text ''ls'')])]"
  by code_simp


theorem agent_executes_only_permitted_witness:
  "permitted demo_env (ag_gate demo_agent) (''bash'', [(''command'', Text ''ls'')])"
  using agent_executes_only_permitted [of "(''bash'', [(''command'', Text ''ls'')])" demo_env demo_input "''list''"
      "[''bash'', ''terminate'']" PLAN 0] demo_run
  unfolding demo_new_def [symmetric] demo_agent_def [symmetric] by simp

lemma demo_returns: "\<not> isl (fst (run (tool_call_step demo_env) demo_env demo_input ''list'' demo_new))"
  by code_simp

theorem agent_runs_once_witness:
  "run (tool_call_step demo_env) demo_env demo_input ''again'' demo_agent = (Inl ''Agent not idle'', demo_agent)"
proof -
  obtain res b where out: "run (tool_call_step demo_env) demo_env demo_input ''list'' demo_new = (res, b)" by force
  then obtain r where "res = Inr r" using demo_returns by (cases res) auto
  moreover have "b = demo_agent" using out by (simp add: demo_agent_def)
  ultimately have "run (tool_call_step demo_env) demo_env demo_input ''list'' demo_new = (Inr r, demo_agent)"
    using out by simp
  from agent_runs_once [OF this] show ?thesis by blast
qed

end
