(* ===== verification/Planning_Flow.thy ===== *)
theory Planning_Flow
  imports Agent_Run
begin

text \<open>
  \<open>app/flow/planning.py\<close> and the plan records of \<open>app/schema.py\<close>: a goal is decomposed into steps, each
  step is run by an agent, scored, retried once and, if it is blocked or scores low, followed by a new
  plan.  The agents are the interface \<open>single_use\<close>; the planner's answers and the agents' constructor are
  parameters.  A time-out is a bound on the number of iterations.  Identifiers, durations and logging are
  left out.
\<close>

section \<open>Plans\<close>

datatype step_status = NOT_STARTED | IN_PROGRESS | COMPLETED | BLOCKED

record plan_step =
  ps_id :: nat
  ps_description :: string
  ps_status :: step_status
  ps_criteria :: "string option"
  ps_score :: real

definition next_step :: "plan_step list \<Rightarrow> plan_step option" where
  "next_step steps = List.find (\<lambda>s. ps_status s = NOT_STARTED) steps"

definition is_complete :: "plan_step list \<Rightarrow> bool" where
  "is_complete steps \<longleftrightarrow> list_all (\<lambda>s. ps_status s = COMPLETED) steps"

definition completion_rate :: "plan_step list \<Rightarrow> real" where
  "completion_rate steps =
     (if steps = [] then 0
      else real (length (filter (\<lambda>s. ps_status s = COMPLETED) steps)) / real (length steps))"

subsection \<open>Reading a plan\<close>

text \<open>\<open>^(?:\d+[.)\s]|[-*]\s)\s*(.+)$\<close> on a stripped line (the bullet sign is not in ASCII).\<close>

definition strip_number :: "string \<Rightarrow> string" where
  "strip_number line =
     (let rest = dropWhile is_digit line;
          body = (if line \<noteq> [] \<and> is_digit (hd line)
                  then (case rest of c # cs \<Rightarrow> if c \<in> {CHR ''.'', CHR '')''} \<or> is_space c then cs else [] | [] \<Rightarrow> [])
                  else case line of
                    c # d # cs \<Rightarrow> if c \<in> {CHR ''-'', CHR ''*''} \<and> is_space d then cs else []
                  | _ \<Rightarrow> []);
          found = dropWhile is_space body
      in if found \<noteq> [] then strip found else line)"

text \<open>\<open>\(([^)]{5,})\)\s*$\<close>: the text before and inside the closing parentheses of a stripped line.\<close>

definition trailing_parens :: "string \<Rightarrow> (string \<times> string) option" where
  "trailing_parens line =
     (if line \<noteq> [] \<and> last line = CHR '')''
      then let body = butlast line;
               tail = rev (takeWhile (\<lambda>c. c \<noteq> CHR '')'') (rev body));
               inner = dropWhile (\<lambda>c. c \<noteq> CHR ''('') tail
           in if inner \<noteq> [] \<and> length (tl inner) \<ge> 5
              then Some (take (length body - length inner) body, tl inner) else None
      else None)"

fun parse_lines :: "string list \<Rightarrow> plan_step list \<Rightarrow> plan_step list" where
  "parse_lines [] steps = steps"
| "parse_lines (l # ls) steps =
     (let l1 = strip l;
          l2 = (if l1 = [] then [] else strip_number l1);
          (descr, crit) = (case trailing_parens l2 of Some (b, c) \<Rightarrow> (strip b, Some (strip c)) | None \<Rightarrow> (l2, None))
      in parse_lines ls
           (if l2 = [] \<or> descr = [] then steps
            else steps @ [\<lparr>ps_id = length steps, ps_description = descr, ps_status = NOT_STARTED, ps_criteria = crit,
                           ps_score = 0\<rparr>]))"

definition parse_plan :: "string \<Rightarrow> string \<Rightarrow> plan_step list" where
  "parse_plan raw goal =
     (let steps = parse_lines (split_lines [] (strip raw)) []
      in if steps = [] then [\<lparr>ps_id = 0, ps_description = goal, ps_status = NOT_STARTED, ps_criteria = None, ps_score = 0\<rparr>]
         else steps)"

subsection \<open>Scoring\<close>

definition stop_words :: "string list" where
  "stop_words = [''the'', ''and'', ''has'', ''have'', ''been'', ''with'', ''that'', ''this'', ''from'', ''into'', ''should'',
     ''must'', ''will'', ''file'', ''saved'', ''written'', ''each'', ''every'']"

fun letter_runs :: "string \<Rightarrow> string \<Rightarrow> string list" where
  "letter_runs w [] = [w]"
| "letter_runs w (c # cs) = (if is_letter c then letter_runs (w @ [c]) cs else w # letter_runs [] cs)"

definition criteria_tokens :: "string \<Rightarrow> string list" where
  "criteria_tokens criteria =
     filter (\<lambda>w. w \<notin> set stop_words) (map (map lower_char) (filter (\<lambda>w. length w \<ge> 4) (letter_runs [] criteria)))"

definition round2 :: "real \<Rightarrow> real" where
  "round2 x = real_of_int (py_round (x * 100)) / 100"

definition score_result :: "string \<Rightarrow> string \<Rightarrow> real" where
  "score_result result criteria =
     (if criteria = [] then 1
      else let tokens = criteria_tokens criteria
           in if tokens = [] then 1
              else round2 (real (length (filter (\<lambda>t. sublist t (map lower_char result)) tokens)) / real (length tokens)))"

section \<open>The flow\<close>

record flow_step_result =
  fr_step_id :: nat
  fr_description :: string
  fr_status :: step_status
  fr_output :: string
  fr_error :: "string option"
  fr_attempts :: nat
  fr_score :: real

text \<open>The flow: the plan, the position, the results, the two cached agents, and how often the planner was asked.\<close>

record 'a flow =
  fl_steps :: "plan_step list"
  fl_index :: nat
  fl_results :: "flow_step_result list"
  fl_manus :: "'a option"
  fl_data :: "'a option"
  fl_replans :: nat

type_synonym 'a agent_run = "'a \<Rightarrow> string \<Rightarrow> (string + string) \<times> 'a"

record 'a flow_env =
  fv_run :: "'a agent_run"
  fv_new_manus :: 'a
  fv_new_data :: 'a
  fv_enable_data :: bool
  fv_goal :: string
  fv_threshold :: real
  fv_replan :: "nat \<Rightarrow> string list \<Rightarrow> plan_step list \<Rightarrow> string + string"

datatype agent_kind = Manus_Agent | Data_Agent

definition data_keywords :: "string list" where
  "data_keywords = [''chart'', ''graph'', ''plot'', ''analysis'', ''visuali'', ''data'']"

definition select_agent :: "'a flow_env \<Rightarrow> plan_step \<Rightarrow> bool \<Rightarrow> agent_kind" where
  "select_agent fv s prefer_safe =
     (if fv_enable_data fv \<and> \<not> prefer_safe \<and>
         list_ex (\<lambda>kw. sublist kw (map lower_char (ps_description s))) data_keywords
      then Data_Agent else Manus_Agent)"

text \<open>The selected agent comes from the cache, made on its first use; a run changes it there.\<close>

definition run_selected :: "'a flow_env \<Rightarrow> agent_kind \<Rightarrow> string \<Rightarrow> 'a flow \<Rightarrow> (string + string) \<times> 'a flow" where
  "run_selected fv kind prompt f =
     (case kind of
        Data_Agent \<Rightarrow>
          (let (r, a) = fv_run fv (case fl_data f of Some a \<Rightarrow> a | None \<Rightarrow> fv_new_data fv) prompt
           in (r, f\<lparr>fl_data := Some a\<rparr>))
      | Manus_Agent \<Rightarrow>
          (let (r, a) = fv_run fv (case fl_manus f of Some a \<Rightarrow> a | None \<Rightarrow> fv_new_manus fv) prompt
           in (r, f\<lparr>fl_manus := Some a\<rparr>)))"

definition retry_prompt :: "string \<Rightarrow> string" where
  "retry_prompt d = ''RETRY: The previous attempt at this step failed. Try a completely different approach.'' @
     [CHR 0x0A, CHR 0x0A] @ ''Step: '' @ d"

text \<open>Both attempts: the result, the error, the number of attempts.\<close>

definition attempt_step ::
  "'a flow_env \<Rightarrow> plan_step \<Rightarrow> 'a flow \<Rightarrow> (string option \<times> string option \<times> nat) \<times> 'a flow" where
  "attempt_step fv s f =
     (case run_selected fv (select_agent fv s False) (ps_description s) f of
        (Inr r, f1) \<Rightarrow> ((Some r, None, 1), f1)
      | (Inl e, f1) \<Rightarrow>
          (case run_selected fv (select_agent fv s True) (retry_prompt (ps_description s)) f1 of
             (Inr r, f2) \<Rightarrow> ((Some r, Some e, 2), f2)
           | (Inl e2, f2) \<Rightarrow> ((None, Some e2, 2), f2)))"

text \<open>One iteration; an exception of the planner ends the flow.\<close>

definition flow_iteration :: "'a flow_env \<Rightarrow> 'a flow \<Rightarrow> string + 'a flow" where
  "flow_iteration fv f =
     (let i = fl_index f; s = fl_steps f ! i
      in if ps_status s = COMPLETED then Inr (f\<lparr>fl_index := i + 1\<rparr>)
         else
           let ((res, err, attempts), f1) = attempt_step fv s f;
               status = (if res = None then BLOCKED else COMPLETED);
               score = (if truthy res
                        then score_result (the res) (case ps_criteria s of Some c \<Rightarrow> c | None \<Rightarrow> []) else 0);
               s1 = s\<lparr>ps_status := status, ps_score := (if truthy res then score else ps_score s)\<rparr>;
               entry = \<lparr>fr_step_id = ps_id s, fr_description = ps_description s, fr_status = status,
                        fr_output = take 400 (case res of Some r \<Rightarrow> r | None \<Rightarrow> []), fr_error = err,
                        fr_attempts = attempts, fr_score = score\<rparr>;
               f2 = f1\<lparr>fl_steps := (fl_steps f1)[i := s1], fl_results := fl_results f1 @ [entry]\<rparr>;
               remaining = drop (i + 1) (fl_steps f2);
               should_replan = (status = BLOCKED \<or> res \<noteq> None \<and> score < fv_threshold fv \<and> truthy (ps_criteria s))
           in if should_replan \<and> remaining \<noteq> []
              then (case fv_replan fv (fl_replans f2)
                           (map ps_description (filter (\<lambda>s. ps_status s = COMPLETED) (take i (fl_steps f2)))) remaining of
                      Inl ex \<Rightarrow> Inl ex
                    | Inr raw \<Rightarrow>
                        Inr (f2\<lparr>fl_steps := take (i + 1) (fl_steps f2) @
                                   map (\<lambda>s. s\<lparr>ps_id := ps_id s + (i + 1)\<rparr>) (parse_plan raw (fv_goal fv)),
                               fl_index := i + 1, fl_replans := fl_replans f2 + 1\<rparr>))
              else Inr (f2\<lparr>fl_index := i + 1\<rparr>))"

datatype 'a flow_end = Done 'a | Timed_Out 'a | Failed_With string

fun run_flow_body :: "nat \<Rightarrow> 'a flow_env \<Rightarrow> 'a flow \<Rightarrow> ('a flow) flow_end" where
  "run_flow_body n fv f =
     (if fl_index f \<ge> length (fl_steps f) then Done f
      else case n of
        0 \<Rightarrow> Timed_Out f
      | Suc k \<Rightarrow> (case flow_iteration fv f of Inl ex \<Rightarrow> Failed_With ex | Inr f1 \<Rightarrow> run_flow_body k fv f1))"

declare run_flow_body.simps [simp del]

definition start_flow :: "plan_step list \<Rightarrow> 'a flow" where
  "start_flow steps = \<lparr>fl_steps = steps, fl_index = 0, fl_results = [], fl_manus = None, fl_data = None, fl_replans = 0\<rparr>"

definition run_flow :: "nat \<Rightarrow> 'a flow_env \<Rightarrow> string \<Rightarrow> ('a flow) flow_end" where
  "run_flow timeout fv raw = run_flow_body timeout fv (start_flow (parse_plan raw (fv_goal fv)))"

definition success_rate :: "flow_step_result list \<Rightarrow> real" where
  "success_rate rs =
     (if rs = [] then 0 else real (length (filter (\<lambda>r. fr_status r = COMPLETED) rs)) / real (length rs))"

definition avg_success_score :: "flow_step_result list \<Rightarrow> real" where
  "avg_success_score rs =
     (let done = filter (\<lambda>r. fr_status r = COMPLETED) rs
      in if done = [] then 0 else sum_list (map fr_score done) / real (length done))"


section \<open>Bounds\<close>

lemma score_result_range: "0 \<le> score_result r c \<and> score_result r c \<le> 1"
proof -
  have "0 \<le> round2 x \<and> round2 x \<le> 1" if "0 \<le> x" "x \<le> 1" for x
    using py_round_range [of "x * 100" 100] that by (simp add: round2_def)
  moreover have "length (filter P xs) \<le> length xs" for P and xs :: "string list" by (rule length_filter_le)
  ultimately show ?thesis by (auto simp: score_result_def Let_def divide_simps)
qed

definition plan_ok :: "plan_step list \<Rightarrow> bool" where
  "plan_ok steps \<longleftrightarrow> map ps_id steps = [0..<length steps] \<and>
     (\<forall>s \<in> set steps. ps_status s = NOT_STARTED \<and> ps_description s \<noteq> [])"

lemma parse_lines_ok: "plan_ok steps \<Longrightarrow> plan_ok (parse_lines ls steps)"
proof (induction ls arbitrary: steps)
  case (Cons l ls)
  have "plan_ok (steps @ [\<lparr>ps_id = length steps, ps_description = d, ps_status = NOT_STARTED, ps_criteria = c, ps_score = 0\<rparr>])"
    if "d \<noteq> []" for d c
    using Cons.prems that by (auto simp: plan_ok_def)
  thus ?case using Cons by (simp add: Let_def split_beta)
qed simp

lemma parse_plan_ok:
  "s \<in> set (parse_plan raw goal) \<Longrightarrow> ps_status s = NOT_STARTED"
  using parse_lines_ok [of "[]" "split_lines [] (strip raw)"] by (auto simp: parse_plan_def Let_def plan_ok_def split: if_splits)

text \<open>Whatever the planner answers, the parsed plan has at least one step, its steps are numbered from
  0, none is started, and, unless it is the goal itself, every step has a description.\<close>

theorem parse_plan_well_formed:
  "parse_plan raw goal \<noteq> [] \<and> map ps_id (parse_plan raw goal) = [0..<length (parse_plan raw goal)] \<and>
   (\<forall>s \<in> set (parse_plan raw goal). ps_status s = NOT_STARTED \<and> (ps_description s \<noteq> [] \<or> goal = []))"
  using parse_lines_ok [of "[]" "split_lines [] (strip raw)"] by (simp add: parse_plan_def Let_def plan_ok_def)

theorem parse_plan_well_formed_witness:
  "parse_plan (''1. Find data (a source is named)'' @ [CHR 0x0A] @ ''- Write it'') ''g'' =
     [\<lparr>ps_id = 0, ps_description = ''Find data'', ps_status = NOT_STARTED, ps_criteria = Some ''a source is named'', ps_score = 0\<rparr>,
      \<lparr>ps_id = 1, ps_description = ''Write it'', ps_status = NOT_STARTED, ps_criteria = None, ps_score = 0\<rparr>] \<and>
   parse_plan [] ''g'' \<noteq> []"
  using parse_plan_well_formed [of "[]" "''g''"] by code_simp

section \<open>Agents that run once\<close>

definition used :: "('a \<Rightarrow> bool) \<Rightarrow> 'a option \<Rightarrow> nat" where
  "used idle x = (case x of None \<Rightarrow> 0 | Some a \<Rightarrow> if idle a then 0 else 1)"

definition completed :: "'a flow \<Rightarrow> nat" where
  "completed f = length (filter (\<lambda>r. fr_status r = COMPLETED) (fl_results f))"

definition spent :: "('a \<Rightarrow> bool) \<Rightarrow> 'a flow \<Rightarrow> bool" where
  "spent idle f \<longleftrightarrow> completed f \<le> used idle (fl_manus f) + used idle (fl_data f)"

text \<open>What an agent promises that refuses to run unless idle and is never idle after a run.\<close>

definition stuck :: "('a \<Rightarrow> bool) \<Rightarrow> 'a flow \<Rightarrow> bool" where
  "stuck idle f \<longleftrightarrow> (\<exists>a. fl_manus f = Some a \<and> \<not> idle a) \<and> fl_index f + 2 \<le> length (fl_steps f) \<and>
     (\<forall>i. fl_index f \<le> i \<longrightarrow> i < length (fl_steps f) \<longrightarrow> ps_status (fl_steps f ! i) \<noteq> COMPLETED)"

text \<open>A planner that always answers, with two steps or more.\<close>

definition long_planner :: "'a flow_env \<Rightarrow> bool" where
  "long_planner fv \<longleftrightarrow> (\<forall>n ctx rest. \<exists>raw. fv_replan fv n ctx rest = Inr raw \<and> 2 \<le> length (parse_plan raw (fv_goal fv)))"

locale single_use =
  fixes idle :: "'a \<Rightarrow> bool" and arun :: "'a agent_run"
  assumes runs_idle: "fst (arun a p) = Inr r \<Longrightarrow> idle a"
    and used_up: "\<not> idle (snd (arun a p))"
begin

lemma answers_idle: "\<not> isl (fst (arun a p)) \<Longrightarrow> idle a"
  by (cases "fst (arun a p)") (auto dest: runs_idle)

lemma used_le: "used idle x \<le> 1"
  by (simp add: used_def split: option.split)

lemma run_selected_used:
  assumes "run_selected fv kind p f = (res, f')" "fv_run fv = arun"
  shows "fl_results f' = fl_results f \<and> fl_steps f' = fl_steps f \<and> fl_index f' = fl_index f \<and>
     fl_replans f' = fl_replans f \<and>
     used idle (fl_manus f) + used idle (fl_data f) + (if isl res then 0 else 1) \<le> used idle (fl_manus f') + used idle (fl_data f')"
proof (cases kind)
  case Manus_Agent
  define a where "a = (case fl_manus f of Some a \<Rightarrow> a | None \<Rightarrow> fv_new_manus fv)"
  have out: "res = fst (arun a p)" "f' = f\<lparr>fl_manus := Some (snd (arun a p))\<rparr>"
    using assms Manus_Agent by (simp_all add: run_selected_def a_def split_beta split: option.splits)
  have "\<not> isl res \<Longrightarrow> used idle (fl_manus f) = 0"
    using answers_idle [of a p] out(1) by (auto simp: used_def a_def split: option.splits)
  thus ?thesis using out used_up [of a p] used_le [of "fl_manus f"] by (auto simp: used_def)
next
  case Data_Agent
  define a where "a = (case fl_data f of Some a \<Rightarrow> a | None \<Rightarrow> fv_new_data fv)"
  have out: "res = fst (arun a p)" "f' = f\<lparr>fl_data := Some (snd (arun a p))\<rparr>"
    using assms Data_Agent by (simp_all add: run_selected_def a_def split_beta split: option.splits)
  have "\<not> isl res \<Longrightarrow> used idle (fl_data f) = 0"
    using answers_idle [of a p] out(1) by (auto simp: used_def a_def split: option.splits)
  thus ?thesis using out used_up [of a p] used_le [of "fl_data f"] by (auto simp: used_def)
qed

lemma attempt_step_used:
  assumes "attempt_step fv s f = ((res, err, n), f')" "fv_run fv = arun"
  shows "fl_results f' = fl_results f \<and> fl_steps f' = fl_steps f \<and> fl_index f' = fl_index f \<and>
     fl_replans f' = fl_replans f \<and>
     used idle (fl_manus f) + used idle (fl_data f) + (if res = None then 0 else 1) \<le> used idle (fl_manus f') + used idle (fl_data f')"
proof -
  obtain r1 f1 where one: "run_selected fv (select_agent fv s False) (ps_description s) f = (r1, f1)" by force
  obtain r2 f2 where two: "run_selected fv (select_agent fv s True) (retry_prompt (ps_description s)) f1 = (r2, f2)" by force
  show ?thesis
    using run_selected_used [OF one assms(2)] run_selected_used [OF two assms(2)] assms(1) one two
    by (cases r1; cases r2) (auto simp: attempt_step_def)
qed

lemma flow_iteration_spent:
  assumes "spent idle f" "fv_run fv = arun" "flow_iteration fv f = Inr f'"
  shows "spent idle f'"
proof (cases "ps_status (fl_steps f ! fl_index f) = COMPLETED")
  case True
  thus ?thesis using assms by (auto simp: flow_iteration_def spent_def completed_def)
next
  case False
  obtain res err n f1 where one: "attempt_step fv (fl_steps f ! fl_index f) f = ((res, err, n), f1)"
    by (metis prod_cases4 surj_pair)
  note u = attempt_step_used [OF one assms(2)]
  have "fl_manus f' = fl_manus f1" "fl_data f' = fl_data f1"
    "completed f' = completed f1 + (if res = None then 0 else 1)"
    using assms(3) False one by (auto simp: flow_iteration_def Let_def completed_def split: if_splits sum.splits)
  moreover have "completed f1 = completed f" using u by (simp add: completed_def)
  ultimately show ?thesis using u assms(1) by (auto simp: spent_def)
qed

lemma run_flow_body_spent:
  assumes "spent idle f" "fv_run fv = arun"
  shows "case run_flow_body n fv f of Done f' \<Rightarrow> spent idle f' | Timed_Out f' \<Rightarrow> spent idle f' | Failed_With _ \<Rightarrow> True"
  using assms(1)
proof (induction n arbitrary: f)
  case 0
  thus ?case by (simp add: run_flow_body.simps)
next
  case (Suc n)
  show ?case
  proof (cases "flow_iteration fv f")
    case (Inr f1)
    thus ?thesis using Suc.IH [OF flow_iteration_spent [OF Suc.prems assms(2) Inr]] Suc.prems
      by (simp add: run_flow_body.simps [of "Suc n"])
  qed (use Suc.prems in \<open>simp add: run_flow_body.simps [of "Suc n"]\<close>)
qed

lemma at_most_two_completed:
  assumes "fv_run fv = arun"
  shows "case run_flow n fv raw of
      Done f \<Rightarrow> completed f \<le> 2 | Timed_Out f \<Rightarrow> completed f \<le> 2 | Failed_With _ \<Rightarrow> True"
proof -
  have "spent idle (start_flow steps)" for steps by (simp add: spent_def start_flow_def completed_def)
  note fin = run_flow_body_spent [OF this assms, of n "parse_plan raw (fv_goal fv)", folded run_flow_def]
  have "spent idle f \<Longrightarrow> completed f \<le> 2" for f :: "'a flow"
    using used_le [of "fl_manus f"] used_le [of "fl_data f"] by (simp add: spent_def)
  thus ?thesis using fin by (auto split: flow_end.splits)
qed

text \<open>A used-up agent in the cache and two or more steps left: the next step is blocked and replanned.\<close>

lemma stuck_iteration:
  assumes "stuck idle f" "fv_run fv = arun" "\<not> fv_enable_data fv" "long_planner fv"
  shows "\<exists>f'. flow_iteration fv f = Inr f' \<and> stuck idle f'"
proof -
  let ?i = "fl_index f"
  let ?s = "fl_steps f ! ?i"
  obtain a where a: "fl_manus f = Some a" "\<not> idle a" using assms(1) by (auto simp: stuck_def)
  have i: "?i + 2 \<le> length (fl_steps f)" "ps_status ?s \<noteq> COMPLETED" using assms(1) by (auto simp: stuck_def)
  have fails: "\<exists>e b. run_selected fv (select_agent fv s safe) p g = (Inl e, g\<lparr>fl_manus := Some b\<rparr>) \<and> \<not> idle b"
    if "fl_manus g = Some c" "\<not> idle c" for s safe p g c
    using answers_idle [of c p] used_up [of c p] that assms(2,3)
    by (cases "fst (arun c p)") (auto simp: select_agent_def run_selected_def split_beta)
  obtain e1 b1 where one: "run_selected fv (select_agent fv ?s False) (ps_description ?s) f = (Inl e1, f\<lparr>fl_manus := Some b1\<rparr>)"
      "\<not> idle b1" using fails [OF a] by blast
  obtain e2 b2 where two: "run_selected fv (select_agent fv ?s True) (retry_prompt (ps_description ?s)) (f\<lparr>fl_manus := Some b1\<rparr>) =
      (Inl e2, f\<lparr>fl_manus := Some b2\<rparr>)" "\<not> idle b2"
    using fails [of "f\<lparr>fl_manus := Some b1\<rparr>" b1] one(2) by fastforce
  have att: "attempt_step fv ?s f = ((None, Some e2, 2), f\<lparr>fl_manus := Some b2\<rparr>)"
    using one(1) two(1) by (simp add: attempt_step_def)
  obtain raw where raw: "fv_replan fv (fl_replans f) (map ps_description (filter (\<lambda>s. ps_status s = COMPLETED) (take ?i (fl_steps f))))
      (drop (?i + 1) (fl_steps f)) = Inr raw" "2 \<le> length (parse_plan raw (fv_goal fv))"
    using assms(4) unfolding long_planner_def by blast
  define new where "new = map (\<lambda>s. s\<lparr>ps_id := ps_id s + (?i + 1)\<rparr>) (parse_plan raw (fv_goal fv))"
  have new: "2 \<le> length new" "\<forall>s \<in> set new. ps_status s = NOT_STARTED"
    using raw(2) parse_plan_ok [of _ raw "fv_goal fv"] by (auto simp: new_def)
  let ?s1 = "?s\<lparr>ps_status := BLOCKED, ps_score := ps_score ?s\<rparr>"
  have "take ?i ((fl_steps f)[?i := x]) = take ?i (fl_steps f)" "drop (?i + 1) ((fl_steps f)[?i := x]) = drop (?i + 1) (fl_steps f)" for x
    by simp_all
  hence it: "flow_iteration fv f = Inr (f\<lparr>fl_manus := Some b2,
      fl_results := fl_results f @ [\<lparr>fr_step_id = ps_id ?s, fr_description = ps_description ?s, fr_status = BLOCKED,
        fr_output = [], fr_error = Some e2, fr_attempts = 2, fr_score = 0\<rparr>],
      fl_steps := take (?i + 1) ((fl_steps f)[?i := ?s1]) @ new, fl_index := ?i + 1, fl_replans := fl_replans f + 1\<rparr>)"
    using i att raw(1) by (simp add: flow_iteration_def Let_def new_def)
  have "stuck idle (f\<lparr>fl_manus := Some b2, fl_results := rs,
      fl_steps := take (?i + 1) ((fl_steps f)[?i := ?s1]) @ new, fl_index := ?i + 1, fl_replans := fl_replans f + 1\<rparr>)"
    for rs using two(2) new i(1) by (auto simp: stuck_def nth_append)
  thus ?thesis using it by blast
qed

lemma stuck_never_done:
  assumes "stuck idle f" "fv_run fv = arun" "\<not> fv_enable_data fv" "long_planner fv"
  shows "\<exists>f'. run_flow_body n fv f = Timed_Out f'"
  using assms(1)
proof (induction n arbitrary: f)
  case 0
  thus ?case by (auto simp: run_flow_body.simps [of 0] stuck_def)
next
  case (Suc n)
  obtain f' where "flow_iteration fv f = Inr f'" "stuck idle f'" using stuck_iteration [OF Suc.prems assms(2-4)] by blast
  moreover have "\<not> fl_index f \<ge> length (fl_steps f)" using Suc.prems by (auto simp: stuck_def)
  ultimately show ?case using Suc.IH by (simp add: run_flow_body.simps [of "Suc n"])
qed

text \<open>The first iteration uses the agent up, whatever it answers, and leaves two steps.\<close>

lemma run_selected_manus:
  "\<exists>r b. run_selected fv Manus_Agent p f = (r, f\<lparr>fl_manus := Some b\<rparr>) \<and> \<not> idle b" if "fv_run fv = arun"
  using that used_up [of "case fl_manus f of Some a \<Rightarrow> a | None \<Rightarrow> fv_new_manus fv" p]
  by (auto simp: run_selected_def split_beta)

lemma attempt_manus:
  assumes "fv_run fv = arun" "\<not> fv_enable_data fv"
  shows "\<exists>res err n b. attempt_step fv s f = ((res, err, n), f\<lparr>fl_manus := Some b\<rparr>) \<and> \<not> idle b"
proof -
  have kind: "select_agent fv s safe = Manus_Agent" for safe using assms(2) by (simp add: select_agent_def)
  obtain r1 b1 where one: "run_selected fv Manus_Agent (ps_description s) f = (r1, f\<lparr>fl_manus := Some b1\<rparr>)" "\<not> idle b1"
    using run_selected_manus [OF assms(1)] by blast
  obtain r2 b2 where two: "run_selected fv Manus_Agent (retry_prompt (ps_description s)) (f\<lparr>fl_manus := Some b1\<rparr>) =
      (r2, f\<lparr>fl_manus := Some b1\<rparr>\<lparr>fl_manus := Some b2\<rparr>)" "\<not> idle b2"
    using run_selected_manus [OF assms(1)] by blast
  show ?thesis using one two by (cases r1; cases r2) (auto simp: attempt_step_def kind)
qed

lemma first_iteration_stuck:
  assumes "fv_run fv = arun" "\<not> fv_enable_data fv" "long_planner fv" "3 \<le> length steps"
    and new: "\<forall>s \<in> set steps. ps_status s = NOT_STARTED"
  shows "\<exists>f. flow_iteration fv (start_flow steps) = Inr f \<and> stuck idle f"
proof -
  obtain res err n b where att: "attempt_step fv (steps ! 0) (start_flow steps) =
      ((res, err, n), (start_flow steps)\<lparr>fl_manus := Some b\<rparr>)" "\<not> idle b"
    using attempt_manus [OF assms(1,2)] by blast
  have later: "\<forall>i < length steps. ps_status (steps ! i) \<noteq> COMPLETED" using new nth_mem by fastforce
  have "0 < length steps" using assms(4) by linarith
  hence first: "ps_status (steps ! 0) \<noteq> COMPLETED" using later by simp
  obtain raw where raw: "fv_replan fv 0 [] (drop 1 steps) = Inr raw" "2 \<le> length (parse_plan raw (fv_goal fv))"
    using assms(3) unfolding long_planner_def by blast
  let ?new = "map (\<lambda>s. s\<lparr>ps_id := ps_id s + 1\<rparr>) (parse_plan raw (fv_goal fv))"
  have steps: "drop (Suc 0) (steps[0 := x]) = drop 1 steps" "take (Suc 0) (steps[0 := x]) = [x]" for x
    using assms(4) by (cases steps; simp)+
  have rest: "drop 1 steps \<noteq> []" using assms(4) by simp
  note sim = att(1) first raw(1) steps rest
  have "\<exists>f. flow_iteration fv (start_flow steps) = Inr f"
    using sim by (cases "res = None") (auto simp: flow_iteration_def start_flow_def Let_def split: if_splits)
  then obtain f where it: "flow_iteration fv (start_flow steps) = Inr f" ..
  have at1: "fl_index f = 1" "fl_manus f = Some b" "(\<exists>x. fl_steps f = steps[0 := x]) \<or> (\<exists>x. fl_steps f = x # ?new)"
    using it sim by (cases "res = None"; force simp: flow_iteration_def start_flow_def Let_def split: if_splits)+
  then obtain x where f: "flow_iteration fv (start_flow steps) = Inr f" "fl_index f = 1" "fl_manus f = Some b"
      "fl_steps f = steps[0 := x] \<or> fl_steps f = x # ?new"
    using it by blast
  have "\<forall>s \<in> set ?new. ps_status s = NOT_STARTED" using parse_plan_ok [of _ raw "fv_goal fv"] by auto
  hence "\<forall>i < length ?new. ps_status (?new ! i) \<noteq> COMPLETED" using nth_mem by fastforce
  hence "\<forall>i. 1 \<le> i \<longrightarrow> i < length (fl_steps f) \<longrightarrow> ps_status (fl_steps f ! i) \<noteq> COMPLETED"
    using f(4) later by (auto simp: nth_Cons')
  moreover have "3 \<le> length (fl_steps f)" using f(4) raw(2) assms(4) by auto
  ultimately have "stuck idle f" using f(2,3) att(2) by (simp add: stuck_def)
  thus ?thesis using f(1) by blast
qed

lemma never_done:
  assumes "fv_run fv = arun" "\<not> fv_enable_data fv" "long_planner fv" "3 \<le> length (parse_plan raw (fv_goal fv))"
  shows "\<exists>f. run_flow n fv raw = Timed_Out f"
proof (cases n)
  case 0
  thus ?thesis using assms(4) by (auto simp: run_flow_def run_flow_body.simps [of 0] start_flow_def)
next
  case (Suc k)
  obtain f where f: "flow_iteration fv (start_flow (parse_plan raw (fv_goal fv))) = Inr f" "stuck idle f"
    using first_iteration_stuck [OF assms] parse_plan_ok by blast
  have "fl_index (start_flow (parse_plan raw (fv_goal fv)) :: 'a flow) = 0"
    "fl_steps (start_flow (parse_plan raw (fv_goal fv)) :: 'a flow) = parse_plan raw (fv_goal fv)"
    by (simp_all add: start_flow_def)
  moreover have "\<not> length (parse_plan raw (fv_goal fv)) \<le> 0" using assms(4) by linarith
  ultimately show ?thesis using stuck_never_done [OF f(2) assms(1-3), of k] f(1) Suc
    by (simp only: run_flow_def run_flow_body.simps [of "Suc k"]) simp
qed

end

text \<open>An agent of the loop that refuses to run unless idle, and is not idle after any run.\<close>

abbreviation is_idle :: "agent \<Rightarrow> bool" where
  "is_idle a \<equiv> ag_state a = IDLE"

interpretation manus_flow: single_use is_idle "\<lambda>a p. run (manus_step check env) env ri p a" for check env ri
  by unfold_locales (rule ccontr, simp add: run_def, rule manus.run_uses_up)

section \<open>What a flow can achieve\<close>

text \<open>C19: However many steps the plan has and however long it may run, at most two steps of a flow complete:
  the cached agents are reused, and an agent that has run refuses to run again.\<close>

theorem planning_flow_completes_at_most_two:
  assumes "fv_run fv = (\<lambda>a p. run (manus_step check env) env ri p a)"
    "run_flow n fv raw = Done f \<or> run_flow n fv raw = Timed_Out f"
  shows "completed f \<le> 2"
  using manus_flow.at_most_two_completed [OF assms(1), of n raw] assms(2) by auto

text \<open>Without the data-analysis agent, a plan of three or more steps whose planner always offers two more
  is never finished: every later step is blocked and replanned, until the time-out.\<close>

theorem planning_flow_never_ends:
  assumes "fv_run fv = (\<lambda>a p. run (manus_step check env) env ri p a)"
    "\<not> fv_enable_data fv" "long_planner fv" "3 \<le> length (parse_plan raw (fv_goal fv))"
  shows "\<exists>f. run_flow n fv raw = Timed_Out f"
  by (rule manus_flow.never_done [OF assms])

subsection \<open>A small flow\<close>

definition demo_plan :: string where
  "demo_plan = ''1. a'' @ [CHR 0x0A] @ ''2. b'' @ [CHR 0x0A] @ ''3. c''"

definition demo_flow :: "agent flow_env" where
  "demo_flow = \<lparr>fv_run = (\<lambda>a p. run (manus_step (\<lambda>_. [CHR 0x67]) demo_env) demo_env demo_input p a),
     fv_new_manus = demo_new, fv_new_data = demo_new, fv_enable_data = False, fv_goal = ''g'', fv_threshold = 0,
     fv_replan = (\<lambda>_ _ _. Inr demo_plan)\<rparr>"

lemma demo_plan_length: "length (parse_plan demo_plan ''g'') = 3"
  by code_simp

lemma demo_long: "long_planner demo_flow"
  by (simp add: long_planner_def demo_flow_def demo_plan_length)

theorem planning_flow_never_ends_witness:
  "\<exists>f. run_flow 3600 demo_flow demo_plan = Timed_Out f"
  by (rule planning_flow_never_ends [OF _ _ demo_long]) (simp_all add: demo_flow_def demo_plan_length)

lemma demo_flow_run: "\<exists>f. run_flow 2 demo_flow demo_plan = Timed_Out f"
  by (rule manus_flow.never_done [OF _ _ demo_long]) (simp_all add: demo_flow_def demo_plan_length)

theorem planning_flow_completes_at_most_two_witness:
  "\<exists>f. run_flow 2 demo_flow demo_plan = Timed_Out f \<and> completed f \<le> 2"
proof -
  obtain f where "run_flow 2 demo_flow demo_plan = Timed_Out f" using demo_flow_run ..
  thus ?thesis
    using planning_flow_completes_at_most_two [of demo_flow "\<lambda>_. [CHR 0x67]" demo_env demo_input 2 demo_plan f]
    by (simp add: demo_flow_def)
qed

end
