(* ===== verification/Json.thy ===== *)
theory Json
  imports Py_Text
begin

text \<open>
  \<open>json.loads\<close> and \<open>json.dumps\<close> of the Python library, as far as the program uses them: objects are dicts in
  insertion order, integers are unbounded, a float is kept as it is written, text has code points below 256
  (an escape of a larger one is refused).  The theorem \<open>loads_dumps\<close> is the round trip, \<open>loads_ok\<close> says that
  every parsed value is well formed.
\<close>

datatype json =
  JNull | JBool bool | JInt int | JFloat string | JStr string | JArr "json list" | JObj "(string \<times> json) list"

type_synonym jdict = "(string \<times> json) list"

section \<open>Printing\<close>

definition hex_digit :: "nat \<Rightarrow> char" where
  "hex_digit k = char_of (if k < 10 then 48 + k else 87 + k)"

definition esc :: "char \<Rightarrow> string" where
  "esc c =
     (if c = CHR 0x22 then [CHR 0x5C, CHR 0x22]
      else if c = CHR 0x5C then [CHR 0x5C, CHR 0x5C]
      else if c = CHR 0x0A then [CHR 0x5C, CHR ''n'']
      else if c = CHR 0x0D then [CHR 0x5C, CHR ''r'']
      else if c = CHR 0x09 then [CHR 0x5C, CHR ''t'']
      else if c = CHR 0x0C then [CHR 0x5C, CHR ''f'']
      else if c = CHR 0x08 then [CHR 0x5C, CHR ''b'']
      else let n = of_char c :: nat
           in if 32 \<le> n \<and> n \<le> 126 then [c]
              else [CHR 0x5C, CHR ''u'', CHR ''0'', CHR ''0'', hex_digit (n div 16), hex_digit (n mod 16)])"

definition quote :: "string \<Rightarrow> string" where
  "quote s = CHR 0x22 # concat (map esc s) @ [CHR 0x22]"

fun dumps :: "json \<Rightarrow> string" where
  "dumps JNull = ''null''"
| "dumps (JBool b) = (if b then ''true'' else ''false'')"
| "dumps (JInt i) = show_int i"
| "dumps (JFloat s) = s"
| "dumps (JStr s) = quote s"
| "dumps (JArr xs) = CHR ''['' # join '', '' (map dumps xs) @ '']''"
| "dumps (JObj kvs) = CHR 0x7B # join '', '' (map (\<lambda>(k, v). quote k @ '': '' @ dumps v) kvs) @ [CHR 0x7D]"

section \<open>Parsing\<close>

definition skip_ws :: "string \<Rightarrow> string" where
  "skip_ws = dropWhile (\<lambda>c. c \<in> {CHR '' '', CHR 0x09, CHR 0x0A, CHR 0x0D})"

definition hex_value :: "char \<Rightarrow> nat option" where
  "hex_value c =
     (let n = of_char c in
      if 48 \<le> n \<and> n \<le> 57 then Some (n - 48)
      else if 97 \<le> n \<and> n \<le> 102 then Some (n - 87)
      else if 65 \<le> n \<and> n \<le> 70 then Some (n - 55) else None)"

definition hex_char :: "string \<Rightarrow> char option" where
  "hex_char s =
     (case map hex_value s of
        [Some 0, Some 0, Some a, Some b] \<Rightarrow> Some (char_of (16 * a + b))
      | _ \<Rightarrow> None)"

definition simple_escape :: "char \<Rightarrow> char option" where
  "simple_escape e =
     (if e \<in> {CHR 0x22, CHR 0x5C, CHR ''/''} then Some e
      else map_of [(CHR ''n'', CHR 0x0A), (CHR ''r'', CHR 0x0D), (CHR ''t'', CHR 0x09),
                   (CHR ''f'', CHR 0x0C), (CHR ''b'', CHR 0x08)] e)"

fun p_string :: "string \<Rightarrow> string \<Rightarrow> (string \<times> string) option" where
  "p_string acc [] = None"
| "p_string acc (c # cs) =
     (if c = CHR 0x22 then Some (rev acc, cs)
      else if c = CHR 0x5C
      then (case cs of
              [] \<Rightarrow> None
            | e # r \<Rightarrow>
                (case simple_escape e of
                   Some d \<Rightarrow> p_string (d # acc) r
                 | None \<Rightarrow> if e = CHR ''u''
                           then (case hex_char (take 4 r) of Some d \<Rightarrow> p_string (d # acc) (drop 4 r) | None \<Rightarrow> None)
                           else None))
      else if (of_char c :: nat) < 32 then None
      else p_string (c # acc) cs)"

text \<open>The optional fraction and exponent after the digits of a number.\<close>

definition fraction :: "string \<Rightarrow> string" where
  "fraction s =
     (case s of
        c # r \<Rightarrow> (let ds = takeWhile is_digit r in if c = CHR ''.'' \<and> ds \<noteq> [] then c # ds else [])
      | [] \<Rightarrow> [])"

definition exponent :: "string \<Rightarrow> string" where
  "exponent s =
     (case s of
        c # r \<Rightarrow>
          (let sg = takeWhile (\<lambda>c. c \<in> {CHR ''+'', CHR ''-''}) (take 1 r);
               ds = takeWhile is_digit (drop (length sg) r)
           in if c \<in> {CHR ''e'', CHR ''E''} \<and> ds \<noteq> [] then c # sg @ ds else [])
      | [] \<Rightarrow> [])"

definition digits :: "string \<Rightarrow> string" where
  "digits s = (let ds = takeWhile is_digit s in if ds \<noteq> [] \<and> hd ds = CHR ''0'' then ''0'' else ds)"

definition p_number :: "string \<Rightarrow> (json \<times> string) option" where
  "p_number s =
     (let sg = takeWhile (\<lambda>c. c = CHR ''-'') (take 1 s);
          r0 = drop (length sg) s;
          ds = digits r0;
          r1 = drop (length ds) r0;
          fr = fraction r1;
          r2 = drop (length fr) r1;
          ex = exponent r2;
          r3 = drop (length ex) r2
      in if ds = [] then None
         else if fr = [] \<and> ex = [] then Some (JInt (if sg = [] then int (read_nat ds) else - int (read_nat ds)), r3)
         else Some (JFloat (sg @ ds @ fr @ ex), r3))"

definition constants :: "(string \<times> json) list" where
  "constants = [(''null'', JNull), (''true'', JBool True), (''false'', JBool False), (''NaN'', JFloat ''NaN''),
     (''Infinity'', JFloat ''Infinity''), (''-Infinity'', JFloat ''-Infinity'')]"

fun p_constant :: "(string \<times> json) list \<Rightarrow> string \<Rightarrow> (json \<times> string) option" where
  "p_constant [] s = p_number s"
| "p_constant ((p, v) # cs) s = (case after_prefix p s of Some r \<Rightarrow> Some (v, r) | None \<Rightarrow> p_constant cs s)"

text \<open>Values, the elements of an array and the members of an object; \<open>n\<close> bounds the depth of the calls.\<close>

fun p_value :: "nat \<Rightarrow> string \<Rightarrow> (json \<times> string) option"
and p_elems :: "nat \<Rightarrow> json list \<Rightarrow> string \<Rightarrow> (json \<times> string) option"
and p_members :: "nat \<Rightarrow> jdict \<Rightarrow> string \<Rightarrow> (json \<times> string) option" where
  "p_value 0 s = None"
| "p_value (Suc n) s =
     (case s of
        [] \<Rightarrow> None
      | c # cs \<Rightarrow>
          if c = CHR 0x22 then (case p_string [] cs of Some (t, r) \<Rightarrow> Some (JStr t, r) | None \<Rightarrow> None)
          else if c = CHR ''[''
          then (case after_prefix '']'' (skip_ws cs) of Some r \<Rightarrow> Some (JArr [], r) | None \<Rightarrow> p_elems n [] (skip_ws cs))
          else if c = CHR 0x7B
          then (case after_prefix [CHR 0x7D] (skip_ws cs) of
                  Some r \<Rightarrow> Some (JObj [], r) | None \<Rightarrow> p_members n [] (skip_ws cs))
          else p_constant constants s)"
| "p_elems 0 acc s = None"
| "p_elems (Suc n) acc s =
     (case p_value n s of
        None \<Rightarrow> None
      | Some (v, r) \<Rightarrow>
          (case skip_ws r of
             [] \<Rightarrow> None
           | c # r1 \<Rightarrow> if c = CHR '','' then p_elems n (acc @ [v]) (skip_ws r1)
                       else if c = CHR '']'' then Some (JArr (acc @ [v]), r1) else None))"
| "p_members 0 acc s = None"
| "p_members (Suc n) acc s =
     (case after_prefix [CHR 0x22] s of
        None \<Rightarrow> None
      | Some s1 \<Rightarrow>
          (case p_string [] s1 of
             None \<Rightarrow> None
           | Some (k, r) \<Rightarrow>
               (case after_prefix '':'' (skip_ws r) of
                  None \<Rightarrow> None
                | Some r1 \<Rightarrow>
                    (case p_value n (skip_ws r1) of
                       None \<Rightarrow> None
                     | Some (v, r2) \<Rightarrow>
                         (case skip_ws r2 of
                            [] \<Rightarrow> None
                          | c # r3 \<Rightarrow>
                              if c = CHR '','' then p_members n (AList.update k v acc) (skip_ws r3)
                              else if c = CHR 0x7D then Some (JObj (AList.update k v acc), r3) else None)))))"

declare p_string.simps(2) [simp del] p_value.simps [simp del] p_elems.simps [simp del] p_members.simps [simp del]

definition loads :: "string \<Rightarrow> json option" where
  "loads s =
     (case p_value (2 * length s + 1) (skip_ws s) of
        Some (j, r) \<Rightarrow> if skip_ws r = [] then Some j else None
      | None \<Rightarrow> None)"

section \<open>Numbers\<close>

text \<open>What can follow a value.\<close>

definition stops :: "string \<Rightarrow> bool" where
  "stops r \<longleftrightarrow> r = [] \<or> hd r \<in> {CHR '','', CHR '']'', CHR 0x7D}"

definition number :: "string \<Rightarrow> string \<Rightarrow> string \<Rightarrow> string \<Rightarrow> json" where
  "number sg ds fr ex =
     (if fr = [] \<and> ex = [] then JInt (if sg = [] then int (read_nat ds) else - int (read_nat ds))
      else JFloat (sg @ ds @ fr @ ex))"

definition number_parts :: "string \<Rightarrow> string \<Rightarrow> string \<Rightarrow> string \<Rightarrow> bool" where
  "number_parts sg ds fr ex \<longleftrightarrow>
     sg \<in> {[], ''-''} \<and> ds \<noteq> [] \<and> digits ds = ds \<and> fraction fr = fr \<and> exponent ex = ex"

lemma take_one: "takeWhile P (take 1 r) = [] \<or> (\<exists>c r'. r = c # r' \<and> P c \<and> takeWhile P (take 1 r) = [c])"
  by (cases r) auto

lemma digits_cases: "digits s = takeWhile is_digit s \<or> (digits s = ''0'' \<and> takeWhile is_digit s \<noteq> [] \<and> hd (takeWhile is_digit s) = CHR ''0'')"
  by (simp add: digits_def Let_def)

lemma zero_digit [simp]: "is_digit (CHR ''0'')"
  by (simp add: is_digit_def)

lemma digits_prefix: "\<exists>r. s = digits s @ r"
proof (cases "digits s = takeWhile is_digit s")
  case True
  thus ?thesis by (metis takeWhile_dropWhile_id)
next
  case False
  hence "digits s = ''0''" "s \<noteq> []" "hd s = CHR ''0''" using digits_cases [of s] by (cases s; force split: if_splits)+
  thus ?thesis by (cases s) auto
qed

lemma digits_append: "digits ds = ds \<Longrightarrow> x = [] \<or> \<not> is_digit (hd x) \<Longrightarrow> digits (ds @ x) = ds"
  by (simp add: digits_def takeWhile_stop)

lemma digits_idem: "digits (digits s) = digits s"
  using digits_cases [of s] by (auto simp: digits_def Let_def)

lemma digits_digit: "digits ds = ds \<Longrightarrow> ds \<noteq> [] \<Longrightarrow> is_digit (hd ds)"
  using digits_cases [of ds] by (metis hd_in_set set_takeWhileD zero_digit list.sel(1))

lemma fraction_cases: "fraction s = [] \<or> (\<exists>ds. ds \<noteq> [] \<and> (\<forall>c \<in> set ds. is_digit c) \<and> fraction s = CHR ''.'' # ds)"
  by (cases s) (auto simp: fraction_def Let_def dest: set_takeWhileD)

lemma fraction_prefix: "\<exists>r. s = fraction s @ r"
  by (cases s) (auto simp: fraction_def Let_def intro: exI [of _ "dropWhile is_digit (tl s)"])

lemma fraction_append:
  "fraction fr = fr \<Longrightarrow> x = [] \<or> \<not> is_digit (hd x) \<and> hd x \<noteq> CHR ''.'' \<Longrightarrow> fraction (fr @ x) = fr"
  by (cases fr; cases x) (auto simp: fraction_def Let_def takeWhile_stop split: if_splits)

lemma fraction_of: "ds \<noteq> [] \<Longrightarrow> \<forall>c \<in> set ds. is_digit c \<Longrightarrow> fraction (CHR ''.'' # ds) = CHR ''.'' # ds"
  by (simp add: fraction_def takeWhile_eq_all_conv [THEN iffD2])

lemma fraction_idem: "fraction (fraction s) = fraction s"
proof -
  have "fraction [] = []" by (simp add: fraction_def)
  thus ?thesis using fraction_cases [of s] fraction_of by metis
qed

lemma exponent_cases:
  "exponent s = [] \<or> (\<exists>c sg ds. c \<in> {CHR ''e'', CHR ''E''} \<and> sg \<in> {[], ''+'', ''-''} \<and> ds \<noteq> [] \<and>
     (\<forall>c \<in> set ds. is_digit c) \<and> exponent s = c # sg @ ds \<and> (\<exists>r. s = c # sg @ ds @ r))"
proof (cases s)
  case (Cons c r)
  let ?sg = "takeWhile (\<lambda>c. c \<in> {CHR ''+'', CHR ''-''}) (take 1 r)"
  let ?ds = "takeWhile is_digit (drop (length ?sg) r)"
  have "r = ?sg @ drop (length ?sg) r" "?sg \<in> {[], ''+'', ''-''}"
    using take_one [of "\<lambda>c. c \<in> {CHR ''+'', CHR ''-''}" r] by auto
  moreover have "drop (length ?sg) r = ?ds @ dropWhile is_digit (drop (length ?sg) r)" by simp
  moreover have "exponent s = (if c \<in> {CHR ''e'', CHR ''E''} \<and> ?ds \<noteq> [] then c # ?sg @ ?ds else [])"
    using Cons by (simp add: exponent_def Let_def)
  moreover have "\<forall>c \<in> set ?ds. is_digit c" by (auto dest: set_takeWhileD)
  ultimately show ?thesis using Cons by (metis append_assoc)
qed (simp add: exponent_def)

lemma exponent_prefix: "\<exists>r. s = exponent s @ r"
  using exponent_cases [of s] by auto

lemma signs_no_digits: "\<not> is_digit (CHR ''+'')" "\<not> is_digit (CHR ''-'')"
  by (simp_all add: is_digit_def)

lemma exponent_of:
  assumes "c \<in> {CHR ''e'', CHR ''E''}" "sg \<in> {[], ''+'', ''-''}" "ds \<noteq> []" "\<forall>c \<in> set ds. is_digit c"
    "x = [] \<or> \<not> is_digit (hd x)"
  shows "exponent (c # sg @ ds @ x) = c # sg @ ds"
proof -
  have "takeWhile (\<lambda>c. c \<in> {CHR ''+'', CHR ''-''}) (take 1 (sg @ ds @ x)) = sg"
    using assms(2-4) signs_no_digits by (cases ds) auto
  moreover have "takeWhile is_digit (ds @ x) = ds" by (rule takeWhile_stop_all) (use assms in auto)
  ultimately show ?thesis using assms(1,3) by (simp add: exponent_def)
qed

lemma exponent_Nil [simp]: "exponent [] = []"
  by (simp add: exponent_def)

lemma exponent_idem: "exponent (exponent s) = exponent s"
  using exponent_cases [of s] exponent_of [of _ _ _ "[]"] exponent_Nil by (metis append_Nil2)

lemma stops_not_digit: "stops r \<Longrightarrow> r = [] \<or> \<not> is_digit (hd r) \<and> hd r \<notin> {CHR ''.'', CHR ''e'', CHR ''E''}"
  by (auto simp: stops_def is_digit_def)

lemma exponent_stops: "stops r \<Longrightarrow> exponent r = []"
  using stops_not_digit [of r] by (cases r) (auto simp: exponent_def)

lemma exponent_append:
  assumes "exponent ex = ex" "stops r"
  shows "exponent (ex @ r) = ex"
proof (cases "ex = []")
  case True
  thus ?thesis using exponent_stops [OF assms(2)] by simp
next
  case False
  then obtain c sg ds where p: "c \<in> {CHR ''e'', CHR ''E''}" "sg \<in> {[], ''+'', ''-''}" "ds \<noteq> []" "\<forall>c \<in> set ds. is_digit c"
    "ex = c # sg @ ds" using exponent_cases [of ex] assms(1) by metis
  have "r = [] \<or> \<not> is_digit (hd r)" using stops_not_digit [OF assms(2)] by blast
  thus ?thesis using exponent_of [OF p(1-4)] p(5) by simp
qed

lemma exponent_hd: "exponent ex = ex \<Longrightarrow> ex \<noteq> [] \<Longrightarrow> hd ex \<in> {CHR ''e'', CHR ''E''}"
  using exponent_cases [of ex] by (metis list.sel(1))

lemma fraction_hd: "fraction fr = fr \<Longrightarrow> fr \<noteq> [] \<Longrightarrow> hd fr = CHR ''.''"
  using fraction_cases [of fr] by (metis list.sel(1))

lemma p_number_compose:
  assumes "number_parts sg ds fr ex" "stops r"
  shows "p_number (sg @ ds @ fr @ ex @ r) = Some (number sg ds fr ex, r)"
proof -
  have parts: "sg \<in> {[], ''-''}" "ds \<noteq> []" "digits ds = ds" "fraction fr = fr" "exponent ex = ex"
    using assms(1) by (simp_all add: number_parts_def)
  have ex: "exponent (ex @ r) = ex" by (rule exponent_append [OF parts(5) assms(2)])
  have h: "ex @ r = [] \<or> \<not> is_digit (hd (ex @ r)) \<and> hd (ex @ r) \<noteq> CHR ''.''"
    using stops_not_digit [OF assms(2)] exponent_hd [OF parts(5)] by (cases "ex = []") (auto simp: is_digit_def)
  have fr: "fraction (fr @ ex @ r) = fr" by (rule fraction_append [OF parts(4) h])
  have "fr @ ex @ r = [] \<or> \<not> is_digit (hd (fr @ ex @ r))"
    using h fraction_hd [OF parts(4)] by (cases "fr = []") (auto simp: is_digit_def)
  hence ds: "digits (ds @ fr @ ex @ r) = ds" by (rule digits_append [OF parts(3)])
  have "hd ds \<noteq> CHR ''-''" using digits_digit [OF parts(3,2)] signs_no_digits by auto
  hence tw: "takeWhile (\<lambda>c. c = CHR ''-'') (take 1 (sg @ ds @ fr @ ex @ r)) = sg"
    using parts(1,2) by (cases ds) auto
  have drops: "drop (length a) (a @ b) = b" for a b :: string by simp
  show ?thesis using parts(2) unfolding p_number_def number_def tw Let_def drops ds fr ex by simp
qed

lemma p_number_parts:
  assumes "p_number s = Some (j, r)"
  shows "\<exists>sg ds fr ex. s = sg @ ds @ fr @ ex @ r \<and> number_parts sg ds fr ex \<and> j = number sg ds fr ex"
proof -
  define sg where "sg = takeWhile (\<lambda>c. c = CHR ''-'') (take 1 s)"
  define r0 where "r0 = drop (length sg) s"
  define r1 where "r1 = drop (length (digits r0)) r0"
  define r2 where "r2 = drop (length (fraction r1)) r1"
  have out: "digits r0 \<noteq> []" "j = number sg (digits r0) (fraction r1) (exponent r2)" "r = drop (length (exponent r2)) r2"
    using assms unfolding p_number_def number_def Let_def sg_def [symmetric] r0_def [symmetric] r1_def [symmetric] r2_def [symmetric]
    by (auto split: if_splits)
  have "s = sg @ r0" "sg \<in> {[], ''-''}" using take_one [of "\<lambda>c. c = CHR ''-''" s] by (auto simp: sg_def r0_def)
  moreover have "r0 = digits r0 @ r1" using digits_prefix [of r0] unfolding r1_def by (metis append_eq_conv_conj)
  moreover have "r1 = fraction r1 @ r2" using fraction_prefix [of r1] unfolding r2_def by (metis append_eq_conv_conj)
  moreover have "r2 = exponent r2 @ r" using exponent_prefix [of r2] unfolding out(3) by (metis append_eq_conv_conj)
  ultimately have "s = sg @ digits r0 @ fraction r1 @ exponent r2 @ r" "sg \<in> {[], ''-''}" by metis+
  thus ?thesis using out digits_idem fraction_idem exponent_idem
    by (intro exI [of _ sg] exI [of _ "digits r0"] exI [of _ "fraction r1"] exI [of _ "exponent r2"])
      (simp add: number_parts_def)
qed

lemma p_number_shorter: "p_number s = Some (j, r) \<Longrightarrow> length r < length s"
  using p_number_parts [of s j r] by (auto simp: number_parts_def)

section \<open>Well-formed values\<close>

definition float_ok :: "string \<Rightarrow> bool" where
  "float_ok t \<longleftrightarrow> t \<in> {''NaN'', ''Infinity'', ''-Infinity''} \<or> p_number t = Some (JFloat t, [])"

fun json_ok :: "json \<Rightarrow> bool" where
  "json_ok (JFloat t) \<longleftrightarrow> float_ok t"
| "json_ok (JArr xs) \<longleftrightarrow> (\<forall>x \<in> set xs. json_ok x)"
| "json_ok (JObj kvs) \<longleftrightarrow> distinct (map fst kvs) \<and> (\<forall>kv \<in> set kvs. json_ok (snd kv))"
| "json_ok _ \<longleftrightarrow> True"

lemma p_number_float: "p_number s = Some (JFloat t, r) \<Longrightarrow> float_ok t"
proof -
  assume a: "p_number s = Some (JFloat t, r)"
  then obtain sg ds fr ex where "number_parts sg ds fr ex" "JFloat t = number sg ds fr ex"
    using p_number_parts by blast
  moreover have "stops []" by (simp add: stops_def)
  ultimately have "p_number (sg @ ds @ fr @ ex) = Some (JFloat t, [])"
    using p_number_compose [of sg ds fr ex "[]"] by simp
  moreover have "t = sg @ ds @ fr @ ex" using \<open>JFloat t = _\<close> by (auto simp: number_def split: if_splits)
  ultimately show ?thesis by (simp add: float_ok_def)
qed

lemma p_number_ok: "p_number s = Some (j, r) \<Longrightarrow> json_ok j"
  using p_number_float [of s _ r] p_number_parts [of s j r] by (cases j) (auto simp: number_def split: if_splits)

lemma p_constant_ok: "p_constant constants s = Some (j, r) \<Longrightarrow> json_ok j \<and> length r < length s"
  using p_number_ok [of s j r] p_number_shorter [of s j r]
  by (auto simp: constants_def float_ok_def dest!: after_prefix_SomeD split: option.splits)

lemma skip_ws_length: "length (skip_ws s) \<le> length s"
  by (simp add: skip_ws_def length_dropWhile_le)

lemma p_string_shorter: "p_string acc s = Some (t, r) \<Longrightarrow> length r < length s"
proof (induction acc s rule: p_string.induct)
  case (2 acc c cs)
  note eq = "2.prems" [unfolded p_string.simps(2)]
  consider "c = CHR 0x22" | "c = CHR 0x5C" | "c \<noteq> CHR 0x22" "c \<noteq> CHR 0x5C" by blast
  thus ?case
  proof cases
    case 2
    then obtain e r' where e: "cs = e # r'" using eq by (cases cs) auto
    show ?thesis
    proof (cases "simple_escape e")
      case None
      then obtain d where "hex_char (take 4 r') = Some d" "p_string (d # acc) (drop 4 r') = Some (t, r)" "e = CHR ''u''"
        using eq 2 e by (auto split: if_splits option.splits)
      thus ?thesis using "2.IH"(1) [OF _ 2 e None, of d] 2 e by auto
    next
      case (Some d)
      thus ?thesis using "2.IH"(2) [OF _ 2 e Some] eq 2 e by auto
    qed
  qed (use eq "2.IH"(3) in \<open>auto split: if_splits\<close>)
qed simp

lemma parsed_ok:
  "p_value n s = Some (j, r) \<Longrightarrow> json_ok j \<and> length r < length s"
  "p_elems n xs s = Some (j, r) \<Longrightarrow> (\<forall>x \<in> set xs. json_ok x) \<Longrightarrow> json_ok j \<and> length r < length s"
  "p_members n kvs s = Some (j, r) \<Longrightarrow> json_ok (JObj kvs) \<Longrightarrow> json_ok j \<and> length r < length s"
proof (induction n s and n xs s and n kvs s arbitrary: j r and j r and j r rule: p_value_p_elems_p_members.induct)
  case (2 n s)
  show ?case
  proof (cases s)
    case (Cons c cs)
    have len: "length (skip_ws cs) < length s" using skip_ws_length [of cs] Cons by simp
    have pre: "\<And>p r. after_prefix p (skip_ws cs) = Some r \<Longrightarrow> length r < length s"
      using len by (auto dest!: after_prefix_SomeD)
    note val = 2(3) [unfolded Cons p_value.simps list.case]
    consider "c = CHR 0x22" | "c = CHR ''[''" | "c = CHR 0x7B" | "c \<notin> {CHR 0x22, CHR ''['', CHR 0x7B}" by blast
    thus ?thesis
    proof cases
      case 1
      thus ?thesis using val Cons by (auto split: option.splits dest: p_string_shorter)
    next
      case 2
      thus ?thesis using val pre len "2.IH"(1) [OF Cons _ 2] by (cases "after_prefix '']'' (skip_ws cs)") auto
    next
      case 3
      thus ?thesis using val pre len "2.IH"(2) [OF Cons _ _ 3]
        by (cases "after_prefix [CHR 0x7D] (skip_ws cs)") auto
    next
      case 4
      thus ?thesis using val Cons p_constant_ok [of s j r] by simp
    qed
  qed (use 2 in \<open>simp add: p_value.simps\<close>)
next
  case (4 n acc s)
  obtain v r' where v: "p_value n s = Some (v, r')" using 4(3) by (auto simp: p_elems.simps split: option.splits)
  have ok: "json_ok v" "length r' < length s" using 4(1) v by auto
  obtain c r1 where c: "skip_ws r' = c # r1" using 4(3) v by (auto simp: p_elems.simps split: list.splits)
  have len: "length (skip_ws r1) < length s" "length r1 < length s"
    using skip_ws_length [of r1] skip_ws_length [of r'] ok c by auto
  have acc: "\<forall>x \<in> set (acc @ [v]). json_ok x" using 4(4) ok by auto
  show ?case
  proof (cases "c = CHR '',''")
    case True
    hence "p_elems n (acc @ [v]) (skip_ws r1) = Some (j, r)" using 4(3) v c by (simp add: p_elems.simps)
    from 4(2) [OF v _ c True this acc] len show ?thesis by auto
  next
    case False
    thus ?thesis using 4(3) v c acc len by (auto simp: p_elems.simps split: if_splits)
  qed
next
  case (6 n acc s)
  obtain s1 k r' r1 where k: "after_prefix [CHR 0x22] s = Some s1" "p_string [] s1 = Some (k, r')"
      "after_prefix '':'' (skip_ws r') = Some r1"
    using 6(3) by (auto simp: p_members.simps split: option.splits)
  obtain v r2 where v: "p_value n (skip_ws r1) = Some (v, r2)"
    using 6(3) k by (auto simp: p_members.simps split: option.splits)
  obtain c r3 where c: "skip_ws r2 = c # r3" using 6(3) k v by (auto simp: p_members.simps split: list.splits)
  have ok: "json_ok v" "length r2 < length (skip_ws r1)" using 6(1) k v by auto
  have len: "length (skip_ws r3) < length s" "length r3 < length s"
    using skip_ws_length [of r3] skip_ws_length [of r2] skip_ws_length [of r1] skip_ws_length [of r'] ok c
      k(1,3) [THEN after_prefix_SomeD] p_string_shorter [OF k(2)] by auto
  have acc: "json_ok (JObj (AList.update k v acc))"
    using 6(4) ok(1) set_update_subset [of k v acc] by (auto intro: distinct_update)
  show ?case
  proof (cases "c = CHR '',''")
    case True
    hence "p_members n (AList.update k v acc) (skip_ws r3) = Some (j, r)" using 6(3) k v c by (simp add: p_members.simps)
    from 6(2) [OF k(1,2) _ k(3) v _ c True this acc] len show ?thesis by auto
  next
    case False
    thus ?thesis using 6(3) k v c acc len by (auto simp: p_members.simps split: if_splits)
  qed
qed (simp_all add: p_value.simps p_elems.simps p_members.simps)

theorem loads_ok: "loads s = Some j \<Longrightarrow> json_ok j"
  by (auto simp: loads_def split: option.splits if_splits dest: parsed_ok(1))

section \<open>The round trip\<close>

lemma hex_digits: "i < 16 \<Longrightarrow> j < 16 \<Longrightarrow>
    hex_char [CHR ''0'', CHR ''0'', hex_digit i, hex_digit j] = Some (char_of (16 * i + j))"
proof -
  have "hex_value (hex_digit k) = Some k" if "k < 16" for k
    using that by (simp add: hex_value_def hex_digit_def of_char_of take_bit_eq_mod)
  moreover have "hex_value (CHR ''0'') = Some 0" by (simp add: hex_value_def)
  ultimately show "i < 16 \<Longrightarrow> j < 16 \<Longrightarrow> ?thesis" by (simp add: hex_char_def)
qed

lemma esc_cases:
  obtains "esc c = [c]" "c \<notin> {CHR 0x22, CHR 0x5C}" "\<not> (of_char c :: nat) < 32"
  | e where "esc c = [CHR 0x5C, e]" "simple_escape e = Some c"
  | i j where "esc c = [CHR 0x5C, CHR ''u'', CHR ''0'', CHR ''0'', hex_digit i, hex_digit j]" "i < 16" "j < 16"
      "c = char_of (16 * i + j)"
proof (cases "c \<in> {CHR 0x22, CHR 0x5C, CHR 0x0A, CHR 0x0D, CHR 0x09, CHR 0x0C, CHR 0x08}")
  case True
  hence "\<exists>e. esc c = [CHR 0x5C, e] \<and> simple_escape e = Some c" by (auto simp: esc_def simple_escape_def)
  thus thesis using that(2) by blast
next
  case False
  define n where "n = (of_char c :: nat)"
  have esc: "esc c = (if 32 \<le> n \<and> n \<le> 126 then [c]
      else [CHR 0x5C, CHR ''u'', CHR ''0'', CHR ''0'', hex_digit (n div 16), hex_digit (n mod 16)])"
    using False by (simp add: esc_def n_def Let_def)
  have "n < 16 * 16" using nat_of_char_less_256 [of c] by (simp add: n_def)
  hence hex: "n div 16 < 16" "n mod 16 < 16" "c = char_of (16 * (n div 16) + n mod 16)"
    by (simp add: less_mult_imp_div_less, simp, simp add: n_def)
  show thesis
  proof (cases "32 \<le> n \<and> n \<le> 126")
    case True
    thus thesis using that(1) esc False by (simp add: n_def)
  next
    case out: False
    hence "esc c = [CHR 0x5C, CHR ''u'', CHR ''0'', CHR ''0'', hex_digit (n div 16), hex_digit (n mod 16)]"
      using esc by simp
    from that(3) [OF this hex] show thesis .
  qed
qed

lemma p_string_esc: "p_string acc (esc c @ r) = p_string (c # acc) r"
proof (cases c rule: esc_cases)
  case 3
  have "simple_escape (CHR ''u'') = None" by (simp add: simple_escape_def)
  thus ?thesis using 3 hex_digits [OF 3(2,3)] by (simp add: p_string.simps(2))
qed (auto simp: p_string.simps(2))

lemma p_string_escs: "p_string acc (concat (map esc t) @ CHR 0x22 # r) = Some (rev acc @ t, r)"
  by (induction t arbitrary: acc) (simp_all add: p_string.simps(2) [of _ "CHR 0x22"] p_string_esc)

lemma p_string_quote: "quote t @ r = CHR 0x22 # s \<Longrightarrow> p_string [] s = Some (t, r)"
  using p_string_escs [of "[]" t r] by (simp add: quote_def)

text \<open>The first character of a printed value.\<close>

definition starts_value :: "string \<Rightarrow> bool" where
  "starts_value s \<longleftrightarrow> s \<noteq> [] \<and> hd s \<notin> {CHR '' '', CHR 0x09, CHR 0x0A, CHR 0x0D, CHR '']'', CHR 0x7D}"

lemma starts_skip: "starts_value s \<Longrightarrow> skip_ws (s @ r) = s @ r"
  by (cases s) (auto simp: starts_value_def skip_ws_def)

lemma starts_number: "number_parts sg ds fr ex \<Longrightarrow> starts_value (sg @ ds @ x)"
  using digits_digit [of ds] by (auto simp: number_parts_def starts_value_def is_digit_def)

lemma float_ok_parts:
  "float_ok t \<Longrightarrow> t \<in> {''NaN'', ''Infinity'', ''-Infinity''} \<or>
     (\<exists>sg ds fr ex. number_parts sg ds fr ex \<and> t = sg @ ds @ fr @ ex \<and> number sg ds fr ex = JFloat t)"
  using p_number_parts [of t "JFloat t" "[]"] by (fastforce simp: float_ok_def)

lemma show_nat_parts: "sg \<in> {[], ''-''} \<Longrightarrow> number_parts sg (show_nat n) [] []"
proof -
  have tw: "takeWhile is_digit (show_nat n) = show_nat n" using show_nat_digits by (simp add: takeWhile_eq_all_conv)
  have "digits (show_nat n) = show_nat n" using show_nat_leading [of n] unfolding digits_def tw Let_def by auto
  thus "sg \<in> {[], ''-''} \<Longrightarrow> number_parts sg (show_nat n) [] []" by (simp add: number_parts_def fraction_def)
qed

lemma show_int_parts:
  obtains sg n where "show_int i = sg @ show_nat n" "sg \<in> {[], ''-''}" "number sg (show_nat n) [] [] = JInt i"
proof (cases "i < 0")
  case True
  thus thesis using that [of "''-''" "nat (- i)"] by (simp add: show_int_def number_def)
next
  case False
  thus thesis using that [of "[]" "nat i"] by (simp add: show_int_def number_def)
qed

lemma starts_dumps: "json_ok j \<Longrightarrow> starts_value (dumps j)"
proof (cases j)
  case (JInt i)
  obtain sg n where i: "show_int i = sg @ show_nat n" "sg \<in> {[], ''-''}" by (rule show_int_parts)
  thus ?thesis using JInt starts_number [OF show_nat_parts [OF i(2)], of n "[]"] by simp
next
  case (JFloat t)
  assume "json_ok j"
  hence "float_ok t" using JFloat by simp
  from float_ok_parts [OF this] show ?thesis using JFloat starts_number
    by (auto simp: starts_value_def)
qed (auto simp: starts_value_def quote_def)

lemma p_constant_number:
  assumes "number_parts sg ds fr ex"
  shows "p_constant constants (sg @ ds @ x) = p_number (sg @ ds @ x)"
proof -
  obtain d ds' where d: "ds = d # ds'" "is_digit d"
    using assms digits_digit [of ds] by (cases ds) (auto simp: number_parts_def)
  have "d \<noteq> CHR ''n''" "d \<noteq> CHR ''t''" "d \<noteq> CHR ''f''" "d \<noteq> CHR ''N''" "d \<noteq> CHR ''I''" "d \<noteq> CHR ''-''"
    using d(2) by (auto simp: is_digit_def)
  thus ?thesis using assms d(1) by (auto simp: number_parts_def constants_def after_prefix_def)
qed

lemma p_value_number:
  assumes "number_parts sg ds fr ex" "stops r"
  shows "p_value (Suc n) (sg @ ds @ fr @ ex @ r) = Some (number sg ds fr ex, r)"
proof -
  obtain d ds' where d: "ds = d # ds'" "is_digit d"
    using assms digits_digit [of ds] by (cases ds) (auto simp: number_parts_def)
  obtain c cs where c: "sg @ ds @ fr @ ex @ r = c # cs" "c = CHR ''-'' \<or> is_digit c"
    using d assms(1) by (auto simp: number_parts_def)
  have "c \<notin> {CHR 0x22, CHR ''['', CHR 0x7B}" using c(2) by (auto simp: is_digit_def)
  thus ?thesis using p_constant_number [OF assms(1), of "fr @ ex @ r"] p_number_compose [OF assms] c(1)
    by (simp add: p_value.simps)
qed

text \<open>A printed value is parsed back, whatever follows it, with as much fuel as it has characters.\<close>

definition parses_back :: "json \<Rightarrow> bool" where
  "parses_back j \<longleftrightarrow> (\<forall>n r. length (dumps j) \<le> n \<longrightarrow> stops r \<longrightarrow> p_value n (dumps j @ r) = Some (j, r))"

lemma parses_backD: "parses_back j \<Longrightarrow> length (dumps j) \<le> n \<Longrightarrow> stops r \<Longrightarrow> p_value n (dumps j @ r) = Some (j, r)"
  by (simp add: parses_back_def)

lemma parses_backI:
  assumes "dumps j \<noteq> []" "\<And>m r. stops r \<Longrightarrow> p_value (Suc m) (dumps j @ r) = Some (j, r)"
  shows "parses_back j"
  unfolding parses_back_def
proof (intro allI impI)
  fix n r assume n: "length (dumps j) \<le> n" "stops r"
  have "n \<noteq> 0" using n(1) assms(1) by (cases n) auto
  then obtain m where "n = Suc m" using not0_implies_Suc by blast
  thus "p_value n (dumps j @ r) = Some (j, r)" using assms(2) [OF n(2)] by simp
qed

lemma skip_ws_simps [simp]:
  "skip_ws (CHR '' '' # s) = skip_ws s" "skip_ws (CHR '','' # s) = CHR '','' # s" "skip_ws (CHR '']'' # s) = CHR '']'' # s"
  "skip_ws (CHR 0x7D # s) = CHR 0x7D # s" "skip_ws (CHR '':'' # s) = CHR '':'' # s" "skip_ws (CHR 0x22 # s) = CHR 0x22 # s"
  "skip_ws [] = []"
  by (simp_all add: skip_ws_def)

lemma stops_simps [simp]: "stops []" "stops (CHR '','' # s)" "stops (CHR '']'' # s)" "stops (CHR 0x7D # s)"
  by (simp_all add: stops_def)

lemma p_elems_back:
  assumes "xs \<noteq> []" "\<forall>x \<in> set xs. parses_back x \<and> json_ok x" "length (join '', '' (map dumps xs)) + 1 \<le> n"
  shows "p_elems n acc (join '', '' (map dumps xs) @ CHR '']'' # r) = Some (JArr (acc @ xs), r)"
  using assms
proof (induction xs arbitrary: n acc)
  case (Cons x xs)
  obtain m where n: "n = Suc m" using Cons.prems(3) by (cases n) auto
  show ?case
  proof (cases xs)
    case Nil
    thus ?thesis using Cons.prems n parses_backD [of x m] by (simp add: p_elems.simps)
  next
    case (Cons y ys)
    let ?rest = "join '', '' (map dumps xs) @ CHR '']'' # r"
    have j: "join '', '' (map dumps (x # xs)) = dumps x @ '', '' @ join '', '' (map dumps xs)" using Cons by simp
    have "starts_value (dumps y)" using Cons.prems(2) Cons by (intro starts_dumps) auto
    moreover have "\<exists>t. ?rest = dumps y @ t" using Cons by (cases ys) auto
    ultimately have skip: "skip_ws ?rest = ?rest" using starts_skip by metis
    have "p_value m (dumps x @ '', '' @ ?rest) = Some (x, '', '' @ ?rest)"
      using Cons.prems(2,3) n j by (intro parses_backD) auto
    moreover have "p_elems m (acc @ [x]) ?rest = Some (JArr ((acc @ [x]) @ xs), r)"
      using Cons.prems(2,3) n j Cons by (intro Cons.IH) auto
    ultimately show ?thesis using n j skip by (simp add: p_elems.simps)
  qed
qed simp

lemma p_members_back:
  assumes "kvs \<noteq> []" "\<forall>kv \<in> set kvs. parses_back (snd kv) \<and> json_ok (snd kv)" "distinct (map fst (acc @ kvs))"
    "length (join '', '' (map (\<lambda>(k, v). quote k @ '': '' @ dumps v) kvs)) + 1 \<le> n"
  shows "p_members n acc (join '', '' (map (\<lambda>(k, v). quote k @ '': '' @ dumps v) kvs) @ CHR 0x7D # r) = Some (JObj (acc @ kvs), r)"
  using assms
proof (induction kvs arbitrary: n acc)
  case (Cons kv kvs)
  obtain m where n: "n = Suc m" using Cons.prems(4) by (cases n) auto
  obtain k v where kv: "kv = (k, v)" by (cases kv)
  have upd: "AList.update k v acc = acc @ [(k, v)]" using Cons.prems(3) kv by (intro update_new) auto
  have v: "starts_value (dumps v)" "parses_back v" using Cons.prems(2) kv starts_dumps by auto
  have str: "p_string [] (concat (map esc k) @ CHR 0x22 # s) = Some (k, s)" for s using p_string_escs [of "[]" k s] by simp
  have q: "after_prefix [CHR 0x22] (quote k @ s) = Some (concat (map esc k) @ CHR 0x22 # s)" for s
    using after_prefix_append [of "[CHR 0x22]"] by (simp add: quote_def)
  have colon: "after_prefix '':'' (CHR '':'' # s) = Some s" for s using after_prefix_append [of "'':''"] by simp
  have val: "p_value m (skip_ws (dumps v @ s)) = Some (v, s)" if "length (dumps v) \<le> m" "stops s" for s
    using starts_skip [OF v(1), of s] parses_backD [OF v(2) that] by simp
  show ?case
  proof (cases kvs)
    case Nil
    thus ?thesis using Cons.prems(4) n kv val str q colon upd by (simp add: p_members.simps)
  next
    case (Cons y ys)
    let ?f = "\<lambda>(k, v). quote k @ '': '' @ dumps v"
    let ?rest = "join '', '' (map ?f kvs) @ CHR 0x7D # r"
    have j: "join '', '' (map ?f (kv # kvs)) = quote k @ '': '' @ dumps v @ '', '' @ join '', '' (map ?f kvs)"
      using Cons kv by simp
    have "\<exists>t. ?rest = quote (fst y) @ t" using Cons by (cases ys) (auto simp: split_beta)
    hence skip: "skip_ws ?rest = ?rest" by (auto simp: quote_def)
    have "p_members m (acc @ [(k, v)]) ?rest = Some (JObj ((acc @ [(k, v)]) @ kvs), r)"
      using Cons.prems n j Cons kv by (intro Cons.IH) auto
    moreover have "length (dumps v) \<le> m" using Cons.prems(4) n j by simp
    ultimately show ?thesis using n j skip val str q colon upd kv by (simp add: p_members.simps)
  qed
qed simp

lemma dumps_back: "json_ok j \<Longrightarrow> parses_back j"
proof (induction j)
  case (JInt i)
  obtain sg n where i: "show_int i = sg @ show_nat n" "sg \<in> {[], ''-''}" "number sg (show_nat n) [] [] = JInt i"
    by (rule show_int_parts)
  have "p_value (Suc m) (show_int i @ r) = Some (JInt i, r)" if "stops r" for m r
    using p_value_number [OF show_nat_parts [OF i(2)] that, of m n] i(1,3) by simp
  moreover have "show_int i \<noteq> []" using i(1) by simp
  ultimately show ?case by (intro parses_backI) simp_all
next
  case (JFloat t)
  show ?case unfolding parses_back_def
  proof (intro allI impI)
    fix n r assume n: "length (dumps (JFloat t)) \<le> n" and r: "stops r"
    have "float_ok t" using JFloat by simp
    from float_ok_parts [OF this] show "p_value n (dumps (JFloat t) @ r) = Some (JFloat t, r)"
    proof (elim disjE exE conjE)
      assume "t \<in> {''NaN'', ''Infinity'', ''-Infinity''}"
      thus ?thesis using n by (cases n) (auto simp: p_value.simps constants_def after_prefix_def)
    next
      fix sg ds fr ex assume p: "number_parts sg ds fr ex" "t = sg @ ds @ fr @ ex" "number sg ds fr ex = JFloat t"
      have "0 < length ds" using p(1) by (simp add: number_parts_def)
      moreover have "length ds \<le> n" using n p(2) by simp
      ultimately have "n \<noteq> 0" by linarith
      thus ?thesis using p_value_number [OF p(1) r, of "n - 1"] p by simp
    qed
  qed
next
  case (JArr xs)
  show ?case unfolding parses_back_def
  proof (intro allI impI)
    fix n r assume n: "length (dumps (JArr xs)) \<le> n"
    then obtain m where m: "n = Suc m" by (cases n) auto
    show "p_value n (dumps (JArr xs) @ r) = Some (JArr xs, r)"
    proof (cases xs)
      case Nil
      thus ?thesis using m after_prefix_append [of "'']''" r] by (simp add: p_value.simps)
    next
      case (Cons x ys)
      let ?body = "join '', '' (map dumps xs) @ CHR '']'' # r"
      have x: "starts_value (dumps x)" using JArr.prems Cons by (intro starts_dumps) auto
      obtain t where t: "?body = dumps x @ t" using Cons by (cases ys) auto
      have "skip_ws ?body = ?body" using starts_skip [OF x] t by metis
      moreover have "after_prefix '']'' ?body = None"
        using x t by (cases "dumps x") (auto simp: starts_value_def after_prefix_def)
      moreover have "p_elems m [] ?body = Some (JArr ([] @ xs), r)"
        using JArr n m Cons by (intro p_elems_back) auto
      ultimately show ?thesis using m by (simp add: p_value.simps)
    qed
  qed
next
  case (JObj kvs)
  show ?case unfolding parses_back_def
  proof (intro allI impI)
    let ?f = "\<lambda>(k, v). quote k @ '': '' @ dumps v"
    fix n r assume n: "length (dumps (JObj kvs)) \<le> n"
    then obtain m where m: "n = Suc m" by (cases n) auto
    show "p_value n (dumps (JObj kvs) @ r) = Some (JObj kvs, r)"
    proof (cases kvs)
      case Nil
      thus ?thesis using m after_prefix_append [of "[CHR 0x7D]" r] by (simp add: p_value.simps)
    next
      case (Cons kv ys)
      let ?body = "join '', '' (map ?f kvs) @ CHR 0x7D # r"
      obtain t where t: "?body = CHR 0x22 # t" using Cons by (cases ys) (auto simp: quote_def split_beta)
      hence "skip_ws ?body = ?body" by simp
      moreover have "after_prefix [CHR 0x7D] ?body = None" using t by (simp add: after_prefix_def)
      moreover have "p_members m [] ?body = Some (JObj ([] @ kvs), r)"
        using JObj n m Cons by (intro p_members_back) (auto simp: snds.simps fsts.simps)
      ultimately show ?thesis using m by (simp add: p_value.simps)
    qed
  qed
next
  case (JStr t)
  show ?case using p_string_escs [of "[]" t] by (intro parses_backI) (simp_all add: p_value.simps quote_def)
next
  case JNull
  show ?case by (intro parses_backI) (simp_all add: p_value.simps constants_def after_prefix_def)
next
  case (JBool b)
  show ?case by (intro parses_backI) (simp_all add: p_value.simps constants_def after_prefix_def)
qed

theorem loads_dumps: "json_ok j \<Longrightarrow> loads (dumps j) = Some j"
  using parses_backD [OF dumps_back, of j "2 * length (dumps j) + 1" "[]"] starts_skip [OF starts_dumps, of j "[]"]
  by (simp add: loads_def)

section \<open>The fuel is enough\<close>

lemma fuel:
  "2 * length s + 1 \<le> n \<Longrightarrow> p_value (Suc n) s = p_value n s"
  "2 * length s + 2 \<le> n \<Longrightarrow> p_elems (Suc n) xs s = p_elems n xs s"
  "2 * length s + 2 \<le> n \<Longrightarrow> p_members (Suc n) kvs s = p_members n kvs s"
proof (induction n s and n xs s and n kvs s rule: p_value_p_elems_p_members.induct)
  case (2 n s)
  show ?case
  proof (cases s)
    case (Cons c cs)
    have len: "2 * length (skip_ws cs) + 2 \<le> n" using skip_ws_length [of cs] 2(3) Cons by simp
    show ?thesis using "2.IH" [OF Cons] len Cons
      by (simp add: p_value.simps split: option.split)
  qed (simp add: p_value.simps)
next
  case (4 n acc s)
  have same: "p_value (Suc n) s = p_value n s" using 4 by simp
  show ?case
  proof (cases "p_value n s")
    case None
    thus ?thesis using same by (simp add: p_elems.simps)
  next
    case (Some vr)
    obtain v r where vr: "vr = (v, r)" by (cases vr)
    have len: "length r < length s" using parsed_ok(1) Some vr by blast
    show ?thesis
    proof (cases "skip_ws r")
      case (Cons c r1)
      have "2 * length (skip_ws r1) + 2 \<le> n"
        using skip_ws_length [of r] skip_ws_length [of r1] len Cons 4(3) by simp
      thus ?thesis using same Some vr Cons 4(2) [OF Some vr [symmetric] Cons]
        by (simp add: p_elems.simps)
    qed (use same Some vr in \<open>simp add: p_elems.simps\<close>)
  qed
next
  case (6 n acc s)
  show ?case
  proof (cases "after_prefix [CHR 0x22] s")
    case (Some s1)
    note k = Some
    have s1: "length s1 < length s" using k by (auto dest: after_prefix_SomeD)
    show ?thesis
    proof (cases "p_string [] s1")
      case (Some kr)
      obtain key r where kr: "kr = (key, r)" by (cases kr)
      note str = Some
      have r: "length r < length s" using str kr p_string_shorter s1 by fastforce
      show ?thesis
      proof (cases "after_prefix '':'' (skip_ws r)")
        case (Some r1)
        note colon = Some
        have r1: "length (skip_ws r1) < length s"
          using r skip_ws_length [of r] skip_ws_length [of r1] colon [THEN after_prefix_SomeD] by simp
        hence same: "p_value (Suc n) (skip_ws r1) = p_value n (skip_ws r1)"
          using 6(1) [OF k str kr [symmetric] colon] 6(3) by simp
        show ?thesis
        proof (cases "p_value n (skip_ws r1)")
          case (Some vr)
          obtain v r2 where vr: "vr = (v, r2)" by (cases vr)
          have r2: "length r2 < length s" using parsed_ok(1) [of n "skip_ws r1" v r2] Some vr r1 by simp
          show ?thesis
          proof (cases "skip_ws r2")
            case (Cons c r3)
            have "2 * length (skip_ws r3) + 2 \<le> n"
              using skip_ws_length [of r2] skip_ws_length [of r3] r2 Cons 6(3) by simp
            thus ?thesis using same k str kr colon Some vr Cons 6(2) [OF k str kr [symmetric] colon Some vr [symmetric] Cons]
              by (simp add: p_members.simps)
          qed (use same k str kr colon Some vr in \<open>simp add: p_members.simps\<close>)
        qed (use same k str kr colon in \<open>simp add: p_members.simps\<close>)
      qed (use k str kr in \<open>simp add: p_members.simps\<close>)
    qed (use k in \<open>simp add: p_members.simps\<close>)
  qed (simp add: p_members.simps)
qed simp_all

lemma loads_fuel: "2 * length s + 1 \<le> n \<Longrightarrow> p_value n (skip_ws s) = p_value (2 * length s + 1) (skip_ws s)"
proof (induction n rule: dec_induct)
  case (step n)
  thus ?case using fuel(1) [of "skip_ws s" n] skip_ws_length [of s] by simp
qed simp

section \<open>Dicts of JSON values\<close>

text \<open>\<open>d.get(k, dflt)\<close> and \<open>k in d\<close>.\<close>

definition jget :: "string \<Rightarrow> jdict \<Rightarrow> json \<Rightarrow> json" where
  "jget k d dflt = (case map_of d k of Some v \<Rightarrow> v | None \<Rightarrow> dflt)"

definition has_key :: "string \<Rightarrow> jdict \<Rightarrow> bool" where
  "has_key k d \<longleftrightarrow> map_of d k \<noteq> None"

text \<open>Python's truth value of a JSON value.\<close>

definition falsy :: "json \<Rightarrow> bool" where
  "falsy j \<longleftrightarrow> (case j of
       JNull \<Rightarrow> True | JBool b \<Rightarrow> \<not> b | JInt i \<Rightarrow> i = 0 | JStr s \<Rightarrow> s = [] | JArr xs \<Rightarrow> xs = [] | JObj d \<Rightarrow> d = []
     | JFloat t \<Rightarrow> list_all (\<lambda>c. c \<in> {CHR ''-'', CHR ''0'', CHR ''.''})
                     (takeWhile (\<lambda>c. c \<notin> {CHR ''e'', CHR ''E''}) t))"

definition jdict_ok :: "jdict \<Rightarrow> bool" where
  "jdict_ok d \<longleftrightarrow> json_ok (JObj d)"

lemma jget_ok: "jdict_ok d \<Longrightarrow> json_ok x \<Longrightarrow> json_ok (jget k d x)"
  by (auto simp: jdict_ok_def jget_def dest!: map_of_SomeD split: option.splits)

section \<open>Printed values are printable ASCII text\<close>

definition ascii :: "string \<Rightarrow> bool" where
  "ascii s \<longleftrightarrow> (\<forall>c \<in> set s. 32 \<le> (of_char c :: nat) \<and> of_char c \<le> (126 :: nat))"

lemma ascii_simps [simp]:
  "ascii []" "ascii (c # s) \<longleftrightarrow> 32 \<le> (of_char c :: nat) \<and> of_char c \<le> (126 :: nat) \<and> ascii s"
  "ascii (s @ t) \<longleftrightarrow> ascii s \<and> ascii t"
  by (auto simp: ascii_def)

lemma ascii_join: "ascii sep \<Longrightarrow> (\<And>x. x \<in> set xs \<Longrightarrow> ascii x) \<Longrightarrow> ascii (join sep xs)"
  by (induction sep xs rule: join.induct) simp_all

lemma ascii_concat: "(\<And>x. x \<in> set xs \<Longrightarrow> ascii x) \<Longrightarrow> ascii (concat xs)"
  by (auto simp: ascii_def)

lemma digit_ascii: "(\<And>c. c \<in> set s \<Longrightarrow> is_digit c) \<Longrightarrow> ascii s"
  by (force simp: ascii_def is_digit_def Let_def)

lemma hex_digit_code: "k < 16 \<Longrightarrow> 32 \<le> (of_char (hex_digit k) :: nat) \<and> of_char (hex_digit k) \<le> (126 :: nat)"
  by (auto simp: hex_digit_def)

lemma ascii_esc: "ascii (esc c)"
proof -
  have "(of_char c :: nat) div 16 < 16" by (rule less_mult_imp_div_less) (use nat_of_char_less_256 [of c] in simp)
  moreover have "(of_char c :: nat) mod 16 < 16" by simp
  ultimately show ?thesis using hex_digit_code by (simp add: esc_def Let_def)
qed

lemma ascii_quote: "ascii (quote s)"
  by (auto simp: quote_def ascii_esc intro!: ascii_concat)

lemma ascii_number: "number_parts sg ds fr ex \<Longrightarrow> ascii (sg @ ds @ fr @ ex)"
proof -
  assume n: "number_parts sg ds fr ex"
  have "ascii ds"
  proof -
    have "set (digits ds) \<subseteq> {c. is_digit c}" by (auto simp: digits_def Let_def dest: set_takeWhileD)
    thus ?thesis using n by (intro digit_ascii) (auto simp: number_parts_def)
  qed
  moreover have "ascii fr"
    using fraction_cases [of fr] n digit_ascii by (auto simp: number_parts_def)
  moreover have "ascii ex"
    using exponent_cases [of ex] n digit_ascii by (auto simp: number_parts_def)
  ultimately show ?thesis using n by (auto simp: number_parts_def)
qed

lemma ascii_float: "float_ok t \<Longrightarrow> ascii t"
  using float_ok_parts [of t] ascii_number by auto

lemma ascii_int: "ascii (show_int i)"
proof -
  obtain sg n where "show_int i = sg @ show_nat n" "sg \<in> {[], ''-''}" by (rule show_int_parts)
  moreover have "ascii (show_nat n)" by (rule digit_ascii) (use show_nat_digits in blast)
  ultimately show ?thesis by auto
qed

lemma dumps_ascii: "json_ok j \<Longrightarrow> ascii (dumps j)"
proof (induction j rule: dumps.induct)
  case (7 kvs)
  have "ascii (quote k @ '': '' @ dumps v)" if "(k, v) \<in> set kvs" for k v
    using 7 that by (auto simp: ascii_quote)
  thus ?case by (auto intro!: ascii_join)
next
  case (6 xs)
  thus ?case by (auto intro!: ascii_join)
qed (auto simp: ascii_quote ascii_float ascii_int)

end
