(* ===== verification/Tool_Calling.thy ===== *)
theory Tool_Calling
  imports Json Agent_Memory
begin

text \<open>
  \<open>app/llm/non_native_tool_calling.py\<close>: tool calls for models without function calling.  The tools are put
  into the system prompt, and the calls are parsed out of the text of the answer.  The regular expressions
  are written out as scanners.  The raw model call, Python's salted \<open>hash\<close> (as the number it contributes to
  an id) and the fixed wording of the prompt are parameters.
\<close>

section \<open>Finding JSON in text\<close>

text \<open>\<open>re.findall\<close> of an opening, a shortest body and a closing; each match makes the text shorter.\<close>

function bodies :: "(string \<Rightarrow> string option) \<Rightarrow> (string \<Rightarrow> string option) \<Rightarrow> string \<Rightarrow> string list" where
  "bodies op cl s =
     (case split_by op s of
        None \<Rightarrow> []
      | Some (_, r) \<Rightarrow>
          (case split_by cl r of
             None \<Rightarrow> []
           | Some (b, r') \<Rightarrow> b # (if length r' < length s then bodies op cl r' else [])))"
  by auto
termination by (relation "measure (\<lambda>(_, _, s). length s)") auto

declare bodies.simps [simp del]

definition fence :: string where
  "fence = [CHR 0x60, CHR 0x60, CHR 0x60]"

text \<open>The text between \<open>```json\<close> (or \<open>```\<close>) and the next \<open>```\<close>, without the white space around it.\<close>

definition code_blocks :: "string \<Rightarrow> string \<Rightarrow> string list" where
  "code_blocks lang text =
     map rstrip (bodies (\<lambda>s. map_option (dropWhile is_space) (after_prefix (fence @ lang) s)) (after_prefix fence) text)"

definition after_prefix_ci :: "string \<Rightarrow> string \<Rightarrow> string option" where
  "after_prefix_ci p s = (if lower (take (length p) s) = p then Some (drop (length p) s) else None)"

definition tag_bodies :: "string \<Rightarrow> string \<Rightarrow> string list" where
  "tag_bodies tag text =
     bodies (after_prefix_ci (''<'' @ tag @ ''>'')) (after_prefix_ci (''</'' @ tag @ ''>'')) text"

subsection \<open>Repairs\<close>

text \<open>\<open>,\s*([}\]])\<close> becomes the bracket.\<close>

function drop_trailing_commas :: "string \<Rightarrow> string" where
  "drop_trailing_commas [] = []"
| "drop_trailing_commas (c # cs) =
     (if c = CHR '','' then
        (case dropWhile is_space cs of
           b # r \<Rightarrow> if b \<in> {CHR 0x7D, CHR '']''} then b # drop_trailing_commas r else c # drop_trailing_commas cs
         | [] \<Rightarrow> c # drop_trailing_commas cs)
      else c # drop_trailing_commas cs)"
  by pat_completeness auto
termination by (relation "measure length") (auto dest: dropWhile_Cons_length)

text \<open>\<open>'([^']*)'\<close> becomes the same text between double quotes.\<close>

function requote :: "string \<Rightarrow> string" where
  "requote [] = []"
| "requote (c # cs) =
     (if c = CHR 0x27 then
        (case dropWhile (\<lambda>d. d \<noteq> CHR 0x27) cs of
           _ # r \<Rightarrow> CHR 0x22 # takeWhile (\<lambda>d. d \<noteq> CHR 0x27) cs @ CHR 0x22 # requote r
         | [] \<Rightarrow> c # requote cs)
      else c # requote cs)"
  by pat_completeness auto
termination by (relation "measure length") (auto dest: dropWhile_Cons_length)

text \<open>\<open>//.*?$\<close> by line, then \<open>/\*.*?\*/\<close>.\<close>

fun drop_line_comments :: "bool \<Rightarrow> string \<Rightarrow> string" where
  "drop_line_comments inside [] = []"
| "drop_line_comments inside (c # cs) =
     (if inside then (if c = CHR 0x0A then c # drop_line_comments False cs else drop_line_comments True cs)
      else if c = CHR ''/'' \<and> take 1 cs = ''/'' then drop_line_comments True cs
      else c # drop_line_comments False cs)"

function drop_block_comments :: "string \<Rightarrow> string" where
  "drop_block_comments [] = []"
| "drop_block_comments (c # cs) =
     (case after_prefix ''/*'' (c # cs) of
        Some r \<Rightarrow> (case split_by (after_prefix ''*/'') r of
                     Some (_, r') \<Rightarrow> drop_block_comments r'
                   | None \<Rightarrow> c # drop_block_comments cs)
      | None \<Rightarrow> c # drop_block_comments cs)"
  by pat_completeness auto
termination
proof (relation "measure length")
  fix c :: char and cs r :: string and x :: "string \<times> string" and b r' :: string
  assume "after_prefix ''/*'' (c # cs) = Some r" "split_by (after_prefix ''*/'') r = Some x" "(b, r') = x"
  thus "(r', c # cs) \<in> measure length"
    using split_by_length [of "after_prefix ''*/''" r b r'] after_prefix_length by (force dest!: after_prefix_SomeD)
qed simp_all

definition is_word_char :: "char \<Rightarrow> bool" where
  "is_word_char c \<longleftrightarrow> is_letter c \<or> is_digit c \<or> c = CHR ''_''"

text \<open>\<open>(\{|,)\s*([a-zA-Z_][a-zA-Z0-9_]*)\s*:\<close> gets quotes around the key: the key and what follows the colon.\<close>

definition bare_key :: "string \<Rightarrow> (string \<times> string) option" where
  "bare_key s =
     (let s1 = dropWhile is_space s;
          key = takeWhile is_word_char s1
      in if key = [] \<or> is_digit (hd key) then None
         else map_option (\<lambda>r. (key, r)) (after_prefix '':'' (dropWhile is_space (drop (length key) s1))))"

lemma bare_key_length: "bare_key s = Some (k, r) \<Longrightarrow> length r < length s"
  using length_dropWhile_le [of is_space s] length_dropWhile_le [of is_space "drop (length k) (dropWhile is_space s)"]
  by (auto simp: bare_key_def Let_def dest: after_prefix_SomeD split: if_splits)

function quote_keys :: "string \<Rightarrow> string" where
  "quote_keys [] = []"
| "quote_keys (c # cs) =
     (if c \<in> {CHR 0x7B, CHR '',''} then
        (case bare_key cs of
           Some (k, r) \<Rightarrow> c # CHR '' '' # CHR 0x22 # k @ CHR 0x22 # CHR '':'' # quote_keys r
         | None \<Rightarrow> c # quote_keys cs)
      else c # quote_keys cs)"
  by pat_completeness auto
termination by (relation "measure length") (auto dest: bare_key_length)

fun first_dict :: "string list \<Rightarrow> jdict option" where
  "first_dict [] = None"
| "first_dict (t # ts) = (case loads t of Some (JObj d) \<Rightarrow> Some d | _ \<Rightarrow> first_dict ts)"

definition try_parse_json :: "string \<Rightarrow> jdict option" where
  "try_parse_json raw =
     (let t = strip raw;
          cleaned = drop_trailing_commas t;
          no_comments = drop_block_comments (drop_line_comments False cleaned)
      in if t = [] then None
         else first_dict [t, cleaned, requote cleaned, no_comments, quote_keys no_comments])"

fun first_parsed :: "string list \<Rightarrow> jdict option" where
  "first_parsed [] = None"
| "first_parsed (t # ts) = (case try_parse_json t of Some d \<Rightarrow> Some d | None \<Rightarrow> first_parsed ts)"

text \<open>The scan for the first balanced pair of braces: the depth, and the text since the opening brace,
  reversed.\<close>

fun raw_scan :: "int \<Rightarrow> string option \<Rightarrow> string \<Rightarrow> jdict option" where
  "raw_scan d acc [] = None"
| "raw_scan d acc (c # cs) =
     (let acc1 = (if c = CHR 0x7B \<and> d = 0 then Some [c] else map_option ((#) c) acc)
      in if c = CHR 0x7B then raw_scan (d + 1) acc1 cs
         else if c = CHR 0x7D
         then (if d - 1 = 0 \<and> acc1 \<noteq> None
               then (case try_parse_json (rev (the acc1)) of Some r \<Rightarrow> Some r | None \<Rightarrow> raw_scan (d - 1) None cs)
               else raw_scan (d - 1) acc1 cs)
         else raw_scan d acc1 cs)"

definition extract_raw_json :: "string \<Rightarrow> jdict option" where
  "extract_raw_json text = raw_scan 0 None text"

definition tag_names :: "string list" where
  "tag_names = [''tool_call'', ''tool_calls'', ''function_call'', ''function_calls'', ''json'', ''response'']"

definition extract_json_from_response :: "string \<Rightarrow> jdict option" where
  "extract_json_from_response text =
     (if strip text = [] then None
      else case first_parsed (code_blocks ''json'' text) of Some d \<Rightarrow> Some d | None \<Rightarrow>
          (case first_parsed (code_blocks [] text) of Some d \<Rightarrow> Some d | None \<Rightarrow>
            (case first_parsed (concat (map (\<lambda>tag. tag_bodies tag text) tag_names)) of Some d \<Rightarrow> Some d | None \<Rightarrow>
              extract_raw_json text)))"

section \<open>From JSON to calls\<close>

text \<open>One call; \<open>h\<close> is \<open>abs(hash(s)) % 100000\<close>.  An id that is no string fails the validation of
  \<open>ToolCall\<close>, which drops the call.\<close>

definition call_arguments :: "json \<Rightarrow> string" where
  "call_arguments args =
     (case args of
        JObj d \<Rightarrow> dumps (JObj d)
      | JStr s \<Rightarrow> if loads s \<noteq> None then s else dumps (JObj [(''value'', JStr s)])
      | _ \<Rightarrow> dumps (JObj []))"

definition parse_single_tool_call :: "(string \<Rightarrow> nat) \<Rightarrow> jdict \<Rightarrow> string \<Rightarrow> tool_call option" where
  "parse_single_tool_call h call pre =
     (case jget ''name'' call (jget ''function'' call (jget ''tool'' call (JStr []))) of
        JStr name \<Rightarrow>
          if name = [] then None
          else let args = call_arguments (jget ''arguments'' call (jget ''parameters'' call (jget ''args'' call
                            (jget ''input'' call (jget ''action_input'' call (JObj []))))))
               in (case jget ''id'' call (JStr (pre @ show_nat (h (name @ args)))) of
                     JStr i \<Rightarrow> Some \<lparr>tc_id = i, tc_name = name, tc_arguments = args\<rparr>
                   | _ \<Rightarrow> None)
      | _ \<Rightarrow> None)"

definition list_of :: "'a option \<Rightarrow> 'a list" where
  "list_of x = (case x of Some y \<Rightarrow> [y] | None \<Rightarrow> [])"

fun dicts_of :: "json list \<Rightarrow> jdict list" where
  "dicts_of [] = []"
| "dicts_of (j # js) = (case j of JObj d \<Rightarrow> [d] | _ \<Rightarrow> []) @ dicts_of js"

text \<open>The dict of a single call at the top level, in the formats 2 to 5.\<close>

definition top_level_call :: "jdict \<Rightarrow> jdict option" where
  "top_level_call data =
     (let named = (\<lambda>k args. Some [(''name'', jget k data JNull), (''arguments'', args)])
      in if has_key ''name'' data \<and> (has_key ''arguments'' data \<or> has_key ''parameters'' data \<or> has_key ''args'' data)
         then Some data
         else if has_key ''function'' data
         then named ''function'' (jget ''parameters'' data (jget ''arguments'' data (JObj [])))
         else if has_key ''action'' data then named ''action'' (jget ''action_input'' data (JObj []))
         else if has_key ''tool'' data then named ''tool'' (jget ''input'' data (jget ''arguments'' data (JObj [])))
         else None)"

definition parse_tool_calls_from_json :: "(string \<Rightarrow> nat) \<Rightarrow> jdict \<Rightarrow> string \<Rightarrow> tool_call list" where
  "parse_tool_calls_from_json h data pre =
     (let single = (\<lambda>call. list_of (parse_single_tool_call h call pre))
      in if has_key ''tool_calls'' data
         then (case jget ''tool_calls'' data JNull of
                 JArr calls \<Rightarrow> concat (map single (dicts_of calls))
               | JObj call \<Rightarrow> single call
               | _ \<Rightarrow> [])
         else (case top_level_call data of Some call \<Rightarrow> single call | None \<Rightarrow> []))"

definition tool_call_prefix :: string where "tool_call_prefix = ''tc_''"

definition parse_response_tool_calls :: "(string \<Rightarrow> nat) \<Rightarrow> string \<Rightarrow> tool_call list" where
  "parse_response_tool_calls h text =
     (case extract_json_from_response text of
        None \<Rightarrow> [] | Some data \<Rightarrow> parse_tool_calls_from_json h data tool_call_prefix)"

section \<open>The chat\<close>

text \<open>A tool definition in OpenAI format; a missing key is \<open>None\<close>.  A parameter has a name and, unless its
  schema is no object, a type and a description as text.\<close>

record tool_def =
  td_name :: "string option"
  td_description :: "string option"
  td_params :: "(string \<times> (string option \<times> string option) option) list"
  td_required :: "string list"

definition or_else :: "'a option \<Rightarrow> 'a \<Rightarrow> 'a" where
  "or_else x d = (case x of Some y \<Rightarrow> y | None \<Rightarrow> d)"

definition param_lines :: "tool_def \<Rightarrow> string list" where
  "param_lines t =
     concat (map (\<lambda>(p, schema). case schema of
         None \<Rightarrow> []
       | Some (ty, descr) \<Rightarrow>
           [if p \<in> set (td_required t)
            then ''- '' @ p @ '' ('' @ or_else ty ''any'' @ '') (required): '' @ or_else descr []
            else ''- '' @ p @ '' ('' @ or_else ty ''any'' @ '', optional): '' @ or_else descr []]) (td_params t))"

definition tool_description :: "tool_def \<Rightarrow> string" where
  "tool_description t =
     (let ps = param_lines t
      in ''### '' @ or_else (td_name t) ''unknown'' @ newline @
         or_else (td_description t) ''No description available.'' @ newline @ newline @ ''Parameters:'' @ newline @
         join newline (if ps = [] then [''- (no parameters)''] else ps))"

text \<open>\<open>pre\<close> and \<open>post\<close> are the parts of the prompt template around the descriptions.\<close>

definition tools_to_prompt :: "string \<Rightarrow> string \<Rightarrow> tool_def list \<Rightarrow> string" where
  "tools_to_prompt pre post tools = pre @ join (newline @ newline) (map tool_description tools) @ post"

text \<open>\<open>None\<close> is the \<open>TypeError\<close> of adding text to a system message whose content is no text.\<close>

definition is_system :: "jdict \<Rightarrow> bool" where
  "is_system m \<longleftrightarrow> map_of m ''role'' = Some (JStr ''system'')"

fun extend_system :: "string \<Rightarrow> jdict list \<Rightarrow> jdict list option" where
  "extend_system p [] = Some []"
| "extend_system p (m # ms) =
     (case extend_system p ms of
        None \<Rightarrow> None
      | Some rest \<Rightarrow>
          if is_system m
          then (case jget ''content'' m JNull of
                  JStr c \<Rightarrow> Some ([(''role'', JStr ''system''), (''content'', JStr (c @ newline @ newline @ p))] # rest)
                | j \<Rightarrow> if falsy j
                       then Some ([(''role'', JStr ''system''), (''content'', JStr (newline @ newline @ p))] # rest) else None)
          else Some (m # rest))"

definition inject_tool_prompt :: "jdict list \<Rightarrow> string \<Rightarrow> jdict list option" where
  "inject_tool_prompt ms p =
     (if list_ex is_system ms then extend_system p ms
      else Some ([(''role'', JStr ''system''), (''content'', JStr p)] # ms))"

text \<open>\<open>IndexError\<close>, \<open>KeyError\<close> and \<open>TypeError\<close> give the empty text, \<open>AttributeError\<close> is raised.\<close>

definition no_get :: string where "no_get = ''AttributeError: get''"

definition get_response_content :: "jdict \<Rightarrow> string + json" where
  "get_response_content resp =
     (let choices = jget ''choices'' resp (JArr [])
      in if falsy choices then Inr (JStr [])
         else case choices of
             JArr (JObj c # _) \<Rightarrow>
               (case jget ''message'' c (JObj []) of
                  JObj m \<Rightarrow> (let v = jget ''content'' m (JStr []) in Inr (if falsy v then JStr [] else v))
                | _ \<Rightarrow> Inl no_get)
           | JArr (_ # _) \<Rightarrow> Inl no_get
           | JStr _ \<Rightarrow> Inl no_get
           | _ \<Rightarrow> Inr (JStr []))"

text \<open>Removing the blocks from the text: \<open>```json\<close> to the next fence, then a fenced text in braces.\<close>

function remove_blocks :: "string \<Rightarrow> string" where
  "remove_blocks s =
     (case split_by (after_prefix (fence @ ''json'')) s of
        None \<Rightarrow> s
      | Some (a, r) \<Rightarrow>
          (case split_by (after_prefix fence) r of
             None \<Rightarrow> s
           | Some (_, r') \<Rightarrow> a @ (if length r' < length s then remove_blocks r' else r')))"
  by auto
termination by (relation "measure length") auto

declare remove_blocks.simps [simp del]

definition closing_brace_fence :: "string \<Rightarrow> string option" where
  "closing_brace_fence s =
     (case after_prefix [CHR 0x7D] s of
        Some r \<Rightarrow> after_prefix fence (dropWhile is_space r)
      | None \<Rightarrow> None)"

text \<open>\<open>```\s*\n?\{.*?\}\n?\s*```\<close>, the rest of a match.\<close>

definition braced_block :: "string \<Rightarrow> string option" where
  "braced_block s =
     (case after_prefix fence s of
        None \<Rightarrow> None
      | Some r \<Rightarrow>
          (case after_prefix [CHR 0x7B] (dropWhile is_space r) of
             None \<Rightarrow> None
           | Some r1 \<Rightarrow> map_option snd (split_by closing_brace_fence r1)))"

function remove_braced :: "string \<Rightarrow> string" where
  "remove_braced s =
     (case split_by braced_block s of
        None \<Rightarrow> s
      | Some (a, r) \<Rightarrow> a @ (if length r < length s then remove_braced r else r))"
  by auto
termination by (relation "measure length") auto

declare remove_braced.simps [simp del]

definition remove_json_from_text :: "string \<Rightarrow> string" where
  "remove_json_from_text text = strip (remove_braced (remove_blocks text))"

definition call_json :: "tool_call \<Rightarrow> json" where
  "call_json tc = JObj [(''id'', JStr (tc_id tc)), (''type'', JStr ''function''),
     (''function'', JObj [(''name'', JStr (tc_name tc)), (''arguments'', JStr (tc_arguments tc))])]"

definition extract_tool_calls :: "(string \<Rightarrow> nat) \<Rightarrow> jdict \<Rightarrow> string + jdict option" where
  "extract_tool_calls h resp =
     (case get_response_content resp of
        Inl e \<Rightarrow> Inl e
      | Inr (JStr content) \<Rightarrow>
          (let tcs = parse_response_tool_calls h content
           in if content = [] \<or> tcs = [] then Inr None
              else let t = remove_json_from_text content
                   in Inr (Some
                     [(''choices'', JArr [JObj [(''message'', JObj
                         [(''role'', JStr ''assistant''), (''content'', if t = [] then JNull else JStr t),
                          (''tool_calls'', JArr (map call_json tcs))])]]),
                      (''usage'', jget ''usage'' resp (JObj []))]))
      | Inr _ \<Rightarrow> Inl ''AttributeError: strip'')"

record client =
  cl_raw :: "nat \<Rightarrow> jdict list \<Rightarrow> tool_def list \<Rightarrow> string + jdict"
  cl_hash :: "string \<Rightarrow> nat"
  cl_model :: string
  cl_pre :: string
  cl_post :: string
  cl_retry_text :: string

definition max_parse_retries :: nat where "max_parse_retries = 2"

definition native_models :: "string list" where
  "native_models = [''gpt-4'', ''gpt-3.5-turbo'', ''gpt-4o'', ''gpt-4-turbo'', ''claude-3'', ''claude-3-5'', ''claude-sonnet'',
     ''claude-haiku'', ''claude-opus'', ''gemini'', ''gemini-1.5'', ''gemini-2.0'', ''mistral-large'', ''mistral-medium'',
     ''mistral-small'', ''o1'', ''o3'']"

definition non_native_models :: "string list" where
  "non_native_models = [''llama'', ''llama2'', ''llama3'', ''llama-2'', ''llama-3'', ''mistral-7b'', ''mixtral'', ''phi'', ''phi-2'',
     ''phi-3'', ''qwen'', ''yi'', ''solar'', ''deepseek-coder'', ''codellama'', ''falcon'', ''mpt'', ''starcoder'']"

definition supports_native_tools :: "string \<Rightarrow> bool" where
  "supports_native_tools model =
     (let m = lower model
      in if list_ex (\<lambda>nm. sublist nm m) native_models then True
         else if list_ex (\<lambda>nm. sublist nm m) non_native_models then False else True)"

text \<open>The loop with \<open>k\<close> attempts left after \<open>n\<close> model calls: the answer and the number of calls made.\<close>

fun prompt_loop :: "client \<Rightarrow> nat \<Rightarrow> nat \<Rightarrow> jdict list \<Rightarrow> jdict \<Rightarrow> (string + jdict) \<times> nat" where
  "prompt_loop cl 0 n ms prev = (Inr prev, n)"
| "prompt_loop cl (Suc k) n ms prev =
     (case cl_raw cl n ms [] of
        Inl e \<Rightarrow> (Inl e, n + 1)
      | Inr resp \<Rightarrow>
          (case extract_tool_calls (cl_hash cl) resp of
             Inl e \<Rightarrow> (Inl e, n + 1)
           | Inr (Some out) \<Rightarrow> (Inr out, n + 1)
           | Inr None \<Rightarrow>
               if k = 0 then prompt_loop cl k (n + 1) ms resp
               else (case get_response_content resp of
                       Inl e \<Rightarrow> (Inl e, n + 1)
                     | Inr content \<Rightarrow>
                         prompt_loop cl k (n + 1)
                           (ms @ [[(''role'', JStr ''assistant''), (''content'', content)],
                                  [(''role'', JStr ''user''), (''content'', JStr (cl_retry_text cl))]]) resp)))"

definition chat_with_prompt_tools ::
  "client \<Rightarrow> nat \<Rightarrow> jdict list \<Rightarrow> tool_def list \<Rightarrow> (string + jdict) \<times> nat" where
  "chat_with_prompt_tools cl n ms tools =
     (case inject_tool_prompt ms (tools_to_prompt (cl_pre cl) (cl_post cl) tools) of
        None \<Rightarrow> (Inl ''TypeError'', n)
      | Some ms' \<Rightarrow> prompt_loop cl (max_parse_retries + 1) n ms' [])"

definition unsupported_words :: "string list" where
  "unsupported_words = [''tool'', ''function'', ''not supported'', ''unsupported'', ''does not support'', ''invalid request'']"

definition chat_with_tool_fallback :: "client \<Rightarrow> jdict list \<Rightarrow> tool_def list option \<Rightarrow> (string + jdict) \<times> nat" where
  "chat_with_tool_fallback cl ms tools =
     (case tools of
        None \<Rightarrow> (cl_raw cl 0 ms [], 1)
      | Some [] \<Rightarrow> (cl_raw cl 0 ms [], 1)
      | Some ts \<Rightarrow>
          if supports_native_tools (cl_model cl)
          then (case cl_raw cl 0 ms ts of
                  Inr resp \<Rightarrow> (Inr resp, 1)
                | Inl e \<Rightarrow> if list_ex (\<lambda>w. sublist w (lower e)) unsupported_words
                           then chat_with_prompt_tools cl 1 ms ts else (Inl e, 1))
          else chat_with_prompt_tools cl 0 ms ts)"

section \<open>Every parsed call is well formed\<close>

lemma first_dict_ok: "first_dict ts = Some d \<Longrightarrow> jdict_ok d"
  unfolding jdict_ok_def by (induction ts) (auto simp del: json_ok.simps split: option.splits json.splits dest: loads_ok)

lemma try_parse_ok: "try_parse_json t = Some d \<Longrightarrow> jdict_ok d"
  unfolding try_parse_json_def Let_def by (metis first_dict_ok option.distinct(1))

lemma first_parsed_ok: "first_parsed ts = Some d \<Longrightarrow> jdict_ok d"
  by (induction ts) (auto split: option.splits dest: try_parse_ok)

lemma raw_scan_ok: "raw_scan n acc s = Some d \<Longrightarrow> jdict_ok d"
  by (induction n acc s rule: raw_scan.induct)
    (auto simp: Let_def split: if_splits option.splits dest: try_parse_ok)

lemma extract_json_ok: "extract_json_from_response text = Some d \<Longrightarrow> jdict_ok d"
  by (auto simp: extract_json_from_response_def extract_raw_json_def split: if_splits option.splits
      dest: first_parsed_ok raw_scan_ok)

lemma call_arguments_json: "json_ok j \<Longrightarrow> loads (call_arguments j) \<noteq> None"
proof -
  assume "json_ok j"
  moreover have "loads (dumps (JObj [(''value'', JStr s)])) \<noteq> None" "loads (dumps (JObj [])) \<noteq> None" for s
    using loads_dumps [of "JObj [(''value'', JStr s)]"] loads_dumps [of "JObj []"] by simp_all
  ultimately show ?thesis using loads_dumps [of j]
    by (cases j) (simp_all add: call_arguments_def)
qed

definition call_ok :: "tool_call \<Rightarrow> bool" where
  "call_ok tc \<longleftrightarrow> tc_name tc \<noteq> [] \<and> loads (tc_arguments tc) \<noteq> None"

lemma single_call_ok: "parse_single_tool_call h call pre = Some tc \<Longrightarrow> jdict_ok call \<Longrightarrow> call_ok tc"
  using call_arguments_json [of "jget ''arguments'' call (jget ''parameters'' call (jget ''args'' call
      (jget ''input'' call (jget ''action_input'' call (JObj [])))))"]
  by (auto simp: parse_single_tool_call_def Let_def call_ok_def jget_ok split: json.splits if_splits)

lemma dicts_of_ok: "json_ok (JArr js) \<Longrightarrow> d \<in> set (dicts_of js) \<Longrightarrow> jdict_ok d"
  by (induction js) (force simp: jdict_ok_def split: json.splits)+

lemma named_ok: "jdict_ok data \<Longrightarrow> json_ok x \<Longrightarrow> jdict_ok [(''name'', jget k data JNull), (''arguments'', x)]"
  using jget_ok [of data JNull k] by (simp add: jdict_ok_def)

lemma list_of_mem: "x \<in> set (list_of y) \<longleftrightarrow> y = Some x"
  by (cases y) (auto simp: list_of_def)

lemma top_level_ok: "jdict_ok data \<Longrightarrow> top_level_call data = Some call \<Longrightarrow> jdict_ok call"
  by (auto simp: top_level_call_def Let_def named_ok jget_ok split: if_splits)

text \<open>Whatever the format, the calls come from well-formed dicts.\<close>

lemma parse_calls_from:
  assumes "jdict_ok data" "tc \<in> set (parse_tool_calls_from_json h data pre)"
  obtains call where "jdict_ok call" "parse_single_tool_call h call pre = Some tc"
proof -
  consider "has_key ''tool_calls'' data" | "\<not> has_key ''tool_calls'' data" by blast
  thus thesis
  proof cases
    case 1
    have ok: "json_ok (jget ''tool_calls'' data JNull)" by (rule jget_ok [OF assms(1)]) simp
    show thesis
    proof (cases "jget ''tool_calls'' data JNull")
      case (JArr js)
      thus thesis using that 1 assms(2) ok dicts_of_ok [of js]
        by (auto simp: parse_tool_calls_from_json_def list_of_mem)
    next
      case (JObj d)
      thus thesis using that [of d] 1 assms(2) ok by (auto simp: parse_tool_calls_from_json_def list_of_mem jdict_ok_def)
    qed (use 1 assms(2) in \<open>simp_all add: parse_tool_calls_from_json_def\<close>)
  next
    case 2
    thus thesis using assms(2) that top_level_ok [OF assms(1)]
      by (cases "top_level_call data") (auto simp: parse_tool_calls_from_json_def list_of_mem)
  qed
qed

text \<open>C22: Whatever the model answers, every tool call that is read out of the text has a name and arguments
  that \<open>json.loads\<close> accepts.\<close>

theorem parsed_calls_well_formed:
  "list_all call_ok (parse_response_tool_calls h msg)"
proof -
  have "call_ok tc" if "tc \<in> set (parse_tool_calls_from_json h data pre)" "jdict_ok data" for tc data pre
    by (rule parse_calls_from [OF that(2,1)]) (rule single_call_ok)
  thus ?thesis using extract_json_ok [of msg]
    by (cases "extract_json_from_response msg") (auto simp: list_all_iff parse_response_tool_calls_def)
qed

section \<open>The round trip\<close>

text \<open>The block that the system prompt asks for.\<close>

definition calls_json :: "(string \<times> jdict) list \<Rightarrow> json" where
  "calls_json cs = JObj [(''tool_calls'', JArr (map (\<lambda>(n, d). JObj [(''name'', JStr n), (''arguments'', JObj d)]) cs))]"

definition calls_block :: "(string \<times> jdict) list \<Rightarrow> string" where
  "calls_block cs = fence @ ''json'' @ newline @ dumps (calls_json cs) @ newline @ fence"

lemma dumps_obj: "dumps (JObj d) = CHR 0x7B # t \<Longrightarrow> \<exists>t'. t = t' @ [CHR 0x7D]"
  by auto

lemma braces_no_space: "\<not> is_space (CHR 0x7B)" "\<not> is_space (CHR 0x7D)" "is_space (CHR 0x0A)"
  by (simp_all add: is_space_def)

lemma strip_braces: "strip (CHR 0x7B # t @ [CHR 0x7D]) = CHR 0x7B # t @ [CHR 0x7D]"
  by (simp add: strip_def braces_no_space)

lemma try_parse_dumps: "jdict_ok d \<Longrightarrow> try_parse_json (dumps (JObj d)) = Some d"
  using loads_dumps [of "JObj d"] by (simp add: try_parse_json_def strip_braces jdict_ok_def)

lemma fence_inside:
  assumes "\<not> sublist fence body" "body = a @ u" "CHR 0x60 \<noteq> c"
  shows "after_prefix fence ((u @ [c]) @ s) = None"
proof (rule ccontr)
  assume "after_prefix fence ((u @ [c]) @ s) \<noteq> None"
  then obtain r where r: "u @ c # s = fence @ r" by (auto dest: after_prefix_SomeD)
  show False
  proof (cases "length fence \<le> length u")
    case True
    hence "take (length fence) u = fence" using r by (metis append_eq_conv_conj take_append take_all_iff diff_is_0_eq take0 append_Nil2 take_eq_Nil2)
    hence "sublist fence u" by (metis sublist_take)
    thus False using assms(1,2) by (metis sublist_appendI sublist_order.order.trans append_Nil2)
  next
    case False
    hence "(fence @ r) ! length u = fence ! length u" by (simp add: nth_append)
    moreover have "(fence @ r) ! length u = c" using r by (metis nth_append_length)
    moreover have "fence ! length u = CHR 0x60" using False by (auto simp: fence_def less_Suc_eq nth_Cons')
    ultimately show False using assms(3) by simp
  qed
qed

lemma first_block:
  assumes "CHR 0x60 \<notin> set pre" "\<not> sublist fence body" "body = CHR 0x7B # t @ [CHR 0x7D]"
  shows "\<exists>bs. code_blocks ''json'' (pre @ fence @ ''json'' @ newline @ body @ newline @ fence @ post) = body # bs"
proof -
  define op where "op = (\<lambda>s. map_option (dropWhile is_space) (after_prefix (fence @ ''json'') s))"
  let ?rest = "(body @ newline) @ fence @ post"
  have "op ((fence @ ''json'') @ newline @ body @ newline @ fence @ post) = Some (dropWhile is_space (newline @ body @ newline @ fence @ post))"
    unfolding op_def by (simp only: after_prefix_append option.map)
  hence here: "op (fence @ ''json'' @ newline @ body @ newline @ fence @ post) = Some ?rest"
    using assms(3) by (simp add: newline_def braces_no_space)
  have "op (u @ s) = None" if "pre = a @ u" "u \<noteq> []" for a u s
    using that assms(1) by (cases u) (auto simp: op_def after_prefix_def fence_def)
  hence one: "split_by op (pre @ fence @ ''json'' @ newline @ body @ newline @ fence @ post) = Some (pre, ?rest)"
    by (rule split_by_later [where a = pre and m = op, rotated, OF here]) blast
  have "after_prefix fence (u @ fence @ post) = None" if eq: "body @ newline = a @ u" and ne: "u \<noteq> []" for a u
  proof -
    obtain u' c where snoc: "u = u' @ [c]" using ne by (cases u rule: rev_cases) auto
    hence "body @ [CHR 0x0A] = (a @ u') @ [c]" using eq by (simp add: newline_def)
    hence u: "u = u' @ [CHR 0x0A]" and inside: "body = a @ u'" using snoc by (simp_all only: append1_eq_conv)
    from fence_inside [OF assms(2) inside, of "CHR 0x0A" "fence @ post"] show ?thesis using u by simp
  qed
  hence two: "split_by (after_prefix fence) ?rest = Some (body @ newline, post)"
    by (rule split_by_later [where a = "body @ newline"]) simp_all
  have "rstrip (body @ newline) = body" using assms(3) by (simp add: rstrip_def newline_def braces_no_space)
  thus ?thesis unfolding code_blocks_def op_def [symmetric]
    using one two by (subst bodies.simps) simp
qed

lemma dicts_of_objs: "dicts_of (map JObj ds) = ds"
  by (induction ds) simp_all

lemma parse_calls_json:
  assumes "\<forall>c \<in> set cs. fst c \<noteq> []"
  shows "parse_tool_calls_from_json h [(''tool_calls'', JArr (map (\<lambda>(n, d). JObj [(''name'', JStr n), (''arguments'', JObj d)]) cs))] pre =
    map (\<lambda>(n, d). \<lparr>tc_id = pre @ show_nat (h (n @ dumps (JObj d))), tc_name = n, tc_arguments = dumps (JObj d)\<rparr>) cs"
proof -
  have calls: "map (\<lambda>(n, d). JObj [(''name'', JStr n), (''arguments'', JObj d)]) cs =
      map JObj (map (\<lambda>(n, d). [(''name'', JStr n), (''arguments'', JObj d)]) cs)"
    by (simp add: case_prod_unfold)
  have one: "n \<noteq> [] \<Longrightarrow> parse_single_tool_call h [(''name'', JStr n), (''arguments'', JObj d)] pre =
      Some \<lparr>tc_id = pre @ show_nat (h (n @ dumps (JObj d))), tc_name = n, tc_arguments = dumps (JObj d)\<rparr>" for n d
    by (simp add: parse_single_tool_call_def jget_def call_arguments_def Let_def del: dumps.simps)
  have "concat (map (\<lambda>call. list_of (parse_single_tool_call h call pre)) (map (\<lambda>(n, d). [(''name'', JStr n), (''arguments'', JObj d)]) cs)) =
      map (\<lambda>(n, d). \<lparr>tc_id = pre @ show_nat (h (n @ dumps (JObj d))), tc_name = n, tc_arguments = dumps (JObj d)\<rparr>) cs"
    using assms
    by (induction cs) (auto simp: one list_of_def simp del: dumps.simps)
  thus ?thesis unfolding calls
    by (simp add: parse_tool_calls_from_json_def has_key_def jget_def dicts_of_objs del: map_map)
qed

text \<open>The block that the prompt asks for, with any text before it that has no back quote and any text after
  it, is read back as exactly the calls it lists, in order, unless a code fence occurs inside the JSON.\<close>

theorem tool_block_roundtrip:
  assumes "\<forall>c \<in> set cs. fst c \<noteq> [] \<and> jdict_ok (snd c)" "CHR 0x60 \<notin> set pre" "\<not> sublist fence (dumps (calls_json cs))"
  shows "parse_response_tool_calls h (pre @ calls_block cs @ post) =
    map (\<lambda>(n, d). \<lparr>tc_id = tool_call_prefix @ show_nat (h (n @ dumps (JObj d))), tc_name = n, tc_arguments = dumps (JObj d)\<rparr>) cs"
proof -
  define data where "data = [(''tool_calls'', JArr (map (\<lambda>(n, d). JObj [(''name'', JStr n), (''arguments'', JObj d)]) cs))]"
  have ok: "jdict_ok data" using assms(1) by (auto simp: data_def jdict_ok_def)
  have body: "dumps (calls_json cs) = dumps (JObj data)" by (simp only: calls_json_def data_def)
  obtain t where t: "dumps (JObj data) = CHR 0x7B # t @ [CHR 0x7D]" by simp
  let ?text = "pre @ fence @ ''json'' @ newline @ dumps (JObj data) @ newline @ fence @ post"
  obtain bs where "code_blocks ''json'' ?text = dumps (JObj data) # bs"
    using first_block [OF assms(2) _ t] assms(3) body by fastforce
  moreover have "strip ?text \<noteq> []"
    by (rule strip_ne [of "CHR 0x7B"]) (simp_all add: braces_no_space t)
  ultimately have "extract_json_from_response ?text = Some data"
    using try_parse_dumps [OF ok] by (simp add: extract_json_from_response_def del: dumps.simps)
  moreover have "pre @ calls_block cs @ post = ?text" by (simp add: calls_block_def body del: dumps.simps)
  ultimately show ?thesis
    using parse_calls_json [of cs h tool_call_prefix, folded data_def] assms(1)
    by (simp add: parse_response_tool_calls_def del: dumps.simps)
qed

theorem tool_block_roundtrip_witness:
  "map tc_name (parse_response_tool_calls (\<lambda>_. 7)
     (''Sure.'' @ calls_block [(''bash'', [(''command'', JStr ''ls'')]), (''add'', [(''x'', JInt (- 12)), (''y'', JArr [JNull])])] @ ''!'')) =
   [''bash'', ''add'']"
proof -
  let ?cs = "[(''bash'', [(''command'', JStr ''ls'')]), (''add'', [(''x'', JInt (- 12)), (''y'', JArr [JNull])])]"
  have "\<not> sublist fence (dumps (calls_json ?cs))" by code_simp
  thus ?thesis
    using tool_block_roundtrip [of ?cs "''Sure.''" "\<lambda>_. 7" "''!''"] by (simp add: jdict_ok_def)
qed

section \<open>Bounds, and what is lost\<close>

lemma prompt_loop_calls: "snd (prompt_loop cl k n ms prev) \<le> n + k"
proof (induction k arbitrary: n ms prev)
  case (Suc k)
  note more = Suc.IH [of "n + 1"]
  show ?case
  proof (cases "cl_raw cl n ms []")
    case (Inr resp)
    thus ?thesis using more
      by (auto simp: le_Suc_eq split: sum.split option.split intro: order.trans)
  qed simp
qed simp

text \<open>One chat with tools asks the model at most four times: once with native tools and
  \<open>MAX_PARSE_RETRIES + 1\<close> times with the tools in the prompt.\<close>

theorem chat_calls_bounded:
  "snd (chat_with_tool_fallback cl ms tools) \<le> max_parse_retries + 2"
proof -
  have "snd (chat_with_prompt_tools cl n ms ts) \<le> n + (max_parse_retries + 1)" for n ts
    using prompt_loop_calls [of cl "max_parse_retries + 1" n] by (simp add: chat_with_prompt_tools_def split: option.split)
  from this [of 0] this [of 1] show ?thesis
    by (auto simp: chat_with_tool_fallback_def intro: le_SucI split: option.split list.split sum.split)
qed

text \<open>The format in which the code itself writes tool calls, which is the one of OpenAI, is not among those
  it reads.\<close>

theorem own_format_not_read:
  "parse_tool_calls_from_json h [(''tool_calls'', JArr (map call_json tcs))] pre = []"
proof -
  have "dicts_of (map call_json tcs) = map (\<lambda>tc. case call_json tc of JObj d \<Rightarrow> d) tcs"
    by (induction tcs) (simp_all add: call_json_def)
  moreover have "parse_single_tool_call h (case call_json tc of JObj d \<Rightarrow> d) pre = None" for tc
    by (simp add: call_json_def parse_single_tool_call_def jget_def)
  ultimately show ?thesis
    by (simp add: parse_tool_calls_from_json_def has_key_def jget_def list_of_def comp_def)
qed

text \<open>The same call twice gets the same id twice; the positional ids are computed and not used.\<close>

theorem repeated_call_shares_id:
  assumes "n \<noteq> []"
  shows "\<exists>tc. parse_tool_calls_from_json h [(''tool_calls'', JArr [JObj [(''name'', JStr n)], JObj [(''name'', JStr n)]])] pre = [tc, tc]"
  using assms by (auto simp: parse_tool_calls_from_json_def has_key_def jget_def list_of_def parse_single_tool_call_def Let_def)

text \<open>A closing brace in the text before raw JSON shifts the scan: only the first call inside is found.\<close>

theorem stray_brace_loses_calls:
  "extract_raw_json (dumps (calls_json [(''a'', []), (''b'', [])])) \<noteq> None \<and>
   extract_raw_json (CHR 0x7D # dumps (calls_json [(''a'', []), (''b'', [])])) = Some [(''name'', JStr ''a''), (''arguments'', JObj [])]"
  by (intro conjI) code_simp+

end
