(* ===== verification/Hooks.thy ===== *)
theory Hooks
  imports Security_Analysis Json
begin

text \<open>
  \<open>app/hooks/\<close>: hooks, their registry with an index per event, their execution with time-outs and error
  isolation, the merging of their decisions, and the security hook on the analyzers of
  \<open>Security_Analysis\<close>.  What a hook answers and how long it takes is a function of the context; a hook that
  changes the shared context object is left out, as are the logging and the audit hook, which only write.
\<close>

section \<open>Types\<close>

datatype event_type = SESSION_START | USER_PROMPT_SUBMIT | PRE_TOOL_USE | POST_TOOL_USE | STOP | SESSION_END

definition event_types :: "event_type list" where
  "event_types = [SESSION_START, USER_PROMPT_SUBMIT, PRE_TOOL_USE, POST_TOOL_USE, STOP, SESSION_END]"

lemma event_types_all: "e \<in> set event_types"
  by (cases e) (simp_all add: event_types_def)

datatype decision = Allow | Deny | Modify

record hook_context =
  cx_event :: event_type
  cx_conversation :: string
  cx_agent :: string
  cx_source :: string
  cx_tool :: "string option"
  cx_args :: "jdict option"
  cx_result :: "json option"
  cx_message :: "string option"
  cx_extra :: jdict

record hook_result =
  hr_decision :: decision
  hr_content :: "string option"
  hr_reason :: string

definition allow :: "string \<Rightarrow> hook_result" where
  "allow reason = \<lparr>hr_decision = Allow, hr_content = None, hr_reason = reason\<rparr>"

definition deny :: "string \<Rightarrow> hook_result" where
  "deny reason = \<lparr>hr_decision = Deny, hr_content = None, hr_reason = reason\<rparr>"

definition modify :: "string \<Rightarrow> string \<Rightarrow> hook_result" where
  "modify content reason = \<lparr>hr_decision = Modify, hr_content = Some content, hr_reason = reason\<rparr>"

text \<open>\<open>HookTimeoutError\<close> and \<open>HookError\<close>, without their wording.\<close>

datatype hook_error = Timeout_Error string event_type time | Error string event_type string

section \<open>Merging decisions\<close>

record aggregate =
  ag_decision :: decision
  ag_content :: "string option"
  ag_denial :: string
  ag_modification :: string
  ag_results :: "hook_result list"
  ag_errors :: "hook_error list"

definition new_aggregate :: aggregate where
  "new_aggregate = \<lparr>ag_decision = Allow, ag_content = None, ag_denial = [], ag_modification = [], ag_results = [], ag_errors = []\<rparr>"

definition quoted :: "string \<Rightarrow> string" where
  "quoted s = [CHR 0x27] @ s @ [CHR 0x27]"

definition agg_add :: "hook_result \<Rightarrow> string \<Rightarrow> aggregate \<Rightarrow> aggregate" where
  "agg_add r name a0 =
     (let a = a0\<lparr>ag_results := ag_results a0 @ [r]\<rparr>
      in case hr_decision r of
           Deny \<Rightarrow>
             if ag_decision a \<noteq> Deny
             then a\<lparr>ag_decision := Deny,
                    ag_denial := if hr_reason r \<noteq> [] then hr_reason r else ''Denied by hook '' @ quoted name\<rparr>
             else a
         | Modify \<Rightarrow>
             a\<lparr>ag_decision := if ag_decision a = Allow then Modify else ag_decision a, ag_content := hr_content r,
               ag_modification := if hr_reason r \<noteq> [] then hr_reason r else ''Modified by hook '' @ quoted name\<rparr>
         | Allow \<Rightarrow> a)"

definition add_error :: "hook_error \<Rightarrow> aggregate \<Rightarrow> aggregate" where
  "add_error e a = a\<lparr>ag_errors := ag_errors a @ [e]\<rparr>"

definition to_hook_result :: "aggregate \<Rightarrow> hook_result" where
  "to_hook_result a =
     (case ag_decision a of
        Deny \<Rightarrow> deny (ag_denial a)
      | Modify \<Rightarrow> modify (case ag_content a of Some c \<Rightarrow> c | None \<Rightarrow> []) (ag_modification a)
      | Allow \<Rightarrow> allow [])"

section \<open>The manager\<close>

datatype outcome = Returned hook_result | No_Result | Timed_Out | Raised string

record hook =
  hk_name :: string
  hk_priority :: int
  hk_enabled :: bool
  hk_events :: "event_type list"
  hk_timeout :: time
  hk_fail_open :: bool
  hk_on_event :: "hook_context \<Rightarrow> outcome \<times> time"

definition is_subscribed :: "event_type \<Rightarrow> hook \<Rightarrow> bool" where
  "is_subscribed e h \<longleftrightarrow> hk_enabled h \<and> e \<in> set (hk_events h)"

record metrics =
  mt_invocations :: nat
  mt_errors :: nat
  mt_timeouts :: nat
  mt_duration :: time
  mt_denies :: nat
  mt_modifications :: nat

definition new_metrics :: metrics where
  "new_metrics = \<lparr>mt_invocations = 0, mt_errors = 0, mt_timeouts = 0, mt_duration = 0, mt_denies = 0, mt_modifications = 0\<rparr>"

definition record_metrics :: "time \<Rightarrow> decision \<Rightarrow> bool \<Rightarrow> bool \<Rightarrow> metrics \<Rightarrow> metrics" where
  "record_metrics d dec is_error is_timeout m =
     m\<lparr>mt_invocations := mt_invocations m + 1, mt_duration := mt_duration m + d,
       mt_errors := mt_errors m + (if is_error then 1 else 0), mt_timeouts := mt_timeouts m + (if is_timeout then 1 else 0),
       mt_denies := mt_denies m + (if dec = Deny then 1 else 0),
       mt_modifications := mt_modifications m + (if dec = Modify then 1 else 0)\<rparr>"

definition avg_duration_ms :: "metrics \<Rightarrow> real" where
  "avg_duration_ms m = (if mt_invocations m = 0 then 0 else mt_duration m / real (mt_invocations m) * 1000)"

text \<open>The hook objects live in the registry; the index holds names only.\<close>

record manager =
  hm_hooks :: "(string \<times> hook) list"
  hm_index :: "(event_type \<times> string list) list"
  hm_metrics :: "(string \<times> metrics) list"
  hm_timeout :: time

definition new_manager :: "time \<Rightarrow> manager" where
  "new_manager t = \<lparr>hm_hooks = [], hm_index = [], hm_metrics = [], hm_timeout = t\<rparr>"

definition subscribers :: "(string \<times> hook) list \<Rightarrow> event_type \<Rightarrow> hook list" where
  "subscribers hs e = sort_key hk_priority (filter (is_subscribed e) (map snd hs))"

definition rebuild_index :: "manager \<Rightarrow> manager" where
  "rebuild_index m = m\<lparr>hm_index := map (\<lambda>e. (e, map hk_name (subscribers (hm_hooks m) e))) event_types\<rparr>"

definition register :: "hook \<Rightarrow> manager \<Rightarrow> manager" where
  "register h m = rebuild_index (m\<lparr>hm_hooks := AList.update (hk_name h) h (hm_hooks m)\<rparr>)"

definition register_many :: "hook list \<Rightarrow> manager \<Rightarrow> manager" where
  "register_many hs m = rebuild_index (m\<lparr>hm_hooks := fold (\<lambda>h. AList.update (hk_name h) h) hs (hm_hooks m)\<rparr>)"

definition unregister :: "string \<Rightarrow> manager \<Rightarrow> hook option \<times> manager" where
  "unregister name m =
     (case map_of (hm_hooks m) name of
        None \<Rightarrow> (None, m)
      | Some h \<Rightarrow> (Some h, rebuild_index (m\<lparr>hm_hooks := AList.delete name (hm_hooks m)\<rparr>)))"

definition get_hook :: "string \<Rightarrow> manager \<Rightarrow> hook option" where
  "get_hook name m = map_of (hm_hooks m) name"

definition list_hooks :: "manager \<Rightarrow> hook list" where
  "list_hooks m = map snd (hm_hooks m)"

text \<open>\<open>HookBase.configure\<close> on a registered hook changes the object, but not the index.\<close>

definition configure :: "string \<Rightarrow> (hook \<Rightarrow> hook) \<Rightarrow> manager \<Rightarrow> manager" where
  "configure name f m =
     m\<lparr>hm_hooks := map (\<lambda>(k, h). (k, if k = name then (f h)\<lparr>hk_name := hk_name h\<rparr> else h)) (hm_hooks m)\<rparr>"

definition shutdown :: "manager \<Rightarrow> manager" where
  "shutdown m = m\<lparr>hm_hooks := [], hm_index := []\<rparr>"

definition update_metrics :: "string \<Rightarrow> (metrics \<Rightarrow> metrics) \<Rightarrow> manager \<Rightarrow> manager" where
  "update_metrics name f m =
     m\<lparr>hm_metrics := AList.update name (f (case map_of (hm_metrics m) name of Some x \<Rightarrow> x | None \<Rightarrow> new_metrics)) (hm_metrics m)\<rparr>"

text \<open>\<open>asyncio.wait_for\<close>: a hook that takes longer than its time-out is cancelled.\<close>

definition effective_timeout :: "time \<Rightarrow> hook \<Rightarrow> time" where
  "effective_timeout dflt h = (if hk_timeout h \<noteq> 0 then hk_timeout h else dflt)"

definition run_hook :: "time \<Rightarrow> hook \<Rightarrow> hook_context \<Rightarrow> outcome \<times> time" where
  "run_hook dflt h cx =
     (let (out, d) = hk_on_event h cx; t = effective_timeout dflt h
      in if d > t then (Timed_Out, max 0 t) else (out, d))"

definition fallback :: "hook \<Rightarrow> string \<Rightarrow> hook_result" where
  "fallback h reason = (if hk_fail_open h then allow [] else deny reason)"

definition execute_one :: "hook \<Rightarrow> string \<Rightarrow> event_type \<Rightarrow> hook_context \<Rightarrow> aggregate \<times> manager \<Rightarrow> aggregate \<times> manager" where
  "execute_one h name e cx s =
     (case s of (a, m) \<Rightarrow>
        let (out, d) = run_hook (hm_timeout m) h cx
        in case out of
             Returned r \<Rightarrow> (agg_add r name a, update_metrics name (record_metrics d (hr_decision r) False False) m)
           | No_Result \<Rightarrow> (agg_add (allow []) name a, update_metrics name (record_metrics d Allow False False) m)
           | Timed_Out \<Rightarrow>
               (agg_add (fallback h (''Hook '' @ quoted name @ '' timed out'')) name
                  (add_error (Timeout_Error name e (effective_timeout (hm_timeout m) h)) a),
                update_metrics name (record_metrics d Allow False True) m)
           | Raised ex \<Rightarrow>
               (agg_add (fallback h (''Hook '' @ quoted name @ '' raised an error: '' @ ex)) name (add_error (Error name e ex) a),
                update_metrics name (record_metrics d Allow True False) m))"

definition execute_named :: "event_type \<Rightarrow> hook_context \<Rightarrow> string \<Rightarrow> aggregate \<times> manager \<Rightarrow> aggregate \<times> manager" where
  "execute_named e cx name s =
     (case get_hook name (snd s) of
        None \<Rightarrow> s
      | Some h \<Rightarrow> if hk_enabled h then execute_one h name e cx s else s)"

definition hook_names :: "event_type \<Rightarrow> manager \<Rightarrow> string list" where
  "hook_names e m = (case map_of (hm_index m) e of Some ns \<Rightarrow> ns | None \<Rightarrow> [])"

definition execute_hooks :: "event_type \<Rightarrow> hook_context \<Rightarrow> manager \<Rightarrow> aggregate \<times> manager" where
  "execute_hooks e cx m = fold (execute_named e cx) (hook_names e m) (new_aggregate, m)"

definition base_context :: "event_type \<Rightarrow> string \<Rightarrow> string \<Rightarrow> string \<Rightarrow> hook_context" where
  "base_context e conv agent source = \<lparr>cx_event = e, cx_conversation = conv, cx_agent = agent, cx_source = source,
     cx_tool = None, cx_args = None, cx_result = None, cx_message = None, cx_extra = []\<rparr>"

definition emit_pre_tool_use :: "string \<Rightarrow> jdict \<Rightarrow> string \<Rightarrow> string \<Rightarrow> manager \<Rightarrow> aggregate \<times> manager" where
  "emit_pre_tool_use tool args conv agent m =
     execute_hooks PRE_TOOL_USE ((base_context PRE_TOOL_USE conv agent ''agent'')\<lparr>cx_tool := Some tool, cx_args := Some args\<rparr>) m"

definition emit_post_tool_use :: "string \<Rightarrow> jdict \<Rightarrow> json option \<Rightarrow> string \<Rightarrow> string \<Rightarrow> manager \<Rightarrow> aggregate \<times> manager" where
  "emit_post_tool_use tool args result conv agent m =
     execute_hooks POST_TOOL_USE
       ((base_context POST_TOOL_USE conv agent ''agent'')\<lparr>cx_tool := Some tool, cx_args := Some args, cx_result := result\<rparr>) m"

definition emit_user_prompt_submit :: "string \<Rightarrow> string \<Rightarrow> string \<Rightarrow> manager \<Rightarrow> aggregate \<times> manager" where
  "emit_user_prompt_submit msg conv agent m =
     execute_hooks USER_PROMPT_SUBMIT ((base_context USER_PROMPT_SUBMIT conv agent ''user'')\<lparr>cx_message := Some msg\<rparr>) m"

definition emit_stop :: "string \<Rightarrow> string \<Rightarrow> manager \<Rightarrow> aggregate \<times> manager" where
  "emit_stop conv agent m = execute_hooks STOP (base_context STOP conv agent ''agent'') m"

definition emit_session_start :: "string \<Rightarrow> string \<Rightarrow> manager \<Rightarrow> aggregate \<times> manager" where
  "emit_session_start conv agent m = execute_hooks SESSION_START (base_context SESSION_START conv agent ''system'') m"

definition emit_session_end :: "string \<Rightarrow> string \<Rightarrow> manager \<Rightarrow> aggregate \<times> manager" where
  "emit_session_end conv agent m = execute_hooks SESSION_END (base_context SESSION_END conv agent ''system'') m"

section \<open>The security hook\<close>

record security_config =
  se_threshold :: string
  se_tools :: "string list"
  se_scan_prompts :: bool

text \<open>\<open>SecurityRisk.from_name\<close>: an unknown name is \<open>UNKNOWN\<close>.\<close>

definition risk_from_name :: "string \<Rightarrow> risk" where
  "risk_from_name s =
     (case map_of [(''unknown'', UNKNOWN), (''low'', LOW), (''medium'', MEDIUM), (''high'', HIGH)] (lower s) of
        Some r \<Rightarrow> r | None \<Rightarrow> UNKNOWN)"

definition extract_action :: "hook_context \<Rightarrow> json" where
  "extract_action cx =
     (case cx_args cx of
        None \<Rightarrow> JStr []
      | Some d \<Rightarrow>
          (let tool = lower (case cx_tool cx of Some t \<Rightarrow> t | None \<Rightarrow> [])
           in if d = [] then JStr []
              else if tool = ''bash'' then jget ''command'' d (JStr [])
              else if tool = ''python_execute'' then jget ''code'' d (JStr [])
              else JStr (dumps (JObj d))))"

text \<open>The analyzers take text; on anything else each of them raises.\<close>

definition assess :: "analyzer list \<Rightarrow> json \<Rightarrow> string \<Rightarrow> assessment" where
  "assess ans act tool =
     (case act of
        JStr s \<Rightarrow> analyze_sequence ans s tool
      | _ \<Rightarrow> analyze_sequence (map (\<lambda>an. an\<lparr>an_analyze := (\<lambda>_ _. Raises ''not a text'')\<rparr>) ans) [] tool)"

definition security_on_event :: "security_config \<Rightarrow> analyzer list \<Rightarrow> hook_context \<Rightarrow> hook_result" where
  "security_on_event cfg ans cx =
     (let threshold = risk_from_name (se_threshold cfg)
      in if ans = [] then allow ''No security analyzers available''
         else if cx_event cx = PRE_TOOL_USE then
           (let tool = (case cx_tool cx of Some t \<Rightarrow> t | None \<Rightarrow> []); act = extract_action cx
            in if se_tools cfg \<noteq> [] \<and> (cx_tool cx = None \<or> tool \<notin> set (se_tools cfg)) then allow []
               else if falsy act then allow ''Empty action - nothing to scan''
               else let a = assess ans act tool
                    in if is_risky threshold a then deny (''Security risk: '' @ ra_reason a)
                       else allow (''Security scan: '' @ risk_name (ra_risk a) @ '' risk''))
         else if cx_event cx = USER_PROMPT_SUBMIT \<and> se_scan_prompts cfg then
           (let msg = (case cx_message cx of Some s \<Rightarrow> s | None \<Rightarrow> [])
            in if msg = [] then allow []
               else let a = assess ans (JStr msg) ''user_prompt''
                    in if is_risky threshold a then deny (''Prompt security risk: '' @ ra_reason a)
                       else allow (''Prompt scan: '' @ risk_name (ra_risk a) @ '' risk''))
         else allow [])"

definition security_hook :: "security_config \<Rightarrow> analyzer list \<Rightarrow> (hook_context \<Rightarrow> time) \<Rightarrow> hook" where
  "security_hook cfg ans dur = \<lparr>hk_name = ''security'', hk_priority = 10, hk_enabled = True,
     hk_events = [PRE_TOOL_USE, USER_PROMPT_SUBMIT], hk_timeout = 5, hk_fail_open = True,
     hk_on_event = (\<lambda>cx. (Returned (security_on_event cfg ans cx), dur cx))\<rparr>"

section \<open>What the merged decision says\<close>

definition denials :: "(string \<times> hook_result) list \<Rightarrow> (string \<times> hook_result) list" where
  "denials rs = filter (\<lambda>(n, r). hr_decision r = Deny) rs"

definition modifications :: "(string \<times> hook_result) list \<Rightarrow> (string \<times> hook_result) list" where
  "modifications rs = filter (\<lambda>(n, r). hr_decision r = Modify) rs"

definition merge_all :: "(string \<times> hook_result) list \<Rightarrow> aggregate" where
  "merge_all rs = fold (\<lambda>(n, r). agg_add r n) rs new_aggregate"

lemma merge_all_snoc: "merge_all (rs @ [(n, r)]) = agg_add r n (merge_all rs)"
  by (simp add: merge_all_def)

lemma merge_all_Nil [simp]: "merge_all [] = new_aggregate"
  by (simp add: merge_all_def)

text \<open>The merged decision is a denial exactly when some hook denies, with the reason of the first that
  does; otherwise it is a modification exactly when some hook modifies, and the content is that of the last one.\<close>

theorem aggregate_correct:
  "ag_decision (merge_all rs) = (if denials rs \<noteq> [] then Deny else if modifications rs \<noteq> [] then Modify else Allow) \<and>
   ag_denial (merge_all rs) = (case denials rs of [] \<Rightarrow> []
     | (n, r) # _ \<Rightarrow> if hr_reason r \<noteq> [] then hr_reason r else ''Denied by hook '' @ quoted n) \<and>
   ag_content (merge_all rs) = (if modifications rs = [] then None else hr_content (snd (last (modifications rs)))) \<and>
   ag_results (merge_all rs) = map snd rs"
proof (induction rs rule: rev_induct)
  case (snoc x rs)
  obtain n r where x: "x = (n, r)" by (cases x)
  show ?case using snoc unfolding x merge_all_snoc
    by (cases "hr_decision r")
      (auto simp: agg_add_def Let_def denials_def modifications_def split: list.splits)
qed (simp add: new_aggregate_def denials_def modifications_def)

section \<open>Execution\<close>

definition manager_ok :: "manager \<Rightarrow> bool" where
  "manager_ok m \<longleftrightarrow> dict_ok (hm_hooks m) \<and> list_all (\<lambda>(k, h). hk_name h = k) (hm_hooks m) \<and>
     list_all (\<lambda>e. hook_names e m = map hk_name (subscribers (hm_hooks m) e)) event_types"

lemma rebuild_simps [simp]:
  "hm_hooks (rebuild_index m) = hm_hooks m" "hm_timeout (rebuild_index m) = hm_timeout m"
  "hook_names e (rebuild_index m) = map hk_name (subscribers (hm_hooks m) e)"
  using event_types_all [of e] by (simp_all add: rebuild_index_def hook_names_def map_of_map_restrict)

lemma named_update: "list_all (\<lambda>(k, h). hk_name h = k) hs \<Longrightarrow> list_all (\<lambda>(k, h). hk_name h = k) (AList.update (hk_name h) h hs)"
  using set_update_subset [of "hk_name h" h hs] by (fastforce simp: list_all_iff)

lemma manager_ok_steps:
  "manager_ok (new_manager t)"
  "manager_ok (shutdown m)"
  "manager_ok m \<Longrightarrow> manager_ok (register h m)"
  "manager_ok m \<Longrightarrow> manager_ok (register_many hs m)"
  "manager_ok m \<Longrightarrow> manager_ok (snd (unregister name m))"
proof -
  have fold: "dict_ok d \<and> list_all (\<lambda>(k, h). hk_name h = k) d \<Longrightarrow>
      dict_ok (fold (\<lambda>h. AList.update (hk_name h) h) hs d) \<and>
      list_all (\<lambda>(k, h). hk_name h = k) (fold (\<lambda>h. AList.update (hk_name h) h) hs d)" for d
    by (induction hs arbitrary: d) (simp_all add: named_update)
  show "manager_ok m \<Longrightarrow> manager_ok (register h m)"
    by (simp add: manager_ok_def register_def named_update list.pred_True)
  show "manager_ok m \<Longrightarrow> manager_ok (register_many hs m)"
    using fold [of "hm_hooks m"] by (simp add: manager_ok_def register_many_def list.pred_True)
  show "manager_ok m \<Longrightarrow> manager_ok (snd (unregister name m))"
    by (cases "map_of (hm_hooks m) name") (auto simp: manager_ok_def unregister_def list_all_iff AList.delete_eq dict_ok_def distinct_map inj_on_def)
qed (simp_all add: manager_ok_def new_manager_def shutdown_def hook_names_def subscribers_def list_all_iff)

text \<open>What the manager makes of a hook's answer.\<close>

definition verdict :: "time \<Rightarrow> hook_context \<Rightarrow> hook \<Rightarrow> hook_result" where
  "verdict dflt cx h =
     (case fst (run_hook dflt h cx) of
        Returned r \<Rightarrow> r
      | No_Result \<Rightarrow> allow []
      | Timed_Out \<Rightarrow> fallback h (''Hook '' @ quoted (hk_name h) @ '' timed out'')
      | Raised ex \<Rightarrow> fallback h (''Hook '' @ quoted (hk_name h) @ '' raised an error: '' @ ex))"

definition without_errors :: "aggregate \<Rightarrow> aggregate" where
  "without_errors a = a\<lparr>ag_errors := []\<rparr>"

lemma without_errors_simps [simp]:
  "without_errors (agg_add r n a) = agg_add r n (without_errors a)"
  "without_errors (add_error err a) = without_errors a"
  "without_errors new_aggregate = new_aggregate"
  "ag_decision (without_errors a) = ag_decision a" "ag_denial (without_errors a) = ag_denial a"
  by (simp_all add: without_errors_def agg_add_def add_error_def new_aggregate_def Let_def split: decision.split)

lemma execute_one_simps [simp]:
  "hm_hooks (snd (execute_one h n e cx s)) = hm_hooks (snd s)"
  "hm_timeout (snd (execute_one h n e cx s)) = hm_timeout (snd s)"
  "hm_index (snd (execute_one h n e cx s)) = hm_index (snd s)"
  "without_errors (fst (execute_one h (hk_name h) e cx s)) =
    agg_add (verdict (hm_timeout (snd s)) cx h) (hk_name h) (without_errors (fst s))"
  by (cases s; cases "run_hook (hm_timeout (snd s)) h cx";
      simp add: execute_one_def update_metrics_def verdict_def split: outcome.split)+

lemma execute_fold:
  assumes "\<forall>h \<in> set hs. map_of (hm_hooks (snd s)) (hk_name h) = Some h \<and> hk_enabled h"
  shows "without_errors (fst (fold (execute_named e cx) (map hk_name hs) s)) =
    fold (\<lambda>h. agg_add (verdict (hm_timeout (snd s)) cx h) (hk_name h)) hs (without_errors (fst s))"
  using assms by (induction hs arbitrary: s) (simp_all add: execute_named_def get_hook_def)

lemma subscribers_named:
  assumes "manager_ok m" "h \<in> set (subscribers (hm_hooks m) e)"
  shows "map_of (hm_hooks m) (hk_name h) = Some h \<and> hk_enabled h \<and> e \<in> set (hk_events h)"
proof -
  obtain k where k: "(k, h) \<in> set (hm_hooks m)" "hk_enabled h" "e \<in> set (hk_events h)"
    using assms(2) by (auto simp: subscribers_def is_subscribed_def)
  moreover have "hk_name h = k" "distinct (map fst (hm_hooks m))"
    using k(1) assms(1) by (auto simp: manager_ok_def list_all_iff dict_ok_def)
  ultimately show ?thesis using map_of_is_SomeI by simp
qed

lemma hook_names_ok: "manager_ok m \<Longrightarrow> hook_names e m = map hk_name (subscribers (hm_hooks m) e)"
  using event_types_all [of e] by (simp add: manager_ok_def list_all_iff)

lemma execute_verdicts:
  assumes "manager_ok m"
  shows "without_errors (fst (execute_hooks e cx m)) =
    merge_all (map (\<lambda>h. (hk_name h, verdict (hm_timeout m) cx h)) (subscribers (hm_hooks m) e))"
  using execute_fold [of "subscribers (hm_hooks m) e" "(new_aggregate, m)" e cx] subscribers_named [OF assms]
  by (simp add: execute_hooks_def hook_names_ok [OF assms] merge_all_def fold_map comp_def)

text \<open>While hooks are only registered and removed, an event runs exactly the enabled hooks that subscribe to
  it, by ascending priority and in order of registration among equals, and merges their verdicts, where a
  failure counts as what the hook's fail mode says.\<close>

theorem execute_hooks_correct:
  assumes "manager_ok m"
  shows "ag_results (fst (execute_hooks e cx m)) =
      map (verdict (hm_timeout m) cx) (sort_key hk_priority (filter (is_subscribed e) (map snd (hm_hooks m)))) \<and>
    ag_decision (fst (execute_hooks e cx m)) =
      ag_decision (merge_all (map (\<lambda>h. (hk_name h, verdict (hm_timeout m) cx h)) (subscribers (hm_hooks m) e)))"
proof -
  have res: "ag_results (merge_all rs) = map snd rs" for rs
    by (induction rs rule: rev_induct) (auto simp: merge_all_snoc agg_add_def Let_def new_aggregate_def split: decision.split)
  have "ag_results (fst (execute_hooks e cx m)) = ag_results (without_errors (fst (execute_hooks e cx m)))"
    by (simp add: without_errors_def)
  thus ?thesis using execute_verdicts [OF assms, of e cx] res
    by (metis (no_types, lifting) map_map comp_def snd_conv map_eq_conv subscribers_def without_errors_simps(4))
qed

lemma execute_denied_iff:
  assumes "manager_ok m"
  shows "ag_decision (fst (execute_hooks e cx m)) = Deny \<longleftrightarrow>
    (\<exists>h \<in> set (subscribers (hm_hooks m) e). hr_decision (verdict (hm_timeout m) cx h) = Deny)"
proof -
  let ?rs = "map (\<lambda>h. (hk_name h, verdict (hm_timeout m) cx h)) (subscribers (hm_hooks m) e)"
  have dec: "ag_decision (merge_all rs) = Deny \<longleftrightarrow> denials rs \<noteq> []" for rs
  proof (induction rs rule: rev_induct)
    case (snoc x rs)
    obtain n r where x: "x = (n, r)" by (cases x)
    show ?case using snoc unfolding x merge_all_snoc
      by (cases "hr_decision r") (auto simp: agg_add_def Let_def denials_def)
  qed (simp add: denials_def new_aggregate_def)
  have same: "ag_decision (fst (execute_hooks e cx m)) = ag_decision (merge_all ?rs)"
    using execute_verdicts [OF assms, of e cx] by (metis without_errors_simps(4))
  show ?thesis unfolding same dec by (auto simp: denials_def filter_empty_conv)
qed

text \<open>C23: A tool call is denied if the security hook is registered, is quick enough, and its analyzers see a
  risk at or above the threshold in a non-empty bash command, whatever the other hooks answer.\<close>

theorem security_hook_denies:
  assumes "manager_ok m" "map_of (hm_hooks m) ''security'' = Some (security_hook cfg ans dur)" "\<forall>cx. dur cx \<le> 5"
    and "ans \<noteq> []" "se_tools cfg = []" "map_of args ''command'' = Some (JStr cmd)" "cmd \<noteq> []"
    and "risk_from_name (se_threshold cfg) \<le> ra_risk (analyze_sequence ans cmd ''bash'')"
  shows "ag_decision (fst (emit_pre_tool_use ''bash'' args conv agent m)) = Deny"
proof -
  let ?cx = "(base_context PRE_TOOL_USE conv agent ''agent'')\<lparr>cx_tool := Some ''bash'', cx_args := Some args\<rparr>"
  have "args \<noteq> []" using assms(6) by auto
  hence "extract_action ?cx = JStr cmd" using assms(6)
    by (simp add: extract_action_def lower_def lower_char_def jget_def)
  hence "hr_decision (security_on_event cfg ans ?cx) = Deny"
    using assms(4,5,7,8) by (simp add: security_on_event_def base_context_def Let_def falsy_def assess_def is_risky_def deny_def)
  moreover have "\<not> 5 < dur ?cx" using assms(3) by (simp add: not_less)
  hence "verdict (hm_timeout m) ?cx (security_hook cfg ans dur) = security_on_event cfg ans ?cx"
    by (simp add: verdict_def run_hook_def security_hook_def effective_timeout_def Let_def)
  moreover have "security_hook cfg ans dur \<in> set (subscribers (hm_hooks m) PRE_TOOL_USE)"
    using map_of_SomeD [OF assms(2)] by (force simp: subscribers_def is_subscribed_def security_hook_def)
  ultimately show ?thesis unfolding emit_pre_tool_use_def execute_denied_iff [OF assms(1)]
    by (intro bexI [of _ "security_hook cfg ans dur"]) simp_all
qed

text \<open>A hook that subscribes and times out or raises decides by its fail mode: without fail-open the event
  is denied, and with it the failure alone never denies.\<close>

theorem failing_hook_fails_closed:
  assumes "manager_ok m" "h \<in> set (subscribers (hm_hooks m) e)"
    "fst (run_hook (hm_timeout m) h cx) = Timed_Out \<or> fst (run_hook (hm_timeout m) h cx) = Raised ex" "\<not> hk_fail_open h"
  shows "ag_decision (fst (execute_hooks e cx m)) = Deny"
  using assms(2-4) unfolding execute_denied_iff [OF assms(1)]
  by (intro bexI [of _ h]) (auto simp: verdict_def fallback_def deny_def)

text \<open>The security hook catches every exception itself and answers \<open>Allow\<close>, so \<open>fail_open = False\<close> would not
  make it fail closed: with analyzers that all raise, no threshold above \<open>LOW\<close> is ever met.\<close>

lemma raising_analyzers_low: "\<forall>an \<in> set ans. an_analyze an = (\<lambda>_ _. Raises ex) \<Longrightarrow> ra_risk (analyze_sequence ans act tool) \<le> LOW"
proof -
  assume raising: "\<forall>an \<in> set ans. an_analyze an = (\<lambda>_ _. Raises ex)"
  have "ra_risk cur \<le> LOW \<Longrightarrow>
      ra_risk (fold (\<lambda>an current. merge_assessments current (safe_analyze an act tool)) ans cur) \<le> LOW" for cur
    using raising
  proof (induction ans arbitrary: cur)
    case (Cons an ans)
    have "ra_risk (merge_assessments cur (safe_analyze an act tool)) \<le> LOW"
      using Cons.prems by (auto simp: merge_assessments_def safe_analyze_def)
    thus ?case using Cons by simp
  qed simp
  thus ?thesis by (simp add: analyze_sequence_def no_assessment_def less_eq_risk_def)
qed

theorem unscannable_action_allowed:
  assumes "map_of args ''command'' = Some (JArr cmd)" "LOW < risk_from_name (se_threshold cfg)"
  shows "hr_decision (security_on_event cfg ans
    ((base_context PRE_TOOL_USE conv agent ''agent'')\<lparr>cx_tool := Some ''bash'', cx_args := Some args\<rparr>)) = Allow"
proof -
  have "args \<noteq> []" using assms(1) by auto
  hence act: "extract_action ((base_context PRE_TOOL_USE conv agent ''agent'')\<lparr>cx_tool := Some ''bash'', cx_args := Some args\<rparr>) = JArr cmd"
    using assms(1) by (simp add: extract_action_def lower_def lower_char_def jget_def)
  have "ra_risk (assess ans (JArr cmd) ''bash'') \<le> LOW"
    using raising_analyzers_low [of "map (\<lambda>an. an\<lparr>an_analyze := (\<lambda>_ _. Raises ''not a text'')\<rparr>) ans" "''not a text''"]
    by (simp add: assess_def)
  thus ?thesis using assms(2) act
    by (auto simp: security_on_event_def base_context_def Let_def allow_def is_risky_def)
qed

text \<open>A threshold that is no risk name counts as \<open>UNKNOWN\<close>, and then everything is denied.\<close>

theorem misspelt_threshold_denies_all:
  assumes "risk_from_name (se_threshold cfg) = UNKNOWN" "se_scan_prompts cfg" "ans \<noteq> []" "msg \<noteq> []"
    "cx_event cx = USER_PROMPT_SUBMIT" "cx_message cx = Some msg"
  shows "hr_decision (security_on_event cfg ans cx) = Deny"
  using assms by (simp add: security_on_event_def is_risky_def deny_def less_eq_risk_def)

text \<open>A hook that is enabled after its registration is not run: the index is not rebuilt.\<close>

theorem late_enabled_hook_not_run:
  "hook_names e (configure name (\<lambda>h. h\<lparr>hk_enabled := True\<rparr>) m) = hook_names e m"
  by (simp add: hook_names_def configure_def)

definition metrics_ok :: "metrics \<Rightarrow> bool" where
  "metrics_ok m \<longleftrightarrow> mt_errors m + mt_timeouts m + mt_denies m + mt_modifications m \<le> mt_invocations m"

lemma record_metrics_ok:
  "metrics_ok m \<Longrightarrow> \<not> (er \<and> ti) \<Longrightarrow> (er \<or> ti) \<longrightarrow> dec = Allow \<Longrightarrow> metrics_ok (record_metrics d dec er ti m)"
  by (auto simp: metrics_ok_def record_metrics_def)

subsection \<open>A small registry\<close>

definition grumpy :: hook where
  "grumpy = \<lparr>hk_name = ''grumpy'', hk_priority = 50, hk_enabled = True, hk_events = [PRE_TOOL_USE, STOP], hk_timeout = 1,
     hk_fail_open = False, hk_on_event = (\<lambda>_. (Raised ''boom'', 0))\<rparr>"

definition alarm :: analyzer where
  "alarm = \<lparr>an_name = ''alarm'', an_analyze = (\<lambda>_ _. Assessed (no_assessment\<lparr>ra_risk := HIGH\<rparr>))\<rparr>"

definition demo_config :: security_config where
  "demo_config = \<lparr>se_threshold = ''high'', se_tools = [], se_scan_prompts = True\<rparr>"

definition demo_registry :: manager where
  "demo_registry = register_many [grumpy, security_hook demo_config [alarm] (\<lambda>_. 1)] (new_manager 10)"

lemma demo_registry_ok: "manager_ok demo_registry"
  unfolding demo_registry_def by (intro manager_ok_steps)

lemma demo_subscribers: "map hk_name (subscribers (hm_hooks demo_registry) PRE_TOOL_USE) = [''security'', ''grumpy'']"
  "grumpy \<in> set (subscribers (hm_hooks demo_registry) STOP)"
  by (simp_all add: demo_registry_def register_many_def new_manager_def subscribers_def is_subscribed_def grumpy_def security_hook_def)

theorem execute_hooks_correct_witness:
  "ag_decision (fst (execute_hooks STOP (base_context STOP [] [] []) demo_registry)) =
     ag_decision (merge_all (map (\<lambda>h. (hk_name h, verdict (hm_timeout demo_registry) (base_context STOP [] [] []) h))
       (subscribers (hm_hooks demo_registry) STOP)))"
  using execute_hooks_correct [OF demo_registry_ok, of STOP "base_context STOP [] [] []"] by blast

theorem security_hook_denies_witness:
  "ag_decision (fst (emit_pre_tool_use ''bash'' [(''command'', JStr ''ls'')] [] [] demo_registry)) = Deny"
  by (rule security_hook_denies [where cfg = demo_config and ans = "[alarm]" and dur = "\<lambda>_. 1" and cmd = "''ls''",
        OF demo_registry_ok])
    (simp_all add: demo_registry_def register_many_def new_manager_def demo_config_def security_hook_def grumpy_def
      risk_from_name_def lower_def lower_char_def alarm_def analyze_sequence_def safe_analyze_def merge_assessments_def
      no_assessment_def less_risk_def)

theorem failing_hook_fails_closed_witness:
  "ag_decision (fst (execute_hooks STOP (base_context STOP [] [] []) demo_registry)) = Deny"
  by (rule failing_hook_fails_closed [OF demo_registry_ok demo_subscribers(2)])
    (simp_all add: run_hook_def grumpy_def effective_timeout_def Let_def)

end
