(* ===== verification/Nodes.thy ===== *)
theory Nodes
  imports Json
begin

text \<open>
  The registry of remote devices (\<open>nodes/manager.py\<close>) and its wire format (\<open>nodes/protocol.py\<close>).  The fields of
  a message hold whatever JSON value was sent, since nothing checks their types; a device id is a JSON value
  too, and one that is a list or an object cannot be a key.  (Python identifies the keys 1, 1.0 and True, the
  model does not.)  A \<open>NodeInfo\<close> object is a record with a reference number, so that writing to an object that
  has left the registry has no effect; \<open>dm_version\<close> counts the structural changes of the \<open>OrderedDict\<close>, which
  its iterators compare.  A web socket is a number, \<open>send k w t\<close> says whether the attempt after \<open>k\<close> others, to
  socket \<open>w\<close>, goes through, and every attempt is recorded.
\<close>

section \<open>The wire format\<close>

datatype message_type = REGISTER | REGISTERED | HEARTBEAT | HEARTBEAT_ACK | EVENT | CANVAS_PUSH | COMMAND | PONG | ERROR | DISCONNECT

fun message_value :: "message_type \<Rightarrow> string" where
  "message_value REGISTER = ''register''"
| "message_value REGISTERED = ''registered''"
| "message_value HEARTBEAT = ''heartbeat''"
| "message_value HEARTBEAT_ACK = ''heartbeat_ack''"
| "message_value EVENT = ''event''"
| "message_value CANVAS_PUSH = ''canvas_push''"
| "message_value COMMAND = ''command''"
| "message_value PONG = ''pong''"
| "message_value ERROR = ''error''"
| "message_value DISCONNECT = ''disconnect''"

datatype node_error = Attribute_Error | Type_Error | Key_Error | Runtime_Error

record node_register =
  nr_device_id :: json
  nr_device_type :: json
  nr_capabilities :: json
  nr_os_name :: json
  nr_os_version :: json
  nr_app_version :: json
  nr_api_key :: "string option"
  nr_width :: json
  nr_height :: json

definition register_to_dict :: "string \<Rightarrow> node_register \<Rightarrow> jdict" where
  "register_to_dict ts r =
     [(''type'', JStr (message_value REGISTER)), (''device_id'', nr_device_id r), (''device_type'', nr_device_type r),
      (''capabilities'', nr_capabilities r), (''os_name'', nr_os_name r), (''os_version'', nr_os_version r),
      (''app_version'', nr_app_version r), (''screen_width'', nr_width r), (''screen_height'', nr_height r),
      (''timestamp'', JFloat ts)]"

text \<open>\<open>x.get(k, d)\<close> on a value that may not be a dict.\<close>

definition dict_of :: "json \<Rightarrow> node_error + jdict" where
  "dict_of j = (case j of JObj d \<Rightarrow> Inr d | _ \<Rightarrow> Inl Attribute_Error)"

definition register_from_dict :: "jdict \<Rightarrow> node_error + node_register" where
  "register_from_dict data =
     (case dict_of (jget ''device'' data (JObj data)) of
        Inl e \<Rightarrow> Inl e
      | Inr d \<Rightarrow> Inr \<lparr>nr_device_id = jget ''device_id'' d (JStr []), nr_device_type = jget ''device_type'' d (JStr ''unknown''),
          nr_capabilities = jget ''capabilities'' d (JArr []), nr_os_name = jget ''os_name'' d (JStr ''unknown''),
          nr_os_version = jget ''os_version'' d (JStr []), nr_app_version = jget ''app_version'' d (JStr ''1.0.0''),
          nr_api_key = None, nr_width = jget ''screen_width'' d (JInt 0), nr_height = jget ''screen_height'' d (JInt 0)\<rparr>)"

record node_heartbeat =
  hb_device_id :: json
  hb_battery :: json
  hb_memory :: json
  hb_network :: json

definition heartbeat_to_dict :: "string \<Rightarrow> node_heartbeat \<Rightarrow> jdict" where
  "heartbeat_to_dict ts h =
     [(''type'', JStr (message_value HEARTBEAT)), (''device_id'', hb_device_id h), (''battery_level'', hb_battery h),
      (''memory_usage'', hb_memory h), (''network_type'', hb_network h), (''timestamp'', JFloat ts)]"

record node_event =
  ne_device_id :: json
  ne_type :: json
  ne_x :: json
  ne_y :: json
  ne_data :: json
  ne_component :: json
  ne_timestamp :: json

definition event_to_dict :: "node_event \<Rightarrow> jdict" where
  "event_to_dict e =
     [(''type'', JStr (message_value EVENT)), (''device_id'', ne_device_id e), (''event_type'', ne_type e),
      (''x'', ne_x e), (''y'', ne_y e), (''data'', ne_data e), (''component_id'', ne_component e),
      (''timestamp'', ne_timestamp e)]"

definition event_from_dict :: "string \<Rightarrow> jdict \<Rightarrow> node_event" where
  "event_from_dict now d =
     \<lparr>ne_device_id = jget ''device_id'' d (JStr []), ne_type = jget ''event_type'' d (JStr ''tap''),
      ne_x = jget ''x'' d (JFloat ''0.0''), ne_y = jget ''y'' d (JFloat ''0.0''), ne_data = jget ''data'' d (JStr []),
      ne_component = jget ''component_id'' d (JStr []), ne_timestamp = jget ''timestamp'' d (JFloat now)\<rparr>"

record canvas_push =
  cp_session :: json
  cp_components :: "jdict list"
  cp_clear :: bool
  cp_full :: bool

definition canvas_to_dict :: "string \<Rightarrow> canvas_push \<Rightarrow> jdict" where
  "canvas_to_dict ts p =
     [(''type'', JStr (message_value CANVAS_PUSH)), (''message_type'', JStr ''canvas_update''), (''session_id'', cp_session p),
      (''components'', JArr (map JObj (cp_components p))), (''clear_first'', JBool (cp_clear p)),
      (''full_state'', JBool (cp_full p)), (''timestamp'', JFloat ts)]"

record node_command =
  nc_command :: json
  nc_device_id :: json
  nc_params :: json

definition command_to_dict :: "string \<Rightarrow> node_command \<Rightarrow> jdict" where
  "command_to_dict ts c =
     [(''type'', JStr (message_value COMMAND)), (''command'', nc_command c), (''device_id'', nc_device_id c),
      (''params'', nc_params c), (''timestamp'', JFloat ts)]"

definition command_from_dict :: "jdict \<Rightarrow> node_command" where
  "command_from_dict d =
     \<lparr>nc_command = jget ''command'' d (JStr []), nc_device_id = jget ''device_id'' d (JStr []), nc_params = jget ''params'' d (JObj [])\<rparr>"

definition serialize_message :: "jdict \<Rightarrow> string" where
  "serialize_message d = dumps (JObj d)"

definition parse_message :: "string \<Rightarrow> json" where
  "parse_message raw = (case loads raw of Some j \<Rightarrow> j | None \<Rightarrow> JObj [])"

definition parse_node_register :: "string \<Rightarrow> node_error + node_register option" where
  "parse_node_register raw =
     (case dict_of (parse_message raw) of
        Inl e \<Rightarrow> Inl e
      | Inr d \<Rightarrow> if map_of d ''type'' = Some (JStr (message_value REGISTER)) \<or> has_key ''device'' d
                then map_sum id Some (register_from_dict d) else Inr None)"

definition parse_node_event :: "string \<Rightarrow> string \<Rightarrow> node_error + node_event option" where
  "parse_node_event now raw =
     (case dict_of (parse_message raw) of
        Inl e \<Rightarrow> Inl e
      | Inr d \<Rightarrow> Inr (if map_of d ''type'' = Some (JStr (message_value EVENT)) then Some (event_from_dict now d) else None))"

text \<open>What iterating over a value that should be a list of texts yields: the texts, the characters of a text,
  the keys of an object; anything else raises.\<close>

fun text_of :: "json \<Rightarrow> string option" where
  "text_of (JStr s) = Some s"
| "text_of _ = None"

fun iter_texts :: "json \<Rightarrow> string list option" where
  "iter_texts (JArr xs) = those (map text_of xs)"
| "iter_texts (JStr s) = Some (map (\<lambda>c. [c]) s)"
| "iter_texts (JObj d) = Some (map fst d)"
| "iter_texts _ = None"

text \<open>\<open>CapabilityChecker\<close>: built from a list of texts.\<close>

definition checker :: "string list \<Rightarrow> string set" where
  "checker caps = set (map lower caps)"

definition checker_has :: "string set \<Rightarrow> string \<Rightarrow> bool" where
  "checker_has cs c \<longleftrightarrow> lower c \<in> cs"

definition checker_all :: "string set \<Rightarrow> string list \<Rightarrow> bool" where
  "checker_all cs caps \<longleftrightarrow> list_all (\<lambda>c. lower c \<in> cs) caps"

definition checker_any :: "string set \<Rightarrow> string list \<Rightarrow> bool" where
  "checker_any cs caps \<longleftrightarrow> list_ex (\<lambda>c. lower c \<in> cs) caps"

section \<open>The registry\<close>

record node_info =
  ni_ref :: nat
  ni_device_id :: json
  ni_device_type :: json
  ni_capabilities :: json
  ni_os_name :: json
  ni_os_version :: json
  ni_app_version :: json
  ni_width :: json
  ni_height :: json
  ni_connected :: bool
  ni_heartbeat :: time
  ni_battery :: json
  ni_network :: json
  ni_ws :: "nat option"

record manager =
  dm_nodes :: "(json \<times> node_info) list"
  dm_max :: int
  dm_timeout :: time
  dm_handlers :: "nat list"
  dm_command_handlers :: "nat list"
  dm_version :: nat
  dm_next :: nat
  dm_sent :: "(nat \<times> string \<times> bool) list"
  dm_events :: "(nat \<times> node_event) list"
  dm_commands :: "(nat \<times> node_command) list"

definition new_manager :: "int \<Rightarrow> time \<Rightarrow> manager" where
  "new_manager max_nodes heartbeat_timeout = \<lparr>dm_nodes = [], dm_max = max_nodes, dm_timeout = heartbeat_timeout,
     dm_handlers = [], dm_command_handlers = [], dm_version = 0, dm_next = 0, dm_sent = [], dm_events = [], dm_commands = []\<rparr>"

definition is_stale :: "time \<Rightarrow> manager \<Rightarrow> node_info \<Rightarrow> bool" where
  "is_stale now m n \<longleftrightarrow> \<not> ni_connected n \<or> now - ni_heartbeat n > dm_timeout m * 2"

definition evict_stale :: "time \<Rightarrow> manager \<Rightarrow> manager" where
  "evict_stale now m =
     m\<lparr>dm_nodes := filter (\<lambda>(k, n). \<not> is_stale now m n) (dm_nodes m),
       dm_version := dm_version m + length (filter (\<lambda>(k, n). is_stale now m n) (dm_nodes m))\<rparr>"

text \<open>\<open>popitem(last=False)\<close> while there are too many; on an empty dict it raises.\<close>

fun make_room :: "int \<Rightarrow> ('k \<times> 'v) list \<Rightarrow> (node_error + unit) \<times> ('k \<times> 'v) list" where
  "make_room mx [] = (if mx \<le> 0 then Inl Key_Error else Inr (), [])"
| "make_room mx (x # xs) = (if mx \<le> int (length (x # xs)) then make_room mx xs else (Inr (), x # xs))"

definition move_to_end :: "'k \<Rightarrow> ('k \<times> 'v) list \<Rightarrow> ('k \<times> 'v) list" where
  "move_to_end k d = AList.delete k d @ filter (\<lambda>(k', v). k' = k) d"

fun hashable :: "json \<Rightarrow> bool" where
  "hashable (JArr xs) = False"
| "hashable (JObj d) = False"
| "hashable _ = True"

text \<open>The line that is logged joins the capabilities, which raises if they are not texts; by then the node is
  in the registry.\<close>

definition logged :: "node_info \<Rightarrow> manager \<Rightarrow> (node_error + node_info) \<times> manager" where
  "logged n m = (case iter_texts (ni_capabilities n) of None \<Rightarrow> (Inl Type_Error, m) | Some cs \<Rightarrow> (Inr n, m))"

definition update_node :: "time \<Rightarrow> nat option \<Rightarrow> node_register \<Rightarrow> node_info \<Rightarrow> node_info" where
  "update_node now ws r n =
     n\<lparr>ni_device_type := nr_device_type r, ni_capabilities := nr_capabilities r, ni_os_name := nr_os_name r,
       ni_os_version := nr_os_version r, ni_app_version := nr_app_version r, ni_width := nr_width r, ni_height := nr_height r,
       ni_connected := True, ni_heartbeat := now, ni_ws := (case ws of Some w \<Rightarrow> Some w | None \<Rightarrow> ni_ws n)\<rparr>"

definition create_node :: "time \<Rightarrow> nat option \<Rightarrow> node_register \<Rightarrow> nat \<Rightarrow> node_info" where
  "create_node now ws r ref =
     \<lparr>ni_ref = ref, ni_device_id = nr_device_id r, ni_device_type = nr_device_type r, ni_capabilities = nr_capabilities r,
      ni_os_name = nr_os_name r, ni_os_version = nr_os_version r, ni_app_version = nr_app_version r, ni_width = nr_width r,
      ni_height = nr_height r, ni_connected = True, ni_heartbeat = now, ni_battery = JFloat ''1.0'', ni_network = JStr ''unknown'',
      ni_ws = ws\<rparr>"

definition register :: "time \<Rightarrow> nat option \<Rightarrow> node_register \<Rightarrow> manager \<Rightarrow> (node_error + node_info) \<times> manager" where
  "register now ws r m =
     (let did = nr_device_id r
      in if \<not> hashable did then (Inl Type_Error, m)
         else case map_of (dm_nodes m) did of
           Some n \<Rightarrow>
             (let n' = update_node now ws r n;
                  at_end = (fst (last (dm_nodes m)) = did)
              in logged n' (m\<lparr>dm_nodes := move_to_end did (AList.update did n' (dm_nodes m)),
                             dm_version := (if at_end then dm_version m else dm_version m + 1)\<rparr>))
         | None \<Rightarrow>
             (let m1 = evict_stale now m
              in case make_room (dm_max m) (dm_nodes m1) of
                   (Inl e, ns) \<Rightarrow> (Inl e, m1\<lparr>dm_nodes := ns, dm_version := dm_version m1 + length (dm_nodes m1)\<rparr>)
                 | (Inr _, ns) \<Rightarrow>
                     (let n = create_node now ws r (dm_next m1)
                      in logged n (m1\<lparr>dm_nodes := ns @ [(did, n)], dm_next := dm_next m1 + 1,
                           dm_version := dm_version m1 + (length (dm_nodes m1) - length ns) + 1\<rparr>))))"

definition unregister :: "json \<Rightarrow> manager \<Rightarrow> bool \<times> manager" where
  "unregister did m =
     (if map_of (dm_nodes m) did \<noteq> None
      then (True, m\<lparr>dm_nodes := AList.delete did (dm_nodes m), dm_version := dm_version m + 1\<rparr>)
      else (False, m))"

text \<open>Writing to a \<open>NodeInfo\<close> object, by its reference.\<close>

definition write_node :: "nat \<Rightarrow> (node_info \<Rightarrow> node_info) \<Rightarrow> manager \<Rightarrow> manager" where
  "write_node ref f m = m\<lparr>dm_nodes := map (\<lambda>(k, n). (k, if ni_ref n = ref then f n else n)) (dm_nodes m)\<rparr>"

definition update_heartbeat :: "time \<Rightarrow> json \<Rightarrow> node_heartbeat option \<Rightarrow> manager \<Rightarrow> manager" where
  "update_heartbeat now did hb m =
     (case map_of (dm_nodes m) did of
        None \<Rightarrow> m
      | Some n \<Rightarrow> write_node (ni_ref n) (\<lambda>n. let n1 = n\<lparr>ni_heartbeat := now, ni_connected := True\<rparr>
          in case hb of Some h \<Rightarrow> n1\<lparr>ni_battery := hb_battery h, ni_network := hb_network h\<rparr> | None \<Rightarrow> n1) m)"

definition timed_out :: "time \<Rightarrow> manager \<Rightarrow> node_info \<Rightarrow> bool" where
  "timed_out now m n \<longleftrightarrow> ni_connected n \<and> now - ni_heartbeat n > dm_timeout m"

definition check_heartbeats :: "time \<Rightarrow> manager \<Rightarrow> json list \<times> manager" where
  "check_heartbeats now m =
     (map fst (filter (\<lambda>(k, n). timed_out now m n) (dm_nodes m)),
      m\<lparr>dm_nodes := map (\<lambda>(k, n). (k, if timed_out now m n then n\<lparr>ni_connected := False\<rparr> else n)) (dm_nodes m)\<rparr>)"

definition shutdown :: "manager \<Rightarrow> manager" where
  "shutdown m = (fold (\<lambda>did m. snd (unregister did m)) (map fst (dm_nodes m)) m)\<lparr>dm_handlers := [], dm_command_handlers := []\<rparr>"

section \<open>Queries\<close>

definition get_node :: "json \<Rightarrow> manager \<Rightarrow> node_info option" where
  "get_node did m = map_of (dm_nodes m) did"

definition list_nodes :: "manager \<Rightarrow> node_info list" where
  "list_nodes m = map snd (dm_nodes m)"

definition list_connected :: "manager \<Rightarrow> node_info list" where
  "list_connected m = filter ni_connected (map snd (dm_nodes m))"

definition connected_count :: "manager \<Rightarrow> nat" where
  "connected_count m = sum_list (map (\<lambda>n. 1) (list_connected m))"

definition total_count :: "manager \<Rightarrow> nat" where
  "total_count m = length (dm_nodes m)"

fun find_capable :: "string \<Rightarrow> node_info list \<Rightarrow> node_error + node_info list" where
  "find_capable cap [] = Inr []"
| "find_capable cap (n # ns) =
     (if \<not> ni_connected n then find_capable cap ns
      else case iter_texts (ni_capabilities n) of
        None \<Rightarrow> Inl (case ni_capabilities n of JArr _ \<Rightarrow> Attribute_Error | _ \<Rightarrow> Type_Error)
      | Some cs \<Rightarrow>
          (case find_capable cap ns of
             Inl e \<Rightarrow> Inl e
           | Inr found \<Rightarrow> Inr (if lower cap \<in> set (map lower cs) then n # found else found)))"

definition find_by_capability :: "string \<Rightarrow> manager \<Rightarrow> node_error + node_info list" where
  "find_by_capability cap m = find_capable cap (list_nodes m)"

section \<open>Messages\<close>

text \<open>What other tasks can do to the registry while a send is awaited; each of these operations runs without
  interruption.\<close>

datatype node_op =
  Register time "nat option" node_register | Unregister json | Heartbeat time json "node_heartbeat option" | Check time

fun do_op :: "node_op \<Rightarrow> manager \<Rightarrow> manager" where
  "do_op (Register now ws r) m = snd (register now ws r m)"
| "do_op (Unregister did) m = snd (unregister did m)"
| "do_op (Heartbeat now did hb) m = update_heartbeat now did hb m"
| "do_op (Check now) m = snd (check_heartbeats now m)"

record node_env =
  ev_send :: "nat \<Rightarrow> nat \<Rightarrow> bool"
  ev_clock :: "nat \<Rightarrow> string"
  ev_others :: "nat \<Rightarrow> node_op list"

datatype payload = Protocol "string \<Rightarrow> jdict" | Plain jdict | Other string

definition payload_text :: "string \<Rightarrow> payload \<Rightarrow> string" where
  "payload_text ts p =
     (case p of Protocol f \<Rightarrow> serialize_message (f ts) | Plain d \<Rightarrow> dumps (JObj d) | Other s \<Rightarrow> s)"

definition send_to_node :: "node_env \<Rightarrow> json \<Rightarrow> payload \<Rightarrow> manager \<Rightarrow> bool \<times> manager" where
  "send_to_node ev did data m =
     (case map_of (dm_nodes m) did of
        None \<Rightarrow> (False, m)
      | Some n \<Rightarrow>
          (if \<not> ni_connected n then (False, m)
           else case ni_ws n of
             None \<Rightarrow> (False, m)
           | Some w \<Rightarrow>
               (let k = length (dm_sent m);
                    ok = ev_send ev k w;
                    m1 = m\<lparr>dm_sent := dm_sent m @ [(w, payload_text (ev_clock ev k) data, ok)]\<rparr>;
                    m2 = fold do_op (ev_others ev k) m1
                in if ok then (True, m2) else (False, write_node (ni_ref n) (\<lambda>n. n\<lparr>ni_connected := False\<rparr>) m2))))"

text \<open>The loop of \<open>broadcast\<close> over the live dict: its iterator raises at the next element when the dict has
  changed its structure.\<close>

definition is_target :: "(node_info \<Rightarrow> bool) \<Rightarrow> node_info \<Rightarrow> bool" where
  "is_target flt n \<longleftrightarrow> ni_connected n \<and> ni_ws n \<noteq> None \<and> flt n"

fun broadcast_loop ::
    "node_env \<Rightarrow> payload \<Rightarrow> (node_info \<Rightarrow> bool) \<Rightarrow> nat \<Rightarrow> json list \<Rightarrow> nat \<Rightarrow> json list \<Rightarrow> manager \<Rightarrow>
      (node_error + nat \<times> json list) \<times> manager" where
  "broadcast_loop ev data flt v [] sent gone m = (Inr (sent, gone), m)"
| "broadcast_loop ev data flt v (did # dids) sent gone m =
     (if dm_version m \<noteq> v then (Inl Runtime_Error, m)
      else case map_of (dm_nodes m) did of
        None \<Rightarrow> (Inl Runtime_Error, m)
      | Some n \<Rightarrow>
          (if \<not> is_target flt n then broadcast_loop ev data flt v dids sent gone m
           else case send_to_node ev did data m of
             (True, m') \<Rightarrow> broadcast_loop ev data flt v dids (Suc sent) gone m'
           | (False, m') \<Rightarrow> broadcast_loop ev data flt v dids sent (gone @ [did]) m'))"

definition broadcast :: "node_env \<Rightarrow> payload \<Rightarrow> (node_info \<Rightarrow> bool) \<Rightarrow> manager \<Rightarrow> (node_error + nat) \<times> manager" where
  "broadcast ev data flt m =
     (case broadcast_loop ev data flt (dm_version m) (map fst (dm_nodes m)) 0 [] m of
        (Inl e, m') \<Rightarrow> (Inl e, m')
      | (Inr (sent, gone), m') \<Rightarrow> (Inr sent, fold (\<lambda>did m. snd (unregister did m)) gone m'))"

definition send_canvas_update ::
    "node_env \<Rightarrow> json \<Rightarrow> jdict list \<Rightarrow> bool \<Rightarrow> json \<Rightarrow> manager \<Rightarrow> (node_error + nat) \<times> manager" where
  "send_canvas_update ev session components clear_first device m =
     (let push = Protocol (\<lambda>ts. canvas_to_dict ts \<lparr>cp_session = session, cp_components = components, cp_clear = clear_first, cp_full = False\<rparr>)
      in if \<not> falsy device
         then (case send_to_node ev device push m of (ok, m') \<Rightarrow> (Inr (if ok then 1 else 0), m'))
         else broadcast ev push (\<lambda>_. True) m)"

text \<open>Handlers that raise are caught one by one, so each of them is called.\<close>

definition on_event :: "nat \<Rightarrow> manager \<Rightarrow> manager" where
  "on_event h m = m\<lparr>dm_handlers := dm_handlers m @ [h]\<rparr>"

definition on_command :: "nat \<Rightarrow> manager \<Rightarrow> manager" where
  "on_command h m = m\<lparr>dm_command_handlers := dm_command_handlers m @ [h]\<rparr>"

definition handle_event :: "node_event \<Rightarrow> manager \<Rightarrow> manager" where
  "handle_event e m = m\<lparr>dm_events := dm_events m @ map (\<lambda>h. (h, e)) (dm_handlers m)\<rparr>"

definition handle_command :: "node_command \<Rightarrow> manager \<Rightarrow> manager" where
  "handle_command c m = m\<lparr>dm_commands := dm_commands m @ map (\<lambda>h. (h, c)) (dm_command_handlers m)\<rparr>"

definition heartbeat_of :: "json \<Rightarrow> jdict \<Rightarrow> node_heartbeat" where
  "heartbeat_of did d =
     \<lparr>hb_device_id = did, hb_battery = jget ''battery_level'' d (JFloat ''1.0''),
      hb_memory = jget ''memory_usage'' d (JFloat ''0.0''), hb_network = jget ''network_type'' d (JStr ''unknown'')\<rparr>"

definition send_ack :: "node_env \<Rightarrow> string \<Rightarrow> json \<Rightarrow> manager \<Rightarrow> manager" where
  "send_ack ev wall did m =
     (case map_of (dm_nodes m) did of
        None \<Rightarrow> m
      | Some n \<Rightarrow>
          (if ni_ws n = None then m
           else snd (send_to_node ev did (Plain [(''type'', JStr (message_value HEARTBEAT_ACK)), (''device_id'', did),
                       (''timestamp'', JFloat wall)]) m)))"

definition process_message :: "node_env \<Rightarrow> time \<Rightarrow> string \<Rightarrow> json \<Rightarrow> string \<Rightarrow> manager \<Rightarrow> (node_error + unit) \<times> manager" where
  "process_message ev now wall did raw m =
     (case dict_of (parse_message raw) of
        Inl e \<Rightarrow> (Inl e, m)
      | Inr d \<Rightarrow>
          (let ty = jget ''type'' d (JStr [])
           in if ty = JStr (message_value HEARTBEAT)
              then (Inr (), send_ack ev wall did (update_heartbeat now did (Some (heartbeat_of did d)) m))
              else if ty = JStr (message_value EVENT)
              then (case parse_node_event wall raw of
                      Inl e \<Rightarrow> (Inl e, m)
                    | Inr None \<Rightarrow> (Inr (), m)
                    | Inr (Some e) \<Rightarrow> (Inr (), handle_event (e\<lparr>ne_device_id := did\<rparr>) m))
              else if ty = JStr (message_value COMMAND)
              then (Inr (), handle_command ((command_from_dict d)\<lparr>nc_device_id := did\<rparr>) m)
              else if ty = JStr ''ping''
              then (Inr (), snd (send_to_node ev did (Plain [(''type'', JStr ''pong'')]) m))
              else (Inr (), m)))"

section \<open>The invariant\<close>

text \<open>No device twice, the room respected, every entry under its own id, and references used once.\<close>

definition manager_ok :: "manager \<Rightarrow> bool" where
  "manager_ok m \<longleftrightarrow> dict_ok (dm_nodes m) \<and> int (length (dm_nodes m)) \<le> max 0 (dm_max m) \<and>
     list_all (\<lambda>(k, n). ni_device_id n = k) (dm_nodes m) \<and>
     distinct (map (ni_ref \<circ> snd) (dm_nodes m)) \<and> list_all (\<lambda>(k, n). ni_ref n < dm_next m) (dm_nodes m)"

lemma make_room_suffix: "make_room mx ns = (r, ns') \<Longrightarrow> \<exists>old. ns = old @ ns'"
  by (induction ns) (auto split: if_splits)

lemma make_room_room: "make_room mx ns = (Inr u, ns') \<Longrightarrow> int (length ns') < mx"
  by (induction ns) (auto split: if_splits)

lemma make_room_iff: "0 < mx \<Longrightarrow> make_room mx ns = (Inr (), drop (nat (int (length ns) - mx + 1)) ns)"
proof (induction ns)
  case (Cons x xs)
  show ?case
  proof (cases "mx \<le> int (length (x # xs))")
    case True
    have "nat (int (length (x # xs)) - mx + 1) = Suc (nat (int (length xs) - mx + 1))" using True by simp
    thus ?thesis using True Cons by simp
  qed simp
qed simp

lemma make_room_error: "mx \<le> 0 \<Longrightarrow> make_room mx ns = (Inl Key_Error, [])"
  by (induction ns) simp_all

text \<open>Any subsequence of a good registry is good; so is one whose entries are rewritten in place.\<close>

lemma subseq_map_distinct: "subseq xs ys \<Longrightarrow> distinct (map f ys) \<Longrightarrow> distinct (map f xs)"
  using distinct_nthsI [of "map f ys"] by (auto simp: subseq_conv_nths nths_map)

lemma subseq_list_all: "subseq xs ys \<Longrightarrow> list_all P ys \<Longrightarrow> list_all P xs"
  using set_nths_subset by (force simp: subseq_conv_nths list_all_iff)

lemma manager_ok_subseq:
  assumes "manager_ok m" "subseq ns (dm_nodes m)"
  shows "manager_ok (m\<lparr>dm_nodes := ns, dm_version := v\<rparr>)"
  using assms(1) list_emb_length [OF assms(2)] subseq_map_distinct [OF assms(2), of fst]
    subseq_map_distinct [OF assms(2), of "ni_ref \<circ> snd"] subseq_list_all [OF assms(2)]
  unfolding manager_ok_def dict_ok_def by (auto simp del: map_map)

lemma manager_ok_rewrite:
  assumes "manager_ok m" "\<And>n. ni_device_id (f n) = ni_device_id n \<and> ni_ref (f n) = ni_ref n"
  shows "manager_ok (m\<lparr>dm_nodes := map (\<lambda>(k, n). (k, f n)) (dm_nodes m)\<rparr>)"
proof -
  have "map fst (map (\<lambda>(k, n). (k, f n)) (dm_nodes m)) = map fst (dm_nodes m)" by (simp add: case_prod_unfold)
  moreover have "map (ni_ref \<circ> snd) (map (\<lambda>(k, n). (k, f n)) (dm_nodes m)) = map (ni_ref \<circ> snd) (dm_nodes m)"
    using assms(2) by (simp add: case_prod_unfold)
  ultimately show ?thesis using assms unfolding manager_ok_def dict_ok_def by (auto simp: list_all_iff simp del: map_map)
qed

lemma write_node_ok: "manager_ok m \<Longrightarrow> (\<And>n. ni_device_id (f n) = ni_device_id n \<and> ni_ref (f n) = ni_ref n) \<Longrightarrow> manager_ok (write_node ref f m)"
  unfolding write_node_def by (rule manager_ok_rewrite) simp_all

lemma evict_stale_ok: "manager_ok m \<Longrightarrow> manager_ok (evict_stale now m)"
  unfolding evict_stale_def by (rule manager_ok_subseq) simp_all

lemma unregister_ok: "manager_ok m \<Longrightarrow> manager_ok (snd (unregister did m))"
  using manager_ok_subseq [of m "AList.delete did (dm_nodes m)"] by (simp add: unregister_def AList.delete_eq)

lemma subseq_suffix: "subseq ys (xs @ ys)"
  by (induction xs) (simp_all add: list_emb_Cons)

lemma manager_ok_add:
  assumes "manager_ok m" "int (length (dm_nodes m)) < dm_max m" "map_of (dm_nodes m) k = None"
    "ni_device_id n = k" "ni_ref n = dm_next m"
  shows "manager_ok (m\<lparr>dm_nodes := dm_nodes m @ [(k, n)], dm_next := dm_next m + 1, dm_version := v\<rparr>)"
  using assms by (auto simp: manager_ok_def dict_ok_def map_of_eq_None_iff list_all_iff)

lemma move_to_end_split:
  assumes "k \<notin> fst ` set xs" "k \<notin> fst ` set ys"
  shows "move_to_end k (AList.update k v (xs @ (k, u) # ys)) = xs @ ys @ [(k, v)]"
proof -
  have "filter (\<lambda>(k', v). k' = k) zs = []" if "k \<notin> fst ` set zs" for zs :: "('a \<times> 'b) list"
    using that by (induction zs) auto
  moreover have "AList.update k v (xs @ (k, u) # ys) = xs @ (k, v) # ys" using assms(1) by (induction xs) auto
  ultimately show ?thesis using assms delete_absent [OF assms(1)] delete_absent [OF assms(2)]
    by (simp add: move_to_end_def AList.delete_eq)
qed

lemma manager_ok_move:
  assumes "manager_ok m" "map_of (dm_nodes m) k = Some n" "ni_device_id n' = k" "ni_ref n' = ni_ref n"
  shows "manager_ok (m\<lparr>dm_nodes := move_to_end k (AList.update k n' (dm_nodes m)), dm_version := v\<rparr>)"
proof -
  obtain xs ys where d: "dm_nodes m = xs @ (k, n) # ys" using assms(2) by (meson map_of_SomeD split_list)
  have k: "k \<notin> fst ` set xs" "k \<notin> fst ` set ys" using assms(1) by (auto simp: manager_ok_def dict_ok_def d image_iff)
  have "move_to_end k (AList.update k n' (dm_nodes m)) = xs @ ys @ [(k, n')]" unfolding d by (rule move_to_end_split [OF k])
  thus ?thesis using assms by (auto simp: manager_ok_def dict_ok_def d list_all_iff)
qed

lemma logged_snd [simp]: "snd (logged n m) = m"
  by (simp add: logged_def split: option.split)

lemma register_cases:
  obtains (refused) "\<not> hashable (nr_device_id r)" "register now ws r m = (Inl Type_Error, m)"
  | (known) n where "hashable (nr_device_id r)" "map_of (dm_nodes m) (nr_device_id r) = Some n"
      "register now ws r m = logged (update_node now ws r n)
         (m\<lparr>dm_nodes := move_to_end (nr_device_id r) (AList.update (nr_device_id r) (update_node now ws r n) (dm_nodes m)),
            dm_version := (if fst (last (dm_nodes m)) = nr_device_id r then dm_version m else dm_version m + 1)\<rparr>)"
  | (no_room) v where "hashable (nr_device_id r)" "map_of (dm_nodes m) (nr_device_id r) = None" "dm_max m \<le> 0"
      "register now ws r m = (Inl Key_Error, (evict_stale now m)\<lparr>dm_nodes := [], dm_version := v\<rparr>)"
  | (added) ns n v where "hashable (nr_device_id r)" "map_of (dm_nodes m) (nr_device_id r) = None" "0 < dm_max m"
      "ns = drop (nat (int (length (dm_nodes (evict_stale now m))) - dm_max m + 1)) (dm_nodes (evict_stale now m))"
      "n = create_node now ws r (dm_next m)" "dm_version m < v" "int (length ns) < dm_max m"
      "register now ws r m = logged n ((evict_stale now m)\<lparr>dm_nodes := ns @ [(nr_device_id r, n)],
         dm_next := dm_next m + 1, dm_version := v\<rparr>)"
proof -
  note defs = register_def Let_def
  consider "\<not> hashable (nr_device_id r)" | n where "hashable (nr_device_id r)" "map_of (dm_nodes m) (nr_device_id r) = Some n"
    | "hashable (nr_device_id r)" "map_of (dm_nodes m) (nr_device_id r) = None" "dm_max m \<le> 0"
    | "hashable (nr_device_id r)" "map_of (dm_nodes m) (nr_device_id r) = None" "0 < dm_max m" by fastforce
  thus ?thesis
  proof cases
    case 1 thus ?thesis by (intro refused) (simp_all add: defs)
  next
    case 2 thus ?thesis by (intro known) (simp_all add: defs)
  next
    case 3 thus ?thesis by (intro no_room) (simp_all add: defs make_room_error evict_stale_def)
  next
    case 4
    define ns where "ns = drop (nat (int (length (dm_nodes (evict_stale now m))) - dm_max m + 1)) (dm_nodes (evict_stale now m))"
    have mx: "dm_max (evict_stale now m) = dm_max m" "dm_next (evict_stale now m) = dm_next m"
      "dm_version m \<le> dm_version (evict_stale now m)" by (simp_all add: evict_stale_def)
    have room: "make_room (dm_max m) (dm_nodes (evict_stale now m)) = (Inr (), ns)"
      using make_room_iff [OF 4(3)] by (simp add: ns_def)
    show ?thesis
      by (rule added [OF 4 ns_def refl _ make_room_room [OF room],
            of "dm_version (evict_stale now m) + (length (dm_nodes (evict_stale now m)) - length ns) + 1"])
         (use 4 mx room in \<open>simp_all add: defs\<close>)
  qed
qed

lemma evict_stale_sub: "set (dm_nodes (evict_stale now m)) \<subseteq> set (dm_nodes m)"
  by (auto simp: evict_stale_def)

lemma evict_stale_next [simp]: "dm_next (evict_stale now m) = dm_next m" "dm_max (evict_stale now m) = dm_max m"
  by (simp_all add: evict_stale_def)

lemma register_ok:
  assumes ok: "manager_ok m"
  shows "manager_ok (snd (register now ws r m))"
proof (cases rule: register_cases [of r now ws m])
  case refused
  thus ?thesis using ok by simp
next
  case (known n)
  have "ni_device_id n = nr_device_id r" using ok known(2) by (auto simp: manager_ok_def list_all_iff dest: map_of_SomeD)
  thus ?thesis using manager_ok_move [OF ok known(2), of "update_node now ws r n"] known(3) by (simp add: update_node_def)
next
  case (no_room v)
  thus ?thesis using manager_ok_subseq [OF evict_stale_ok [OF ok], of "[]"] by simp
next
  case (added ns n v)
  let ?m = "(evict_stale now m)\<lparr>dm_nodes := ns, dm_version := 0\<rparr>"
  have "subseq ns (dm_nodes (evict_stale now m))" unfolding added(4) by (rule suffix_imp_subseq, rule suffix_drop)
  hence "manager_ok ?m" using manager_ok_subseq [OF evict_stale_ok [OF ok]] by blast
  moreover have "set ns \<subseteq> set (dm_nodes m)" using evict_stale_sub [of now m] unfolding added(4) by (auto dest: in_set_dropD)
  hence "map_of ns (nr_device_id r) = None" using added(2) by (auto simp: map_of_eq_None_iff)
  ultimately have "manager_ok (?m\<lparr>dm_nodes := dm_nodes ?m @ [(nr_device_id r, n)], dm_next := dm_next ?m + 1, dm_version := v\<rparr>)"
    using added(5,7) by (intro manager_ok_add) (simp_all add: create_node_def)
  thus ?thesis using added(8) by simp
qed

lemma update_heartbeat_ok: "manager_ok m \<Longrightarrow> manager_ok (update_heartbeat now did hb m)"
  by (auto simp: update_heartbeat_def Let_def split: option.split intro!: write_node_ok)

lemma check_heartbeats_ok: "manager_ok m \<Longrightarrow> manager_ok (snd (check_heartbeats now m))"
  unfolding check_heartbeats_def snd_conv by (rule manager_ok_rewrite) simp_all

lemma do_op_ok: "manager_ok m \<Longrightarrow> manager_ok (do_op p m)"
  by (cases p) (simp_all add: register_ok unregister_ok update_heartbeat_ok check_heartbeats_ok)

lemma do_ops_ok: "manager_ok m \<Longrightarrow> manager_ok (fold do_op ps m)"
  by (induction ps arbitrary: m) (simp_all add: do_op_ok)

lemma manager_ok_log [simp]:
  "manager_ok (m\<lparr>dm_sent := s\<rparr>) = manager_ok m" "manager_ok (m\<lparr>dm_events := es\<rparr>) = manager_ok m"
  "manager_ok (m\<lparr>dm_commands := cs\<rparr>) = manager_ok m" "manager_ok (m\<lparr>dm_handlers := hs\<rparr>) = manager_ok m"
  "manager_ok (m\<lparr>dm_command_handlers := hs\<rparr>) = manager_ok m"
  by (simp_all add: manager_ok_def)

lemma send_ok: "manager_ok m \<Longrightarrow> manager_ok (snd (send_to_node ev did data m))"
  by (auto simp: send_to_node_def Let_def split: option.split intro!: write_node_ok do_ops_ok)

lemma broadcast_loop_ok: "manager_ok m \<Longrightarrow> manager_ok (snd (broadcast_loop ev data flt v dids sent gone m))"
proof (induction dids arbitrary: sent gone m)
  case (Cons did dids)
  have "manager_ok m'" if "send_to_node ev did data m = (b, m')" for b m' using send_ok [OF Cons.prems, of ev did data] that by simp
  thus ?case using Cons by (auto split: option.split prod.split bool.split)
qed simp

lemma unregister_all_ok: "manager_ok m \<Longrightarrow> manager_ok (fold (\<lambda>did m. snd (unregister did m)) dids m)"
  by (induction dids arbitrary: m) (simp_all add: unregister_ok)

lemma broadcast_ok: "manager_ok m \<Longrightarrow> manager_ok (snd (broadcast ev data flt m))"
  using broadcast_loop_ok [of m ev data flt "dm_version m" "map fst (dm_nodes m)" 0 "[]"]
  by (auto simp: broadcast_def unregister_all_ok split: prod.split sum.split)

lemma process_message_ok: "manager_ok m \<Longrightarrow> manager_ok (snd (process_message ev now wall did raw m))"
  by (auto simp: process_message_def Let_def send_ack_def handle_event_def handle_command_def send_ok update_heartbeat_ok
      split: sum.split option.split)

text \<open>Everything the server does with the registry, in any order, other tasks included.\<close>

inductive reachable :: "node_env \<Rightarrow> int \<Rightarrow> time \<Rightarrow> manager \<Rightarrow> bool" for ev mx timeout where
  start: "reachable ev mx timeout (new_manager mx timeout)"
| op: "reachable ev mx timeout m \<Longrightarrow> reachable ev mx timeout (do_op p m)"
| send: "reachable ev mx timeout m \<Longrightarrow> reachable ev mx timeout (snd (send_to_node ev did data m))"
| canvas: "reachable ev mx timeout m \<Longrightarrow> reachable ev mx timeout (snd (send_canvas_update ev session comps clear did m))"
| cast: "reachable ev mx timeout m \<Longrightarrow> reachable ev mx timeout (snd (broadcast ev data flt m))"
| message: "reachable ev mx timeout m \<Longrightarrow> reachable ev mx timeout (snd (process_message ev now wall did raw m))"
| handler: "reachable ev mx timeout m \<Longrightarrow> reachable ev mx timeout (on_event h m)"
| command: "reachable ev mx timeout m \<Longrightarrow> reachable ev mx timeout (on_command h m)"
| stop: "reachable ev mx timeout m \<Longrightarrow> reachable ev mx timeout (shutdown m)"

lemma reachable_ok: "reachable ev mx timeout m \<Longrightarrow> manager_ok m"
proof (induction rule: reachable.induct)
  case (canvas m session comps clear did)
  thus ?case by (auto simp: send_canvas_update_def Let_def send_ok broadcast_ok split: prod.split)
     (metis send_ok snd_conv)
qed (simp_all add: new_manager_def manager_ok_def [of "new_manager _ _"] do_op_ok send_ok broadcast_ok process_message_ok
     on_event_def on_command_def shutdown_def unregister_all_ok, simp add: manager_ok_def)

lemma do_op_limits: "dm_max (do_op p m) = dm_max m \<and> dm_timeout (do_op p m) = dm_timeout m"
proof (cases p)
  case (Register now ws r)
  thus ?thesis by (cases rule: register_cases [of r now ws m]) (simp_all add: evict_stale_def)
qed (auto simp: unregister_def update_heartbeat_def write_node_def check_heartbeats_def split: option.split)

lemma do_ops_limits: "dm_max (fold do_op ps m) = dm_max m"
  by (induction ps arbitrary: m) (simp_all add: do_op_limits)

lemma write_node_fields [simp]:
  "dm_max (write_node ref f m) = dm_max m" "dm_version (write_node ref f m) = dm_version m"
  "dm_sent (write_node ref f m) = dm_sent m" "dm_events (write_node ref f m) = dm_events m"
  "dm_handlers (write_node ref f m) = dm_handlers m" "dm_commands (write_node ref f m) = dm_commands m"
  by (simp_all add: write_node_def)

lemma send_max: "dm_max (snd (send_to_node ev did data m)) = dm_max m"
  by (simp add: send_to_node_def Let_def do_ops_limits split: option.split)

lemma broadcast_loop_max: "dm_max (snd (broadcast_loop ev data flt v dids sent gone m)) = dm_max m"
proof (induction dids arbitrary: sent gone m)
  case (Cons did dids)
  have "dm_max m' = dm_max m" if "send_to_node ev did data m = (b, m')" for b m' using send_max [of ev did data m] that by simp
  thus ?case using Cons by (auto split: option.split prod.split bool.split)
qed simp

lemma unregister_all_max: "dm_max (fold (\<lambda>did m. snd (unregister did m)) dids m) = dm_max m"
  by (induction dids arbitrary: m) (simp_all add: unregister_def)

lemma broadcast_max: "dm_max (snd (broadcast ev data flt m)) = dm_max m"
  using broadcast_loop_max [of ev data flt "dm_version m" "map fst (dm_nodes m)" 0 "[]" m]
  by (auto simp: broadcast_def unregister_all_max split: prod.split sum.split)

lemma update_heartbeat_max [simp]: "dm_max (update_heartbeat now did hb m) = dm_max m"
  by (simp add: update_heartbeat_def split: option.split)

lemma process_message_max: "dm_max (snd (process_message ev now wall did raw m)) = dm_max m"
  by (auto simp: process_message_def Let_def send_ack_def handle_event_def handle_command_def send_max
      split: sum.split option.split)

lemma canvas_max: "dm_max (snd (send_canvas_update ev session comps clear did m)) = dm_max m"
  using send_max [of ev did] by (auto simp: send_canvas_update_def Let_def broadcast_max split: prod.split) (metis snd_conv)

lemma reachable_max: "reachable ev mx timeout m \<Longrightarrow> dm_max m = mx"
  by (induction rule: reachable.induct)
     (simp_all add: new_manager_def do_op_limits send_max canvas_max broadcast_max process_message_max on_event_def
       on_command_def shutdown_def unregister_all_max)

section \<open>Properties\<close>

text \<open>C31: Whatever messages, registrations, heartbeats, broadcasts and losses of connections come in whatever order,
  also between the sends of a broadcast, no device is in the registry twice, each is found under its own id,
  and there are never more than \<open>max_nodes\<close>.\<close>

theorem node_registry_invariant:
  assumes "reachable ev mx timeout m"
  shows "distinct (map fst (dm_nodes m)) \<and> int (total_count m) \<le> max 0 mx \<and>
     (get_node did m = Some n \<longrightarrow> ni_device_id n = did)"
  using reachable_ok [OF assms] reachable_max [OF assms]
  by (auto simp: manager_ok_def dict_ok_def total_count_def get_node_def list_all_iff dest: map_of_SomeD)

lemma move_known:
  assumes "manager_ok m" "map_of (dm_nodes m) k = Some n"
  shows "move_to_end k (AList.update k n' (dm_nodes m)) = AList.delete k (dm_nodes m) @ [(k, n')]"
proof -
  obtain xs ys where d: "dm_nodes m = xs @ (k, n) # ys" using assms(2) by (meson map_of_SomeD split_list)
  have k: "k \<notin> fst ` set xs" "k \<notin> fst ` set ys" using assms(1) by (auto simp: manager_ok_def dict_ok_def d image_iff)
  have "AList.delete k (dm_nodes m) = xs @ ys"
    using delete_absent [OF k(1)] delete_absent [OF k(2)] unfolding d by (simp add: AList.delete_eq)
  thus ?thesis using move_to_end_split [OF k, of n' n] by (simp add: d)
qed

text \<open>Registering a known device rewrites its entry, keeps its socket unless a new one is given, and moves it to
  the end.  A new device is put at the end after the disconnected and the long silent ones have gone and,
  when that is not enough, as many of the least recently registered as needed.  Other entries stay as they
  are, in their order.  Without room for a single device, or with an id that cannot be a key, it raises.\<close>

theorem register_correct:
  fixes r m now
  assumes "manager_ok m"
  defines "did \<equiv> nr_device_id r"
    and "fresh \<equiv> filter (\<lambda>(k, n). ni_connected n \<and> now - ni_heartbeat n \<le> dm_timeout m * 2) (dm_nodes m)"
  shows "dm_nodes (snd (register now ws r m)) =
     (if \<not> hashable did then dm_nodes m
      else case map_of (dm_nodes m) did of
        Some n \<Rightarrow> AList.delete did (dm_nodes m) @ [(did, update_node now ws r n)]
      | None \<Rightarrow> if dm_max m \<le> 0 then []
                else drop (nat (int (length fresh) - dm_max m + 1)) fresh @ [(did, create_node now ws r (dm_next m))]) \<and>
     ((\<exists>n. fst (register now ws r m) = Inr n) \<longleftrightarrow>
        hashable did \<and> (map_of (dm_nodes m) did \<noteq> None \<or> 0 < dm_max m) \<and> iter_texts (nr_capabilities r) \<noteq> None)"
proof -
  have fresh: "dm_nodes (evict_stale now m) = fresh"
    by (auto simp: evict_stale_def is_stale_def fresh_def intro!: filter_cong)
  show ?thesis
  proof (cases rule: register_cases [of r now ws m])
    case refused
    thus ?thesis by (simp add: did_def)
  next
    case (known n)
    thus ?thesis using move_known [OF assms(1) known(2)]
      by (auto simp: did_def logged_def update_node_def split: option.split)
  next
    case (no_room v)
    thus ?thesis by (simp add: did_def)
  next
    case (added ns n v)
    thus ?thesis by (auto simp: did_def fresh logged_def create_node_def split: option.split)
  qed
qed

text \<open>What an undisturbed broadcast sends: to each target, in the order of the registry.\<close>

fun deliveries ::
    "node_env \<Rightarrow> payload \<Rightarrow> (node_info \<Rightarrow> bool) \<Rightarrow> nat \<Rightarrow> (json \<times> node_info) list \<Rightarrow> (json \<times> nat \<times> string \<times> bool) list" where
  "deliveries ev data flt k [] = []"
| "deliveries ev data flt k ((did, n) # ns) =
     (if is_target flt n
      then (did, the (ni_ws n), payload_text (ev_clock ev k) data, ev_send ev k (the (ni_ws n))) # deliveries ev data flt (Suc k) ns
      else deliveries ev data flt k ns)"

definition failed :: "(json \<times> nat \<times> string \<times> bool) list \<Rightarrow> json list" where
  "failed ds = map fst (filter (\<lambda>(did, w, t, ok). \<not> ok) ds)"

definition delivered :: "(json \<times> nat \<times> string \<times> bool) list \<Rightarrow> nat" where
  "delivered ds = length (filter (\<lambda>(did, w, t, ok). ok) ds)"

lemma failed_simps [simp]:
  "failed [] = []" "failed ((did, w, t, ok) # ds) = (if ok then failed ds else did # failed ds)"
  "delivered [] = 0" "delivered ((did, w, t, ok) # ds) = (if ok then Suc (delivered ds) else delivered ds)"
  by (simp_all add: failed_def delivered_def)

lemma failed_sub: "set (failed (deliveries ev data flt k ns)) \<subseteq> fst ` set ns"
  by (induction ev data flt k ns rule: deliveries.induct) auto

lemma write_node_split:
  assumes "distinct (map (ni_ref \<circ> snd) (pre @ (did, n) # rest))" "dm_nodes m = pre @ (did, n) # rest"
  shows "dm_nodes (write_node (ni_ref n) f m) = pre @ (did, f n) # rest"
proof -
  have "map (\<lambda>(k, x). (k, if ni_ref x = ni_ref n then f x else x)) zs = zs" if "ni_ref n \<notin> (ni_ref \<circ> snd) ` set zs" for zs :: "(json \<times> node_info) list"
    using that by (induction zs) auto
  from this [of pre] this [of rest] show ?thesis using assms by (simp add: write_node_def)
qed

lemma send_quiet:
  fixes m :: manager and n :: node_info
  assumes "ev_others ev = (\<lambda>_. [])" "dm_nodes m = pre @ (did, n) # rest" "manager_ok m" "is_target flt n"
  defines "k \<equiv> length (dm_sent m)" and "w \<equiv> the (ni_ws n)"
  shows "fst (send_to_node ev did data m) = ev_send ev k w"
    "dm_sent (snd (send_to_node ev did data m)) = dm_sent m @ [(w, payload_text (ev_clock ev k) data, ev_send ev k w)]"
    "dm_nodes (snd (send_to_node ev did data m)) = pre @ (did, if ev_send ev k w then n else n\<lparr>ni_connected := False\<rparr>) # rest"
    "dm_version (snd (send_to_node ev did data m)) = dm_version m"
proof -
  have "did \<notin> fst ` set pre" "distinct (map (ni_ref \<circ> snd) (pre @ (did, n) # rest))"
    using assms(2,3) by (auto simp: manager_ok_def dict_ok_def)
  moreover have "map_of (dm_nodes m) did = Some n"
    using calculation(1) assms(2) by (auto simp: map_add_Some_iff map_of_eq_None_iff)
  moreover obtain w' where "ni_ws n = Some w'" "ni_connected n" using assms(4) by (auto simp: is_target_def)
  ultimately show "fst (send_to_node ev did data m) = ev_send ev k w"
    "dm_sent (snd (send_to_node ev did data m)) = dm_sent m @ [(w, payload_text (ev_clock ev k) data, ev_send ev k w)]"
    "dm_nodes (snd (send_to_node ev did data m)) = pre @ (did, if ev_send ev k w then n else n\<lparr>ni_connected := False\<rparr>) # rest"
    "dm_version (snd (send_to_node ev did data m)) = dm_version m"
    using assms(1,2) write_node_split [of pre did n rest "m\<lparr>dm_sent := s\<rparr>" for s]
    by (simp_all add: send_to_node_def k_def w_def Let_def)
qed

lemma loop_quiet:
  fixes data flt ev m rest
  assumes "ev_others ev = (\<lambda>_. [])" "manager_ok m" "dm_version m = v" "dm_nodes m = pre @ rest"
  defines "ds \<equiv> deliveries ev data flt (length (dm_sent m)) rest"
  shows "fst (broadcast_loop ev data flt v (map fst rest) sent gone m) = Inr (sent + delivered ds, gone @ failed ds) \<and>
     dm_sent (snd (broadcast_loop ev data flt v (map fst rest) sent gone m)) = dm_sent m @ map snd ds \<and>
     dm_nodes (snd (broadcast_loop ev data flt v (map fst rest) sent gone m)) =
       pre @ map (\<lambda>(k, n). (k, if k \<in> set (failed ds) then n\<lparr>ni_connected := False\<rparr> else n)) rest"
  using assms(2-4) unfolding ds_def
proof (induction rest arbitrary: m pre sent gone)
  case (Cons x rest)
  obtain did n where x: "x = (did, n)" by (cases x)
  have keys: "did \<notin> fst ` set pre" "did \<notin> fst ` set rest"
    using Cons.prems by (auto simp: manager_ok_def dict_ok_def x)
  have here: "map_of (dm_nodes m) did = Some n"
    using keys(1) Cons.prems(3) by (auto simp: x map_add_Some_iff map_of_eq_None_iff)
  have absent: "did \<notin> set (failed (deliveries ev data flt k rest))" for k
    using keys(2) failed_sub [of ev data flt k rest] by blast
  have mark: "map (\<lambda>(ka, n). (ka, if ka = did \<or> P ka then n\<lparr>ni_connected := False\<rparr> else n)) rest =
      map (\<lambda>(ka, n). (ka, if P ka then n\<lparr>ni_connected := False\<rparr> else n)) rest" for P
    using keys(2) by (intro map_cong) (auto simp: image_iff)
  show ?case
  proof (cases "is_target flt n")
    case False
    thus ?thesis using Cons.IH [of m "pre @ [x]" sent gone] Cons.prems here absent by (simp add: x)
  next
    case True
    define k where "k = length (dm_sent m)"
    define ok where "ok = ev_send ev k (the (ni_ws n))"
    define m1 where "m1 = snd (send_to_node ev did data m)"
    note quiet = send_quiet [OF assms(1) Cons.prems(3) [unfolded x] Cons.prems(1) True, of data]
    have s: "send_to_node ev did data m = (ok, m1)" using quiet(1) by (simp add: prod_eq_iff ok_def k_def m1_def)
    have "manager_ok m1" using send_ok [OF Cons.prems(1)] by (simp add: m1_def)
    moreover have "dm_nodes m1 = (pre @ [(did, if ok then n else n\<lparr>ni_connected := False\<rparr>)]) @ rest"
      using quiet(3) by (simp add: m1_def ok_def k_def)
    moreover have "dm_version m1 = v" "dm_sent m1 = dm_sent m @ [(the (ni_ws n), payload_text (ev_clock ev k) data, ok)]"
      using quiet(2,4) Cons.prems(2) by (simp_all add: m1_def ok_def k_def)
    ultimately show ?thesis
      using Cons.IH [of m1 "pre @ [(did, if ok then n else n\<lparr>ni_connected := False\<rparr>)]"] Cons.prems(2) here absent True s
      by (cases ok) (simp_all add: x k_def [symmetric] ok_def [symmetric] mark del: map_eq_conv)
  qed
qed simp

lemma unregister_all_nodes:
  "dict_ok (dm_nodes m) \<Longrightarrow>
     dm_nodes (fold (\<lambda>did m. snd (unregister did m)) dids m) = filter (\<lambda>(k, n). k \<notin> set dids) (dm_nodes m) \<and>
     dm_sent (fold (\<lambda>did m. snd (unregister did m)) dids m) = dm_sent m"
proof (induction dids arbitrary: m)
  case (Cons did dids)
  have gone: "dm_nodes (snd (unregister did m)) = filter (\<lambda>(k, n). k \<noteq> did) (dm_nodes m)"
  proof (cases "map_of (dm_nodes m) did")
    case None
    hence "filter (\<lambda>(k, n). k \<noteq> did) (dm_nodes m) = dm_nodes m" by (force simp: map_of_eq_None_iff filter_id_conv)
    thus ?thesis using None by (simp add: unregister_def)
  qed (auto simp: unregister_def AList.delete_eq intro!: filter_cong)
  hence "dict_ok (dm_nodes (snd (unregister did m)))"
    using Cons.prems by (simp add: dict_ok_def distinct_map_filter)
  moreover have "dm_sent (snd (unregister did m)) = dm_sent m" by (simp add: unregister_def)
  ultimately show ?case using Cons.IH [of "snd (unregister did m)"] gone by (simp add: case_prod_unfold conj_commute)
qed (simp add: filter_id_conv case_prod_unfold)

text \<open>C30: A broadcast that nothing disturbs tries every connected device with a socket that passes the filter once,
  in the order of the registry, counts the sends that went through, and drops exactly the devices whose send
  failed; the other entries are untouched.\<close>

theorem broadcast_correct:
  fixes data flt ev m
  assumes "ev_others ev = (\<lambda>_. [])" "manager_ok m"
  defines "ds \<equiv> deliveries ev data flt (length (dm_sent m)) (dm_nodes m)"
  shows "fst (broadcast ev data flt m) = Inr (delivered ds) \<and>
     dm_sent (snd (broadcast ev data flt m)) = dm_sent m @ map snd ds \<and>
     dm_nodes (snd (broadcast ev data flt m)) = filter (\<lambda>(k, n). k \<notin> set (failed ds)) (dm_nodes m)"
proof -
  let ?l = "broadcast_loop ev data flt (dm_version m) (map fst (dm_nodes m)) 0 [] m"
  obtain m' where l: "?l = (Inr (delivered ds, failed ds), m')" "dm_sent m' = dm_sent m @ map snd ds"
      "dm_nodes m' = map (\<lambda>(k, n). (k, if k \<in> set (failed ds) then n\<lparr>ni_connected := False\<rparr> else n)) (dm_nodes m)"
    using loop_quiet [OF assms(1,2) refl, of "[]" "dm_nodes m" data flt 0 "[]"]
    by (cases ?l) (simp add: ds_def)
  have "dict_ok (dm_nodes m')" using broadcast_loop_ok [OF assms(2), of ev data flt "dm_version m" "map fst (dm_nodes m)" 0 "[]"] l(1)
    by (simp add: manager_ok_def)
  from unregister_all_nodes [OF this, of "failed ds"] have
    "dm_nodes (snd (broadcast ev data flt m)) = filter (\<lambda>(k, n). k \<notin> set (failed ds)) (dm_nodes m')"
    "dm_sent (snd (broadcast ev data flt m)) = dm_sent m'" using l(1) by (simp_all add: broadcast_def)
  moreover have "filter (\<lambda>(k, n). k \<notin> set (failed ds)) (dm_nodes m') = filter (\<lambda>(k, n). k \<notin> set (failed ds)) (dm_nodes m)"
    unfolding l(3) by (induction "dm_nodes m") (auto simp: filter_map comp_def case_prod_unfold intro!: map_idI)
  ultimately show ?thesis using l(1,2) by (simp add: broadcast_def)
qed

text \<open>A device that registers while the send to one of the others, not the last, is awaited makes the broadcast
  raise: the rest gets nothing and the failed devices stay in the registry.\<close>

theorem broadcast_disturbed:
  assumes "dm_nodes m = (did, n) # other # rest" "is_target flt n"
    and "ev_others ev (length (dm_sent m)) = [Register now ws r]"
    and "hashable (nr_device_id r)" "map_of (dm_nodes m) (nr_device_id r) = None" "0 < dm_max m"
  shows "fst (broadcast ev data flt m) = Inl Runtime_Error \<and> length (dm_sent (snd (broadcast ev data flt m))) = Suc (length (dm_sent m))"
proof -
  obtain w where w: "ni_connected n" "ni_ws n = Some w" using assms(2) by (auto simp: is_target_def)
  define s where "s = (w, payload_text (ev_clock ev (length (dm_sent m))) data, ev_send ev (length (dm_sent m)) w)"
  define m1 where "m1 = snd (send_to_node ev did data m)"
  have v: "dm_version m < dm_version (snd (register now ws r (m\<lparr>dm_sent := dm_sent m @ [s]\<rparr>))) \<and>
      dm_sent (snd (register now ws r (m\<lparr>dm_sent := dm_sent m @ [s]\<rparr>))) = dm_sent m @ [s]"
    by (cases rule: register_cases [of r now ws "m\<lparr>dm_sent := dm_sent m @ [s]\<rparr>"]) (use assms in \<open>simp_all add: evict_stale_def\<close>)
  have "dm_version m < dm_version m1" "length (dm_sent m1) = Suc (length (dm_sent m))"
    using v w assms(1,3) by (cases "ev_send ev (length (dm_sent m)) w"; simp add: m1_def send_to_node_def Let_def s_def)+
  hence "broadcast_loop ev data flt (dm_version m) (fst other # map fst rest) sent gone m1 = (Inl Runtime_Error, m1)" for sent gone
    by simp
  moreover obtain b where "send_to_node ev did data m = (b, m1)" by (cases "send_to_node ev did data m") (simp add: m1_def)
  ultimately show ?thesis using assms(1,2) \<open>length (dm_sent m1) = _\<close> by (cases b) (simp_all add: broadcast_def)
qed

text \<open>Whatever a connection sends, an event or a command that reaches a handler carries the id of that
  connection, and every handler gets it; no other message reaches any.\<close>

lemma send_logs:
  "dm_events (fold do_op ps m) = dm_events m \<and> dm_commands (fold do_op ps m) = dm_commands m \<and>
     dm_handlers (fold do_op ps m) = dm_handlers m"
proof (induction ps arbitrary: m)
  case (Cons p ps)
  have "dm_events (do_op p m) = dm_events m \<and> dm_commands (do_op p m) = dm_commands m \<and> dm_handlers (do_op p m) = dm_handlers m"
  proof (cases p)
    case (Register now ws r)
    thus ?thesis by (cases rule: register_cases [of r now ws m]) (simp_all add: evict_stale_def)
  qed (auto simp: unregister_def update_heartbeat_def write_node_def check_heartbeats_def split: option.split)
  thus ?case using Cons by simp
qed simp

lemma send_to_node_logs [simp]:
  "dm_events (snd (send_to_node ev did data m)) = dm_events m" "dm_commands (snd (send_to_node ev did data m)) = dm_commands m"
  by (simp_all add: send_to_node_def Let_def send_logs split: option.split)

lemma update_heartbeat_logs [simp]:
  "dm_events (update_heartbeat now did hb m) = dm_events m" "dm_commands (update_heartbeat now did hb m) = dm_commands m"
  by (simp_all add: update_heartbeat_def split: option.split)

lemma parse_node_event_of:
  "dict_of (parse_message raw) = Inr d \<Longrightarrow> jget ''type'' d (JStr []) = JStr (message_value EVENT) \<Longrightarrow>
     parse_node_event now raw = Inr (Some (event_from_dict now d))"
  by (auto simp: parse_node_event_def jget_def split: option.splits)

theorem sender_is_the_connection:
  fixes m ev now wall did raw
  defines "m' \<equiv> snd (process_message ev now wall did raw m)"
  shows "(dm_events m' = dm_events m \<or>
      (\<exists>e. ne_device_id e = did \<and> dm_events m' = dm_events m @ map (\<lambda>h. (h, e)) (dm_handlers m))) \<and>
     (dm_commands m' = dm_commands m \<or>
      (\<exists>c. nc_device_id c = did \<and> dm_commands m' = dm_commands m @ map (\<lambda>h. (h, c)) (dm_command_handlers m)))"
proof (cases "dict_of (parse_message raw)")
  case (Inr d)
  define ty where "ty = jget ''type'' d (JStr [])"
  consider "ty = JStr (message_value HEARTBEAT)" | "ty = JStr (message_value EVENT)" | "ty = JStr (message_value COMMAND)"
    | "ty = JStr ''ping''" | "ty \<notin> {JStr (message_value HEARTBEAT), JStr (message_value EVENT), JStr (message_value COMMAND), JStr ''ping''}"
    by blast
  thus ?thesis
  proof cases
    case 2
    show ?thesis using 2 parse_node_event_of [OF Inr, of wall] Inr
      by (auto simp: m'_def process_message_def ty_def Let_def handle_event_def intro!: exI [of _ "event_from_dict wall d\<lparr>ne_device_id := did\<rparr>"])
  next
    case 3
    thus ?thesis using Inr
      by (auto simp: m'_def process_message_def ty_def Let_def handle_command_def intro!: exI [of _ "command_from_dict d\<lparr>nc_device_id := did\<rparr>"])
  qed (use Inr in \<open>simp_all add: m'_def process_message_def ty_def [symmetric] Let_def send_ack_def split: option.split\<close>)
qed (simp add: m'_def process_message_def)

text \<open>A message that is JSON but not an object makes \<open>process_message\<close> raise, although \<open>parse_message\<close> is
  documented to return a dict and to shield its callers from bad input.\<close>

theorem non_object_message_raises:
  assumes "json_ok (JArr xs)"
  shows "fst (process_message ev now wall did (dumps (JArr xs)) m) = Inl Attribute_Error"
  by (simp only: process_message_def parse_message_def loads_dumps [OF assms]) (simp add: dict_of_def)

text \<open>After a heartbeat the next check does not report the device unless its last heartbeat is older than the
  time-out; a check reports exactly the connected devices that are late, and reports each of them once.\<close>

theorem check_heartbeats_correct:
  assumes "manager_ok m"
  shows "set (fst (check_heartbeats now m)) = {did. \<exists>n. get_node did m = Some n \<and> ni_connected n \<and> dm_timeout m < now - ni_heartbeat n} \<and>
     fst (check_heartbeats now' (snd (check_heartbeats now m))) =
       map fst (filter (\<lambda>(k, n). \<not> timed_out now m n \<and> timed_out now' m n) (dm_nodes m)) \<and>
     (0 \<le> dm_timeout m \<longrightarrow> did \<notin> set (fst (check_heartbeats now (update_heartbeat now did hb m))))"
proof (intro conjI impI)
  show "set (fst (check_heartbeats now m)) = {did. \<exists>n. get_node did m = Some n \<and> ni_connected n \<and> dm_timeout m < now - ni_heartbeat n}"
    using assms by (force simp: check_heartbeats_def timed_out_def get_node_def manager_ok_def dict_ok_def)
  show "fst (check_heartbeats now' (snd (check_heartbeats now m))) =
       map fst (filter (\<lambda>(k, n). \<not> timed_out now m n \<and> timed_out now' m n) (dm_nodes m))"
    by (auto simp: check_heartbeats_def filter_map timed_out_def case_prod_unfold comp_def intro!: arg_cong [of _ _ "map fst"] filter_cong)
  assume t: "0 \<le> dm_timeout m"
  have "ni_heartbeat x = now" if "(did, x) \<in> set (dm_nodes (update_heartbeat now did hb m))" for x
    using that assms by (auto simp: update_heartbeat_def write_node_def manager_ok_def dict_ok_def Let_def map_of_eq_None_iff image_iff
        split: option.splits if_splits dest: map_of_SomeD) (force dest: map_of_SomeD eq_key_imp_eq_value)+
  moreover have "dm_timeout (update_heartbeat now did hb m) = dm_timeout m"
    by (simp add: update_heartbeat_def write_node_def split: option.split)
  ultimately show "did \<notin> set (fst (check_heartbeats now (update_heartbeat now did hb m)))"
    using t by (auto simp: check_heartbeats_def timed_out_def)
qed

section \<open>Round trips\<close>

definition fields_ok :: "jdict \<Rightarrow> bool" where
  "fields_ok d \<longleftrightarrow> list_all (\<lambda>(k, j). json_ok j) d"

lemma wire_parses_back:
  assumes "distinct (map fst d)" "fields_ok d"
  shows "parse_message (serialize_message d) = JObj d"
proof -
  have "json_ok (JObj d)" using assms by (auto simp: fields_ok_def list_all_iff)
  thus ?thesis by (simp only: parse_message_def serialize_message_def loads_dumps option.case)
qed

text \<open>A registration and an event that are printed and read again are the same, but for the API key, which is
  never sent.\<close>

theorem wire_roundtrip:
  assumes "fields_ok (register_to_dict ts r)" "fields_ok (event_to_dict e)"
  shows "parse_node_register (serialize_message (register_to_dict ts r)) = Inr (Some (r\<lparr>nr_api_key := None\<rparr>)) \<and>
     parse_node_event now (serialize_message (event_to_dict e)) = Inr (Some e)"
proof
  have "parse_message (serialize_message (register_to_dict ts r)) = JObj (register_to_dict ts r)"
    by (rule wire_parses_back [OF _ assms(1)]) (simp add: register_to_dict_def)
  thus "parse_node_register (serialize_message (register_to_dict ts r)) = Inr (Some (r\<lparr>nr_api_key := None\<rparr>))"
    by (simp add: parse_node_register_def dict_of_def register_to_dict_def register_from_dict_def jget_def)
  have "parse_message (serialize_message (event_to_dict e)) = JObj (event_to_dict e)"
    by (rule wire_parses_back [OF _ assms(2)]) (simp add: event_to_dict_def)
  thus "parse_node_event now (serialize_message (event_to_dict e)) = Inr (Some e)"
    by (simp add: parse_node_event_def dict_of_def event_to_dict_def event_from_dict_def jget_def)
qed

section \<open>Concrete inputs\<close>

definition phone :: node_register where
  "phone = \<lparr>nr_device_id = JStr ''phone'', nr_device_type = JStr ''ios'', nr_capabilities = JArr [JStr ''Touch''], nr_os_name = JStr ''iOS'',
     nr_os_version = JStr ''17'', nr_app_version = JStr ''1.0.0'', nr_api_key = Some ''k'', nr_width = JInt 390, nr_height = JInt 844\<rparr>"

definition tablet :: node_register where
  "tablet = phone\<lparr>nr_device_id := JStr ''tablet''\<rparr>"

definition desk :: node_register where
  "desk = phone\<lparr>nr_device_id := JStr ''desk''\<rparr>"

definition tap_event :: node_event where
  "tap_event = \<lparr>ne_device_id = JStr ''phone'', ne_type = JStr ''tap'', ne_x = JInt 3, ne_y = JInt (- 4), ne_data = JStr [],
     ne_component = JStr ''ok'', ne_timestamp = JFloat ''2.5''\<rparr>"

definition calm :: node_env where
  "calm = \<lparr>ev_send = (\<lambda>k w. w = 1), ev_clock = (\<lambda>_. ''1.5''), ev_others = (\<lambda>_. [])\<rparr>"

definition two_devices :: manager where
  "two_devices = do_op (Register 5 (Some 2) tablet) (do_op (Register 4 (Some 1) phone) (new_manager 2 120))"

lemma two_devices_ok: "manager_ok two_devices" "reachable ev 2 120 two_devices"
proof -
  show "reachable ev 2 120 two_devices" unfolding two_devices_def by (intro reachable.intros)
  thus "manager_ok two_devices" by (rule reachable_ok)
qed

lemma two_devices_nodes:
  "two_devices = (new_manager 2 120)\<lparr>dm_nodes := [(JStr ''phone'', create_node 4 (Some 1) phone 0), (JStr ''tablet'', create_node 5 (Some 2) tablet 1)],
     dm_next := 2, dm_version := 2\<rparr>"
  by (simp add: two_devices_def new_manager_def register_def logged_def Let_def evict_stale_def tablet_def phone_def
      create_node_def is_stale_def)

theorem node_registry_invariant_witness:
  "distinct (map fst (dm_nodes two_devices)) \<and> total_count two_devices \<le> 2 \<and> get_node (JStr ''phone'') two_devices \<noteq> None"
  using node_registry_invariant [OF two_devices_ok(2)] by (simp add: two_devices_nodes get_node_def)

theorem register_correct_witness:
  "map fst (dm_nodes (snd (register 6 None desk two_devices))) = [JStr ''tablet'', JStr ''desk'']"
  using register_correct [OF two_devices_ok(1), where r = desk and now = 6]
  by (simp add: two_devices_nodes new_manager_def desk_def phone_def tablet_def create_node_def)

theorem broadcast_correct_witness:
  "fst (broadcast calm (Other ''hi'') (\<lambda>_. True) two_devices) = Inr 1 \<and>
   map fst (dm_nodes (snd (broadcast calm (Other ''hi'') (\<lambda>_. True) two_devices))) = [JStr ''phone'']"
  using broadcast_correct [OF _ two_devices_ok(1), where ev = calm and data = "Other ''hi''" and flt = "\<lambda>_. True"]
  by (simp add: two_devices_nodes new_manager_def phone_def tablet_def create_node_def calm_def is_target_def payload_text_def)

theorem broadcast_disturbed_witness:
  "fst (broadcast (calm\<lparr>ev_others := (\<lambda>k. [Register 6 None desk])\<rparr>) (Other ''hi'') (\<lambda>_. True) two_devices) = Inl Runtime_Error"
proof -
  have "dm_nodes two_devices = (JStr ''phone'', create_node 4 (Some 1) phone 0) # (JStr ''tablet'', create_node 5 (Some 2) tablet 1) # []"
    by (simp add: two_devices_nodes)
  thus ?thesis using broadcast_disturbed [of two_devices "JStr ''phone''" "create_node 4 (Some 1) phone 0" _ "[]" "\<lambda>_. True"
        "calm\<lparr>ev_others := (\<lambda>k. [Register 6 None desk])\<rparr>" 6 None desk "Other ''hi''"]
    by (simp add: two_devices_nodes new_manager_def phone_def tablet_def desk_def create_node_def is_target_def)
qed

theorem non_object_message_raises_witness:
  "fst (process_message calm 6 ''1.5'' (JStr ''phone'') (dumps (JArr [])) two_devices) = Inl Attribute_Error"
  by (rule non_object_message_raises) simp

theorem check_heartbeats_correct_witness:
  "fst (check_heartbeats 125 two_devices) = [JStr ''phone'']"
  using check_heartbeats_correct [OF two_devices_ok(1), of 125 0 "JStr ''phone''" None]
  by (simp add: two_devices_nodes new_manager_def create_node_def check_heartbeats_def timed_out_def get_node_def)

theorem wire_roundtrip_witness:
  "parse_node_register (serialize_message (register_to_dict ''2.5'' phone)) = Inr (Some (phone\<lparr>nr_api_key := None\<rparr>))"
proof -
  have "p_number ''2.5'' = Some (JFloat ''2.5'', [])" by code_simp
  hence f: "float_ok ''2.5''" by (simp add: float_ok_def)
  have r: "fields_ok (register_to_dict ''2.5'' phone)" by (simp add: fields_ok_def register_to_dict_def phone_def f)
  have e: "fields_ok (event_to_dict tap_event)" by (simp add: fields_ok_def event_to_dict_def tap_event_def f)
  show ?thesis by (rule wire_roundtrip [OF r e, THEN conjunct1])
qed

end
