(* ===== verification/Streaming.thy ===== *)
theory Streaming
  imports Json
begin

text \<open>
  Streaming of model answers (\<open>llm/streaming.py\<close>): how chunks are read, how deltas are merged into a result, what
  the synchronous processor yields, the bounded queue between the two tasks of the asynchronous one as a step
  relation, and the server-sent events.  A chunk is typed as the providers document it; a field of a dict may be
  missing, null or given, because \<open>get\<close> with a default tells the first two apart.  Reading a chunk that raises
  is \<open>None\<close>.  Clock readings and stream ids are left out; a callback cannot change a stream, so callbacks are too.
\<close>

section \<open>Chunks\<close>

datatype 'a field = Missing | Null | Given 'a

text \<open>\<open>d.get(k, dflt)\<close>, where null is \<open>None\<close>.\<close>

fun get_field :: "'a \<Rightarrow> 'a field \<Rightarrow> 'a option" where
  "get_field dflt Missing = Some dflt"
| "get_field dflt Null = None"
| "get_field dflt (Given x) = Some x"

record function_chunk =
  fc_name :: "string field"
  fc_arguments :: "string field"

record call_chunk =
  cc_id :: "string field"
  cc_function :: "function_chunk field"

record choice_delta =
  cd_content :: "string field"
  cd_tool_calls :: "call_chunk list field"

record block_delta =
  bd_type :: "string field"
  bd_text :: "string field"
  bd_thinking :: "string field"
  bd_partial_json :: "string field"

record dict_chunk =
  dc_choices :: "choice_delta field list field"
  dc_type :: "string field"
  dc_delta :: "block_delta field"
  dc_id :: "string field"
  dc_usage :: "jdict field"

text \<open>Attributes of the objects of the SDKs; an attribute that is absent or \<open>None\<close> is \<open>None\<close>.\<close>

record sdk_call =
  sc_id :: "string option"
  sc_function :: "(string option \<times> string option) option"

record sdk_choice =
  so_content :: "string option"
  so_tool_calls :: "sdk_call list"

record sdk_delta =
  sa_text :: "string option"
  sa_thinking :: "string option"
  sa_partial_json :: "string option"
  sa_id :: string
  sa_name :: string

datatype chunk =
  Dict_Chunk dict_chunk
| Model_Chunk "dict_chunk option"
| Choices_Chunk "sdk_choice option list"
| Delta_Chunk sdk_delta
| Text_Chunk string
| Other_Chunk

section \<open>Deltas\<close>

datatype event_type = START | DELTA | THINKING_DELTA | TOOL_CALL_DELTA | USAGE | DONE | ERROR | METADATA

fun event_value :: "event_type \<Rightarrow> string" where
  "event_value START = ''start''"
| "event_value DELTA = ''delta''"
| "event_value THINKING_DELTA = ''thinking_delta''"
| "event_value TOOL_CALL_DELTA = ''tool_call_delta''"
| "event_value USAGE = ''usage''"
| "event_value DONE = ''done''"
| "event_value ERROR = ''error''"
| "event_value METADATA = ''metadata''"

record delta =
  de_content :: string
  de_thinking :: string
  de_call_id :: "string option"
  de_call_name :: "string option"
  de_arguments :: "string option"
  de_type :: event_type
  de_model :: string

definition blank :: "event_type \<Rightarrow> string \<Rightarrow> delta" where
  "blank ty model = \<lparr>de_content = [], de_thinking = [], de_call_id = None, de_call_name = None, de_arguments = Some [],
     de_type = ty, de_model = model\<rparr>"

definition content_delta :: "string \<Rightarrow> string \<Rightarrow> delta" where
  "content_delta model t = (blank DELTA model)\<lparr>de_content := t\<rparr>"

definition thinking_delta :: "string \<Rightarrow> string \<Rightarrow> delta" where
  "thinking_delta model t = (blank THINKING_DELTA model)\<lparr>de_thinking := t\<rparr>"

definition call_delta :: "string \<Rightarrow> string option \<Rightarrow> string option \<Rightarrow> string option \<Rightarrow> delta" where
  "call_delta model cid name args = (blank TOOL_CALL_DELTA model)\<lparr>de_call_id := cid, de_call_name := name, de_arguments := args\<rparr>"

definition delta_to_dict :: "string \<Rightarrow> delta \<Rightarrow> jdict" where
  "delta_to_dict ts d =
     [(''event_type'', JStr (event_value (de_type d))), (''timestamp'', JFloat ts)]
     @ (if de_content d \<noteq> [] then [(''content'', JStr (de_content d))] else [])
     @ (if de_thinking d \<noteq> [] then [(''thinking_content'', JStr (de_thinking d))] else [])
     @ (case de_call_id d of Some c \<Rightarrow> if c \<noteq> [] then [(''tool_call_id'', JStr c)] else [] | None \<Rightarrow> [])
     @ (case de_call_name d of Some n \<Rightarrow> if n \<noteq> [] then [(''tool_call_name'', JStr n)] else [] | None \<Rightarrow> [])
     @ (case de_arguments d of Some a \<Rightarrow> if a \<noteq> [] then [(''tool_call_arguments'', JStr a)] else [] | None \<Rightarrow> [])
     @ (if de_model d \<noteq> [] then [(''model'', JStr (de_model d))] else [])"

section \<open>Reading chunks\<close>

text \<open>The value that is used when it is truthy.\<close>

fun given_text :: "string field \<Rightarrow> string" where
  "given_text (Given t) = t"
| "given_text _ = []"

definition content_deltas :: "string \<Rightarrow> string \<Rightarrow> delta list" where
  "content_deltas model t = (if t \<noteq> [] then [content_delta model t] else [])"

definition from_call :: "string \<Rightarrow> call_chunk \<Rightarrow> delta option" where
  "from_call model tc =
     (case get_field \<lparr>fc_name = Missing, fc_arguments = Missing\<rparr> (cc_function tc) of
        None \<Rightarrow> None
      | Some f \<Rightarrow> Some (call_delta model (get_field [] (cc_id tc)) (get_field [] (fc_name f)) (get_field [] (fc_arguments f))))"

definition from_choice :: "string \<Rightarrow> choice_delta field \<Rightarrow> delta list option" where
  "from_choice model c =
     (case get_field \<lparr>cd_content = Missing, cd_tool_calls = Missing\<rparr> c of
        None \<Rightarrow> None
      | Some d \<Rightarrow>
          (case get_field [] (cd_tool_calls d) of
             None \<Rightarrow> None
           | Some tcs \<Rightarrow>
               map_option (\<lambda>ds. content_deltas model (given_text (cd_content d)) @ ds) (those (map (from_call model) tcs))))"

definition from_choices :: "string \<Rightarrow> choice_delta field list field \<Rightarrow> delta list option" where
  "from_choices model cs =
     (case get_field [] cs of
        None \<Rightarrow> None
      | Some xs \<Rightarrow> map_option concat (those (map (from_choice model) xs)))"

definition from_block :: "string \<Rightarrow> dict_chunk \<Rightarrow> delta list option" where
  "from_block model d =
     (if dc_type d \<noteq> Given ''content_block_delta'' then Some []
      else case get_field \<lparr>bd_type = Missing, bd_text = Missing, bd_thinking = Missing, bd_partial_json = Missing\<rparr> (dc_delta d) of
        None \<Rightarrow> None
      | Some b \<Rightarrow> Some
          (if bd_type b = Given ''text_delta'' then content_deltas model (given_text (bd_text b))
           else if bd_type b = Given ''thinking_delta''
           then (if given_text (bd_thinking b) \<noteq> [] then [thinking_delta model (given_text (bd_thinking b))] else [])
           else if bd_type b = Given ''input_json_delta''
           then (if given_text (bd_partial_json b) \<noteq> []
                 then [call_delta model (get_field [] (dc_id d)) None (Some (given_text (bd_partial_json b)))] else [])
           else []))"

text \<open>\<open>_extract_from_dict\<close>: the deltas and the usage data, if there are any.\<close>

definition from_dict :: "string \<Rightarrow> dict_chunk \<Rightarrow> (delta list \<times> jdict option) option" where
  "from_dict model d =
     (case (from_choices model (dc_choices d), from_block model d) of
        (Some ds, Some bs) \<Rightarrow> Some (ds @ bs, case dc_usage d of Given u \<Rightarrow> if u \<noteq> [] then Some u else None | _ \<Rightarrow> None)
      | _ \<Rightarrow> None)"

definition or_empty :: "string option \<Rightarrow> string" where
  "or_empty t = (case t of Some x \<Rightarrow> x | None \<Rightarrow> [])"

definition from_sdk_call :: "string \<Rightarrow> sdk_call \<Rightarrow> delta" where
  "from_sdk_call model tc =
     call_delta model (Some (or_empty (sc_id tc)))
       (Some (case sc_function tc of Some (n, a) \<Rightarrow> or_empty n | None \<Rightarrow> []))
       (Some (case sc_function tc of Some (n, a) \<Rightarrow> or_empty a | None \<Rightarrow> []))"

definition from_sdk_choice :: "string \<Rightarrow> sdk_choice option \<Rightarrow> delta list" where
  "from_sdk_choice model c =
     (case c of
        None \<Rightarrow> []
      | Some x \<Rightarrow> content_deltas model (or_empty (so_content x)) @ map (from_sdk_call model) (so_tool_calls x))"

definition from_sdk_delta :: "string \<Rightarrow> sdk_delta \<Rightarrow> delta list" where
  "from_sdk_delta model d =
     content_deltas model (or_empty (sa_text d))
     @ (if or_empty (sa_thinking d) \<noteq> [] then [thinking_delta model (or_empty (sa_thinking d))] else [])
     @ (if or_empty (sa_partial_json d) \<noteq> []
        then [call_delta model (Some (sa_id d)) (Some (sa_name d)) (sa_partial_json d)] else [])"

definition extract_deltas :: "string \<Rightarrow> chunk \<Rightarrow> (delta list \<times> jdict option) option" where
  "extract_deltas model c =
     (case c of
        Dict_Chunk d \<Rightarrow> from_dict model d
      | Model_Chunk md \<Rightarrow>
          (case md of
             None \<Rightarrow> Some ([], None)
           | Some d \<Rightarrow> (case from_dict model d of Some r \<Rightarrow> Some r | None \<Rightarrow> Some ([], None)))
      | Choices_Chunk cs \<Rightarrow> Some (concat (map (from_sdk_choice model) cs), None)
      | Delta_Chunk d \<Rightarrow> Some (from_sdk_delta model d, None)
      | Text_Chunk t \<Rightarrow> Some ([content_delta model t], None)
      | Other_Chunk \<Rightarrow> Some ([], None))"

text \<open>The synchronous processor reads dicts of one format and texts only.\<close>

definition sync_extract :: "string \<Rightarrow> chunk \<Rightarrow> delta list option" where
  "sync_extract model c =
     (case c of
        Dict_Chunk d \<Rightarrow> from_choices model (dc_choices d)
      | Text_Chunk t \<Rightarrow> Some [content_delta model t]
      | _ \<Rightarrow> Some [])"

section \<open>The result\<close>

record call_acc =
  ca_id :: string
  ca_name :: string
  ca_arguments :: string

record result =
  sr_content :: string
  sr_thinking :: string
  sr_calls :: "call_acc list"
  sr_model :: string
  sr_usage :: "jdict option"
  sr_deltas :: nat

definition new_result :: "string \<Rightarrow> result" where
  "new_result model = \<lparr>sr_content = [], sr_thinking = [], sr_calls = [], sr_model = model, sr_usage = None, sr_deltas = 0\<rparr>"

definition extend_call :: "delta \<Rightarrow> call_acc \<Rightarrow> call_acc" where
  "extend_call d c =
     c\<lparr>ca_name := (if or_empty (de_call_name d) \<noteq> [] then or_empty (de_call_name d) else ca_name c),
       ca_arguments := ca_arguments c @ or_empty (de_arguments d)\<rparr>"

text \<open>The first accumulator with the id of the delta is extended, a new one is added when there is none.\<close>

fun merge_call :: "delta \<Rightarrow> string \<Rightarrow> call_acc list \<Rightarrow> call_acc list" where
  "merge_call d cid [] = [extend_call d \<lparr>ca_id = cid, ca_name = or_empty (de_call_name d), ca_arguments = []\<rparr>]"
| "merge_call d cid (c # cs) = (if ca_id c = cid then extend_call d c # cs else c # merge_call d cid cs)"

definition apply_delta :: "delta \<Rightarrow> result \<Rightarrow> result" where
  "apply_delta d r =
     r\<lparr>sr_deltas := sr_deltas r + 1, sr_content := sr_content r @ de_content d, sr_thinking := sr_thinking r @ de_thinking d,
       sr_calls := (if or_empty (de_call_id d) \<noteq> [] then merge_call d (or_empty (de_call_id d)) (sr_calls r) else sr_calls r)\<rparr>"

definition call_json :: "call_acc \<Rightarrow> json" where
  "call_json c = JObj [(''id'', JStr (ca_id c)), (''type'', JStr ''function''),
     (''function'', JObj [(''name'', JStr (ca_name c)), (''arguments'', JStr (ca_arguments c))])]"

definition to_openai_response :: "result \<Rightarrow> jdict" where
  "to_openai_response r =
     [(''choices'', JArr [JObj [(''message'', JObj
        ([(''role'', JStr ''assistant''), (''content'', if sr_content r \<noteq> [] then JStr (sr_content r) else JNull)]
         @ (if sr_calls r \<noteq> [] then [(''tool_calls'', JArr (map call_json (sr_calls r)))] else [])))]]),
      (''usage'', JObj (case sr_usage r of Some u \<Rightarrow> u | None \<Rightarrow> [])),
      (''model'', JStr (sr_model r))]"

record stream_metrics =
  sm_deltas :: nat
  sm_content_chars :: nat
  sm_thinking_chars :: nat
  sm_tool_calls :: nat
  sm_error :: "string option"

definition new_metrics :: stream_metrics where
  "new_metrics = \<lparr>sm_deltas = 0, sm_content_chars = 0, sm_thinking_chars = 0, sm_tool_calls = 0, sm_error = None\<rparr>"

definition count_delta :: "delta \<Rightarrow> stream_metrics \<Rightarrow> stream_metrics" where
  "count_delta d m =
     m\<lparr>sm_deltas := sm_deltas m + 1, sm_content_chars := sm_content_chars m + length (de_content d),
       sm_thinking_chars := sm_thinking_chars m + length (de_thinking d),
       sm_tool_calls := sm_tool_calls m + (if or_empty (de_call_id d) \<noteq> [] then 1 else 0)\<rparr>"

section \<open>Whole streams\<close>

text \<open>What the stream of chunks gives next; at the end of the list it stops.  \<open>msg c\<close> is the text of the exception
  that reading \<open>c\<close> raises.\<close>

datatype pull = Chunk chunk | Raises string

record stream_state =
  ss_out :: "delta list"
  ss_result :: result
  ss_metrics :: stream_metrics

definition take_delta :: "delta \<Rightarrow> stream_state \<Rightarrow> stream_state" where
  "take_delta d s = s\<lparr>ss_out := ss_out s @ [d], ss_result := apply_delta d (ss_result s), ss_metrics := count_delta d (ss_metrics s)\<rparr>"

definition fail_stream :: "string \<Rightarrow> stream_state \<Rightarrow> stream_state" where
  "fail_stream e s =
     s\<lparr>ss_out := ss_out s @ [(blank ERROR [])\<lparr>de_content := take 500 e\<rparr>], ss_metrics := (ss_metrics s)\<lparr>sm_error := Some (take 200 e)\<rparr>\<rparr>"

definition start_stream :: "string \<Rightarrow> stream_state" where
  "start_stream model = \<lparr>ss_out = [blank START model], ss_result = new_result model, ss_metrics = new_metrics\<rparr>"

definition end_stream :: "stream_state \<Rightarrow> stream_state" where
  "end_stream s = s\<lparr>ss_out := ss_out s @ [blank DONE []]\<rparr>"

fun sync_loop :: "string \<Rightarrow> (chunk \<Rightarrow> string) \<Rightarrow> pull list \<Rightarrow> stream_state \<Rightarrow> stream_state" where
  "sync_loop model msg [] s = s"
| "sync_loop model msg (Raises e # ps) s = fail_stream e s"
| "sync_loop model msg (Chunk c # ps) s =
     (case sync_extract model c of
        None \<Rightarrow> fail_stream (msg c) s
      | Some ds \<Rightarrow> sync_loop model msg ps (fold take_delta ds s))"

definition sync_run :: "string \<Rightarrow> (chunk \<Rightarrow> string) \<Rightarrow> pull list \<Rightarrow> stream_state" where
  "sync_run model msg ps = end_stream (sync_loop model msg ps (start_stream model))"

text \<open>The asynchronous task puts the same kinds of deltas into its queue; \<open>gone k\<close> is what the disconnect check
  answers before the \<open>k\<close>-th chunk.\<close>

definition note_usage :: "jdict option \<Rightarrow> stream_state \<Rightarrow> stream_state" where
  "note_usage u s = (case u of Some x \<Rightarrow> s\<lparr>ss_result := (ss_result s)\<lparr>sr_usage := Some x\<rparr>\<rparr> | None \<Rightarrow> s)"

fun async_loop :: "string \<Rightarrow> (chunk \<Rightarrow> string) \<Rightarrow> (nat \<Rightarrow> bool) \<Rightarrow> nat \<Rightarrow> pull list \<Rightarrow> stream_state \<Rightarrow> stream_state" where
  "async_loop model msg gone k [] s = s"
| "async_loop model msg gone k (Raises e # ps) s = fail_stream e s"
| "async_loop model msg gone k (Chunk c # ps) s =
     (if gone k then s
      else case extract_deltas model c of
        None \<Rightarrow> fail_stream (msg c) s
      | Some (ds, u) \<Rightarrow> async_loop model msg gone (Suc k) ps (fold take_delta ds (note_usage u s)))"

definition async_run :: "string \<Rightarrow> (chunk \<Rightarrow> string) \<Rightarrow> (nat \<Rightarrow> bool) \<Rightarrow> pull list \<Rightarrow> stream_state" where
  "async_run model msg gone ps = end_stream (async_loop model msg gone 0 ps (start_stream model))"

section \<open>The queue between the tasks\<close>

text \<open>\<open>pi_todo\<close> is what the producer still has to put (\<open>None\<close> ends the iteration), \<open>pi_checked\<close> says that the
  backpressure test of its next delta is over, \<open>pi_waiting\<close> that it sleeps until the queue has drained.\<close>

datatype consumer = Reading | Closing | Stopped

record pipe =
  pi_queue :: "delta option list"
  pi_todo :: "(bool \<times> delta option) list"
  pi_got :: "delta option list"
  pi_consumer :: consumer
  pi_checked :: bool
  pi_waiting :: bool
  pi_events :: nat
  pi_dropped :: nat

record backpressure =
  bp_buffer :: nat
  bp_high :: nat
  bp_low :: nat
  bp_drop :: bool

text \<open>The buffer of the queue is an argument of the processor of its own, 100 by default.\<close>

definition default_backpressure :: backpressure where
  "default_backpressure = \<lparr>bp_buffer = 100, bp_high = 800, bp_low = 400, bp_drop = False\<rparr>"

text \<open>Only the deltas of chunks are tested for backpressure.\<close>

definition tested :: "delta \<Rightarrow> bool" where
  "tested d \<longleftrightarrow> de_type d \<notin> {START, ERROR, DONE}"

definition new_pipe :: "delta list \<Rightarrow> pipe" where
  "new_pipe ds =
     \<lparr>pi_queue = [], pi_todo = map (\<lambda>d. (tested d, Some d)) ds @ [(False, None)], pi_got = [], pi_consumer = Reading,
      pi_checked = False, pi_waiting = False, pi_events = 0, pi_dropped = 0\<rparr>"

definition may_put :: "backpressure \<Rightarrow> bool \<Rightarrow> pipe \<Rightarrow> bool" where
  "may_put bp t p \<longleftrightarrow> \<not> pi_waiting p \<and> length (pi_queue p) < bp_buffer bp \<and> (t \<longrightarrow> pi_checked p)"

text \<open>A consumer that closes the iteration cancels the task and waits for it.  In the body of the task, the
  cancellation still runs the \<open>finally\<close> block with its two puts; in the \<open>finally\<close> block itself, where
  at most these two are left, it ends the task.\<close>

definition finals :: "(bool \<times> delta option) list" where
  "finals = [(False, Some (blank DONE [])), (False, None)]"

inductive pipe_step :: "backpressure \<Rightarrow> pipe \<Rightarrow> pipe \<Rightarrow> bool" for bp where
  passes: "pi_todo p = (True, d) # xs \<Longrightarrow> \<not> pi_checked p \<Longrightarrow> \<not> pi_waiting p \<Longrightarrow> length (pi_queue p) < bp_high bp \<Longrightarrow>
     pipe_step bp p (p\<lparr>pi_checked := True\<rparr>)"
| drops: "pi_todo p = (True, d) # xs \<Longrightarrow> \<not> pi_checked p \<Longrightarrow> \<not> pi_waiting p \<Longrightarrow> bp_high bp \<le> length (pi_queue p) \<Longrightarrow> bp_drop bp \<Longrightarrow>
     pipe_step bp p (p\<lparr>pi_checked := True, pi_queue := tl (pi_queue p), pi_events := pi_events p + 1,
       pi_dropped := pi_dropped p + (if pi_queue p = [] then 0 else 1)\<rparr>)"
| waits: "pi_todo p = (True, d) # xs \<Longrightarrow> \<not> pi_checked p \<Longrightarrow> \<not> pi_waiting p \<Longrightarrow> bp_high bp \<le> length (pi_queue p) \<Longrightarrow> \<not> bp_drop bp \<Longrightarrow>
     pipe_step bp p (p\<lparr>pi_waiting := True, pi_events := pi_events p + 1\<rparr>)"
| resumes: "pi_waiting p \<Longrightarrow> length (pi_queue p) \<le> bp_low bp \<Longrightarrow>
     pipe_step bp p (p\<lparr>pi_waiting := False, pi_checked := True\<rparr>)"
| puts: "pi_todo p = (t, x) # xs \<Longrightarrow> may_put bp t p \<Longrightarrow>
     pipe_step bp p (p\<lparr>pi_todo := xs, pi_queue := pi_queue p @ [x], pi_checked := False\<rparr>)"
| gets: "pi_consumer p = Reading \<Longrightarrow> pi_queue p = x # q \<Longrightarrow>
     pipe_step bp p (p\<lparr>pi_queue := q, pi_got := pi_got p @ [x], pi_consumer := (if x = None then Stopped else Reading)\<rparr>)"
| closes_body: "pi_consumer p = Reading \<Longrightarrow> pi_got p \<noteq> [] \<Longrightarrow> 2 \<le> length (pi_todo p) \<Longrightarrow>
     pipe_step bp p (p\<lparr>pi_consumer := Closing, pi_checked := False, pi_waiting := False, pi_todo := finals\<rparr>)"
| closes_finally: "pi_consumer p = Reading \<Longrightarrow> pi_got p \<noteq> [] \<Longrightarrow> length (pi_todo p) \<le> 2 \<Longrightarrow>
     pipe_step bp p (p\<lparr>pi_consumer := Stopped, pi_checked := False, pi_waiting := False, pi_todo := []\<rparr>)"
| joined: "pi_consumer p = Closing \<Longrightarrow> pi_todo p = [] \<Longrightarrow> pipe_step bp p (p\<lparr>pi_consumer := Stopped\<rparr>)"

abbreviation pipe_reachable :: "backpressure \<Rightarrow> delta list \<Rightarrow> pipe \<Rightarrow> bool" where
  "pipe_reachable bp ds \<equiv> (pipe_step bp)\<^sup>*\<^sup>* (new_pipe ds)"

section \<open>Server-sent events\<close>

definition format_sse_event :: "string \<Rightarrow> string option \<Rightarrow> string" where
  "format_sse_event data event =
     join newline ((if truthy event then [''event: '' @ the event] else []) @ [''data: '' @ data, [], []])"

definition sse_json :: "json \<Rightarrow> string \<Rightarrow> string" where
  "sse_json j event = format_sse_event (dumps j) (Some event)"

text \<open>What \<open>stream_sse\<close> yields for a delta; \<open>METADATA\<close> yields nothing.\<close>

definition sse_of_delta :: "string \<Rightarrow> string \<Rightarrow> string \<Rightarrow> result \<Rightarrow> delta \<Rightarrow> string list" where
  "sse_of_delta model sid ts r d =
     (case de_type d of
        START \<Rightarrow> [sse_json (JObj [(''type'', JStr ''start''), (''model'', JStr model), (''stream_id'', JStr sid)]) ''start'']
      | DELTA \<Rightarrow> [sse_json (JObj (delta_to_dict ts d)) ''delta'']
      | THINKING_DELTA \<Rightarrow> [sse_json (JObj (delta_to_dict ts d)) ''thinking'']
      | TOOL_CALL_DELTA \<Rightarrow> [sse_json (JObj (delta_to_dict ts d)) ''tool_call'']
      | USAGE \<Rightarrow> [sse_json (JObj (delta_to_dict ts d)) ''usage'']
      | DONE \<Rightarrow> [sse_json (JObj [(''type'', JStr ''done''), (''result'', JObj (to_openai_response r))]) ''done'']
      | ERROR \<Rightarrow> [sse_json (JObj [(''type'', JStr ''error''), (''error'', JStr (de_content d))]) ''error'']
      | METADATA \<Rightarrow> [])"

section \<open>Merging deltas\<close>

definition args_of :: "string \<Rightarrow> delta list \<Rightarrow> string" where
  "args_of cid ds = concat (map (\<lambda>d. if or_empty (de_call_id d) = cid then or_empty (de_arguments d) else []) ds)"

definition name_of :: "string \<Rightarrow> delta list \<Rightarrow> string" where
  "name_of cid ds = (let ns = filter (\<lambda>n. n \<noteq> []) (map (\<lambda>d. if or_empty (de_call_id d) = cid then or_empty (de_call_name d) else []) ds)
     in if ns = [] then [] else last ns)"

definition call_ids :: "delta list \<Rightarrow> string list" where
  "call_ids ds = rev (remdups (rev (filter (\<lambda>c. c \<noteq> []) (map (\<lambda>d. or_empty (de_call_id d)) ds))))"

lemma call_ids_snoc:
  "call_ids (ds @ [d]) = (if or_empty (de_call_id d) = [] \<or> or_empty (de_call_id d) \<in> set (call_ids ds)
     then call_ids ds else call_ids ds @ [or_empty (de_call_id d)])"
  by (simp add: call_ids_def)

lemma set_call_ids: "cid \<in> set (call_ids ds) \<longleftrightarrow> cid \<noteq> [] \<and> cid \<in> (\<lambda>d. or_empty (de_call_id d)) ` set ds"
  by (auto simp: call_ids_def)

lemma distinct_call_ids: "distinct (call_ids ds)"
  by (simp add: call_ids_def)

lemma args_of_snoc: "args_of cid (ds @ [d]) = args_of cid ds @ (if or_empty (de_call_id d) = cid then or_empty (de_arguments d) else [])"
  by (simp add: args_of_def)

lemma name_of_snoc: "name_of cid (ds @ [d]) =
    (if or_empty (de_call_id d) = cid \<and> or_empty (de_call_name d) \<noteq> [] then or_empty (de_call_name d) else name_of cid ds)"
  by (simp add: name_of_def Let_def)

lemma absent_id:
  "cid \<notin> set (call_ids ds) \<Longrightarrow> cid \<noteq> [] \<Longrightarrow> args_of cid ds = [] \<and> name_of cid ds = []"
  by (induction ds rule: rev_induct) (auto simp: set_call_ids args_of_snoc name_of_snoc, simp_all add: args_of_def name_of_def)

lemma merge_call_map:
  "distinct ids \<Longrightarrow> merge_call d cid (map f ids) =
     (if cid \<in> set ids then map (\<lambda>i. if i = cid then extend_call d (f i) else f i) ids
      else map f ids @ [extend_call d \<lparr>ca_id = cid, ca_name = or_empty (de_call_name d), ca_arguments = []\<rparr>])"
  if "\<And>i. ca_id (f i) = i" for f
  using that by (induction ids) auto

lemma fold_apply_calls:
  "sr_calls (fold apply_delta ds (new_result model)) =
     map (\<lambda>cid. \<lparr>ca_id = cid, ca_name = name_of cid ds, ca_arguments = args_of cid ds\<rparr>) (call_ids ds)"
proof (induction ds rule: rev_induct)
  case (snoc d ds)
  let ?f = "\<lambda>cid. \<lparr>ca_id = cid, ca_name = name_of cid ds, ca_arguments = args_of cid ds\<rparr>"
  let ?c = "or_empty (de_call_id d)"
  have others: "map (\<lambda>cid. \<lparr>ca_id = cid, ca_name = name_of cid (ds @ [d]), ca_arguments = args_of cid (ds @ [d])\<rparr>) ids = map ?f ids"
    if "?c \<notin> set ids" for ids using that by (auto simp: args_of_snoc name_of_snoc)
  consider "?c = []" | "?c \<noteq> []" "?c \<in> set (call_ids ds)" | "?c \<noteq> []" "?c \<notin> set (call_ids ds)" by blast
  thus ?case
  proof cases
    case 1
    thus ?thesis using snoc others [of "call_ids ds"] by (simp add: apply_delta_def call_ids_snoc set_call_ids)
  next
    case 2
    have "merge_call d ?c (map ?f (call_ids ds)) = map (\<lambda>i. if i = ?c then extend_call d (?f i) else ?f i) (call_ids ds)"
      using 2 by (subst merge_call_map) (simp_all add: distinct_call_ids)
    also have "\<dots> = map (\<lambda>cid. \<lparr>ca_id = cid, ca_name = name_of cid (ds @ [d]), ca_arguments = args_of cid (ds @ [d])\<rparr>) (call_ids ds)"
      by (auto simp: extend_call_def args_of_snoc name_of_snoc)
    finally show ?thesis using 2 snoc by (simp add: apply_delta_def call_ids_snoc)
  next
    case 3
    have "merge_call d ?c (map ?f (call_ids ds)) =
        map ?f (call_ids ds) @ [extend_call d \<lparr>ca_id = ?c, ca_name = or_empty (de_call_name d), ca_arguments = []\<rparr>]"
      using 3 by (subst merge_call_map) (simp_all add: distinct_call_ids)
    moreover have "extend_call d \<lparr>ca_id = ?c, ca_name = or_empty (de_call_name d), ca_arguments = []\<rparr> =
        \<lparr>ca_id = ?c, ca_name = name_of ?c (ds @ [d]), ca_arguments = args_of ?c (ds @ [d])\<rparr>"
      using absent_id [OF 3(2,1)] by (auto simp: extend_call_def args_of_snoc name_of_snoc)
    ultimately show ?thesis using 3 snoc others [OF 3(2)] by (simp add: apply_delta_def call_ids_snoc)
  qed
qed (simp add: new_result_def call_ids_def)

section \<open>Properties of whole streams\<close>

lemma fold_take_delta:
  "ss_out (fold take_delta ds s) = ss_out s @ ds \<and> ss_result (fold take_delta ds s) = fold apply_delta ds (ss_result s) \<and>
     sm_deltas (ss_metrics (fold take_delta ds s)) = sm_deltas (ss_metrics s) + length ds"
  by (induction ds arbitrary: s) (simp_all add: take_delta_def count_delta_def)

text \<open>The result of merging any deltas: the texts are concatenated; there is one tool call per non-empty id, in the
  order of first appearance, with all arguments that came with that id and the last name that did.  A delta
  without an id contributes to no call.\<close>

theorem apply_delta_correct:
  "fold apply_delta ds (new_result model) =
     \<lparr>sr_content = concat (map de_content ds), sr_thinking = concat (map de_thinking ds),
      sr_calls = map (\<lambda>cid. \<lparr>ca_id = cid, ca_name = name_of cid ds, ca_arguments = args_of cid ds\<rparr>) (call_ids ds),
      sr_model = model, sr_usage = None, sr_deltas = length ds\<rparr>"
proof -
  have "sr_content (fold apply_delta ds r) = sr_content r @ concat (map de_content ds) \<and>
      sr_thinking (fold apply_delta ds r) = sr_thinking r @ concat (map de_thinking ds) \<and>
      sr_model (fold apply_delta ds r) = sr_model r \<and> sr_usage (fold apply_delta ds r) = sr_usage r \<and>
      sr_deltas (fold apply_delta ds r) = sr_deltas r + length ds" for r
    by (induction ds arbitrary: r) (simp_all add: apply_delta_def)
  from this [of "new_result model"] show ?thesis using fold_apply_calls [of ds model]
    by (intro result.equality) (simp_all add: new_result_def)
qed

text \<open>In OpenAI's stream only the first piece of a call carries its id, the others refer to it by their index, which
  nothing reads: whatever they say is lost.\<close>

theorem openai_arguments_lost:
  assumes "\<forall>d \<in> set ds. or_empty (de_call_id d) = []" "cid \<noteq> []"
  shows "sr_calls (fold apply_delta (call_delta model (Some cid) (Some name) (Some first) # ds) (new_result model)) =
     [\<lparr>ca_id = cid, ca_name = name, ca_arguments = first\<rparr>]"
proof -
  have "filter (\<lambda>c. c \<noteq> []) (map (\<lambda>d. or_empty (de_call_id d)) ds) = []" using assms(1) by (simp add: filter_empty_conv)
  hence "call_ids (call_delta model (Some cid) (Some name) (Some first) # ds) = [cid]"
    using assms(2) by (simp add: call_ids_def call_delta_def or_empty_def)
  moreover have "map (\<lambda>d. if or_empty (de_call_id d) = cid then f d else []) ds = map (\<lambda>_. []) ds" for f :: "delta \<Rightarrow> string"
    using assms by auto
  ultimately show ?thesis unfolding fold_apply_calls
    by (simp add: args_of_def name_of_def call_delta_def or_empty_def map_replicate_const filter_replicate del: map_eq_conv)
qed

text \<open>Nor does a chunk object of the SDK that says \<open>tool_calls: null\<close>, as every chunk without calls does after
  \<open>model_dump\<close>, contribute anything: reading it raises, and the exception is dropped with the text.  The same
  dict ends the stream with an error.\<close>

theorem null_tool_calls_lose_content:
  assumes "dc_choices d = Given [Given \<lparr>cd_content = Given t, cd_tool_calls = Null\<rparr>]"
  shows "extract_deltas model (Model_Chunk (Some d)) = Some ([], None)"
    and "extract_deltas model (Dict_Chunk d) = None"
  using assms by (simp_all add: extract_deltas_def from_dict_def from_choices_def from_choice_def)

text \<open>On chunks of the one dict format without usage data, and on texts, the two processors produce the same deltas,
  result and metrics.\<close>

fun plain_chunk :: "chunk \<Rightarrow> bool" where
  "plain_chunk (Dict_Chunk d) \<longleftrightarrow> dc_type d \<noteq> Given ''content_block_delta'' \<and> dc_usage d \<in> {Missing, Null, Given []}"
| "plain_chunk (Text_Chunk t) \<longleftrightarrow> True"
| "plain_chunk _ \<longleftrightarrow> False"

lemma plain_extract: "plain_chunk c \<Longrightarrow> extract_deltas model c = map_option (\<lambda>ds. (ds, None)) (sync_extract model c)"
  by (cases c) (auto simp: extract_deltas_def sync_extract_def from_dict_def from_block_def split: option.splits)

theorem async_agrees_with_sync:
  assumes "\<And>c. Chunk c \<in> set ps \<Longrightarrow> plain_chunk c"
  shows "async_run model msg (\<lambda>_. False) ps = sync_run model msg ps"
proof -
  have "async_loop model msg (\<lambda>_. False) k ps s = sync_loop model msg ps s" for k s
    using assms
  proof (induction ps arbitrary: k s)
    case (Cons x ps)
    show ?case
    proof (cases x)
      case (Chunk c)
      have "plain_chunk c" using Cons.prems Chunk by simp
      from plain_extract [OF this] show ?thesis using Cons Chunk by (auto simp: note_usage_def split: option.split)
    qed simp
  qed simp
  thus ?thesis by (simp add: async_run_def sync_run_def)
qed

definition piece :: "delta \<Rightarrow> bool" where
  "piece d \<longleftrightarrow> de_type d \<in> {DELTA, THINKING_DELTA, TOOL_CALL_DELTA}"

lemma piece_simps [simp]:
  "piece (content_delta model t)" "piece (thinking_delta model t)" "piece (call_delta model cid name args)"
  "list_all piece (content_deltas model t)"
  by (simp_all add: piece_def content_delta_def thinking_delta_def call_delta_def blank_def content_deltas_def)

lemma those_mem: "those xs = Some ys \<Longrightarrow> y \<in> set ys \<Longrightarrow> Some y \<in> set xs"
  by (induction xs arbitrary: ys) (auto split: option.splits)

lemma from_choices_pieces: "from_choices model cs = Some ds \<Longrightarrow> list_all piece ds"
proof -
  have call: "piece d" if "from_call model tc = Some d" for tc d
    using that by (auto simp: from_call_def split: option.splits)
  have choice: "list_all piece es" if "from_choice model c = Some es" for c es
    using that call by (auto simp: from_choice_def list_all_iff dest!: those_mem split: option.splits)
       (auto simp: content_deltas_def split: if_splits)
  assume "from_choices model cs = Some ds"
  then obtain xs es where xs: "those (map (from_choice model) xs) = Some es" "ds = concat es"
    by (auto simp: from_choices_def split: option.splits)
  have "list_all piece e" if "e \<in> set es" for e using those_mem [OF xs(1) that] choice by auto
  thus ?thesis by (auto simp: xs(2) list_all_iff)
qed

lemma extract_types: "extract_deltas model c = Some (ds, u) \<Longrightarrow> d \<in> set ds \<Longrightarrow> piece d"
proof -
  have block: "list_all piece bs" if "from_block model x = Some bs" for x bs
    using that by (auto simp: from_block_def split: if_splits option.splits)
  have dict: "list_all piece es" if "from_dict model x = Some (es, v)" for x es v
    using that block from_choices_pieces [of model "dc_choices x"] by (auto simp: from_dict_def split: option.splits)
  have sdk: "list_all piece (from_sdk_choice model x)" for x
    by (auto simp: from_sdk_choice_def from_sdk_call_def list_all_iff content_deltas_def split: option.split)
  assume e: "extract_deltas model c = Some (ds, u)" and d: "d \<in> set ds"
  have "list_all piece ds"
  proof (cases c)
    case (Dict_Chunk x)
    thus ?thesis using dict [of x ds u] e by (simp add: extract_deltas_def)
  next
    case (Model_Chunk md)
    thus ?thesis using dict e by (auto simp: extract_deltas_def split: option.splits)
  next
    case (Choices_Chunk cs)
    hence "ds = concat (map (from_sdk_choice model) cs)" using e by (simp add: extract_deltas_def)
    thus ?thesis using sdk by (auto simp: list_all_iff)
  next
    case (Delta_Chunk x)
    hence "ds = from_sdk_delta model x" using e by (simp add: extract_deltas_def)
    thus ?thesis by (simp add: from_sdk_delta_def)
  qed (use e in \<open>auto simp: extract_deltas_def\<close>)
  thus "piece d" using d by (simp add: list_all_iff)
qed

lemma async_shape:
  "\<exists>ds. ss_out (async_loop model msg gone k ps s) = ss_out s @ ds \<and> DONE \<notin> de_type ` set ds \<and> START \<notin> de_type ` set ds"
proof (induction ps arbitrary: k s)
  case (Cons x ps)
  have failed: "\<exists>ds. ss_out (fail_stream e s) = ss_out s @ ds \<and> DONE \<notin> de_type ` set ds \<and> START \<notin> de_type ` set ds" for e
    by (simp add: fail_stream_def blank_def)
  show ?case
  proof (cases x)
    case (Raises e)
    thus ?thesis using failed by simp
  next
    case (Chunk c)
    show ?thesis
    proof (cases "gone k")
      case True
      thus ?thesis using Chunk by simp
    next
      case False
      show ?thesis
      proof (cases "extract_deltas model c")
        case None
        thus ?thesis using failed Chunk False by simp
      next
        case (Some r)
        obtain ds u where r: "r = (ds, u)" by (cases r)
        have ty: "de_type d \<notin> {START, DONE}" if "d \<in> set ds" for d
          using extract_types [of model c ds u d] Some r that by (auto simp: piece_def)
        obtain es where "ss_out (async_loop model msg gone (Suc k) ps (fold take_delta ds (note_usage u s))) = ss_out s @ ds @ es"
            "DONE \<notin> de_type ` set es" "START \<notin> de_type ` set es"
          using Cons.IH [of "Suc k" "fold take_delta ds (note_usage u s)"] fold_take_delta [of ds "note_usage u s"]
          by (auto simp: note_usage_def split: option.splits)
        thus ?thesis using ty Chunk False Some r by (intro exI [of _ "ds @ es"]) fastforce
      qed
    qed
  qed
qed simp

text \<open>Every run yields one start event first and one done event last, whatever the stream does.\<close>

theorem stream_framed:
  "\<exists>ds. ss_out (async_run model msg gone ps) = blank START model # ds @ [blank DONE []] \<and>
     DONE \<notin> de_type ` set ds \<and> START \<notin> de_type ` set ds"
  using async_shape [of model msg gone 0 ps "start_stream model"]
  by (auto simp: async_run_def end_stream_def start_stream_def)

section \<open>Properties of the queue\<close>

definition all_items :: "delta list \<Rightarrow> delta option list" where
  "all_items ds = map Some ds @ [None]"

definition pipe_inv :: "backpressure \<Rightarrow> delta list \<Rightarrow> pipe \<Rightarrow> bool" where
  "pipe_inv bp ds p \<longleftrightarrow>
     length (pi_queue p) \<le> bp_buffer bp \<and>
     (pi_waiting p \<longrightarrow> \<not> bp_drop bp \<and> \<not> pi_checked p) \<and>
     (pi_consumer p = Reading \<longrightarrow> pi_dropped p = 0 \<longrightarrow> pi_got p @ pi_queue p @ map snd (pi_todo p) = all_items ds) \<and>
     (pi_consumer p = Reading \<longrightarrow> None \<in> set (pi_queue p) \<union> snd ` set (pi_todo p)) \<and>
     (pi_consumer p = Reading \<longrightarrow> (\<exists>xs. pi_todo p = xs @ [(False, None)] \<and> None \<notin> set (pi_queue p) \<union> snd ` set xs) \<or>
        pi_todo p = [] \<and> (\<exists>q. pi_queue p = q @ [None] \<and> None \<notin> set q)) \<and>
     (pi_consumer p = Closing \<longrightarrow> \<not> pi_waiting p \<and> (\<forall>x \<in> set (pi_todo p). \<not> fst x)) \<and>
     (bp_buffer bp < bp_high bp \<longrightarrow> pi_events p = 0 \<and> pi_dropped p = 0 \<and> \<not> pi_waiting p) \<and>
     (\<not> bp_drop bp \<longrightarrow> pi_dropped p = 0)"

lemma pipe_inv_new: "pipe_inv bp ds (new_pipe ds)"
  by (auto simp: pipe_inv_def new_pipe_def all_items_def comp_def)

lemma tl_suffix_None: "q @ [None] = xs \<Longrightarrow> None \<notin> set q \<Longrightarrow> tl xs = (if q = [] then [] else tl q @ [None])"
  by (cases q) auto

lemma pipe_inv_step:
  assumes "pipe_step bp p p'" "pipe_inv bp ds p"
  shows "pipe_inv bp ds p'"
  using assms
proof (induction rule: pipe_step.induct)
  case (passes p d xs)
  thus ?case by (simp add: pipe_inv_def)
next
  case (drops p d xs)
  have "pi_todo p \<noteq> []" using drops by simp
  hence r: "pi_consumer p = Reading \<longrightarrow> (\<exists>xs. pi_todo p = xs @ [(False, None)] \<and> None \<notin> set (pi_queue p) \<union> snd ` set xs)"
    using drops unfolding pipe_inv_def by simp
  have "set (tl (pi_queue p)) \<subseteq> set (pi_queue p)" by (cases "pi_queue p") auto
  moreover have "length (tl (pi_queue p)) \<le> bp_buffer bp" using drops by (auto simp: pipe_inv_def)
  moreover have "pi_consumer p = Reading \<longrightarrow> None \<in> snd ` set (pi_todo p)" using r by force
  moreover have "\<not> pi_waiting p" "bp_buffer bp < bp_high bp \<longrightarrow> False" "bp_drop bp" "pi_consumer p \<noteq> Closing"
    using drops by (auto simp: pipe_inv_def)
  moreover have "pi_consumer p = Reading \<longrightarrow> pi_dropped p = 0 \<longrightarrow> pi_got p @ pi_queue p @ map snd (pi_todo p) = all_items ds"
    using drops by (simp add: pipe_inv_def)
  ultimately show ?case using r unfolding pipe_inv_def by (cases "pi_queue p = []") auto
next
  case (waits p d xs)
  thus ?case by (auto simp: pipe_inv_def)
next
  case (resumes p)
  thus ?case by (auto simp: pipe_inv_def)
next
  case (puts p t x xs)
  show ?case
  proof (cases "pi_consumer p = Reading")
    case True
    have "(\<exists>ys. pi_todo p = ys @ [(False, None)] \<and> None \<notin> set (pi_queue p) \<union> snd ` set ys)"
      using puts True unfolding pipe_inv_def by simp
    then obtain ys where ys: "(t, x) # xs = ys @ [(False, None)]" "None \<notin> set (pi_queue p) \<union> snd ` set ys" using puts by auto
    have "(\<exists>zs. xs = zs @ [(False, None)] \<and> None \<notin> set (pi_queue p @ [x]) \<union> snd ` set zs) \<or>
        xs = [] \<and> (\<exists>q. pi_queue p @ [x] = q @ [None] \<and> None \<notin> set q)"
      using ys by (cases ys) auto
    moreover have "None \<in> set (pi_queue p @ [x]) \<union> snd ` set xs" using ys by (cases ys) auto
    ultimately show ?thesis using puts True unfolding pipe_inv_def may_put_def by simp
  next
    case False
    thus ?thesis using puts unfolding pipe_inv_def may_put_def by auto
  qed
next
  case (gets p x q)
  show ?case
  proof (cases x)
    case None
    thus ?thesis using gets unfolding pipe_inv_def by auto
  next
    case (Some d)
    hence "(\<exists>zs. pi_todo p = zs @ [(False, None)] \<and> None \<notin> set q \<union> snd ` set zs) \<or>
        pi_todo p = [] \<and> (\<exists>r. q = r @ [None] \<and> None \<notin> set r)"
      using gets unfolding pipe_inv_def by (auto simp: Cons_eq_append_conv)
    moreover from this have "None \<in> set q \<union> snd ` set (pi_todo p)" by force
    ultimately show ?thesis using gets Some unfolding pipe_inv_def by simp
  qed
next
  case (closes_body p)
  thus ?case by (auto simp: pipe_inv_def finals_def)
next
  case (closes_finally p)
  thus ?case by (auto simp: pipe_inv_def)
next
  case (joined p)
  thus ?case by (auto simp: pipe_inv_def)
qed

lemma pipe_reachable_inv: "pipe_reachable bp ds p \<Longrightarrow> pipe_inv bp ds p"
  by (induction rule: rtranclp_induct) (simp_all add: pipe_inv_new pipe_inv_step)

text \<open>Without dropping, a consumer that keeps reading gets the items in order, none lost or repeated: what it has got, what
  is buffered and what is still to be put are together the whole run.\<close>

theorem stream_in_order:
  assumes "pipe_reachable bp ds p" "\<not> bp_drop bp" "pi_consumer p = Reading"
  shows "pi_got p @ pi_queue p @ map snd (pi_todo p) = all_items ds"
  using pipe_reachable_inv [OF assms(1)] assms(2,3) by (simp add: pipe_inv_def)

definition work_left :: "pipe \<Rightarrow> nat" where
  "work_left p = 5 * length (pi_todo p) + length (pi_queue p) + (if pi_checked p then 0 else if pi_waiting p then 1 else 2)"

lemma reading_step:
  assumes "pipe_inv bp ds p" "pi_consumer p = Reading" "0 < bp_buffer bp" "0 < bp_high bp" "\<not> bp_drop bp"
  shows "\<exists>p'. pipe_step bp p p' \<and> work_left p' < work_left p \<and>
     (pi_consumer p' = Reading \<or> pi_consumer p' = Stopped \<and> pi_got p' = all_items ds)"
proof (cases "pi_queue p")
  case (Cons x q)
  let ?p = "p\<lparr>pi_queue := q, pi_got := pi_got p @ [x], pi_consumer := (if x = None then Stopped else Reading)\<rparr>"
  have "pi_got ?p = all_items ds" if "x = None"
  proof -
    have "pi_todo p = [] \<and> q = []" using assms(1,2) Cons that unfolding pipe_inv_def by (auto simp: Cons_eq_append_conv)
    thus ?thesis using assms(1,2,5) Cons that unfolding pipe_inv_def by auto
  qed
  moreover have "work_left ?p < work_left p" using Cons by (simp add: work_left_def)
  ultimately show ?thesis using pipe_step.gets [OF assms(2) Cons, of bp] by (cases "x = None") auto
next
  case Nil
  then obtain t x xs where todo: "pi_todo p = (t, x) # xs"
    using assms(1,2) unfolding pipe_inv_def by (cases "pi_todo p") auto
  consider "pi_waiting p" | "\<not> pi_waiting p" "t" "\<not> pi_checked p" | "\<not> pi_waiting p" "t \<longrightarrow> pi_checked p" by blast
  thus ?thesis
  proof cases
    case 1
    have "work_left (p\<lparr>pi_waiting := False, pi_checked := True\<rparr>) < work_left p"
      using 1 assms(1) by (simp add: work_left_def pipe_inv_def)
    thus ?thesis using pipe_step.resumes [of p bp] 1 Nil assms(2) by (intro exI [of _ "p\<lparr>pi_waiting := False, pi_checked := True\<rparr>"]) simp
  next
    case 2
    have "pipe_step bp p (p\<lparr>pi_checked := True\<rparr>)"
      by (rule pipe_step.passes [of _ x xs]) (use 2 todo Nil assms(4) in simp_all)
    thus ?thesis using 2 assms(2) by (intro exI [of _ "p\<lparr>pi_checked := True\<rparr>"]) (simp add: work_left_def)
  next
    case 3
    have "pipe_step bp p (p\<lparr>pi_todo := xs, pi_queue := pi_queue p @ [x], pi_checked := False\<rparr>)"
      by (rule pipe_step.puts [OF todo]) (use 3 Nil assms(3) in \<open>simp add: may_put_def\<close>)
    thus ?thesis using 3 assms(2) todo
      by (intro exI [of _ "p\<lparr>pi_todo := xs, pi_queue := pi_queue p @ [x], pi_checked := False\<rparr>"]) (simp add: work_left_def)
  qed
qed


definition closing_inv :: "backpressure \<Rightarrow> nat \<Rightarrow> pipe \<Rightarrow> bool" where
  "closing_inv bp n p \<longleftrightarrow>
     (pi_consumer p = Closing \<and> length (pi_queue p) + length (pi_todo p) = n \<and> length (pi_queue p) \<le> bp_buffer bp \<and>
        \<not> pi_waiting p \<and> (\<forall>x \<in> set (pi_todo p). \<not> fst x)) \<or>
     (pi_consumer p = Stopped \<and> n \<le> bp_buffer bp)"

lemma closing_inv_step: "pipe_step bp p p' \<Longrightarrow> closing_inv bp n p \<Longrightarrow> closing_inv bp n p'"
  by (induction rule: pipe_step.induct) (auto simp: closing_inv_def may_put_def)

lemma closing_inv_steps: "(pipe_step bp)\<^sup>*\<^sup>* p p' \<Longrightarrow> closing_inv bp n p \<Longrightarrow> closing_inv bp n p'"
  by (induction rule: rtranclp_induct) (simp_all add: closing_inv_step)

lemma closing_reaches:
  "closing_inv bp n p \<Longrightarrow> n \<le> bp_buffer bp \<Longrightarrow> \<exists>p'. (pipe_step bp)\<^sup>*\<^sup>* p p' \<and> pi_consumer p' = Stopped"
proof (induction "length (pi_todo p)" arbitrary: p)
  case 0
  show ?case
  proof (cases "pi_consumer p = Closing")
    case True
    have "pipe_step bp p (p\<lparr>pi_consumer := Stopped\<rparr>)" using 0(1) True by (intro pipe_step.joined) simp_all
    thus ?thesis by (intro exI [of _ "p\<lparr>pi_consumer := Stopped\<rparr>"]) (simp add: r_into_rtranclp)
  next
    case False
    thus ?thesis using 0 by (auto simp: closing_inv_def)
  qed
next
  case (Suc k)
  show ?case
  proof (cases "pi_consumer p = Closing")
    case True
    obtain t x xs where todo: "pi_todo p = (t, x) # xs" using Suc(2) by (cases "pi_todo p") auto
    let ?p = "p\<lparr>pi_todo := xs, pi_queue := pi_queue p @ [x], pi_checked := False\<rparr>"
    have step: "pipe_step bp p ?p"
      by (rule pipe_step.puts [OF todo]) (use Suc.prems True todo in \<open>auto simp: may_put_def closing_inv_def\<close>)
    have "k = length (pi_todo ?p)" using Suc(2) todo by simp
    from Suc(1) [OF this closing_inv_step [OF step Suc.prems(1)] Suc.prems(2)]
    show ?thesis using converse_rtranclp_into_rtranclp [of "pipe_step bp", OF step] by blast
  next
    case False
    thus ?thesis using Suc.prems by (auto simp: closing_inv_def)
  qed
qed

text \<open>C28: A consumer that closes the iteration early waits for the cancelled task, which still has to put its last two items
  while nobody reads: closing returns exactly if they fit into the buffer, and hangs for ever otherwise.\<close>

theorem early_close_returns_iff:
  assumes "pipe_reachable bp ds p" "pi_consumer p = Closing"
  shows "(\<exists>p'. (pipe_step bp)\<^sup>*\<^sup>* p p' \<and> pi_consumer p' = Stopped) \<longleftrightarrow>
     length (pi_queue p) + length (pi_todo p) \<le> bp_buffer bp"
proof
  have inv: "closing_inv bp (length (pi_queue p) + length (pi_todo p)) p"
    using pipe_reachable_inv [OF assms(1)] assms(2) by (auto simp: closing_inv_def pipe_inv_def)
  show "length (pi_queue p) + length (pi_todo p) \<le> bp_buffer bp" if ex: "\<exists>p'. (pipe_step bp)\<^sup>*\<^sup>* p p' \<and> pi_consumer p' = Stopped"
  proof -
    obtain p' where p': "(pipe_step bp)\<^sup>*\<^sup>* p p'" "pi_consumer p' = Stopped" using ex by blast
    from closing_inv_steps [OF p'(1) inv] p'(2) show ?thesis by (simp add: closing_inv_def)
  qed
  show "\<exists>p'. (pipe_step bp)\<^sup>*\<^sup>* p p' \<and> pi_consumer p' = Stopped" if "length (pi_queue p) + length (pi_todo p) \<le> bp_buffer bp"
    by (rule closing_reaches [OF inv that])
qed

text \<open>The default configuration never notices pressure: the queue holds 100 items and the watermark is 800.\<close>

theorem default_never_pushes_back:
  assumes "pipe_reachable default_backpressure ds p"
  shows "pi_events p = 0 \<and> pi_dropped p = 0"
  using pipe_reachable_inv [OF assms] by (simp add: pipe_inv_def default_backpressure_def)

section \<open>The event stream of the web\<close>

text \<open>Printed JSON has no control characters.\<close>

definition printable :: "string \<Rightarrow> bool" where
  "printable s \<longleftrightarrow> (\<forall>c \<in> set s. 32 \<le> (of_char c :: nat))"

lemma printable_simps [simp]:
  "printable []" "printable (c # s) \<longleftrightarrow> 32 \<le> (of_char c :: nat) \<and> printable s" "printable (s @ t) \<longleftrightarrow> printable s \<and> printable t"
  by (auto simp: printable_def)

lemma printable_dumps: "json_ok j \<Longrightarrow> printable (dumps j)"
  using dumps_ascii [of j] by (simp add: printable_def ascii_def)

text \<open>How a client reads events: lines end in a carriage return or a newline, an empty line ends an event.\<close>

definition line_end :: "char \<Rightarrow> bool" where
  "line_end c \<longleftrightarrow> c \<in> {CHR 0x0A, CHR 0x0D}"

fun sse_split :: "string \<Rightarrow> string \<Rightarrow> string list" where
  "sse_split w [] = []"
| "sse_split w (c # cs) = (if line_end c then w # sse_split [] cs else sse_split (w @ [c]) cs)"

fun sse_read :: "string \<Rightarrow> string list \<Rightarrow> string list \<Rightarrow> (string \<times> string) list" where
  "sse_read ev data [] = []"
| "sse_read ev data (l # ls) =
     (if l = [] then (if data = [] then [] else [(ev, join newline data)]) @ sse_read [] [] ls
      else case after_prefix ''event: '' l of
        Some e \<Rightarrow> sse_read e data ls
      | None \<Rightarrow> (case after_prefix ''data: '' l of Some d \<Rightarrow> sse_read ev (data @ [d]) ls | None \<Rightarrow> sse_read ev data ls))"

definition sse_events :: "string \<Rightarrow> (string \<times> string) list" where
  "sse_events s = sse_read [] [] (sse_split [] s)"

lemma sse_split_line: "\<forall>c \<in> set l. \<not> line_end c \<Longrightarrow> sse_split w (l @ newline @ s) = (w @ l) # sse_split [] s"
  by (induction l arbitrary: w) (simp_all add: newline_def line_end_def)

lemma printable_line: "printable s \<Longrightarrow> c \<in> set s \<Longrightarrow> \<not> line_end c"
  by (auto simp: printable_def line_end_def)

lemma sse_one:
  assumes "json_ok j" "printable e" "e \<noteq> []"
  shows "sse_read [] [] (sse_split [] (sse_json j e @ s)) = (e, dumps j) # sse_read [] [] (sse_split [] s)"
proof -
  have "sse_json j e @ s = (''event: '' @ e) @ newline @ (''data: '' @ dumps j) @ newline @ [] @ newline @ s"
    using assms(3) by (simp add: sse_json_def format_sse_event_def newline_def)
  moreover have line: "sse_split [] (l @ newline @ t) = l # sse_split [] t" if "printable l" for l t
    using sse_split_line [of l "[]" t] printable_line [OF that] by (simp only: append_Nil ball_simps) blast
  have "printable (''event: '' @ e)" "printable (''data: '' @ dumps j)" "printable []"
    using assms(2) printable_dumps [OF assms(1)] by simp_all
  ultimately have "sse_split [] (sse_json j e @ s) = (''event: '' @ e) # (''data: '' @ dumps j) # [] # sse_split [] s"
    by (simp only: line)
  thus ?thesis by (simp add: after_prefix_def)
qed


section \<open>Concrete inputs\<close>

definition two_pieces :: "delta list" where
  "two_pieces = [blank START ''m'', content_delta ''m'' ''Hel'', content_delta ''m'' ''lo'', blank DONE []]"

definition tiny :: backpressure where
  "tiny = \<lparr>bp_buffer = 1, bp_high = 8, bp_low = 4, bp_drop = False\<rparr>"

definition tiny_closed :: pipe where
  "tiny_closed = \<lparr>pi_queue = [Some (content_delta ''m'' ''Hel'')], pi_todo = finals, pi_got = [Some (blank START ''m'')],
     pi_consumer = Closing, pi_checked = False, pi_waiting = False, pi_events = 0, pi_dropped = 0\<rparr>"

lemma tiny_closed_reachable: "pipe_reachable tiny two_pieces tiny_closed"
proof -
  let ?p0 = "new_pipe two_pieces"
  let ?p1 = "?p0\<lparr>pi_todo := tl (pi_todo ?p0), pi_queue := [Some (blank START ''m'')], pi_checked := False\<rparr>"
  let ?p2 = "?p1\<lparr>pi_queue := [], pi_got := [Some (blank START ''m'')], pi_consumer := Reading\<rparr>"
  let ?p3 = "?p2\<lparr>pi_checked := True\<rparr>"
  let ?p4 = "?p3\<lparr>pi_todo := tl (pi_todo ?p3), pi_queue := [Some (content_delta ''m'' ''Hel'')], pi_checked := False\<rparr>"
  note defs = new_pipe_def two_pieces_def tested_def blank_def content_delta_def tiny_def may_put_def
  have "pipe_step tiny ?p0 ?p1" using pipe_step.puts [of ?p0 False "Some (blank START ''m'')" _ tiny] by (simp add: defs)
  moreover have "pipe_step tiny ?p1 ?p2" using pipe_step.gets [of ?p1 "Some (blank START ''m'')" "[]" tiny] by (simp add: defs)
  moreover have "pipe_step tiny ?p2 ?p3" by (rule pipe_step.passes) (simp_all add: defs)
  moreover have "pipe_step tiny ?p3 ?p4" using pipe_step.puts [of ?p3 True "Some (content_delta ''m'' ''Hel'')" _ tiny] by (simp add: defs)
  moreover have "pipe_step tiny ?p4 tiny_closed" using pipe_step.closes_body [of ?p4 tiny] by (simp add: defs tiny_closed_def)
  ultimately show ?thesis by (meson converse_rtranclp_into_rtranclp rtranclp.rtrancl_refl)
qed

theorem openai_arguments_lost_witness:
  "sr_calls (fold apply_delta [call_delta [] (Some ''c1'') (Some ''add'') (Some []), call_delta [] (Some []) (Some []) (Some ''7'')] (new_result [])) =
     [\<lparr>ca_id = ''c1'', ca_name = ''add'', ca_arguments = []\<rparr>]"
  by (rule openai_arguments_lost) (simp_all add: call_delta_def or_empty_def)

theorem async_agrees_with_sync_witness:
  "async_run ''m'' (\<lambda>_. []) (\<lambda>_. False) [Chunk (Text_Chunk ''hi''), Raises ''lost''] = sync_run ''m'' (\<lambda>_. []) [Chunk (Text_Chunk ''hi''), Raises ''lost'']"
  by (rule async_agrees_with_sync) auto

theorem stream_in_order_witness:
  "pi_got (new_pipe two_pieces) @ pi_queue (new_pipe two_pieces) @ map snd (pi_todo (new_pipe two_pieces)) = all_items two_pieces"
  by (rule stream_in_order [of tiny]) (simp_all add: tiny_def new_pipe_def)


theorem early_close_returns_iff_witness:
  "\<not> (\<exists>p'. (pipe_step tiny)\<^sup>*\<^sup>* tiny_closed p' \<and> pi_consumer p' = Stopped)"
  using early_close_returns_iff [OF tiny_closed_reachable] by (simp add: tiny_closed_def finals_def tiny_def)

theorem default_never_pushes_back_witness:
  "pi_events (new_pipe two_pieces) = 0"
  using default_never_pushes_back [of two_pieces "new_pipe two_pieces"] by simp


end
