(* ===== verification/Orchestrator.thy ===== *)
theory Orchestrator
  imports Tool_Calling
begin

text \<open>
  The multi-agent pipeline (\<open>agent/orchestrator.py\<close>) and the message bus of its roles
  (\<open>agent/roles/base_role.py\<close>): the topological sort, the concurrent run of the roles as a step relation over any
  interleaving of their tasks, the inputs they get, the messages they exchange, and the verdict.  What a role
  answers is arbitrary.  Data base, log, durations and hooks are left out.
\<close>

type_synonym graph = "(string \<times> string list) list"

definition default_pipeline :: "string list" where
  "default_pipeline = [''product_manager'', ''architect'', ''engineer'', ''qa'']"

definition default_deps :: graph where
  "default_deps = [(''product_manager'', []), (''architect'', [''product_manager'']), (''engineer'', [''architect'']), (''qa'', [''engineer''])]"

text \<open>An empty pipeline or dict of dependencies is replaced by the default, like a missing one.\<close>

definition init_pipeline :: "string list option \<Rightarrow> string list" where
  "init_pipeline p = (case p of Some (x # xs) \<Rightarrow> x # xs | _ \<Rightarrow> default_pipeline)"

definition init_deps :: "graph option \<Rightarrow> graph" where
  "init_deps g = (case g of Some (x # xs) \<Rightarrow> x # xs | _ \<Rightarrow> default_deps)"

definition deps_of :: "graph \<Rightarrow> string \<Rightarrow> string list" where
  "deps_of g r = (case map_of g r of Some ds \<Rightarrow> ds | None \<Rightarrow> [])"

section \<open>The order\<close>

datatype sort_error = Key_Error string | Cycle_Error

definition in_degrees :: "string list \<Rightarrow> graph \<Rightarrow> (string \<times> int) list" where
  "in_degrees pl g = map (\<lambda>r. (r, int (length (deps_of g r)))) pl"

definition dependents :: "graph \<Rightarrow> string \<Rightarrow> string list" where
  "dependents g d = concat (map (\<lambda>(r, ds). map (\<lambda>_. r) (filter (\<lambda>x. x = d) ds)) g)"

text \<open>The inner loop: one degree less for every dependent; those that reach 0 join the queue.\<close>

fun release :: "string list \<Rightarrow> (string \<times> int) list \<Rightarrow> string list \<Rightarrow> sort_error + (string \<times> int) list \<times> string list" where
  "release [] ind q = Inr (ind, q)"
| "release (d # ds) ind q =
     (case map_of ind d of
        None \<Rightarrow> Inl (Key_Error d)
      | Some n \<Rightarrow> release ds (AList.update d (n - 1) ind) (if n - 1 = 0 then q @ [d] else q))"

definition positive :: "(string \<times> int) list \<Rightarrow> string set" where
  "positive ind = {r. \<exists>n > 0. map_of ind r = Some n}"

lemma finite_positive [simp]: "finite (positive ind)"
  by (rule finite_subset [of _ "fst ` set ind", rotated]) (simp, force simp: positive_def dest: map_of_SomeD)

lemma release_measure:
  "release ds ind q = Inr (ind', q') \<Longrightarrow> length q' + card (positive ind') \<le> length q + card (positive ind)"
proof (induction ds arbitrary: ind q)
  case (Cons d ds)
  obtain n where n: "map_of ind d = Some n" using Cons.prems by (cases "map_of ind d") simp_all
  let ?ind = "AList.update d (n - 1) ind" and ?q = "if n - 1 = 0 then q @ [d] else q"
  have le: "length q' + card (positive ind') \<le> length ?q + card (positive ?ind)"
    by (rule Cons.IH) (use Cons.prems n in simp)
  have pos: "positive ?ind = (if 1 < n then positive ind else positive ind - {d})"
    using n by (auto simp: positive_def split: if_splits)
  have "length ?q + card (positive ?ind) \<le> length q + card (positive ind)"
  proof (cases "n = 1")
    case True
    hence "d \<in> positive ind" using n by (simp add: positive_def)
    from card.remove [OF finite_positive this] True pos show ?thesis by simp
  next
    case False
    have "positive ?ind \<subseteq> positive ind" using pos by auto
    from card_mono [OF finite_positive this] False show ?thesis by simp
  qed
  moreover note le
  ultimately show ?case by (rule order.trans [rotated])
qed simp

function kahn :: "graph \<Rightarrow> string list \<Rightarrow> (string \<times> int) list \<Rightarrow> string list \<Rightarrow> sort_error + string list" where
  "kahn g [] ind order = Inr order"
| "kahn g (r # q) ind order =
     (case release (dependents g r) ind q of
        Inl e \<Rightarrow> Inl e
      | Inr (ind', q') \<Rightarrow> kahn g q' ind' (order @ [r]))"
  by pat_completeness auto
termination
  by (relation "measure (\<lambda>(g, q, ind, order). length q + card (positive ind))") (auto dest!: release_measure)

definition topological_sort :: "string list \<Rightarrow> graph \<Rightarrow> sort_error + string list" where
  "topological_sort pl g =
     (case kahn g (filter (\<lambda>r. map_of (in_degrees pl g) r = Some 0) pl) (in_degrees pl g) [] of
        Inl e \<Rightarrow> Inl e
      | Inr order \<Rightarrow> if length order \<noteq> length pl then Inl Cycle_Error else Inr order)"

section \<open>The order is right\<close>

definition graph_ok :: "string list \<Rightarrow> graph \<Rightarrow> bool" where
  "graph_ok pl g \<longleftrightarrow> distinct pl \<and> dict_ok g \<and> list_all (\<lambda>(r, ds). r \<in> set pl \<and> set ds \<subseteq> set pl) g"

definition edges :: "string list \<Rightarrow> graph \<Rightarrow> (string \<times> string) set" where
  "edges pl g = {(d, r). r \<in> set pl \<and> d \<in> set (deps_of g r)}"

definition dep_ordered :: "graph \<Rightarrow> string list \<Rightarrow> bool" where
  "dep_ordered g order \<longleftrightarrow> (\<forall>i<length order. set (deps_of g (order ! i)) \<subseteq> set (take i order))"

lemma deps_of_mem: "graph_ok pl g \<Longrightarrow> d \<in> set (deps_of g r) \<Longrightarrow> d \<in> set pl \<and> r \<in> set pl"
  by (cases "map_of g r") (auto simp: graph_ok_def deps_of_def list_all_iff dest!: map_of_SomeD)

lemma count_dependents:
  "dict_ok g \<Longrightarrow> count_list (dependents g d) r = count_list (deps_of g r) d"
proof (induction g)
  case (Cons x g)
  obtain k ds where x: "x = (k, ds)" by (cases x)
  have "count_list (map (\<lambda>_. k) (filter (\<lambda>x. x = d) ds)) r = (if k = r then count_list ds d else 0)"
    by (induction ds) auto
  moreover have "k = r \<Longrightarrow> deps_of g r = []"
    using Cons.prems map_of_eq_None_iff [of g r] by (simp add: x dict_ok_def deps_of_def)
  ultimately show ?case using Cons by (auto simp: x dependents_def dict_ok_def deps_of_def)
qed (simp add: dependents_def deps_of_def)

lemma count_filter: "count_list xs d = length (filter (\<lambda>x. x = d) xs)"
  by (induction xs) auto

text \<open>What is left to wait for when the roles of \<open>done\<close> have been ordered.\<close>

definition missing :: "graph \<Rightarrow> string set \<Rightarrow> string \<Rightarrow> nat" where
  "missing g finished r = length (filter (\<lambda>d. d \<notin> finished) (deps_of g r))"

lemma missing_insert:
  "d \<notin> finished \<Longrightarrow> missing g finished r = missing g (insert d finished) r + count_list (deps_of g r) d"
proof -
  assume d: "d \<notin> finished"
  have "length (filter (\<lambda>x. x \<notin> finished) xs) = length (filter (\<lambda>x. x \<notin> insert d finished) xs) + count_list xs d" for xs
    using d by (induction xs) auto
  thus ?thesis by (simp add: missing_def)
qed

lemma missing_0: "missing g finished r = 0 \<longleftrightarrow> set (deps_of g r) \<subseteq> finished"
  by (auto simp: missing_def filter_empty_conv)

lemma release_counts:
  assumes "\<And>r. r \<in> set ds \<Longrightarrow> \<exists>n. map_of ind r = Some n \<and> int (count_list ds r) \<le> n"
  shows "\<exists>ind' new. release ds ind q = Inr (ind', q @ new) \<and>
     (\<forall>r. map_of ind' r = map_option (\<lambda>n. n - int (count_list ds r)) (map_of ind r)) \<and>
     distinct new \<and> set new = {r. r \<in> set ds \<and> map_of ind r = Some (int (count_list ds r))}"
  using assms
proof (induction ds arbitrary: ind q)
  case (Cons d ds)
  obtain n where n: "map_of ind d = Some n" "int (count_list (d # ds) d) \<le> n" using Cons.prems [of d] by auto
  let ?ind = "AList.update d (n - 1) ind" and ?q = "if n - 1 = 0 then q @ [d] else q"
  have "\<exists>k. map_of ?ind r = Some k \<and> int (count_list ds r) \<le> k" if "r \<in> set ds" for r
    using Cons.prems [of r] n that by (cases "r = d") auto
  from Cons.IH [OF this, of ?q] obtain ind' new where IH: "release ds ?ind ?q = Inr (ind', ?q @ new)"
      "\<forall>r. map_of ind' r = map_option (\<lambda>k. k - int (count_list ds r)) (map_of ?ind r)" "distinct new"
      "set new = {r. r \<in> set ds \<and> map_of ?ind r = Some (int (count_list ds r))}" by blast
  have last: "n = 1 \<Longrightarrow> d \<notin> set ds" using n(2) count_list_0_iff [of ds d] by auto
  show ?case
  proof (intro exI conjI)
    show "release (d # ds) ind q = Inr (ind', q @ ((if n - 1 = 0 then [d] else []) @ new))" using IH(1) n(1) by simp
    show "\<forall>r. map_of ind' r = map_option (\<lambda>k. k - int (count_list (d # ds) r)) (map_of ind r)" using IH(2) n(1) by auto
    show "distinct ((if n - 1 = 0 then [d] else []) @ new)" using IH(3,4) last by auto
    show "set ((if n - 1 = 0 then [d] else []) @ new) = {r. r \<in> set (d # ds) \<and> map_of ind r = Some (int (count_list (d # ds) r))}"
    proof (rule set_eqI)
      fix r
      have none: "count_list ds d = 0 \<longleftrightarrow> d \<notin> set ds" by (rule count_list_0_iff)
      show "r \<in> set ((if n - 1 = 0 then [d] else []) @ new) \<longleftrightarrow>
          r \<in> {r. r \<in> set (d # ds) \<and> map_of ind r = Some (int (count_list (d # ds) r))}"
      proof (cases "r = d")
        case True
        have "d \<in> set new \<longleftrightarrow> d \<in> set ds \<and> n = int (count_list ds d) + 1" using IH(4) by auto
        moreover have "n = 1 \<longleftrightarrow> n = int (count_list ds d) + 1 \<and> d \<notin> set ds" using n(2) none by auto
        ultimately show ?thesis using True n(1) by auto
      next
        case False
        thus ?thesis using IH(4) by auto
      qed
    qed
  qed
qed (simp add: option.map_ident)

text \<open>The invariant of the outer loop.\<close>

definition kahn_inv :: "string list \<Rightarrow> graph \<Rightarrow> string list \<Rightarrow> (string \<times> int) list \<Rightarrow> string list \<Rightarrow> bool" where
  "kahn_inv pl g q ind order \<longleftrightarrow> distinct (order @ q) \<and> set (order @ q) \<subseteq> set pl \<and> dep_ordered g order \<and>
     (\<forall>r. map_of ind r = (if r \<in> set pl then Some (int (missing g (set order) r)) else None)) \<and>
     (\<forall>r \<in> set pl. r \<in> set (order @ q) \<longleftrightarrow> missing g (set order) r = 0)"

lemma kahn_step:
  assumes "graph_ok pl g" "kahn_inv pl g (r # q) ind order"
  shows "\<exists>ind' new. release (dependents g r) ind q = Inr (ind', q @ new) \<and> kahn_inv pl g (q @ new) ind' (order @ [r])"
proof -
  have r: "r \<notin> set order" "r \<in> set pl" "distinct (order @ r # q)" using assms(2) by (auto simp: kahn_inv_def)
  have ok: "dict_ok g" using assms(1) by (simp add: graph_ok_def)
  have count: "count_list (dependents g r) x = count_list (deps_of g x) r" for x by (rule count_dependents [OF ok])
  have mem: "x \<in> set (dependents g r) \<longleftrightarrow> r \<in> set (deps_of g x)" for x
    using count [of x] count_list_0_iff by metis
  have miss: "missing g (set order) x = missing g (set (order @ [r])) x + count_list (deps_of g x) r" for x
    using missing_insert [OF r(1), of g x] by simp
  have "\<exists>n. map_of ind x = Some n \<and> int (count_list (dependents g r) x) \<le> n" if "x \<in> set (dependents g r)" for x
  proof -
    have "x \<in> set pl" using deps_of_mem [OF assms(1)] mem that by blast
    thus ?thesis using assms(2) miss [of x] count [of x] by (simp add: kahn_inv_def)
  qed
  from release_counts [OF this, of q] obtain ind' new where rel: "release (dependents g r) ind q = Inr (ind', q @ new)"
      "\<forall>x. map_of ind' x = map_option (\<lambda>n. n - int (count_list (dependents g r) x)) (map_of ind x)" "distinct new"
      "set new = {x. x \<in> set (dependents g r) \<and> map_of ind x = Some (int (count_list (dependents g r) x))}" by blast
  have new: "x \<in> set new \<longleftrightarrow> x \<in> set pl \<and> r \<in> set (deps_of g x) \<and> missing g (set (order @ [r])) x = 0" for x
    using rel(4) assms(2) miss [of x] count [of x] mem [of x] deps_of_mem [OF assms(1)] by (auto simp: kahn_inv_def)
  have "kahn_inv pl g (q @ new) ind' (order @ [r])"
    unfolding kahn_inv_def
  proof (intro conjI)
    have disj: "x \<notin> set (order @ r # q)" if "x \<in> set new" for x
    proof
      assume "x \<in> set (order @ r # q)"
      hence "missing g (set order) x = 0" using new that assms(2) by (auto simp: kahn_inv_def)
      thus False using miss [of x] new that count_list_0_iff [of "deps_of g x" r] by auto
    qed
    show "distinct ((order @ [r]) @ q @ new)" using r rel(3) disj by auto
    show "set ((order @ [r]) @ q @ new) \<subseteq> set pl" using assms(2) new by (auto simp: kahn_inv_def)
    have "missing g (set order) r = 0" using assms(2) r(2) by (auto simp: kahn_inv_def)
    hence "set (deps_of g r) \<subseteq> set order" by (simp add: missing_0)
    thus "dep_ordered g (order @ [r])" using assms(2) by (auto simp: kahn_inv_def dep_ordered_def nth_append less_Suc_eq)
    show "\<forall>x. map_of ind' x = (if x \<in> set pl then Some (int (missing g (set (order @ [r])) x)) else None)"
      using rel(2) assms(2) miss count by (simp add: kahn_inv_def)
    show "\<forall>x \<in> set pl. x \<in> set ((order @ [r]) @ q @ new) \<longleftrightarrow> missing g (set (order @ [r])) x = 0"
    proof
      fix x assume x: "x \<in> set pl"
      have old: "x \<in> set (order @ r # q) \<longleftrightarrow> missing g (set order) x = 0" using assms(2) x by (simp add: kahn_inv_def)
      show "x \<in> set ((order @ [r]) @ q @ new) \<longleftrightarrow> missing g (set (order @ [r])) x = 0"
      proof (cases "r \<in> set (deps_of g x)")
        case True
        hence "missing g (set order) x \<noteq> 0" using miss [of x] count_list_0_iff [of "deps_of g x" r] by auto
        thus ?thesis using old new [of x] x True by auto
      next
        case False
        hence "count_list (deps_of g x) r = 0" by (simp add: count_list_0_iff)
        thus ?thesis using old new [of x] x False miss [of x] by auto
      qed
    qed
  qed
  thus ?thesis using rel(1) by blast
qed

lemma kahn_result:
  "graph_ok pl g \<Longrightarrow> kahn_inv pl g q ind order \<Longrightarrow>
     \<exists>res ind'. kahn g q ind order = Inr res \<and> kahn_inv pl g [] ind' res"
proof (induction g q ind order rule: kahn.induct)
  case (2 g r q ind order)
  obtain ind' new where step: "release (dependents g r) ind q = Inr (ind', q @ new)" "kahn_inv pl g (q @ new) ind' (order @ [r])"
    using kahn_step [OF 2(2,3)] by blast
  from 2(1) [OF step(1) refl 2(2) step(2)] show ?case using step(1) by simp
qed auto

lemma kahn_start:
  assumes "graph_ok pl g"
  shows "kahn_inv pl g (filter (\<lambda>r. map_of (in_degrees pl g) r = Some 0) pl) (in_degrees pl g) []"
proof -
  have deg: "map_of (in_degrees pl g) r = (if r \<in> set pl then Some (int (missing g {} r)) else None)" for r
    by (simp add: in_degrees_def map_of_map_restrict missing_def restrict_map_def)
  show ?thesis using assms by (auto simp: kahn_inv_def deg graph_ok_def dep_ordered_def)
qed

lemma dep_ordered_acyclic:
  assumes "dep_ordered g order" "distinct order" "set order = set pl"
  shows "acyclic (edges pl g)"
proof -
  define pos where "pos r = length (takeWhile (\<lambda>x. x \<noteq> r) order)" for r
  have nth: "pos r < length order \<and> order ! pos r = r" if "r \<in> set order" for r
  proof -
    have "length (takeWhile (\<lambda>x. x \<noteq> r) order) < length order"
      using that by (induction order) auto
    thus ?thesis using nth_length_takeWhile [of "\<lambda>x. x \<noteq> r" order] by (simp add: pos_def)
  qed
  have "pos d < pos r" if "(d, r) \<in> edges pl g" for d r
  proof -
    have r: "r \<in> set order" "d \<in> set (deps_of g r)" using that assms(3) by (auto simp: edges_def)
    moreover have "set (deps_of g (order ! pos r)) \<subseteq> set (take (pos r) order)"
      using assms(1) [unfolded dep_ordered_def, rule_format, of "pos r"] nth [OF r(1)] by simp
    ultimately have "d \<in> set (take (pos r) order)" using nth [OF r(1)] by auto
    then obtain i where i: "i < pos r" "i < length order" "order ! i = d" by (auto simp: in_set_conv_nth)
    hence "d \<in> set order" by auto
    hence "pos d = i" using nth_eq_iff_index_eq [OF assms(2), of "pos d" i] nth [of d] i(2,3) by simp
    thus ?thesis using i by simp
  qed
  hence "edges pl g \<subseteq> measure pos" by auto
  thus ?thesis using acyclic_subset wf_acyclic wf_measure by blast
qed

lemma acyclic_orders_all:
  assumes "graph_ok pl g" "acyclic (edges pl g)" "kahn_inv pl g [] ind order"
  shows "set order = set pl"
proof (rule ccontr)
  assume "set order \<noteq> set pl"
  then obtain x where x: "x \<in> set pl - set order" using assms(3) by (auto simp: kahn_inv_def)
  have "finite (edges pl g)"
    by (rule finite_subset [of _ "set pl \<times> set pl"]) (use deps_of_mem [OF assms(1)] in \<open>auto simp: edges_def\<close>)
  hence "wf (edges pl g)" using assms(2) by (rule finite_acyclic_wf)
  then obtain r where r: "r \<in> set pl - set order" "\<And>d. (d, r) \<in> edges pl g \<Longrightarrow> d \<notin> set pl - set order"
    using x by (rule wfE_min) blast
  have "missing g (set order) r \<noteq> 0" using r(1) assms(3) by (auto simp: kahn_inv_def)
  then obtain d where "d \<in> set (deps_of g r)" "d \<notin> set order" by (auto simp: missing_0)
  thus False using r(2) [of d] r(1) deps_of_mem [OF assms(1), of d r] by (auto simp: edges_def)
qed

lemma sort_result:
  assumes "graph_ok pl g"
  obtains (sorted) order where "topological_sort pl g = Inr order" "acyclic (edges pl g)" "distinct order" "set order = set pl" "dep_ordered g order"
  | (cycle) "topological_sort pl g = Inl Cycle_Error" "\<not> acyclic (edges pl g)"
proof -
  obtain res ind' where res: "kahn g (filter (\<lambda>r. map_of (in_degrees pl g) r = Some 0) pl) (in_degrees pl g) [] = Inr res" "kahn_inv pl g [] ind' res"
    using kahn_result [OF assms kahn_start [OF assms]] by blast
  have d: "distinct res" "set res \<subseteq> set pl" "dep_ordered g res" "distinct pl"
    using res(2) assms by (auto simp: kahn_inv_def graph_ok_def)
  have len: "length res = length pl \<longleftrightarrow> set res = set pl"
    using d by (metis card_subset_eq distinct_card List.finite_set)
  show ?thesis
  proof (cases "length res = length pl")
    case True
    thus ?thesis using res(1) d len dep_ordered_acyclic [OF d(3,1)] by (intro sorted [of res]) (simp_all add: topological_sort_def)
  next
    case False
    thus ?thesis using res(1) len acyclic_orders_all [OF assms _ res(2)] by (intro cycle) (auto simp: topological_sort_def)
  qed
qed


text \<open>With the default dependencies no proper part of the default pipeline can run: what it leaves out is reported as a
  cycle or raises a \<open>KeyError\<close>.\<close>

theorem part_of_default_fails:
  "topological_sort [''product_manager''] default_deps = Inl (Key_Error ''architect'')"
  "topological_sort [''product_manager'', ''architect'', ''engineer''] default_deps = Inl (Key_Error ''qa'')"
  "topological_sort [''engineer'', ''qa''] default_deps = Inl Cycle_Error"
  by (simp_all add: topological_sort_def default_deps_def in_degrees_def deps_of_def dependents_def)

section \<open>The run of the roles\<close>

text \<open>The bus keeps the inbox of every subscribed role; a message is its sender and its content.\<close>

type_synonym bus = "(string \<times> (string \<times> string) list) list"

definition subscribe :: "string \<Rightarrow> bus \<Rightarrow> bus" where
  "subscribe r b = AList.update r [] b"

definition publish :: "string \<Rightarrow> string \<Rightarrow> string \<Rightarrow> bus \<Rightarrow> bus" where
  "publish from_role to_role content b =
     (if to_role = ''*'' then map (\<lambda>(r, q). (r, if r \<noteq> from_role then q @ [(from_role, content)] else q)) b
      else case map_of b to_role of None \<Rightarrow> b | Some q \<Rightarrow> AList.update to_role (q @ [(from_role, content)]) b)"

definition drain :: "string \<Rightarrow> bus \<Rightarrow> (string \<times> string) list \<times> bus" where
  "drain r b = (case map_of b r of None \<Rightarrow> ([], b) | Some q \<Rightarrow> (q, AList.update r [] b))"

definition upper_char :: "char \<Rightarrow> char" where
  "upper_char c = (let n = of_char c :: nat in if 97 \<le> n \<and> n \<le> 122 then char_of (n - 32) else c)"

definition upper :: "string \<Rightarrow> string" where
  "upper = map upper_char"

definition role_title :: "string \<Rightarrow> string" where
  "role_title r = map (\<lambda>c. if c = CHR ''_'' then CHR '' '' else c) (upper r)"

definition build_role_input :: "string \<Rightarrow> graph \<Rightarrow> string \<Rightarrow> (string \<times> string) list \<Rightarrow> string" where
  "build_role_input goal g r results =
     (if deps_of g r = [] then goal
      else join (newline @ newline) ((''ORIGINAL GOAL:'' @ newline @ goal) #
        concat (map (\<lambda>up. case map_of results up of
            None \<Rightarrow> []
          | Some out \<Rightarrow> [newline @ role_title up @ '' OUTPUT:'' @ newline @ take 3000 out]) (deps_of g r))))"

text \<open>\<open>sg_started\<close> and \<open>sg_done\<close>: the tasks past their waiting, and those whose event is set; \<open>sg_raised\<close>: the exception
  that \<open>gather\<close> passes on.\<close>

datatype run_error = Sort_Error sort_error | Unknown_Role string | Attribute_Error

record stages =
  sg_started :: "string list"
  sg_done :: "string list"
  sg_inputs :: "(string \<times> string) list"
  sg_results :: "(string \<times> string) list"
  sg_stages :: "(string \<times> string \<times> string) list"
  sg_bus :: bus
  sg_raised :: "run_error option"

definition start_stages :: stages where
  "start_stages = \<lparr>sg_started = [], sg_done = [], sg_inputs = [], sg_results = [], sg_stages = [], sg_bus = [], sg_raised = None\<rparr>"

definition first_error :: "run_error \<Rightarrow> stages \<Rightarrow> stages" where
  "first_error e s = s\<lparr>sg_raised := (case sg_raised s of None \<Rightarrow> Some e | Some e' \<Rightarrow> Some e')\<rparr>"

definition may_start :: "string list \<Rightarrow> graph \<Rightarrow> string \<Rightarrow> stages \<Rightarrow> bool" where
  "may_start pl g r s \<longleftrightarrow> r \<in> set pl \<and> r \<notin> set (sg_started s) \<and>
     (\<forall>d \<in> set (deps_of g r). d \<in> set pl \<longrightarrow> d \<in> set (sg_done s))"

definition running :: "(string \<Rightarrow> bool) \<Rightarrow> string \<Rightarrow> stages \<Rightarrow> bool" where
  "running known r s \<longleftrightarrow> r \<in> set (sg_started s) \<and> r \<notin> set (sg_done s) \<and> known r"

text \<open>The tasks of one run.  A role that cannot be built raises before its event can ever be set.  A role that fails
  is recorded, but then the attribute \<open>_on_stage_error\<close> is read, which the constructor never sets, so that
  \<open>AttributeError\<close> leaves the task instead; its event is set on the way.\<close>

inductive stage_step :: "string list \<Rightarrow> graph \<Rightarrow> (string \<Rightarrow> bool) \<Rightarrow> string \<Rightarrow> stages \<Rightarrow> stages \<Rightarrow> bool" for pl g known goal where
  start: "may_start pl g r s \<Longrightarrow> known r \<Longrightarrow>
     stage_step pl g known goal s (s\<lparr>sg_started := sg_started s @ [r], sg_bus := subscribe r (sg_bus s),
       sg_inputs := sg_inputs s @ [(r, build_role_input goal g r (sg_results s))]\<rparr>)"
| unknown: "may_start pl g r s \<Longrightarrow> \<not> known r \<Longrightarrow>
     stage_step pl g known goal s (first_error (Unknown_Role r) (s\<lparr>sg_started := sg_started s @ [r]\<rparr>))"
| sends: "running known r s \<Longrightarrow>
     stage_step pl g known goal s (s\<lparr>sg_bus := publish r to_role content (sg_bus s)\<rparr>)"
| reads: "running known r s \<Longrightarrow>
     stage_step pl g known goal s (s\<lparr>sg_bus := snd (drain r (sg_bus s))\<rparr>)"
| finishes: "running known r s \<Longrightarrow>
     stage_step pl g known goal s (s\<lparr>sg_done := sg_done s @ [r], sg_results := AList.update r out (sg_results s),
       sg_stages := sg_stages s @ [(r, ''completed'', out)]\<rparr>)"
| fails: "running known r s \<Longrightarrow>
     stage_step pl g known goal s (first_error Attribute_Error (s\<lparr>sg_done := sg_done s @ [r],
       sg_results := AList.update r (''ERROR: '' @ e) (sg_results s), sg_stages := sg_stages s @ [(r, ''error'', ''ERROR: '' @ e)]\<rparr>))"

abbreviation stage_reachable :: "string list \<Rightarrow> graph \<Rightarrow> (string \<Rightarrow> bool) \<Rightarrow> string \<Rightarrow> stages \<Rightarrow> bool" where
  "stage_reachable pl g known goal \<equiv> (stage_step pl g known goal)\<^sup>*\<^sup>* start_stages"

section \<open>The verdict\<close>

text \<open>\<open>re.search\<close> of a word between word boundaries.\<close>

fun word_from :: "bool \<Rightarrow> string \<Rightarrow> string \<Rightarrow> bool" where
  "word_from before w [] = False"
| "word_from before w (c # cs) =
     ((\<not> before \<and> (case after_prefix w (c # cs) of Some r \<Rightarrow> r = [] \<or> \<not> is_word_char (hd r) | None \<Rightarrow> False))
      \<or> word_from (is_word_char c) w cs)"

definition derive_verdict :: "(string \<times> string) list \<Rightarrow> bool \<Rightarrow> string" where
  "derive_verdict results timed_out =
     (let qa = upper (case map_of results ''qa'' of Some x \<Rightarrow> x | None \<Rightarrow> [])
      in if timed_out then ''timeout''
         else if word_from False ''APPROVED'' qa then ''approved''
         else if word_from False ''REWORK'' qa then ''rework''
         else if list_ex (\<lambda>(r, out). after_prefix ''ERROR:'' out \<noteq> None) results then ''error''
         else ''unknown'')"

text \<open>What \<open>run_pipeline\<close> gives when its tasks stop in \<open>s\<close>: an exception, the time-out, or the result.\<close>

record pipeline_result =
  pr_stages :: "(string \<times> string \<times> string) list"
  pr_timed_out :: bool
  pr_verdict :: string

definition pipeline_outcome :: "string list \<Rightarrow> graph \<Rightarrow> bool \<Rightarrow> stages \<Rightarrow> run_error + pipeline_result" where
  "pipeline_outcome pl g timed_out s =
     (case topological_sort pl g of
        Inl e \<Rightarrow> Inl (Sort_Error e)
      | Inr order \<Rightarrow>
          (case sg_raised s of
             Some e \<Rightarrow> Inl e
           | None \<Rightarrow> Inr \<lparr>pr_stages = sg_stages s, pr_timed_out = timed_out, pr_verdict = derive_verdict (sg_results s) timed_out\<rparr>))"

section \<open>What holds of every run\<close>

definition stages_inv :: "string list \<Rightarrow> graph \<Rightarrow> (string \<Rightarrow> bool) \<Rightarrow> string \<Rightarrow> stages \<Rightarrow> bool" where
  "stages_inv pl g known goal s \<longleftrightarrow>
     distinct (sg_started s) \<and> set (sg_started s) \<subseteq> set pl \<and> set (sg_done s) \<subseteq> {r \<in> set (sg_started s). known r} \<and>
     (\<forall>r. map_of (sg_results s) r \<noteq> None \<longleftrightarrow> r \<in> set (sg_done s)) \<and>
     (\<forall>r \<in> set (sg_started s). \<forall>d \<in> set (deps_of g r). d \<in> set pl \<longrightarrow> d \<in> set (sg_done s)) \<and>
     (\<forall>(r, i) \<in> set (sg_inputs s). r \<in> set (sg_started s) \<and> i = build_role_input goal g r (sg_results s)) \<and>
     (\<forall>(r, q) \<in> set (sg_bus s). r \<in> set (sg_started s) \<and> (\<forall>(f, c) \<in> set q. f \<in> set pl \<and> f \<notin> set (deps_of g r))) \<and>
     (sg_raised s = None \<longrightarrow> (\<forall>(r, st, out) \<in> set (sg_stages s). st = ''completed'')) \<and>
     fst ` set (sg_stages s) \<subseteq> set (sg_done s)"

lemma build_input_cong:
  "(\<And>d. d \<in> set (deps_of g r) \<Longrightarrow> map_of res d = map_of res' d) \<Longrightarrow> build_role_input goal g r res = build_role_input goal g r res'"
proof -
  assume "\<And>d. d \<in> set (deps_of g r) \<Longrightarrow> map_of res d = map_of res' d"
  hence "map (\<lambda>up. case map_of res up of None \<Rightarrow> [] | Some out \<Rightarrow> [newline @ role_title up @ '' OUTPUT:'' @ newline @ take 3000 out]) (deps_of g r) =
      map (\<lambda>up. case map_of res' up of None \<Rightarrow> [] | Some out \<Rightarrow> [newline @ role_title up @ '' OUTPUT:'' @ newline @ take 3000 out]) (deps_of g r)"
    by (intro map_cong) simp_all
  thus ?thesis by (simp only: build_role_input_def)
qed

text \<open>The result of a role is written while it runs, when nothing that depends on it has been built.\<close>

lemma end_role_inv:
  assumes inv: "stages_inv pl g known goal s" and r: "running known r s"
    and raised: "err = None \<longrightarrow> st = ''completed'' \<and> sg_raised s = None"
  shows "stages_inv pl g known goal (s\<lparr>sg_done := sg_done s @ [r], sg_results := AList.update r out (sg_results s),
       sg_stages := sg_stages s @ [(r, st, out)], sg_raised := err\<rparr>)"
proof -
  have waits: "\<forall>x \<in> set (sg_started s). \<forall>d \<in> set (deps_of g x). d \<in> set pl \<longrightarrow> d \<in> set (sg_done s)"
    and sub: "set (sg_started s) \<subseteq> set pl" using inv unfolding stages_inv_def by simp_all
  have not_dep: "r \<notin> set (deps_of g x)" if "x \<in> set (sg_started s)" for x
  proof
    assume "r \<in> set (deps_of g x)"
    moreover have "r \<in> set pl" using r sub by (auto simp: running_def)
    ultimately have "r \<in> set (sg_done s)" using waits that by simp
    thus False using r by (simp add: running_def)
  qed
  have "build_role_input goal g x (AList.update r out (sg_results s)) = build_role_input goal g x (sg_results s)"
    if "x \<in> set (sg_started s)" for x
    by (rule build_input_cong) (use not_dep [OF that] in auto)
  moreover have old: "\<forall>(x, i) \<in> set (sg_inputs s). x \<in> set (sg_started s) \<and> i = build_role_input goal g x (sg_results s)"
    using inv unfolding stages_inv_def by simp
  ultimately have inputs: "\<forall>(x, i) \<in> set (sg_inputs s). x \<in> set (sg_started s) \<and> i = build_role_input goal g x (AList.update r out (sg_results s))"
    using old by fastforce
  have "err = None \<longrightarrow> (\<forall>(x, st, out) \<in> set (sg_stages s). st = ''completed'')" using inv raised unfolding stages_inv_def by blast
  note new_stages = this
  note c = inv [unfolded stages_inv_def, THEN conjunct1] inv [unfolded stages_inv_def, THEN conjunct2]
  have rs: "r \<in> set (sg_started s)" "known r" using r by (simp_all add: running_def)
  show ?thesis
    unfolding stages_inv_def
  proof (intro conjI, goal_cases)
    case 1 thus ?case using c by simp
  next
    case 2 thus ?case using c by simp
  next
    case 3 thus ?case using c rs by simp
  next
    case 4 thus ?case using c by simp
  next
    case 5 thus ?case using c by simp
  next
    case 6 thus ?case using inputs by simp
  next
    case 7 thus ?case using c by simp
  next
    case 8 thus ?case using new_stages raised by auto
  next
    case 9 thus ?case using c by auto
  qed
qed

lemma map_of_key: "map_of b k = Some q \<Longrightarrow> k \<in> fst ` set b"
  by (force dest: map_of_SomeD)

lemma publish_mem:
  assumes "(x, q) \<in> set (publish f to_role c b)" "m \<in> set q"
  shows "m = (f, c) \<and> x \<in> fst ` set b \<and> (to_role = ''*'' \<longrightarrow> x \<noteq> f) \<or> (\<exists>q'. (x, q') \<in> set b \<and> m \<in> set q')"
proof (cases "to_role = ''*''")
  case True
  then obtain q' where q': "(x, q') \<in> set b" "q = (if x \<noteq> f then q' @ [(f, c)] else q')" using assms(1) by (auto simp: publish_def)
  have "x \<in> fst ` set b" using q'(1) by force
  thus ?thesis using assms(2) True q' by (cases "x = f"; simp; blast)
next
  case False
  show ?thesis
  proof (cases "map_of b to_role")
    case None
    thus ?thesis using assms False by (auto simp: publish_def)
  next
    case (Some q0)
    hence "(x, q) \<in> insert (to_role, q0 @ [(f, c)]) (set b)"
      using assms(1) False set_update_subset [of to_role "q0 @ [(f, c)]" b] by (auto simp: publish_def)
    thus ?thesis using assms(2) map_of_key [OF Some] map_of_SomeD [OF Some] False by auto
  qed
qed

lemma publish_keys: "fst ` set (publish f to_role c b) = fst ` set b"
proof (cases "to_role = ''*''")
  case True
  thus ?thesis by (force simp: publish_def)
next
  case False
  thus ?thesis by (cases "map_of b to_role") (simp_all add: publish_def keys_update insert_absorb map_of_key)
qed

lemma drain_mem:
  "(x, q) \<in> set (snd (drain r b)) \<Longrightarrow> m \<in> set q \<Longrightarrow> \<exists>q'. (x, q') \<in> set b \<and> m \<in> set q'"
  using set_update_subset [of r "[]" b] by (cases "map_of b r") (auto simp: drain_def)

lemma drain_keys: "fst ` set (snd (drain r b)) = fst ` set b"
  by (cases "map_of b r") (simp_all add: drain_def keys_update insert_absorb map_of_key)

lemma stages_inv_start: "stages_inv pl g known goal start_stages"
  by (simp add: stages_inv_def start_stages_def)

lemma bus_inv:
  assumes "stages_inv pl g known goal s" "fst ` set b \<subseteq> set (sg_started s)"
    "\<And>x q f c. (x, q) \<in> set b \<Longrightarrow> (f, c) \<in> set q \<Longrightarrow> f \<in> set pl \<and> f \<notin> set (deps_of g x)"
  shows "stages_inv pl g known goal (s\<lparr>sg_bus := b\<rparr>)"
  using assms unfolding stages_inv_def by (auto simp: image_subset_iff)

lemma old_bus:
  assumes "stages_inv pl g known goal s" "(x, q) \<in> set (sg_bus s)"
  shows "x \<in> set (sg_started s)" "(f, c) \<in> set q \<Longrightarrow> f \<in> set pl \<and> f \<notin> set (deps_of g x)"
  using assms unfolding stages_inv_def by fast+

lemma raise_inv: "stages_inv pl g known goal s \<Longrightarrow> stages_inv pl g known goal (first_error e s)"
  by (auto simp: stages_inv_def first_error_def split: option.split)

lemma stages_inv_step:
  assumes "stage_step pl g known goal s s'" "stages_inv pl g known goal s"
  shows "stages_inv pl g known goal s'"
  using assms
proof (induction rule: stage_step.induct)
  case (start r s)
  let ?s = "s\<lparr>sg_bus := subscribe r (sg_bus s), sg_started := sg_started s @ [r]\<rparr>"
  have r: "r \<in> set pl" "r \<notin> set (sg_started s)" "\<forall>d \<in> set (deps_of g r). d \<in> set pl \<longrightarrow> d \<in> set (sg_done s)"
    using start(1) by (simp_all add: may_start_def)
  have bus: "\<forall>(x, q) \<in> set (subscribe r (sg_bus s)). x \<in> insert r (set (sg_started s)) \<and> (\<forall>(f, c) \<in> set q. f \<in> set pl \<and> f \<notin> set (deps_of g x))"
  proof (clarify, goal_cases)
    case (1 x q)
    have "(x, q) = (r, []) \<or> (x, q) \<in> set (sg_bus s)"
      using 1 set_update_subset [of r "[]" "sg_bus s"] by (auto simp: subscribe_def)
    thus ?case using old_bus [OF start(3), of x q] by auto
  qed
  show ?case using start(3) r bus start(2) unfolding stages_inv_def by simp fast
next
  case (unknown r s)
  have "stages_inv pl g known goal (s\<lparr>sg_started := sg_started s @ [r]\<rparr>)"
    using unknown unfolding stages_inv_def may_start_def by auto
  thus ?case by (rule raise_inv)
next
  case (sends r s to_role content)
  show ?case
  proof (rule bus_inv [OF sends(2)])
    show "fst ` set (publish r to_role content (sg_bus s)) \<subseteq> set (sg_started s)"
      unfolding publish_keys using old_bus(1) [OF sends(2)] by force
    fix x q f c assume x: "(x, q) \<in> set (publish r to_role content (sg_bus s))" "(f, c) \<in> set q"
    consider "f = r" "x \<in> fst ` set (sg_bus s)" | q' where "(x, q') \<in> set (sg_bus s)" "(f, c) \<in> set q'"
      using publish_mem [OF x] by auto
    thus "f \<in> set pl \<and> f \<notin> set (deps_of g x)"
    proof cases
      case 1
      have st: "x \<in> set (sg_started s)" using 1(2) old_bus(1) [OF sends(2)] by force
      have "r \<in> set pl" using sends unfolding stages_inv_def running_def by auto
      moreover have "r \<notin> set (sg_done s)" using sends(1) by (simp add: running_def)
      moreover have "r \<in> set (deps_of g x) \<longrightarrow> r \<in> set pl \<longrightarrow> r \<in> set (sg_done s)" using sends(2) st unfolding stages_inv_def by simp
      ultimately show ?thesis using 1(1) by simp
    next
      case 2
      thus ?thesis using old_bus(2) [OF sends(2)] by blast
    qed
  qed
next
  case (reads r s)
  show ?case
  proof (rule bus_inv [OF reads(2)])
    show "fst ` set (snd (drain r (sg_bus s))) \<subseteq> set (sg_started s)"
      unfolding drain_keys using old_bus(1) [OF reads(2)] by force
    fix x q f c assume "(x, q) \<in> set (snd (drain r (sg_bus s)))" "(f, c) \<in> set q"
    from drain_mem [OF this] show "f \<in> set pl \<and> f \<notin> set (deps_of g x)" using old_bus(2) [OF reads(2)] by blast
  qed
next
  case (finishes r s out)
  have "stages_inv pl g known goal (s\<lparr>sg_done := sg_done s @ [r], sg_results := AList.update r out (sg_results s),
       sg_stages := sg_stages s @ [(r, ''completed'', out)], sg_raised := sg_raised s\<rparr>)"
  proof (cases "sg_raised s")
    case None
    thus ?thesis using end_role_inv [OF finishes(2,1), of "sg_raised s" "''completed''" out] by simp
  next
    case (Some e)
    thus ?thesis using end_role_inv [OF finishes(2,1), of "sg_raised s" "''completed''" out] by simp
  qed
  thus ?case by simp
next
  case (fails r s e)
  let ?err = "case sg_raised s of None \<Rightarrow> Some Attribute_Error | Some e' \<Rightarrow> Some e'"
  have "?err \<noteq> None" by (simp split: option.split)
  hence "stages_inv pl g known goal (s\<lparr>sg_done := sg_done s @ [r], sg_results := AList.update r (''ERROR: '' @ e) (sg_results s),
       sg_stages := sg_stages s @ [(r, ''error'', ''ERROR: '' @ e)], sg_raised := ?err\<rparr>)"
    by (intro end_role_inv [OF fails(2,1)]) simp
  thus ?case by (simp add: first_error_def)
qed

lemma stage_reachable_inv: "stage_reachable pl g known goal s \<Longrightarrow> stages_inv pl g known goal s"
  by (induction rule: rtranclp_induct) (simp_all add: stages_inv_start stages_inv_step)


text \<open>A message that a role sends to one that depends on it never arrives, since the recipient subscribes only when the
  sender has ended: all that is ever in an inbox comes from other roles.\<close>

theorem upstream_messages_lost:
  assumes "stage_reachable pl g known goal s" "(f, content) \<in> set (fst (drain r (sg_bus s)))"
  shows "f \<notin> set (deps_of g r)"
proof -
  obtain q where "map_of (sg_bus s) r = Some q" "(f, content) \<in> set q"
    using assms(2) by (cases "map_of (sg_bus s) r") (auto simp: drain_def)
  from old_bus(2) [OF stage_reachable_inv [OF assms(1)] map_of_SomeD [OF this(1)] this(2)] show ?thesis by simp
qed

text \<open>When the sort succeeds and all roles are known, a run is never stuck: as long as some role has not ended, one can
  start or is running.\<close>

theorem pipeline_progress:
  assumes "graph_ok pl g" "topological_sort pl g = Inr order" "stage_reachable pl g known goal s"
    and "\<forall>r \<in> set pl. known r" "\<not> set pl \<subseteq> set (sg_done s)"
  shows "\<exists>r. may_start pl g r s \<or> running known r s"
proof -
  have "set order = set pl \<and> dep_ordered g order"
    using assms(1)
  proof (cases rule: sort_result)
    case (sorted order')
    thus ?thesis using assms(2) by simp
  qed (use assms(2) in simp)
  hence ord: "set order = set pl" "dep_ordered g order" by simp_all
  define k where "k = (LEAST i. i < length order \<and> order ! i \<notin> set (sg_done s))"
  have ex: "\<exists>i. i < length order \<and> order ! i \<notin> set (sg_done s)"
  proof -
    obtain x where x: "x \<in> set order" "x \<notin> set (sg_done s)" using assms(5) ord(1) by auto
    then obtain i where "i < length order" "order ! i = x" by (auto simp: in_set_conv_nth)
    thus ?thesis using x(2) by auto
  qed
  from LeastI_ex [OF ex] have k: "k < length order" "order ! k \<notin> set (sg_done s)" by (simp_all add: k_def)
  have "set (take k order) \<subseteq> set (sg_done s)"
  proof
    fix x assume "x \<in> set (take k order)"
    then obtain i where "i < k" "i < length order" "order ! i = x" by (auto simp: in_set_conv_nth)
    moreover from this(1) have "\<not> (i < length order \<and> order ! i \<notin> set (sg_done s))" unfolding k_def by (rule not_less_Least)
    ultimately show "x \<in> set (sg_done s)" by simp
  qed
  moreover have "set (deps_of g (order ! k)) \<subseteq> set (take k order)" using ord(2) k(1) by (simp add: dep_ordered_def)
  ultimately have "set (deps_of g (order ! k)) \<subseteq> set (sg_done s)" by (rule order.trans [rotated])
  moreover have "order ! k \<in> set pl" using nth_mem [OF k(1)] unfolding ord(1) .
  ultimately have "may_start pl g (order ! k) s \<or> running known (order ! k) s"
    using k(2) assms(4) by (auto simp: may_start_def running_def)
  thus ?thesis by blast
qed

lemma raised_stays: "(stage_step pl g known goal)\<^sup>*\<^sup>* s s' \<Longrightarrow> sg_raised s = Some e \<Longrightarrow> sg_raised s' = Some e"
proof (induction rule: rtranclp_induct)
  case (step s' s'')
  have "stage_step pl g known goal s' s'' \<Longrightarrow> sg_raised s' = Some e \<Longrightarrow> sg_raised s'' = Some e"
    by (induction rule: stage_step.induct) (simp_all add: first_error_def)
  thus ?case using step by simp
qed simp


lemma word_at_end: "w \<noteq> [] \<Longrightarrow> \<not> is_word_char c \<Longrightarrow> word_from b w (p @ c # w)"
proof (induction p arbitrary: b)
  case Nil
  obtain x xs where "w = x # xs" using Nil(1) by (cases w) auto
  thus ?case using Nil(2) after_prefix_append [of w "[]"] by simp
qed simp

text \<open>The word alone decides: a QA report that ends with \<open>not approved\<close> is approved, whatever its verdict line says.\<close>

theorem not_approved_is_approved:
  "derive_verdict [(''qa'', report @ '' not approved'')] False = ''approved''"
proof -
  have "upper (report @ '' not approved'') = (upper report @ '' NOT'') @ CHR '' '' # ''APPROVED''"
  proof -
    have "map upper_char '' not approved'' = '' NOT'' @ CHR '' '' # ''APPROVED''" by code_simp
    thus ?thesis by (simp only: upper_def map_append append_assoc)
  qed
  moreover have "word_from False ''APPROVED'' ((upper report @ '' NOT'') @ CHR '' '' # ''APPROVED'')"
    by (rule word_at_end) (simp_all add: is_word_char_def is_letter_def is_digit_def)
  ultimately show ?thesis by (simp only: derive_verdict_def map_of.simps fun_upd_same option.case fst_conv snd_conv Let_def if_True if_False)
qed

section \<open>Concrete inputs\<close>

lemma default_graph_ok: "graph_ok default_pipeline default_deps"
  by (simp add: graph_ok_def dict_ok_def default_pipeline_def default_deps_def)

lemma default_sorted: "topological_sort default_pipeline default_deps = Inr default_pipeline"
  by (simp add: topological_sort_def default_pipeline_def default_deps_def in_degrees_def deps_of_def dependents_def)

definition first_started :: stages where
  "first_started = start_stages\<lparr>sg_started := [''product_manager''], sg_bus := [(''product_manager'', [])],
     sg_inputs := [(''product_manager'', ''goal'')]\<rparr>"

lemma first_started_reachable: "stage_reachable default_pipeline default_deps (\<lambda>_. True) ''goal'' first_started"
proof -
  have "may_start default_pipeline default_deps ''product_manager'' start_stages"
    by (simp add: may_start_def start_stages_def default_pipeline_def deps_of_def default_deps_def)
  from stage_step.start [where known = "\<lambda>_. True" and goal = "''goal''", OF this TrueI]
  have "stage_step default_pipeline default_deps (\<lambda>_. True) ''goal'' start_stages first_started"
    by (simp add: first_started_def start_stages_def subscribe_def build_role_input_def deps_of_def default_deps_def)
  thus ?thesis by (rule r_into_rtranclp)
qed

definition self_note :: stages where
  "self_note = first_started\<lparr>sg_bus := [(''product_manager'', [(''product_manager'', ''note'')])]\<rparr>"

lemma self_note_reachable: "stage_reachable default_pipeline default_deps (\<lambda>_. True) ''goal'' self_note"
proof -
  have "running (\<lambda>_. True) ''product_manager'' first_started" by (simp add: running_def first_started_def start_stages_def)
  from stage_step.sends [where pl = default_pipeline and g = default_deps and goal = "''goal''" and to_role = "''product_manager''"
      and content = "''note''", OF this]
  have "stage_step default_pipeline default_deps (\<lambda>_. True) ''goal'' first_started self_note"
    by (simp add: self_note_def first_started_def publish_def)
  thus ?thesis using first_started_reachable by (rule rtranclp.rtrancl_into_rtrancl [rotated])
qed



theorem upstream_messages_lost_witness:
  "''product_manager'' \<notin> set (deps_of default_deps ''product_manager'')"
  by (rule upstream_messages_lost [OF self_note_reachable, of _ "''note''"]) (simp add: self_note_def drain_def)

theorem pipeline_progress_witness:
  "\<exists>r. may_start default_pipeline default_deps r first_started \<or> running (\<lambda>_. True) r first_started"
  using pipeline_progress [OF default_graph_ok default_sorted first_started_reachable]
  by (simp add: first_started_def start_stages_def default_pipeline_def)


end
