(* ===== verification/Secrets_Store.thy ===== *)
theory Secrets_Store
  imports Py_Text "HOL-Library.List_Lexorder" "HOL-Library.Char_ord"
begin

text \<open>
  Stored secrets: the file store (\<open>secrets/store.py\<close>) with its models (\<open>secrets/models.py\<close>), and the registry in front
  of it (\<open>secrets/registry.py\<close>).  The directory is a dict from file names to what can be read back: an entry, or
  a corrupt file (no JSON).  Pydantic's dump and validation are each other's inverse on entries; the Fernet cipher, the
  environment and the lookup of a URL are parameters; permissions and failing disks are left out.  The locale
  \<open>secret_backend\<close> is the contract of the abstract class \<open>SecretsStore\<close> as the registry uses it; the file
  store is its instance.
\<close>

section \<open>Models\<close>

datatype source = STATIC | LOOKUP | ENV

record entry =
  se_name :: string
  se_source :: source
  se_encrypted :: string
  se_description :: string
  se_tags :: "string list"
  se_created :: time
  se_updated :: time
  se_lookup_url :: "string option"
  se_env_var :: "string option"

definition masked :: "string \<Rightarrow> string" where
  "masked v = (if length v \<le> 3 then ''***'' else [hd v] @ replicate (length v - 2) (CHR ''*'') @ [last v])"

datatype store_error = Bad_Name | Not_Found | Exists | Encryption | Failed string | Validation

definition allowed_char :: "char \<Rightarrow> bool" where
  "allowed_char c \<longleftrightarrow> is_letter c \<or> is_digit c \<or> c \<in> set ''_-. /''"

text \<open>The validator of an entry's name also strips it.\<close>

definition valid_entry_name :: "string \<Rightarrow> string option" where
  "valid_entry_name n =
     (let v = strip n in if v = [] \<or> length v > 256 \<or> \<not> list_all allowed_char v then None else Some v)"

text \<open>What a response shows: everything but the cipher text, and whether there is one.\<close>

definition to_api_dict :: "entry \<Rightarrow> entry \<times> bool" where
  "to_api_dict e = (e\<lparr>se_encrypted := []\<rparr>, se_encrypted e \<noteq> [])"

section \<open>The file store\<close>

definition slash :: char where "slash = CHR ''/''"

definition validate_name :: "string \<Rightarrow> bool" where
  "validate_name n \<longleftrightarrow> strip n \<noteq> [] \<and> length n \<le> 256 \<and> \<not> sublist ''..'' n \<and> take 1 n \<noteq> [slash]"

fun replace_dots :: "string \<Rightarrow> string" where
  "replace_dots (a # b # cs) = (if a = CHR ''.'' \<and> b = CHR ''.'' then CHR ''_'' # replace_dots cs else a # replace_dots (b # cs))"
| "replace_dots cs = cs"

definition replace_char :: "char \<Rightarrow> char \<Rightarrow> string \<Rightarrow> string" where
  "replace_char a b = map (\<lambda>c. if c = a then b else c)"

definition secret_file :: "string \<Rightarrow> string" where
  "secret_file n = replace_dots (replace_char (CHR 0x5C) (CHR ''_'') (replace_char slash (CHR ''_'') n)) @ ''.json''"

datatype content = Entry entry | Corrupt

type_synonym files = "(string \<times> content) list"

record outside =
  o_enc :: "string \<Rightarrow> string option"
  o_dec :: "string \<Rightarrow> string option"
  o_env :: "string \<Rightarrow> string option"
  o_url :: "string \<Rightarrow> string option"

definition get_entry :: "string \<Rightarrow> files \<Rightarrow> store_error + entry" where
  "get_entry n fs =
     (if \<not> validate_name n then Inl Bad_Name
      else case map_of fs (secret_file n) of
        None \<Rightarrow> Inl Not_Found
      | Some Corrupt \<Rightarrow> Inl (Failed n)
      | Some (Entry e) \<Rightarrow> Inr e)"

definition resolve_env :: "outside \<Rightarrow> entry \<Rightarrow> store_error + string" where
  "resolve_env w e =
     (if \<not> truthy (se_env_var e) then Inl (Failed (se_name e))
      else case o_env w (the (se_env_var e)) of None \<Rightarrow> Inl (Failed (se_name e)) | Some v \<Rightarrow> Inr v)"

definition resolve_lookup :: "outside \<Rightarrow> entry \<Rightarrow> store_error + string" where
  "resolve_lookup w e =
     (if \<not> truthy (se_lookup_url e) then Inl (Failed (se_name e))
      else case o_url w (the (se_lookup_url e)) of
        None \<Rightarrow> Inl (Failed (se_name e))
      | Some body \<Rightarrow> if strip body = [] then Inl (Failed (se_name e)) else Inr (strip body))"

definition decrypt_value :: "outside \<Rightarrow> string \<Rightarrow> store_error + string" where
  "decrypt_value w token = (case o_dec w token of None \<Rightarrow> Inl Encryption | Some v \<Rightarrow> Inr v)"

definition get_secret :: "outside \<Rightarrow> string \<Rightarrow> files \<Rightarrow> store_error + string" where
  "get_secret w n fs =
     (case get_entry n fs of
        Inl e \<Rightarrow> Inl e
      | Inr e \<Rightarrow>
          (case se_source e of
             ENV \<Rightarrow> resolve_env w e
           | LOOKUP \<Rightarrow> resolve_lookup w e
           | STATIC \<Rightarrow> decrypt_value w (se_encrypted e)))"

definition encrypt_value :: "outside \<Rightarrow> source \<Rightarrow> string \<Rightarrow> store_error + string" where
  "encrypt_value w src v =
     (if src = STATIC then (case o_enc w v of None \<Rightarrow> Inl Encryption | Some t \<Rightarrow> Inr t) else Inr [])"

record options =
  op_source :: source
  op_description :: string
  op_tags :: "string list"
  op_lookup_url :: "string option"
  op_env_var :: "string option"
  op_overwrite :: bool

definition set_secret :: "outside \<Rightarrow> time \<Rightarrow> string \<Rightarrow> string \<Rightarrow> options \<Rightarrow> files \<Rightarrow> (store_error + entry) \<times> files" where
  "set_secret w now n v op fs =
     (if \<not> validate_name n then (Inl Bad_Name, fs)
      else let f = secret_file n
           in if map_of fs f \<noteq> None \<and> \<not> op_overwrite op then (Inl Exists, fs)
              else case encrypt_value w (op_source op) v of
                Inl e \<Rightarrow> (Inl e, fs)
              | Inr t \<Rightarrow>
                  (case valid_entry_name n of
                     None \<Rightarrow> (Inl Validation, fs)
                   | Some name \<Rightarrow>
                       (let created = (case map_of fs f of Some (Entry old) \<Rightarrow> se_created old | _ \<Rightarrow> now);
                            e = \<lparr>se_name = name, se_source = op_source op, se_encrypted = t, se_description = op_description op,
                                 se_tags = op_tags op, se_created = created, se_updated = now,
                                 se_lookup_url = op_lookup_url op, se_env_var = op_env_var op\<rparr>
                        in (Inr e, AList.update f (Entry e) fs))))"

definition delete_secret :: "string \<Rightarrow> files \<Rightarrow> (store_error + bool) \<times> files" where
  "delete_secret n fs =
     (if \<not> validate_name n then (Inl Bad_Name, fs)
      else if map_of fs (secret_file n) = None then (Inr False, fs)
      else (Inr True, AList.delete (secret_file n) fs))"

definition secret_exists :: "string \<Rightarrow> files \<Rightarrow> store_error + bool" where
  "secret_exists n fs = (if \<not> validate_name n then Inl Bad_Name else Inr (map_of fs (secret_file n) \<noteq> None))"

definition json_file :: "string \<Rightarrow> bool" where
  "json_file f \<longleftrightarrow> suffix ''.json'' f"

definition list_secrets :: "files \<Rightarrow> entry list" where
  "list_secrets fs =
     concat (map (\<lambda>(f, c). case c of Entry e \<Rightarrow> [e] | Corrupt \<Rightarrow> []) (sort_key fst (filter (\<lambda>(f, c). json_file f) fs)))"

text \<open>A write is a temporary file in the same directory and then a rename.  A crash in between leaves the file.\<close>

definition crash_in_set :: "string \<Rightarrow> entry \<Rightarrow> files \<Rightarrow> files" where
  "crash_in_set rnd e fs = AList.update (''.tmp_secret_'' @ rnd @ ''.json'') (Entry e) fs"

section \<open>What the store promises\<close>

text \<open>The contract of a store: a value that was put is got back (where its codec works), another name is not
  affected, and a refused call changes nothing.\<close>

locale secret_backend =
  fixes get :: "string \<Rightarrow> 's \<Rightarrow> store_error + string"
    and put :: "string \<Rightarrow> string \<Rightarrow> 's \<Rightarrow> bool \<times> 's"
    and codec :: "string \<Rightarrow> bool"
    and same :: "string \<Rightarrow> string \<Rightarrow> bool"
  assumes get_put: "put n v s = (True, s') \<Longrightarrow> codec v \<Longrightarrow> get n s' = Inr v"
    and get_other: "put n v s = (b, s') \<Longrightarrow> \<not> same n m \<Longrightarrow> get m s' = get m s"
    and put_refused: "put n v s = (False, s') \<Longrightarrow> s' = s"

definition put_static :: "outside \<Rightarrow> string \<Rightarrow> string \<Rightarrow> files \<Rightarrow> bool \<times> files" where
  "put_static w n v fs =
     (case set_secret w 0 n v \<lparr>op_source = STATIC, op_description = [], op_tags = [], op_lookup_url = None, op_env_var = None,
        op_overwrite = True\<rparr> fs of (Inl _, fs') \<Rightarrow> (False, fs') | (Inr _, fs') \<Rightarrow> (True, fs'))"

definition cipher_works :: "outside \<Rightarrow> string \<Rightarrow> bool" where
  "cipher_works w v \<longleftrightarrow> (case o_enc w v of Some t \<Rightarrow> o_dec w t = Some v | None \<Rightarrow> False)"

lemma set_secret_cases:
  obtains (refused) e where "set_secret w now n v op fs = (Inl e, fs)"
  | (stored) e t where "set_secret w now n v op fs = (Inr e, AList.update (secret_file n) (Entry e) fs)"
      "validate_name n" "valid_entry_name n = Some (se_name e)" "se_source e = op_source op" "se_encrypted e = t"
      "encrypt_value w (op_source op) v = Inr t" "map_of fs (secret_file n) = None \<or> op_overwrite op"
proof (cases "\<exists>e. set_secret w now n v op fs = (Inl e, fs)")
  case True
  thus ?thesis using refused by blast
next
  case False
  thus ?thesis
    by (auto simp: set_secret_def Let_def intro: stored split: if_splits sum.splits option.splits)
qed

lemma get_entry_update:
  "get_entry m (AList.update (secret_file n) c fs) =
     (if validate_name m \<and> secret_file m = secret_file n then (case c of Entry e \<Rightarrow> Inr e | Corrupt \<Rightarrow> Inl (Failed m)) else get_entry m fs)"
  by (simp add: get_entry_def split: content.split)

lemma set_get:
  assumes "set_secret w now n v op fs = (Inr e, fs')" "op_source op = STATIC" "cipher_works w v"
  shows "get_secret w n fs' = Inr v"
  using assms
  by (cases rule: set_secret_cases [of w now n v op fs])
     (auto simp: get_secret_def get_entry_update encrypt_value_def cipher_works_def decrypt_value_def split: option.splits)

lemma set_other:
  assumes "set_secret w now n v op fs = (r, fs')" "secret_file m \<noteq> secret_file n"
  shows "get_secret w m fs' = get_secret w m fs"
  using assms by (cases rule: set_secret_cases [of w now n v op fs]) (auto simp: get_secret_def get_entry_update)

interpretation file_store: secret_backend "get_secret w" "put_static w" "cipher_works w" "\<lambda>n m. secret_file m = secret_file n" for w
proof (unfold_locales, goal_cases)
  case (1 n v s s')
  thus ?case using set_get by (auto simp: put_static_def split: prod.splits sum.splits)
next
  case (2 n v s b s' m)
  thus ?case using set_other by (auto simp: put_static_def split: prod.splits sum.splits)
next
  case (3 n v s s')
  thus ?case
    by (cases rule: set_secret_cases [of w 0 n v "\<lparr>op_source = STATIC, op_description = [], op_tags = [], op_lookup_url = None,
          op_env_var = None, op_overwrite = True\<rparr>" s]) (auto simp: put_static_def)
qed

section \<open>The registry\<close>

record reg_entry =
  re_ref :: nat
  re_store_name :: string
  re_namespace :: string
  re_description :: string
  re_cached :: "string option"
  re_resolved :: bool

record registry =
  rg_entries :: "(string \<times> reg_entry) list"
  rg_next :: nat

definition new_registry :: registry where
  "new_registry = \<lparr>rg_entries = [], rg_next = 0\<rparr>"

datatype registry_error = Value_Error | Not_Registered | Store_Error store_error

definition register_secret :: "string \<Rightarrow> string \<Rightarrow> string \<Rightarrow> string \<Rightarrow> registry \<Rightarrow> (registry_error + unit) \<times> registry" where
  "register_secret rn sn ns desc g =
     (let rn = strip rn; sn = strip sn
      in if rn = [] \<or> sn = [] then (Inl Value_Error, g)
         else (Inr (), g\<lparr>rg_entries := AList.update rn \<lparr>re_ref = rg_next g, re_store_name = sn, re_namespace = ns, re_description = desc,
                 re_cached = None, re_resolved = False\<rparr> (rg_entries g), rg_next := rg_next g + 1\<rparr>))"

definition unregister_secret :: "string \<Rightarrow> registry \<Rightarrow> bool \<times> registry" where
  "unregister_secret rn g = (map_of (rg_entries g) rn \<noteq> None, g\<lparr>rg_entries := AList.delete rn (rg_entries g)\<rparr>)"

text \<open>\<open>resolve\<close> holds the lock twice, and asks the store in between; the entry it fills is the object it found.\<close>

datatype lookup = Answer "registry_error + string" | Ask reg_entry

definition resolve_lookup_entry :: "string \<Rightarrow> registry \<Rightarrow> lookup" where
  "resolve_lookup_entry rn g =
     (case map_of (rg_entries g) rn of
        None \<Rightarrow> Answer (Inl Not_Registered)
      | Some e \<Rightarrow> (case (re_resolved e, re_cached e) of (True, Some v) \<Rightarrow> Answer (Inr v) | _ \<Rightarrow> Ask e))"

definition cache_value :: "reg_entry \<Rightarrow> string \<Rightarrow> registry \<Rightarrow> registry" where
  "cache_value e v g = g\<lparr>rg_entries := map (\<lambda>(k, x). (k, if re_ref x = re_ref e then x\<lparr>re_cached := Some v, re_resolved := True\<rparr> else x)) (rg_entries g)\<rparr>"

definition resolve_finish :: "reg_entry \<Rightarrow> store_error + string \<Rightarrow> registry \<Rightarrow> (registry_error + string) \<times> registry" where
  "resolve_finish e answer g =
     (case answer of Inl err \<Rightarrow> (Inl (Store_Error err), g) | Inr v \<Rightarrow> (Inr v, cache_value e v g))"

definition resolve :: "(string \<Rightarrow> store_error + string) \<Rightarrow> string \<Rightarrow> registry \<Rightarrow> (registry_error + string) \<times> registry" where
  "resolve get rn g =
     (case resolve_lookup_entry rn g of
        Answer a \<Rightarrow> (a, g)
      | Ask e \<Rightarrow> resolve_finish e (get (re_store_name e)) g)"

fun resolve_names :: "(string \<Rightarrow> store_error + string) \<Rightarrow> string list \<Rightarrow> registry \<Rightarrow> (registry_error + (string \<times> string) list) \<times> registry" where
  "resolve_names get [] g = (Inr [], g)"
| "resolve_names get (n # ns) g =
     (case resolve get n g of
        (Inl e, g') \<Rightarrow> (Inl e, g')
      | (Inr v, g') \<Rightarrow> (case resolve_names get ns g' of
            (Inl e, g'') \<Rightarrow> (Inl e, g'')
          | (Inr d, g'') \<Rightarrow> (Inr ((n, v) # d), g'')))"

definition resolve_all :: "(string \<Rightarrow> store_error + string) \<Rightarrow> registry \<Rightarrow> (registry_error + (string \<times> string) list) \<times> registry" where
  "resolve_all get g = resolve_names get (map fst (rg_entries g)) g"

definition list_names :: "string \<Rightarrow> registry \<Rightarrow> string list" where
  "list_names ns g = sort (map fst (filter (\<lambda>(k, e). ns = [] \<or> re_namespace e = ns) (rg_entries g)))"

definition list_namespaces :: "registry \<Rightarrow> string list" where
  "list_namespaces g = sort (remdups (filter (\<lambda>ns. ns \<noteq> []) (map (re_namespace \<circ> snd) (rg_entries g))))"

definition is_available :: "(string \<Rightarrow> store_error + bool) \<Rightarrow> string \<Rightarrow> registry \<Rightarrow> bool" where
  "is_available ex rn g =
     (case map_of (rg_entries g) rn of
        None \<Rightarrow> False
      | Some e \<Rightarrow> (case ex (re_store_name e) of Inr b \<Rightarrow> b | Inl _ \<Rightarrow> False))"

definition clear_cache :: "registry \<Rightarrow> registry" where
  "clear_cache g = g\<lparr>rg_entries := map (\<lambda>(k, e). (k, e\<lparr>re_cached := None, re_resolved := False\<rparr>)) (rg_entries g)\<rparr>"

definition register_listed :: "string \<Rightarrow> entry \<Rightarrow> nat \<times> registry \<Rightarrow> nat \<times> registry" where
  "register_listed ns e s =
     (case register_secret (se_name e) (se_name e) ns (se_description e) (snd s) of
        (Inr _, g') \<Rightarrow> (fst s + 1, g') | (Inl _, g') \<Rightarrow> (fst s, g'))"

definition register_from_store :: "string \<Rightarrow> entry list \<Rightarrow> registry \<Rightarrow> nat \<times> registry" where
  "register_from_store ns es g = fold (register_listed ns) es (0, g)"


section \<open>What clients rely on\<close>

text \<open>Two entries never are one object, so a value is cached where it was looked up and nowhere else.\<close>

definition entries_apart :: "registry \<Rightarrow> bool" where
  "entries_apart g \<longleftrightarrow> distinct (map fst (rg_entries g)) \<and> distinct (map (re_ref \<circ> snd) (rg_entries g)) \<and>
     (\<forall>(n, e) \<in> set (rg_entries g). re_ref e < rg_next g)"

lemma map_of_map_entries: "map_of (map (\<lambda>(k, x). (k, h x)) xs) n = map_option h (map_of xs n)"
  by (induction xs) auto

lemma cache_value_same:
  "map_of (rg_entries g) rn = Some e \<Longrightarrow> map_of (rg_entries (cache_value e v g)) rn = Some (e\<lparr>re_cached := Some v, re_resolved := True\<rparr>)"
  by (simp add: cache_value_def map_of_map_entries)

lemma map_of_clear_cache:
  "map_of (rg_entries (clear_cache g)) rn = map_option (\<lambda>e. e\<lparr>re_cached := None, re_resolved := False\<rparr>) (map_of (rg_entries g) rn)"
  by (simp add: clear_cache_def map_of_map_entries)

lemma resolve_registered:
  assumes "resolve get rn g = (Inr v, g')"
  obtains e where "map_of (rg_entries g') rn = Some e" "re_resolved e" "re_cached e = Some v"
  using assms by (auto simp: resolve_def resolve_lookup_entry_def resolve_finish_def cache_value_same
      split: option.splits bool.splits sum.splits)

lemma resolve_cached: "map_of (rg_entries g) rn = Some e \<Longrightarrow> re_resolved e \<Longrightarrow> re_cached e = Some v \<Longrightarrow> resolve get rn g = (Inr v, g)"
  by (simp add: resolve_def resolve_lookup_entry_def)

lemma resolve_fresh:
  "map_of (rg_entries g) rn = Some e \<Longrightarrow> \<not> re_resolved e \<Longrightarrow> resolve get rn g = resolve_finish e (get (re_store_name e)) g"
  by (simp add: resolve_def resolve_lookup_entry_def)

context secret_backend
begin

lemma rotation:
  assumes "map_of (rg_entries g) rn = Some e" "put (re_store_name e) v s = (True, s')" "codec v"
  shows "fst (resolve (\<lambda>n. get n s') rn (clear_cache g)) = Inr v"
  using assms by (simp add: resolve_fresh map_of_clear_cache resolve_finish_def get_put)

lemma stale:
  assumes "resolve (\<lambda>n. get n s) rn g = (Inr v, g')"
  shows "resolve (\<lambda>n. get n s') rn g' = (Inr v, g')"
  using assms by (rule resolve_registered) (simp add: resolve_cached)

lemma unrelated:
  assumes "put n v s = (b, s')" "map_of (rg_entries g) rn = Some e" "\<not> same n (re_store_name e)"
  shows "resolve (\<lambda>n. get n s') rn g = resolve (\<lambda>n. get n s) rn g"
  using assms by (simp add: resolve_def resolve_lookup_entry_def get_other split: option.split bool.split)

end


lemma update_refs:
  "distinct (map fst xs) \<Longrightarrow> distinct (map (re_ref \<circ> snd) xs) \<Longrightarrow> \<forall>(n, e) \<in> set xs. re_ref e < r \<Longrightarrow> re_ref x = r \<Longrightarrow>
     distinct (map (re_ref \<circ> snd) (AList.update k x xs)) \<and> (\<forall>(n, e) \<in> set (AList.update k x xs). re_ref e < Suc r)"
proof (induction xs)
  case (Cons y ys)
  obtain l e where y: "y = (l, e)" by (cases y)
  have old: "re_ref e \<notin> (re_ref \<circ> snd) ` set (AList.update k x ys)" if "l \<noteq> k"
  proof -
    have "(re_ref \<circ> snd) ` set (AList.update k x ys) \<subseteq> insert r ((re_ref \<circ> snd) ` set ys)"
      using Cons.prems(4) by (induction ys) (auto split: if_splits)
    thus ?thesis using Cons.prems y by auto
  qed
  have new: "r \<notin> (re_ref \<circ> snd) ` set ys" using Cons.prems(3) by auto
  show ?case
  proof (cases "l = k")
    case True
    thus ?thesis using y Cons.prems new by (auto simp: less_Suc_eq)
  next
    case False
    thus ?thesis using y Cons old by (auto simp: less_Suc_eq)
  qed
qed simp

lemma entries_apart_new [simp]: "entries_apart new_registry"
  by (simp add: entries_apart_def new_registry_def)

lemma entries_apart_register: "entries_apart g \<Longrightarrow> entries_apart (snd (register_secret rn sn ns d g))"
  using update_refs [of "rg_entries g" "rg_next g" "\<lparr>re_ref = rg_next g, re_store_name = strip sn, re_namespace = ns,
     re_description = d, re_cached = None, re_resolved = False\<rparr>" "strip rn"]
  by (simp add: entries_apart_def register_secret_def Let_def distinct_update)

lemma entries_apart_unregister: "entries_apart g \<Longrightarrow> entries_apart (snd (unregister_secret rn g))"
  by (auto simp: entries_apart_def unregister_secret_def AList.delete_eq distinct_map inj_on_def)

lemma entries_apart_entries:
  assumes "entries_apart g" "map (\<lambda>(k, e). (k, re_ref e)) xs = map (\<lambda>(k, e). (k, re_ref e)) (rg_entries g)"
  shows "entries_apart (g\<lparr>rg_entries := xs\<rparr>)"
proof -
  from assms(2) have k: "map fst xs = map fst (rg_entries g)" and r: "map (re_ref \<circ> snd) xs = map (re_ref \<circ> snd) (rg_entries g)"
    by (auto dest: arg_cong [where f = "map fst"] arg_cong [where f = "map snd"] simp: comp_def case_prod_beta)
  have "re_ref e < rg_next g" if "(n, e) \<in> set xs" for n e
  proof -
    have "re_ref e \<in> set (map (re_ref \<circ> snd) xs)" using that by force
    hence "re_ref e \<in> set (map (re_ref \<circ> snd) (rg_entries g))" using r by simp
    thus ?thesis using assms(1) by (auto simp: entries_apart_def)
  qed
  thus ?thesis using assms(1) k r by (auto simp: entries_apart_def)
qed

lemma entries_apart_cache: "entries_apart g \<Longrightarrow> entries_apart (cache_value e v g)"
  unfolding cache_value_def by (rule entries_apart_entries) auto

lemma entries_apart_clear: "entries_apart g \<Longrightarrow> entries_apart (clear_cache g)"
  unfolding clear_cache_def by (rule entries_apart_entries) auto

lemma entries_apart_resolve: "entries_apart g \<Longrightarrow> entries_apart (snd (resolve get rn g))"
  by (auto simp: resolve_def resolve_finish_def entries_apart_cache split: lookup.split sum.split)

lemma entries_apart_from_store: "entries_apart g \<Longrightarrow> entries_apart (snd (register_from_store ns es g))"
proof -
  have "entries_apart (snd s) \<Longrightarrow> entries_apart (snd (fold (register_listed ns) es s))" for s
  proof (induction es arbitrary: s)
    case (Cons e es)
    have "entries_apart (snd (register_listed ns e s))"
      using entries_apart_register [OF Cons.prems, of "se_name e" "se_name e" ns "se_description e"]
      by (auto simp: register_listed_def split: prod.split sum.split)
    thus ?case using Cons.IH by simp
  qed simp
  thus "entries_apart g \<Longrightarrow> entries_apart (snd (register_from_store ns es g))" by (simp add: register_from_store_def)
qed

lemma resolve_names_ok: "entries_apart g \<Longrightarrow> entries_apart (snd (resolve_names get ns g))"
proof (induction ns arbitrary: g)
  case (Cons n ns)
  have "entries_apart (snd (resolve get n g))" by (rule entries_apart_resolve [OF Cons.prems])
  thus ?case using Cons.IH [of "snd (resolve get n g)"] by (auto split: prod.splits sum.splits)
qed simp

text \<open>The value a name stands for: the cached one, or else the answer of the store.\<close>

definition value_of :: "(string \<Rightarrow> store_error + string) \<Rightarrow> registry \<Rightarrow> string \<Rightarrow> registry_error + string" where
  "value_of get g rn = fst (resolve get rn g)"

lemma cache_value_other:
  assumes "entries_apart g" "map_of (rg_entries g) rn = Some e" "map_of (rg_entries g) m = Some x" "m \<noteq> rn"
  shows "map_of (rg_entries (cache_value e v g)) m = Some x"
proof -
  have "re_ref x \<noteq> re_ref e"
  proof
    assume "re_ref x = re_ref e"
    moreover have "(m, x) \<in> set (rg_entries g)" "(rn, e) \<in> set (rg_entries g)" using assms by (auto dest: map_of_SomeD)
    moreover have "inj_on (re_ref \<circ> snd) (set (rg_entries g))" using assms(1) by (simp add: entries_apart_def distinct_map)
    ultimately have "(m, x) = (rn, e)" using inj_onD [of "re_ref \<circ> snd" _ "(m, x)" "(rn, e)"] by simp
    thus False using assms(4) by simp
  qed
  thus ?thesis using assms(3) by (simp add: cache_value_def map_of_map_entries)
qed

lemma resolve_keeps_values:
  assumes "entries_apart g" "resolve get rn g = (r, g')"
  shows "value_of get g' m = value_of get g m"
proof (cases "\<exists>e v. map_of (rg_entries g) rn = Some e \<and> get (re_store_name e) = Inr v \<and> g' = cache_value e v g \<and> r = Inr v")
  case True
  then obtain e v where e: "map_of (rg_entries g) rn = Some e" "g' = cache_value e v g" "r = Inr v" by blast
  show ?thesis
  proof (cases "m = rn")
    case True
    thus ?thesis using e assms(2) cache_value_same [OF e(1)] by (simp add: value_of_def resolve_cached)
  next
    case False
    have "map_of (rg_entries g') m = map_of (rg_entries g) m"
      using cache_value_other [OF assms(1) e(1) _ False] e(2)
      by (cases "map_of (rg_entries g) m") (auto simp: cache_value_def map_of_map_entries)
    thus ?thesis by (auto simp: value_of_def resolve_def resolve_lookup_entry_def resolve_finish_def split: option.split bool.split sum.split)
  qed
next
  case False
  hence "g' = g" using assms(2)
    by (auto simp: resolve_def resolve_lookup_entry_def resolve_finish_def split: option.splits bool.splits sum.splits)
  thus ?thesis by simp
qed

lemma resolve_names_values:
  assumes "entries_apart g" "resolve_names get ns g = (Inr d, g')"
  shows "map fst d = ns \<and> (\<forall>(n, v) \<in> set d. value_of get g n = Inr v)"
  using assms
proof (induction ns arbitrary: g d g')
  case (Cons n ns)
  obtain v g1 d' where 1: "resolve get n g = (Inr v, g1)" "resolve_names get ns g1 = (Inr d', g')" "d = (n, v) # d'"
    using Cons.prems(2) by (auto split: prod.splits sum.splits)
  have "entries_apart g1" using entries_apart_resolve [OF Cons.prems(1), of get n] 1(1) by simp
  from Cons.IH [OF this 1(2)] show ?case
    using 1 resolve_keeps_values [OF Cons.prems(1) 1(1)] by (auto simp: value_of_def)
qed simp

lemma resolve_names_fails:
  assumes "entries_apart g" "resolve_names get ns g = (Inl err, g')"
  shows "\<exists>n \<in> set ns. value_of get g n = Inl err"
  using assms
proof (induction ns arbitrary: g g')
  case (Cons n ns)
  obtain r g1 where 1: "resolve get n g = (r, g1)" by fastforce
  show ?case
  proof (cases r)
    case (Inl e)
    thus ?thesis using Cons.prems(2) 1 by (auto simp: value_of_def)
  next
    case (Inr v)
    have "entries_apart g1" using entries_apart_resolve [OF Cons.prems(1), of get n] 1 by simp
    moreover have "resolve_names get ns g1 = (Inl err, g')" using Cons.prems(2) 1 Inr by (auto split: prod.splits sum.splits)
    ultimately have "\<exists>m \<in> set ns. value_of get g1 m = Inl err" by (rule Cons.IH)
    thus ?thesis using resolve_keeps_values [OF Cons.prems(1) 1] by auto
  qed
qed simp


section \<open>Properties\<close>

definition test_world :: outside where
  "test_world = \<lparr>o_enc = \<lambda>v. Some (''FNT:'' @ v), o_dec = \<lambda>t. Some (drop 4 t), o_env = \<lambda>_. None, o_url = \<lambda>_. None\<rparr>"

definition static :: options where
  "static = \<lparr>op_source = STATIC, op_description = [], op_tags = [], op_lookup_url = None, op_env_var = None, op_overwrite = False\<rparr>"

definition test_entry :: "string \<Rightarrow> string \<Rightarrow> entry" where
  "test_entry n v = \<lparr>se_name = n, se_source = STATIC, se_encrypted = ''FNT:'' @ v, se_description = [], se_tags = [], se_created = 0,
     se_updated = 0, se_lookup_url = None, se_env_var = None\<rparr>"

lemmas name_defs = validate_name_def valid_entry_name_def secret_file_def replace_char_def slash_def strip_def is_space_def
  allowed_char_def is_letter_def is_digit_def sublist_code

lemma set_a: "set_secret test_world 0 ''a'' ''x'' static [] = (Inr (test_entry ''a'' ''x''), [(''a.json'', Entry (test_entry ''a'' ''x''))])"
  by code_simp

text \<open>A static secret that was stored is read back with its value while the cipher can decrypt what it encrypted; it exists,
  is listed under its file, and reading the secrets of all other files gives what it gave before.\<close>

theorem secret_round_trip:
  assumes "set_secret w now n v op fs = (Inr e, fs')" "op_source op = STATIC" "cipher_works w v"
  shows "get_secret w n fs' = Inr v" "get_entry n fs' = Inr e" "secret_exists n fs' = Inr True"
    "secret_file m \<noteq> secret_file n \<longrightarrow> get_secret w m fs' = get_secret w m fs"
proof -
  show "get_secret w n fs' = Inr v" by (rule set_get [OF assms])
  show "get_entry n fs' = Inr e" "secret_exists n fs' = Inr True"
    using assms(1) by (cases rule: set_secret_cases [of w now n v op fs], auto simp: get_entry_update secret_exists_def)+
  show "secret_file m \<noteq> secret_file n \<longrightarrow> get_secret w m fs' = get_secret w m fs" using set_other [OF assms(1)] by simp
qed

theorem secret_round_trip_witness:
  "get_secret test_world ''a'' [(''a.json'', Entry (test_entry ''a'' ''x''))] = Inr ''x''"
  by (rule secret_round_trip(1) [OF set_a]) (simp_all add: static_def cipher_works_def test_world_def)

text \<open>A resolved name keeps its value whatever is stored meanwhile; once the cache is cleared, it resolves to the value stored
  last.\<close>

theorem rotation_needs_clear_cache:
  assumes "resolve (\<lambda>m. get_secret w m fs) rn g = (Inr old, g')" "map_of (rg_entries g') rn = Some e"
    "put_static w (re_store_name e) new fs = (True, fs')" "cipher_works w new"
  shows "resolve (\<lambda>m. get_secret w m fs') rn g' = (Inr old, g') \<and>
    fst (resolve (\<lambda>m. get_secret w m fs') rn (clear_cache g')) = Inr new"
  using file_store.stale [OF assms(1)] file_store.rotation [OF assms(2-4)] by blast

text \<open>In every registry in which no two entries are one object (and all operations keep it so), resolving all names either
  gives every name exactly its value, in the order of registration, or raises the error of one of the names.\<close>

theorem resolve_all_correct:
  assumes "entries_apart g" "resolve_all get g = (r, g')"
  shows "case r of Inr d \<Rightarrow> map fst d = map fst (rg_entries g) \<and> (\<forall>(n, v) \<in> set d. value_of get g n = Inr v)
    | Inl err \<Rightarrow> \<exists>n \<in> set (map fst (rg_entries g)). value_of get g n = Inl err"
proof (cases r)
  case (Inl err)
  thus ?thesis using resolve_names_fails [OF assms(1), of get "map fst (rg_entries g)" err g'] assms(2) by (simp add: resolve_all_def)
next
  case (Inr d)
  thus ?thesis using resolve_names_values [OF assms(1)] assms(2) by (simp add: resolve_all_def)
qed

definition test_registry :: registry where
  "test_registry = snd (register_secret ''k'' ''a'' [] [] new_registry)"

definition test_files :: "string \<Rightarrow> files" where
  "test_files v = [(''a.json'', Entry (test_entry ''a'' v))]"

lemma test_runs:
  "resolve (\<lambda>m. get_secret test_world m (test_files ''x'')) ''k'' test_registry =
     (Inr ''x'', cache_value (snd (hd (rg_entries test_registry))) ''x'' test_registry)"
  "map_of (rg_entries (cache_value (snd (hd (rg_entries test_registry))) ''x'' test_registry)) ''k'' =
     Some \<lparr>re_ref = 0, re_store_name = ''a'', re_namespace = [], re_description = [], re_cached = Some ''x'', re_resolved = True\<rparr>"
  "put_static test_world ''a'' ''y'' (test_files ''x'') = (True, test_files ''y'')"
  "cipher_works test_world ''y''"
  "resolve_all (\<lambda>m. get_secret test_world m (test_files ''x'')) test_registry =
     (Inr [(''k'', ''x'')], cache_value (snd (hd (rg_entries test_registry))) ''x'' test_registry)"
  by code_simp+

lemma test_entries_apart: "entries_apart test_registry"
  by (simp add: test_registry_def entries_apart_register)

theorem rotation_needs_clear_cache_witness:
  "fst (resolve (\<lambda>m. get_secret test_world m (test_files ''y'')) ''k''
     (clear_cache (cache_value (snd (hd (rg_entries test_registry))) ''x'' test_registry))) = Inr ''y''"
  using rotation_needs_clear_cache [OF test_runs(1,2) _ test_runs(4)] test_runs(3) by simp

theorem resolve_all_correct_witness: "value_of (\<lambda>m. get_secret test_world m (test_files ''x'')) test_registry ''k'' = Inr ''x''"
  using resolve_all_correct [OF test_entries_apart test_runs(5)] by simp

text \<open>The operations of the registry keep its entries apart, and so its names unique.\<close>

theorem registry_invariant:
  assumes "entries_apart g"
  shows "entries_apart (snd (register_secret rn sn ns d g))" "entries_apart (snd (unregister_secret rn g))"
    "entries_apart (snd (resolve get rn g))" "entries_apart (cache_value e v g)" "entries_apart (snd (resolve_all get g))"
    "entries_apart (clear_cache g)" "entries_apart (snd (register_from_store ns es g))"
  using assms resolve_names_ok by (simp_all add: entries_apart_register entries_apart_unregister entries_apart_resolve entries_apart_cache
      entries_apart_clear entries_apart_from_store resolve_all_def)

theorem registry_invariant_witness: "entries_apart (snd (register_secret ''k'' ''a'' [] [] new_registry))"
  by (rule registry_invariant(1)) simp

text \<open>A resolution that asked the store before the cache was cleared puts the value it got then into the cache: after
  \<open>clear_cache\<close>, the old value is answered for ever.\<close>

theorem clear_cache_race:
  assumes "resolve_lookup_entry rn g = Ask e"
  shows "resolve get rn (snd (resolve_finish e (Inr old) (clear_cache g))) = (Inr old, snd (resolve_finish e (Inr old) (clear_cache g)))"
proof -
  have "map_of (rg_entries g) rn = Some e"
    using assms by (auto simp: resolve_lookup_entry_def split: option.splits bool.splits)
  hence "map_of (rg_entries (cache_value e old (clear_cache g))) rn = Some (e\<lparr>re_cached := Some old, re_resolved := True\<rparr>)"
    by (simp add: cache_value_def map_of_map_entries map_of_clear_cache)
  thus ?thesis by (simp add: resolve_finish_def resolve_cached)
qed

text \<open>Two different names can share a file: storing one overwrites the other's value.\<close>

theorem names_collide:
  "secret_file ''db/key'' = secret_file ''db_key'' \<and> secret_file (''a'' @ ''..'') = secret_file ''a_''"
  by code_simp

theorem colliding_names_share:
  assumes "set_secret w now n v op fs = (Inr e, fs')" "op_source op = STATIC" "cipher_works w v"
    "secret_file m = secret_file n" "validate_name m"
  shows "get_secret w m fs' = Inr v"
proof -
  have "get_entry m fs' = get_entry n fs'"
    using assms(1,4,5) by (cases rule: set_secret_cases [of w now n v op fs]) (auto simp: get_entry_update)
  thus ?thesis using set_get [OF assms(1-3)] by (simp add: get_secret_def)
qed

text \<open>A name with outer blanks is stored in the file of the name as given but recorded without the blanks: registered from the
  listing of the store, it cannot be resolved.\<close>

theorem padded_name_unreachable:
  assumes "o_enc w ''x'' = Some t"
  defines "fs \<equiv> snd (set_secret w 0 '' key '' ''x'' static [])"
  shows "map se_name (list_secrets fs) = [''key'']"
    "fst (resolve (\<lambda>m. get_secret w m fs) ''key'' (snd (register_from_store [] (list_secrets fs) new_registry))) = Inl (Store_Error Not_Found)"
proof -
  have n: "validate_name '' key ''" "valid_entry_name '' key '' = Some ''key''" "secret_file '' key '' = '' key .json''"
    "validate_name ''key''" "secret_file ''key'' = ''key.json''" "strip ''key'' = ''key''" "json_file '' key .json''"
    by code_simp+
  obtain e where fs: "fs = [('' key .json'', Entry e)]" "se_name e = ''key''"
    using assms n by (simp add: set_secret_def encrypt_value_def static_def Let_def)
  hence l: "list_secrets fs = [e]" using n by (simp add: list_secrets_def)
  show "map se_name (list_secrets fs) = [''key'']" using l fs by simp
  show "fst (resolve (\<lambda>m. get_secret w m fs) ''key'' (snd (register_from_store [] (list_secrets fs) new_registry))) = Inl (Store_Error Not_Found)"
    unfolding l using fs n
    by (simp add: register_from_store_def register_listed_def register_secret_def new_registry_def resolve_def resolve_lookup_entry_def
        resolve_finish_def get_secret_def get_entry_def Let_def)
qed

lemma list_secrets_iff: "e \<in> set (list_secrets fs) \<longleftrightarrow> (\<exists>f. (f, Entry e) \<in> set fs \<and> json_file f)"
  by (force simp: list_secrets_def split: content.splits)

definition temp_file :: "string \<Rightarrow> string" where
  "temp_file rnd = ''.tmp_secret_'' @ rnd @ ''.json''"

text \<open>A crash between writing the temporary file and the rename leaves a file that the listing shows as a secret: it was never
  stored, and it stays when the secret is deleted.\<close>

theorem crash_leaves_ghost:
  assumes "secret_file n \<noteq> temp_file rnd"
  shows "e \<in> set (list_secrets (snd (delete_secret n (crash_in_set rnd e fs))))" "get_entry n (crash_in_set rnd e fs) = get_entry n fs"
proof -
  have "(temp_file rnd, Entry e) \<in> set (AList.update (temp_file rnd) (Entry e) fs)"
    by (rule map_of_SomeD) simp
  hence "(temp_file rnd, Entry e) \<in> set (snd (delete_secret n (crash_in_set rnd e fs)))"
    using assms by (auto simp: delete_secret_def crash_in_set_def temp_file_def AList.delete_eq)
  moreover have "json_file (temp_file rnd)" by (simp add: json_file_def temp_file_def suffix_def)
  ultimately show "e \<in> set (list_secrets (snd (delete_secret n (crash_in_set rnd e fs))))" unfolding list_secrets_iff by blast
  show "get_entry n (crash_in_set rnd e fs) = get_entry n fs"
    using assms by (simp add: get_entry_def crash_in_set_def temp_file_def)
qed

end
