(* ===== verification/File_Store.thy ===== *)
theory File_Store
  imports Prelude "HOL-Library.List_Lexorder" "HOL-Library.Char_ord" "HOL-Library.Sublist"
begin

text \<open>
  File stores: the interface with its default streaming methods (\<open>file_store/base.py\<close>), the store in memory
  (\<open>memory.py\<close>) and the store on the local disk (\<open>local.py\<close>).  Data are bytes (a text is encoded first).  The local
  file system is a dict from paths, as lists of components, to files and directories, without symbolic links and
  permissions; the JSON text of a sidecar file and how it is read back are parameters.  The clock is a number.
  The locale \<open>byte_store\<close> is what the default methods of the interface rely on; both stores are instances.
\<close>

section \<open>Interface\<close>

datatype fs_error = Empty_Path | Dotted_Path | Too_Big | Already_Exists | No_File | Traversal | Is_Directory | Failed | OS_Error | Stream_Raised

record metadata =
  md_path :: string
  md_size :: nat
  md_type :: string
  md_created :: time
  md_modified :: time
  md_extra :: "(string \<times> string) list"

text \<open>\<open>read_stream\<close>: \<open>range(0, len, chunk_size)\<close> and a slice for each; a step of 0 raises, a negative one yields nothing.\<close>

fun chunks :: "nat \<Rightarrow> string \<Rightarrow> string list" where
  "chunks n [] = []"
| "chunks n (b # bs) = (if n = 0 then [] else take n (b # bs) # chunks n (drop n (b # bs)))"

datatype stream_error = Store_Failure fs_error | Zero_Step

definition base_read_stream :: "(string \<Rightarrow> fs_error + string) \<Rightarrow> string \<Rightarrow> int \<Rightarrow> stream_error + string list" where
  "base_read_stream rd p n =
     (case rd p of
        Inl e \<Rightarrow> Inl (Store_Failure e)
      | Inr d \<Rightarrow> if n = 0 then Inl Zero_Step else Inr (chunks (nat n) d))"

definition base_write_stream :: "(string \<Rightarrow> string \<Rightarrow> 's \<Rightarrow> (fs_error + metadata) \<times> 's) \<Rightarrow> string \<Rightarrow> string list \<Rightarrow> 's \<Rightarrow> (fs_error + metadata) \<times> 's" where
  "base_write_stream wr p stream = wr p (concat stream)"

lemma concat_chunks: "n > 0 \<Longrightarrow> concat (chunks n d) = d"
  by (induction n d rule: chunks.induct) simp_all

lemma chunks_sizes: "c \<in> set (chunks n d) \<Longrightarrow> c \<noteq> [] \<and> length c \<le> n"
  by (induction n d rule: chunks.induct) (auto split: if_splits)

text \<open>What the interface promises to its clients: what was written is read, other paths are not touched, a refused write
  changes nothing, and what was deleted is gone.\<close>

locale byte_store =
  fixes ok :: "'s \<Rightarrow> bool"
    and wr :: "string \<Rightarrow> string \<Rightarrow> 's \<Rightarrow> (fs_error + metadata) \<times> 's"
    and rd :: "string \<Rightarrow> 's \<Rightarrow> fs_error + string"
    and del :: "string \<Rightarrow> 's \<Rightarrow> (fs_error + bool) \<times> 's"
    and touches :: "string \<Rightarrow> string \<Rightarrow> bool"
  assumes ok_write: "ok s \<Longrightarrow> ok (snd (wr p d s))"
    and ok_delete: "ok s \<Longrightarrow> ok (snd (del p s))"
    and read_written: "wr p d s = (Inr m, s') \<Longrightarrow> rd p s' = Inr d \<and> md_size m = length d \<and> md_path m = p"
    and read_other: "wr p d s = (r, s') \<Longrightarrow> \<not> touches p q \<Longrightarrow> rd q s' = rd q s"
    and refused: "ok s \<Longrightarrow> wr p d s = (Inl e, s') \<Longrightarrow> s' = s"
    and read_deleted: "del p s = (Inr b, s') \<Longrightarrow> rd p s' = Inl No_File"
begin

lemma stream_round_trip:
  assumes "base_write_stream wr p stream s = (Inr m, s')" "n > 0"
  obtains cs where "base_read_stream (\<lambda>p. rd p s') p n = Inr cs" "concat cs = concat stream" "\<forall>c \<in> set cs. c \<noteq> [] \<and> length c \<le> nat n"
    "md_size m = sum_list (map length stream)"
proof
  from assms have "rd p s' = Inr (concat stream)" "md_size m = length (concat stream)"
    using read_written by (auto simp: base_write_stream_def)
  thus "base_read_stream (\<lambda>p. rd p s') p n = Inr (chunks (nat n) (concat stream))" "md_size m = sum_list (map length stream)"
    using assms(2) by (simp_all add: base_read_stream_def length_concat)
qed (use assms(2) in \<open>simp_all add: concat_chunks chunks_sizes\<close>)

lemma stream_refused: "ok s \<Longrightarrow> base_write_stream wr p stream s = (Inl e, s') \<Longrightarrow> s' = s"
  by (auto simp: base_write_stream_def dest: refused)

lemma rewritten:
  assumes "wr p d s = (Inr m, s1)" "wr q d' s1 = (r, s2)" "\<not> touches q p"
  shows "rd p s2 = Inr d"
  using read_written [OF assms(1)] read_other [OF assms(2,3)] by simp

end

section \<open>In memory\<close>

record memory_file =
  mf_data :: string
  mf_type :: string
  mf_meta :: "(string \<times> string) list"
  mf_created :: time
  mf_modified :: time

type_synonym memory_store = "(string \<times> memory_file) list"

record write_options =
  wo_type :: string
  wo_overwrite :: bool
  wo_meta :: "(string \<times> string) list"

definition memory_metadata :: "string \<Rightarrow> memory_file \<Rightarrow> metadata" where
  "memory_metadata p f = \<lparr>md_path = p, md_size = length (mf_data f), md_type = mf_type f, md_created = mf_created f,
     md_modified = mf_modified f, md_extra = mf_meta f\<rparr>"

definition memory_write :: "int \<Rightarrow> write_options \<Rightarrow> time \<Rightarrow> string \<Rightarrow> string \<Rightarrow> memory_store \<Rightarrow> (fs_error + metadata) \<times> memory_store" where
  "memory_write max_size wo now p d s =
     (if p = [] then (Inl Empty_Path, s)
      else if max_size > 0 \<and> int (length d) > max_size then (Inl Too_Big, s)
      else if map_of s p \<noteq> None \<and> \<not> wo_overwrite wo then (Inl Already_Exists, s)
      else let f = \<lparr>mf_data = d, mf_type = wo_type wo, mf_meta = wo_meta wo,
                     mf_created = (case map_of s p of None \<Rightarrow> now | Some old \<Rightarrow> mf_created old), mf_modified = now\<rparr>
           in (Inr (memory_metadata p f), AList.update p f s))"

definition memory_read :: "string \<Rightarrow> memory_store \<Rightarrow> fs_error + string" where
  "memory_read p s = (if p = [] then Inl Empty_Path else case map_of s p of None \<Rightarrow> Inl No_File | Some f \<Rightarrow> Inr (mf_data f))"

definition memory_delete :: "string \<Rightarrow> memory_store \<Rightarrow> (fs_error + bool) \<times> memory_store" where
  "memory_delete p s =
     (if p = [] then (Inl Empty_Path, s)
      else if map_of s p = None then (Inr False, s) else (Inr True, AList.delete p s))"

definition memory_exists :: "string \<Rightarrow> memory_store \<Rightarrow> fs_error + bool" where
  "memory_exists p s = (if p = [] then Inl Empty_Path else Inr (map_of s p \<noteq> None))"

definition memory_list :: "string \<Rightarrow> memory_store \<Rightarrow> metadata list" where
  "memory_list pre s = sort_key md_path (map (\<lambda>(p, f). memory_metadata p f) (filter (\<lambda>(p, f). prefix pre p) s))"

definition memory_get_metadata :: "string \<Rightarrow> memory_store \<Rightarrow> fs_error + metadata" where
  "memory_get_metadata p s =
     (if p = [] then Inl Empty_Path else case map_of s p of None \<Rightarrow> Inl No_File | Some f \<Rightarrow> Inr (memory_metadata p f))"

definition memory_get_url :: "string \<Rightarrow> memory_store \<Rightarrow> fs_error + string" where
  "memory_get_url p s = (if p = [] then Inl Empty_Path else if map_of s p = None then Inl No_File else Inr (''memory://'' @ p))"

definition memory_total_size :: "memory_store \<Rightarrow> nat" where
  "memory_total_size s = sum_list (map (length \<circ> mf_data \<circ> snd) s)"

interpretation memory: byte_store "\<lambda>_. True" "memory_write mx wo now" memory_read memory_delete "(=)" for mx wo now
  by unfold_locales (auto simp: memory_write_def memory_read_def memory_delete_def memory_metadata_def Let_def AList.delete_conv' split: if_splits)


section \<open>On the local disk\<close>

fun split_path :: "string \<Rightarrow> string \<Rightarrow> string list" where
  "split_path w [] = [w]"
| "split_path w (c # cs) = (if c = CHR ''/'' then w # split_path [] cs else split_path (w @ [c]) cs)"

text \<open>The components as \<open>pathlib\<close> sees them.\<close>

definition components :: "string \<Rightarrow> string list" where
  "components p = filter (\<lambda>x. x \<noteq> [] \<and> x \<noteq> ''.'') (split_path [] p)"

definition validate_path :: "string \<Rightarrow> fs_error option" where
  "validate_path p = (if p = [] then Some Empty_Path else if ''..'' \<in> set (components p) then Some Dotted_Path else None)"

text \<open>The base directory joined with the path; an absolute path replaces it and must lie under it.  Exactly two leading
  slashes are another root.\<close>

definition resolve_path :: "string list \<Rightarrow> string \<Rightarrow> fs_error + string list" where
  "resolve_path base p =
     (if take 1 p \<noteq> ''/'' then Inr (components p)
      else if take 2 p = ''//'' \<and> take 3 p \<noteq> ''///'' then Inl Traversal
      else if prefix base (components p) then Inr (drop (length base) (components p)) else Inl Traversal)"

definition locate :: "string list \<Rightarrow> string \<Rightarrow> fs_error + string list" where
  "locate base p = (case validate_path p of Some e \<Rightarrow> Inl e | None \<Rightarrow> resolve_path base p)"

datatype content = Bytes string | Sidecar string "(string \<times> string) list"

datatype node = File content time | Dir

text \<open>Paths are relative to the base directory, which is the empty path and can itself be missing; a write to the base directory
  itself is refused also then.\<close>

type_synonym disk = "(string list \<times> node) list"

record sidecars =
  json_text :: "string \<Rightarrow> (string \<times> string) list \<Rightarrow> string"
  json_read :: "string \<Rightarrow> (string \<times> (string \<times> string) list) option"

definition bytes_of :: "sidecars \<Rightarrow> content \<Rightarrow> string" where
  "bytes_of w c = (case c of Bytes b \<Rightarrow> b | Sidecar t m \<Rightarrow> json_text w t m)"

definition sidecar_suffix :: string where
  "sidecar_suffix = ''.meta.json''"

definition sidecar_of :: "string list \<Rightarrow> string list" where
  "sidecar_of q = butlast q @ [last q @ sidecar_suffix]"

definition write_sidecar :: "time \<Rightarrow> string list \<Rightarrow> string \<Rightarrow> (string \<times> string) list \<Rightarrow> disk \<Rightarrow> disk" where
  "write_sidecar now q t m d =
     (if map_of d (sidecar_of q) = Some Dir then d else AList.update (sidecar_of q) (File (Sidecar t m) now) d)"

definition read_sidecar :: "sidecars \<Rightarrow> string list \<Rightarrow> disk \<Rightarrow> (string \<times> (string \<times> string) list) option" where
  "read_sidecar w q d =
     (case map_of d (sidecar_of q) of
        Some (File (Sidecar t m) _) \<Rightarrow> Some (t, m)
      | Some (File (Bytes b) _) \<Rightarrow> json_read w b
      | _ \<Rightarrow> None)"

text \<open>Both times of a file are those of the last write: the creation time is read from \<open>st_ctime\<close>.\<close>

definition local_metadata :: "sidecars \<Rightarrow> string list \<Rightarrow> string \<Rightarrow> string \<Rightarrow> time \<Rightarrow> disk \<Rightarrow> metadata" where
  "local_metadata w q p b t d =
     (let (ct, m) = (case read_sidecar w q d of None \<Rightarrow> (''application/octet-stream'', []) | Some x \<Rightarrow> x)
      in \<lparr>md_path = p, md_size = length b, md_type = ct, md_created = t, md_modified = t, md_extra = m\<rparr>)"

text \<open>\<open>mkdir(parents=True, exist_ok=True)\<close>: fails when an ancestor is a file, and else adds those that are missing.\<close>

definition ancestors :: "string list \<Rightarrow> string list list" where
  "ancestors q = map (\<lambda>n. take n q) [0..<length q]"

definition make_dir :: "string list \<Rightarrow> disk \<Rightarrow> disk" where
  "make_dir a d = (if map_of d a = None then AList.update a Dir d else d)"

definition make_parents :: "string list \<Rightarrow> disk \<Rightarrow> disk option" where
  "make_parents q d =
     (if \<exists>a \<in> set (ancestors q). map_of d a \<noteq> None \<and> map_of d a \<noteq> Some Dir then None else Some (fold make_dir (ancestors q) d))"

definition local_write :: "string list \<Rightarrow> sidecars \<Rightarrow> write_options \<Rightarrow> time \<Rightarrow> string \<Rightarrow> string \<Rightarrow> disk \<Rightarrow> (fs_error + metadata) \<times> disk" where
  "local_write base w wo now p b d =
     (case locate base p of
        Inl e \<Rightarrow> (Inl e, d)
      | Inr q \<Rightarrow>
          if map_of d q \<noteq> None \<and> \<not> wo_overwrite wo then (Inl Already_Exists, d)
          else (case make_parents q d of
              None \<Rightarrow> (Inl OS_Error, d)
            | Some d1 \<Rightarrow>
                if q = [] \<or> map_of d1 q = Some Dir then (Inl Failed, d1)
                else let d2 = write_sidecar now q (wo_type wo) (wo_meta wo) (AList.update q (File (Bytes b) now) d1)
                     in (Inr (local_metadata w q p b now d2), d2)))"

definition local_read :: "string list \<Rightarrow> sidecars \<Rightarrow> string \<Rightarrow> disk \<Rightarrow> fs_error + string" where
  "local_read base w p d =
     (case locate base p of
        Inl e \<Rightarrow> Inl e
      | Inr q \<Rightarrow> (case map_of d q of None \<Rightarrow> Inl No_File | Some Dir \<Rightarrow> Inl Is_Directory | Some (File c _) \<Rightarrow> Inr (bytes_of w c)))"

definition local_delete :: "string list \<Rightarrow> string \<Rightarrow> disk \<Rightarrow> (fs_error + bool) \<times> disk" where
  "local_delete base p d =
     (case locate base p of
        Inl e \<Rightarrow> (Inl e, d)
      | Inr q \<Rightarrow>
          (case map_of d q of
             None \<Rightarrow> (Inr False, d)
           | Some x \<Rightarrow>
               let d1 = (case x of Dir \<Rightarrow> filter (\<lambda>(a, _). \<not> prefix q a) d | File _ _ \<Rightarrow> AList.delete q d)
               in if q \<noteq> [] \<and> map_of d1 (sidecar_of q) = Some Dir then (Inl Failed, d1)
                  else (Inr True, if q = [] then d1 else AList.delete (sidecar_of q) d1)))"

definition local_exists :: "string list \<Rightarrow> string \<Rightarrow> disk \<Rightarrow> fs_error + bool" where
  "local_exists base p d = (case locate base p of Inl e \<Rightarrow> Inl e | Inr q \<Rightarrow> Inr (map_of d q \<noteq> None))"

fun slash_join :: "string list \<Rightarrow> string" where
  "slash_join [] = ''.''"
| "slash_join [x] = x"
| "slash_join (x # xs) = x @ ''/'' @ slash_join xs"

definition listed :: "string list \<Rightarrow> string list \<Rightarrow> bool" where
  "listed dir q \<longleftrightarrow> strict_prefix dir q \<and> \<not> suffix sidecar_suffix (last q) \<and> \<not> prefix ''.tmp_file_'' (last q)"

definition local_list :: "string list \<Rightarrow> sidecars \<Rightarrow> string \<Rightarrow> disk \<Rightarrow> fs_error + metadata list" where
  "local_list base w pre d =
     (case (if pre = [] then Inr [] else locate base pre) of
        Inl e \<Rightarrow> Inl e
      | Inr dir \<Rightarrow>
          Inr (if map_of d dir \<noteq> Some Dir then []
               else sort_key md_path (concat (map (\<lambda>(q, x). case x of
                   File c t \<Rightarrow> if listed dir q then [local_metadata w q (slash_join q) (bytes_of w c) t d] else []
                 | Dir \<Rightarrow> []) d))))"

definition local_get_url :: "string list \<Rightarrow> string \<Rightarrow> disk \<Rightarrow> fs_error + string list" where
  "local_get_url base p d =
     (case locate base p of Inl e \<Rightarrow> Inl e | Inr q \<Rightarrow> if map_of d q = None then Inl No_File else Inr (base @ q))"

text \<open>\<open>None\<close> stands for the data of a directory.\<close>

definition local_get_metadata :: "string list \<Rightarrow> sidecars \<Rightarrow> string \<Rightarrow> disk \<Rightarrow> fs_error + metadata option" where
  "local_get_metadata base w p d =
     (case locate base p of
        Inl e \<Rightarrow> Inl e
      | Inr q \<Rightarrow> (case map_of d q of
            None \<Rightarrow> Inl No_File
          | Some Dir \<Rightarrow> Inr None
          | Some (File c t) \<Rightarrow> Inr (Some (local_metadata w q p (bytes_of w c) t d))))"

text \<open>\<open>write_stream\<close>: the chunks go to a temporary file, which is renamed when the stream has ended, and removed when it raises.\<close>

definition local_write_stream :: "string list \<Rightarrow> sidecars \<Rightarrow> write_options \<Rightarrow> time \<Rightarrow> string \<Rightarrow> string list \<Rightarrow> bool \<Rightarrow> disk \<Rightarrow> (fs_error + metadata) \<times> disk" where
  "local_write_stream base w wo now p cs raises d =
     (case locate base p of
        Inl e \<Rightarrow> (Inl e, d)
      | Inr q \<Rightarrow>
          if map_of d q \<noteq> None \<and> \<not> wo_overwrite wo then (Inl Already_Exists, d)
          else (case make_parents q d of
              None \<Rightarrow> (Inl OS_Error, d)
            | Some d1 \<Rightarrow>
                if raises then (Inl Stream_Raised, d1)
                else if q = [] \<or> map_of d1 q = Some Dir then (Inl Failed, d1)
                else let d2 = write_sidecar now q (wo_type wo) (wo_meta wo) (AList.update q (File (Bytes (concat cs)) now) d1)
                     in (Inr (local_metadata w q p (concat cs) now d2), d2)))"

text \<open>Reading in chunks: \<open>read(n)\<close> of a negative number gives the whole rest, \<open>read(0)\<close> nothing.\<close>

definition local_read_stream :: "string list \<Rightarrow> sidecars \<Rightarrow> string \<Rightarrow> int \<Rightarrow> disk \<Rightarrow> fs_error + string list" where
  "local_read_stream base w p n d =
     (case locate base p of
        Inl e \<Rightarrow> Inl e
      | Inr q \<Rightarrow> (case map_of d q of
            None \<Rightarrow> Inl No_File
          | Some Dir \<Rightarrow> Inl Failed
          | Some (File c _) \<Rightarrow> Inr (if n < 0 then filter (\<lambda>x. x \<noteq> []) [bytes_of w c] else chunks (nat n) (bytes_of w c))))"


section \<open>The disk stays a tree\<close>

definition disk_ok :: "disk \<Rightarrow> bool" where
  "disk_ok d \<longleftrightarrow> dict_ok d \<and> (\<forall>q a. map_of d q \<noteq> None \<longrightarrow> strict_prefix a q \<longrightarrow> map_of d a = Some Dir)"

lemma ancestors_mem: "a \<in> set (ancestors q) \<longleftrightarrow> strict_prefix a q"
proof
  assume "strict_prefix a q"
  then obtain r where r: "q = a @ r" "r \<noteq> []" by (auto simp: strict_prefix_def prefix_def)
  hence "a = take (length a) q" "length a < length q" by simp_all
  thus "a \<in> set (ancestors q)" unfolding ancestors_def by (metis atLeastLessThan_iff image_eqI set_map set_upt zero_le)
next
  assume "a \<in> set (ancestors q)"
  then obtain n where n: "a = take n q" "n < length q" by (auto simp: ancestors_def)
  hence "a \<noteq> q" by (metis length_take min.absorb4 nat_neq_iff)
  thus "strict_prefix a q" using n(1) by (simp add: strict_prefix_def take_is_prefix)
qed

lemma map_of_make_dir: "map_of (make_dir a d) q = (if q = a \<and> map_of d a = None then Some Dir else map_of d q)"
  by (simp add: make_dir_def)

lemma map_of_make_dirs:
  "map_of (fold make_dir as d) q = (if q \<in> set as \<and> map_of d q = None then Some Dir else map_of d q)"
  by (induction as arbitrary: d) (auto simp: map_of_make_dir)

lemma make_dirs_id: "\<forall>a \<in> set as. map_of d a \<noteq> None \<Longrightarrow> fold make_dir as d = d"
  by (induction as) (auto simp: make_dir_def)

lemma dict_ok_make_dirs: "dict_ok d \<Longrightarrow> dict_ok (fold make_dir as d)"
  by (induction as arbitrary: d) (auto simp: make_dir_def)

lemma strict_prefix_trans': "strict_prefix a b \<Longrightarrow> strict_prefix b c \<Longrightarrow> strict_prefix a c"
  by (metis prefix_order.less_trans)

lemma make_parents_Some:
  assumes "make_parents q d = Some d'"
  shows "map_of d' a = (if strict_prefix a q then Some Dir else map_of d a)"
proof -
  have "d' = fold make_dir (ancestors q) d" "\<forall>a. strict_prefix a q \<longrightarrow> map_of d a = None \<or> map_of d a = Some Dir"
    using assms by (auto simp: make_parents_def ancestors_mem split: if_splits)
  thus ?thesis by (auto simp: map_of_make_dirs ancestors_mem)
qed

lemma make_parents_ok: "make_parents q d = Some d' \<Longrightarrow> disk_ok d \<Longrightarrow> disk_ok d'"
  using make_parents_Some [of q d d']
  by (auto simp: disk_ok_def make_parents_def dict_ok_make_dirs split: if_splits dest: strict_prefix_trans')

lemma make_parents_id: "disk_ok d \<Longrightarrow> map_of d q \<noteq> None \<Longrightarrow> make_parents q d = Some d"
  using make_dirs_id [of "ancestors q" d] by (auto simp: make_parents_def disk_ok_def ancestors_mem)

lemma strict_prefix_sidecar: "q \<noteq> [] \<Longrightarrow> strict_prefix a (sidecar_of q) \<longleftrightarrow> strict_prefix a q"
  by (cases q rule: rev_cases) (auto simp: sidecar_of_def strict_prefix_def prefix_snoc)

lemma sidecar_neq: "q \<noteq> [] \<Longrightarrow> sidecar_of q \<noteq> q"
  by (cases q rule: rev_cases) (simp_all add: sidecar_of_def sidecar_suffix_def)

lemma disk_ok_put:
  assumes "disk_ok d" "map_of d q \<noteq> Some Dir" "\<forall>a. strict_prefix a q \<longrightarrow> map_of d a = Some Dir"
  shows "disk_ok (AList.update q (File c t) d)"
  using assms by (auto simp: disk_ok_def split: if_splits)

lemma disk_ok_delete_file:
  assumes "disk_ok d" "map_of d q \<noteq> Some Dir"
  shows "disk_ok (AList.delete q d)"
  using assms by (auto simp: disk_ok_def AList.delete_conv' split: if_splits)

lemma map_of_filter_prefix: "map_of (filter (\<lambda>(a, _). \<not> prefix q a) d) a = (if prefix q a then None else map_of d a)"
  by (induction d) auto

lemma disk_ok_delete_dir: "disk_ok d \<Longrightarrow> disk_ok (filter (\<lambda>(a, _). \<not> prefix q a) d)"
  unfolding disk_ok_def
  by (auto simp: map_of_filter_prefix dict_ok_def distinct_map_filter split: if_splits
      dest: prefix_order.order_trans [OF _ prefix_order.less_imp_le])

lemma write_sidecar_lookup:
  "map_of (write_sidecar now q t m d) a = (if a = sidecar_of q \<and> map_of d a \<noteq> Some Dir then Some (File (Sidecar t m) now) else map_of d a)"
  by (simp add: write_sidecar_def)

lemma write_sidecar_ok:
  assumes "disk_ok d" "q \<noteq> []" "\<forall>a. strict_prefix a q \<longrightarrow> map_of d a = Some Dir"
  shows "disk_ok (write_sidecar now q t m d)"
  using disk_ok_put [of d "sidecar_of q"] assms by (simp add: write_sidecar_def strict_prefix_sidecar)

text \<open>A write refuses, or stores the file with its sidecar and the missing directories.\<close>

lemma local_write_cases:
  obtains (refused) e where "local_write base w wo now p b d = (Inl e, d)"
  | (blocked) q d1 where "locate base p = Inr q" "make_parents q d = Some d1" "q = [] \<or> map_of d1 q = Some Dir"
      "local_write base w wo now p b d = (Inl Failed, d1)"
  | (written) q d1 d2 where "locate base p = Inr q" "make_parents q d = Some d1" "q \<noteq> []" "map_of d1 q \<noteq> Some Dir"
      "map_of d q = None \<or> wo_overwrite wo"
      "d2 = write_sidecar now q (wo_type wo) (wo_meta wo) (AList.update q (File (Bytes b) now) d1)"
      "local_write base w wo now p b d = (Inr (local_metadata w q p b now d2), d2)"
proof (cases "locate base p")
  case (Inl e)
  thus ?thesis using refused by (simp add: local_write_def)
next
  case q: (Inr q)
  consider "map_of d q \<noteq> None \<and> \<not> wo_overwrite wo" | "map_of d q = None \<or> wo_overwrite wo" "make_parents q d = None"
    | d1 where "map_of d q = None \<or> wo_overwrite wo" "make_parents q d = Some d1" by fastforce
  thus ?thesis
  proof cases
    case 1
    thus ?thesis using refused q by (simp add: local_write_def)
  next
    case 2
    thus ?thesis using refused q by (auto simp: local_write_def)
  next
    case 3
    show ?thesis
    proof (cases "q = [] \<or> map_of d1 q = Some Dir")
      case True
      thus ?thesis using blocked [OF q 3(2)] q 3 by (auto simp: local_write_def)
    next
      case False
      thus ?thesis using written [OF q 3(2) _ _ 3(1)] q 3 by (auto simp: local_write_def Let_def)
    qed
  qed
qed

lemma local_write_ok:
  assumes "disk_ok d"
  shows "disk_ok (snd (local_write base w wo now p b d))"
proof (cases rule: local_write_cases [of base w wo now p b d])
  case (written q d1 d2)
  have "disk_ok d1" by (rule make_parents_ok [OF written(2) assms])
  moreover have a: "\<forall>a. strict_prefix a q \<longrightarrow> map_of d1 a = Some Dir" using make_parents_Some [OF written(2)] by simp
  ultimately have "disk_ok (AList.update q (File (Bytes b) now) d1)" using written(4) by (intro disk_ok_put)
  moreover have "\<forall>a. strict_prefix a q \<longrightarrow> map_of (AList.update q (File (Bytes b) now) d1) a = Some Dir" using a by auto
  ultimately show ?thesis using written by (simp add: write_sidecar_ok)
qed (use assms make_parents_ok in auto)

definition touched :: "string list \<Rightarrow> string \<Rightarrow> string \<Rightarrow> bool" where
  "touched base p p' \<longleftrightarrow>
     (case (locate base p, locate base p') of
        (Inr q, Inr q') \<Rightarrow> q' = q \<or> q' = sidecar_of q \<or> strict_prefix q' q
      | _ \<Rightarrow> False)"

lemma local_write_other:
  assumes "local_write base w wo now p b d = (r, d')" "locate base p = Inr q" "a \<noteq> q" "a \<noteq> sidecar_of q" "\<not> strict_prefix a q"
  shows "map_of d' a = map_of d a"
  using assms
  by (cases rule: local_write_cases [of base w wo now p b d]) (auto simp: write_sidecar_lookup make_parents_Some)

lemma local_delete_cases:
  obtains (refused) e where "local_delete base p d = (Inl e, d)"
  | (absent) q where "locate base p = Inr q" "map_of d q = None" "local_delete base p d = (Inr False, d)"
  | (half) q d1 where "locate base p = Inr q" "disk_ok d \<longrightarrow> disk_ok d1" "local_delete base p d = (Inl Failed, d1)"
  | (deleted) q d1 d2 where "locate base p = Inr q" "map_of d1 q = None" "disk_ok d \<longrightarrow> disk_ok d1"
      "d2 = d1 \<or> map_of d1 (sidecar_of q) \<noteq> Some Dir \<and> d2 = AList.delete (sidecar_of q) d1" "local_delete base p d = (Inr True, d2)"
proof (cases "locate base p")
  case (Inl e)
  thus ?thesis using refused by (simp add: local_delete_def)
next
  case q: (Inr q)
  show ?thesis
  proof (cases "map_of d q")
    case None
    thus ?thesis using absent q by (simp add: local_delete_def)
  next
    case (Some x)
    define d1 where "d1 = (case x of Dir \<Rightarrow> filter (\<lambda>(a, _). \<not> prefix q a) d | File _ _ \<Rightarrow> AList.delete q d)"
    have "map_of d1 q = None" by (simp add: d1_def map_of_filter_prefix AList.delete_conv' split: node.split)
    moreover have "disk_ok d \<longrightarrow> disk_ok d1"
      using Some disk_ok_delete_file [of d q] disk_ok_delete_dir [of d q] by (simp add: d1_def split: node.split)
    moreover have "local_delete base p d = (if q \<noteq> [] \<and> map_of d1 (sidecar_of q) = Some Dir then (Inl Failed, d1)
        else (Inr True, if q = [] then d1 else AList.delete (sidecar_of q) d1))"
      using q Some by (simp add: local_delete_def d1_def Let_def)
    ultimately show ?thesis using half [OF q, of d1] deleted [OF q, of d1] by (auto split: if_splits)
  qed
qed

interpretation local: byte_store disk_ok "local_write base w wo now" "local_read base w" "local_delete base" "touched base" for base w wo now
proof (unfold_locales, goal_cases)
  case (1 s p d)
  thus ?case by (rule local_write_ok)
next
  case (2 s p)
  thus ?case by (cases rule: local_delete_cases [of base p s]) (auto simp: disk_ok_delete_file)
next
  case (3 p d s m s')
  thus ?case
    by (cases rule: local_write_cases [of base w wo now p d s])
      (auto simp: local_read_def write_sidecar_lookup sidecar_neq [symmetric] bytes_of_def local_metadata_def Let_def split: option.split)
next
  case (4 p d s r s' q)
  show ?case
  proof (cases "locate base q")
    case q: (Inr a)
    show ?thesis
    proof (cases "locate base p")
      case (Inl e)
      thus ?thesis using 4(1) by (simp add: local_write_def)
    next
      case (Inr b)
      thus ?thesis using local_write_other [OF 4(1) Inr] 4(2) q by (simp add: touched_def local_read_def)
    qed
  qed (simp add: local_read_def)
next
  case (5 s p d e s')
  thus ?case
  proof (cases rule: local_write_cases [of base w wo now p d s])
    case (blocked q d1)
    have "d1 = s"
    proof (cases "q = []")
      case True
      thus ?thesis using blocked(2) by (simp add: make_parents_def ancestors_def)
    next
      case False
      hence "map_of s q \<noteq> None" using blocked(3) make_parents_Some [OF blocked(2), of q] by auto
      thus ?thesis using make_parents_id [OF 5(1)] blocked(2) by simp
    qed
    thus ?thesis using blocked 5(2) by simp
  qed auto
next
  case (6 p s b s')
  thus ?case
    by (cases rule: local_delete_cases [of base p s]) (auto simp: local_read_def AList.delete_conv')
qed


section \<open>The two stores agree on plain names\<close>

text \<open>A plain name has no slash, is not a dot name and does not end like a sidecar.\<close>

definition plain :: "string \<Rightarrow> bool" where
  "plain p \<longleftrightarrow> p \<noteq> [] \<and> CHR ''/'' \<notin> set p \<and> p \<noteq> ''.'' \<and> p \<noteq> ''..'' \<and> \<not> suffix sidecar_suffix p"

lemma split_path_plain: "CHR ''/'' \<notin> set p \<Longrightarrow> split_path w p = [w @ p]"
  by (induction w p rule: split_path.induct) auto

lemma locate_plain: "plain p \<Longrightarrow> locate base p = Inr [p]"
  by (cases p) (auto simp: plain_def locate_def validate_path_def resolve_path_def components_def split_path_plain)

lemma sidecar_plain: "sidecar_of [p] = [p @ sidecar_suffix]"
  by (simp add: sidecar_of_def)

lemma plain_not_sidecar: "plain p \<Longrightarrow> p \<noteq> p' @ sidecar_suffix"
  by (auto simp: plain_def suffix_def)

text \<open>The abstraction: a plain name maps to the same bytes, type, user data and time in both stores.\<close>

definition same_file :: "memory_file \<Rightarrow> string \<Rightarrow> disk \<Rightarrow> bool" where
  "same_file f p d \<longleftrightarrow> map_of d [p] = Some (File (Bytes (mf_data f)) (mf_modified f)) \<and>
     (\<exists>t. map_of d [p @ sidecar_suffix] = Some (File (Sidecar (mf_type f) (mf_meta f)) t))"

definition agree :: "memory_store \<Rightarrow> disk \<Rightarrow> bool" where
  "agree m d \<longleftrightarrow> map_of d [] = Some Dir \<and>
     (\<forall>p. plain p \<longrightarrow> map_of d [p @ sidecar_suffix] \<noteq> Some Dir \<and>
        (case map_of m p of None \<Rightarrow> map_of d [p] = None | Some f \<Rightarrow> same_file f p d))"

datatype file_op = Write write_options time string string | Read string | Delete string | Exists string | Get_Metadata string

datatype file_answer = Written "fs_error + metadata" | Data "fs_error + string" | Deleted "fs_error + bool" | Found "fs_error + bool"
  | Described "fs_error + metadata option"

fun memory_op :: "file_op \<Rightarrow> memory_store \<Rightarrow> file_answer \<times> memory_store" where
  "memory_op (Write wo now p b) m = (case memory_write 0 wo now p b m of (r, m') \<Rightarrow> (Written r, m'))"
| "memory_op (Read p) m = (Data (memory_read p m), m)"
| "memory_op (Delete p) m = (case memory_delete p m of (r, m') \<Rightarrow> (Deleted r, m'))"
| "memory_op (Exists p) m = (Found (memory_exists p m), m)"
| "memory_op (Get_Metadata p) m = (Described (map_sum id Some (memory_get_metadata p m)), m)"

fun local_op :: "string list \<Rightarrow> sidecars \<Rightarrow> file_op \<Rightarrow> disk \<Rightarrow> file_answer \<times> disk" where
  "local_op base w (Write wo now p b) d = (case local_write base w wo now p b d of (r, d') \<Rightarrow> (Written r, d'))"
| "local_op base w (Read p) d = (Data (local_read base w p d), d)"
| "local_op base w (Delete p) d = (case local_delete base p d of (r, d') \<Rightarrow> (Deleted r, d'))"
| "local_op base w (Exists p) d = (Found (local_exists base p d), d)"
| "local_op base w (Get_Metadata p) d = (Described (local_get_metadata base w p d), d)"

fun run_ops :: "('op \<Rightarrow> 's \<Rightarrow> 'a \<times> 's) \<Rightarrow> 'op list \<Rightarrow> 's \<Rightarrow> 'a list \<times> 's" where
  "run_ops f [] s = ([], s)"
| "run_ops f (x # xs) s = (case f x s of (a, s') \<Rightarrow> (case run_ops f xs s' of (as, s'') \<Rightarrow> (a # as, s'')))"

fun op_name :: "file_op \<Rightarrow> string" where
  "op_name (Write wo now p b) = p"
| "op_name (Read p) = p"
| "op_name (Delete p) = p"
| "op_name (Exists p) = p"
| "op_name (Get_Metadata p) = p"

text \<open>The answers, but for the creation time, which the store on disk takes from the last change.\<close>

definition without_created :: "metadata \<Rightarrow> metadata" where
  "without_created m = m\<lparr>md_created := 0\<rparr>"

fun forget_created :: "file_answer \<Rightarrow> file_answer" where
  "forget_created (Written r) = Written (map_sum id without_created r)"
| "forget_created (Described r) = Described (map_sum id (map_option without_created) r)"
| "forget_created a = a"

lemma agree_SomeD: "agree m d \<Longrightarrow> plain p \<Longrightarrow> map_of m p = Some f \<Longrightarrow> same_file f p d"
  by (force simp: agree_def split: option.splits)

lemma agree_NoneD: "agree m d \<Longrightarrow> plain p \<Longrightarrow> map_of m p = None \<Longrightarrow> map_of d [p] = None"
  by (force simp: agree_def split: option.splits)

lemma agree_present: "agree m d \<Longrightarrow> plain p \<Longrightarrow> map_of d [p] = None \<longleftrightarrow> map_of m p = None"
  using agree_SomeD [of m d p] agree_NoneD [of m d p] by (cases "map_of m p") (auto simp: same_file_def)

lemma same_file_metadata:
  "same_file f p d \<Longrightarrow> without_created (local_metadata w [p] p (mf_data f) (mf_modified f) d) = without_created (memory_metadata p f)"
  by (auto simp: same_file_def local_metadata_def memory_metadata_def without_created_def read_sidecar_def sidecar_plain)

lemma local_write_plain:
  assumes "agree m d" "plain p" "map_of d [p] = None \<or> wo_overwrite wo"
  shows "local_write base w wo now p b d =
    (let d2 = AList.update [p @ sidecar_suffix] (File (Sidecar (wo_type wo) (wo_meta wo)) now) (AList.update [p] (File (Bytes b) now) d)
     in (Inr (local_metadata w [p] p b now d2), d2))"
proof -
  have "make_parents [p] d = Some d" using assms(1) by (simp add: make_parents_def ancestors_def agree_def make_dir_def)
  moreover have "map_of d [p] \<noteq> Some Dir"
    using assms(1,2) agree_NoneD [of m d p] agree_SomeD [of m d p] by (cases "map_of m p") (auto simp: same_file_def)
  moreover have "map_of d [p @ sidecar_suffix] \<noteq> Some Dir" using assms(1,2) by (simp add: agree_def)
  moreover have "p @ sidecar_suffix \<noteq> p" by (simp add: sidecar_suffix_def)
  ultimately show ?thesis
    using assms(3) by (auto simp: local_write_def locate_plain [OF assms(2)] write_sidecar_def sidecar_plain Let_def)
qed

lemma agree_write:
  assumes "agree m d" "plain p" "mf_data f = b" "mf_type f = t" "mf_meta f = u" "mf_modified f = now"
  shows "agree (AList.update p f m)
    (AList.update [p @ sidecar_suffix] (File (Sidecar t u) now) (AList.update [p] (File (Bytes b) now) d))" (is "agree ?m ?d")
proof -
  have "map_of ?d [q @ sidecar_suffix] \<noteq> Some Dir \<and> (case map_of ?m q of None \<Rightarrow> map_of ?d [q] = None | Some f \<Rightarrow> same_file f q ?d)"
    if "plain q" for q
    using assms that plain_not_sidecar [OF that] plain_not_sidecar [OF assms(2)]
    by (cases "q = p") (auto simp: agree_def same_file_def split: option.splits)
  thus ?thesis using assms(1) by (simp add: agree_def)
qed

lemma agree_delete:
  assumes "agree m d" "plain p"
  shows "agree (AList.delete p m) (AList.delete [p @ sidecar_suffix] (AList.delete [p] d))" (is "agree ?m ?d")
proof -
  have "map_of ?d [q @ sidecar_suffix] \<noteq> Some Dir \<and> (case map_of ?m q of None \<Rightarrow> map_of ?d [q] = None | Some f \<Rightarrow> same_file f q ?d)"
    if "plain q" for q
    using assms that plain_not_sidecar [OF that] plain_not_sidecar [OF assms(2)]
    by (cases "q = p") (auto simp: agree_def same_file_def AList.delete_conv' split: option.splits)
  thus ?thesis using assms(1) by (simp add: agree_def AList.delete_conv')
qed

lemma op_agrees:
  assumes "agree m d" "plain (op_name x)" "memory_op x m = (a, m')" "local_op base w x d = (a', d')"
  shows "forget_created a' = forget_created a \<and> agree m' d'"
proof (cases x)
  case (Write wo now p b)
  hence p: "plain p" "p \<noteq> []" using assms(2) by (auto simp: plain_def)
  show ?thesis
  proof (cases "map_of m p \<noteq> None \<and> \<not> wo_overwrite wo")
    case True
    thus ?thesis using assms Write p agree_present [OF assms(1) p(1)]
      by (auto simp: memory_write_def local_write_def locate_plain)
  next
    case False
    define f where "f = \<lparr>mf_data = b, mf_type = wo_type wo, mf_meta = wo_meta wo,
      mf_created = (case map_of m p of None \<Rightarrow> now | Some old \<Rightarrow> mf_created old), mf_modified = now\<rparr>"
    define d2 where "d2 = AList.update [p @ sidecar_suffix] (File (Sidecar (wo_type wo) (wo_meta wo)) now) (AList.update [p] (File (Bytes b) now) d)"
    have f: "mf_data f = b" "mf_type f = wo_type wo" "mf_meta f = wo_meta wo" "mf_modified f = now" by (simp_all add: f_def)
    have ag: "agree (AList.update p f m) d2" unfolding d2_def by (rule agree_write [OF assms(1) p(1) f])
    have "a = Written (Inr (memory_metadata p f))" "m' = AList.update p f m"
      using assms(3) Write False p(2) by (auto simp: memory_write_def f_def Let_def)
    moreover have "a' = Written (Inr (local_metadata w [p] p b now d2))" "d' = d2"
      using assms(4) Write local_write_plain [OF assms(1) p(1)] agree_present [OF assms(1) p(1)] False by (auto simp: d2_def Let_def)
    moreover have "same_file f p d2" using agree_SomeD [OF ag p(1)] by simp
    ultimately show ?thesis using ag same_file_metadata [of f p d2 w] f by simp
  qed
next
  case (Read p)
  hence p: "plain p" "p \<noteq> []" using assms(2) by (auto simp: plain_def)
  show ?thesis
    using assms Read p agree_SomeD [OF assms(1) p(1)] agree_NoneD [OF assms(1) p(1)]
    by (cases "map_of m p") (auto simp: memory_read_def local_read_def locate_plain same_file_def bytes_of_def)
next
  case (Delete p)
  hence p: "plain p" "p \<noteq> []" using assms(2) by (auto simp: plain_def)
  show ?thesis
  proof (cases "map_of m p")
    case None
    thus ?thesis using assms Delete p agree_NoneD [OF assms(1) p(1) None]
      by (auto simp: memory_delete_def local_delete_def locate_plain)
  next
    case (Some f)
    have d: "map_of d [p] = Some (File (Bytes (mf_data f)) (mf_modified f))" "map_of d [p @ sidecar_suffix] \<noteq> Some Dir"
      using agree_SomeD [OF assms(1) p(1) Some] by (auto simp: same_file_def)
    have "local_delete base p d = (Inr True, AList.delete [p @ sidecar_suffix] (AList.delete [p] d))"
      using d by (simp add: local_delete_def locate_plain [OF p(1)] sidecar_plain AList.delete_conv' Let_def)
    thus ?thesis using assms Delete p Some agree_delete [OF assms(1) p(1)] by (auto simp: memory_delete_def)
  qed
next
  case (Exists p)
  hence p: "plain p" "p \<noteq> []" using assms(2) by (auto simp: plain_def)
  thus ?thesis using assms Exists agree_present [OF assms(1) p(1)] by (auto simp: memory_exists_def local_exists_def locate_plain)
next
  case (Get_Metadata p)
  hence p: "plain p" "p \<noteq> []" using assms(2) by (auto simp: plain_def)
  show ?thesis
  proof (cases "map_of m p")
    case None
    thus ?thesis using assms Get_Metadata p agree_NoneD [OF assms(1) p(1) None]
      by (auto simp: memory_get_metadata_def local_get_metadata_def locate_plain)
  next
    case (Some f)
    have s: "same_file f p d" by (rule agree_SomeD [OF assms(1) p(1) Some])
    thus ?thesis using assms Get_Metadata p Some same_file_metadata [OF s, of w]
      by (auto simp: memory_get_metadata_def local_get_metadata_def locate_plain same_file_def bytes_of_def)
  qed
qed

lemma run_agrees:
  assumes "agree m d" "\<forall>x \<in> set xs. plain (op_name x)"
  shows "map forget_created (fst (run_ops (local_op base w) xs d)) = map forget_created (fst (run_ops memory_op xs m)) \<and>
    agree (snd (run_ops memory_op xs m)) (snd (run_ops (local_op base w) xs d))"
  using assms
proof (induction xs arbitrary: m d)
  case (Cons x xs)
  obtain a m' where m: "memory_op x m = (a, m')" by fastforce
  obtain a' d' where d: "local_op base w x d = (a', d')" by fastforce
  have "forget_created a' = forget_created a \<and> agree m' d'"
    by (rule op_agrees [OF Cons.prems(1) _ m d]) (use Cons.prems(2) in simp)
  thus ?case using Cons.IH [of m' d'] Cons.prems(2) m d by (auto split: prod.splits)
qed simp


section \<open>Streaming under the lock\<close>

text \<open>\<open>write_stream\<close> of the local store awaits the chunks while it holds a \<open>threading.Lock\<close>.  One event loop thread runs all
  coroutines: one of them is streaming with some chunks to come, others wait to call an operation of the store,
  which takes the same lock.  A thread that blocks on the lock runs no other coroutine.\<close>

record event_loop =
  el_streaming :: "nat option"
  el_callers :: nat
  el_blocked :: bool

inductive loop_step :: "event_loop \<Rightarrow> event_loop \<Rightarrow> bool" where
  Open: "\<not> el_blocked s \<Longrightarrow> el_streaming s = None \<Longrightarrow> loop_step s (s\<lparr>el_streaming := Some n\<rparr>)"
| Chunk: "\<not> el_blocked s \<Longrightarrow> el_streaming s = Some (Suc n) \<Longrightarrow> loop_step s (s\<lparr>el_streaming := Some n\<rparr>)"
| Close: "\<not> el_blocked s \<Longrightarrow> el_streaming s = Some 0 \<Longrightarrow> loop_step s (s\<lparr>el_streaming := None\<rparr>)"
| Arrive: "\<not> el_blocked s \<Longrightarrow> loop_step s (s\<lparr>el_callers := Suc (el_callers s)\<rparr>)"
| Call: "\<not> el_blocked s \<Longrightarrow> el_callers s = Suc k \<Longrightarrow> el_streaming s = None \<Longrightarrow> loop_step s (s\<lparr>el_callers := k\<rparr>)"
| Block: "\<not> el_blocked s \<Longrightarrow> el_callers s = Suc k \<Longrightarrow> el_streaming s = Some n \<Longrightarrow> loop_step s (s\<lparr>el_blocked := True\<rparr>)"

inductive_cases loop_stepE: "loop_step s s'"

lemma blocked_stuck: "el_blocked s \<Longrightarrow> \<not> loop_step s s'"
  by (auto elim: loop_stepE)

section \<open>Properties\<close>

definition plain_options :: write_options where
  "plain_options = \<lparr>wo_type = ''text/plain'', wo_overwrite = True, wo_meta = []\<rparr>"

definition test_sidecars :: sidecars where
  "test_sidecars = \<lparr>json_text = \<lambda>t m. t, json_read = \<lambda>b. None\<rparr>"



lemma local_stream_round_trip_parts:
  assumes "n > 0" "base_write_stream (local_write base w wo now) p cs d = (Inr m, d')"
  shows "\<exists>out. local_read_stream base w p n d' = Inr out \<and> concat out = concat cs \<and> (\<forall>c \<in> set out. c \<noteq> [] \<and> length c \<le> nat n)"
    "local_write_stream base w wo now p cs False d = (Inr m, d')"
proof -
  obtain out where out: "base_read_stream (\<lambda>p. local_read base w p d') p n = Inr out" "concat out = concat cs"
      "\<forall>c \<in> set out. c \<noteq> [] \<and> length c \<le> nat n"
    by (rule local.stream_round_trip [OF assms(2,1)])
  moreover have "local_read_stream base w p n d' = Inr out"
    using out(1) assms(1) by (auto simp: base_read_stream_def local_read_def local_read_stream_def split: sum.splits option.splits node.splits)
  ultimately show "\<exists>out. local_read_stream base w p n d' = Inr out \<and> concat out = concat cs \<and> (\<forall>c \<in> set out. c \<noteq> [] \<and> length c \<le> nat n)"
    by blast
  show "local_write_stream base w wo now p cs False d = (Inr m, d')"
    using assms(2) unfolding base_write_stream_def local_write_stream_def if_False local_write_def .
qed

text \<open>What is streamed into a store is streamed out of it again in chunks of the size asked for, none of them empty, on disk
  as well as in memory; and the methods of the local store do what the default methods of the interface do.\<close>

theorem local_stream_round_trip:
  assumes "n > 0" "base_write_stream (local_write base w wo now) p cs d = (Inr m, d')"
  shows "(\<exists>out. local_read_stream base w p n d' = Inr out \<and> concat out = concat cs \<and> (\<forall>c \<in> set out. c \<noteq> [] \<and> length c \<le> nat n)) \<and>
     (local_write_stream base w wo now p cs False d = (Inr m, d'))"
  using local_stream_round_trip_parts [OF assms] by blast

theorem local_stream_round_trip_witness:
  "\<exists>out. local_read_stream [] test_sidecars ''a'' 2
     (snd (base_write_stream (local_write [] test_sidecars plain_options 1) ''a'' [''abc'', [], ''de''] [([], Dir)])) = Inr out \<and>
     concat out = ''abcde''"
proof -
  have "\<not> isl (fst (base_write_stream (local_write [] test_sidecars plain_options 1) ''a'' [''abc'', [], ''de''] [([], Dir)]))"
    by code_simp
  then obtain m d' where 1: "base_write_stream (local_write [] test_sidecars plain_options 1) ''a'' [''abc'', [], ''de''] [([], Dir)] = (Inr m, d')"
    by (metis isl_def old.sum.exhaust prod.collapse)
  show ?thesis using local_stream_round_trip [OF _ 1, of 2] unfolding 1 by auto
qed

text \<open>While one coroutine streams into the local store, the first other call of the store blocks the event loop for ever.\<close>

theorem streaming_deadlocks:
  assumes "el_streaming s = Some n" "el_callers s > 0" "\<not> el_blocked s"
  shows "\<exists>s'. loop_step s s' \<and> el_streaming s' = Some n \<and> (\<forall>t. loop_step\<^sup>*\<^sup>* s' t \<longrightarrow> t = s')"
proof -
  obtain k where "el_callers s = Suc k" using assms(2) by (cases "el_callers s") auto
  hence "loop_step s (s\<lparr>el_blocked := True\<rparr>)" using assms by (intro Block)
  moreover have "t = s\<lparr>el_blocked := True\<rparr>" if "loop_step\<^sup>*\<^sup>* (s\<lparr>el_blocked := True\<rparr>) t" for t
    using that by (cases rule: converse_rtranclpE) (use blocked_stuck [of "s\<lparr>el_blocked := True\<rparr>"] in auto)
  ultimately show ?thesis using assms(1) by auto
qed

text \<open>The sidecar of one file can be another file of the user: writing the first replaces the second by metadata, and
  deleting the first deletes the second.\<close>

theorem sidecar_overwrites_file:
  assumes "local_write base w wo now p b d = (Inr m, d')" "locate base p = Inr q" "locate base p' = Inr (sidecar_of q)"
    "map_of d (sidecar_of q) \<noteq> Some Dir"
  shows "local_read base w p' d' = Inr (json_text w (wo_type wo) (wo_meta wo))"
    "local_read base w p' (snd (local_delete base p d')) = Inl No_File"
proof -
  show a: "local_read base w p' d' = Inr (json_text w (wo_type wo) (wo_meta wo))"
    using assms
  proof (cases rule: local_write_cases [of base w wo now p b d])
    case (written q1 d1 d2)
    have "\<not> strict_prefix (sidecar_of q) q" using strict_prefix_sidecar [of q "sidecar_of q"] written(1,3) assms(2) by simp
    thus ?thesis using written assms sidecar_neq [of q]
      by (simp add: local_read_def bytes_of_def write_sidecar_lookup make_parents_Some)
  qed auto
  have "map_of d' (sidecar_of q) \<noteq> Some Dir" using a assms(3) by (auto simp: local_read_def)
  moreover have "\<exists>b t. map_of d' q = Some (File b t) \<and> q \<noteq> []"
    using assms by (cases rule: local_write_cases [of base w wo now p b d]) (auto simp: write_sidecar_lookup sidecar_neq [symmetric])
  ultimately show "local_read base w p' (snd (local_delete base p d')) = Inl No_File"
    using assms(2,3) by (auto simp: local_delete_def local_read_def AList.delete_conv' Let_def)
qed

theorem sidecar_overwrites_file_witness:
  "local_read [] test_sidecars ''a.meta.json'' (snd (local_write [] test_sidecars plain_options 2 ''a'' ''x''
     [([], Dir), ([''a.meta.json''], File (Bytes ''mine'') 1)])) = Inr ''text/plain''"
proof -
  let ?d = "[([], Dir), ([''a.meta.json''], File (Bytes ''mine'') 1)]"
  have "\<not> isl (fst (local_write [] test_sidecars plain_options 2 ''a'' ''x'' ?d))" by code_simp
  then obtain m d' where 1: "local_write [] test_sidecars plain_options 2 ''a'' ''x'' ?d = (Inr m, d')"
    by (metis isl_def old.sum.exhaust prod.collapse)
  have 2: "locate [] ''a'' = Inr [''a'']" "locate [] ''a.meta.json'' = Inr (sidecar_of [''a''])" "map_of ?d (sidecar_of [''a'']) \<noteq> Some Dir"
    by code_simp+
  show ?thesis using sidecar_overwrites_file(1) [OF 1 2] unfolding 1 by (simp add: test_sidecars_def plain_options_def)
qed

text \<open>The path of a single dot is accepted, and deleting it deletes all files of the store.\<close>

theorem delete_dot_wipes_store:
  assumes "map_of d [] = Some Dir"
  shows "local_delete base ''.'' d = (Inr True, [])"
proof -
  have "locate base ''.'' = Inr []" by (simp add: locate_def validate_path_def resolve_path_def components_def)
  moreover have "filter (\<lambda>(a, _). \<not> prefix [] a) d = []" by (induction d) auto
  ultimately show ?thesis using assms by (simp add: local_delete_def Let_def)
qed

text \<open>The prefix of a listing means different things: a prefix of the path in memory, a directory on the disk.\<close>

theorem list_prefix_differs:
  "map md_path (memory_list ''rep'' (snd (memory_write 0 plain_options 1 ''report.txt'' ''x'' []))) = [''report.txt'']"
  "map_sum id (map md_path) (local_list base test_sidecars ''rep'' (snd (local_write base test_sidecars plain_options 1 ''report.txt'' ''x'' [([], Dir)]))) = Inr []"
proof -
  show "map md_path (memory_list ''rep'' (snd (memory_write 0 plain_options 1 ''report.txt'' ''x'' []))) = [''report.txt'']" by code_simp
  have p: "plain ''report.txt''" "plain ''rep''" by code_simp+
  have "agree [] [([], Dir)]" by (simp add: agree_def)
  from local_write_plain [OF this p(1), of plain_options base test_sidecars 1 "''x''"]
  show "map_sum id (map md_path) (local_list base test_sidecars ''rep''
      (snd (local_write base test_sidecars plain_options 1 ''report.txt'' ''x'' [([], Dir)]))) = Inr []"
    using locate_plain [OF p(2), of base] by (simp add: Let_def local_list_def sidecar_suffix_def)
qed

text \<open>A path that goes through a file is stored in memory, on the disk it raises an error that is no \<open>FileStoreError\<close>.\<close>

theorem path_through_file:
  "\<not> isl (fst (memory_write 0 plain_options 2 ''a/b'' ''y'' (snd (memory_write 0 plain_options 1 ''a'' ''x'' []))))"
  "fst (local_write [] test_sidecars plain_options 2 ''a/b'' ''y'' (snd (local_write [] test_sidecars plain_options 1 ''a'' ''x'' [([], Dir)]))) = Inl OS_Error"
  by code_simp+

end
