(* ===== verification/Cron.thy ===== *)
theory Cron
  imports Py_Text "HOL-Library.List_Lexorder" "HOL-Library.Char_ord"
begin

text \<open>
  The cron scheduler (\<open>cron.py\<close>).  The jobs live in a dict of each process; the YAML file is \<open>Missing\<close>, cannot be
  read, or holds what the last writer dumped, with its keys sorted.  The clock is a number, and one tick of the
  scheduler reads one time.  What croniter answers for an expression, whether it and PyYAML are installed, what an
  agent answers to a prompt and which deliveries raise are parameters.
\<close>

section \<open>Jobs\<close>

record job =
  cj_name :: string
  cj_expr :: string
  cj_prompt :: string
  cj_platform :: "string option"
  cj_channel :: "string option"
  cj_targets :: "string list"
  cj_webhook :: "string option"
  cj_secret :: "string option"
  cj_enabled :: bool
  cj_last_run :: time
  cj_next_run :: time
  cj_runs :: nat

type_synonym jobs = "(string \<times> job) list"

text \<open>\<open>ce_next\<close> is \<open>None\<close> when croniter is missing or refuses the expression.\<close>

record cron_env =
  ce_next :: "string \<Rightarrow> time \<Rightarrow> time option"
  ce_yaml :: bool
  ce_secret :: "string option"

definition next_run :: "cron_env \<Rightarrow> time \<Rightarrow> job \<Rightarrow> time" where
  "next_run w now j = (case ce_next w (cj_expr j) now of None \<Rightarrow> now + 3600 | Some t \<Rightarrow> t)"

definition update_next_run :: "cron_env \<Rightarrow> time \<Rightarrow> job \<Rightarrow> job" where
  "update_next_run w now j = j\<lparr>cj_next_run := next_run w now j\<rparr>"

definition is_due :: "time \<Rightarrow> job \<Rightarrow> bool" where
  "is_due now j \<longleftrightarrow> cj_enabled j \<and> now \<ge> cj_next_run j"

text \<open>\<open>split(':', 1)\<close>.\<close>

fun split_colon :: "string \<Rightarrow> (string \<times> string) option" where
  "split_colon [] = None"
| "split_colon (c # cs) = (if c = CHR '':'' then Some ([], cs) else map_option (\<lambda>(a, b). (c # a, b)) (split_colon cs))"

definition all_output_targets :: "job \<Rightarrow> (string \<times> string) list" where
  "all_output_targets j =
     (if truthy (cj_platform j) \<and> truthy (cj_channel j) then [(the (cj_platform j), the (cj_channel j))] else []) @
     List.map_filter split_colon (cj_targets j)"

definition parse_output_target :: "string \<Rightarrow> (string \<times> string) option" where
  "parse_output_target s = map_option (\<lambda>(p, c). (strip p, strip c)) (split_colon s)"

section \<open>The file\<close>

datatype jobs_file = Missing | Unreadable | Saved jobs

definition placeholder :: string where
  "placeholder = ''REDACTED_USE_ENV''"

definition redact_job :: "job \<Rightarrow> job" where
  "redact_job j = (if truthy (cj_secret j) then j\<lparr>cj_secret := Some placeholder\<rparr> else j)"

definition restore_job :: "cron_env \<Rightarrow> job \<Rightarrow> job" where
  "restore_job w j =
     (if cj_secret j = Some placeholder then j\<lparr>cj_secret := Some (case ce_secret w of None \<Rightarrow> [] | Some s \<Rightarrow> s)\<rparr> else j)"

definition save_jobs :: "cron_env \<Rightarrow> jobs \<Rightarrow> jobs_file \<Rightarrow> jobs_file" where
  "save_jobs w js f = (if ce_yaml w then Saved (sort_key fst (map (\<lambda>(i, j). (i, redact_job j)) js)) else f)"

definition load_jobs :: "cron_env \<Rightarrow> jobs_file \<Rightarrow> jobs" where
  "load_jobs w f = (case f of Saved js \<Rightarrow> if ce_yaml w then map (\<lambda>(i, j). (i, restore_job w j)) js else [] | _ \<Rightarrow> [])"

section \<open>The scheduler\<close>

definition new_job :: "string \<Rightarrow> string \<Rightarrow> string \<Rightarrow> string \<Rightarrow> string \<Rightarrow> string list \<Rightarrow> string option \<Rightarrow> string option \<Rightarrow> job" where
  "new_job name expr prompt platform channel targets webhook secret =
     \<lparr>cj_name = name, cj_expr = expr, cj_prompt = prompt, cj_platform = (if platform = [] then None else Some platform),
      cj_channel = (if channel = [] then None else Some channel), cj_targets = targets, cj_webhook = webhook, cj_secret = secret,
      cj_enabled = True, cj_last_run = 0, cj_next_run = 0, cj_runs = 0\<rparr>"

definition add_job :: "cron_env \<Rightarrow> time \<Rightarrow> string \<Rightarrow> job \<Rightarrow> jobs \<times> jobs_file \<Rightarrow> jobs \<times> jobs_file" where
  "add_job w now i j s =
     (let js = AList.update i (update_next_run w now j) (fst s) in (js, save_jobs w js (snd s)))"

definition remove_job :: "cron_env \<Rightarrow> string \<Rightarrow> jobs \<times> jobs_file \<Rightarrow> bool \<times> (jobs \<times> jobs_file)" where
  "remove_job w i s =
     (if map_of (fst s) i = None then (False, s)
      else let js = AList.delete i (fst s) in (True, js, save_jobs w js (snd s)))"

definition trigger_job :: "time \<Rightarrow> string \<Rightarrow> jobs \<Rightarrow> bool \<times> jobs" where
  "trigger_job now i js =
     (case map_of js i of None \<Rightarrow> (False, js) | Some j \<Rightarrow> (True, AList.update i (j\<lparr>cj_next_run := now\<rparr>) js))"

text \<open>The first part of \<open>_run_job\<close>, up to the agent.\<close>

definition start_job :: "cron_env \<Rightarrow> time \<Rightarrow> string \<Rightarrow> jobs \<times> jobs_file \<Rightarrow> jobs \<times> jobs_file" where
  "start_job w now i s =
     (case map_of (fst s) i of
        None \<Rightarrow> s
      | Some j \<Rightarrow>
          let js = AList.update i (update_next_run w now (j\<lparr>cj_last_run := now, cj_runs := cj_runs j + 1\<rparr>)) (fst s)
          in (js, save_jobs w js (snd s)))"

text \<open>One round of \<open>run_forever\<close>: the tasks of the due jobs start before the next round, in order.\<close>

definition due_ids :: "time \<Rightarrow> jobs \<Rightarrow> string list" where
  "due_ids now js = map fst (filter (\<lambda>(i, j). is_due now j) js)"

definition tick :: "cron_env \<Rightarrow> time \<Rightarrow> jobs \<times> jobs_file \<Rightarrow> jobs \<times> jobs_file" where
  "tick w now s = fold (start_job w now) (due_ids now (fst s)) s"

text \<open>Some ticks, and what they started.\<close>

fun ticks :: "cron_env \<Rightarrow> time list \<Rightarrow> jobs \<times> jobs_file \<Rightarrow> string list list" where
  "ticks w [] s = []"
| "ticks w (t # ts) s = due_ids t (fst s) # ticks w ts (tick w t s)"

section \<open>Deliveries\<close>

datatype delivery = Callback | Send string string string | Post string | Handler

record outputs =
  ou_callback :: bool
  ou_handler :: bool
  ou_raises :: "delivery \<Rightarrow> bool"

definition report :: "job \<Rightarrow> string \<Rightarrow> string" where
  "report j result = ''[Cron: '' @ cj_name j @ '']'' @ newline @ take 3000 result"

text \<open>The deliveries attempted when the agent has answered.  An exception of the callback or of the primary target ends them.\<close>

definition has_primary :: "job \<Rightarrow> bool" where
  "has_primary j \<longleftrightarrow> truthy (cj_platform j) \<and> truthy (cj_channel j)"

definition is_primary :: "job \<Rightarrow> string \<times> string \<Rightarrow> bool" where
  "is_primary j t \<longleftrightarrow> Some (fst t) = cj_platform j \<and> Some (snd t) = cj_channel j"

definition secondary :: "outputs \<Rightarrow> job \<Rightarrow> string \<Rightarrow> delivery list" where
  "secondary w j result =
     map (\<lambda>(p, c). Send p c (report j result)) (filter (\<lambda>t. \<not> is_primary j t) (all_output_targets j)) @
     (if truthy (cj_webhook j) then [Post (the (cj_webhook j))] else []) @
     (if ou_handler w then [Handler] else [])"

definition deliver :: "outputs \<Rightarrow> job \<Rightarrow> string \<Rightarrow> delivery list" where
  "deliver w j result =
     (let calls = (if ou_callback w then [Callback] else []);
          primary = (if has_primary j then [Send (the (cj_platform j)) (the (cj_channel j)) (report j result)] else [])
      in if ou_callback w \<and> ou_raises w Callback then calls
         else if \<exists>p \<in> set primary. ou_raises w p then calls @ primary
         else calls @ primary @ secondary w j result)"

definition run_job :: "outputs \<Rightarrow> (string \<Rightarrow> string option) \<Rightarrow> job \<Rightarrow> delivery list" where
  "run_job w agent j = (case agent (cj_prompt j) of None \<Rightarrow> [] | Some result \<Rightarrow> deliver w j result)"

section \<open>The command line\<close>

datatype command =
    List_Jobs
  | Add string string string string "string option" "string option" "string option" "string option"
  | Remove string
  | Trigger string

datatype answer = Listed "string list" | Added | Removed bool | Triggered bool | Bad_Target

definition cli_target :: "string option \<Rightarrow> string option \<Rightarrow> string option \<Rightarrow> (string \<times> string) option" where
  "cli_target out channel target =
     (case (if truthy out then parse_output_target (the out) else Some ([], [])) of
        None \<Rightarrow> None
      | Some (p, c) \<Rightarrow> Some (if truthy channel then the channel else p, if truthy target then the target else c))"

text \<open>Every command runs in a process of its own, with the jobs of the file.\<close>

fun cli :: "cron_env \<Rightarrow> time \<Rightarrow> command \<Rightarrow> jobs_file \<Rightarrow> answer \<times> jobs_file" where
  "cli w now List_Jobs f = (Listed (map fst (load_jobs w f)), f)"
| "cli w now (Add i name expr prompt out channel target hook) f =
     (case cli_target out channel target of
        None \<Rightarrow> (Bad_Target, f)
      | Some (p, c) \<Rightarrow> (Added, snd (add_job w now i (new_job name expr prompt p c [] (if truthy hook then hook else None) None) (load_jobs w f, f))))"
| "cli w now (Remove i) f = (case remove_job w i (load_jobs w f, f) of (b, _, f') \<Rightarrow> (Removed b, f'))"
| "cli w now (Trigger i) f = (Triggered (fst (trigger_job now i (load_jobs w f))), f)"


section \<open>Lemmas\<close>

lemma map_insort_key: "(\<And>x. f (g x) = f x) \<Longrightarrow> map g (insort_key f x xs) = insort_key f (g x) (map g xs)"
  by (induction xs) auto

lemma map_sort_key: "(\<And>x. f (g x) = f x) \<Longrightarrow> map g (sort_key f xs) = sort_key f (map g xs)"
  by (induction xs) (simp_all add: map_insort_key)

lemma keys_sort_key: "map f (sort_key f xs) = sort (map f xs)"
proof -
  have "map f (insort_key f x ys) = insort (f x) (map f ys)" for x ys by (induction ys) auto
  thus ?thesis by (induction xs) simp_all
qed

lemma save_again: "save_jobs w a (save_jobs w b f) = save_jobs w a f"
  by (simp add: save_jobs_def)

definition started :: "cron_env \<Rightarrow> time \<Rightarrow> job \<Rightarrow> job" where
  "started w now j = j\<lparr>cj_last_run := now, cj_runs := cj_runs j + 1, cj_next_run := next_run w now j\<rparr>"

lemma start_job_known:
  "map_of js i = Some j \<Longrightarrow> start_job w now i (js, f) = (AList.update i (started w now j) js, save_jobs w (AList.update i (started w now j) js) f)"
  by (simp add: start_job_def started_def update_next_run_def next_run_def Let_def)

lemma keys_order_update: "k \<in> fst ` set d \<Longrightarrow> map fst (AList.update k v d) = map fst d"
  by (induction d) auto

lemma start_jobs:
  assumes "distinct is" "set is \<subseteq> fst ` set js" "fold (start_job w now) is (js, f) = (js', f')"
  shows "map fst js' = map fst js \<and> (\<forall>i. map_of js' i = (if i \<in> set is then map_option (started w now) (map_of js i) else map_of js i)) \<and>
    f' = (if is = [] then f else save_jobs w js' f)"
  using assms
proof (induction "is" arbitrary: js f)
  case (Cons a "is")
  from Cons.prems obtain j where a: "map_of js a = Some j" by (force simp: map_of_eq_None_iff)
  let ?js = "AList.update a (started w now j) js"
  have run: "fold (start_job w now) is (?js, save_jobs w ?js f) = (js', f')"
    using Cons.prems(3) start_job_known [OF a] by simp
  have keys: "map fst ?js = map fst js" using Cons.prems by (simp add: keys_order_update)
  have sub: "distinct is" "set is \<subseteq> fst ` set ?js" using Cons.prems by (auto simp: keys_update)
  show ?case
  proof (cases "is = []")
    case True
    thus ?thesis using run keys a by auto
  next
    case False
    thus ?thesis using Cons.IH [OF sub run] keys a Cons.prems(1) by (simp add: save_again)
  qed
qed simp

section \<open>Properties\<close>

definition test_cron :: cron_env where
  "test_cron = \<lparr>ce_next = \<lambda>e t. Some (t + 60), ce_yaml = True, ce_secret = Some ''s''\<rparr>"

definition test_job :: job where
  "test_job = new_job ''n'' ''* * * * *'' ''p'' ''irc'' ''c'' [''irc:d''] (Some ''u'') None"

lemma tick_starts_due_jobs_parts:
  assumes "dict_ok js" "\<forall>e t u. ce_next w e t = Some u \<longrightarrow> t < u" "tick w now (js, f) = (js', f')"
  shows "map fst js' = map fst js" "map_of js' i = map_option (\<lambda>j. if is_due now j then started w now j else j) (map_of js i)"
    "due_ids now js' = []" "f' = (if due_ids now js = [] then f else save_jobs w js' f)"
proof -
  have "inj_on fst (set js)" "distinct (map fst js)" using assms(1) by (simp_all add: dict_ok_def distinct_map)
  have ids: "distinct (due_ids now js)" "set (due_ids now js) \<subseteq> fst ` set js"
    unfolding due_ids_def using \<open>distinct (map fst js)\<close> by (auto simp: distinct_map_filter)
  have mem: "i \<in> set (due_ids now js) \<longleftrightarrow> (\<exists>j. map_of js i = Some j \<and> is_due now j)" for i
    using \<open>distinct (map fst js)\<close> by (force simp: due_ids_def dest: map_of_SomeD)
  note run = start_jobs [OF ids assms(3) [unfolded tick_def fst_conv]]
  show keys: "map fst js' = map fst js" using run by simp
  have look: "map_of js' i = map_option (\<lambda>j. if is_due now j then started w now j else j) (map_of js i)" for i
    using run mem [of i] by (cases "map_of js i") auto
  thus "map_of js' i = map_option (\<lambda>j. if is_due now j then started w now j else j) (map_of js i)" .
  have "now < next_run w now j" for j using assms(2) by (auto simp: next_run_def split: option.split)
  hence later: "\<not> is_due now (started w now j)" for j by (simp add: is_due_def started_def not_le)
  have "\<not> is_due now j" if "(i, j) \<in> set js'" for i j
  proof -
    have "map_of js' i = Some j" using that keys \<open>distinct (map fst js)\<close> by simp
    then obtain k where "j = (if is_due now k then started w now k else k)" using look [of i] by auto
    thus ?thesis using later [of k] by simp
  qed
  thus "due_ids now js' = []" by (force simp: due_ids_def filter_empty_conv)
  show "f' = (if due_ids now js = [] then f else save_jobs w js' f)"
    using run by simp
qed



text \<open>After a restart the jobs are those that were saved, in the order of their ids, with the secret of the environment in
  place of every secret they had; and no secret is ever in the file.\<close>

theorem cron_restart:
  assumes "ce_yaml w"
  shows "load_jobs w (save_jobs w js f) = sort_key fst (map (\<lambda>(i, j). (i, restore_job w (redact_job j))) js)"
    "\<not> truthy (cj_secret j) \<longrightarrow> restore_job w (redact_job j) = j"
    "truthy (cj_secret j) \<longrightarrow> restore_job w (redact_job j) = j\<lparr>cj_secret := Some (case ce_secret w of None \<Rightarrow> [] | Some s \<Rightarrow> s)\<rparr>"
    "case save_jobs w js f of Saved js' \<Rightarrow> \<forall>(i, j) \<in> set js'. \<not> truthy (cj_secret j) \<or> cj_secret j = Some placeholder | _ \<Rightarrow> False"
proof -
  show "load_jobs w (save_jobs w js f) = sort_key fst (map (\<lambda>(i, j). (i, restore_job w (redact_job j))) js)"
    using assms by (simp add: load_jobs_def save_jobs_def map_sort_key case_prod_unfold comp_def)
  show "\<not> truthy (cj_secret j) \<longrightarrow> restore_job w (redact_job j) = j"
    by (auto simp: restore_job_def redact_job_def placeholder_def)
  show "truthy (cj_secret j) \<longrightarrow> restore_job w (redact_job j) = j\<lparr>cj_secret := Some (case ce_secret w of None \<Rightarrow> [] | Some s \<Rightarrow> s)\<rparr>"
    by (simp add: restore_job_def redact_job_def)
  show "case save_jobs w js f of Saved js' \<Rightarrow> \<forall>(i, j) \<in> set js'. \<not> truthy (cj_secret j) \<or> cj_secret j = Some placeholder | _ \<Rightarrow> False"
    using assms by (auto simp: save_jobs_def redact_job_def)
qed

theorem cron_restart_witness:
  "load_jobs test_cron (save_jobs test_cron [(''b'', test_job), (''a'', test_job)] Missing) = [(''a'', test_job), (''b'', test_job)]"
  using cron_restart(1) [of test_cron "[(''b'', test_job), (''a'', test_job)]" Missing]
  by (simp add: test_cron_def restore_job_def redact_job_def test_job_def new_job_def)

text \<open>The trigger command changes nothing: it sets the time in its own process and does not save it.\<close>

theorem trigger_has_no_effect:
  "snd (cli w now (Trigger i) f) = f"
  by simp

text \<open>A running scheduler overwrites the file with its own jobs: a job added meanwhile by the command line is gone with the next run
  of any job, and a removed one comes back.\<close>

theorem running_scheduler_wins:
  assumes "dict_ok js" "due_ids now js \<noteq> []" "ce_yaml w" "cli w t c f = (r, f1)"
  shows "map fst (load_jobs w (snd (tick w now (js, f1)))) = sort (map fst js)"
proof -
  have ids: "distinct (due_ids now js)" "set (due_ids now js) \<subseteq> fst ` set js"
    unfolding due_ids_def using assms(1) by (auto simp: dict_ok_def distinct_map_filter)
  obtain js' f' where t: "tick w now (js, f1) = (js', f')" by fastforce
  hence "f' = save_jobs w js' f1" "map fst js' = map fst js"
    using start_jobs [OF ids, of w now f1 js' f'] assms(2) by (simp_all add: tick_def)
  thus ?thesis using assms(3) t by (simp add: load_jobs_def save_jobs_def keys_sort_key comp_def case_prod_unfold)
qed

definition next_minute :: jobs_file where
  "next_minute = snd (add_job test_cron 0 ''a'' test_job ([], Missing))"

theorem running_scheduler_wins_witness:
  "map fst (load_jobs test_cron (snd (tick test_cron 60
     (load_jobs test_cron next_minute, snd (cli test_cron 30 (Add ''b'' ''n'' ''e'' ''p'' None None None None) next_minute))))) = [''a'']"
proof -
  have "dict_ok (load_jobs test_cron next_minute)" "due_ids 60 (load_jobs test_cron next_minute) \<noteq> []" "ce_yaml test_cron"
    "map fst (load_jobs test_cron next_minute) = [''a'']"
    by code_simp+
  thus ?thesis
    using running_scheduler_wins [of "load_jobs test_cron next_minute" 60 test_cron 30
        "Add ''b'' ''n'' ''e'' ''p'' None None None None" next_minute] by (cases "cli test_cron 30 (Add ''b'' ''n'' ''e'' ''p'' None None None None) next_minute") simp
qed

text \<open>A file that cannot be read counts as empty, and the next command that saves replaces it: all its jobs are lost.\<close>

theorem unreadable_file_replaced:
  assumes "ce_yaml w" "cli_target out channel target \<noteq> None"
  shows "map fst (load_jobs w (snd (cli w now (Add i name expr prompt out channel target hook) Unreadable))) = [i]"
  using assms by (auto simp: load_jobs_def add_job_def save_jobs_def split: option.splits)

text \<open>When the callback and the primary target do not raise, every other target, the web hook and the handler are tried, each once;
  when the primary target raises, nothing after it is.\<close>

theorem deliveries_correct:
  "deliver w j result =
     (let calls = (if ou_callback w then [Callback] else []);
          primary = (if has_primary j then [Send (the (cj_platform j)) (the (cj_channel j)) (report j result)] else [])
      in takeWhile (\<lambda>d. \<not> ou_raises w d) (calls @ primary) @
         (case filter (ou_raises w) (calls @ primary) of [] \<Rightarrow> secondary w j result | d # _ \<Rightarrow> [d]))"
  by (simp add: deliver_def)

text \<open>A failing primary target keeps the result from every other target.\<close>

theorem primary_failure_skips_rest:
  assumes "has_primary j" "ou_raises w (Send (the (cj_platform j)) (the (cj_channel j)) (report j result))"
  shows "\<forall>d \<in> set (deliver w j result). d = Callback \<or> d = Send (the (cj_platform j)) (the (cj_channel j)) (report j result)"
  using assms by (simp add: deliver_def Let_def)

end
