(* ===== verification/Gateway.thy ===== *)
theory Gateway
  imports Agent_Router Agent_Run
begin

text \<open>
  The messaging gateway (\<open>messaging/gateway.py\<close>) with the cached agents behind it: the router hands out references
  to agent objects, which live in a list.  The gateway's answers are what it asks the platform adapters to send;
  whether an adapter raises is a parameter.  The older cache without a router is modelled with the same objects;
  its clock is a number, and each call reads one time.
\<close>

section \<open>Messages\<close>

record message =
  im_platform :: string
  im_user :: string
  im_channel :: string
  im_text :: string

definition message_key :: "message \<Rightarrow> string" where
  "message_key m = im_platform m @ '':'' @ im_user m @ '':'' @ im_channel m"

record gateway =
  gw_router :: "nat router"
  gw_agents :: "agent list"
  gw_sent :: "(string \<times> string \<times> string) list"

text \<open>What surrounds the gateway: the platforms that have an adapter, which sends raise, regular expressions, the classes that can be
  imported and how an agent runs.\<close>

record gateway_env =
  ge_platforms :: "string list"
  ge_raises :: "string \<times> string \<times> string \<Rightarrow> string option"
  ge_search :: "string \<Rightarrow> string \<Rightarrow> bool option"
  ge_importable :: "string \<Rightarrow> string \<Rightarrow> bool"
  ge_new :: agent
  ge_run :: "string \<Rightarrow> agent \<Rightarrow> (string + string) \<times> agent"

text \<open>\<open>send\<close>: the first adapter of the platform; an unknown platform is only logged.\<close>

definition send :: "gateway_env \<Rightarrow> string \<Rightarrow> string \<Rightarrow> string \<Rightarrow> gateway \<Rightarrow> string option \<times> gateway" where
  "send w platform channel text g =
     (if platform \<notin> set (ge_platforms w) then (None, g)
      else case ge_raises w (platform, channel, text) of
        Some e \<Rightarrow> (Some e, g)
      | None \<Rightarrow> (None, g\<lparr>gw_sent := gw_sent g @ [(platform, channel, text)]\<rparr>))"

section \<open>Routed agents\<close>

definition pick_agent :: "gateway_env \<Rightarrow> time \<Rightarrow> time \<Rightarrow> message \<Rightarrow> gateway \<Rightarrow> (nat \<times> gateway) option" where
  "pick_agent w t1 t2 m g =
     (let n = length (gw_agents g)
      in case get_agent (ge_search w) (\<lambda>md c. if ge_importable w md c then Some n else None) n t1 t2 (im_platform m) (im_user m) (im_channel m)
            (gw_router g) of
           None \<Rightarrow> None
         | Some (k, rt) \<Rightarrow> Some (k, g\<lparr>gw_router := rt, gw_agents := (if k = n then gw_agents g @ [ge_new w] else gw_agents g)\<rparr>))"

text \<open>\<open>_default_handler\<close>; \<open>None\<close> is an exception that leaves it: the router's, or the one of sending the error text.\<close>

definition answer_error :: "gateway_env \<Rightarrow> message \<Rightarrow> string \<Rightarrow> gateway \<Rightarrow> gateway option" where
  "answer_error w m e g =
     (case send w (im_platform m) (im_channel m) (''Error: '' @ e) g of (None, g') \<Rightarrow> Some g' | (Some _, g') \<Rightarrow> None)"

definition default_handler :: "gateway_env \<Rightarrow> time \<Rightarrow> time \<Rightarrow> message \<Rightarrow> gateway \<Rightarrow> gateway option" where
  "default_handler w t1 t2 m g =
     (case pick_agent w t1 t2 m g of
        None \<Rightarrow> None
      | Some (k, g1) \<Rightarrow>
          (let (r, a) = ge_run w (im_text m) (gw_agents g1 ! k);
               g2 = g1\<lparr>gw_agents := (gw_agents g1)[k := a]\<rparr>
           in case r of
                Inl e \<Rightarrow> answer_error w m e g2
              | Inr result \<Rightarrow>
                  (case send w (im_platform m) (im_channel m) (take 8000 result) g2 of
                     (None, g3) \<Rightarrow> Some g3
                   | (Some e, g3) \<Rightarrow> answer_error w m e g3)))"

section \<open>The cache without a router\<close>

record agent_cache =
  gc_agents :: "(string \<times> nat) list"
  gc_active :: "(string \<times> time) list"
  gc_next :: nat

definition drop_agent :: "string \<Rightarrow> agent_cache \<Rightarrow> agent_cache" where
  "drop_agent k c = c\<lparr>gc_agents := AList.delete k (gc_agents c), gc_active := AList.delete k (gc_active c)\<rparr>"

definition drop_idle :: "time \<Rightarrow> agent_cache \<Rightarrow> agent_cache" where
  "drop_idle now c = fold drop_agent (map fst (filter (\<lambda>(k, t). now - t > 300) (gc_active c))) c"

fun drop_oldest :: "(string \<times> nat) list \<Rightarrow> agent_cache \<Rightarrow> agent_cache" where
  "drop_oldest [] c = c"
| "drop_oldest (x # xs) c = (if length (gc_agents c) \<ge> 128 then drop_oldest xs (drop_agent (fst x) c) else c)"

definition get_or_create :: "time \<Rightarrow> string \<Rightarrow> agent_cache \<Rightarrow> nat \<times> agent_cache" where
  "get_or_create now k c =
     (let c1 = drop_idle now c;
          c2 = drop_oldest (gc_agents c1) c1;
          c3 = (if map_of (gc_agents c2) k = None then c2\<lparr>gc_agents := gc_agents c2 @ [(k, gc_next c2)], gc_next := gc_next c2 + 1\<rparr> else c2)
      in (the (map_of (gc_agents c3) k), c3\<lparr>gc_active := AList.update k now (gc_active c3)\<rparr>))"

section \<open>Properties\<close>

lemma get_agent_fields:
  "get_agent search b n t1 t2 p u c rt = Some (k, rt') \<Longrightarrow> rt_configs rt' = rt_configs rt \<and> rt_rules rt' = rt_rules rt"
  by (auto simp: get_agent_def Let_def split: option.splits)

lemma resolve_route_fields:
  "rt_configs rt' = rt_configs rt \<Longrightarrow> rt_rules rt' = rt_rules rt \<Longrightarrow> resolve_route search rt' p u c = resolve_route search rt p u c"
  by (simp add: resolve_route_def split: option.split)

text \<open>A cached reference points to an object.\<close>

definition refs_ok :: "gateway \<Rightarrow> bool" where
  "refs_ok g \<longleftrightarrow> (\<forall>(k, n) \<in> set (rg_cache (rt_registry (gw_router g))). n < length (gw_agents g))"

definition empty_gateway :: "agents_data \<Rightarrow> gateway" where
  "empty_gateway d = \<lparr>gw_router = parse_config d, gw_agents = [], gw_sent = []\<rparr>"


definition cached :: "nat registry \<Rightarrow> nat set" where
  "cached r = snd ` set (rg_cache r)"

lemma cached_forget: "cached (fold forget_key ks r) \<subseteq> cached r"
proof (induction ks arbitrary: r)
  case (Cons k ks)
  have "cached (forget_key k r) \<subseteq> cached r" by (auto simp: cached_def forget_key_def AList.delete_eq)
  thus ?case using Cons.IH [of "forget_key k r"] by auto
qed simp

lemma pop_oldest_sub: "pop_oldest n c la = Some (c', la') \<Longrightarrow> set c' \<subseteq> set c"
  by (induction n c la rule: pop_oldest.induct) (auto split: if_splits)

lemma cached_evict: "evict_lru (evict_idle now r) = Some r' \<Longrightarrow> cached r' \<subseteq> cached r"
proof -
  assume "evict_lru (evict_idle now r) = Some r'"
  then obtain c la where "pop_oldest (rg_size (evict_idle now r)) (rg_cache (evict_idle now r)) (rg_last_active (evict_idle now r)) = Some (c, la)"
      "rg_cache r' = c"
    by (auto simp: evict_lru_def)
  hence "cached r' \<subseteq> cached (evict_idle now r)" using pop_oldest_sub unfolding cached_def by (metis image_mono)
  moreover have "cached (evict_idle now r) \<subseteq> cached r" unfolding evict_idle_def by (rule cached_forget)
  ultimately show ?thesis by auto
qed

lemma cached_move: "snd ` set (move_to_end k c) \<subseteq> snd ` set c"
proof (cases "map_of c k")
  case None
  thus ?thesis by (simp add: move_to_end_def)
next
  case (Some a)
  hence "a \<in> snd ` set c" by (force dest: map_of_SomeD)
  thus ?thesis using Some by (auto simp: move_to_end_def AList.delete_eq)
qed

lemma cached_update: "snd ` set (AList.update k a c) \<subseteq> insert a (snd ` set c)"
  using set_update_subset [of k a c] by force

lemma cached_get:
  assumes "registry_get now k r = Some (x, r')"
  shows "cached r' \<subseteq> cached r" "x = Some a \<Longrightarrow> a \<in> cached r"
proof -
  obtain e where e: "evict_lru (evict_idle now r) = Some e" using assms by (auto simp: registry_get_def)
  have "rg_cache r' = rg_cache e \<or> rg_cache r' = move_to_end k (rg_cache e)"
    using assms e by (auto simp: registry_get_def split: option.splits)
  hence "cached r' \<subseteq> cached e" unfolding cached_def by (metis cached_move order_refl)
  thus "cached r' \<subseteq> cached r" using cached_evict [OF e] by auto
  show "x = Some a \<Longrightarrow> a \<in> cached r"
    using assms e cached_evict [OF e] by (force simp: registry_get_def cached_def split: option.splits dest: map_of_SomeD)
qed

lemma cached_put:
  assumes "registry_put now k a r = Some r'"
  shows "cached r' \<subseteq> insert a (cached r)"
proof -
  obtain e where e: "evict_lru (evict_idle now r) = Some e" using assms by (auto simp: registry_put_def)
  have "rg_cache r' = AList.update k a (rg_cache e) \<or> rg_cache r' = AList.update k a (move_to_end k (rg_cache e))"
    using assms unfolding registry_put_def e option.map by (cases "map_of (rg_cache e) k") auto
  hence "cached r' \<subseteq> insert a (cached e)"
    using cached_update [of k a "rg_cache e"] subset_trans [OF cached_update [of k a "move_to_end k (rg_cache e)"] insert_mono [OF cached_move]]
    unfolding cached_def by (elim disjE) simp_all
  thus ?thesis using cached_evict [OF e] by auto
qed

lemma get_agent_ref:
  assumes "get_agent search (\<lambda>md c. if imp md c then Some n else None) n t1 t2 p u c rt = Some (k, rt')"
  shows "k = n \<or> k \<in> cached (rt_registry rt)" "cached (rt_registry rt') \<subseteq> insert k (cached (rt_registry rt))"
proof -
  have new: "create_agent (\<lambda>md c. if imp md c then Some n else None) n cfg nm = n" for cfg nm
    by (auto simp: create_agent_def import_class_def split: option.split)
  let ?key = "session_key (resolve_route search rt p u c) p u c"
  obtain x r1 where 1: "registry_get t1 ?key (rt_registry rt) = Some (x, r1)"
    using assms by (cases "registry_get t1 ?key (rt_registry rt)") (auto simp: get_agent_def Let_def)
  have "(x = Some k \<and> rt_registry rt' = r1) \<or> (k = n \<and> registry_put t2 ?key n r1 = Some (rt_registry rt'))"
    using assms 1 by (auto simp: get_agent_def Let_def new split: option.splits)
  thus "k = n \<or> k \<in> cached (rt_registry rt)" "cached (rt_registry rt') \<subseteq> insert k (cached (rt_registry rt))"
    using cached_get [OF 1] cached_put [of t2 ?key n r1] by blast+
qed

lemma pick_agent_ref:
  assumes "refs_ok g" "pick_agent w t1 t2 m g = Some (k, g')"
  shows "k < length (gw_agents g') \<and> refs_ok g' \<and> gw_sent g' = gw_sent g"
proof -
  have c: "refs_ok h \<longleftrightarrow> (\<forall>n \<in> cached (rt_registry (gw_router h)). n < length (gw_agents h))" for h
    by (auto simp: refs_ok_def cached_def)
  obtain rt where rt: "get_agent (ge_search w) (\<lambda>md c. if ge_importable w md c then Some (length (gw_agents g)) else None) (length (gw_agents g))
      t1 t2 (im_platform m) (im_user m) (im_channel m) (gw_router g) = Some (k, rt)"
    and g': "g' = g\<lparr>gw_router := rt, gw_agents := (if k = length (gw_agents g) then gw_agents g @ [ge_new w] else gw_agents g)\<rparr>"
    using assms(2) by (auto simp: pick_agent_def Let_def split: option.splits)
  from get_agent_ref [OF rt] assms(1) show ?thesis unfolding c g' by (auto simp: less_Suc_eq)
qed

lemma send_fields: "send w p c t g = (r, g') \<Longrightarrow> gw_router g' = gw_router g \<and> gw_agents g' = gw_agents g"
  by (auto simp: send_def split: if_splits option.splits)

text \<open>What the handler does with the agents: the routed one has run, nothing else has changed.\<close>

lemma handled:
  assumes "pick_agent w t1 t2 m g = Some (k, g1)" "default_handler w t1 t2 m g = Some g'"
  shows "gw_router g' = gw_router g1 \<and> gw_agents g' = (gw_agents g1)[k := snd (ge_run w (im_text m) (gw_agents g1 ! k))]"
proof -
  obtain r a where run: "ge_run w (im_text m) (gw_agents g1 ! k) = (r, a)" by fastforce
  define g2 where "g2 = g1\<lparr>gw_agents := (gw_agents g1)[k := a]\<rparr>"
  have err: "gw_router h' = gw_router h \<and> gw_agents h' = gw_agents h" if "answer_error w m e h = Some h'" for e h h'
    using that send_fields by (auto simp: answer_error_def split: prod.splits option.splits)
  have "gw_router g' = gw_router g2 \<and> gw_agents g' = gw_agents g2"
  proof (cases r)
    case (Inl e)
    hence "answer_error w m e g2 = Some g'" using assms run by (simp add: default_handler_def Let_def g2_def)
    thus ?thesis by (rule err)
  next
    case (Inr result)
    obtain x g3 where s: "send w (im_platform m) (im_channel m) (take 8000 result) g2 = (x, g3)" by fastforce
    hence "gw_router g3 = gw_router g2 \<and> gw_agents g3 = gw_agents g2" by (rule send_fields)
    moreover have "g' = g3 \<or> (\<exists>e. answer_error w m e g3 = Some g')"
      using assms run Inr s by (auto simp: default_handler_def Let_def g2_def split: option.splits)
    ultimately show ?thesis using err by fastforce
  qed
  thus ?thesis using run by (simp add: g2_def)
qed



definition demo_message :: "string \<Rightarrow> message" where
  "demo_message t = \<lparr>im_platform = ''irc'', im_user = ''u'', im_channel = ''c'', im_text = t\<rparr>"

definition demo_world :: gateway_env where
  "demo_world = \<lparr>ge_platforms = [''irc''], ge_raises = \<lambda>_. None, ge_search = exact_search, ge_importable = \<lambda>_ _. False,
     ge_new = demo_new, ge_run = \<lambda>text a. run (manus_step (\<lambda>_. []) demo_env) demo_env demo_input text a\<rparr>"


section \<open>The older cache\<close>

lemma drop_oldest_bound: "length (gc_agents (drop_oldest xs c)) \<le> length (gc_agents c)"
proof (induction xs c rule: drop_oldest.induct)
  case (2 x xs c)
  thus ?case using length_delete_le' [of "fst x" "gc_agents c"] by (auto simp: drop_agent_def)
qed simp

lemma drop_oldest_room: "set (gc_agents c) \<subseteq> set xs \<Longrightarrow> length (gc_agents (drop_oldest xs c)) < 128"
proof (induction xs c rule: drop_oldest.induct)
  case (2 x xs c)
  have "set (gc_agents (drop_agent (fst x) c)) \<subseteq> set xs" using 2(2) by (auto simp: drop_agent_def AList.delete_eq)
  thus ?case using 2 by auto
qed simp

text \<open>However many sessions there are, at most 128 agents are kept, and the session that asks gets one.\<close>

theorem agent_cache_bounded:
  "length (gc_agents (snd (get_or_create now k c))) \<le> 128"
  "map_of (gc_agents (snd (get_or_create now k c))) k = Some (fst (get_or_create now k c))"
proof -
  let ?c = "drop_oldest (gc_agents (drop_idle now c)) (drop_idle now c)"
  have "length (gc_agents ?c) < 128" by (rule drop_oldest_room) simp
  thus "length (gc_agents (snd (get_or_create now k c))) \<le> 128" by (simp add: get_or_create_def Let_def)
  show "map_of (gc_agents (snd (get_or_create now k c))) k = Some (fst (get_or_create now k c))"
    by (auto simp: get_or_create_def Let_def map_add_def split: option.split)
qed

text \<open>Room is made before the session is looked up, and the order is that of creation: in a full cache the oldest session
  loses its agent by sending a message, however active it is.\<close>

theorem oldest_session_loses_agent:
  assumes "gc_agents c = (k, a) # xs" "length xs = 127" "dict_ok (gc_agents c)" "\<forall>(l, t) \<in> set (gc_active c). now - t \<le> 300" "a < gc_next c"
  shows "fst (get_or_create now k c) = gc_next c" "fst (get_or_create now k c) \<noteq> a"
proof -
  have "filter (\<lambda>(k, t). now - t > 300) (gc_active c) = []" using assms(4) by (force simp: filter_empty_conv)
  hence idle: "drop_idle now c = c" by (simp add: drop_idle_def)
  have "k \<notin> fst ` set xs" using assms(1,3) by (simp add: dict_ok_def)
  hence "map_of xs k = None" by (simp add: map_of_eq_None_iff)
  have d: "gc_agents (drop_agent k c) = xs" "gc_next (drop_agent k c) = gc_next c"
    using assms(1) \<open>k \<notin> fst ` set xs\<close> by (simp_all add: drop_agent_def delete_absent)
  have stop: "drop_oldest ys e = e" if "length (gc_agents e) < 128" for ys e using that by (cases ys) simp_all
  have "drop_oldest (gc_agents c) c = drop_agent k c" using assms(1,2) d stop by simp
  thus "fst (get_or_create now k c) = gc_next c" "fst (get_or_create now k c) \<noteq> a"
    using idle d assms(5) \<open>map_of xs k = None\<close> by (simp_all add: get_or_create_def Let_def map_add_def)
qed

end
