(* ===== verification/Webhooks.thy ===== *)
theory Webhooks
  imports Json "HOL-Library.Sublist"
begin

text \<open>
  Web hooks of the git providers (\<open>integrations/webhook_handler.py\<close>): signatures, normalisation, deduplication, the
  queue and the processing with retries.  The body is ASCII text; headers are a list of pairs, of which the last
  with a name counts.  The message authentication code, the digest of the fingerprint, \<open>str\<close> of floats, lists and
  dicts, fresh event ids and which handlers raise are parameters; the clock is a number.
\<close>

section \<open>Exceptions\<close>

datatype webhook_error = Attribute_Error | Value_Error | Type_Error | Index_Error | Key_Error

definition and_then :: "'e + 'a \<Rightarrow> ('a \<Rightarrow> 'e + 'b) \<Rightarrow> 'e + 'b" where
  "and_then x f = (case x of Inl e \<Rightarrow> Inl e | Inr a \<Rightarrow> f a)"

lemma and_then_simps [simp]: "and_then (Inl e) f = Inl e" "and_then (Inr a) f = f a"
  by (simp_all add: and_then_def)

lemma and_then_Inr: "and_then x f = Inr b \<longleftrightarrow> (\<exists>a. x = Inr a \<and> f a = Inr b)"
  by (cases x) simp_all

text \<open>\<open>x.get(k, default)\<close> and \<open>x[0]\<close> on whatever JSON value there is.\<close>

definition get :: "json \<Rightarrow> string \<Rightarrow> json \<Rightarrow> webhook_error + json" where
  "get j k dflt = (case j of JObj d \<Rightarrow> Inr (jget k d dflt) | _ \<Rightarrow> Inl Attribute_Error)"

definition index0 :: "json \<Rightarrow> webhook_error + json" where
  "index0 j =
     (case j of
        JArr (x # _) \<Rightarrow> Inr x
      | JArr [] \<Rightarrow> Inl Index_Error
      | JStr (c # _) \<Rightarrow> Inr (JStr [c])
      | JStr [] \<Rightarrow> Inl Index_Error
      | JObj _ \<Rightarrow> Inl Key_Error
      | _ \<Rightarrow> Inl Type_Error)"

abbreviation empty_dict :: json where "empty_dict \<equiv> JObj []"

section \<open>Events\<close>

datatype event_type = PUSH | PULL_REQUEST | ISSUES | ISSUE_COMMENT | PULL_REQUEST_REVIEW | CHECK_RUN | RELEASE | MEMBER | UNKNOWN_TYPE

fun type_value :: "event_type \<Rightarrow> string" where
  "type_value PUSH = ''push''"
| "type_value PULL_REQUEST = ''pull_request''"
| "type_value ISSUES = ''issues''"
| "type_value ISSUE_COMMENT = ''issue_comment''"
| "type_value PULL_REQUEST_REVIEW = ''pull_request_review''"
| "type_value CHECK_RUN = ''check_run''"
| "type_value RELEASE = ''release''"
| "type_value MEMBER = ''member''"
| "type_value UNKNOWN_TYPE = ''unknown''"

definition all_types :: "event_type list" where
  "all_types = [PUSH, PULL_REQUEST, ISSUES, ISSUE_COMMENT, PULL_REQUEST_REVIEW, CHECK_RUN, RELEASE, MEMBER, UNKNOWN_TYPE]"

definition type_of_value :: "string \<Rightarrow> webhook_error + event_type" where
  "type_of_value s = (case filter (\<lambda>t. type_value t = s) all_types of [] \<Rightarrow> Inl Value_Error | t # _ \<Rightarrow> Inr t)"

datatype provider = GITHUB | GITLAB | AZURE_DEVOPS | BITBUCKET | UNKNOWN

fun provider_value :: "provider \<Rightarrow> string" where
  "provider_value GITHUB = ''github''"
| "provider_value GITLAB = ''gitlab''"
| "provider_value AZURE_DEVOPS = ''azure_devops''"
| "provider_value BITBUCKET = ''bitbucket''"
| "provider_value UNKNOWN = ''unknown''"

record event =
  we_id :: nat
  we_provider :: provider
  we_type :: event_type
  we_action :: json
  we_repo :: json
  we_payload :: json
  we_fingerprint :: string

record webhook_env =
  wv_mac :: "string \<Rightarrow> string \<Rightarrow> string"
  wv_digest :: "string \<Rightarrow> string"
  wv_str :: "json \<Rightarrow> string"

definition py_str :: "webhook_env \<Rightarrow> json \<Rightarrow> string" where
  "py_str w j =
     (case j of
        JStr s \<Rightarrow> s | JInt i \<Rightarrow> show_int i | JNull \<Rightarrow> ''None'' | JBool b \<Rightarrow> (if b then ''True'' else ''False'') | _ \<Rightarrow> wv_str w j)"

text \<open>The text whose digest is the fingerprint.\<close>

definition identifiers :: "event_type \<Rightarrow> json \<Rightarrow> json \<Rightarrow> webhook_error + json list" where
  "identifiers t action payload =
     (if t = PUSH then and_then (get payload ''after'' (JStr [])) (\<lambda>a. Inr [a])
      else if t = PULL_REQUEST \<or> t = PULL_REQUEST_REVIEW then
        and_then (get payload ''merge_request'' empty_dict) (\<lambda>mr.
        and_then (get payload ''pull_request'' mr) (\<lambda>pr.
        and_then (get pr ''iid'' (JStr [])) (\<lambda>iid.
        and_then (get pr ''number'' iid) (\<lambda>n. Inr [n, action]))))
      else if t = ISSUES \<or> t = ISSUE_COMMENT then
        and_then (get payload ''issue'' empty_dict) (\<lambda>issue.
        and_then (get issue ''number'' (JStr [])) (\<lambda>n.
        if t = ISSUES then Inr [n, action]
        else and_then (get payload ''comment'' empty_dict) (\<lambda>c. and_then (get c ''id'' (JStr [])) (\<lambda>i. Inr [n, action, i]))))
      else Inr [])"

definition fingerprint_text :: "webhook_env \<Rightarrow> provider \<Rightarrow> event_type \<Rightarrow> json \<Rightarrow> json \<Rightarrow> json \<Rightarrow> webhook_error + string" where
  "fingerprint_text w p t action repo payload =
     and_then (identifiers t action payload) (\<lambda>ids.
       Inr (join ''|'' ([provider_value p, type_value t, py_str w action, py_str w repo] @ map (py_str w) ids)))"

section \<open>Headers and signatures\<close>

type_synonym headers = "(string \<times> string) list"

definition header :: "headers \<Rightarrow> string \<Rightarrow> string option" where
  "header hs k = map_of (rev (map (\<lambda>(n, v). (lower n, v)) hs)) k"

definition header_or :: "headers \<Rightarrow> string \<Rightarrow> string \<Rightarrow> string" where
  "header_or hs k d = (case header hs k of None \<Rightarrow> d | Some v \<Rightarrow> v)"

definition detect_provider :: "headers \<Rightarrow> provider" where
  "detect_provider hs =
     (if header hs ''x-github-event'' \<noteq> None then GITHUB
      else if header hs ''x-gitlab-event'' \<noteq> None then GITLAB
      else if header hs ''x-azure-devops-event'' \<noteq> None then AZURE_DEVOPS
      else if header hs ''x-event-key'' \<noteq> None \<and> header hs ''x-hook-uuid'' \<noteq> None then BITBUCKET
      else UNKNOWN)"

text \<open>\<open>hmac.compare_digest\<close> on texts raises unless both are ASCII.\<close>

definition ascii :: "string \<Rightarrow> bool" where
  "ascii s \<longleftrightarrow> list_all (\<lambda>c. (of_char c :: nat) < 128) s"

definition compare_digest :: "string \<Rightarrow> string \<Rightarrow> webhook_error + bool" where
  "compare_digest a b = (if ascii a \<and> ascii b then Inr (a = b) else Inl Type_Error)"

definition verify_mac :: "webhook_env \<Rightarrow> string \<Rightarrow> string \<Rightarrow> string \<Rightarrow> webhook_error + bool" where
  "verify_mac w body sig secret =
     (if secret = [] then Inr True else if sig = [] then Inr False else compare_digest (wv_mac w secret body) sig)"

definition verify_github :: "webhook_env \<Rightarrow> string \<Rightarrow> string \<Rightarrow> string \<Rightarrow> webhook_error + bool" where
  "verify_github w body sig secret =
     (if secret = [] then Inr True else if sig = [] then Inr False
      else compare_digest (wv_mac w secret body) (case after_prefix ''sha256='' sig of None \<Rightarrow> sig | Some r \<Rightarrow> r))"

definition verify_gitlab :: "string \<Rightarrow> string \<Rightarrow> webhook_error + bool" where
  "verify_gitlab token secret = (if secret = [] then Inr True else compare_digest token secret)"

fun verify :: "webhook_env \<Rightarrow> provider \<Rightarrow> string \<Rightarrow> headers \<Rightarrow> string \<Rightarrow> webhook_error + bool" where
  "verify w GITHUB body hs secret = verify_github w body (header_or hs ''x-hub-signature-256'' []) secret"
| "verify w GITLAB body hs secret = verify_gitlab (header_or hs ''x-gitlab-token'' []) secret"
| "verify w BITBUCKET body hs secret = verify_mac w body (header_or hs ''x-hook-signature'' []) secret"
| "verify w AZURE_DEVOPS body hs secret = verify_mac w body (header_or hs ''x-azure-devops-signature'' []) secret"
| "verify w UNKNOWN body hs secret = Inr (secret = [])"

section \<open>Normalisation\<close>

definition gitlab_type :: "string \<Rightarrow> event_type" where
  "gitlab_type raw =
     (case map_of [(''Push Hook'', PUSH), (''Merge Request Hook'', PULL_REQUEST), (''Issue Hook'', ISSUES), (''Note Hook'', ISSUE_COMMENT),
        (''Tag Push Hook'', PUSH)] raw of None \<Rightarrow> UNKNOWN_TYPE | Some t \<Rightarrow> t)"

definition azure_type :: "string \<Rightarrow> event_type" where
  "azure_type raw =
     (case map_of [(''git.push'', PUSH), (''git.pullrequest.created'', PULL_REQUEST), (''git.pullrequest.updated'', PULL_REQUEST),
        (''workitem.created'', ISSUES), (''workitem.updated'', ISSUES)] raw of None \<Rightarrow> UNKNOWN_TYPE | Some t \<Rightarrow> t)"

definition bitbucket_type :: "string \<Rightarrow> event_type" where
  "bitbucket_type raw =
     (if prefix ''repo:push'' raw then PUSH
      else if prefix ''pullrequest:'' raw then PULL_REQUEST
      else if prefix ''issue:'' raw then ISSUES
      else if prefix ''issue_comment:'' raw then ISSUE_COMMENT
      else UNKNOWN_TYPE)"

text \<open>\<open>"/".join\<close> of the truthy ones, which must be texts.\<close>

definition join_names :: "json list \<Rightarrow> webhook_error + json" where
  "join_names js =
     (let ns = filter (\<lambda>j. \<not> falsy j) js
      in if list_all (\<lambda>j. case j of JStr _ \<Rightarrow> True | _ \<Rightarrow> False) ns
         then Inr (JStr (join ''/'' (map (\<lambda>j. case j of JStr s \<Rightarrow> s | _ \<Rightarrow> []) ns))) else Inl Type_Error)"

text \<open>Type, action and repository of an event.\<close>

fun describe :: "provider \<Rightarrow> json \<Rightarrow> headers \<Rightarrow> webhook_error + (event_type \<times> json \<times> json)" where
  "describe GITHUB payload hs =
     and_then (type_of_value (header_or hs ''x-github-event'' ''unknown'')) (\<lambda>t.
     and_then (get payload ''action'' (JStr [])) (\<lambda>action.
     and_then (get payload ''repository'' empty_dict) (\<lambda>repo.
     and_then (get repo ''full_name'' (JStr [])) (\<lambda>name. Inr (t, action, name)))))"
| "describe GITLAB payload hs =
     and_then (get payload ''object_attributes'' empty_dict) (\<lambda>attrs.
     and_then (get attrs ''action'' (JStr [])) (\<lambda>action.
     and_then (get payload ''project'' empty_dict) (\<lambda>project.
     and_then (get project ''path_with_namespace'' (JStr [])) (\<lambda>name. Inr (gitlab_type (header_or hs ''x-gitlab-event'' []), action, name)))))"
| "describe AZURE_DEVOPS payload hs =
     and_then (get payload ''action'' (JStr [])) (\<lambda>action.
     and_then (get payload ''resource'' empty_dict) (\<lambda>resource.
     and_then (get resource ''repository'' empty_dict) (\<lambda>repo.
     and_then (get payload ''resourceContainers'' empty_dict) (\<lambda>containers.
     and_then (get containers ''project'' empty_dict) (\<lambda>project.
     and_then (get project ''name'' (JStr [])) (\<lambda>pn.
     and_then (get repo ''name'' (JStr [])) (\<lambda>rn.
     and_then (join_names [pn, rn]) (\<lambda>name. Inr (azure_type (header_or hs ''x-azure-devops-event'' []), action, name)))))))))"
| "describe BITBUCKET payload hs =
     and_then (get payload ''push'' JNull) (\<lambda>push.
     and_then (if falsy push then Inr (JStr [])
               else and_then (get push ''changes'' (JArr [empty_dict])) (\<lambda>cs.
                    and_then (index0 cs) (\<lambda>c. get c ''type'' (JStr [])))) (\<lambda>action.
     and_then (get payload ''repository'' empty_dict) (\<lambda>repo.
     and_then (get repo ''full_name'' (JStr [])) (\<lambda>name. Inr (bitbucket_type (header_or hs ''x-event-key'' []), action, name)))))"
| "describe UNKNOWN payload hs = Inr (UNKNOWN_TYPE, JStr [], JStr [])"

definition normalize :: "webhook_env \<Rightarrow> nat \<Rightarrow> provider \<Rightarrow> string \<Rightarrow> headers \<Rightarrow> webhook_error + event" where
  "normalize w eid p body hs =
     (let payload = (case loads body of None \<Rightarrow> empty_dict | Some j \<Rightarrow> j)
      in and_then (describe p payload hs) (\<lambda>(t, action, repo).
         and_then (fingerprint_text w p t action repo payload) (\<lambda>f.
           Inr \<lparr>we_id = eid, we_provider = p, we_type = t, we_action = action, we_repo = repo, we_payload = payload,
                we_fingerprint = wv_digest w f\<rparr>)))"

section \<open>Deduplication\<close>

type_synonym seen = "(string \<times> time) list"

fun drop_to :: "nat \<Rightarrow> 'a list \<Rightarrow> 'a list" where
  "drop_to n [] = []"
| "drop_to n (x # xs) = (if length (x # xs) > n then drop_to n xs else x # xs)"

definition is_duplicate :: "time \<Rightarrow> nat \<Rightarrow> time \<Rightarrow> string \<Rightarrow> seen \<Rightarrow> bool \<times> seen" where
  "is_duplicate window max_entries now f s =
     (let s1 = filter (\<lambda>(k, t). \<not> t < now - window) s
      in if f \<in> fst ` set s1 then (True, s1) else (False, drop_to max_entries (s1 @ [(f, now)])))"

section \<open>The handler\<close>

datatype status = QUEUED | COMPLETED | FAILED | DUPLICATE | REJECTED

record result =
  pr_event :: "nat option"
  pr_status :: status
  pr_retries :: nat
  pr_error :: "string option"

record stats =
  st_received :: nat
  st_duplicates :: nat
  st_rejected :: nat
  st_processed :: nat
  st_failed :: nat

record webhook_handler =
  wh_secret :: string
  wh_max_queue :: int
  wh_window :: time
  wh_seen :: seen
  wh_queue :: "event list"
  wh_results :: "(nat \<times> result) list"
  wh_stats :: stats

definition reply :: "nat option \<Rightarrow> status \<Rightarrow> result" where
  "reply e s = \<lparr>pr_event = e, pr_status = s, pr_retries = 0, pr_error = None\<rparr>"

definition queue_full :: "webhook_handler \<Rightarrow> bool" where
  "queue_full h \<longleftrightarrow> wh_max_queue h > 0 \<and> int (length (wh_queue h)) \<ge> wh_max_queue h"

definition handle :: "webhook_env \<Rightarrow> time \<Rightarrow> nat \<Rightarrow> string \<Rightarrow> headers \<Rightarrow> webhook_handler \<Rightarrow> (webhook_error + result) \<times> webhook_handler" where
  "handle w now eid body hs h =
     (let h1 = h\<lparr>wh_stats := (wh_stats h)\<lparr>st_received := st_received (wh_stats h) + 1\<rparr>\<rparr>;
          p = detect_provider hs;
          reject = (\<lambda>h. h\<lparr>wh_stats := (wh_stats h)\<lparr>st_rejected := st_rejected (wh_stats h) + 1\<rparr>\<rparr>)
      in case verify w p body hs (wh_secret h) of
           Inl e \<Rightarrow> (Inl e, h1)
         | Inr False \<Rightarrow> (Inr (reply None REJECTED), reject h1)
         | Inr True \<Rightarrow>
             (case normalize w eid p body hs of
                Inl e \<Rightarrow> (Inl e, h1)
              | Inr ev \<Rightarrow>
                  (let (dup, seen) = is_duplicate (wh_window h) 10000 now (we_fingerprint ev) (wh_seen h); h2 = h1\<lparr>wh_seen := seen\<rparr>
                   in if dup then (Inr (reply (Some eid) DUPLICATE), h2\<lparr>wh_stats := (wh_stats h2)\<lparr>st_duplicates := st_duplicates (wh_stats h2) + 1\<rparr>\<rparr>)
                      else if queue_full h2 then (Inr (reply (Some eid) REJECTED), reject h2)
                      else (Inr (reply (Some eid) QUEUED), h2\<lparr>wh_queue := wh_queue h2 @ [ev]\<rparr>))))"

section \<open>Processing\<close>

text \<open>The handlers of an event in order, what each does at an attempt (\<open>None\<close> when it returns, whatever it returns), and the
  settings of the retries.\<close>

record processing =
  ps_handlers :: "event \<Rightarrow> string list"
  ps_raises :: "string \<Rightarrow> nat \<Rightarrow> string option"
  ps_max_retries :: nat
  ps_base_delay :: real

definition last_error :: "processing \<Rightarrow> string list \<Rightarrow> nat \<Rightarrow> string option" where
  "last_error ps hs k = fold (\<lambda>n _. ps_raises ps n k) hs None"

text \<open>The result with the handlers called, by attempt, and the delays slept.\<close>

function process_event :: "processing \<Rightarrow> event \<Rightarrow> nat \<Rightarrow> result \<times> (nat \<times> string) list \<times> real list" where
  "process_event ps ev k =
     (let hs = ps_handlers ps ev; calls = map (Pair k) hs; err = last_error ps hs k
      in if hs = [] then (\<lparr>pr_event = Some (we_id ev), pr_status = COMPLETED, pr_retries = k, pr_error = None\<rparr>, [], [])
         else if err = None then (\<lparr>pr_event = Some (we_id ev), pr_status = COMPLETED, pr_retries = k, pr_error = None\<rparr>, calls, [])
         else if k < ps_max_retries ps then
           (let (r, cs, ds) = process_event ps ev (Suc k) in (r, calls @ cs, (ps_base_delay ps * 2 ^ k) # ds))
         else (\<lparr>pr_event = Some (we_id ev), pr_status = FAILED, pr_retries = k, pr_error = err\<rparr>, calls, []))"
  by pat_completeness auto

termination
  by (relation "measure (\<lambda>(ps, ev, k). ps_max_retries ps - k)") auto

declare process_event.simps [simp del]

definition record_result :: "event \<Rightarrow> result \<Rightarrow> webhook_handler \<Rightarrow> webhook_handler" where
  "record_result ev r h =
     h\<lparr>wh_results := AList.update (we_id ev) r (wh_results h),
       wh_stats := (if pr_status r = COMPLETED then (wh_stats h)\<lparr>st_processed := st_processed (wh_stats h) + 1\<rparr>
                    else (wh_stats h)\<lparr>st_failed := st_failed (wh_stats h) + 1\<rparr>)\<rparr>"

text \<open>The loop takes the oldest event; its task runs to the end.\<close>

definition process_next :: "processing \<Rightarrow> webhook_handler \<Rightarrow> webhook_handler" where
  "process_next ps h =
     (case wh_queue h of
        [] \<Rightarrow> h
      | ev # evs \<Rightarrow> record_result ev (fst (process_event ps ev 0)) (h\<lparr>wh_queue := evs\<rparr>))"


section \<open>Lemmas\<close>

lemma drop_to_id: "length xs \<le> n \<Longrightarrow> drop_to n xs = xs"
  by (cases xs) simp_all

lemma drop_to_suffix: "suffix (drop_to n xs) xs"
  by (induction n xs rule: drop_to.induct) (auto simp: suffix_ConsI)

lemma drop_to_length: "length (drop_to n xs) \<le> n"
  by (induction n xs rule: drop_to.induct) auto

lemma drop_to_last: "n > 0 \<Longrightarrow> x \<in> set (drop_to n (xs @ [x]))"
  by (induction xs) auto

lemma recorded:
  assumes "is_duplicate win m t f s = (False, s')" "m > 0" "t' - win \<le> t"
  shows "fst (is_duplicate win m t' f s') = True"
proof -
  have "(f, t) \<in> set s'" using assms(1,2) drop_to_last by (auto simp: is_duplicate_def Let_def split: if_splits)
  thus ?thesis using assms(3) by (force simp: is_duplicate_def Let_def)
qed

lemma last_error_eq: "hs \<noteq> [] \<Longrightarrow> last_error ps hs k = ps_raises ps (last hs) k"
  by (induction hs rule: rev_induct) (simp_all add: last_error_def)

lemma process_event_run:
  assumes "ps_handlers ps ev = hs" "hs \<noteq> []" "process_event ps ev k = (r, calls, ds)" "k \<le> ps_max_retries ps"
  shows "\<exists>n. k \<le> n \<and> n \<le> ps_max_retries ps \<and> pr_retries r = n \<and> calls = concat (map (\<lambda>i. map (Pair i) hs) [k..<Suc n]) \<and>
    ds = map (\<lambda>i. ps_base_delay ps * 2 ^ i) [k..<n] \<and> (\<forall>i. k \<le> i \<and> i < n \<longrightarrow> ps_raises ps (last hs) i \<noteq> None) \<and>
    pr_error r = ps_raises ps (last hs) n \<and>
    (if ps_raises ps (last hs) n = None then pr_status r = COMPLETED else pr_status r = FAILED \<and> n = ps_max_retries ps) \<and>
    pr_event r = Some (we_id ev)"
  using assms
proof (induction ps ev k arbitrary: r calls ds rule: process_event.induct)
  case (1 ps ev k)
  note hs = "1.prems"(1,2) last_error_eq [OF "1.prems"(2), of ps k]
  show ?case
  proof (cases "ps_raises ps (last hs) k = None \<or> k = ps_max_retries ps")
    case True
    thus ?thesis using "1.prems"(3,4) hs by (subst (asm) process_event.simps) (auto simp: Let_def split: if_splits)
  next
    case False
    hence less: "k < ps_max_retries ps" and err: "ps_raises ps (last hs) k \<noteq> None" using "1.prems"(4) by auto
    obtain r' cs ds' where rest: "process_event ps ev (Suc k) = (r', cs, ds')" by (cases "process_event ps ev (Suc k)") auto
    have "process_event ps ev k = (r', map (Pair k) hs @ cs, (ps_base_delay ps * 2 ^ k) # ds')"
      using hs less err rest by (subst process_event.simps) (simp add: Let_def)
    hence now: "r = r'" "calls = map (Pair k) hs @ cs" "ds = (ps_base_delay ps * 2 ^ k) # ds'" using "1.prems"(3) by simp_all
    have "last_error ps (ps_handlers ps ev) k \<noteq> None" using hs err by simp
    from "1.IH" [OF refl refl refl _ this less "1.prems"(1,2) rest] hs less obtain n where
      n: "Suc k \<le> n" "n \<le> ps_max_retries ps" "pr_retries r' = n" "cs = concat (map (\<lambda>i. map (Pair i) hs) [Suc k..<Suc n])"
        "ds' = map (\<lambda>i. ps_base_delay ps * 2 ^ i) [Suc k..<n]" "\<forall>i. Suc k \<le> i \<and> i < n \<longrightarrow> ps_raises ps (last hs) i \<noteq> None"
        "pr_error r' = ps_raises ps (last hs) n" "pr_event r' = Some (we_id ev)"
        "if ps_raises ps (last hs) n = None then pr_status r' = COMPLETED else pr_status r' = FAILED \<and> n = ps_max_retries ps"
      by auto
    have "[k..<Suc n] = k # [Suc k..<Suc n]" "[k..<n] = k # [Suc k..<n]" using n(1) by (simp_all add: upt_conv_Cons)
    moreover have "\<forall>i. k \<le> i \<and> i < n \<longrightarrow> ps_raises ps (last hs) i \<noteq> None"
      using n(6) err by (metis Suc_leI le_neq_implies_less)
    ultimately show ?thesis using n now by (intro exI [of _ n]) simp
  qed
qed

text \<open>The reference: a request is a duplicate when an accepted one of the same fingerprint lies within the window.\<close>

fun dup_spec :: "time \<Rightarrow> (time \<times> string) list \<Rightarrow> (time \<times> string) list \<Rightarrow> bool list" where
  "dup_spec win acc [] = []"
| "dup_spec win acc ((t, f) # rs) =
     (let b = (\<exists>(t', f') \<in> set acc. f' = f \<and> t - win \<le> t') in b # dup_spec win (if b then acc else acc @ [(t, f)]) rs)"

fun dup_answers :: "time \<Rightarrow> nat \<Rightarrow> (time \<times> string) list \<Rightarrow> seen \<Rightarrow> bool list" where
  "dup_answers win m [] s = []"
| "dup_answers win m ((t, f) # rs) s = (case is_duplicate win m t f s of (b, s') \<Rightarrow> b # dup_answers win m rs s')"

text \<open>What the store holds: accepted requests, among them all that a later request can meet.\<close>

definition seen_inv :: "time \<Rightarrow> time \<Rightarrow> (time \<times> string) list \<Rightarrow> seen \<Rightarrow> bool" where
  "seen_inv win now acc s \<longleftrightarrow> distinct (map fst s) \<and> (\<forall>(f, t) \<in> set s. (t, f) \<in> set acc) \<and> (\<forall>(t, f) \<in> set acc. now - win \<le> t \<longrightarrow> (f, t) \<in> set s)"

lemma seen_inv_step:
  assumes "seen_inv win t0 acc s" "t0 \<le> t" "card (insert f (snd ` set acc)) \<le> m" "is_duplicate win m t f s = (b, s')"
  shows "b = (\<exists>(t', f') \<in> set acc. f' = f \<and> t - win \<le> t') \<and> seen_inv win t (if b then acc else acc @ [(t, f)]) s'"
proof -
  define s1 where "s1 = filter (\<lambda>(k, t'). \<not> t' < t - win) s"
  have inv: "distinct (map fst s1)" "\<forall>(f, t) \<in> set s1. (t, f) \<in> set acc" "\<forall>(t', f) \<in> set acc. t - win \<le> t' \<longrightarrow> (f, t') \<in> set s1"
    using assms(1,2) by (auto simp: seen_inv_def s1_def distinct_map_filter)
  have b: "f \<in> fst ` set s1 \<longleftrightarrow> (\<exists>(t', f') \<in> set acc. f' = f \<and> t - win \<le> t')"
  proof
    assume "f \<in> fst ` set s1"
    then obtain t' where t': "(f, t') \<in> set s1" by auto
    hence "t - win \<le> t'" by (simp add: s1_def)
    thus "\<exists>(t', f') \<in> set acc. f' = f \<and> t - win \<le> t'" using inv(2) t' by auto
  next
    assume "\<exists>(t', f') \<in> set acc. f' = f \<and> t - win \<le> t'"
    then obtain t' where "(t', f) \<in> set acc" "t - win \<le> t'" by auto
    hence "(f, t') \<in> set s1" using inv(3) by auto
    thus "f \<in> fst ` set s1" by force
  qed
  show ?thesis
  proof (cases "f \<in> fst ` set s1")
    case True
    hence "b" "s' = s1" using assms(4) by (auto simp: is_duplicate_def Let_def s1_def)
    thus ?thesis using b True inv by (simp add: seen_inv_def)
  next
    case False
    have "fst ` set (s1 @ [(f, t)]) \<subseteq> insert f (snd ` set acc)" using inv(2) by force
    hence "card (fst ` set (s1 @ [(f, t)])) \<le> m"
      using assms(3) card_mono [of "insert f (snd ` set acc)"] by (meson finite.insertI finite_imageI finite_set order_trans)
    moreover have "length (s1 @ [(f, t)]) = card (fst ` set (s1 @ [(f, t)]))"
      using inv(1) False distinct_card [of "map fst (s1 @ [(f, t)])"] by simp
    ultimately have "drop_to m (s1 @ [(f, t)]) = s1 @ [(f, t)]" by (intro drop_to_id) simp
    hence "\<not> b" "s' = s1 @ [(f, t)]" using assms(4) False by (auto simp: is_duplicate_def Let_def s1_def)
    thus ?thesis using b False inv by (auto simp: seen_inv_def)
  qed
qed

lemma dup_answers_spec:
  assumes "seen_inv win t0 acc s" "sorted (t0 # map fst rs)" "card (snd ` set acc \<union> snd ` set rs) \<le> m"
  shows "dup_answers win m rs s = dup_spec win acc rs"
  using assms
proof (induction rs arbitrary: acc s t0)
  case (Cons r rs)
  obtain t f where r: "r = (t, f)" by fastforce
  obtain b s' where d: "is_duplicate win m t f s = (b, s')" by fastforce
  have sub: "card A \<le> m" if "A \<subseteq> snd ` set acc \<union> snd ` set (r # rs)" for A
    using Cons.prems(3) card_mono [OF _ that] by auto
  have "card (insert f (snd ` set acc)) \<le> m" using r by (intro sub) auto
  moreover have "t0 \<le> t" using Cons.prems(2) r by simp
  ultimately have both: "b = (\<exists>(t', f') \<in> set acc. f' = f \<and> t - win \<le> t') \<and> seen_inv win t (if b then acc else acc @ [(t, f)]) s'"
    using seen_inv_step [OF Cons.prems(1) _ _ d] by blast
  note step = conjunct1 [OF both] conjunct2 [OF both]
  have "card (snd ` set (if b then acc else acc @ [(t, f)]) \<union> snd ` set rs) \<le> m" using r by (intro sub) (auto split: if_splits)
  from Cons.IH [OF step(2) _ this] Cons.prems(2) r d step(1) show ?case by (simp add: Let_def)
qed simp

section \<open>Properties\<close>



definition signed :: "webhook_env \<Rightarrow> string \<Rightarrow> string \<Rightarrow> headers \<Rightarrow> bool" where
  "signed w secret body hs \<longleftrightarrow>
     (case detect_provider hs of
        GITHUB \<Rightarrow> (let sig = header_or hs ''x-hub-signature-256'' [] in sig = wv_mac w secret body \<or> sig = ''sha256='' @ wv_mac w secret body)
      | GITLAB \<Rightarrow> header_or hs ''x-gitlab-token'' [] = secret
      | BITBUCKET \<Rightarrow> header_or hs ''x-hook-signature'' [] = wv_mac w secret body
      | AZURE_DEVOPS \<Rightarrow> header_or hs ''x-azure-devops-signature'' [] = wv_mac w secret body
      | UNKNOWN \<Rightarrow> False)"

lemma verified_signed: "secret \<noteq> [] \<Longrightarrow> verify w (detect_provider hs) body hs secret = Inr True \<Longrightarrow> signed w secret body hs"
  by (cases "detect_provider hs")
    (auto simp: signed_def verify_github_def verify_gitlab_def verify_mac_def compare_digest_def Let_def split: if_splits option.splits
      dest: after_prefix_SomeD)


definition test_env :: webhook_env where
  "test_env = \<lparr>wv_mac = \<lambda>s b. s @ b, wv_digest = id, wv_str = \<lambda>_. []\<rparr>"

definition gitlab_headers :: headers where
  "gitlab_headers = [(''X-Gitlab-Event'', ''Issue Hook''), (''X-Gitlab-Token'', ''s'')]"

definition secret_handler :: webhook_handler where
  "secret_handler = \<lparr>wh_secret = ''s'', wh_max_queue = 1, wh_window = 3600, wh_seen = [], wh_queue = [], wh_results = [],
     wh_stats = \<lparr>st_received = 0, st_duplicates = 0, st_rejected = 0, st_processed = 0, st_failed = 0\<rparr>\<rparr>"


lemma process_event_correct_parts:
  assumes "ps_handlers ps ev = hs" "hs \<noteq> []" "process_event ps ev 0 = (r, calls, ds)"
  shows "pr_retries r \<le> ps_max_retries ps" "calls = concat (map (\<lambda>i. map (Pair i) hs) [0..<Suc (pr_retries r)])"
    "ds = map (\<lambda>i. ps_base_delay ps * 2 ^ i) [0..<pr_retries r]"
    "\<forall>i < pr_retries r. ps_raises ps (last hs) i \<noteq> None"
    "pr_status r = COMPLETED \<longleftrightarrow> ps_raises ps (last hs) (pr_retries r) = None"
    "pr_status r \<noteq> COMPLETED \<longrightarrow> pr_status r = FAILED \<and> pr_retries r = ps_max_retries ps"
    "pr_error r = ps_raises ps (last hs) (pr_retries r)"
  using process_event_run [OF assms] by (auto split: if_splits)

text \<open>C39: The processing of an event ends after at most \<open>max_retries\<close> repetitions.  Each attempt calls every handler once, in order;
  only the last handler counts: the event is repeated while it raises, with doubling delays, and is completed when it does not.\<close>

theorem process_event_correct:
  assumes "ps_handlers ps ev = hs" "hs \<noteq> []" "process_event ps ev 0 = (r, calls, ds)"
  shows "(pr_retries r \<le> ps_max_retries ps) \<and>
     (calls = concat (map (\<lambda>i. map (Pair i) hs) [0..<Suc (pr_retries r)])) \<and>
     (ds = map (\<lambda>i. ps_base_delay ps * 2 ^ i) [0..<pr_retries r]) \<and>
     (\<forall>i < pr_retries r. ps_raises ps (last hs) i \<noteq> None) \<and>
     (pr_status r = COMPLETED \<longleftrightarrow> ps_raises ps (last hs) (pr_retries r) = None) \<and>
     (pr_status r \<noteq> COMPLETED \<longrightarrow> pr_status r = FAILED \<and> pr_retries r = ps_max_retries ps) \<and>
     (pr_error r = ps_raises ps (last hs) (pr_retries r))"
  by (intro conjI process_event_correct_parts [OF assms])

definition test_processing :: processing where
  "test_processing = \<lparr>ps_handlers = \<lambda>_. [''first'', ''second''], ps_raises = \<lambda>n k. if n = ''first'' \<or> k = 0 then Some ''boom'' else None,
     ps_max_retries = 3, ps_base_delay = 2\<rparr>"

definition test_event :: event where
  "test_event = \<lparr>we_id = 7, we_provider = GITHUB, we_type = PUSH, we_action = JStr [], we_repo = JStr [], we_payload = empty_dict,
     we_fingerprint = []\<rparr>"

theorem process_event_correct_witness:
  "pr_retries (fst (process_event test_processing test_event 0)) \<le> 3"
proof -
  obtain r cs ds where 1: "process_event test_processing test_event 0 = (r, cs, ds)" by (cases "process_event test_processing test_event 0") auto
  from process_event_correct [OF refl _ this, THEN conjunct1] show ?thesis using 1 by (simp add: test_processing_def)
qed

text \<open>The fingerprint of a GitLab issue contains no number, so a second issue of the project with the same action is dropped as
  a duplicate when it comes within the window.\<close>

theorem gitlab_issues_collide:
  assumes "handle w t eid b hs h = (Inr r, h1)" "pr_status r = QUEUED" "detect_provider hs = GITLAB"
    and "loads b = Some (JObj d)" "loads b' = Some (JObj d')" "map_of d ''issue'' = None" "map_of d' ''issue'' = None"
    and "describe GITLAB (JObj d) hs = Inr (ISSUES, action, repo)" "describe GITLAB (JObj d') hs = Inr (ISSUES, action, repo)"
    and "wh_seen h2 = wh_seen h1" "wh_window h2 = wh_window h" "wh_secret h2 = wh_secret h" "t' - wh_window h \<le> t"
  shows "\<exists>h3. handle w t' eid' b' hs h2 = (Inr (reply (Some eid') DUPLICATE), h3)"
proof -
  define f where "f = wv_digest w (join ''|'' [''gitlab'', ''issues'', py_str w action, py_str w repo, [], py_str w action])"
  have norm: "normalize w e GITLAB body hs = Inr \<lparr>we_id = e, we_provider = GITLAB, we_type = ISSUES, we_action = action, we_repo = repo,
      we_payload = JObj x, we_fingerprint = f\<rparr>"
    if "loads body = Some (JObj x)" "map_of x ''issue'' = None" "describe GITLAB (JObj x) hs = Inr (ISSUES, action, repo)" for body x e
    using that by (simp add: normalize_def fingerprint_text_def identifiers_def get_def jget_def f_def Let_def py_str_def del: describe.simps)
  obtain dup seen where d: "is_duplicate (wh_window h) 10000 t f (wh_seen h) = (dup, seen)" by fastforce
  have v: "verify w GITLAB body hs (wh_secret h) = verify w GITLAB b hs (wh_secret h)" for body by simp
  have "verify w GITLAB b hs (wh_secret h) = Inr True"
    using assms(1-3) by (auto simp: handle_def reply_def Let_def simp del: verify.simps split: sum.splits bool.splits)
  moreover from this have "\<not> dup" "wh_seen h1 = seen"
    using assms(1-3) norm [OF assms(4,6,8)] d by (auto simp: handle_def reply_def Let_def simp del: verify.simps split: if_splits)
  moreover from this d have "fst (is_duplicate (wh_window h) 10000 t' f seen) = True"
    using recorded [of "wh_window h" 10000 t f "wh_seen h" seen t'] assms(13) by simp
  ultimately show ?thesis
    using norm [OF assms(5,7,9)] assms(3,10-12) v
    by (cases "is_duplicate (wh_window h) 10000 t' f seen") (simp add: handle_def Let_def del: verify.simps)
qed

text \<open>An event that finds the queue full is rejected but remembered: its redelivery within the window is dropped as a duplicate, also
  when there is room by then.\<close>

theorem full_queue_loses_event:
  assumes "handle w t eid b hs h = (Inr r, h1)" "pr_status r = REJECTED" "verify w (detect_provider hs) b hs (wh_secret h) = Inr True"
    and "wh_seen h2 = wh_seen h1" "wh_window h2 = wh_window h" "wh_secret h2 = wh_secret h" "t' - wh_window h \<le> t"
  shows "\<exists>h3. handle w t' eid' b hs h2 = (Inr (reply (Some eid') DUPLICATE), h3)"
proof -
  obtain ev where ev: "normalize w eid (detect_provider hs) b hs = Inr ev"
    using assms(1,3) by (auto simp: handle_def Let_def split: sum.splits)
  hence ev': "normalize w eid' (detect_provider hs) b hs = Inr (ev\<lparr>we_id := eid'\<rparr>)"
    by (auto simp: normalize_def Let_def and_then_Inr)
  obtain dup seen where d: "is_duplicate (wh_window h) 10000 t (we_fingerprint ev) (wh_seen h) = (dup, seen)" by fastforce
  have "\<not> dup" "wh_seen h1 = seen"
    using assms(1-3) ev d by (auto simp: handle_def reply_def Let_def split: if_splits)
  hence "fst (is_duplicate (wh_window h) 10000 t' (we_fingerprint ev) seen) = True"
    using recorded [of "wh_window h" 10000 t "we_fingerprint ev" "wh_seen h" seen t'] assms(7) d by simp
  thus ?thesis
    using ev' assms(3-6) \<open>wh_seen h1 = seen\<close>
    by (cases "is_duplicate (wh_window h) 10000 t' (we_fingerprint ev) seen") (simp add: handle_def Let_def)
qed

definition webhook_inv :: "nat \<Rightarrow> webhook_handler \<Rightarrow> bool" where
  "webhook_inv raised h \<longleftrightarrow>
     st_received (wh_stats h) = st_duplicates (wh_stats h) + st_rejected (wh_stats h) + raised + length (wh_queue h) +
       st_processed (wh_stats h) + st_failed (wh_stats h) \<and>
     length (wh_seen h) \<le> 10000 \<and> (wh_max_queue h > 0 \<longrightarrow> int (length (wh_queue h)) \<le> wh_max_queue h)"

lemma is_duplicate_length: "length s \<le> m \<Longrightarrow> length (snd (is_duplicate win m t f s)) \<le> m"
  using drop_to_length [of m] le_trans [OF length_filter_le, of s] by (auto simp: is_duplicate_def Let_def)

text \<open>The counters add up and the bounds hold: every event received is a duplicate, rejected, raised on, waiting, or processed or
  failed.\<close>

theorem webhook_counters:
  assumes "webhook_inv n h"
  shows "webhook_inv (if isl (fst (handle w now eid body hs h)) then n + 1 else n) (snd (handle w now eid body hs h))"
    "webhook_inv n (process_next ps h)"
proof -
  have seen: "is_duplicate win 10000 t f (wh_seen h) = (b, s) \<Longrightarrow> length s \<le> 10000" for win t f b s
    using is_duplicate_length [of "wh_seen h" 10000 win t f] assms by (simp add: webhook_inv_def)
  show "webhook_inv (if isl (fst (handle w now eid body hs h)) then n + 1 else n) (snd (handle w now eid body hs h))"
    using assms by (auto simp: handle_def webhook_inv_def queue_full_def Let_def dest: seen split: sum.split bool.split prod.split)
  show "webhook_inv n (process_next ps h)"
    using assms by (auto simp: process_next_def webhook_inv_def record_result_def split: list.split)
qed

definition test_handler :: webhook_handler where
  "test_handler = \<lparr>wh_secret = [], wh_max_queue = 1, wh_window = 3600, wh_seen = [], wh_queue = [], wh_results = [],
     wh_stats = \<lparr>st_received = 0, st_duplicates = 0, st_rejected = 0, st_processed = 0, st_failed = 0\<rparr>\<rparr>"

theorem webhook_counters_witness: "webhook_inv 0 (process_next test_processing test_handler)"
  by (rule webhook_counters(2)) (simp add: webhook_inv_def test_handler_def)

text \<open>An event name that the enumeration does not have, such as GitHub's ping, makes the handler raise.\<close>

theorem unknown_github_event_raises:
  assumes "detect_provider hs = GITHUB" "wh_secret h = []" "header hs ''x-github-event'' = Some ''ping''"
  shows "fst (handle w now eid body hs h) = Inl Value_Error"
proof -
  have "type_of_value ''ping'' = Inl Value_Error" by code_simp
  thus ?thesis using assms by (simp add: handle_def verify_github_def normalize_def header_or_def Let_def)
qed

end
