(* ===== verification/Ciphers.thy ===== *)
theory Ciphers
  imports Secrets_Store
begin

text \<open>
  The cipher for data at rest (\<open>security/cipher.py\<close>), and what it means for the secrets it keeps.  Fernet itself
  is a library: a record of which keys are valid and of its two functions, where the number stands for time and
  random bytes. 
\<close>

section \<open>The library\<close>

record fernet =
  fn_valid :: "string \<Rightarrow> bool"
  fn_encrypt :: "string \<Rightarrow> nat \<Rightarrow> string \<Rightarrow> string"
  fn_decrypt :: "string \<Rightarrow> string \<Rightarrow> string option"

text \<open>Documented: a token is decrypted with the key that encrypted it, and refused with any other.\<close>

definition fernet_ok :: "fernet \<Rightarrow> bool" where
  "fernet_ok f \<longleftrightarrow> (\<forall>k n p. fn_decrypt f k (fn_encrypt f k n p) = Some p)"

definition fernet_keyed :: "fernet \<Rightarrow> bool" where
  "fernet_keyed f \<longleftrightarrow> (\<forall>k k' n p. k \<noteq> k' \<longrightarrow> fn_decrypt f k' (fn_encrypt f k n p) = None)"

section \<open>Ciphers\<close>

datatype cipher = Cipher (ci_key: string) (ci_prefix: string) (ci_provided: bool) (ci_previous: "cipher option")

datatype cipher_error = Invalid_Key | Invalid_Token

text \<open>The given key, or else that of the environment, or else a new one.\<close>

definition resolve_key :: "string option \<Rightarrow> string option \<Rightarrow> string option" where
  "resolve_key key env = (if truthy key then key else if truthy env then env else None)"

definition make_cipher :: "fernet \<Rightarrow> string option \<Rightarrow> string \<Rightarrow> string option \<Rightarrow> string \<Rightarrow> cipher_error + cipher" where
  "make_cipher f env generated key pfx =
     (case resolve_key key env of
        Some k \<Rightarrow> if fn_valid f k then Inr (Cipher k pfx True None) else Inl Invalid_Key
      | None \<Rightarrow> Inr (Cipher generated pfx False None))"

definition encrypt :: "fernet \<Rightarrow> nat \<Rightarrow> cipher \<Rightarrow> string \<Rightarrow> string" where
  "encrypt f n c p = ci_prefix c @ fn_encrypt f (ci_key c) n p"

definition strip_prefix :: "cipher \<Rightarrow> string \<Rightarrow> string" where
  "strip_prefix c t = (case after_prefix (ci_prefix c) t of Some r \<Rightarrow> r | None \<Rightarrow> t)"

definition decrypt :: "fernet \<Rightarrow> cipher \<Rightarrow> string \<Rightarrow> cipher_error + string" where
  "decrypt f c t = (case fn_decrypt f (ci_key c) (strip_prefix c t) of None \<Rightarrow> Inl Invalid_Token | Some p \<Rightarrow> Inr p)"

definition is_encrypted :: "cipher \<Rightarrow> string \<Rightarrow> bool" where
  "is_encrypted c v \<longleftrightarrow> v \<noteq> [] \<and> after_prefix (ci_prefix c) v \<noteq> None"

definition encrypt_if_not_encrypted :: "fernet \<Rightarrow> nat \<Rightarrow> cipher \<Rightarrow> string \<Rightarrow> string" where
  "encrypt_if_not_encrypted f n c p = (if is_encrypted c p then p else encrypt f n c p)"

definition decrypt_if_encrypted :: "fernet \<Rightarrow> cipher \<Rightarrow> string \<Rightarrow> cipher_error + string" where
  "decrypt_if_encrypted f c t = (if is_encrypted c t then decrypt f c t else Inr t)"

definition rotate_key :: "fernet \<Rightarrow> string option \<Rightarrow> string \<Rightarrow> string \<Rightarrow> cipher \<Rightarrow> cipher_error + cipher" where
  "rotate_key f env generated new c =
     (case make_cipher f env generated (Some new) (ci_prefix c) of
        Inl e \<Rightarrow> Inl e
      | Inr d \<Rightarrow> Inr (Cipher (ci_key d) (ci_prefix d) (ci_provided d) (Some c)))"

definition decrypt_with_previous_key :: "fernet \<Rightarrow> cipher \<Rightarrow> string \<Rightarrow> string option" where
  "decrypt_with_previous_key f c t =
     (case ci_previous c of
        None \<Rightarrow> None
      | Some d \<Rightarrow> (case decrypt f d t of Inl _ \<Rightarrow> None | Inr p \<Rightarrow> Some p))"

section \<open>Secrets at rest\<close>

text \<open>The store of secrets uses the default cipher of its process.\<close>

definition secrets_world :: "fernet \<Rightarrow> nat \<Rightarrow> cipher \<Rightarrow> (string \<Rightarrow> string option) \<Rightarrow> (string \<Rightarrow> string option) \<Rightarrow> outside" where
  "secrets_world f n c env url =
     \<lparr>o_enc = \<lambda>v. Some (encrypt f n c v), o_dec = \<lambda>t. (case decrypt f c t of Inl _ \<Rightarrow> None | Inr p \<Rightarrow> Some p), o_env = env, o_url = url\<rparr>"

section \<open>Properties\<close>

lemma strip_prefix_encrypt: "strip_prefix c (ci_prefix c @ t) = t"
  by (simp add: strip_prefix_def)

lemma decrypt_encrypt: "fernet_ok f \<Longrightarrow> decrypt f c (encrypt f n c p) = Inr p"
  by (simp add: decrypt_def encrypt_def strip_prefix_encrypt fernet_ok_def)

lemma is_encrypted_encrypt: "ci_prefix c \<noteq> [] \<Longrightarrow> is_encrypted c (encrypt f n c p)"
  by (simp add: is_encrypted_def encrypt_def)

lemma foreign_key: "fernet_keyed f \<Longrightarrow> ci_key c \<noteq> ci_key d \<Longrightarrow> ci_prefix c = ci_prefix d \<Longrightarrow> decrypt f d (encrypt f n c p) = Inl Invalid_Token"
  by (metis (mono_tags, lifting) decrypt_def encrypt_def strip_prefix_encrypt fernet_keyed_def option.simps(4))

text \<open>An instance: the key in a code of its own, and then the text.\<close>

fun key_code :: "string \<Rightarrow> string" where
  "key_code [] = ''.''"
| "key_code (c # cs) = CHR ''x'' # c # key_code cs"

definition toy_fernet :: fernet where
  "toy_fernet = \<lparr>fn_valid = \<lambda>k. k \<noteq> [], fn_encrypt = \<lambda>k n p. key_code k @ p, fn_decrypt = \<lambda>k t. after_prefix (key_code k) t\<rparr>"

lemma after_prefix_Cons: "after_prefix (a # p) (b # t) = (if a = b then after_prefix p t else None)"
  by (simp add: after_prefix_def)

lemma after_prefix_empty [simp]: "after_prefix [] t = Some t"
  by (simp add: after_prefix_def)

lemma key_code_decodes: "after_prefix (key_code k') (key_code k @ p) = (if k = k' then Some p else None)"
proof (induction k arbitrary: k')
  case Nil
  thus ?case by (cases k') (simp_all add: after_prefix_Cons)
next
  case (Cons c k)
  thus ?case by (cases k') (simp_all add: after_prefix_Cons)
qed

lemma toy_fernet_ok: "fernet_ok toy_fernet" "fernet_keyed toy_fernet"
  by (auto simp: fernet_ok_def fernet_keyed_def toy_fernet_def key_code_decodes simp del: after_prefix_append)

text \<open>What a cipher encrypted it decrypts, and recognises; encryption on demand is idempotent and is undone by decryption on
  demand exactly for texts that do not look like tokens.\<close>

theorem cipher_round_trip:
  assumes "fernet_ok f" "ci_prefix c \<noteq> []"
  shows "decrypt f c (encrypt f n c p) = Inr p" "is_encrypted c (encrypt f n c p)"
    "encrypt_if_not_encrypted f m c (encrypt_if_not_encrypted f n c p) = encrypt_if_not_encrypted f n c p"
    "\<not> is_encrypted c p \<longrightarrow> decrypt_if_encrypted f c (encrypt_if_not_encrypted f n c p) = Inr p"
    "is_encrypted c p \<longrightarrow> decrypt_if_encrypted f c (encrypt_if_not_encrypted f n c p) = decrypt f c p"
  using assms by (simp_all add: decrypt_encrypt is_encrypted_encrypt encrypt_if_not_encrypted_def decrypt_if_encrypted_def)

theorem cipher_round_trip_witness:
  "decrypt toy_fernet (Cipher ''k'' ''FNT:'' True None) (encrypt toy_fernet 0 (Cipher ''k'' ''FNT:'' True None) ''secret'') = Inr ''secret''"
  by (rule cipher_round_trip(1) [OF toy_fernet_ok(1)]) simp

text \<open>After one rotation old tokens are still readable, with the previous key; after a second one with other keys neither key
  reads them.\<close>

theorem second_rotation_loses_tokens:
  assumes "fernet_ok f" "fernet_keyed f" "rotate_key f env g1 k1 c = Inr c1" "rotate_key f env g2 k2 c1 = Inr c2"
  shows "decrypt_with_previous_key f c1 (encrypt f n c p) = Some p"
    "ci_key c \<noteq> ci_key c1 \<longrightarrow> ci_key c \<noteq> ci_key c2 \<longrightarrow>
       decrypt f c2 (encrypt f n c p) = Inl Invalid_Token \<and> decrypt_with_previous_key f c2 (encrypt f n c p) = None"
proof -
  have prev: "ci_previous c1 = Some c" "ci_previous c2 = Some c1" "ci_prefix c1 = ci_prefix c" "ci_prefix c2 = ci_prefix c"
    using assms(3,4) by (auto simp: rotate_key_def make_cipher_def split: option.splits if_splits)
  show "decrypt_with_previous_key f c1 (encrypt f n c p) = Some p"
    by (simp add: decrypt_with_previous_key_def prev decrypt_encrypt assms(1))
  show "ci_key c \<noteq> ci_key c1 \<longrightarrow> ci_key c \<noteq> ci_key c2 \<longrightarrow>
       decrypt f c2 (encrypt f n c p) = Inl Invalid_Token \<and> decrypt_with_previous_key f c2 (encrypt f n c p) = None"
    using foreign_key [OF assms(2)] prev by (simp add: decrypt_with_previous_key_def)
qed

text \<open>An empty new key does not rotate: the key of the environment is used again, or a generated one.\<close>

theorem empty_rotation:
  "rotate_key f (Some k) g [] (Cipher k pfx True None) = (if k = [] then Inr (Cipher g pfx False (Some (Cipher k pfx True None)))
     else if fn_valid f k then Inr (Cipher k pfx True (Some (Cipher k pfx True None))) else Inl Invalid_Key)"
  by (simp add: rotate_key_def make_cipher_def resolve_key_def)



end
