(* ===== verification/Llm_Condenser.thy ===== *)
theory Llm_Condenser
  imports Condensers Json
begin

text \<open>
  \<open>app/context/condenser/llm_summarizing.py\<close>: which events the condenser forgets, the text it writes about
  them, its retries with a shorter and shorter text, and the request to the language model.  The class
  \<open>LLM\<close> of \<open>app/llm/llm.py\<close> enters with the names of the parameters of its constructor; a model that answers
  is a parameter.  Durations and the metrics of an action are left out.
\<close>

section \<open>The condenser\<close>

record llm_condenser =
  lc_max_events :: nat
  lc_max_tokens :: int
  lc_max_retries :: int
  lc_scale :: real
  lc_count :: nat

definition make_llm_condenser :: "int \<Rightarrow> int \<Rightarrow> int \<Rightarrow> real \<Rightarrow> llm_condenser option" where
  "make_llm_condenser max_events max_tokens retries scale =
     (if max_events < 1 \<or> \<not> (0 < scale \<and> scale \<le> 1) then None
      else Some \<lparr>lc_max_events = nat max_events, lc_max_tokens = max_tokens, lc_max_retries = retries,
                 lc_scale = scale, lc_count = 0\<rparr>)"

definition set_max_events :: "int \<Rightarrow> llm_condenser \<Rightarrow> llm_condenser option" where
  "set_max_events n lc = (if n < 1 then None else Some (lc\<lparr>lc_max_events := nat n\<rparr>))"

definition set_max_tokens :: "int \<Rightarrow> llm_condenser \<Rightarrow> llm_condenser" where
  "set_max_tokens n lc = lc\<lparr>lc_max_tokens := max 0 n\<rparr>"

definition reset_condenser :: "llm_condenser \<Rightarrow> llm_condenser" where
  "reset_condenser lc = lc\<lparr>lc_count := 0\<rparr>"

definition llm_should :: "llm_condenser \<Rightarrow> view \<Rightarrow> bool" where
  "llm_should lc v =
     (if lc_max_tokens lc > 0 then int (token_estimate v) > lc_max_tokens lc
      else length (v_events v) > lc_max_events lc + v_keep_first v)"

section \<open>Which events are forgotten\<close>

definition event_tokens :: "vevent \<Rightarrow> int" where
  "event_tokens e = max 1 (int (case ve_content e of None \<Rightarrow> 0 | Some c \<Rightarrow> length c) div 4)"

fun token_loop :: "vevent list \<Rightarrow> nat \<Rightarrow> int \<Rightarrow> int \<Rightarrow> nat list \<Rightarrow> string list" where
  "token_loop es keep current target [] = []"
| "token_loop es keep current target (i # is) =
     (if i < keep \<or> length es \<le> i then token_loop es keep current target is
      else let rest = current - event_tokens (es ! i)
        in ve_id (es ! i) # (if rest \<le> target then [] else token_loop es keep rest target is))"

definition select_by_tokens :: "llm_condenser \<Rightarrow> view \<Rightarrow> string set" where
  "select_by_tokens lc v =
     (if int (token_estimate v) \<le> lc_max_tokens lc then {}
      else set (token_loop (v_events v) (v_keep_first v) (int (token_estimate v)) (lc_max_tokens lc)
        (sorted_list_of_set (fst (manipulation_indices v)))))"

definition select_events :: "llm_condenser \<Rightarrow> view \<Rightarrow> string set" where
  "select_events lc v =
     (if lc_max_tokens lc > 0 then select_by_tokens lc v
      else let total = length (v_events v); cutoff = int total - int (lc_max_events lc) in
        if cutoff \<le> int (v_keep_first v) then {}
        else (\<lambda>i. ve_id (v_events v ! i)) `
          ({v_keep_first v..<nat cutoff} \<inter> fst (manipulation_indices v) \<inter> {..<total}))"

section \<open>The text about the forgotten events\<close>

definition upper_char :: "char \<Rightarrow> char" where
  "upper_char c = (let n = of_char c :: nat in if 97 \<le> n \<and> n \<le> 122 then char_of (n - 32) else c)"

fun role_upper :: "vrole \<Rightarrow> string" where
  "role_upper SystemRole = ''SYSTEM''"
| "role_upper UserRole = ''USER''"
| "role_upper AssistantRole = ''ASSISTANT''"
| "role_upper ToolRole = ''TOOL''"
| "role_upper (OtherRole r) = map upper_char r"

text \<open>\<open>repr\<close> of a text and of a list of texts.\<close>

definition repr_char :: "char \<Rightarrow> char \<Rightarrow> string" where
  "repr_char q c = (let n = of_char c :: nat in
     if c = q \<or> n = 92 then [CHR 0x5C, c]
     else if n = 10 then [CHR 0x5C, CHR ''n''] else if n = 13 then [CHR 0x5C, CHR ''r'']
     else if n = 9 then [CHR 0x5C, CHR ''t'']
     else if n < 32 \<or> 127 \<le> n \<and> n \<le> 160 \<or> n = 173 then [CHR 0x5C, CHR ''x'', hex_digit (n div 16), hex_digit (n mod 16)]
     else [c])"

definition repr_text :: "string \<Rightarrow> string" where
  "repr_text s = (let q = (if CHR 0x27 \<in> set s \<and> CHR 0x22 \<notin> set s then CHR 0x22 else CHR 0x27)
     in [q] @ concat (map (repr_char q) s) @ [q])"

definition repr_texts :: "string list \<Rightarrow> string" where
  "repr_texts xs = ''['' @ join '', '' (map repr_text xs) @ '']''"

definition content_text :: "vevent \<Rightarrow> string" where
  "content_text e = (let c = (case ve_content e of None \<Rightarrow> [] | Some c \<Rightarrow> c)
     in if length c > 500 then take 500 c @ ''...[truncated]'' else c)"

definition format_event :: "nat \<Rightarrow> vevent \<Rightarrow> string" where
  "format_event i e =
     ''['' @ show_nat i @ ''] '' @
     (if calls_tools e then role_upper (ve_role e) @ '': (tool_calls: '' @
        repr_texts (map vc_name (the (ve_tool_calls e))) @ '') '' @ content_text e
      else if View_Properties.is_tool e then ''TOOL ('' @ (case ve_name e of None \<Rightarrow> ''None'' | Some n \<Rightarrow> n) @ ''): '' @ content_text e
      else role_upper (ve_role e) @ '': '' @ content_text e)"

definition format_events :: "vevent list \<Rightarrow> string" where
  "format_events es = join newline (map (\<lambda>(i, e). format_event i e) (enumerate 0 es))"

text \<open>\<open>split\<close> at the line feeds and the extractive summary.\<close>

fun split_newlines :: "string \<Rightarrow> string list" where
  "split_newlines [] = [[]]"
| "split_newlines (c # cs) =
     (if c = CHR 0x0A then [] # split_newlines cs
      else case split_newlines cs of [] \<Rightarrow> [[c]] | l # ls \<Rightarrow> (c # l) # ls)"

definition extractive_summary :: "string \<Rightarrow> string" where
  "extractive_summary t =
     (let ls = split_newlines t in
      if length ls \<le> 10 then t
      else ''## Extractive Summary (LLM unavailable)'' @ newline @ join newline (take 5 ls) @
        newline @ ''... ['' @ show_nat (length ls - 10) @ '' lines omitted] ...'' @ newline @ join newline (py_last 5 ls))"

section \<open>The request to the language model\<close>

text \<open>
  The constructor of \<open>LLM\<close> takes the token budget only; the condenser passes four other keywords.  A failing
  call, whatever the reason, is answered with the extractive summary.
\<close>

datatype llm_reply = Reply "string option" | Failure

definition llm_parameters :: "string list" where
  "llm_parameters = [''token_budget'']"

definition passed_keywords :: "string list" where
  "passed_keywords = [''provider'', ''model'', ''max_tokens'', ''temperature'']"

definition call_condenser_llm :: "string list \<Rightarrow> (string \<Rightarrow> llm_reply) \<Rightarrow> string \<Rightarrow> string option" where
  "call_condenser_llm params chat t =
     (if list_all (\<lambda>k. k \<in> set params) passed_keywords
      then (case chat t of Reply s \<Rightarrow> s | Failure \<Rightarrow> Some (extractive_summary t))
      else Some (extractive_summary t))"

section \<open>Summaries and condensation\<close>

definition to_event_content :: "nat \<Rightarrow> reason \<Rightarrow> string \<Rightarrow> string" where
  "to_event_content n r s = join newline ([''[CONDENSATION]'',
     ''Reason: '' @ (case r of REQUEST \<Rightarrow> ''request'' | TOKENS \<Rightarrow> ''tokens'' | EVENTS \<Rightarrow> ''events''),
     ''Events forgotten: '' @ show_nat n] @ (if s = [] then [] else [''Summary: '' @ s]) @ [''[END CONDENSATION]''])"

text \<open>
  The loop over the attempts, with the texts asked about: \<open>call\<close> raises (\<open>Inl\<close>) or answers, maybe with
  \<open>None\<close>; \<open>k\<close> attempts are left after \<open>a\<close>.
\<close>

fun summary_attempts :: "(string \<Rightarrow> string + string option) \<Rightarrow> real \<Rightarrow> nat \<Rightarrow> nat \<Rightarrow> string \<Rightarrow> string list \<times> string option" where
  "summary_attempts call scale a 0 t = ([], None)"
| "summary_attempts call scale a (Suc k) t =
     (case call t of
        Inr s \<Rightarrow>
          (if truthy s \<and> strip (the s) \<noteq> [] then ([t], s)
           else apfst ((#) t) (summary_attempts call scale (Suc a) k t))
      | Inl _ \<Rightarrow>
          apfst ((#) t) (summary_attempts call scale (Suc a) k
            (if k > 0 then take (nat \<lfloor>real (length t) * scale ^ (a + 1)\<rfloor>) t else t)))"

definition generate_summary :: "(string \<Rightarrow> string + string option) \<Rightarrow> llm_condenser \<Rightarrow> vevent list \<Rightarrow> string list \<times> string option" where
  "generate_summary call lc es =
     (if es = [] then ([], None)
      else map_prod id (map_option (\<lambda>s. to_event_content (length (remdups (map ve_id es))) EVENTS s @ newline @ newline @ s))
        (summary_attempts call (lc_scale lc) 0 (nat (lc_max_retries lc + 1)) (format_events es)))"

text \<open>The action, the texts asked about, and the condenser with its counter.\<close>

definition llm_condense :: "(string \<Rightarrow> string + string option) \<Rightarrow> llm_condenser \<Rightarrow> view \<Rightarrow> reason \<Rightarrow> action option \<times> string list \<times> llm_condenser" where
  "llm_condense call lc v r =
     (let F = select_events lc v in
      if F = {} then (None, [], lc)
      else let (asked, s) = generate_summary call lc (filter (\<lambda>e. ve_id e \<in> F) (v_events v))
        in (Some \<lparr>ca_forgotten = F, ca_summary = s, ca_reason = r\<rparr>, asked, lc\<lparr>lc_count := lc_count lc + 1\<rparr>))"

text \<open>The reset without a summary, for a \<open>condense\<close> that raised.\<close>

definition hard_reset_fallback :: "llm_condenser \<Rightarrow> view \<Rightarrow> reason \<Rightarrow> action option" where
  "hard_reset_fallback lc v r =
     (let total = int (length (v_events v)); keep = int (v_keep_first v);
          cutoff = total - min (int (lc_max_events lc)) (total - keep);
          F = set (map (\<lambda>i. ve_id (v_events v ! i)) (filter (\<lambda>i. \<not> int i < keep \<and> \<not> int i \<ge> cutoff \<and> i < length (v_events v))
            (sorted_list_of_set (fst (manipulation_indices v)))))
      in if F = {} then None else Some \<lparr>ca_forgotten = F, ca_summary = None, ca_reason = r\<rparr>)"

text \<open>The condenser of the program, with a model behind \<open>LLM\<close>.\<close>

definition program_call :: "(string \<Rightarrow> llm_reply) \<Rightarrow> string \<Rightarrow> string + string option" where
  "program_call chat t = Inr (call_condenser_llm llm_parameters chat t)"

lemma program_call: "program_call chat t = Inr (Some (extractive_summary t))"
  by (simp add: program_call_def call_condenser_llm_def llm_parameters_def passed_keywords_def)

definition as_condenser :: "(string \<Rightarrow> string + string option) \<Rightarrow> string \<Rightarrow> llm_condenser \<Rightarrow> condenser" where
  "as_condenser call fresh lc =
     \<lparr>cd_should = (\<lambda>v. Inr (llm_should lc v)), cd_condense = (\<lambda>v r. Inr (fst (llm_condense call lc v r))),
      cd_apply = (\<lambda>v a. Inr (apply_action fresh v a))\<rparr>"

section \<open>What is forgotten\<close>

text \<open>Without a token budget the condenser forgets what the rolling condenser forgets.\<close>

lemma select_events_no_budget:
  assumes "lc_max_tokens lc \<le> 0"
  shows "select_events lc v =
    (if lc_max_events lc + v_keep_first v < length (v_events v)
     then (\<lambda>i. ve_id (v_events v ! i)) ` ({v_keep_first v..<length (v_events v) - lc_max_events lc} \<inter> fst (manipulation_indices v))
     else {})"
proof -
  have "nat (int (length (v_events v)) - int (lc_max_events lc)) = length (v_events v) - lc_max_events lc" by simp
  moreover have "{v_keep_first v..<length (v_events v) - lc_max_events lc} \<inter> fst (manipulation_indices v) \<inter> {..<length (v_events v)} =
      {v_keep_first v..<length (v_events v) - lc_max_events lc} \<inter> fst (manipulation_indices v)" by auto
  ultimately show ?thesis using assms by (simp add: select_events_def Let_def del: nat_minus_as_int)
qed

lemma select_events_rolling:
  assumes "lc_max_tokens lc \<le> 0" and "rolling_condense (lc_max_events lc) v r = Some a"
  shows "select_events lc v = ca_forgotten a"
  using rolling_condense_Some(3,5) [OF assms(2)] by (simp add: select_events_no_budget [OF assms(1)])

lemma token_loop_ids: "set (token_loop es keep current target is) \<subseteq> ve_id ` set es"
  by (induction es keep current target "is" rule: token_loop.induct) (auto simp: Let_def)

lemma select_events_ids: "select_events lc v \<subseteq> ve_id ` set (v_events v)"
proof (cases "lc_max_tokens lc > 0")
  case True
  then show ?thesis using token_loop_ids by (simp add: select_events_def select_by_tokens_def)
qed (auto simp: select_events_def Let_def)

text \<open>With a token budget the loop takes the oldest removable events, as few as bring the estimate to the budget.\<close>

lemma token_loop_shortest:
  fixes keep es
  defines "ok \<equiv> filter (\<lambda>i. keep \<le> i \<and> i < length es)"
  shows "\<exists>k \<le> length (ok is). token_loop es keep current target is = map (\<lambda>i. ve_id (es ! i)) (take k (ok is)) \<and>
     (k < length (ok is) \<longrightarrow> current - (\<Sum>i\<leftarrow>take k (ok is). event_tokens (es ! i)) \<le> target) \<and>
     (\<forall>j. 0 < j \<and> j < k \<longrightarrow> target < current - (\<Sum>i\<leftarrow>take j (ok is). event_tokens (es ! i)))"
proof (induction "is" arbitrary: current)
  case (Cons i "is")
  show ?case
  proof (cases "keep \<le> i \<and> i < length es")
    case False
    then have "ok (i # is) = ok is" "token_loop es keep current target (i # is) = token_loop es keep current target is"
      by (auto simp: ok_def)
    with Cons.IH [of current] show ?thesis by simp
  next
    case True
    let ?rest = "current - event_tokens (es ! i)"
    have ok: "ok (i # is) = i # ok is" using True by (simp add: ok_def)
    show ?thesis
    proof (cases "?rest \<le> target")
      case rest: True
      with True show ?thesis by (intro exI [of _ 1]) (simp add: ok Let_def)
    next
      case rest: False
      from Cons.IH [of ?rest] obtain k where k: "k \<le> length (ok is)"
          "token_loop es keep ?rest target is = map (\<lambda>i. ve_id (es ! i)) (take k (ok is))"
          "k < length (ok is) \<longrightarrow> ?rest - (\<Sum>i\<leftarrow>take k (ok is). event_tokens (es ! i)) \<le> target"
          "\<And>j. 0 < j \<Longrightarrow> j < k \<Longrightarrow> target < ?rest - (\<Sum>i\<leftarrow>take j (ok is). event_tokens (es ! i))"
        by blast
      have "target < current - (\<Sum>i\<leftarrow>take j (i # ok is). event_tokens (es ! i))" if "0 < j" "j < Suc k" for j
        using that rest k(4) [of "j - 1"] by (cases j; cases "j = 1") (simp_all add: algebra_simps)
      moreover have "token_loop es keep current target (i # is) = map (\<lambda>i. ve_id (es ! i)) (take (Suc k) (i # ok is))"
        using True rest k(2) by (simp add: Let_def)
      ultimately show ?thesis unfolding ok using k(1,3) by (intro exI [of _ "Suc k"]) (auto simp: algebra_simps)
    qed
  qed
qed (simp add: ok_def)

text \<open>over its token budget the condenser forgets the oldest removable events outside of the protected zone, no more
  than bring its estimate within the budget, and all of them when none suffices.\<close>

theorem token_selection_shortest:
  assumes "0 < lc_max_tokens lc" "lc_max_tokens lc < int (token_estimate v)"
  defines "removable \<equiv> filter (\<lambda>i. v_keep_first v \<le> i \<and> i < length (v_events v)) (sorted_list_of_set (fst (manipulation_indices v)))"
    and "left \<equiv> \<lambda>is. int (token_estimate v) - (\<Sum>i\<leftarrow>is. event_tokens (v_events v ! i))"
  shows "\<exists>k \<le> length removable. select_events lc v = (\<lambda>i. ve_id (v_events v ! i)) ` set (take k removable) \<and>
    (k < length removable \<longrightarrow> left (take k removable) \<le> lc_max_tokens lc) \<and>
    (\<forall>j < k. lc_max_tokens lc < left (take j removable))"
proof -
  obtain k where k: "k \<le> length removable"
      "token_loop (v_events v) (v_keep_first v) (int (token_estimate v)) (lc_max_tokens lc) (sorted_list_of_set (fst (manipulation_indices v)))
        = map (\<lambda>i. ve_id (v_events v ! i)) (take k removable)"
      "k < length removable \<longrightarrow> left (take k removable) \<le> lc_max_tokens lc"
      "\<forall>j. 0 < j \<and> j < k \<longrightarrow> lc_max_tokens lc < left (take j removable)"
    using token_loop_shortest unfolding removable_def left_def by blast
  have "lc_max_tokens lc < left (take j removable)" if "j < k" for j
    using that k(4) assms(2) by (cases "j = 0") (simp_all add: left_def)
  with k(1-3) assms(1,2) show ?thesis by (intro exI [of _ k]) (simp add: select_events_def select_by_tokens_def)
qed

section \<open>The summary\<close>

lemma summary_visible: "strip (extractive_summary (format_events (e # es))) \<noteq> []"
proof -
  let ?t = "format_events (e # es)"
  have t: "CHR 0x5B \<in> set ?t" by (cases es) (simp_all add: format_events_def format_event_def)
  have "\<exists>x \<in> {CHR 0x5B, CHR 0x23}. x \<in> set (extractive_summary ?t)"
  proof (cases "length (split_newlines ?t) \<le> 10")
    case True
    with t show ?thesis by (simp add: extractive_summary_def)
  qed (simp add: extractive_summary_def Let_def)
  then obtain x where "x \<in> set (extractive_summary ?t)" "x = CHR 0x5B \<or> x = CHR 0x23" by blast
  moreover from this(2) have "\<not> is_space x" by (auto simp: is_space_def)
  ultimately show ?thesis by (rule_tac strip_ne)
qed

lemma generate_summary_program:
  assumes "0 \<le> lc_max_retries lc" "es \<noteq> []"
  defines "t \<equiv> format_events es" and "s \<equiv> extractive_summary (format_events es)"
  shows "generate_summary (program_call chat) lc es =
    ([t], Some (to_event_content (card (ve_id ` set es)) EVENTS s @ newline @ newline @ s))"
proof -
  obtain k where k: "nat (lc_max_retries lc + 1) = Suc k" using assms(1) by (cases "nat (lc_max_retries lc + 1)") simp_all
  have "strip s \<noteq> []" using summary_visible assms(2) unfolding s_def by (cases es) auto
  then have "truthy (Some s) \<and> strip s \<noteq> []" by (auto simp: strip_def)
  then show ?thesis using assms(2) by (simp add: generate_summary_def k program_call t_def s_def length_remdups_card_conv)
qed

text \<open>The language model is never asked: whatever stands behind \<open>LLM\<close>, the forgotten events are replaced by the
  extractive summary, which the event contains twice, and one attempt is made.\<close>

theorem llm_never_asked:
  fixes lc v
  assumes "0 \<le> lc_max_retries lc" "select_events lc v \<noteq> {}"
  defines "F \<equiv> select_events lc v"
  defines "t \<equiv> format_events (filter (\<lambda>e. ve_id e \<in> F) (v_events v))"
  shows "llm_condense (program_call chat) lc v r =
    (Some \<lparr>ca_forgotten = F,
       ca_summary = Some (to_event_content (card F) EVENTS (extractive_summary t) @ newline @ newline @ extractive_summary t),
       ca_reason = r\<rparr>,
     [t], lc\<lparr>lc_count := lc_count lc + 1\<rparr>)"
proof -
  let ?es = "filter (\<lambda>e. ve_id e \<in> F) (v_events v)"
  have ids: "ve_id ` set ?es = F" using select_events_ids [of lc v] by (auto simp: F_def)
  have "?es \<noteq> []"
  proof
    assume "?es = []"
    with ids have "F = {}" by (metis empty_set image_empty)
    with assms(2) show False by (simp add: F_def)
  qed
  from generate_summary_program [OF assms(1) this] ids assms(2) show ?thesis
    by (simp add: llm_condense_def F_def [symmetric] t_def)
qed

section \<open>Applying the action\<close>

lemma plain_append_ids:
  assumes "\<not> View_Properties.is_tool e" "\<not> is_assistant e"
  shows "declared_ids (es @ [e]) = declared_ids es" "response_ids (es @ [e]) = response_ids es"
  using assms by (simp_all add: declared_ids_def response_ids_def)

lemma uniq_drop_append_plain: "\<not> View_Properties.is_tool e \<Longrightarrow> uniq_drop seen (es @ [e]) = uniq_drop seen es @ [e]"
  by (induction seen es rule: uniq_drop.induct) (auto simp: Let_def)

lemma chain_append_plain:
  assumes "\<not> View_Properties.is_tool e" "\<not> is_assistant e"
  shows "match_enforce (uniq_enforce (batch_enforce (es @ [e]))) = match_enforce (uniq_enforce (batch_enforce es)) @ [e]"
  using assms
  by (simp add: batch_enforce_def plain_append_ids uniq_enforce_def uniq_drop_append_plain match_enforce_def
      batch_keep_def match_event_def map_filter_def)

lemma batch_scan_append_plain:
  "\<not> View_Properties.is_tool e \<Longrightarrow> \<not> is_assistant e \<Longrightarrow> batch_scan act (es @ [e]) = batch_scan act es"
  by (induction act es rule: batch_scan.induct) auto

lemma user_event_plain [simp]: "\<not> View_Properties.is_tool (user_event i c)" "\<not> is_assistant (user_event i c)"
  by (simp_all add: user_event_def is_tool_def is_assistant_def)

lemma apply_summary:
  assumes "v_properties v = default_properties" "ca_forgotten a \<noteq> {}" "ca_summary a = Some s" "s \<noteq> []"
  shows "v_events (apply_action fresh v a) = v_events (apply_action fresh v (a\<lparr>ca_summary := None\<rparr>)) @ [user_event fresh s]"
    and "v_properties (apply_action fresh v a) = default_properties"
    and "v_keep_first (apply_action fresh v a) = v_keep_first v"
  using assms
  by (simp_all add: apply_action_def remove_event_ids_def new_view_def enforce_properties_def default_chain
      add_event_def chain_append_plain)

lemma valid_append_plain:
  assumes "v_properties v = default_properties" "v_properties w = default_properties" "is_valid w"
    and "v_events v = v_events w @ [user_event i c]"
  shows "is_valid v"
proof -
  have "\<not> View_Properties.is_tool (user_event i c)" "\<not> is_assistant (user_event i c)" by simp_all
  note plain = plain_append_ids [OF this] batch_scan_append_plain [OF this]
  have "uniq_scan [] (v_events w @ [user_event i c]) = uniq_scan [] (v_events w)" by (rule uniq_scan_append_plain) simp
  then show ?thesis using assms by (simp add: default_checks batch_check_def uniq_check_def match_check_def plain)
qed

lemma select_rolling_Some:
  assumes "lc_max_tokens lc \<le> 0" "select_events lc v \<noteq> {}"
  shows "rolling_condense (lc_max_events lc) v r = Some \<lparr>ca_forgotten = select_events lc v, ca_summary = None, ca_reason = r\<rparr>"
proof -
  have l: "lc_max_events lc + v_keep_first v < length (v_events v)"
    using assms by (simp add: select_events_no_budget split: if_splits)
  with rolling_condense_eq [OF l, of r] assms show ?thesis by (simp add: select_events_no_budget Let_def split: if_splits)
qed

text \<open>Applied to a well-formed view, the condenser's action gives a valid view that is no longer than before: the view
  the rolling condenser would leave, with every event of the protected zone, and the summary behind it.\<close>

theorem llm_apply_correct:
  assumes "wf_view v" "cache_ok v" "lc_max_tokens lc \<le> 0" "0 \<le> lc_max_retries lc"
    and "fst (llm_condense (program_call chat) lc v r) = Some a"
  shows "is_valid (apply_action fresh v a)" "length (v_events (apply_action fresh v a)) \<le> length (v_events v)"
    "v_events (apply_action fresh v a) = v_events (apply_action fresh v (a\<lparr>ca_summary := None\<rparr>)) @ [user_event fresh (the (ca_summary a))]"
    "\<forall>i < v_keep_first v. ve_id (v_events v ! i) \<in> ve_id ` set (v_events (apply_action fresh v a))"
proof -
  have F: "select_events lc v \<noteq> {}" using assms(5) by (auto simp: llm_condense_def Let_def)
  note c = llm_never_asked [OF assms(4) F, of chat r]
  from assms(5) c obtain s where a: "ca_forgotten a = select_events lc v" "ca_summary a = Some s" "ca_reason a = r" "s \<noteq> []"
    by (auto simp: to_event_content_def newline_def)
  have rolling: "rolling_condense (lc_max_events lc) v r = Some (a\<lparr>ca_summary := None\<rparr>)"
    using select_rolling_Some [OF assms(3) F, of r] a by (cases a) simp
  have p: "v_properties v = default_properties" using wf_viewD(1) [OF assms(1)] .
  note ap = apply_summary [OF p, of a s fresh] and k = rolling_apply_facts [OF assms(1,2) rolling, of fresh]
  show ev: "v_events (apply_action fresh v a) = v_events (apply_action fresh v (a\<lparr>ca_summary := None\<rparr>)) @ [user_event fresh (the (ca_summary a))]"
    using ap(1) F a by simp
  have "v_properties (apply_action fresh v (a\<lparr>ca_summary := None\<rparr>)) = default_properties"
    using p by (simp add: apply_action_def remove_event_ids_def new_view_def enforce_properties_def)
  from valid_append_plain [OF _ this _ ev] ap(2) F a k show "is_valid (apply_action fresh v a)" by simp
  show "length (v_events (apply_action fresh v a)) \<le> length (v_events v)"
    "\<forall>i < v_keep_first v. ve_id (v_events v ! i) \<in> ve_id ` set (v_events (apply_action fresh v a))"
    using k unfolding ev by auto
qed

section \<open>Chats without tools\<close>

definition plain_event :: "vevent \<Rightarrow> bool" where
  "plain_event e \<longleftrightarrow> \<not> View_Properties.is_tool e \<and> \<not> has_tool_calls e"

definition chat_view :: "view \<Rightarrow> bool" where
  "chat_view v \<longleftrightarrow> v_properties v = default_properties \<and> cache_ok v \<and> list_all plain_event (v_events v) \<and>
     distinct (map ve_id (v_events v)) \<and> 1 \<le> v_keep_first v"

lemma plain_chain:
  assumes "list_all plain_event es"
  shows "match_enforce (uniq_enforce (batch_enforce es)) = es"
proof -
  have b: "batch_enforce es = es"
    using assms by (simp add: batch_enforce_def batch_keep_def plain_event_def list_all_iff filter_id_conv)
  have u: "uniq_drop seen es = es" for seen
    using assms by (induction es arbitrary: seen) (simp_all add: plain_event_def)
  have "List.map_filter (match_event rs ds) es = es" for rs ds
    using assms by (induction es) (simp_all add: plain_event_def map_filter_simps map_filter_Cons' match_event_def)
  then have "match_enforce es = es" by (simp add: match_enforce_def)
  with b u show ?thesis by (simp add: uniq_enforce_def)
qed

lemma chat_manipulable:
  assumes "chat_view v"
  shows "fst (manipulation_indices v) = {v_keep_first v..<length (v_events v)}"
proof (intro set_eqI iffI)
  fix i
  have c: "cache_ok v" "v_properties v = default_properties" "1 \<le> v_keep_first v"
    using assms by (simp_all add: chat_view_def)
  show "i \<in> {v_keep_first v..<length (v_events v)}" if "i \<in> fst (manipulation_indices v)"
    using manipulation_indices_bound [OF c(1) _ _ that] c(2) default_props_ok by (simp add: default_properties_def)
  assume i: "i \<in> {v_keep_first v..<length (v_events v)}"
  then have "plain_event (v_events v ! i)" using assms by (simp add: chat_view_def list_all_length)
  with i c(3) have "i \<in> standalone_indices (v_events v)" by (simp add: standalone_indices_def plain_event_def)
  with i c show "i \<in> fst (manipulation_indices v)" by (intro standalone_manipulable) simp_all
qed

lemma chat_apply:
  assumes "chat_view v" "ca_forgotten a \<noteq> {}" "ca_summary a = Some s" "s \<noteq> []"
  shows "v_events (apply_action fresh v a) = filter (\<lambda>e. ve_id e \<notin> ca_forgotten a) (v_events v) @ [user_event fresh s]"
    "v_keep_first (apply_action fresh v a) = v_keep_first v"
    "fresh \<notin> ve_id ` set (v_events v) \<Longrightarrow> chat_view (apply_action fresh v a)"
proof -
  let ?es = "filter (\<lambda>e. ve_id e \<notin> ca_forgotten a) (v_events v)"
  have p: "v_properties v = default_properties" and l: "list_all plain_event (v_events v)"
    using assms(1) by (simp_all add: chat_view_def)
  have l': "list_all plain_event ?es" using l by (auto simp: list_all_iff)
  note ap = apply_summary [OF p assms(2-4), of fresh]
  show ev: "v_events (apply_action fresh v a) = ?es @ [user_event fresh s]"
    using p assms(2) unfolding ap(1)
    by (simp add: apply_action_def remove_event_ids_def new_view_def enforce_properties_def default_chain plain_chain [OF l'])
  show "v_keep_first (apply_action fresh v a) = v_keep_first v" by (rule ap(3))
  have "cache_ok (apply_action fresh v a)" using assms(2) by (simp add: apply_action_def Let_def)
  moreover have "plain_event (user_event fresh s)"
    by (simp add: plain_event_def user_event_def has_tool_calls_def is_tool_def)
  ultimately show "chat_view (apply_action fresh v a)" if "fresh \<notin> ve_id ` set (v_events v)"
    using assms(1) that l' ap(2,3) by (simp add: chat_view_def ev distinct_map_filter) (auto simp: user_event_def)
qed

text \<open>\<open>if should_condense(view): view = apply(view, condense(view))\<close>.\<close>

definition condense_round :: "(string \<Rightarrow> llm_reply) \<Rightarrow> llm_condenser \<Rightarrow> string \<Rightarrow> view \<Rightarrow> view" where
  "condense_round chat lc fresh v =
     (if llm_should lc v then
        (case fst (llm_condense (program_call chat) lc v EVENTS) of None \<Rightarrow> v | Some a \<Rightarrow> apply_action fresh v a)
      else v)"

lemma filter_middle:
  assumes "distinct (map f xs)" "k \<le> m" "m \<le> length xs"
  shows "filter (\<lambda>x. f x \<notin> (\<lambda>i. f (xs ! i)) ` {k..<m}) xs = take k xs @ drop m xs"
proof -
  have xs: "xs = take k xs @ drop k (take m xs) @ drop m xs"
    using assms(2) by (metis append_take_drop_id append.assoc min.absorb1 take_take)
  have "map ((!) xs) [k..<m] = drop k (take m xs)" using assms(2,3) by (intro nth_equalityI) simp_all
  then have "(!) xs ` {k..<m} = set (drop k (take m xs))" by (metis list.set_map set_upt)
  then have mid: "(\<lambda>i. f (xs ! i)) ` {k..<m} = f ` set (drop k (take m xs))" by (metis image_image)
  have "distinct (map f (take k xs @ drop k (take m xs) @ drop m xs))" using assms(1) xs by simp
  then have "\<forall>x \<in> set (take k xs) \<union> set (drop m xs). f x \<notin> f ` set (drop k (take m xs))"
    by (simp add: Int_commute disjoint_iff) blast
  then show ?thesis unfolding mid by (subst xs) (simp add: filter_id_conv)
qed

lemma condense_round_chat:
  assumes "chat_view v" "lc_max_tokens lc \<le> 0" "0 \<le> lc_max_retries lc" "llm_should lc v" "fresh \<notin> ve_id ` set (v_events v)"
  defines "n \<equiv> lc_max_events lc" and "k \<equiv> v_keep_first v" and "es \<equiv> v_events v"
  shows "\<exists>s. v_events (condense_round chat lc fresh v) = take k es @ drop (length es - n) es @ [user_event fresh s]"
    "chat_view (condense_round chat lc fresh v)" "v_keep_first (condense_round chat lc fresh v) = k"
    "llm_should lc (condense_round chat lc fresh v)"
proof -
  have l: "n + k < length es" using assms(2,4) by (simp add: llm_should_def n_def k_def es_def)
  have F: "select_events lc v = (\<lambda>i. ve_id (es ! i)) ` {k..<length es - n}"
    using l assms(2) by (simp add: select_events_no_budget chat_manipulable [OF assms(1)] n_def k_def es_def Int_absorb2 ivl_subset)
  moreover have "k < length es - n" using l by simp
  ultimately have ne: "select_events lc v \<noteq> {}" by simp
  from llm_never_asked [OF assms(3) ne, of chat EVENTS] obtain a s where
    a: "fst (llm_condense (program_call chat) lc v EVENTS) = Some a" "ca_forgotten a = select_events lc v" "ca_summary a = Some s" "s \<noteq> []"
    by (auto simp: to_event_content_def newline_def)
  have r: "condense_round chat lc fresh v = apply_action fresh v a" using assms(4) a(1) by (simp add: condense_round_def)
  note ca = chat_apply [OF assms(1) _ a(3,4), of fresh]
  have d: "distinct (map ve_id es)" using assms(1) by (simp add: chat_view_def es_def)
  have ev: "v_events (condense_round chat lc fresh v) = take k es @ drop (length es - n) es @ [user_event fresh s]"
    using ca(1) ne l filter_middle [OF d, of k "length es - n"] unfolding r a(2) F es_def [symmetric] by simp
  then show "\<exists>s. v_events (condense_round chat lc fresh v) = take k es @ drop (length es - n) es @ [user_event fresh s]" ..
  show "chat_view (condense_round chat lc fresh v)" "v_keep_first (condense_round chat lc fresh v) = k"
    using ca(2,3) ne assms(5) by (simp_all add: r a(2) k_def)
  then show "llm_should lc (condense_round chat lc fresh v)"
    using assms(2) l by (simp add: llm_should_def ev) (simp add: n_def k_def)
qed

lemma condense_rounds_events:
  fixes chat
  assumes "chat_view v" "lc_max_tokens lc \<le> 0" "0 \<le> lc_max_retries lc" "llm_should lc v"
    and "distinct fs" "set fs \<inter> ve_id ` set (v_events v) = {}"
  defines "k \<equiv> v_keep_first v" and "w \<equiv> fold (condense_round chat lc) fs v"
  shows "chat_view w \<and> llm_should lc w \<and> v_keep_first w = k \<and> ve_id ` set (v_events w) \<subseteq> ve_id ` set (v_events v) \<union> set fs \<and>
    (\<exists>ss. map ve_id ss = fs \<and> v_events w = take k (v_events v) @
       (if fs = [] then drop k (v_events v) else py_last (lc_max_events lc + 1) (drop k (v_events v) @ ss)))"
  using assms(5,6) unfolding w_def
proof (induction fs rule: rev_induct)
  case Nil
  with assms(1,4) show ?case by (simp add: k_def)
next
  case (snoc f fs)
  let ?w = "fold (condense_round chat lc) fs v" and ?n = "lc_max_events lc"
  have l: "?n + k < length (v_events v)" using assms(2,4) by (simp add: llm_should_def k_def)
  have IH: "chat_view ?w" "llm_should lc ?w" "v_keep_first ?w = k" "ve_id ` set (v_events ?w) \<subseteq> ve_id ` set (v_events v) \<union> set fs"
      "\<exists>ss. map ve_id ss = fs \<and> v_events ?w = take k (v_events v) @
        (if fs = [] then drop k (v_events v) else py_last (?n + 1) (drop k (v_events v) @ ss))"
    using snoc by auto
  then obtain ss where ss: "map ve_id ss = fs" "v_events ?w = take k (v_events v) @
      (if fs = [] then drop k (v_events v) else py_last (?n + 1) (drop k (v_events v) @ ss))" by blast
  have "f \<notin> ve_id ` set (v_events ?w)" using IH(4) snoc.prems by auto
  note st = condense_round_chat [OF IH(1) assms(2,3) IH(2) this, of chat]
  obtain s where s: "v_events (condense_round chat lc f ?w) =
      take k (v_events ?w) @ drop (length (v_events ?w) - ?n) (v_events ?w) @ [user_event f s]"
    using st(1) IH(3) by auto
  define T where "T = drop k (v_events v) @ ss"
  have T: "?n < length T" using l by (simp add: T_def)
  have w: "v_events ?w = take k (v_events v) @ (if fs = [] then T else py_last (?n + 1) T)"
    using ss by (auto simp: T_def)
  have "v_events (condense_round chat lc f ?w) = take k (v_events v) @ py_last (?n + 1) (T @ [user_event f s])"
    using l T unfolding s w by (auto simp: py_last_def min_def Suc_diff_Suc)
  then have "\<exists>ss. map ve_id ss = fs @ [f] \<and> v_events (condense_round chat lc f ?w) = take k (v_events v) @ py_last (?n + 1) (drop k (v_events v) @ ss)"
    using ss(1) by (intro exI [of _ "ss @ [user_event f s]"]) (simp add: T_def user_event_def)
  moreover have "ve_id ` set (v_events (condense_round chat lc f ?w)) \<subseteq> insert f (ve_id ` set (v_events ?w))"
    unfolding s using set_take_subset set_drop_subset by (fastforce simp: user_event_def)
  ultimately show ?case using st IH(3,4) by auto
qed

text \<open>In a chat without tools condensation never settles: the condensed view is over its limit again, because the summary
  is an event too.  After as many rounds as the window has events, with no new message in between, only summaries of
  summaries are left behind the protected zone.\<close>

theorem condensation_never_settles:
  fixes chat
  assumes "chat_view v" "lc_max_tokens lc \<le> 0" "0 \<le> lc_max_retries lc" "llm_should lc v"
    and "distinct fs" "set fs \<inter> ve_id ` set (v_events v) = {}"
  defines "k \<equiv> v_keep_first v" and "w \<equiv> fold (condense_round chat lc) fs v"
  shows "llm_should lc w" "take k (v_events w) = take k (v_events v)"
    "lc_max_events lc < length fs \<Longrightarrow> \<forall>e \<in> set (drop k (v_events w)). ve_id e \<in> set fs"
proof -
  note r = condense_rounds_events [OF assms(1-6), of chat, folded k_def w_def]
  show "llm_should lc w" using r by blast
  obtain ss where ss: "map ve_id ss = fs" "v_events w = take k (v_events v) @
      (if fs = [] then drop k (v_events v) else py_last (lc_max_events lc + 1) (drop k (v_events v) @ ss))" using r by blast
  have l: "k < length (v_events v)" using assms(2,4) by (simp add: llm_should_def k_def)
  then show "take k (v_events w) = take k (v_events v)" unfolding ss(2) by simp
  show "\<forall>e \<in> set (drop k (v_events w)). ve_id e \<in> set fs" if "lc_max_events lc < length fs"
  proof -
    have "lc_max_events lc + 1 \<le> length ss" using that ss(1) by (metis Suc_eq_plus1 Suc_leI length_map)
    then have "drop k (v_events w) = py_last (lc_max_events lc + 1) ss"
      using that l unfolding ss(2) by (auto simp: py_last_append)
    then show ?thesis using set_py_last ss(1) by fastforce
  qed
qed

section \<open>The size of a condensed chat\<close>

definition chars :: "vevent list \<Rightarrow> nat" where
  "chars es = sum_list (map (\<lambda>e. case ve_content e of None \<Rightarrow> 0 | Some c \<Rightarrow> length c) es)"

lemma chat_estimate:
  assumes "chat_view v"
  shows "token_estimate v = max 1 (chars (v_events v) div 4)"
proof -
  have z: "list_all plain_event es \<Longrightarrow>
      sum_list (map (\<lambda>e. case ve_tool_calls e of None \<Rightarrow> 0 | Some cs \<Rightarrow> sum_list (map (\<lambda>c. length (vc_arguments c)) cs)) es) = 0" for es
    by (induction es) (auto simp: plain_event_def has_tool_calls_def split: option.splits)
  have "list_all plain_event (v_events v)" using assms by (simp add: chat_view_def)
  from z [OF this] show ?thesis unfolding token_estimate_def chars_def Let_def by (simp only: add_0_right)
qed

lemma chars_filter: "chars (filter P es) + chars (filter (\<lambda>e. \<not> P e) es) = chars es"
  by (induction es) (auto simp: chars_def)

lemma length_join: "sum_list (map length xs) \<le> length (join sep xs)"
  by (induction sep xs rule: join.induct) simp_all

lemma chars_formatted:
  assumes "\<forall>e \<in> set es. \<forall>c. ve_content e = Some c \<longrightarrow> length c \<le> 500"
  shows "chars es \<le> length (format_events es)"
proof -
  have c: "(case ve_content e of None \<Rightarrow> 0 | Some c \<Rightarrow> length c) \<le> length (format_event i e)" if "e \<in> set es" for i e
  proof -
    have "(case ve_content e of None \<Rightarrow> 0 | Some c \<Rightarrow> length c) = length (content_text e)"
      using assms that by (auto simp: content_text_def split: option.split)
    then show ?thesis by (simp add: format_event_def)
  qed
  have "chars es \<le> sum_list (map (\<lambda>(i, e). length (format_event i e)) (enumerate n es))" for n
    using c by (induction es arbitrary: n) (auto simp: chars_def intro!: add_mono)
  also have "map (\<lambda>(i, e). length (format_event i e)) (enumerate 0 es) = map length (map (\<lambda>(i, e). format_event i e) (enumerate 0 es))"
    by (simp add: comp_def case_prod_unfold)
  finally show ?thesis using length_join order_trans unfolding format_events_def by blast
qed

text \<open>When the forgotten messages are short and few, the summary holds their texts twice: the condensed chat is longer than
  before, and over a token budget it stays over it.\<close>

theorem condensation_grows:
  assumes "chat_view v" "0 \<le> lc_max_retries lc" "fresh \<notin> ve_id ` set (v_events v)"
    and "fst (llm_condense (program_call chat) lc v r) = Some a"
  defines "es \<equiv> filter (\<lambda>e. ve_id e \<in> ca_forgotten a) (v_events v)"
  assumes "\<forall>e \<in> set es. \<forall>c. ve_content e = Some c \<longrightarrow> length c \<le> 500" "length (split_newlines (format_events es)) \<le> 10"
  shows "token_estimate v < token_estimate (apply_action fresh v a)"
    "0 < lc_max_tokens lc \<Longrightarrow> llm_should lc v \<Longrightarrow> llm_should lc (apply_action fresh v a)"
proof -
  have F: "select_events lc v \<noteq> {}" using assms(4) by (auto simp: llm_condense_def Let_def)
  note c = llm_never_asked [OF assms(2) F, of chat r]
  let ?t = "format_events es"
  have a: "ca_forgotten a = select_events lc v" using assms(4) c by auto
  let ?s = "to_event_content (card (ca_forgotten a)) EVENTS ?t @ newline @ newline @ ?t"
  have x: "extractive_summary ?t = ?t" using assms(7) by (simp add: extractive_summary_def)
  have s: "ca_summary a = Some ?s" using assms(4) c unfolding es_def a by (auto simp: x [unfolded es_def a])
  have len: "2 * chars es + 60 \<le> length ?s"
    using chars_formatted [OF assms(6)] by (cases "?t = []") (simp_all add: to_event_content_def newline_def)
  have ne: "?s \<noteq> []" by (simp add: to_event_content_def newline_def)
  note ap = chat_apply [OF assms(1) _ s ne, of fresh]
  have "chars (v_events (apply_action fresh v a)) = chars (filter (\<lambda>e. ve_id e \<notin> ca_forgotten a) (v_events v)) + length ?s"
    using ap(1) F a by (simp add: chars_def user_event_def)
  moreover have "chars es + chars (filter (\<lambda>e. ve_id e \<notin> ca_forgotten a) (v_events v)) = chars (v_events v)"
    unfolding es_def by (rule chars_filter)
  ultimately have "chars (v_events v) + 60 \<le> chars (v_events (apply_action fresh v a))" using len by linarith
  then have "(chars (v_events v) + 60) div 4 \<le> chars (v_events (apply_action fresh v a)) div 4" by (rule div_le_mono)
  then have "chars (v_events v) div 4 + 15 \<le> chars (v_events (apply_action fresh v a)) div 4" by simp
  then show g: "token_estimate v < token_estimate (apply_action fresh v a)"
    using chat_estimate [OF assms(1)] chat_estimate [OF ap(3)] F a assms(3) by simp
  show "llm_should lc (apply_action fresh v a)" if "0 < lc_max_tokens lc" "llm_should lc v"
    using that g by (simp add: llm_should_def)
qed


definition chat_demo :: view where
  "chat_demo = new_view [msg ''s'' SystemRole, msg ''u1'' UserRole, msg ''a1'' AssistantRole, msg ''u2'' UserRole] [] 1"

definition demo_condenser :: "int \<Rightarrow> llm_condenser" where
  "demo_condenser tokens = \<lparr>lc_max_events = 2, lc_max_tokens = tokens, lc_max_retries = 5, lc_scale = 8 / 10, lc_count = 0\<rparr>"

lemma chat_demo_ok:
  "chat_view chat_demo" "llm_should (demo_condenser 0) chat_demo" "llm_should (demo_condenser 3) chat_demo"
  "map ve_id (v_events chat_demo) = [''s'', ''u1'', ''a1'', ''u2'']"
  by (simp_all add: chat_view_def chat_demo_def new_view_def cache_ok_def plain_event_def llm_should_def demo_condenser_def
      token_estimate_def) (simp_all add: msg_def)

theorem condensation_never_settles_witness:
  "llm_should (demo_condenser 0) (fold (condense_round (\<lambda>_. Failure) (demo_condenser 0)) [''x'', ''y'', ''z''] chat_demo) \<and>
   (\<forall>e \<in> set (drop (v_keep_first chat_demo) (v_events (fold (condense_round (\<lambda>_. Failure) (demo_condenser 0)) [''x'', ''y'', ''z''] chat_demo))).
      ve_id e \<in> {''x'', ''y'', ''z''})"
proof -
  have "ve_id ` set (v_events chat_demo) = set (map ve_id (v_events chat_demo))" by simp
  then have "set [''x'', ''y'', ''z''] \<inter> ve_id ` set (v_events chat_demo) = {}" by (simp only: chat_demo_ok(4)) simp
  from condensation_never_settles [OF chat_demo_ok(1) _ _ chat_demo_ok(2) _ this] show ?thesis by (simp add: demo_condenser_def)
qed


lemma chat_demo_selects: "select_events (demo_condenser 0) chat_demo = {''u1''}"
proof -
  have "fst (manipulation_indices chat_demo) = {1..<4}"
    using chat_manipulable [OF chat_demo_ok(1)] by (simp add: chat_demo_def new_view_def numeral_eq_Suc)
  moreover have "{Suc 0..<2} \<inter> {Suc 0..<4} = {1::nat}" by auto
  ultimately show ?thesis
    by (simp add: select_events_no_budget demo_condenser_def) (simp add: chat_demo_def new_view_def msg_def)
qed

theorem llm_never_asked_witness:
  "fst (snd (llm_condense (program_call (\<lambda>_. Reply (Some ''short''))) (demo_condenser 0) chat_demo EVENTS)) = [''[0] USER: text'']"
proof -
  have "format_events (filter (\<lambda>e. ve_id e \<in> {''u1''}) (v_events chat_demo)) = ''[0] USER: text''"
    by (simp add: chat_demo_def new_view_def msg_def format_events_def format_event_def is_tool_def is_assistant_def
        content_text_def show_nat.simps [of 0]) code_simp
  moreover have "0 \<le> lc_max_retries (demo_condenser 0)" by (simp add: demo_condenser_def)
  moreover have "select_events (demo_condenser 0) chat_demo \<noteq> {}" by (simp add: chat_demo_selects)
  ultimately show ?thesis by (simp add: llm_never_asked chat_demo_selects)
qed

end
