(* ===== verification/Llm_Analyzer.thy ===== *)
theory Llm_Analyzer
  imports Security_Analysis Json
begin

text \<open>
  \<open>app/security/llm_analyzer.py\<close>: the analyzer that asks a language model for the risk of an action, with its
  budget of calls and its reading of the answer, and the caller it uses when none is given.  The caller, the
  filter \<open>sanitise_message\<close> (a regular expression) and \<open>str\<close> of a value that is no text are parameters; the
  extras of an assessment, times and texts of errors are left out.
\<close>

record llm_analyzer =
  la_fallback :: risk
  la_max_calls :: "int option"
  la_count :: nat

record llm_world =
  lw_caller :: "string \<Rightarrow> string \<Rightarrow> string + string"
  lw_sanitise :: "string \<Rightarrow> string"
  lw_str :: "json \<Rightarrow> string"
  lw_system :: string

definition calls_remaining :: "llm_analyzer \<Rightarrow> int option" where
  "calls_remaining la = map_option (\<lambda>n. max 0 (n - int (la_count la))) (la_max_calls la)"

definition try_consume_call :: "llm_analyzer \<Rightarrow> bool \<times> llm_analyzer" where
  "try_consume_call la =
     (if (case la_max_calls la of None \<Rightarrow> False | Some n \<Rightarrow> int (la_count la) \<ge> n) then (False, la)
      else (True, la\<lparr>la_count := la_count la + 1\<rparr>))"

definition reset_budget :: "llm_analyzer \<Rightarrow> llm_analyzer" where
  "reset_budget la = la\<lparr>la_count := 0\<rparr>"

section \<open>Reading the answer\<close>

text \<open>\<open>SecurityRisk.from_name\<close>, and \<open>str.upper\<close>.\<close>

definition upper :: "string \<Rightarrow> string" where
  "upper = map (\<lambda>c. let n = of_char c :: nat in if 97 \<le> n \<and> n \<le> 122 then char_of (n - 32) else c)"

definition risk_from_name :: "string \<Rightarrow> risk" where
  "risk_from_name s =
     (case filter (\<lambda>r. risk_name r = upper s) [UNKNOWN, LOW, MEDIUM, HIGH] of [] \<Rightarrow> UNKNOWN | r # _ \<Rightarrow> r)"

definition value_text :: "llm_world \<Rightarrow> json \<Rightarrow> string" where
  "value_text w j = (case j of JStr s \<Rightarrow> s | _ \<Rightarrow> lw_str w j)"

definition fence :: string where "fence = replicate 3 CHR 0x60"

definition without_fences :: "string \<Rightarrow> string" where
  "without_fences raw =
     (let t = strip raw in
      if take 3 t = fence
      then join [CHR 0x0A] (filter (\<lambda>l. take 3 (strip l) \<noteq> fence) (split_on (\<lambda>c. c = CHR 0x0A) t))
      else t)"

definition fallback :: "llm_analyzer \<Rightarrow> string \<Rightarrow> string \<Rightarrow> assessment" where
  "fallback la detector why = \<lparr>ra_risk = la_fallback la, ra_detector = detector, ra_reason = why, ra_ids = []\<rparr>"

definition parse_assessment :: "llm_world \<Rightarrow> llm_analyzer \<Rightarrow> string \<Rightarrow> assessment" where
  "parse_assessment w la raw =
     (case loads (without_fences raw) of
        Some (JObj d) \<Rightarrow>
          \<lparr>ra_risk = risk_from_name (strip (upper (value_text w (jget ''risk'' d (JStr []))))), ra_detector = ''llm:assessment'',
           ra_reason = lw_sanitise w (take 300 (value_text w (jget ''reason'' d (JStr [])))), ra_ids = []\<rparr>
      | _ \<Rightarrow> fallback la ''llm:parse_error'' ''Could not parse LLM response; using fallback risk'')"

section \<open>Asking\<close>

definition user_prompt :: "llm_world \<Rightarrow> string \<Rightarrow> string \<Rightarrow> string" where
  "user_prompt w act ctx =
     ''Analyze this action for security risk:'' @ [CHR 0x0A] @ ''---'' @ [CHR 0x0A] @ lw_sanitise w (take 2000 act) @ [CHR 0x0A] @
     ''---'' @ [CHR 0x0A] @ ''Context: '' @ lw_sanitise w (take 500 ctx) @ [CHR 0x0A]"

text \<open>\<open>analyze\<close>; \<open>ctx\<close> is the context as JSON text.\<close>

definition llm_analyze :: "llm_world \<Rightarrow> string \<Rightarrow> string \<Rightarrow> llm_analyzer \<Rightarrow> assessment \<times> llm_analyzer" where
  "llm_analyze w act ctx la =
     (if strip act = [] then
        (\<lparr>ra_risk = UNKNOWN, ra_detector = ''llm:empty'', ra_reason = ''Empty action - nothing to assess'', ra_ids = []\<rparr>, la)
      else case try_consume_call la of
        (False, la') \<Rightarrow> (fallback la' ''llm:budget_exhausted''
           (''LLM call budget exhausted ('' @ (case la_max_calls la of None \<Rightarrow> ''None'' | Some n \<Rightarrow> show_int n) @ ''); using fallback''), la')
      | (True, la') \<Rightarrow>
          (case lw_caller w (lw_system w) (user_prompt w act ctx) of
             Inl e \<Rightarrow> (fallback la' ''llm:call_error'' (''LLM call failed (sanitised): '' @ lw_sanitise w (take 200 e)), la')
           | Inr raw \<Rightarrow> (parse_assessment w la' raw, la')))"

text \<open>
  The caller of an analyzer that is given none: it imports \<open>ask_llm\<close> from \<open>app/llm/llm.py\<close>, which defines the
  names below and imports no such name; any failure is answered with a text that says LOW.
\<close>

definition llm_module_names :: "string list" where
  "llm_module_names = [''MAX_RETRIES'', ''RETRY_BASE_WAIT'', ''RETRY_MAX_WAIT'', ''LONG_THINKING_MODELS'', ''DEFAULT_TIMEOUT_LONG'',
     ''DEFAULT_TIMEOUT_SHORT'', ''PROGRESS_HEARTBEAT_SEC'', ''_is_long_thinking_model'', ''_get_adaptive_timeout'', ''_msg_from_openai'',
     ''MockLLM'', ''UniversalClient'', ''OpenAIClient'', ''AnthropicClient'', ''GoogleClient'', ''LLM'']"

definition default_low :: json where
  "default_low = JObj [(''risk'', JStr ''LOW''), (''reason'', JStr ''LLM unavailable; defaulted to LOW'')]"

definition default_llm_caller :: "string list \<Rightarrow> (string \<Rightarrow> string \<Rightarrow> string + string) \<Rightarrow> string \<Rightarrow> string \<Rightarrow> string + string" where
  "default_llm_caller names ask sys usr =
     (if ''ask_llm'' \<in> set names then (case ask sys usr of Inr t \<Rightarrow> Inr t | Inl _ \<Rightarrow> Inr (dumps default_low))
      else Inr (dumps default_low))"

text \<open>The analyzer as the ensemble and the conversation see it, in one state.\<close>

definition as_analyzer :: "llm_world \<Rightarrow> (string \<Rightarrow> string) \<Rightarrow> llm_analyzer \<Rightarrow> analyzer" where
  "as_analyzer w ctx la = \<lparr>an_name = ''llm'', an_analyze = (\<lambda>act tool. Assessed (fst (llm_analyze w act (ctx tool) la)))\<rparr>"

section \<open>Answers are read back\<close>

lemma risk_name_upper: "upper (risk_name r) = risk_name r" "strip (risk_name r) = risk_name r"
  by (cases r; simp add: upper_def strip_def is_space_def)+

lemma risk_from_name: "risk_from_name (risk_name r) = r"
  by (cases r) (simp_all add: risk_from_name_def risk_name_upper del: risk_name.simps, simp_all)

definition answer :: "risk \<Rightarrow> string \<Rightarrow> string" where
  "answer r t = dumps (JObj [(''risk'', JStr (risk_name r)), (''reason'', JStr t)])"

definition fenced :: "string \<Rightarrow> string" where
  "fenced t = fence @ ''json'' @ [CHR 0x0A] @ t @ [CHR 0x0A] @ fence"

lemma hex_digit_lf: "of_char CHR 0x0A = (10 :: nat)" by simp

lemma quote_one_line: "CHR 0x0A \<notin> set (quote s)"
proof -
  have h: "CHR 0x0A \<noteq> hex_digit k" if "k < 16" for k
  proof
    assume "CHR 0x0A = hex_digit k"
    then have "of_char (hex_digit k) = (10 :: nat)" by (metis hex_digit_lf)
    then show False using that by (auto simp: hex_digit_def take_bit_eq_mod split: if_splits)
  qed
  have "of_char c div 16 < (16 :: nat)" for c :: char using nat_of_char_less_256 [of c] by linarith
  then have "CHR 0x0A \<noteq> hex_digit (of_char c div 16)" "CHR 0x0A \<noteq> hex_digit (of_char c mod 16)" for c :: char
    using h by auto
  then have "CHR 0x0A \<notin> set (esc c)" for c by (auto simp: esc_def Let_def)
  then show ?thesis by (simp add: quote_def)
qed

lemma split_one_line: "\<forall>c \<in> set t. \<not> d c \<Longrightarrow> split_on d t = [t]"
  by (induction t) simp_all

lemma answer_text: "answer r t = CHR 0x7B # quote ''risk'' @ '': '' @ quote (risk_name r) @ '', '' @ quote ''reason'' @ '': '' @ quote t @ [CHR 0x7D]"
  by (simp add: answer_def)

lemma strip_answer: "strip (answer r t) = answer r t"
  by (simp add: answer_text strip_def is_space_def dropWhile_append)

lemma take_answer: "take 3 (answer r t) \<noteq> fence"
  by (simp add: answer_text fence_def numeral_eq_Suc)

lemma without_fences_answer:
  "without_fences (answer r t) = answer r t" "without_fences (fenced (answer r t)) = answer r t"
proof -
  show "without_fences (answer r t) = answer r t"
    by (simp add: without_fences_def Let_def strip_answer take_answer)
  have one: "\<forall>c \<in> set (answer r t). c \<noteq> CHR 0x0A"
    using quote_one_line by (auto simp: answer_text)
  let ?p = "\<lambda>c. c = CHR 0x0A"
  have f: "fenced u = (fence @ ''json'') @ CHR 0x0A # u @ CHR 0x0A # fence" for u by (simp add: fenced_def)
  have ends: "split_on ?p (fence @ ''json'') = [fence @ ''json'']" "split_on ?p fence = [fence]"
    by (rule split_one_line; simp add: fence_def numeral_eq_Suc)+
  have lines: "split_on ?p (fenced (answer r t)) = [fence @ ''json'', answer r t, fence]"
    unfolding f by (simp only: split_on_append ends split_one_line [OF one] append.simps)
  have "strip (fenced (answer r t)) = fenced (answer r t)" "strip (fence @ ''json'') = fence @ ''json''" "strip fence = fence"
    by (simp_all add: fenced_def strip_def is_space_def fence_def numeral_eq_Suc dropWhile_append)
  moreover have "take 3 (fenced (answer r t)) = fence" "take 3 (fence @ ''json'') = fence" "take 3 fence = fence"
    by (simp_all add: fenced_def fence_def)
  ultimately show "without_fences (fenced (answer r t)) = answer r t"
    by (simp add: without_fences_def Let_def lines strip_answer take_answer)
qed

text \<open>An answer in the format that the prompt asks for is read as it is meant, with or without a Markdown fence around it.\<close>

theorem answer_round_trip:
  assumes "raw = answer r t \<or> raw = fenced (answer r t)"
  shows "parse_assessment w la raw = \<lparr>ra_risk = r, ra_detector = ''llm:assessment'', ra_reason = lw_sanitise w (take 300 t), ra_ids = []\<rparr>"
proof -
  have "without_fences raw = answer r t" using assms without_fences_answer by auto
  moreover have "loads (answer r t) = Some (JObj [(''risk'', JStr (risk_name r)), (''reason'', JStr t)])"
    unfolding answer_def by (rule loads_dumps) (cases r; simp)
  ultimately show ?thesis
    by (simp add: parse_assessment_def jget_def value_text_def risk_name_upper risk_from_name del: risk_name.simps)
qed

text \<open>A level that is none of the four is UNKNOWN, the lowest: below every other threshold it needs no confirmation.\<close>

theorem misspelt_level_is_lowest:
  assumes "loads (without_fences raw) = Some (JObj d)" "map_of d ''risk'' = Some (JStr s)" "\<forall>r. upper (strip (upper s)) \<noteq> risk_name r"
    and "UNKNOWN < th"
  shows "ra_risk (parse_assessment w la raw) = UNKNOWN \<and>
    \<not> conversation_confirms (Some (ConfirmRisky \<lparr>cp_threshold = th, cp_block_high = b\<rparr>)) (Some (parse_assessment w la raw))"
proof -
  have "risk_from_name (strip (upper s)) = UNKNOWN"
    using assms(3) [THEN spec, of UNKNOWN] assms(3) [THEN spec, of LOW] assms(3) [THEN spec, of MEDIUM] assms(3) [THEN spec, of HIGH]
    by (simp add: risk_from_name_def)
  with assms(1,2,4) show ?thesis
    by (simp add: parse_assessment_def jget_def value_text_def conversation_confirms_def requires_confirmation_def)
qed

section \<open>The caller that is there by default\<close>

text \<open>Without a caller of its own the analyzer never asks a model, since there is no \<open>ask_llm\<close>: every action is LOW, with the
  detector of a real assessment, and a conversation that trusts it confirms nothing above that threshold.\<close>

theorem default_analyzer_says_low:
  assumes "lw_caller w = default_llm_caller llm_module_names ask" "strip act \<noteq> []" "fst (try_consume_call la)"
  shows "fst (llm_analyze w act ctx la) = \<lparr>ra_risk = LOW, ra_detector = ''llm:assessment'',
       ra_reason = lw_sanitise w ''LLM unavailable; defaulted to LOW'', ra_ids = []\<rparr>"
    "LOW < th \<Longrightarrow> \<not> conversation_confirms (Some (ConfirmRisky \<lparr>cp_threshold = th, cp_block_high = b\<rparr>))
       (check_security (Some (as_analyzer w (\<lambda>_. ctx) la)) act tool)"
proof -
  have "lw_caller w sys usr = Inr (answer LOW ''LLM unavailable; defaulted to LOW'')" for sys usr
    by (simp add: assms(1) default_llm_caller_def llm_module_names_def default_low_def answer_def)
  then show a: "fst (llm_analyze w act ctx la) = \<lparr>ra_risk = LOW, ra_detector = ''llm:assessment'',
       ra_reason = lw_sanitise w ''LLM unavailable; defaulted to LOW'', ra_ids = []\<rparr>"
    using assms(2,3) answer_round_trip [OF disjI1, OF refl, of w "snd (try_consume_call la)" LOW]
    by (simp add: llm_analyze_def split_beta split: bool.split)
  then show "LOW < th \<Longrightarrow> \<not> conversation_confirms (Some (ConfirmRisky \<lparr>cp_threshold = th, cp_block_high = b\<rparr>))
       (check_security (Some (as_analyzer w (\<lambda>_. ctx) la)) act tool)"
    by (simp add: check_security_def safe_analyze_def as_analyzer_def conversation_confirms_def requires_confirmation_def)
qed

section \<open>The budget\<close>

text \<open>Over any list of actions the caller is asked once for each that is not blank, as long as calls are left.\<close>

definition analyze_all :: "llm_world \<Rightarrow> (string \<times> string) list \<Rightarrow> llm_analyzer \<Rightarrow> llm_analyzer" where
  "analyze_all w xs la = fold (\<lambda>(act, ctx) la. snd (llm_analyze w act ctx la)) xs la"

theorem call_budget:
  fixes xs
  defines "n \<equiv> length (filter (\<lambda>(act, _). strip act \<noteq> []) xs)"
  shows "int (la_count (analyze_all w xs la)) = int (la_count la) +
      (case calls_remaining la of None \<Rightarrow> int n | Some k \<Rightarrow> min (int n) k)"
    "la_max_calls (analyze_all w xs la) = la_max_calls la"
proof -
  have step: "snd (llm_analyze w act ctx la) = (if strip act = [] then la else snd (try_consume_call la))" for act ctx la
    by (simp add: llm_analyze_def split_beta split: bool.split sum.split)
  have keep: "la_max_calls (snd (try_consume_call la)) = la_max_calls la" for la by (simp add: try_consume_call_def)
  have "int (la_count (analyze_all w xs la)) = int (la_count la) +
        (case calls_remaining la of None \<Rightarrow> int (length (filter (\<lambda>(act, _). strip act \<noteq> []) xs))
           | Some k \<Rightarrow> min (int (length (filter (\<lambda>(act, _). strip act \<noteq> []) xs))) k) \<and>
      la_max_calls (analyze_all w xs la) = la_max_calls la"
  proof (induction xs arbitrary: la)
    case (Cons x xs)
    obtain act ctx where x: "x = (act, ctx)" by (cases x)
    show ?case
      using Cons [of la] Cons [of "snd (try_consume_call la)"] keep [of la]
      by (auto simp: analyze_all_def x step calls_remaining_def try_consume_call_def split: option.splits)
  qed (auto simp: analyze_all_def calls_remaining_def split: option.split)
  then show "int (la_count (analyze_all w xs la)) = int (la_count la) +
      (case calls_remaining la of None \<Rightarrow> int n | Some k \<Rightarrow> min (int n) k)"
    "la_max_calls (analyze_all w xs la) = la_max_calls la" unfolding n_def by blast+
qed

text \<open>What stands behind the first 2000 characters of an action is never seen.\<close>

theorem long_action_tail_unseen:
  assumes "strip act \<noteq> []" "strip act' \<noteq> []" "take 2000 act = take 2000 act'"
  shows "llm_analyze w act ctx la = llm_analyze w act' ctx la"
proof -
  have "user_prompt w act ctx = user_prompt w act' ctx" by (simp add: user_prompt_def assms(3))
  with assms(1,2) show ?thesis unfolding llm_analyze_def by (simp only: if_False)
qed


definition demo_world :: llm_world where
  "demo_world = \<lparr>lw_caller = default_llm_caller llm_module_names (\<lambda>_ _. Inr ''HIGH''), lw_sanitise = id, lw_str = (\<lambda>_. []),
     lw_system = []\<rparr>"

theorem default_analyzer_says_low_witness:
  "ra_risk (fst (llm_analyze demo_world ''rm -rf /'' ''{}'' \<lparr>la_fallback = HIGH, la_max_calls = Some 3, la_count = 0\<rparr>)) = LOW \<and>
   \<not> conversation_confirms (Some (ConfirmRisky \<lparr>cp_threshold = MEDIUM, cp_block_high = False\<rparr>))
     (check_security (Some (as_analyzer demo_world (\<lambda>_. ''{}'') \<lparr>la_fallback = HIGH, la_max_calls = Some 3, la_count = 0\<rparr>)) ''rm -rf /'' ''bash'')"
proof -
  let ?la = "\<lparr>la_fallback = HIGH, la_max_calls = Some 3, la_count = 0\<rparr>"
  have "lw_caller demo_world = default_llm_caller llm_module_names (\<lambda>_ _. Inr ''HIGH'')" by (simp add: demo_world_def)
  moreover have "strip ''rm -rf /'' \<noteq> []" by (simp add: strip_def is_space_def)
  moreover have "fst (try_consume_call ?la)" by (simp add: try_consume_call_def)
  moreover have "LOW < MEDIUM" by (simp add: risk_order)
  ultimately show ?thesis
    by (simp add: default_analyzer_says_low(1) [where w = demo_world] default_analyzer_says_low(2) [where w = demo_world])
qed

theorem answer_round_trip_witness:
  "ra_risk (parse_assessment demo_world \<lparr>la_fallback = LOW, la_max_calls = None, la_count = 0\<rparr> (fenced (answer HIGH ''wipes the disk''))) = HIGH"
  using answer_round_trip [of "fenced (answer HIGH ''wipes the disk'')" HIGH "''wipes the disk''" demo_world] by simp

end
