(* ===== verification/Llm_Client.thy ===== *)
theory Llm_Client
  imports Agent_Memory Credentials Json
begin

text \<open>
  \<open>app/llm/llm.py\<close>: the time-outs of the clients, the reading of an answer, the conversion of messages to the
  formats of Anthropic and Google, and the class \<open>LLM\<close> with its retries, its credential pool and its token
  budget.  The requests themselves, the clock and the random part of a delay are parameters; the construction
  of the clients from the configuration and what is written to the log are left out.
\<close>

section \<open>Time-outs\<close>

definition long_thinking_models :: "string list" where
  "long_thinking_models = [''deepseek-r1'', ''deepseek-reasoner'', ''deepseek-r1-'', ''o1'', ''o1-mini'', ''o1-pro'', ''o1-preview'',
     ''o3'', ''o3-mini'', ''o3-pro'', ''claude-3-7-sonnet'', ''claude-sonnet-4'']"

definition is_long_thinking_model :: "string \<Rightarrow> bool" where
  "is_long_thinking_model model \<longleftrightarrow>
     list_ex (\<lambda>p. sublist p (lower model)) long_thinking_models \<or>
     list_ex (\<lambda>p. sublist p (lower model)) [''reason'', ''think'', ''r1'']"

definition adaptive_timeout :: "string \<Rightarrow> int \<Rightarrow> int" where
  "adaptive_timeout model configured =
     (if is_long_thinking_model model then max configured 1800 else max configured 300)"

section \<open>Reading an answer\<close>

definition role_value :: "role \<Rightarrow> string" where
  "role_value r = (case r of SYSTEM \<Rightarrow> ''system'' | USER \<Rightarrow> ''user'' | ASSISTANT \<Rightarrow> ''assistant'' | TOOL \<Rightarrow> ''tool'')"

definition role_of :: "json \<Rightarrow> role option" where
  "role_of j = (case filter (\<lambda>r. j = JStr (role_value r)) [SYSTEM, USER, ASSISTANT, TOOL] of [] \<Rightarrow> None | r # _ \<Rightarrow> Some r)"

fun obj_of :: "json \<Rightarrow> jdict option" where
  "obj_of (JObj d) = Some d"
| "obj_of _ = None"

fun str_of :: "json \<Rightarrow> string option" where
  "str_of (JStr s) = Some s"
| "str_of _ = None"

text \<open>A tool call; \<open>None\<close> where the code or pydantic raises.\<close>

definition call_from_openai :: "json \<Rightarrow> tool_call option" where
  "call_from_openai j =
     Option.bind (obj_of j) (\<lambda>tc.
     Option.bind (Option.bind (map_of tc ''id'') str_of) (\<lambda>i.
     Option.bind (Option.bind (map_of tc ''function'') obj_of) (\<lambda>f.
     Option.bind (Option.bind (map_of f ''name'') str_of) (\<lambda>n.
     Option.bind (str_of (jget ''arguments'' f (JStr ''{}''))) (\<lambda>a.
     if jget ''type'' tc (JStr ''function'') = JStr ''function''
     then Some \<lparr>tc_id = i, tc_name = n, tc_arguments = a\<rparr> else None)))))"

fun all_some :: "'a option list \<Rightarrow> 'a list option" where
  "all_some [] = Some []"
| "all_some (x # xs) = (case x of None \<Rightarrow> None | Some a \<Rightarrow> map_option (Cons a) (all_some xs))"

definition calls_from_openai :: "json \<Rightarrow> tool_call list option" where
  "calls_from_openai j =
     (if falsy j then Some [] else case j of JArr xs \<Rightarrow> all_some (map call_from_openai xs) | _ \<Rightarrow> None)"

definition message_from_openai :: "json \<Rightarrow> message option" where
  "message_from_openai choice =
     Option.bind (obj_of choice) (\<lambda>c.
     Option.bind (obj_of (jget ''message'' c (JObj []))) (\<lambda>msg.
     Option.bind (role_of (jget ''role'' msg (JStr ''assistant''))) (\<lambda>r.
     Option.bind (calls_from_openai (jget ''tool_calls'' msg JNull)) (\<lambda>tcs.
     case jget ''content'' msg JNull of
       JNull \<Rightarrow> Some \<lparr>m_role = r, m_content = None, m_tool_calls = (if tcs = [] then None else Some tcs), m_tool_call_id = None, m_name = None\<rparr>
     | JStr s \<Rightarrow> Some \<lparr>m_role = r, m_content = Some s, m_tool_calls = (if tcs = [] then None else Some tcs), m_tool_call_id = None, m_name = None\<rparr>
     | _ \<Rightarrow> None))))"

text \<open>\<open>Message.to_dict\<close>.\<close>

definition call_to_dict :: "tool_call \<Rightarrow> json" where
  "call_to_dict tc = JObj [(''id'', JStr (tc_id tc)), (''type'', JStr ''function''),
     (''function'', JObj [(''name'', JStr (tc_name tc)), (''arguments'', JStr (tc_arguments tc))])]"

definition message_to_dict :: "message \<Rightarrow> jdict" where
  "message_to_dict m = [(''role'', JStr (role_value (m_role m)))] @
     (case m_content m of None \<Rightarrow> [] | Some c \<Rightarrow> [(''content'', JStr c)]) @
     (if has_calls m then [(''tool_calls'', JArr (map call_to_dict (the (m_tool_calls m))))] else []) @
     (if truthy (m_tool_call_id m) then [(''tool_call_id'', JStr (the (m_tool_call_id m)))] else []) @
     (if truthy (m_name m) then [(''name'', JStr (the (m_name m)))] else [])"

section \<open>Messages for Anthropic\<close>

datatype block = Text_Block string | Tool_Use string string json | Tool_Result string string

datatype turn_content = Plain string | Blocks "block list"

datatype speaker = User_Turn | Assistant_Turn

type_synonym turn = "speaker \<times> turn_content"

definition content_or_empty :: "message \<Rightarrow> string" where
  "content_or_empty m = (case m_content m of None \<Rightarrow> [] | Some c \<Rightarrow> c)"

definition tool_use :: "tool_call \<Rightarrow> block" where
  "tool_use tc = Tool_Use (tc_id tc) (tc_name tc)
     (case loads (if tc_arguments tc = [] then ''{}'' else tc_arguments tc) of None \<Rightarrow> JObj [] | Some j \<Rightarrow> j)"

definition to_turn :: "message \<Rightarrow> turn option" where
  "to_turn m =
     (case m_role m of
        SYSTEM \<Rightarrow> None
      | ASSISTANT \<Rightarrow> Some (Assistant_Turn,
          if has_calls m then Blocks ((if truthy (m_content m) then [Text_Block (content_or_empty m)] else []) @ map tool_use (the (m_tool_calls m)))
          else Plain (content_or_empty m))
      | TOOL \<Rightarrow> Some (User_Turn, Blocks [Tool_Result (case m_tool_call_id m of None \<Rightarrow> [] | Some i \<Rightarrow> i) (content_or_empty m)])
      | USER \<Rightarrow> Some (User_Turn, Plain (content_or_empty m)))"

fun merge_content :: "turn_content \<Rightarrow> turn_content \<Rightarrow> turn_content" where
  "merge_content (Blocks a) (Blocks b) = Blocks (a @ b)"
| "merge_content (Blocks a) (Plain t) = Blocks (a @ [Text_Block t])"
| "merge_content (Plain s) (Blocks b) = Blocks (Text_Block s # b)"
| "merge_content (Plain s) (Plain t) = Plain (s @ newline @ t)"

definition merge_turn :: "turn \<Rightarrow> turn list \<Rightarrow> turn list" where
  "merge_turn t acc =
     (if acc = [] then [t]
      else if fst (last acc) = fst t then butlast acc @ [(fst t, merge_content (snd (last acc)) (snd t))]
      else acc @ [t])"

definition to_anthropic_messages :: "message list \<Rightarrow> turn list" where
  "to_anthropic_messages ms = fold merge_turn (List.map_filter to_turn ms) []"

text \<open>The system prompt and the messages of a request.\<close>

definition anthropic_request :: "message list \<Rightarrow> string option \<times> turn list" where
  "anthropic_request ms =
     ((case filter (\<lambda>m. m_role m = SYSTEM) ms of [] \<Rightarrow> None | m # _ \<Rightarrow> Some (content_or_empty m)),
      to_anthropic_messages (filter (\<lambda>m. m_role m \<noteq> SYSTEM) ms))"

section \<open>Messages for Google\<close>

text \<open>The history: who speaks, and the parts.\<close>

definition google_step :: "message \<Rightarrow> string option \<times> (speaker \<times> string list) list \<Rightarrow> string option \<times> (speaker \<times> string list) list" where
  "google_step m = (\<lambda>(sys, h).
     case m_role m of
       SYSTEM \<Rightarrow> (Some (content_or_empty m), h)
     | USER \<Rightarrow> (sys, h @ [(User_Turn, [content_or_empty m])])
     | ASSISTANT \<Rightarrow> (sys, h @ [(Assistant_Turn, [content_or_empty m])])
     | TOOL \<Rightarrow>
         (let t = ''[Tool Result ('' @ (if truthy (m_name m) then the (m_name m) else ''unknown'') @ '')]: '' @ content_or_empty m
          in if h \<noteq> [] \<and> fst (last h) = User_Turn then (sys, butlast h @ [(User_Turn, snd (last h) @ [t])])
             else (sys, h @ [(User_Turn, [t])])))"

definition to_google_history :: "message list \<Rightarrow> string option \<times> (speaker \<times> string list) list" where
  "to_google_history ms = fold google_step ms (None, [])"

text \<open>What a request holds: the system prompt, the history before, and the text sent.\<close>

definition google_request :: "message list \<Rightarrow> string option \<times> (speaker \<times> string list) list \<times> string" where
  "google_request ms =
     (let (sys, h) = to_google_history ms
      in if length h > 1 then (sys, butlast h, hd (snd (last h)))
         else (sys, [], (if h = [] then [] else hd (snd (hd h)))))"

section \<open>Calls with retries\<close>

text \<open>How a request ends; the reply to the \<open>a\<close>-th request, which may depend on the key it is sent with.\<close>

datatype 'r reply = Replied 'r | Rate_Limited | Over_Limit | Timed_Out | Failed string

record 'r backend =
  bk_reply :: "nat \<Rightarrow> string option \<Rightarrow> 'r reply"
  bk_jitter :: "nat \<Rightarrow> real"
  bk_now :: "nat \<Rightarrow> time"

datatype llm_error = Token_Limit | Retries_Used_Up "llm_error option" | Timeout | Request_Error string | Bad_Answer

definition is_transient :: "string \<Rightarrow> bool" where
  "is_transient e \<longleftrightarrow> list_ex (\<lambda>k. sublist k (lower e))
     [''connection'', ''network'', ''reset'', ''broken pipe'', ''temporary'', ''502'', ''503'', ''504'', ''server error'']"

definition next_wait :: "real \<Rightarrow> real \<Rightarrow> real" where
  "next_wait jitter wait = min (wait * 2 + jitter) 60"

definition pool_key :: "pool option \<Rightarrow> nat option \<Rightarrow> string option" where
  "pool_key p i = (case (p, i) of (Some q, Some k) \<Rightarrow>
     (let key = cr_key (po_creds q ! k) in if key = [] then None else Some key) | _ \<Rightarrow> None)"

definition mark :: "(nat \<Rightarrow> pool \<Rightarrow> pool) \<Rightarrow> nat option \<Rightarrow> pool option \<Rightarrow> pool option" where
  "mark f i p = (case i of None \<Rightarrow> p | Some k \<Rightarrow> map_option (f k) p)"

text \<open>
  The loop with \<open>n\<close> attempts left after the \<open>a\<close>-th; the delay, the last error and the pool are its state.  It gives the
  result, the pool, the delays slept and the keys the requests were sent with.
\<close>

fun call_loop :: "'r backend \<Rightarrow> bool \<Rightarrow> nat \<Rightarrow> nat \<Rightarrow> real \<Rightarrow> llm_error option \<Rightarrow> pool option \<Rightarrow>
    (llm_error + 'r) \<times> pool option \<times> real list \<times> string option list" where
  "call_loop w deep 0 a wait err p = (Inl (Retries_Used_Up err), p, [], [])"
| "call_loop w deep (Suc n) a wait err p =
     (let i = (case p of None \<Rightarrow> None | Some q \<Rightarrow> pool_get (\<lambda>_. bk_now w a) q);
          key = pool_key p i;
          again = (\<lambda>err p. map_prod id (map_prod id (map_prod (Cons wait) (Cons key)))
            (call_loop w deep n (a + 1) (next_wait (bk_jitter w a) wait) err p))
      in case bk_reply w a key of
           Replied r \<Rightarrow> (Inr r, mark pool_mark_success i p, [], [key])
         | Over_Limit \<Rightarrow> (Inl Token_Limit, p, [], [key])
         | Rate_Limited \<Rightarrow> again err (mark (pool_mark_exhausted (bk_now w a)) i p)
         | Timed_Out \<Rightarrow> if deep \<or> n = 0 then (Inl Timeout, p, [], [key]) else again (Some Timeout) p
         | Failed e \<Rightarrow> if \<not> is_transient e \<and> a \<ge> 2 \<or> n = 0 then (Inl (Request_Error e), p, [], [key])
                       else again (Some (Request_Error e)) p)"

record llm =
  li_budget :: token_budget
  li_pool :: "pool option"
  li_retries :: nat
  li_model :: string

text \<open>\<open>max(1, int(cfg.llm.max_retries or MAX_RETRIES))\<close>.\<close>

definition new_llm :: "int \<Rightarrow> int \<Rightarrow> int \<Rightarrow> string \<Rightarrow> pool option \<Rightarrow> llm" where
  "new_llm token_budget cfg_budget max_retries model p =
     \<lparr>li_budget = new_budget (if token_budget > 0 then token_budget else cfg_budget), li_pool = p,
      li_retries = nat (max 1 (if max_retries = 0 then 8 else max_retries)), li_model = model\<rparr>"

definition call_with_retry :: "'r backend \<Rightarrow> llm \<Rightarrow> (llm_error + 'r) \<times> llm \<times> real list \<times> string option list" where
  "call_with_retry w l =
     (let go = (\<lambda>b. case call_loop w (is_long_thinking_model (li_model l)) (li_retries l) 1 1 None (li_pool l) of
                 (x, p, ss, ks) \<Rightarrow> (x, l\<lparr>li_budget := b, li_pool := p\<rparr>, ss, ks))
      in if is_exhausted (li_budget l) then
           (case use_grace (li_budget l) of
              (True, b) \<Rightarrow> go b
            | (False, b) \<Rightarrow> (Inl Token_Limit, l\<lparr>li_budget := b\<rparr>, [], []))
         else go (li_budget l))"

text \<open>\<open>ask\<close> and \<open>ask_tool\<close>: the usage of the answer is recorded, then its first choice is read; \<open>usage_of\<close> is the
  answer's usage entry.\<close>

definition ask :: "(json \<Rightarrow> usage_dict option) \<Rightarrow> json backend \<Rightarrow> llm \<Rightarrow> (llm_error + message) \<times> llm \<times> string option list" where
  "ask usage_of w l =
     (case call_with_retry w l of
        (Inl e, l', _, ks) \<Rightarrow> (Inl e, l', ks)
      | (Inr data, l', _, ks) \<Rightarrow>
          let l'' = l'\<lparr>li_budget := snd (record_usage (usage_of data) (li_budget l'))\<rparr>;
              choice = (case data of JObj d \<Rightarrow> (case map_of d ''choices'' of Some (JArr (c # _)) \<Rightarrow> Some c | _ \<Rightarrow> None) | _ \<Rightarrow> None)
          in (case Option.bind choice message_from_openai of None \<Rightarrow> Inl Bad_Answer | Some m \<Rightarrow> Inr m, l'', ks))"

section \<open>What a call does\<close>

text \<open>After which replies another attempt is made.\<close>

definition retried :: "bool \<Rightarrow> nat \<Rightarrow> 'r reply \<Rightarrow> bool" where
  "retried deep a r = (case r of Rate_Limited \<Rightarrow> True | Timed_Out \<Rightarrow> \<not> deep | Failed e \<Rightarrow> is_transient e \<or> a < 2 | _ \<Rightarrow> False)"

definition outcome :: "'r reply \<Rightarrow> llm_error + 'r" where
  "outcome r = (case r of Replied x \<Rightarrow> Inr x | Over_Limit \<Rightarrow> Inl Token_Limit | Timed_Out \<Rightarrow> Inl Timeout | Failed e \<Rightarrow> Inl (Request_Error e)
     | Rate_Limited \<Rightarrow> Inl (Retries_Used_Up None))"

definition same_result :: "llm_error + 'r \<Rightarrow> llm_error + 'r \<Rightarrow> bool" where
  "same_result x y \<longleftrightarrow> x = y \<or> (\<exists>e e'. x = Inl (Retries_Used_Up e) \<and> y = Inl (Retries_Used_Up e'))"

lemma another_attempt:
  "map_prod id (map_prod id (map_prod (Cons s) (Cons k))) t = (x, p', ss, ks) \<longleftrightarrow>
     (\<exists>ss2 ks2. t = (x, p', ss2, ks2) \<and> ss = s # ss2 \<and> ks = k # ks2)"
  by (cases t) auto

lemma call_loop_facts:
  assumes "call_loop w deep n a wait err p = (x, p', ss, ks)" "0 < n"
  shows "0 < length ks \<and> length ks \<le> n \<and>
    (\<forall>j < length ks - 1. retried deep (a + j) (bk_reply w (a + j) (ks ! j))) \<and>
    same_result x (outcome (bk_reply w (a + (length ks - 1)) (last ks))) \<and>
    (retried deep (a + (length ks - 1)) (bk_reply w (a + (length ks - 1)) (last ks)) \<longrightarrow> length ks = n) \<and>
    length ss = (if bk_reply w (a + (length ks - 1)) (last ks) = Rate_Limited then length ks else length ks - 1)"
  using assms
proof (induction n arbitrary: a wait err p x p' ss ks)
  case (Suc n)
  let ?i = "case p of None \<Rightarrow> None | Some q \<Rightarrow> pool_get (\<lambda>_. bk_now w a) q"
  let ?key = "pool_key p ?i"
  let ?r = "bk_reply w a ?key"
  show ?case
  proof (cases "?r = Rate_Limited \<or> retried deep a ?r \<and> 0 < n")
    case False
    then have "x = outcome ?r \<and> ss = [] \<and> ks = [?key] \<and> ?r \<noteq> Rate_Limited \<and> (retried deep a ?r \<longrightarrow> n = 0)"
      using Suc.prems(1) by (auto simp: Let_def outcome_def retried_def split: reply.splits if_splits)
    then show ?thesis by (auto simp: same_result_def)
  next
    case True
    then obtain err2 p2 ss2 ks2 where rest: "call_loop w deep n (a + 1) (next_wait (bk_jitter w a) wait) err2 p2 = (x, p', ss2, ks2)"
        "ss = wait # ss2" "ks = ?key # ks2"
      using Suc.prems(1) by (auto simp: Let_def retried_def another_attempt split: reply.splits if_splits)
    show ?thesis
    proof (cases n)
      case 0
      with True rest show ?thesis by (auto simp: same_result_def outcome_def)
    next
      case (Suc m)
      then have IH: "0 < length ks2 \<and> length ks2 \<le> n \<and>
          (\<forall>j < length ks2 - 1. retried deep (a + 1 + j) (bk_reply w (a + 1 + j) (ks2 ! j))) \<and>
          same_result x (outcome (bk_reply w (a + 1 + (length ks2 - 1)) (last ks2))) \<and>
          (retried deep (a + 1 + (length ks2 - 1)) (bk_reply w (a + 1 + (length ks2 - 1)) (last ks2)) \<longrightarrow> length ks2 = n) \<and>
          length ss2 = (if bk_reply w (a + 1 + (length ks2 - 1)) (last ks2) = Rate_Limited then length ks2 else length ks2 - 1)"
        using Suc.IH [OF rest(1)] by simp
      have ret: "retried deep a ?r" using True by (auto simp: retried_def)
      have e: "a + (length ks - 1) = a + 1 + (length ks2 - 1)" "last ks = last ks2" using IH rest(3) by auto
      have "retried deep (a + j) (bk_reply w (a + j) (ks ! j))" if "j < length ks - 1" for j
        using that IH ret rest(3) by (cases j) auto
      then show ?thesis unfolding e using IH rest(2,3) by auto
    qed
  qed
qed simp


lemma call_loop_sleeps:
  assumes "\<And>a. 0 \<le> bk_jitter w a \<and> bk_jitter w a \<le> 1" "1 \<le> wait" "wait \<le> 60"
  shows "call_loop w deep n a wait err p = (x, p', ss, ks) \<Longrightarrow> \<forall>s \<in> set ss. 1 \<le> s \<and> s \<le> 60"
  using assms(2,3)
proof (induction n arbitrary: a wait err p ss ks)
  case (Suc n)
  have n: "1 \<le> next_wait (bk_jitter w a) wait" "next_wait (bk_jitter w a) wait \<le> 60"
    using assms(1) [of a] Suc.prems(2) by (simp_all add: next_wait_def)
  show ?case
    using Suc.prems Suc.IH [OF _ n] by (auto simp: Let_def another_attempt split: reply.splits if_splits)
qed simp

text \<open>A call makes at least one and at most \<open>max_retries\<close> requests.  It stops at the first reply that is not to be tried
  again, which gives its result; every delay lies between one and sixty seconds.\<close>

theorem call_correct:
  assumes "call_with_retry w l = (x, l', ss, ks)" "\<not> is_exhausted (li_budget l)" "0 < li_retries l"
    and "\<And>a. 0 \<le> bk_jitter w a \<and> bk_jitter w a \<le> 1"
  defines "deep \<equiv> is_long_thinking_model (li_model l)" and "reply \<equiv> \<lambda>j. bk_reply w (Suc j) (ks ! j)"
  shows "0 < length ks" "length ks \<le> li_retries l" "\<forall>j < length ks - 1. retried deep (Suc j) (reply j)"
    "retried deep (length ks) (reply (length ks - 1)) \<Longrightarrow> length ks = li_retries l"
    "x = Inr r \<longleftrightarrow> reply (length ks - 1) = Replied r"
    "\<forall>s \<in> set ss. 1 \<le> s \<and> s \<le> 60" "length ss \<le> li_retries l"
proof -
  obtain p' where c: "call_loop w deep (li_retries l) 1 1 None (li_pool l) = (x, p', ss, ks)"
    using assms(1,2) by (auto simp: call_with_retry_def deep_def Let_def split: prod.splits)
  note f = call_loop_facts [OF c assms(3)]
  then have ne: "ks \<noteq> []" by auto
  then have l: "1 + (length ks - 1) = length ks" "Suc (length ks - 1) = length ks" "last ks = ks ! (length ks - 1)"
    by (simp_all add: last_conv_nth)
  from f show "0 < length ks" "length ks \<le> li_retries l" "\<forall>j < length ks - 1. retried deep (Suc j) (reply j)"
    by (simp_all add: reply_def)
  from f show "retried deep (length ks) (reply (length ks - 1)) \<Longrightarrow> length ks = li_retries l"
    unfolding l by (simp add: reply_def l)
  from f have "same_result x (outcome (reply (length ks - 1)))" unfolding l by (simp add: reply_def l)
  then show "x = Inr r \<longleftrightarrow> reply (length ks - 1) = Replied r"
    by (auto simp: same_result_def outcome_def split: reply.splits)
  show "\<forall>s \<in> set ss. 1 \<le> s \<and> s \<le> 60" using call_loop_sleeps [OF assms(4) _ _ c] by simp
  show "length ss \<le> li_retries l" using f by (auto split: if_splits)
qed

text \<open>When every attempt is rate limited, the call sleeps after the last one too, and its error does not say why it failed.\<close>

theorem rate_limits_reported_as_none:
  assumes "\<And>a k. bk_reply w a k = Rate_Limited" "\<not> is_exhausted (li_budget l)"
  shows "\<exists>l' ss ks. call_with_retry w l = (Inl (Retries_Used_Up None), l', ss, ks) \<and> length ss = li_retries l"
proof -
  have "\<exists>p' ss ks. call_loop w deep n a wait None p = (Inl (Retries_Used_Up None), p', ss, ks) \<and> length ss = n" for deep n a wait p
  proof (induction n arbitrary: a wait p)
    case (Suc n)
    from Suc [of "a + 1" "next_wait (bk_jitter w a) wait" "mark (pool_mark_exhausted (bk_now w a))
        (case p of None \<Rightarrow> None | Some q \<Rightarrow> pool_get (\<lambda>_. bk_now w a) q) p"]
    obtain p' ss ks where "call_loop w deep n (a + 1) (next_wait (bk_jitter w a) wait) None (mark (pool_mark_exhausted (bk_now w a))
        (case p of None \<Rightarrow> None | Some q \<Rightarrow> pool_get (\<lambda>_. bk_now w a) q) p) = (Inl (Retries_Used_Up None), p', ss, ks)" "length ss = n"
      by blast
    then show ?case by (simp add: assms(1) Let_def)
  qed simp
  from this [of "is_long_thinking_model (li_model l)" "li_retries l" 1 1 "li_pool l"] assms(2)
  show ?thesis by (auto simp: call_with_retry_def Let_def)
qed

text \<open>An error that is not transient is retried once, although the code speaks of failing fast.\<close>

theorem content_error_retried_once:
  assumes "\<And>a k. bk_reply w a k = Failed e" "\<not> is_transient e" "2 \<le> li_retries l" "\<not> is_exhausted (li_budget l)"
  shows "\<exists>l' ss ks. call_with_retry w l = (Inl (Request_Error e), l', ss, ks) \<and> length ks = 2 \<and> length ss = 1"
proof -
  let ?deep = "is_long_thinking_model (li_model l)"
  obtain x p' ss ks where c: "call_loop w ?deep (li_retries l) 1 1 None (li_pool l) = (x, p', ss, ks)"
    by (cases "call_loop w ?deep (li_retries l) 1 1 None (li_pool l)")
  have f: "0 < length ks" "\<forall>j < length ks - 1. retried ?deep (1 + j) (Failed e :: 'a reply)"
      "same_result x (Inl (Request_Error e))" "retried ?deep (1 + (length ks - 1)) (Failed e :: 'a reply) \<Longrightarrow> length ks = li_retries l"
      "length ss = length ks - 1"
    using call_loop_facts [OF c] assms(1,3) by (auto simp: outcome_def)
  have r: "retried ?deep a (Failed e :: 'a reply) \<longleftrightarrow> a < 2" for a using assms(2) by (simp add: retried_def)
  have "length ks = 2"
  proof -
    have "length ks \<noteq> 1" using f(4) assms(3) by (auto simp: r)
    moreover have "\<not> 1 < length ks - 1" using f(2) r by (metis nat_1_add_1 less_irrefl)
    ultimately show ?thesis using f(1) by linarith
  qed
  moreover have "x = Inl (Request_Error e)" using f(3) by (auto simp: same_result_def)
  ultimately show ?thesis using c f(5) assms(4) by (simp add: call_with_retry_def Let_def)
qed

section \<open>The budget\<close>

text \<open>Calls in a row, each with its own backend; how many of them sent a request although the budget was used up.\<close>

fun grace_calls :: "(json \<Rightarrow> usage_dict option) \<Rightarrow> json backend list \<Rightarrow> llm \<Rightarrow> nat" where
  "grace_calls usage_of [] l = 0"
| "grace_calls usage_of (w # ws) l =
     (case ask usage_of w l of (_, l', ks) \<Rightarrow>
        (if is_exhausted (li_budget l) \<and> ks \<noteq> [] then 1 else 0) + grace_calls usage_of ws l')"

lemma ask_state:
  assumes "ask usage_of w l = (x, l', ks)"
  shows "is_exhausted (li_budget l) \<Longrightarrow> \<not> fst (use_grace (li_budget l)) \<Longrightarrow> l' = l \<and> ks = []"
    "tb_grace_used (li_budget l) \<Longrightarrow> tb_grace_used (li_budget l')"
    "is_exhausted (li_budget l) \<Longrightarrow> ks \<noteq> [] \<Longrightarrow> tb_grace_used (li_budget l')"
    "budget_ok (li_budget l) \<Longrightarrow> budget_ok (li_budget l')"
  using assms
  by (auto simp: ask_def call_with_retry_def Let_def use_grace_def record_usage_def budget_ok_def split: prod.splits sum.splits if_splits option.splits)

text \<open>However many calls are made, at most one request is sent on a used-up budget.\<close>

theorem one_grace_call: "grace_calls usage_of ws l \<le> (if tb_grace_used (li_budget l) then 0 else 1)"
proof (induction ws arbitrary: l)
  case (Cons w ws)
  obtain x l' ks where a: "ask usage_of w l = (x, l', ks)" by (cases "ask usage_of w l")
  show ?case
  proof (cases "is_exhausted (li_budget l) \<and> ks \<noteq> []")
    case True
    then have "fst (use_grace (li_budget l))" using ask_state(1) [OF a] by auto
    then have "\<not> tb_grace_used (li_budget l)" by (auto simp: use_grace_def split: if_splits)
    moreover have "tb_grace_used (li_budget l')" using ask_state(3) [OF a] True by blast
    ultimately show ?thesis using True Cons [of l'] a by simp
  next
    case False
    then show ?thesis using Cons [of l'] ask_state(2) [OF a] a by (auto split: if_splits)
  qed
qed simp

section \<open>The converted messages\<close>

fun tool_blocks :: "turn_content \<Rightarrow> block list" where
  "tool_blocks (Plain s) = []"
| "tool_blocks (Blocks bs) = filter (\<lambda>b. case b of Text_Block _ \<Rightarrow> False | _ \<Rightarrow> True) bs"

definition all_tool_blocks :: "turn list \<Rightarrow> block list" where
  "all_tool_blocks ts = concat (map (tool_blocks \<circ> snd) ts)"

text \<open>A text is contained in a content as a block or inside its text.\<close>

fun contains_text :: "turn_content \<Rightarrow> string \<Rightarrow> bool" where
  "contains_text (Plain s) t = sublist t s"
| "contains_text (Blocks bs) t = list_ex (\<lambda>b. case b of Text_Block s \<Rightarrow> sublist t s | _ \<Rightarrow> False) bs"

fun texts_of :: "turn_content \<Rightarrow> string list" where
  "texts_of (Plain s) = [s]"
| "texts_of (Blocks bs) = List.map_filter (\<lambda>b. case b of Text_Block s \<Rightarrow> Some s | _ \<Rightarrow> None) bs"

lemma tool_blocks_merge: "tool_blocks (merge_content a b) = tool_blocks a @ tool_blocks b"
  by (cases "(a, b)" rule: merge_content.cases) simp_all

lemma contains_merge: "contains_text a t \<or> contains_text b t \<Longrightarrow> contains_text (merge_content a b) t"
  by (cases "(a, b)" rule: merge_content.cases)
     (auto intro: sublist_appendI sublist_append_leftI sublist_append_rightI sublist_order.order_trans simp: sublist_append)

lemma texts_contained: "t \<in> set (texts_of c) \<Longrightarrow> contains_text c t"
  by (cases c) (auto simp: map_filter_def list_ex_iff split: block.splits)

lemma remdups_adj_snoc: "remdups_adj (xs @ [x]) = (if xs \<noteq> [] \<and> last xs = x then remdups_adj xs else remdups_adj xs @ [x])"
  by (induction xs rule: remdups_adj.induct) auto

lemma merge_turns:
  "map fst (fold merge_turn ts []) = remdups_adj (map fst ts) \<and>
   all_tool_blocks (fold merge_turn ts []) = all_tool_blocks ts \<and>
   (\<forall>(s, c) \<in> set ts. \<forall>t \<in> set (texts_of c). \<exists>c'. (s, c') \<in> set (fold merge_turn ts []) \<and> contains_text c' t)"
proof (induction ts rule: rev_induct)
  case (snoc e ts)
  define A where "A = fold merge_turn ts []"
  note IH = snoc.IH [folded A_def]
  have nil: "A = [] \<longleftrightarrow> ts = []" using IH by (metis list.map_disc_iff remdups_adj_Nil_iff)
  have roles: "map fst (merge_turn e A) = remdups_adj (map fst (ts @ [e]))"
  proof (cases "ts = []")
    case False
    have "last (map fst A) = last (map fst ts)" using IH by (simp add: last_remdups_adj)
    then have l: "fst (last A) = fst (last ts)" using nil False by (simp add: last_map)
    have b: "map fst (butlast A) @ [fst (last A)] = map fst A" using nil False by (metis append_butlast_last_id map_butlast last_map list.map_disc_iff)
    show ?thesis using nil False l IH b by (auto simp: merge_turn_def remdups_adj_snoc last_map)
  qed (use nil in \<open>simp add: merge_turn_def\<close>)
  have split: "all_tool_blocks (butlast A) @ tool_blocks (snd (last A)) = all_tool_blocks A" if "A \<noteq> []"
    using that by (cases A rule: rev_cases) (simp_all add: all_tool_blocks_def)
  have tools: "all_tool_blocks (merge_turn e A) = all_tool_blocks (ts @ [e])"
  proof (cases "A = []")
    case False
    have one: "all_tool_blocks (xs @ [t]) = all_tool_blocks xs @ tool_blocks (snd t)" for xs t by (simp add: all_tool_blocks_def)
    from split [OF False] False IH show ?thesis
      by (simp add: merge_turn_def one tool_blocks_merge del: append_assoc add: append_assoc [symmetric])
  qed (use IH nil in \<open>simp add: merge_turn_def all_tool_blocks_def\<close>)
  have old: "\<exists>c''. (s, c'') \<in> set (merge_turn e A) \<and> contains_text c'' t" if "(s, c') \<in> set A" "contains_text c' t" for s c' t
  proof (cases "fst (last A) = fst e \<and> (s, c') = last A")
    case True
    then have "s = fst e" "c' = snd (last A)" by (metis fst_conv) (metis True snd_conv)
    with True that contains_merge [of c' t "snd e"] show ?thesis
      by (intro exI [of _ "merge_content c' (snd e)"]) (auto simp: merge_turn_def)
  next
    case False
    have "(s, c') \<in> set (butlast A @ [last A])" using that(1) by (cases "A = []") simp_all
    with False that show ?thesis by (auto simp: merge_turn_def)
  qed
  have new: "\<exists>c''. (fst e, c'') \<in> set (merge_turn e A) \<and> contains_text c'' t" if "t \<in> set (texts_of (snd e))" for t
    using texts_contained [OF that] contains_merge [of "snd (last A)" t "snd e"]
    by (cases e) (auto simp: merge_turn_def)
  have all: "\<exists>c'. (s, c') \<in> set (merge_turn e A) \<and> contains_text c' t" if sc: "(s, c) \<in> set (ts @ [e])" and t: "t \<in> set (texts_of c)" for s c t
  proof (cases "(s, c) \<in> set ts")
    case True
    then obtain c' where "(s, c') \<in> set A" "contains_text c' t" using IH t by blast
    then show ?thesis by (rule old)
  next
    case False
    then have "e = (s, c)" using sc by auto
    with new t show ?thesis by auto
  qed
  then have "\<forall>(s, c) \<in> set (ts @ [e]). \<forall>t \<in> set (texts_of c). \<exists>c'. (s, c') \<in> set (merge_turn e A) \<and> contains_text c' t"
    by blast
  with roles tools show ?case unfolding fold_append comp_apply fold_simps A_def by simp
qed (simp add: all_tool_blocks_def)

text \<open>For Anthropic the turns alternate, the results of the tools and the calls are kept with their ids in order, and every text
  of a message stands in a turn of its speaker.\<close>

theorem anthropic_messages_correct:
  "distinct_adj (map fst (to_anthropic_messages ms))"
  "all_tool_blocks (to_anthropic_messages ms) = concat (map (\<lambda>m.
     if m_role m = ASSISTANT \<and> has_calls m then map tool_use (the (m_tool_calls m))
     else if m_role m = TOOL then [Tool_Result (case m_tool_call_id m of None \<Rightarrow> [] | Some i \<Rightarrow> i) (content_or_empty m)] else []) ms)"
  "\<forall>m \<in> set ms. m_role m \<noteq> SYSTEM \<and> m_role m \<noteq> TOOL \<and> truthy (m_content m) \<longrightarrow>
     (\<exists>c. (if m_role m = ASSISTANT then Assistant_Turn else User_Turn, c) \<in> set (to_anthropic_messages ms) \<and> contains_text c (content_or_empty m))"
proof -
  let ?ts = "List.map_filter to_turn ms"
  note f = merge_turns [of ?ts, folded to_anthropic_messages_def]
  show "distinct_adj (map fst (to_anthropic_messages ms))" using f by (simp add: distinct_adj_remdups_adj)
  have "filter (\<lambda>b. case b of Text_Block _ \<Rightarrow> False | _ \<Rightarrow> True) (map tool_use tcs) = map tool_use tcs" for tcs
    by (induction tcs) (simp_all add: tool_use_def)
  then have "all_tool_blocks ?ts = concat (map (\<lambda>m.
     if m_role m = ASSISTANT \<and> has_calls m then map tool_use (the (m_tool_calls m))
     else if m_role m = TOOL then [Tool_Result (case m_tool_call_id m of None \<Rightarrow> [] | Some i \<Rightarrow> i) (content_or_empty m)] else []) ms)"
    by (induction ms) (auto simp: all_tool_blocks_def map_filter_simps to_turn_def split: role.splits)
  with f show "all_tool_blocks (to_anthropic_messages ms) = concat (map (\<lambda>m.
     if m_role m = ASSISTANT \<and> has_calls m then map tool_use (the (m_tool_calls m))
     else if m_role m = TOOL then [Tool_Result (case m_tool_call_id m of None \<Rightarrow> [] | Some i \<Rightarrow> i) (content_or_empty m)] else []) ms)" by simp
  show "\<forall>m \<in> set ms. m_role m \<noteq> SYSTEM \<and> m_role m \<noteq> TOOL \<and> truthy (m_content m) \<longrightarrow>
     (\<exists>c. (if m_role m = ASSISTANT then Assistant_Turn else User_Turn, c) \<in> set (to_anthropic_messages ms) \<and> contains_text c (content_or_empty m))"
  proof (intro ballI impI)
    fix m assume m: "m \<in> set ms" "m_role m \<noteq> SYSTEM \<and> m_role m \<noteq> TOOL \<and> truthy (m_content m)"
    then obtain c where c: "to_turn m = Some (if m_role m = ASSISTANT then Assistant_Turn else User_Turn, c)" "content_or_empty m \<in> set (texts_of c)"
      by (cases "m_role m") (auto simp: to_turn_def map_filter_simps)
    then have "(if m_role m = ASSISTANT then Assistant_Turn else User_Turn, c) \<in> set ?ts" using m(1) by (force simp: map_filter_def)
    with f c(2) show "\<exists>c. (if m_role m = ASSISTANT then Assistant_Turn else User_Turn, c) \<in> set (to_anthropic_messages ms) \<and> contains_text c (content_or_empty m)"
      by blast
  qed
qed

lemma google_tools:
  assumes "list_all (\<lambda>m. m_role m = TOOL) ts"
  shows "\<exists>ys. fold google_step ts (sys, h @ [(User_Turn, x # xs)]) = (sys, h @ [(User_Turn, x # ys)])"
  using assms by (induction ts arbitrary: xs) (auto simp: google_step_def)

lemma google_request_tools:
  assumes "list_all (\<lambda>m. m_role m = TOOL) ts" "to_google_history ms = (sys, h @ [(User_Turn, x # xs)])"
  shows "google_request (ms @ ts) = google_request ms"
proof -
  obtain ys where "to_google_history (ms @ ts) = (sys, h @ [(User_Turn, x # ys)])"
    using google_tools [OF assms(1), of sys h x xs] assms(2) by (auto simp: to_google_history_def)
  with assms(2) show ?thesis by (simp add: google_request_def Let_def)
qed

text \<open>Google is sent only the first part of the last turn: of the results of several tools all but the first are lost, and a
  result that follows a message of the user is lost altogether.\<close>

theorem google_loses_tool_results:
  assumes "list_all (\<lambda>m. m_role m = TOOL) ts" "m_role u = USER" "m_role t = TOOL" "m_role a = ASSISTANT"
  shows "google_request (ms @ u # ts) = google_request (ms @ [u])"
    "google_request (ms @ a # t # ts) = google_request (ms @ [a, t])"
proof -
  obtain sys h where h: "to_google_history ms = (sys, h)" by (cases "to_google_history ms")
  have "to_google_history (ms @ [u]) = (sys, h @ [(User_Turn, content_or_empty u # [])])"
    using h assms(2) by (simp add: to_google_history_def google_step_def)
  from google_request_tools [OF assms(1) this] show "google_request (ms @ u # ts) = google_request (ms @ [u])" by simp
  obtain x where "to_google_history (ms @ [a, t]) = (sys, (h @ [(Assistant_Turn, [content_or_empty a])]) @ [(User_Turn, x # [])])"
    using h assms(3,4) by (simp add: to_google_history_def google_step_def)
  from google_request_tools [OF assms(1) this] show "google_request (ms @ a # t # ts) = google_request (ms @ [a, t])" by simp
qed

theorem google_loses_tool_results_witness:
  "google_request [user_msg ''list'', assistant_msg None (Some []), tool_msg ''a'' ''1'' ''ls'', tool_msg ''b'' ''2'' ''cat''] =
   google_request [user_msg ''list'', assistant_msg None (Some []), tool_msg ''a'' ''1'' ''ls'']"
  using google_loses_tool_results(2) [of "[tool_msg ''b'' ''2'' ''cat'']" "user_msg []" "tool_msg ''a'' ''1'' ''ls''" "assistant_msg None (Some [])"
      "[user_msg ''list'']"]
  by (simp add: tool_msg_def user_msg_def assistant_msg_def)

text \<open>Of several system messages Anthropic is sent the first, Google the last.\<close>

theorem system_messages:
  assumes "m_role s = SYSTEM"
  shows "fst (anthropic_request (s # ms)) = Some (content_or_empty s)"
    "anthropic_request (s # ms) = anthropic_request (s # filter (\<lambda>m. m_role m \<noteq> SYSTEM) ms)"
    "fst (google_request (ms @ [s])) = Some (content_or_empty s)"
  using assms by (simp_all add: anthropic_request_def google_request_def to_google_history_def google_step_def Let_def split: prod.split)

section \<open>Answers are read back\<close>

lemma call_round_trip: "call_from_openai (call_to_dict tc) = Some tc"
  by (simp add: call_from_openai_def call_to_dict_def jget_def)

lemma calls_round_trip: "all_some (map call_from_openai (map call_to_dict tcs)) = Some tcs"
  by (induction tcs) (simp_all add: call_round_trip)

lemma role_round_trip: "role_of (JStr (role_value r)) = Some r"
  by (cases r) (simp_all add: role_of_def role_value_def)

text \<open>A message that is written as the answer of a model is read back as it was.\<close>

theorem message_round_trip:
  assumes "m_tool_call_id m = None" "m_name m = None" "m_tool_calls m \<noteq> Some []"
  shows "message_from_openai (JObj [(''message'', JObj (message_to_dict m))]) = Some m"
proof -
  have d: "map_of (message_to_dict m) ''role'' = Some (JStr (role_value (m_role m)))"
      "map_of (message_to_dict m) ''content'' = map_option JStr (m_content m)"
      "map_of (message_to_dict m) ''tool_calls'' = map_option (\<lambda>tcs. JArr (map call_to_dict tcs)) (m_tool_calls m)"
    using assms by (auto simp: message_to_dict_def has_calls_def split: option.split)
  have calls: "calls_from_openai (jget ''tool_calls'' (message_to_dict m) JNull) = Some (case m_tool_calls m of None \<Rightarrow> [] | Some tcs \<Rightarrow> tcs)"
    using assms(3) calls_round_trip by (auto simp: jget_def d calls_from_openai_def falsy_def split: option.split)
  have others: "jget ''role'' (message_to_dict m) x = JStr (role_value (m_role m))"
      "jget ''content'' (message_to_dict m) JNull = (case m_content m of None \<Rightarrow> JNull | Some c \<Rightarrow> JStr c)" for x
    by (auto simp: jget_def d split: option.split)
  have "message_from_openai (JObj [(''message'', JObj (message_to_dict m))]) =
      Some \<lparr>m_role = m_role m, m_content = m_content m, m_tool_calls = m_tool_calls m, m_tool_call_id = None, m_name = None\<rparr>"
    using assms(3) by (auto simp: message_from_openai_def calls others role_round_trip jget_def [of _ "[_]"] split: option.split)
  also have "\<dots> = Some m" using assms(1,2) by (cases m) simp
  finally show ?thesis .
qed

theorem message_round_trip_witness:
  "message_from_openai (JObj [(''message'', JObj (message_to_dict (assistant_msg (Some ''hi'') None)))]) = Some (assistant_msg (Some ''hi'') None)"
  by (rule message_round_trip) (simp_all add: assistant_msg_def)

section \<open>Time-outs\<close>

text \<open>The floor of the time-out of an ordinary model is five minutes, not ten as its description says.\<close>

theorem timeout_floor:
  "max configured 300 \<le> adaptive_timeout model configured"
  "\<not> is_long_thinking_model model \<Longrightarrow> configured \<le> 300 \<Longrightarrow> adaptive_timeout model configured = 300"
  "is_long_thinking_model model \<Longrightarrow> 1800 \<le> adaptive_timeout model configured"
  by (auto simp: adaptive_timeout_def)

definition demo_backend :: "json backend" where
  "demo_backend = \<lparr>bk_reply = (\<lambda>a _. if a = 1 then Rate_Limited else Replied JNull), bk_jitter = (\<lambda>_. 0), bk_now = (\<lambda>_. 10)\<rparr>"

definition demo_llm :: llm where
  "demo_llm = \<lparr>li_budget = new_budget 0, li_pool = Some two_keys, li_retries = 3, li_model = ''gpt''\<rparr>"

theorem call_correct_witness:
  "\<exists>l' ss ks. call_with_retry demo_backend demo_llm = (Inr JNull, l', ss, ks) \<and> length ks = 2 \<and> (\<forall>s \<in> set ss. 1 \<le> s \<and> s \<le> 60)"
proof -
  obtain x l' ss ks where c: "call_with_retry demo_backend demo_llm = (x, l', ss, ks)" by (cases "call_with_retry demo_backend demo_llm")
  have h: "\<not> is_exhausted (li_budget demo_llm)" "0 < li_retries demo_llm" "0 \<le> bk_jitter demo_backend a \<and> bk_jitter demo_backend a \<le> 1" for a
    by (simp_all add: demo_llm_def new_budget_def is_exhausted_def demo_backend_def)
  note f = call_correct [OF c h(1,2,3)]
  have r: "bk_reply demo_backend a k = (if a = 1 then Rate_Limited else Replied JNull)" for a k by (simp add: demo_backend_def)
  have "length ks \<noteq> 1" using f(4) by (auto simp: r retried_def demo_llm_def)
  moreover have "\<not> 1 < length ks - 1" using f(3) by (auto simp: r retried_def)
  ultimately have "length ks = 2" using f(1) by linarith
  moreover from this have "x = Inr JNull" using f(5) [of JNull] by (simp add: r)
  ultimately show ?thesis using c f(6) by auto
qed

end
