(* ===== verification/Metrics.thy ===== *)
theory Metrics
  imports Py_Text "HOL-Library.List_Lexorder" "HOL-Library.Char_ord"
begin

text \<open>
  \<open>app/observability/metrics.py\<close>: counters, histograms and gauges with labels, the registry of built-in and custom
  metrics, and the collection of all of them.  Each metric has a lock that is not reentrant; a call that waits
  for a lock its own thread holds never returns and is the value \<open>None\<close>.  Only histograms call themselves
  under their lock, so only their lock is part of the state.  The copies in \<open>prometheus_client\<close>, whose errors
  are swallowed, are left out; values are reals.
\<close>

section \<open>Labels\<close>

type_synonym labels = "(string \<times> string) list"

text \<open>\<open>_LabelKey\<close>: the items of the dict, sorted.\<close>

definition label_key :: "labels option \<Rightarrow> labels" where
  "label_key ls = (case ls of None \<Rightarrow> [] | Some d \<Rightarrow> sort_key fst d)"

definition label_text :: "labels \<Rightarrow> string" where
  "label_text ls = join '','' (map (\<lambda>(k, v). k @ ''='' @ v) ls)"

definition or_default :: "string \<Rightarrow> string \<Rightarrow> string" where
  "or_default s d = (if s = [] then d else s)"

section \<open>The three kinds of metrics\<close>

datatype metric_error = Key_Error | Type_Error | Value_Error

record counter =
  co_values :: "(labels \<times> real) list"

definition value_at :: "labels \<Rightarrow> (labels \<times> real) list \<Rightarrow> real" where
  "value_at k vs = (case map_of vs k of None \<Rightarrow> 0 | Some x \<Rightarrow> x)"

definition counter_inc :: "real \<Rightarrow> labels option \<Rightarrow> counter \<Rightarrow> metric_error + counter" where
  "counter_inc amount ls c =
     (if amount < 0 then Inl Value_Error
      else let k = label_key ls in Inr (c\<lparr>co_values := AList.update k (value_at k (co_values c) + amount) (co_values c)\<rparr>))"

definition counter_get :: "labels option \<Rightarrow> counter \<Rightarrow> real" where
  "counter_get ls c = value_at (label_key ls) (co_values c)"

text \<open>A dict comprehension by the text of the labels: later entries overwrite.\<close>

definition by_text :: "string \<Rightarrow> (labels \<times> 'v) list \<Rightarrow> (string \<times> 'v) list" where
  "by_text dflt kvs = fold (\<lambda>(k, v). AList.update (or_default (label_text k) dflt) v) kvs []"

definition counter_get_all :: "counter \<Rightarrow> (string \<times> real) list" where
  "counter_get_all c = by_text ''total'' (co_values c)"

record gauge =
  ga_values :: "(labels \<times> real) list"

definition gauge_set :: "real \<Rightarrow> labels option \<Rightarrow> gauge \<Rightarrow> gauge" where
  "gauge_set x ls g = g\<lparr>ga_values := AList.update (label_key ls) x (ga_values g)\<rparr>"

definition gauge_inc :: "real \<Rightarrow> labels option \<Rightarrow> gauge \<Rightarrow> gauge" where
  "gauge_inc amount ls g =
     (let k = label_key ls in g\<lparr>ga_values := AList.update k (value_at k (ga_values g) + amount) (ga_values g)\<rparr>)"

definition gauge_dec :: "real \<Rightarrow> labels option \<Rightarrow> gauge \<Rightarrow> gauge" where
  "gauge_dec amount = gauge_inc (- amount)"

definition gauge_get :: "labels option \<Rightarrow> gauge \<Rightarrow> real" where
  "gauge_get ls g = value_at (label_key ls) (ga_values g)"

definition gauge_get_all :: "gauge \<Rightarrow> (string \<times> real) list" where
  "gauge_get_all g = by_text ''value'' (ga_values g)"

record histogram =
  hi_buckets :: "real list"
  hi_bucket_counts :: "(labels \<times> (real \<times> nat) list) list"
  hi_sums :: "(labels \<times> real) list"
  hi_counts :: "(labels \<times> nat) list"
  hi_held :: bool

definition default_buckets :: "real list" where
  "default_buckets = [5/1000, 1/100, 25/1000, 5/100, 1/10, 25/100, 5/10, 1, 25/10, 5, 10, 30, 60, 120, 300]"

definition new_histogram :: "real list option \<Rightarrow> histogram" where
  "new_histogram bs =
     \<lparr>hi_buckets = sort (case bs of None \<Rightarrow> default_buckets | Some b \<Rightarrow> if b = [] then default_buckets else b),
      hi_bucket_counts = [], hi_sums = [], hi_counts = [], hi_held = False\<rparr>"

text \<open>One boundary after the other is counted up.\<close>

definition bump :: "real \<Rightarrow> real \<Rightarrow> (real \<times> nat) list \<Rightarrow> (real \<times> nat) list" where
  "bump x b d = (if x \<le> b then AList.update b (the (map_of d b) + 1) d else d)"

definition hist_observe :: "real \<Rightarrow> labels option \<Rightarrow> histogram \<Rightarrow> histogram option" where
  "hist_observe x ls h =
     (if hi_held h then None
      else let k = label_key ls;
               old = (case map_of (hi_bucket_counts h) k of Some d \<Rightarrow> d
                      | None \<Rightarrow> fold (\<lambda>b. AList.update b 0) (hi_buckets h) []);
               count = (case map_of (hi_counts h) k of None \<Rightarrow> 0 | Some n \<Rightarrow> n)
           in Some (h\<lparr>hi_sums := AList.update k (value_at k (hi_sums h) + x) (hi_sums h),
                      hi_counts := AList.update k (count + 1) (hi_counts h),
                      hi_bucket_counts := AList.update k (fold (bump x) (hi_buckets h) old) (hi_bucket_counts h)\<rparr>))"

record stats =
  st_count :: nat
  st_sum :: real
  st_avg :: real
  st_buckets :: "(real \<times> nat) list"

definition hist_get :: "labels option \<Rightarrow> histogram \<Rightarrow> stats option" where
  "hist_get ls h =
     (if hi_held h then None
      else let k = label_key ls; n = (case map_of (hi_counts h) k of None \<Rightarrow> 0 | Some n \<Rightarrow> n); s = value_at k (hi_sums h)
           in Some \<lparr>st_count = n, st_sum = s, st_avg = (if n > 0 then s / real n else 0),
                    st_buckets = (case map_of (hi_bucket_counts h) k of None \<Rightarrow> [] | Some d \<Rightarrow> d)\<rparr>)"

text \<open>\<open>get_all\<close> holds the lock while it calls \<open>get\<close>; the histogram it leaves behind comes with the result.\<close>

fun get_each :: "labels list \<Rightarrow> histogram \<Rightarrow> (labels \<times> stats) list option" where
  "get_each [] h = Some []"
| "get_each (k # ks) h =
     (case hist_get (if k = [] then None else Some k) h of
        None \<Rightarrow> None
      | Some s \<Rightarrow> map_option (Cons (k, s)) (get_each ks h))"

definition hist_get_all :: "histogram \<Rightarrow> (string \<times> stats) list option \<times> histogram" where
  "hist_get_all h =
     (if hi_held h then (None, h)
      else let h' = h\<lparr>hi_held := True\<rparr> in
        case get_each (map fst (hi_counts h)) h' of
          None \<Rightarrow> (None, h')
        | Some r \<Rightarrow> (Some (by_text ''total'' r), h))"

section \<open>The registry\<close>

datatype metric = Counter counter | Histogram histogram | Gauge gauge

record registry =
  mr_builtin :: "(string \<times> metric) list"
  mr_custom :: "(string \<times> metric) list"

definition builtin_metrics :: "(string \<times> metric) list" where
  "builtin_metrics =
     [(''llm_calls_total'', Counter \<lparr>co_values = []\<rparr>),
      (''llm_call_duration_seconds'', Histogram (new_histogram (Some [1/10, 5/10, 1, 2, 5, 10, 30, 60, 120]))),
      (''tool_calls_total'', Counter \<lparr>co_values = []\<rparr>),
      (''tool_call_duration_seconds'', Histogram (new_histogram (Some [1/100, 5/100, 1/10, 5/10, 1, 5, 10, 30]))),
      (''conversation_duration_seconds'', Histogram (new_histogram (Some [1, 5, 10, 30, 60, 300, 600, 1800, 3600]))),
      (''active_conversations'', Gauge \<lparr>ga_values = []\<rparr>),
      (''token_usage_total'', Counter \<lparr>co_values = []\<rparr>),
      (''error_count_total'', Counter \<lparr>co_values = []\<rparr>)]"

definition new_registry :: registry where
  "new_registry = \<lparr>mr_builtin = builtin_metrics, mr_custom = []\<rparr>"

definition find_metric :: "string \<Rightarrow> registry \<Rightarrow> metric option" where
  "find_metric n r = (case map_of (mr_builtin r) n of Some m \<Rightarrow> Some m | None \<Rightarrow> map_of (mr_custom r) n)"

definition put_metric :: "string \<Rightarrow> metric \<Rightarrow> registry \<Rightarrow> registry" where
  "put_metric n m r =
     (if map_of (mr_builtin r) n \<noteq> None then r\<lparr>mr_builtin := AList.update n m (mr_builtin r)\<rparr>
      else r\<lparr>mr_custom := AList.update n m (mr_custom r)\<rparr>)"

definition inc_counter :: "string \<Rightarrow> real \<Rightarrow> labels option \<Rightarrow> registry \<Rightarrow> (metric_error + unit) \<times> registry" where
  "inc_counter n amount ls r =
     (case find_metric n r of
        None \<Rightarrow> (Inl Key_Error, r)
      | Some (Counter c) \<Rightarrow> (case counter_inc amount ls c of Inl e \<Rightarrow> (Inl e, r) | Inr c' \<Rightarrow> (Inr (), put_metric n (Counter c') r))
      | Some _ \<Rightarrow> (Inl Type_Error, r))"

definition observe_histogram :: "string \<Rightarrow> real \<Rightarrow> labels option \<Rightarrow> registry \<Rightarrow> ((metric_error + unit) \<times> registry) option" where
  "observe_histogram n x ls r =
     (case find_metric n r of
        None \<Rightarrow> Some (Inl Key_Error, r)
      | Some (Histogram h) \<Rightarrow> map_option (\<lambda>h'. (Inr (), put_metric n (Histogram h') r)) (hist_observe x ls h)
      | Some _ \<Rightarrow> Some (Inl Type_Error, r))"

definition set_gauge :: "string \<Rightarrow> real \<Rightarrow> labels option \<Rightarrow> registry \<Rightarrow> (metric_error + unit) \<times> registry" where
  "set_gauge n x ls r =
     (case find_metric n r of
        None \<Rightarrow> (Inl Key_Error, r)
      | Some (Gauge g) \<Rightarrow> (Inr (), put_metric n (Gauge (gauge_set x ls g)) r)
      | Some _ \<Rightarrow> (Inl Type_Error, r))"

text \<open>\<open>register_counter\<close>, \<open>register_histogram\<close>, \<open>register_gauge\<close>.\<close>

definition register_metric :: "string \<Rightarrow> metric \<Rightarrow> registry \<Rightarrow> (metric_error + unit) \<times> registry" where
  "register_metric n m r =
     (if map_of (mr_builtin r) n \<noteq> None \<or> map_of (mr_custom r) n \<noteq> None then (Inl Value_Error, r)
      else (Inr (), r\<lparr>mr_custom := AList.update n m (mr_custom r)\<rparr>))"

datatype reading = Counter_Values "(string \<times> real) list" | Histogram_Values "(string \<times> stats) list" | Gauge_Values "(string \<times> real) list"

definition all_metrics :: "registry \<Rightarrow> (string \<times> metric) list" where
  "all_metrics r = fold (\<lambda>(n, m). AList.update n m) (mr_custom r) (mr_builtin r)"

fun read_each :: "(string \<times> metric) list \<Rightarrow> registry \<Rightarrow> (string \<times> reading) list option \<times> registry" where
  "read_each [] r = (Some [], r)"
| "read_each ((n, m) # ms) r =
     (case m of
        Counter c \<Rightarrow> apfst (map_option (Cons (n, Counter_Values (counter_get_all c)))) (read_each ms r)
      | Gauge g \<Rightarrow> apfst (map_option (Cons (n, Gauge_Values (gauge_get_all g)))) (read_each ms r)
      | Histogram h \<Rightarrow>
          (case hist_get_all h of
             (None, h') \<Rightarrow> (None, put_metric n (Histogram h') r)
           | (Some v, _) \<Rightarrow> apfst (map_option (Cons (n, Histogram_Values v))) (read_each ms r)))"

definition get_metrics :: "registry \<Rightarrow> (string \<times> reading) list option \<times> registry" where
  "get_metrics r = read_each (all_metrics r) r"

section \<open>What the metrics hold\<close>

definition sum_of :: "(real \<times> labels option) list \<Rightarrow> labels \<Rightarrow> real" where
  "sum_of xs k = sum_list (map fst (filter (\<lambda>(_, ls). label_key ls = k) xs))"

definition amount_upto :: "(real \<times> labels option) list \<Rightarrow> labels \<Rightarrow> real \<Rightarrow> nat" where
  "amount_upto xs k b = length (filter (\<lambda>(x, ls). label_key ls = k \<and> x \<le> b) xs)"

definition amount :: "(real \<times> labels option) list \<Rightarrow> labels \<Rightarrow> nat" where
  "amount xs k = length (filter (\<lambda>(_, ls). label_key ls = k) xs)"

fun observe_all :: "(real \<times> labels option) list \<Rightarrow> histogram \<Rightarrow> histogram option" where
  "observe_all [] h = Some h"
| "observe_all ((x, ls) # xs) h = Option.bind (hist_observe x ls h) (observe_all xs)"

lemma zero_buckets: "distinct bs \<Longrightarrow> fold (\<lambda>b. AList.update b 0) bs [] = map (\<lambda>b. (b, 0 :: nat)) bs"
proof (induction bs rule: rev_induct)
  case (snoc b bs)
  then show ?case by (simp add: update_new image_image)
qed simp

lemma bump_all:
  assumes "distinct bs"
  shows "fold (bump x) bs (map (\<lambda>b. (b, f b)) bs) = map (\<lambda>b. (b, f b + (if x \<le> b then 1 else 0))) bs"
proof -
  have upd: "AList.update b v (map (\<lambda>b. (b, f b)) cs) = map (\<lambda>c. (c, if c = b then v else f c)) cs" if "b \<in> set cs" "distinct cs" for b v f cs
    using that by (induction cs) auto
  have "fold (bump x) cs (map (\<lambda>b. (b, f b)) bs) = map (\<lambda>b. (b, f b + (if b \<in> set cs \<and> x \<le> b then 1 else 0))) bs"
    if "set cs \<subseteq> set bs" "distinct cs" for cs
    using that
  proof (induction cs arbitrary: f)
    case (Cons c cs)
    have m: "map_of (map (\<lambda>b. (b, f b)) bs) c = Some (f c)" using Cons.prems by (simp add: map_of_map_restrict)
    have "bump x c (map (\<lambda>b. (b, f b)) bs) = map (\<lambda>b. (b, if b = c \<and> x \<le> c then f c + 1 else f b)) bs"
      using Cons.prems by (simp add: bump_def m upd assms)
    then show ?case using Cons by auto
  qed simp
  from this [of bs] assms show ?thesis by simp
qed

lemma observe_all_snoc: "observe_all (xs @ [(x, ls)]) h = Option.bind (observe_all xs h) (hist_observe x ls)"
  by (induction xs h rule: observe_all.induct) (auto split: Option.bind_split)

lemma observe_all_facts:
  assumes "distinct bs" "bs \<noteq> []"
  shows "\<exists>h. observe_all xs (new_histogram (Some bs)) = Some h \<and> \<not> hi_held h \<and> hi_buckets h = sort bs \<and>
    (\<forall>k. value_at k (hi_sums h) = sum_of xs k \<and>
       map_of (hi_counts h) k = (if amount xs k = 0 then None else Some (amount xs k)) \<and>
       map_of (hi_bucket_counts h) k = (if amount xs k = 0 then None else Some (map (\<lambda>b. (b, amount_upto xs k b)) (sort bs))))"
proof (induction xs rule: rev_induct)
  case Nil
  with assms(2) show ?case by (simp add: new_histogram_def sum_of_def amount_def value_at_def)
next
  case (snoc e xs)
  obtain x ls where e: "e = (x, ls)" by (cases e)
  let ?k = "label_key ls"
  from snoc obtain h where h: "observe_all xs (new_histogram (Some bs)) = Some h" "\<not> hi_held h" "hi_buckets h = sort bs"
    "\<And>k. value_at k (hi_sums h) = sum_of xs k" "\<And>k. map_of (hi_counts h) k = (if amount xs k = 0 then None else Some (amount xs k))"
    "\<And>k. map_of (hi_bucket_counts h) k = (if amount xs k = 0 then None else Some (map (\<lambda>b. (b, amount_upto xs k b)) (sort bs)))"
    by blast
  have d: "distinct (sort bs)" using assms(1) by simp
  have old: "(case map_of (hi_bucket_counts h) ?k of Some d \<Rightarrow> d | None \<Rightarrow> fold (\<lambda>b. AList.update b 0) (hi_buckets h) []) =
      map (\<lambda>b. (b, amount_upto xs ?k b)) (sort bs)"
  proof (cases "amount xs ?k = 0")
    case True
    then have "amount_upto xs ?k b = 0" for b by (auto simp: amount_def amount_upto_def filter_empty_conv)
    with True show ?thesis by (simp add: h(3,6) zero_buckets [OF d])
  qed (simp add: h(6))
  have count: "(case map_of (hi_counts h) ?k of None \<Rightarrow> 0 | Some n \<Rightarrow> n) = amount xs ?k" by (simp add: h(5))
  obtain h' where h': "hist_observe x ls h = Some h'"
      "h' = h\<lparr>hi_sums := AList.update ?k (sum_of xs ?k + x) (hi_sums h), hi_counts := AList.update ?k (amount xs ?k + 1) (hi_counts h),
         hi_bucket_counts := AList.update ?k (map (\<lambda>b. (b, amount_upto xs ?k b + (if x \<le> b then 1 else 0))) (sort bs)) (hi_bucket_counts h)\<rparr>"
    using h(2) by (simp add: hist_observe_def Let_def old count h(3,4) bump_all [OF d])
  have "sum_of (xs @ [e]) k = (if k = ?k then sum_of xs k + x else sum_of xs k)"
    "amount (xs @ [e]) k = (if k = ?k then amount xs k + 1 else amount xs k)"
    "amount_upto (xs @ [e]) k b = (if k = ?k \<and> x \<le> b then amount_upto xs k b + 1 else amount_upto xs k b)" for k b
    by (auto simp: e sum_of_def amount_def amount_upto_def)
  note grow = this
  have val: "value_at k (AList.update j y d) = (if k = j then y else value_at k d)" for k j y d by (simp add: value_at_def)
  show ?case using h h'(1) unfolding e observe_all_snoc
    by (intro exI [of _ h']) (auto simp: h'(2) val grow [unfolded e])
qed

text \<open>A histogram with different boundaries holds, for every set of labels, the number of its observations, their sum, and for
  each boundary how many of them are at most that.\<close>

theorem histogram_correct:
  assumes "distinct bs" "bs \<noteq> []"
  shows "\<exists>h. observe_all xs (new_histogram (Some bs)) = Some h \<and>
    hist_get ls h = Some (let k = label_key ls; n = amount xs k in
      \<lparr>st_count = n, st_sum = sum_of xs k, st_avg = (if n > 0 then sum_of xs k / real n else 0),
       st_buckets = (if n = 0 then [] else map (\<lambda>b. (b, amount_upto xs k b)) (sort bs))\<rparr>)"
proof -
  from observe_all_facts [OF assms, of xs] obtain h where h: "observe_all xs (new_histogram (Some bs)) = Some h" "\<not> hi_held h"
    "\<And>k. value_at k (hi_sums h) = sum_of xs k" "\<And>k. map_of (hi_counts h) k = (if amount xs k = 0 then None else Some (amount xs k))"
    "\<And>k. map_of (hi_bucket_counts h) k = (if amount xs k = 0 then None else Some (map (\<lambda>b. (b, amount_upto xs k b)) (sort bs)))"
    by blast
  then show ?thesis by (intro exI [of _ h]) (simp add: hist_get_def Let_def)
qed

section \<open>Collecting the metrics\<close>

text \<open>Reading all label sets of a histogram that has one never returns, since \<open>get_all\<close> calls \<open>get\<close> under the lock that both take;
  the lock stays held.\<close>

lemma hist_get_all_hangs:
  assumes "\<not> hi_held h"
  shows "hist_get_all h = (if hi_counts h = [] then (Some [], h) else (None, h\<lparr>hi_held := True\<rparr>))"
  using assms by (cases "hi_counts h") (simp_all add: hist_get_all_def Let_def hist_get_def by_text_def)

definition observed :: "metric \<Rightarrow> bool" where
  "observed m = (case m of Histogram h \<Rightarrow> hi_counts h \<noteq> [] | _ \<Rightarrow> False)"

definition unlocked :: "metric \<Rightarrow> bool" where
  "unlocked m = (case m of Histogram h \<Rightarrow> \<not> hi_held h | _ \<Rightarrow> True)"

lemma read_each_hangs:
  assumes "list_all (\<lambda>(_, m). unlocked m) ms"
  shows "if list_ex (\<lambda>(_, m). observed m) ms
    then \<exists>n h. (n, Histogram h) \<in> set ms \<and> observed (Histogram h) \<and> read_each ms r = (None, put_metric n (Histogram (h\<lparr>hi_held := True\<rparr>)) r)
    else fst (read_each ms r) \<noteq> None \<and> snd (read_each ms r) = r"
  using assms
proof (induction ms)
  case (Cons e ms)
  obtain n m where e: "e = (n, m)" by (cases e)
  have IH: "if list_ex (\<lambda>(_, m). observed m) ms
    then \<exists>n h. (n, Histogram h) \<in> set ms \<and> observed (Histogram h) \<and> read_each ms r = (None, put_metric n (Histogram (h\<lparr>hi_held := True\<rparr>)) r)
    else fst (read_each ms r) \<noteq> None \<and> snd (read_each ms r) = r" using Cons by simp
  have u: "unlocked m" using Cons.prems by (simp add: e)
  show ?case
  proof (cases "observed m")
    case True
    then obtain h where h: "m = Histogram h" "hi_counts h \<noteq> []" by (cases m) (simp_all add: observed_def)
    then have "read_each (e # ms) r = (None, put_metric n (Histogram (h\<lparr>hi_held := True\<rparr>)) r)"
      using u by (simp add: e unlocked_def hist_get_all_hangs)
    with True show ?thesis by (auto simp: e h(1))
  next
    case False
    then have "\<exists>v. read_each (e # ms) r = apfst (map_option (Cons (n, v))) (read_each ms r)"
      using u by (cases m) (auto simp: e unlocked_def observed_def hist_get_all_hangs)
    then obtain v where "read_each (e # ms) r = apfst (map_option (Cons (n, v))) (read_each ms r)" by blast
    with IH False show ?thesis by (cases "list_ex (\<lambda>(_, m). observed m) ms") (fastforce simp: e)+
  qed
qed simp

lemma all_metrics_find:
  assumes "dict_ok (mr_builtin r)" "dict_ok (mr_custom r)" "fst ` set (mr_builtin r) \<inter> fst ` set (mr_custom r) = {}"
  shows "all_metrics r = mr_builtin r @ mr_custom r" "(n, m) \<in> set (all_metrics r) \<Longrightarrow> find_metric n r = Some m"
proof -
  have "fold (\<lambda>(n, m). AList.update n m) cs bs = bs @ cs" if "dict_ok cs" "fst ` set bs \<inter> fst ` set cs = {}" for bs cs :: "(string \<times> metric) list"
    using that
  proof (induction cs arbitrary: bs)
    case (Cons c cs)
    then have "AList.update (fst c) (snd c) bs = bs @ [c]" by (simp add: update_new)
    with Cons show ?case by (simp add: split_beta dict_ok_def)
  qed simp
  from this [OF assms(2,3)] show a: "all_metrics r = mr_builtin r @ mr_custom r" by (simp add: all_metrics_def)
  show "find_metric n r = Some m" if "(n, m) \<in> set (all_metrics r)"
  proof -
    have "distinct (map fst (all_metrics r))" using assms by (auto simp: a dict_ok_def)
    with that have "map_of (all_metrics r) n = Some m" by (rule map_of_is_SomeI [rotated])
    then show ?thesis by (simp add: a find_metric_def map_add_def split: option.splits)
  qed
qed

text \<open>Collecting the metrics never returns as soon as any histogram has been observed, and from then on an observation of that
  histogram never returns either.\<close>

theorem collection_hangs:
  assumes "dict_ok (mr_builtin r)" "dict_ok (mr_custom r)" "fst ` set (mr_builtin r) \<inter> fst ` set (mr_custom r) = {}"
    and "\<forall>(_, m) \<in> set (all_metrics r). unlocked m"
  shows "fst (get_metrics r) = None \<longleftrightarrow> (\<exists>(_, m) \<in> set (all_metrics r). observed m)"
    "fst (get_metrics r) = None \<Longrightarrow> \<exists>n. observed (the (find_metric n r)) \<and> (\<forall>x ls. observe_histogram n x ls (snd (get_metrics r)) = None)"
    "fst (get_metrics r) \<noteq> None \<Longrightarrow> snd (get_metrics r) = r"
proof -
  have u: "list_all (\<lambda>(_, m). unlocked m) (all_metrics r)" using assms(4) by (auto simp: list_all_iff)
  note h = read_each_hangs [OF u, of r, folded get_metrics_def]
  show iff: "fst (get_metrics r) = None \<longleftrightarrow> (\<exists>(_, m) \<in> set (all_metrics r). observed m)"
    using h by (auto simp: list_ex_iff get_metrics_def split: if_splits)
  show "fst (get_metrics r) \<noteq> None \<Longrightarrow> snd (get_metrics r) = r"
    using h iff by (auto simp: list_ex_iff get_metrics_def split: if_splits)
  show "\<exists>n. observed (the (find_metric n r)) \<and> (\<forall>x ls. observe_histogram n x ls (snd (get_metrics r)) = None)"
    if "fst (get_metrics r) = None"
  proof -
    from that iff h obtain n x where n: "(n, Histogram x) \<in> set (all_metrics r)" "observed (Histogram x)"
        "get_metrics r = (None, put_metric n (Histogram (x\<lparr>hi_held := True\<rparr>)) r)"
      by (auto simp: list_ex_iff get_metrics_def split: if_splits)
    have f: "find_metric n r = Some (Histogram x)" by (rule all_metrics_find(2) [OF assms(1-3) n(1)])
    have "find_metric n (put_metric n m r) = Some m" for m
      by (auto simp: find_metric_def put_metric_def)
    with n f show ?thesis by (intro exI [of _ n]) (simp add: observe_histogram_def hist_observe_def)
  qed
qed

section \<open>Counters and labels\<close>

fun inc_all :: "(real \<times> labels option) list \<Rightarrow> counter \<Rightarrow> counter" where
  "inc_all [] c = c"
| "inc_all ((x, ls) # xs) c = inc_all xs (case counter_inc x ls c of Inl _ \<Rightarrow> c | Inr c' \<Rightarrow> c')"

text \<open>A counter holds the sum of the increments with its labels, refused negative ones left out, and never decreases.\<close>

theorem counter_correct:
  "counter_get ls (inc_all xs c) = counter_get ls c + sum_of (filter (\<lambda>(x, _). 0 \<le> x) xs) (label_key ls)"
  "counter_get ls c \<le> counter_get ls (inc_all xs c)"
proof -
  show sum: "counter_get ls (inc_all xs c) = counter_get ls c + sum_of (filter (\<lambda>(x, _). 0 \<le> x) xs) (label_key ls)"
    by (induction xs c rule: inc_all.induct) (auto simp: counter_inc_def counter_get_def sum_of_def value_at_def Let_def)
  have "0 \<le> sum_of (filter (\<lambda>(x, _). 0 \<le> x) xs) (label_key ls)"
    unfolding sum_of_def by (rule sum_list_nonneg) auto
  with sum show "counter_get ls c \<le> counter_get ls (inc_all xs c)" by linarith
qed

text \<open>The labels are a set: the order in which they are given does not matter.\<close>

lemma label_key_order:
  assumes "distinct (map fst d)" "mset d = mset d'"
  shows "label_key (Some d) = label_key (Some d')"
proof -
  have "inj_on fst (set d)" using assms(1) by (simp add: distinct_map)
  then have "sort_key fst d = sort_key fst d'" using assms(2) by (intro sort_key_inj_key_eq) simp_all
  then show ?thesis by (simp add: label_key_def)
qed

text \<open>The text of the labels is not unique: a counter with two label sets can be reported with one value only.\<close>

theorem label_texts_collide:
  assumes "label_text k = label_text k'" "k \<noteq> k'" "label_text k \<noteq> []"
  shows "counter_get_all \<lparr>co_values = [(k, x), (k', y)]\<rparr> = [(label_text k, y)]"
  using assms by (simp add: counter_get_all_def by_text_def or_default_def)

theorem label_texts_collide_witness:
  "counter_get_all \<lparr>co_values = [([(''a'', ''1''), (''b'', ''2'')], 5), ([(''a'', ''1,b=2'')], 7)]\<rparr> = [(''a=1,b=2'', 7)]"
  using label_texts_collide [of "[(''a'', ''1''), (''b'', ''2'')]" "[(''a'', ''1,b=2'')]" 5 7] by (simp add: label_text_def)

text \<open>A boundary that is given twice is counted twice.\<close>

lemma duplicate_boundary: "hist_get None (the (hist_observe 1 None (new_histogram (Some [2, 2])))) =
    Some \<lparr>st_count = 1, st_sum = 1, st_avg = 1, st_buckets = [(2, 2)]\<rparr>"
  by (simp add: hist_get_def hist_observe_def new_histogram_def label_key_def value_at_def bump_def Let_def)

definition one_observation :: registry where
  "one_observation = snd (the (observe_histogram ''tool_call_duration_seconds'' 2 None new_registry))"

theorem collection_hangs_witness:
  "fst (get_metrics one_observation) = None \<and> fst (get_metrics new_registry) \<noteq> None"
proof -
  have o: "mr_builtin one_observation = AList.update ''tool_call_duration_seconds''
      (Histogram (the (hist_observe 2 None (new_histogram (Some [1/100, 5/100, 1/10, 5/10, 1, 5, 10, 30]))))) builtin_metrics"
      "mr_custom one_observation = []"
    by (simp_all add: one_observation_def observe_histogram_def find_metric_def new_registry_def put_metric_def builtin_metrics_def
        hist_observe_def new_histogram_def Let_def)
  have a: "all_metrics r = mr_builtin r" if "mr_custom r = []" for r using that by (simp add: all_metrics_def)
  have h: "unlocked (Histogram (the (hist_observe 2 None (new_histogram b))))" "observed (Histogram (the (hist_observe 2 None (new_histogram b))))" for b
    by (simp_all add: unlocked_def observed_def hist_observe_def new_histogram_def Let_def)
  have n: "unlocked (Histogram (new_histogram b))" "\<not> observed (Histogram (new_histogram b))" for b
    by (simp_all add: unlocked_def observed_def new_histogram_def)
  have dict: "dict_ok (mr_builtin one_observation)" "dict_ok (mr_builtin new_registry)"
    by (simp_all add: o(1) new_registry_def) (simp_all add: builtin_metrics_def dict_ok_def)
  have u: "\<forall>(_, m) \<in> set (all_metrics one_observation). unlocked m" "\<forall>(_, m) \<in> set (all_metrics new_registry). unlocked m"
    by (simp_all add: a o new_registry_def builtin_metrics_def h n) (simp_all add: unlocked_def)
  have "\<exists>(_, m) \<in> set (all_metrics one_observation). observed m" by (simp add: a o builtin_metrics_def h)
  moreover have "\<not> (\<exists>(_, m) \<in> set (all_metrics new_registry). observed m)"
    by (simp add: a new_registry_def builtin_metrics_def n) (simp add: observed_def)
  ultimately show ?thesis
    using collection_hangs(1) [OF dict(1) _ _ u(1)] collection_hangs(1) [OF dict(2) _ _ u(2)]
    by (simp add: o dict_ok_def new_registry_def)
qed

theorem histogram_correct_witness:
  "\<exists>h. observe_all [(2, None), (7, None), (1, Some [(''model'', ''m'')])] (new_histogram (Some [1, 5])) = Some h \<and>
     hist_get None h = Some \<lparr>st_count = 2, st_sum = 9, st_avg = 9 / 2, st_buckets = [(1, 0), (5, 1)]\<rparr>"
  using histogram_correct [of "[1, 5]" "[(2, None), (7, None), (1, Some [(''model'', ''m'')])]" None]
  by (simp add: amount_def amount_upto_def sum_of_def label_key_def Let_def eval_nat_numeral)

end
