(* ===== verification/Health.thy ===== *)
theory Health
  imports Py_Text
begin

text \<open>
  \<open>app/observability/health.py\<close>: the order of the statuses, the registry of checkers, the liveness and the two
  readiness probes, and the three built-in checkers.  What a checker does is a function to an exception or a
  result; the answers of the database, of the configuration, of the language model and of the sandbox factory
  are parameters.  Times, messages and details are left out.
\<close>

section \<open>Statuses\<close>

datatype status = HEALTHY | DEGRADED | UNHEALTHY

fun rank :: "status \<Rightarrow> nat" where
  "rank UNHEALTHY = 0" | "rank DEGRADED = 1" | "rank HEALTHY = 2"

lemma rank_inj: "rank a = rank b \<longleftrightarrow> a = b"
  by (cases a; cases b) simp_all

instantiation status :: linorder
begin

definition less_status :: "status \<Rightarrow> status \<Rightarrow> bool" where
  "less_status a b \<longleftrightarrow> rank a < rank b"

definition less_eq_status :: "status \<Rightarrow> status \<Rightarrow> bool" where
  "less_eq_status a b \<longleftrightarrow> a = b \<or> a < b"

instance
  by standard (auto simp: less_eq_status_def less_status_def rank_inj neq_iff [of "rank _"] dest: rank_inj [THEN iffD1, rotated])

end

section \<open>Checkers\<close>

record component_health =
  ch_name :: string
  ch_status :: status

text \<open>How a check ends: it raises, gives a result, or something of another type.\<close>

datatype check_result = Raised | Result component_health | Other

record checker =
  ck_check :: check_result
  ck_check_async :: check_result

definition result :: "string \<Rightarrow> status \<Rightarrow> component_health" where
  "result n s = \<lparr>ch_name = n, ch_status = s\<rparr>"

text \<open>A checker that does not override \<open>check_async\<close> runs \<open>check\<close> in a thread.\<close>

definition default_async :: "check_result \<Rightarrow> checker" where
  "default_async r = \<lparr>ck_check = r, ck_check_async = r\<rparr>"

definition database_check :: "bool \<Rightarrow> component_health" where
  "database_check answers = result ''database'' (if answers then HEALTHY else UNHEALTHY)"

record llm_config =
  lc_provider :: string
  lc_has_api_key :: bool
  lc_has_base_url :: bool

definition keyless_providers :: "string list" where
  "keyless_providers = [''ollama'', ''lmstudio'', ''openai-compat'', ''universal'', ''gguf'', ''huggingface'', ''hf'']"

text \<open>
  \<open>_test_api_call\<close> inside a running event loop passes the coroutine function itself to \<open>asyncio.run\<close>, which
  raises; outside of one it asks the model.
\<close>

definition api_call_succeeds :: "bool \<Rightarrow> bool \<Rightarrow> bool" where
  "api_call_succeeds in_loop answers \<longleftrightarrow> \<not> in_loop \<and> answers"

definition llm_check :: "llm_config option \<Rightarrow> bool \<Rightarrow> bool \<Rightarrow> bool \<Rightarrow> component_health" where
  "llm_check cfg perform in_loop answers = result ''llm''
     (case cfg of
        None \<Rightarrow> UNHEALTHY
      | Some c \<Rightarrow>
          if lc_provider c = ''mock'' then DEGRADED
          else if \<not> lc_has_api_key c \<and> \<not> lc_has_base_url c \<and> lc_provider c \<notin> set keyless_providers then UNHEALTHY
          else if perform then (if api_call_succeeds in_loop answers then HEALTHY else DEGRADED)
          else HEALTHY)"

text \<open>The backends that the factory lists: \<open>Inl True\<close> when it cannot be imported, \<open>Inl False\<close> when it raises.\<close>

definition sandbox_check :: "bool + string list \<Rightarrow> component_health" where
  "sandbox_check backends = result ''sandbox''
     (case backends of Inl import_error \<Rightarrow> (if import_error then DEGRADED else UNHEALTHY)
      | Inr bs \<Rightarrow> if bs = [] then DEGRADED else HEALTHY)"

section \<open>The health check system\<close>

type_synonym system = "(string \<times> checker) list"

definition register_checker :: "string \<Rightarrow> checker \<Rightarrow> system \<Rightarrow> system" where
  "register_checker = AList.update"

definition unregister_checker :: "string \<Rightarrow> system \<Rightarrow> system" where
  "unregister_checker = AList.delete"

definition liveness :: "system \<Rightarrow> status" where
  "liveness s = HEALTHY"

definition worse :: "status \<Rightarrow> status \<Rightarrow> status" where
  "worse new overall =
     (if new = UNHEALTHY then UNHEALTHY else if new = DEGRADED \<and> overall = HEALTHY then DEGRADED else overall)"

text \<open>The sync probe reads the result of a check that did not raise outside of its \<open>try\<close>, so a result of another type
  makes the whole probe raise (\<open>None\<close>).\<close>

fun readiness_loop :: "system \<Rightarrow> status \<Rightarrow> component_health list \<Rightarrow> (status \<times> component_health list) option" where
  "readiness_loop [] overall rs = Some (overall, rs)"
| "readiness_loop ((n, c) # cs) overall rs =
     (case ck_check c of
        Raised \<Rightarrow> let h = result n UNHEALTHY in readiness_loop cs (worse (ch_status h) overall) (rs @ [h])
      | Result h \<Rightarrow> readiness_loop cs (worse (ch_status h) overall) (rs @ [h])
      | Other \<Rightarrow> None)"

definition readiness :: "system \<Rightarrow> (status \<times> component_health list) option" where
  "readiness s = readiness_loop s HEALTHY []"

definition async_health :: "string \<times> checker \<Rightarrow> component_health" where
  "async_health nc = (case ck_check_async (snd nc) of Result h \<Rightarrow> h | _ \<Rightarrow> result (fst nc) UNHEALTHY)"

definition readiness_async :: "system \<Rightarrow> status \<times> component_health list" where
  "readiness_async s = fold (\<lambda>nc (overall, rs). let h = async_health nc in (worse (ch_status h) overall, rs @ [h])) s (HEALTHY, [])"

definition get_health_system :: "check_result \<Rightarrow> check_result \<Rightarrow> check_result \<Rightarrow> system" where
  "get_health_system db llm sandbox =
     register_checker ''sandbox'' (default_async sandbox) (register_checker ''llm'' (default_async llm)
       (register_checker ''database'' (default_async db) []))"

section \<open>The probes\<close>

lemma worse_min: "worse a b = min a b"
  by (cases a; cases b) (simp_all add: worse_def min_def less_eq_status_def less_status_def)

lemma status_bounds [simp]: "s \<le> HEALTHY" "min s HEALTHY = s" "min HEALTHY s = s"
  by (cases s; simp add: min_def less_eq_status_def less_status_def)+

lemma async_loop:
  "fold (\<lambda>nc (overall, rs). let h = async_health nc in (worse (ch_status h) overall, rs @ [h])) s (overall, rs) =
    (Min (insert overall (ch_status ` async_health ` set s)), rs @ map async_health s)"
proof (induction s arbitrary: overall rs)
  case (Cons nc s)
  have "Min (insert (min a b) X) = Min (insert b (insert a X))" if "finite X" for a b and X :: "status set"
    using that by (cases "X = {}") (simp_all add: ac_simps)
  with Cons show ?case by (simp add: Let_def worse_min)
qed simp

text \<open>The async probe reports the result of every checker in the order of registration, and the worst of them as the whole.\<close>

theorem readiness_async_worst:
  "readiness_async s = (Min (insert HEALTHY (ch_status ` async_health ` set s)), map async_health s)"
  by (simp add: readiness_async_def async_loop)

lemma sync_loop:
  assumes "\<forall>(n, c) \<in> set s. ck_check c \<noteq> Other \<and> ck_check_async c = ck_check c"
  shows "readiness_loop s overall rs = Some (fold (\<lambda>nc (overall, rs). let h = async_health nc in (worse (ch_status h) overall, rs @ [h])) s (overall, rs))"
  using assms
  by (induction s overall rs rule: readiness_loop.induct) (auto simp: async_health_def Let_def split: check_result.split)

text \<open>Both probes agree while the checkers keep the default \<open>check_async\<close> and give results; a checker that gives something
  else is unhealthy for the async probe and makes the other one raise.\<close>

theorem probes_agree:
  "(\<forall>(n, c) \<in> set s. ck_check c \<noteq> Other \<and> ck_check_async c = ck_check c) \<Longrightarrow> readiness s = Some (readiness_async s)"
  "(n, c) \<in> set s \<Longrightarrow> ck_check c = Other \<Longrightarrow> readiness s = None"
proof -
  show "readiness s = Some (readiness_async s)" if "\<forall>(n, c) \<in> set s. ck_check c \<noteq> Other \<and> ck_check_async c = ck_check c"
    unfolding readiness_def readiness_async_def by (rule sync_loop [OF that])
  have "readiness_loop s overall rs = None" if "(n, c) \<in> set s" "ck_check c = Other" for overall rs
    using that by (induction s overall rs rule: readiness_loop.induct) (auto simp: Let_def split: check_result.split)
  then show "(n, c) \<in> set s \<Longrightarrow> ck_check c = Other \<Longrightarrow> readiness s = None" by (simp add: readiness_def)
qed

theorem probes_agree_witness:
  "readiness (get_health_system Raised (Result (llm_check None False False False)) (Result (sandbox_check (Inr [''docker''])))) =
   Some (readiness_async (get_health_system Raised (Result (llm_check None False False False)) (Result (sandbox_check (Inr [''docker''])))))"
  by (rule probes_agree(1)) (simp add: get_health_system_def register_checker_def default_async_def)

text \<open>Asked inside an event loop, the check of the language model is degraded even when the model answers.\<close>

theorem api_check_fails_in_event_loop:
  assumes "lc_provider c \<noteq> ''mock''" "lc_has_api_key c"
  shows "ch_status (llm_check (Some c) True True True) = DEGRADED" "ch_status (llm_check (Some c) True False True) = HEALTHY"
  using assms by (simp_all add: llm_check_def result_def api_call_succeeds_def)

text \<open>The system as it is built is ready only with a database, a configured model and a sandbox; with the mock model of the
  default configuration it never is.\<close>

theorem default_system_ready_iff:
  "fst (readiness_async (get_health_system (Result (database_check db)) (Result (llm_check cfg perform in_loop answers)) (Result (sandbox_check bs)))) = HEALTHY
   \<longleftrightarrow> db \<and> ch_status (llm_check cfg perform in_loop answers) = HEALTHY \<and> (\<exists>b xs. bs = Inr (b # xs))"
proof -
  have "Min (insert HEALTHY {a, b, c}) = HEALTHY \<longleftrightarrow> a = HEALTHY \<and> b = HEALTHY \<and> c = HEALTHY" for a b c
    by (cases a; cases b; cases c) (simp_all add: min_def less_eq_status_def less_status_def)
  then show ?thesis
    by (simp add: readiness_async_worst get_health_system_def register_checker_def default_async_def async_health_def)
       (auto simp: database_check_def sandbox_check_def result_def split: sum.split list.splits, metis list.exhaust)
qed

end
