(* ===== verification/Events.thy ===== *)
theory Events
  imports Json Event_Log "HOL-Library.List_Lexorder" "HOL-Library.Char_ord" "HOL-Library.Monad_Syntax"
begin

text \<open>
  \<open>app/events/types.py\<close>, \<open>serialization.py\<close> and \<open>base.py\<close>: the seventeen kinds of event, their JSON text and
  back, batches of one event per line, and the conversion of events to messages for the language model.
  What pydantic does to a field is in the record \<open>pydantic\<close>: the text of a time stamp, the values it reads as
  a time, a number or a truth value, and the fresh values of the default factories.  The theorem
  \<open>event_round_trip\<close> gives the event log its codec.
\<close>

section \<open>Events\<close>

datatype source = Agent | User | Environment | Hook

datatype role = User_Role | Assistant_Role

record tool_call =
  tc_id :: string
  tc_name :: string
  tc_arguments :: string

datatype body =
  SystemPromptEvent "string option" string
| MessageEvent "string option" string role
| ActionEvent "string option" tool_call "string option"
| ObservationEvent "string option" string string string bool int
| UserRejectObservation "string option" string string string
| CondensationEvent "string list" string
| CondensationRequestEvent int int
| AgentErrorEvent string string
| TokenEvent int int int string
| InterruptEvent string
| PauseEvent string
| ConversationErrorEvent string
| ConversationStateUpdateEvent string string
| LLMCompletionLogEvent string int string string int
| HookExecutionEvent string string bool int
| StreamingDeltaEvent string string
| ResumeTranscriptEvent string string

record 't event =
  ev_id :: string
  ev_timestamp :: 't
  ev_source :: source
  ev_body :: body

fun source_name :: "source \<Rightarrow> string" where
  "source_name Agent = ''agent''"
| "source_name User = ''user''"
| "source_name Environment = ''environment''"
| "source_name Hook = ''hook''"

fun role_name :: "role \<Rightarrow> string" where
  "role_name User_Role = ''user''"
| "role_name Assistant_Role = ''assistant''"

fun kind :: "body \<Rightarrow> string" where
  "kind (SystemPromptEvent _ _) = ''system_prompt''"
| "kind (MessageEvent _ _ _) = ''message''"
| "kind (ActionEvent _ _ _) = ''action''"
| "kind (ObservationEvent _ _ _ _ _ _) = ''observation''"
| "kind (UserRejectObservation _ _ _ _) = ''user_reject_observation''"
| "kind (CondensationEvent _ _) = ''condensation''"
| "kind (CondensationRequestEvent _ _) = ''condensation_request''"
| "kind (AgentErrorEvent _ _) = ''agent_error''"
| "kind (TokenEvent _ _ _ _) = ''token''"
| "kind (InterruptEvent _) = ''interrupt''"
| "kind (PauseEvent _) = ''pause''"
| "kind (ConversationErrorEvent _) = ''conversation_error''"
| "kind (ConversationStateUpdateEvent _ _) = ''conversation_state_update''"
| "kind (LLMCompletionLogEvent _ _ _ _ _) = ''llm_completion_log''"
| "kind (HookExecutionEvent _ _ _ _) = ''hook_execution''"
| "kind (StreamingDeltaEvent _ _) = ''streaming_delta''"
| "kind (ResumeTranscriptEvent _ _) = ''resume_transcript''"

section \<open>Serialization\<close>

definition opt_str :: "string option \<Rightarrow> json" where
  "opt_str x = (case x of None \<Rightarrow> JNull | Some s \<Rightarrow> JStr s)"

definition dump_call :: "tool_call \<Rightarrow> json" where
  "dump_call c = JObj [(''id'', JStr (tc_id c)), (''type'', JStr ''function''),
     (''function'', JObj [(''name'', JStr (tc_name c)), (''arguments'', JStr (tc_arguments c))])]"

text \<open>The fields of each class after \<open>id\<close>, \<open>timestamp\<close>, \<open>source\<close> and \<open>kind\<close>.\<close>

fun body_fields :: "body \<Rightarrow> jdict" where
  "body_fields (SystemPromptEvent r c) = [(''llm_response_id'', opt_str r), (''content'', JStr c)]"
| "body_fields (MessageEvent r c ro) =
     [(''llm_response_id'', opt_str r), (''content'', JStr c), (''role'', JStr (role_name ro))]"
| "body_fields (ActionEvent r t c) =
     [(''llm_response_id'', opt_str r), (''tool_call'', dump_call t), (''content'', opt_str c)]"
| "body_fields (ObservationEvent r i n c ok ms) =
     [(''llm_response_id'', opt_str r), (''tool_call_id'', JStr i), (''tool_name'', JStr n), (''content'', JStr c),
      (''success'', JBool ok), (''duration_ms'', JInt ms)]"
| "body_fields (UserRejectObservation r i n why) =
     [(''llm_response_id'', opt_str r), (''tool_call_id'', JStr i), (''tool_name'', JStr n), (''reason'', JStr why)]"
| "body_fields (CondensationEvent ids s) = [(''forgotten_event_ids'', JArr (map JStr ids)), (''summary'', JStr s)]"
| "body_fields (CondensationRequestEvent n m) = [(''current_token_count'', JInt n), (''max_token_count'', JInt m)]"
| "body_fields (AgentErrorEvent e t) = [(''error'', JStr e), (''error_type'', JStr t)]"
| "body_fields (TokenEvent p c t m) =
     [(''prompt_tokens'', JInt p), (''completion_tokens'', JInt c), (''total_tokens'', JInt t), (''model'', JStr m)]"
| "body_fields (InterruptEvent why) = [(''reason'', JStr why)]"
| "body_fields (PauseEvent why) = [(''reason'', JStr why)]"
| "body_fields (ConversationErrorEvent e) = [(''error'', JStr e)]"
| "body_fields (ConversationStateUpdateEvent a b) = [(''old_state'', JStr a), (''new_state'', JStr b)]"
| "body_fields (LLMCompletionLogEvent m n i f ms) =
     [(''model'', JStr m), (''prompt_messages'', JInt n), (''completion_id'', JStr i), (''finish_reason'', JStr f),
      (''latency_ms'', JInt ms)]"
| "body_fields (HookExecutionEvent h t ok ms) =
     [(''hook_name'', JStr h), (''trigger'', JStr t), (''success'', JBool ok), (''duration_ms'', JInt ms)]"
| "body_fields (StreamingDeltaEvent x i) = [(''delta'', JStr x), (''completion_id'', JStr i)]"
| "body_fields (ResumeTranscriptEvent i why) = [(''pause_event_id'', JStr i), (''reason'', JStr why)]"

definition serialize_to_dict :: "('t \<Rightarrow> string) \<Rightarrow> 't event \<Rightarrow> jdict" where
  "serialize_to_dict show_time e =
     [(''id'', JStr (ev_id e)), (''timestamp'', JStr (show_time (ev_timestamp e))),
      (''source'', JStr (source_name (ev_source e))), (''kind'', JStr (kind (ev_body e)))] @ body_fields (ev_body e)"

text \<open>\<open>json.dumps(..., sort_keys=True)\<close>.\<close>

fun sort_keys :: "json \<Rightarrow> json" where
  "sort_keys (JObj kvs) = JObj (sort_key fst (map (\<lambda>(k, v). (k, sort_keys v)) kvs))"
| "sort_keys (JArr xs) = JArr (map sort_keys xs)"
| "sort_keys j = j"

definition serialize :: "('t \<Rightarrow> string) \<Rightarrow> 't event \<Rightarrow> string" where
  "serialize show_time e = dumps (sort_keys (JObj (serialize_to_dict show_time e)))"

definition serialize_batch :: "('t \<Rightarrow> string) \<Rightarrow> 't event list \<Rightarrow> string" where
  "serialize_batch show_time es =
     (if es \<noteq> [] then join newline (map (serialize show_time) es) @ newline else [])"

section \<open>Validation\<close>

record 't pydantic =
  pd_show :: "'t \<Rightarrow> string"
  pd_time :: "json \<Rightarrow> 't option"
  pd_int :: "json \<Rightarrow> int option"
  pd_bool :: "json \<Rightarrow> bool option"
  pd_now :: 't
  pd_uuid :: "nat \<Rightarrow> string"

definition pydantic_ok :: "'t pydantic \<Rightarrow> bool" where
  "pydantic_ok P \<longleftrightarrow> (\<forall>t. pd_time P (JStr (pd_show P t)) = Some t) \<and> (\<forall>i. pd_int P (JInt i) = Some i) \<and>
     (\<forall>b. pd_bool P (JBool b) = Some b)"

definition as_str :: "json \<Rightarrow> string option" where
  "as_str j = (case j of JStr s \<Rightarrow> Some s | _ \<Rightarrow> None)"

definition as_opt_str :: "json \<Rightarrow> string option option" where
  "as_opt_str j = (case j of JNull \<Rightarrow> Some None | _ \<Rightarrow> map_option Some (as_str j))"

definition as_str_list :: "json \<Rightarrow> string list option" where
  "as_str_list j = (case j of JArr xs \<Rightarrow> those (map as_str xs) | _ \<Rightarrow> None)"

definition as_literal :: "('a \<Rightarrow> string) \<Rightarrow> 'a list \<Rightarrow> json \<Rightarrow> 'a option" where
  "as_literal name vs j = (case as_str j of None \<Rightarrow> None | Some s \<Rightarrow> find (\<lambda>v. name v = s) vs)"

text \<open>A required field and one with a default value.\<close>

definition required :: "(json \<Rightarrow> 'a option) \<Rightarrow> string \<Rightarrow> jdict \<Rightarrow> 'a option" where
  "required f k d = (case map_of d k of None \<Rightarrow> None | Some j \<Rightarrow> f j)"

definition field :: "(json \<Rightarrow> 'a option) \<Rightarrow> 'a \<Rightarrow> string \<Rightarrow> jdict \<Rightarrow> 'a option" where
  "field f dflt k d = (case map_of d k of None \<Rightarrow> Some dflt | Some j \<Rightarrow> f j)"

definition as_function :: "json \<Rightarrow> (string \<times> string) option" where
  "as_function j =
     (case j of
        JObj d \<Rightarrow> do { n \<leftarrow> required as_str ''name'' d; a \<leftarrow> required as_str ''arguments'' d; Some (n, a) }
      | _ \<Rightarrow> None)"

definition as_call :: "'t pydantic \<Rightarrow> json \<Rightarrow> tool_call option" where
  "as_call P j =
     (case j of
        JObj d \<Rightarrow>
          do { i \<leftarrow> field as_str (''call_'' @ take 8 (pd_uuid P 1)) ''id'' d;
               field (as_literal id [''function'']) ''function'' ''type'' d;
               (n, a) \<leftarrow> required as_function ''function'' d;
               Some \<lparr>tc_id = i, tc_name = n, tc_arguments = a\<rparr> }
      | _ \<Rightarrow> None)"

abbreviation response_id :: "jdict \<Rightarrow> string option option" where
  "response_id \<equiv> field as_opt_str None ''llm_response_id''"

text \<open>\<open>KIND_TO_EVENT\<close>: a class is its default source and the validation of its own fields.\<close>

type_synonym event_class = "source \<times> (jdict \<Rightarrow> body option)"

definition KIND_TO_EVENT :: "'t pydantic \<Rightarrow> (string \<times> event_class) list" where
  "KIND_TO_EVENT P =
     [(''system_prompt'', (Agent, \<lambda>d. do {
         r \<leftarrow> response_id d; c \<leftarrow> required as_str ''content'' d; Some (SystemPromptEvent r c) })),
      (''message'', (User, \<lambda>d. do {
         r \<leftarrow> response_id d; c \<leftarrow> required as_str ''content'' d;
         ro \<leftarrow> field (as_literal role_name [User_Role, Assistant_Role]) User_Role ''role'' d; Some (MessageEvent r c ro) })),
      (''action'', (Agent, \<lambda>d. do {
         r \<leftarrow> response_id d; t \<leftarrow> required (as_call P) ''tool_call'' d;
         c \<leftarrow> field as_opt_str None ''content'' d; Some (ActionEvent r t c) })),
      (''observation'', (Environment, \<lambda>d. do {
         r \<leftarrow> response_id d; i \<leftarrow> required as_str ''tool_call_id'' d; n \<leftarrow> required as_str ''tool_name'' d;
         c \<leftarrow> required as_str ''content'' d; ok \<leftarrow> field (pd_bool P) True ''success'' d;
         ms \<leftarrow> field (pd_int P) 0 ''duration_ms'' d; Some (ObservationEvent r i n c ok ms) })),
      (''user_reject_observation'', (User, \<lambda>d. do {
         r \<leftarrow> response_id d; i \<leftarrow> required as_str ''tool_call_id'' d; n \<leftarrow> required as_str ''tool_name'' d;
         why \<leftarrow> field as_str ''User rejected the tool result.'' ''reason'' d;
         Some (UserRejectObservation r i n why) })),
      (''condensation'', (Agent, \<lambda>d. do {
         ids \<leftarrow> field as_str_list [] ''forgotten_event_ids'' d; s \<leftarrow> field as_str [] ''summary'' d;
         Some (CondensationEvent ids s) })),
      (''condensation_request'', (Agent, \<lambda>d. do {
         n \<leftarrow> field (pd_int P) 0 ''current_token_count'' d; m \<leftarrow> field (pd_int P) 0 ''max_token_count'' d;
         Some (CondensationRequestEvent n m) })),
      (''agent_error'', (Agent, \<lambda>d. do {
         e \<leftarrow> required as_str ''error'' d; t \<leftarrow> field as_str ''RuntimeError'' ''error_type'' d;
         Some (AgentErrorEvent e t) })),
      (''token'', (Agent, \<lambda>d. do {
         p \<leftarrow> field (pd_int P) 0 ''prompt_tokens'' d; c \<leftarrow> field (pd_int P) 0 ''completion_tokens'' d;
         t \<leftarrow> field (pd_int P) 0 ''total_tokens'' d; m \<leftarrow> field as_str [] ''model'' d; Some (TokenEvent p c t m) })),
      (''interrupt'', (User, \<lambda>d. do {
         why \<leftarrow> field as_str ''Interrupted by user.'' ''reason'' d; Some (InterruptEvent why) })),
      (''pause'', (User, \<lambda>d. do { why \<leftarrow> field as_str ''Paused by user.'' ''reason'' d; Some (PauseEvent why) })),
      (''conversation_error'', (Agent, \<lambda>d. do { e \<leftarrow> required as_str ''error'' d; Some (ConversationErrorEvent e) })),
      (''conversation_state_update'', (Agent, \<lambda>d. do {
         a \<leftarrow> field as_str ''IDLE'' ''old_state'' d; b \<leftarrow> field as_str ''RUNNING'' ''new_state'' d;
         Some (ConversationStateUpdateEvent a b) })),
      (''llm_completion_log'', (Agent, \<lambda>d. do {
         m \<leftarrow> field as_str [] ''model'' d; n \<leftarrow> field (pd_int P) 0 ''prompt_messages'' d;
         i \<leftarrow> field as_str [] ''completion_id'' d; f \<leftarrow> field as_str [] ''finish_reason'' d;
         ms \<leftarrow> field (pd_int P) 0 ''latency_ms'' d; Some (LLMCompletionLogEvent m n i f ms) })),
      (''hook_execution'', (Hook, \<lambda>d. do {
         h \<leftarrow> required as_str ''hook_name'' d; t \<leftarrow> required as_str ''trigger'' d;
         ok \<leftarrow> field (pd_bool P) True ''success'' d; ms \<leftarrow> field (pd_int P) 0 ''duration_ms'' d;
         Some (HookExecutionEvent h t ok ms) })),
      (''streaming_delta'', (Agent, \<lambda>d. do {
         x \<leftarrow> required as_str ''delta'' d; i \<leftarrow> field as_str [] ''completion_id'' d; Some (StreamingDeltaEvent x i) })),
      (''resume_transcript'', (User, \<lambda>d. do {
         i \<leftarrow> field as_str [] ''pause_event_id'' d; why \<leftarrow> field as_str ''Resumed by user.'' ''reason'' d;
         Some (ResumeTranscriptEvent i why) }))]"

definition model_validate :: "'t pydantic \<Rightarrow> event_class \<Rightarrow> jdict \<Rightarrow> 't event option" where
  "model_validate P c d =
     do { i \<leftarrow> field as_str (pd_uuid P 0) ''id'' d;
          t \<leftarrow> field (pd_time P) (pd_now P) ''timestamp'' d;
          s \<leftarrow> field (as_literal source_name [Agent, User, Environment, Hook]) (fst c) ''source'' d;
          b \<leftarrow> snd c d;
          Some \<lparr>ev_id = i, ev_timestamp = t, ev_source = s, ev_body = b\<rparr> }"

section \<open>Deserialization\<close>

datatype raw = Text string | Bytes string | Dict jdict | Other

datatype event_error = Deserialization_Error | Unicode_Decode_Error | Attribute_Error | Type_Error

definition parse_text :: "string \<Rightarrow> event_error + json" where
  "parse_text s = (case loads s of None \<Rightarrow> Inl Deserialization_Error | Some j \<Rightarrow> Inr j)"

definition raw_data :: "(string \<Rightarrow> string option) \<Rightarrow> raw \<Rightarrow> event_error + json" where
  "raw_data decode raw =
     (case raw of
        Text s \<Rightarrow> parse_text s
      | Bytes b \<Rightarrow> (case decode b of None \<Rightarrow> Inl Unicode_Decode_Error | Some s \<Rightarrow> parse_text s)
      | Dict d \<Rightarrow> Inr (JObj d)
      | Other \<Rightarrow> Inl Deserialization_Error)"

text \<open>Looking up a kind that is a list or a dict raises TypeError: it cannot be hashed.\<close>

definition dispatch :: "'t pydantic \<Rightarrow> jdict \<Rightarrow> event_error + 't event" where
  "dispatch P d =
     (case jget ''kind'' d JNull of
        JStr k \<Rightarrow>
          (case map_of (KIND_TO_EVENT P) k of
             None \<Rightarrow> Inl Deserialization_Error
           | Some c \<Rightarrow> (case model_validate P c d of None \<Rightarrow> Inl Deserialization_Error | Some e \<Rightarrow> Inr e))
      | JArr _ \<Rightarrow> Inl Type_Error
      | JObj _ \<Rightarrow> Inl Type_Error
      | _ \<Rightarrow> Inl Deserialization_Error)"

definition deserialize :: "'t pydantic \<Rightarrow> (string \<Rightarrow> string option) \<Rightarrow> raw \<Rightarrow> event_error + 't event" where
  "deserialize P decode raw =
     (case raw_data decode raw of
        Inl err \<Rightarrow> Inl err
      | Inr (JObj d) \<Rightarrow> dispatch P d
      | Inr _ \<Rightarrow> Inl Attribute_Error)"

text \<open>The result of the rest of a loop, after the values already appended.\<close>

definition prepend :: "'a list \<Rightarrow> 'e + 'a list \<Rightarrow> 'e + 'a list" where
  "prepend xs r = (case r of Inl e \<Rightarrow> Inl e | Inr ys \<Rightarrow> Inr (xs @ ys))"

lemma prepend_simps [simp]:
  "prepend xs (Inl e) = Inl e" "prepend xs (Inr ys) = Inr (xs @ ys)" "prepend [] r = r"
  "prepend xs (prepend ys r) = prepend (xs @ ys) r"
  by (simp_all add: prepend_def split: sum.splits)

fun read_events :: "'t pydantic \<Rightarrow> (string \<Rightarrow> string option) \<Rightarrow> string list \<Rightarrow> event_error + 't event list" where
  "read_events P decode [] = Inr []"
| "read_events P decode (l # ls) =
     (if strip l = [] then read_events P decode ls
      else case deserialize P decode (Text (strip l)) of
             Inr e \<Rightarrow> prepend [e] (read_events P decode ls)
           | Inl err \<Rightarrow> if err = Deserialization_Error then read_events P decode ls else Inl err)"

definition deserialize_batch :: "'t pydantic \<Rightarrow> (string \<Rightarrow> string option) \<Rightarrow> raw \<Rightarrow> event_error + 't event list" where
  "deserialize_batch P decode raw =
     (case raw of
        Text s \<Rightarrow> read_events P decode (split_lines s)
      | Bytes b \<Rightarrow> (case decode b of None \<Rightarrow> Inl Deserialization_Error | Some s \<Rightarrow> read_events P decode (split_lines s))
      | _ \<Rightarrow> Inl Attribute_Error)"


section \<open>Messages for the language model\<close>

fun call_json :: "tool_call \<Rightarrow> json" where
  "call_json c = JObj [(''id'', JStr (tc_id c)), (''type'', JStr ''function''),
     (''function'', JObj [(''name'', JStr (tc_name c)), (''arguments'', JStr (tc_arguments c))])]"

text \<open>\<open>to_llm_message()\<close>; the classes that are not convertible have no such method.\<close>

fun to_llm_message :: "body \<Rightarrow> jdict option" where
  "to_llm_message (SystemPromptEvent r c) = Some [(''role'', JStr ''system''), (''content'', JStr c)]"
| "to_llm_message (MessageEvent r c ro) = Some [(''role'', JStr (role_name ro)), (''content'', JStr c)]"
| "to_llm_message (ActionEvent r t c) =
     Some [(''role'', JStr ''assistant''), (''content'', opt_str c), (''tool_calls'', JArr [call_json t])]"
| "to_llm_message (ObservationEvent r i n c ok ms) =
     Some [(''role'', JStr ''tool''), (''tool_call_id'', JStr i), (''content'', JStr c), (''name'', JStr n)]"
| "to_llm_message (UserRejectObservation r i n why) =
     Some [(''role'', JStr ''tool''), (''tool_call_id'', JStr i), (''content'', JStr (''REJECTED: '' @ why)),
           (''name'', JStr n)]"
| "to_llm_message _ = None"

definition llm_convertible :: "body \<Rightarrow> bool" where
  "llm_convertible b \<longleftrightarrow> to_llm_message b \<noteq> None"

definition calls_of :: "jdict \<Rightarrow> json list" where
  "calls_of m = (case jget ''tool_calls'' m JNull of JArr xs \<Rightarrow> xs | _ \<Rightarrow> [])"

text \<open>The response an action belongs to, if it is one with a response id.\<close>

fun batch_id :: "body \<Rightarrow> string option" where
  "batch_id (ActionEvent r _ _) = r"
| "batch_id _ = None"

definition merge_actions :: "body list \<Rightarrow> jdict" where
  "merge_actions batch =
     (let msgs = map (\<lambda>b. the (to_llm_message b)) batch;
          tcs = concat (map calls_of msgs);
          content = (case find (\<lambda>j. \<not> falsy j) (map (\<lambda>m. jget ''content'' m JNull) msgs) of
                       None \<Rightarrow> JNull | Some j \<Rightarrow> j)
      in [(''role'', JStr ''assistant''), (''content'', content)] @ (if tcs \<noteq> [] then [(''tool_calls'', JArr tcs)] else []))"

function bodies_to_messages :: "body list \<Rightarrow> event_error + jdict list" where
  "bodies_to_messages [] = Inr []"
| "bodies_to_messages (b # bs) =
     (case batch_id b of
        Some rid \<Rightarrow>
          prepend [merge_actions (b # takeWhile (\<lambda>x. batch_id x = Some rid) bs)]
            (bodies_to_messages (dropWhile (\<lambda>x. batch_id x = Some rid) bs))
      | None \<Rightarrow>
          (case to_llm_message b of
             None \<Rightarrow> Inl Attribute_Error
           | Some m \<Rightarrow> prepend [m] (bodies_to_messages bs)))"
  by pat_completeness auto

termination by (relation "measure length") (auto simp: length_dropWhile_le le_imp_less_Suc)

definition events_to_messages :: "'t event list \<Rightarrow> event_error + jdict list" where
  "events_to_messages es = bodies_to_messages (map ev_body es)"

section \<open>Sorted keys\<close>

definition sort_dict :: "jdict \<Rightarrow> jdict" where
  "sort_dict d = sort_key fst (map (\<lambda>(k, v). (k, sort_keys v)) d)"

lemma sort_keys_JObj [simp]: "sort_keys (JObj d) = JObj (sort_dict d)"
  by (simp add: sort_dict_def)

declare sort_keys.simps(1) [simp del]

lemma fst_sorted: "mset (map fst (sort_dict d)) = mset (map fst d)"
proof -
  have "mset (map fst (sort_dict d)) = image_mset fst (mset (map (\<lambda>(k, v). (k, sort_keys v)) d))"
    by (simp only: mset_map sort_dict_def mset_sort)
  also have "\<dots> = mset (map fst d)" by (simp add: image_mset.compositionality comp_def case_prod_unfold)
  finally show ?thesis .
qed

lemma distinct_sorted [simp]: "distinct (map fst (sort_dict d)) \<longleftrightarrow> distinct (map fst d)"
  using fst_sorted by (metis mset_eq_imp_distinct_iff)

lemma set_sorted: "set (sort_dict d) = (\<lambda>(k, v). (k, sort_keys v)) ` set d"
  by (simp add: sort_dict_def)

lemma map_of_sort_dict: "distinct (map fst d) \<Longrightarrow> map_of (sort_dict d) k = map_option sort_keys (map_of d k)"
proof -
  assume d: "distinct (map fst d)"
  let ?d = "map (\<lambda>(k, v). (k, sort_keys v)) d"
  have "map fst ?d = map fst d" by (induction d) auto
  hence "distinct (map fst ?d)" using d by (simp only:)
  moreover have "distinct (map fst (sort_dict d))" using d by simp
  moreover have "set (sort_dict d) = set ?d" by (simp add: set_sorted)
  ultimately have "map_of (sort_dict d) = map_of ?d" by (metis map_of_inject_set)
  moreover have "map_of ?d k = map_option sort_keys (map_of d k)" by (induction d) auto
  ultimately show ?thesis by simp
qed

lemma sort_keys_ok: "json_ok j \<Longrightarrow> json_ok (sort_keys j)"
proof (induction j rule: sort_keys.induct)
  case (1 d)
  thus ?case by (auto simp: set_sorted)
qed auto

section \<open>One event\<close>

lemma dict_keys: "distinct (map fst (serialize_to_dict f e))"
  by (cases "ev_body e") (simp_all add: serialize_to_dict_def)

lemma dict_ok: "json_ok (JObj (serialize_to_dict f e))"
  using dict_keys [of f e]
  by (cases "ev_body e") (auto simp: serialize_to_dict_def opt_str_def dump_call_def split: option.splits)

lemma serialized_ok: "json_ok (sort_keys (JObj (serialize_to_dict f e)))"
  by (rule sort_keys_ok [OF dict_ok])

text \<open>A field of a dict with sorted keys.\<close>

lemma required_sorted:
  "distinct (map fst d) \<Longrightarrow> required f k (sort_dict d) = (case map_of d k of None \<Rightarrow> None | Some j \<Rightarrow> f (sort_keys j))"
  by (simp add: required_def map_of_sort_dict split: option.splits)

lemma field_sorted:
  "distinct (map fst d) \<Longrightarrow> field f x k (sort_dict d) = (case map_of d k of None \<Rightarrow> Some x | Some j \<Rightarrow> f (sort_keys j))"
  by (simp add: field_def map_of_sort_dict split: option.splits)

lemma as_str_simps [simp]: "as_str (JStr s) = Some s"
  by (simp add: as_str_def)

lemma as_opt_str_simps [simp]: "as_opt_str (sort_keys (opt_str r)) = Some r"
  by (simp add: as_opt_str_def opt_str_def split: option.splits)

lemma as_str_list_simps [simp]: "as_str_list (JArr (map (sort_keys \<circ> JStr) xs)) = Some xs"
  by (induction xs) (simp_all add: as_str_list_def)

lemma as_source [simp]: "as_literal source_name [Agent, User, Environment, Hook] (JStr (source_name s)) = Some s"
  by (cases s) (simp_all add: as_literal_def)

lemma as_role [simp]: "as_literal role_name [User_Role, Assistant_Role] (JStr (role_name r)) = Some r"
  by (cases r) (simp_all add: as_literal_def)

lemma as_call_dump [simp]: "as_call P (sort_keys (dump_call c)) = Some c"
  by (simp add: as_call_def dump_call_def as_function_def as_literal_def required_sorted field_sorted)

lemma class_reads_fields:
  assumes "pydantic_ok P"
  shows "\<exists>c. map_of (KIND_TO_EVENT P) (kind (ev_body e)) = Some c \<and>
    snd c (sort_dict (serialize_to_dict (pd_show P) e)) = Some (ev_body e)"
  using assms dict_keys [of "pd_show P" e]
  by (cases "ev_body e")
    (simp_all add: KIND_TO_EVENT_def required_sorted field_sorted pydantic_ok_def, simp_all add: serialize_to_dict_def)

lemma validated:
  assumes "pydantic_ok P" and "snd c (sort_dict (serialize_to_dict (pd_show P) e)) = Some (ev_body e)"
  shows "model_validate P c (sort_dict (serialize_to_dict (pd_show P) e)) = Some e"
  using assms dict_keys [of "pd_show P" e]
  by (simp add: model_validate_def field_sorted) (simp add: serialize_to_dict_def pydantic_ok_def)

lemma kind_sorted: "jget ''kind'' (sort_dict (serialize_to_dict f e)) JNull = JStr (kind (ev_body e))"
  using dict_keys [of f e] by (simp add: jget_def map_of_sort_dict) (simp add: serialize_to_dict_def)

lemma event_round_trip_facts:
  assumes "pydantic_ok P"
  shows "deserialize P decode (Text (serialize (pd_show P) e)) = Inr e"
proof -
  let ?d = "sort_dict (serialize_to_dict (pd_show P) e)"
  obtain c where "map_of (KIND_TO_EVENT P) (kind (ev_body e)) = Some c" "snd c ?d = Some (ev_body e)"
    using class_reads_fields [OF assms] by blast
  hence "dispatch P ?d = Inr e" using validated [OF assms] by (simp add: dispatch_def kind_sorted)
  moreover have "loads (serialize (pd_show P) e) = Some (JObj ?d)"
    using loads_dumps [OF serialized_ok [of "pd_show P" e]] by (simp add: serialize_def)
  ultimately show ?thesis by (simp add: deserialize_def raw_data_def parse_text_def)
qed


section \<open>Lines\<close>

lemma strip_same: "\<not> is_space a \<Longrightarrow> \<not> is_space b \<Longrightarrow> strip (a # x @ [b]) = a # x @ [b]"
  by (simp add: strip_def)

lemma ascii_no_break: "ascii s \<Longrightarrow> c \<in> set s \<Longrightarrow> \<not> is_break c"
  by (auto simp: ascii_def is_break_def)

text \<open>What the event log needs of serialization holds for all events.\<close>

definition read_event :: "'t pydantic \<Rightarrow> (string \<Rightarrow> string option) \<Rightarrow> string \<Rightarrow> 't event option" where
  "read_event P decode s = (case deserialize P decode (Text s) of Inr e \<Rightarrow> Some e | Inl _ \<Rightarrow> None)"

lemma event_codec: "pydantic_ok P \<Longrightarrow> codec_ok (serialize (pd_show P)) (read_event P decode)"
proof -
  assume P: "pydantic_ok P"
  have "serialize (pd_show P) e \<noteq> [] \<and> strip (serialize (pd_show P) e) = serialize (pd_show P) e" for e
    by (simp add: serialize_def strip_same is_space_def)
  moreover have "\<forall>c \<in> set (serialize (pd_show P) e). \<not> is_break c" for e
    using ascii_no_break [OF dumps_ascii [OF serialized_ok [of "pd_show P" e]]] by (simp only: serialize_def) blast
  ultimately show ?thesis
    by (simp add: codec_ok_def read_event_def event_round_trip_facts [OF P])
qed

lemma read_events_append:
  "read_events P decode (xs @ ys) =
     (case read_events P decode xs of Inl err \<Rightarrow> Inl err | Inr es \<Rightarrow> prepend es (read_events P decode ys))"
  by (induction xs) (auto split: sum.splits)

lemma newline_line_feed: "newline = [line_feed]"
  by (simp add: newline_def line_feed_def char_of_def bit_Suc_0_iff)

lemma serialize_batch_text: "serialize_batch f es = text_of (serialize f) es"
proof (cases "es = []")
  case False
  hence "join newline (map (serialize f) es) @ newline = text_of (serialize f) es"
    by (induction es rule: induct_list012) (simp_all add: newline_line_feed)
  thus ?thesis using False by (simp add: serialize_batch_def)
qed (simp add: serialize_batch_def)

lemma split_text: "codec_ok ser des \<Longrightarrow> split_lines (text_of ser es @ t) = map ser es @ split_lines t"
  by (induction es) (simp_all add: codec_ok_def split_lines_line)

lemma read_own_line:
  "pydantic_ok P \<Longrightarrow> read_events P decode (serialize (pd_show P) e # ls) = prepend [e] (read_events P decode ls)"
  using event_codec [of P decode] by (simp add: codec_ok_def event_round_trip_facts)

lemma read_own_lines:
  "pydantic_ok P \<Longrightarrow> read_events P decode (map (serialize (pd_show P)) es @ ls) = prepend es (read_events P decode ls)"
  by (induction es) (simp_all add: read_own_line del: read_events.simps)


section \<open>What serialization keeps\<close>

text \<open>C21: deserializing the text of an event gives the event back: id, time, source and all fields of
  its class.\<close>

theorem event_round_trip:
  assumes "pydantic_ok P"
  shows "deserialize P decode (Text (serialize (pd_show P) e)) = Inr e"
  by (rule event_round_trip_facts [OF assms])

text \<open>C34: a batch of events is read back whole and in order.  A foreign line among them is read as an event,
  skipped when it is blank or is refused with DeserializationError, and any other error loses the whole batch.\<close>

theorem batch_correct:
  assumes "pydantic_ok P" and "\<forall>c \<in> set l. \<not> is_break c"
  shows "deserialize_batch P decode (Text (serialize_batch (pd_show P) es @ l @ newline @ serialize_batch (pd_show P) fs)) =
    (if strip l = [] then Inr (es @ fs)
     else case deserialize P decode (Text (strip l)) of
            Inr e \<Rightarrow> Inr (es @ e # fs)
          | Inl err \<Rightarrow> if err = Deserialization_Error then Inr (es @ fs) else Inl err)"
proof -
  let ?ser = "serialize (pd_show P)"
  have ok: "codec_ok ?ser (read_event P decode)" by (rule event_codec [OF assms(1)])
  have tail: "split_lines (text_of ?ser fs) = map ?ser fs @ [[]]" using split_text [OF ok, of fs "[]"] by simp
  have "split_lines (serialize_batch (pd_show P) es @ l @ newline @ serialize_batch (pd_show P) fs) =
      map ?ser es @ l # map ?ser fs @ [[]]"
    by (simp add: serialize_batch_text split_text [OF ok] newline_line_feed split_lines_line [OF assms(2)] tail)
  moreover have "read_events P decode (map ?ser fs @ [[]]) = Inr fs"
    using read_own_lines [OF assms(1), of decode fs "[[]]"] by (simp add: strip_def)
  ultimately show ?thesis
    by (simp add: deserialize_batch_def read_own_lines [OF assms(1)] split: sum.splits)
qed

text \<open>a line that is JSON but no object, such as \<open>[]\<close>, raises AttributeError: the batch is lost, although
  single errors are said not to abort it.\<close>

theorem non_object_line_aborts_batch:
  assumes "pydantic_ok P" and "\<forall>c \<in> set l. \<not> is_break c" and "loads (strip l) = Some j" and "\<forall>d. j \<noteq> JObj d"
  shows "deserialize_batch P decode (Text (serialize_batch (pd_show P) es @ l @ newline @ serialize_batch (pd_show P) fs)) =
    Inl Attribute_Error"
proof -
  let ?ser = "serialize (pd_show P)"
  have ok: "codec_ok ?ser (read_event P decode)" by (rule event_codec [OF assms(1)])
  have "deserialize P decode (Text (strip l)) = Inl Attribute_Error"
    using assms(3,4) by (cases j) (simp_all add: deserialize_def raw_data_def parse_text_def)
  moreover have "strip l \<noteq> []" using assms(3) by (auto simp: loads_def skip_ws_def p_value.simps)
  ultimately show ?thesis
    by (simp add: deserialize_batch_def serialize_batch_text split_text [OF ok] newline_line_feed
        split_lines_line [OF assms(2)] read_own_lines [OF assms(1)])
qed

text \<open>the event log keeps real events: after appending an event to a log that holds \<open>es\<close>, the log
  opened again from its files reads \<open>es\<close> and the event.\<close>

theorem appended_event_survives:
  assumes "pydantic_ok P" and "represents (serialize (pd_show P)) l es"
  shows "let l' = append (serialize (pd_show P)) e l
    in fst (read_range (read_event P decode) 0 (Suc (length es)) (open_log (el_file l') (el_count_file l'))) = es @ [e]"
proof -
  note ok = event_codec [OF assms(1), of decode]
  let ?l = "append (serialize (pd_show P)) e l"
  have r: "represents (serialize (pd_show P)) ?l (es @ [e])" by (rule append_represents [OF ok assms(2)])
  hence "file_text (open_log (el_file ?l) (el_count_file ?l)) = text_of (serialize (pd_show P)) (es @ [e])"
    by (auto simp: represents_def open_log_def file_text_def)
  from read_range_represents [OF ok this, of 0 "Suc (length es)"] show ?thesis by simp
qed

text \<open>the text of an event does not depend on the order of the fields in its dict.\<close>

theorem sorted_keys_canonical:
  assumes "distinct (map fst d)" and "mset d = mset d'"
  shows "dumps (sort_keys (JObj d)) = dumps (sort_keys (JObj d'))"
proof -
  have "mset (map (\<lambda>(k, v). (k, sort_keys v)) d) = mset (map (\<lambda>(k, v). (k, sort_keys v)) d')"
    using assms(2) by simp
  moreover have "distinct (map fst (sort_dict d))" using assms(1) by simp
  hence "inj_on fst (set (map (\<lambda>(k, v). (k, sort_keys v)) d))"
    by (auto simp: distinct_map set_sorted)
  ultimately have "sort_dict d = sort_dict d'"
    unfolding sort_dict_def by (intro sort_key_inj_key_eq) (simp_all add: sorted_sort_key)
  thus ?thesis by simp
qed


subsection \<open>A concrete pydantic\<close>

definition plain_pydantic :: "nat pydantic" where
  "plain_pydantic = \<lparr>pd_show = show_nat, pd_time = (\<lambda>j. map_option read_nat (as_str j)),
     pd_int = (\<lambda>j. case j of JInt i \<Rightarrow> Some i | _ \<Rightarrow> None), pd_bool = (\<lambda>j. case j of JBool b \<Rightarrow> Some b | _ \<Rightarrow> None),
     pd_now = 0, pd_uuid = (\<lambda>_. ''u'')\<rparr>"

lemma plain_pydantic_ok: "pydantic_ok plain_pydantic"
  by (simp add: pydantic_ok_def plain_pydantic_def)

definition paused :: "nat event" where
  "paused = \<lparr>ev_id = ''e1'', ev_timestamp = 7, ev_source = User, ev_body = PauseEvent ''wait''\<rparr>"

theorem event_round_trip_witness:
  "deserialize plain_pydantic Some (Text (serialize (pd_show plain_pydantic) paused)) = Inr paused"
  by (rule event_round_trip [OF plain_pydantic_ok])

theorem batch_correct_witness:
  "deserialize_batch plain_pydantic Some (Text (serialize_batch (pd_show plain_pydantic) [paused] @ ''{}'' @ newline @
     serialize_batch (pd_show plain_pydantic) [paused])) = Inr [paused, paused]"
proof -
  have "\<forall>c \<in> set ''{}''. \<not> is_break c" by (simp add: is_break_def)
  moreover have "loads (strip ''{}'') = Some (JObj [])" by code_simp
  moreover have "strip ''{}'' \<noteq> []" by code_simp
  ultimately show ?thesis
    using batch_correct [OF plain_pydantic_ok, of "''{}''" Some "[paused]" "[paused]"]
    by (simp add: deserialize_def raw_data_def parse_text_def dispatch_def jget_def)
qed

theorem non_object_line_aborts_batch_witness:
  "deserialize_batch plain_pydantic Some (Text (serialize_batch (pd_show plain_pydantic) [paused] @ ''[]'' @ newline @
     serialize_batch (pd_show plain_pydantic) [paused])) = Inl Attribute_Error"
proof -
  have "\<forall>c \<in> set ''[]''. \<not> is_break c" by (simp add: is_break_def)
  moreover have "loads (strip ''[]'') = Some (JArr [])" by code_simp
  ultimately show ?thesis by (rule non_object_line_aborts_batch [OF plain_pydantic_ok]) simp
qed

theorem appended_event_survives_witness:
  "let l' = append (serialize (pd_show plain_pydantic)) paused (open_log None None)
   in fst (read_range (read_event plain_pydantic Some) 0 1 (open_log (el_file l') (el_count_file l'))) = [paused]"
proof -
  have "represents (serialize (pd_show plain_pydantic)) (open_log None None) []"
    by (simp add: represents_def open_log_def file_text_def)
  from appended_event_survives [OF plain_pydantic_ok this, of paused Some] show ?thesis by simp
qed

theorem sorted_keys_canonical_witness:
  "dumps (sort_keys (JObj [(''b'', JNull), (''a'', JInt 1)])) = dumps (sort_keys (JObj [(''a'', JInt 1), (''b'', JNull)]))"
  by (rule sorted_keys_canonical) (simp_all add: add_mset_commute)


section \<open>Kinds\<close>

lemma class_kind: "map_of (KIND_TO_EVENT P) k = Some c \<Longrightarrow> snd c d = Some b \<Longrightarrow> kind b = k"
  by (auto simp: KIND_TO_EVENT_def bind_eq_Some_conv split: if_splits)

text \<open>an event that was accepted is of the class that its \<open>kind\<close> field names.\<close>

theorem deserialized_kind:
  assumes "deserialize P decode (Dict d) = Inr e"
  shows "jget ''kind'' d JNull = JStr (kind (ev_body e))"
  using assms
  by (auto simp: deserialize_def raw_data_def dispatch_def model_validate_def bind_eq_Some_conv
      split: json.splits option.splits dest: class_kind)

theorem deserialized_kind_witness: "jget ''kind'' [(''kind'', JStr ''pause'')] JNull = JStr ''pause''"
proof -
  have "deserialize plain_pydantic Some (Dict [(''kind'', JStr ''pause'')]) =
      Inr \<lparr>ev_id = ''u'', ev_timestamp = 0, ev_source = User, ev_body = PauseEvent ''Paused by user.''\<rparr>" by code_simp
  from deserialized_kind [OF this] show ?thesis by simp
qed

section \<open>Messages\<close>

definition own_calls :: "body \<Rightarrow> json list" where
  "own_calls b = (case b of ActionEvent r t c \<Rightarrow> [call_json t] | _ \<Rightarrow> [])"

definition the_message :: "body \<Rightarrow> jdict" where
  "the_message b = the (to_llm_message b)"

lemma calls_of_message: "to_llm_message b = Some m \<Longrightarrow> calls_of m = own_calls b"
  by (cases b) (auto simp: calls_of_def own_calls_def jget_def)

lemma batch_convertible: "batch_id b = Some r \<Longrightarrow> to_llm_message b = Some (the_message b) \<and> own_calls b \<noteq> []"
  by (cases b) (simp_all add: the_message_def own_calls_def)

lemma calls_of_fields:
  "calls_of ([(''role'', r), (''content'', c)] @ (if tcs \<noteq> [] then [(''tool_calls'', JArr tcs)] else [])) = tcs"
  by (simp add: calls_of_def jget_def)

lemma calls_of_merge: "calls_of (merge_actions batch) = concat (map (\<lambda>b. calls_of (the_message b)) batch)"
  unfolding merge_actions_def Let_def calls_of_fields the_message_def by (simp add: comp_def)

lemma calls_of_merged:
  assumes "\<forall>b \<in> set batch. batch_id b = Some r" and "batch \<noteq> []"
  shows "calls_of (merge_actions batch) = concat (map own_calls batch) \<and> calls_of (merge_actions batch) \<noteq> []"
proof -
  have "calls_of (the_message b) = own_calls b" if "b \<in> set batch" for b
    using that assms(1) batch_convertible calls_of_message by blast
  hence "calls_of (merge_actions batch) = concat (map own_calls batch)"
    unfolding calls_of_merge by (induction batch) simp_all
  moreover have "concat (map own_calls batch) \<noteq> []" using assms batch_convertible by (cases batch) auto
  ultimately show ?thesis by simp
qed

lemma own_calls_batch: "batch_id b = Some r \<Longrightarrow> filter (\<lambda>b. own_calls b = []) (b # bs) = filter (\<lambda>b. own_calls b = []) bs"
  using batch_convertible by simp

lemma batch_prefix:
  "filter (\<lambda>b. own_calls b = []) bs = filter (\<lambda>b. own_calls b = []) (dropWhile (\<lambda>x. batch_id x = Some r) bs)"
  by (induction bs) (auto dest: batch_convertible)

lemma concat_run: "concat (map f bs) = concat (map f (takeWhile P bs)) @ concat (map f (dropWhile P bs))"
  by (metis concat_append map_append takeWhile_dropWhile_id)

lemma bodies_to_messages_facts:
  "case bodies_to_messages bs of
     Inl err \<Rightarrow> err = Attribute_Error \<and> (\<exists>b \<in> set bs. \<not> llm_convertible b)
   | Inr ms \<Rightarrow> (\<forall>b \<in> set bs. llm_convertible b) \<and> concat (map calls_of ms) = concat (map own_calls bs) \<and>
       filter (\<lambda>m. calls_of m = []) ms = map the_message (filter (\<lambda>b. own_calls b = []) bs)"
proof (induction bs rule: bodies_to_messages.induct)
  case (2 b bs)
  show ?case
  proof (cases "batch_id b")
    case (Some rid)
    let ?run = "takeWhile (\<lambda>x. batch_id x = Some rid) bs"
    let ?rest = "dropWhile (\<lambda>x. batch_id x = Some rid) bs"
    have m: "calls_of (merge_actions (b # ?run)) = concat (map own_calls (b # ?run)) \<and> calls_of (merge_actions (b # ?run)) \<noteq> []"
      by (rule calls_of_merged) (use Some in \<open>auto dest: set_takeWhileD\<close>)
    have conv: "\<forall>x \<in> set (b # ?run). llm_convertible x"
      using Some by (auto dest!: set_takeWhileD batch_convertible simp: llm_convertible_def)
    have sets: "set (b # bs) = set (b # ?run) \<union> set ?rest"
      by (metis Un_insert_left list.simps(15) set_append takeWhile_dropWhile_id)
    show ?thesis
      using 2(2) [OF Some] m conv Some batch_convertible [OF Some] batch_prefix [of bs rid]
        concat_run [of own_calls bs "\<lambda>x. batch_id x = Some rid"]
      by (simp only: sets) (auto split: sum.splits)
  next
    case None
    show ?thesis
      using 2(1) [OF None]
      by (cases "to_llm_message b")
        (auto simp: None llm_convertible_def the_message_def split: sum.splits dest: calls_of_message)
  qed
qed simp


text \<open>C32: the conversion fails exactly when an event is not LLM-convertible; otherwise the tool calls of all
  messages are those of the actions, in order, and every other event gives its own message, in order.\<close>

theorem events_to_messages_correct:
  "case events_to_messages es of
     Inl err \<Rightarrow> err = Attribute_Error \<and> (\<exists>e \<in> set es. \<not> llm_convertible (ev_body e))
   | Inr ms \<Rightarrow> (\<forall>e \<in> set es. llm_convertible (ev_body e)) \<and>
       concat (map calls_of ms) = concat (map (\<lambda>e. own_calls (ev_body e)) es) \<and>
       filter (\<lambda>m. calls_of m = []) ms = map the_message (filter (\<lambda>b. own_calls b = []) (map ev_body es))"
  using bodies_to_messages_facts [of "map ev_body es"]
  by (auto simp: events_to_messages_def comp_def split: sum.splits)

theorem events_to_messages_correct_witness:
  "concat (map calls_of (projr (events_to_messages [\<lparr>ev_id = ''e'', ev_timestamp = 0 :: nat, ev_source = Agent,
     ev_body = ActionEvent (Some ''r'') \<lparr>tc_id = ''c'', tc_name = ''ls'', tc_arguments = ''{}''\<rparr> None\<rparr>]))) =
   [call_json \<lparr>tc_id = ''c'', tc_name = ''ls'', tc_arguments = ''{}''\<rparr>]"
  (is "concat (map calls_of (projr (events_to_messages [?e]))) = _")
proof -
  have "llm_convertible (ev_body ?e)" by (simp add: llm_convertible_def)
  thus ?thesis using events_to_messages_correct [of "[?e]"] by (auto simp: own_calls_def split: sum.splits)
qed

text \<open>the actions of one response, however many, become one assistant message, whatever follows.\<close>

theorem parallel_calls_one_message:
  assumes "batch \<noteq> []" and "\<forall>e \<in> set batch. batch_id (ev_body e) = Some r"
    and "rest = [] \<or> batch_id (ev_body (hd rest)) \<noteq> Some r"
  shows "events_to_messages (batch @ rest) = prepend [merge_actions (map ev_body batch)] (events_to_messages rest)"
proof -
  obtain e es where b: "batch = e # es" using assms(1) by (cases batch) auto
  have all: "\<forall>x \<in> set (map ev_body es). batch_id x = Some r" and "batch_id (ev_body e) = Some r" using assms(2) b by auto
  moreover have "takeWhile (\<lambda>x. batch_id x = Some r) (map ev_body es @ map ev_body rest) = map ev_body es"
    by (rule takeWhile_stop_all [OF all]) (use assms(3) in \<open>cases rest; auto\<close>)
  moreover have "dropWhile (\<lambda>x. batch_id x = Some r) (map ev_body es @ map ev_body rest) = map ev_body rest"
    using all assms(3) by (subst dropWhile_append2) (cases rest; auto)+
  ultimately show ?thesis by (simp add: events_to_messages_def b)
qed

definition act :: "string \<Rightarrow> string \<Rightarrow> nat event" where
  "act r i = \<lparr>ev_id = i, ev_timestamp = 0, ev_source = Agent,
     ev_body = ActionEvent (Some r) \<lparr>tc_id = i, tc_name = ''ls'', tc_arguments = ''{}''\<rparr> None\<rparr>"

theorem parallel_calls_one_message_witness:
  "events_to_messages [act ''r'' ''a'', act ''r'' ''b''] =
     Inr [[(''role'', JStr ''assistant''), (''content'', JNull),
       (''tool_calls'', JArr [call_json \<lparr>tc_id = ''a'', tc_name = ''ls'', tc_arguments = ''{}''\<rparr>,
          call_json \<lparr>tc_id = ''b'', tc_name = ''ls'', tc_arguments = ''{}''\<rparr>])]]"
proof -
  have "events_to_messages ([act ''r'' ''a'', act ''r'' ''b''] @ []) =
      prepend [merge_actions (map ev_body [act ''r'' ''a'', act ''r'' ''b''])] (events_to_messages ([] :: nat event list))"
    using parallel_calls_one_message [of "[act ''r'' ''a'', act ''r'' ''b'']" "''r''" "[]"] by (simp add: act_def)
  moreover have "merge_actions (map ev_body [act ''r'' ''a'', act ''r'' ''b'']) =
      [(''role'', JStr ''assistant''), (''content'', JNull),
       (''tool_calls'', JArr [call_json \<lparr>tc_id = ''a'', tc_name = ''ls'', tc_arguments = ''{}''\<rparr>,
          call_json \<lparr>tc_id = ''b'', tc_name = ''ls'', tc_arguments = ''{}''\<rparr>])]"
    by code_simp
  ultimately show ?thesis by (simp add: events_to_messages_def)
qed

text \<open>the role of a message does not depend on its
  source, although the class is documented to map a source agent to the role assistant.\<close>

theorem agent_message_has_role_user:
  "deserialize plain_pydantic Some (Dict [(''kind'', JStr ''message''), (''source'', JStr ''agent''), (''content'', JStr ''done'')]) =
     Inr \<lparr>ev_id = ''u'', ev_timestamp = 0, ev_source = Agent, ev_body = MessageEvent None ''done'' User_Role\<rparr> \<and>
   to_llm_message (MessageEvent None ''done'' User_Role) = Some [(''role'', JStr ''user''), (''content'', JStr ''done'')]"
  by code_simp

end
