(* ===== verification/Spec2Isabelle.thy ===== *)
theory Spec2Isabelle
  imports
    Lock_System Tool_Executor
    Fifo_Lock Async_Fifo_Lock Conversation Stuck_Detector
    Condensers
    Event_Log Task_Queue
    Security_Analysis Agent_Router
    Llm_Retry Model_Fallback Credentials
    Planning_Flow Tool_Calling Hooks Nodes Streaming Orchestrator Secrets_Store File_Store Cron Gateway Webhooks Ciphers Llm_Condenser Llm_Analyzer Llm_Client Metrics Health Events
begin

text \<open>
  A model of the core of ManusClaw (\<open>src/app\<close>), an agent runtime in Python, and the theorems about it.

  \<^bold>\<open>The program.\<close>  A message from a chat platform (\<open>messaging/\<close>), a scheduled job (\<open>cron.py\<close>) or a web
  hook of a git provider (\<open>integrations/webhook_handler.py\<close>) reaches an agent instance that a router keeps
  (\<open>agent/router.py\<close>).  The agent (\<open>agent/base.py\<close> and its subclasses) alternates calls of a language model
  with tool calls until it finishes, gets stuck or runs out of steps; a planning flow (\<open>flow/planning.py\<close>) and
  a pipeline of roles (\<open>agent/orchestrator.py\<close>) drive several agents.  A conversation (\<open>conversation/\<close>) runs
  such a loop under a status machine and a cancellation token, records events (\<open>events/\<close>) in an append-only
  log, redacts registered secrets, and watches for loops.  What the language model sees is a view of the
  events that condensers shorten (\<open>context/\<close>).  The model is reached through clients (\<open>llm/\<close>) with retries,
  fallback models, rotating credentials, streaming and tool calls written in text.  Tool calls run in
  parallel under declared resources and reader/writer locks (\<open>parallel_executor/\<close>); they pass a permission
  gate, hooks, and analyzers that score their risk and may ask for confirmation (\<open>permissions/\<close>, \<open>hooks/\<close>,
  \<open>security/\<close>).  Work that is not interactive goes through a persistent queue (\<open>task_queue.py\<close>).  Stored secrets,
  files, remote devices, metrics and health checks have components of their own.

  \<^bold>\<open>Theories and the code they model.\<close>
  Shared:
  \<^item> \<open>Prelude\<close>: Python values in HOL, slices, insertion-ordered dictionaries, generic lemmas.
  \<^item> \<open>Py_Text\<close>: the methods of \<open>str\<close> that the program uses, and decimal text.
  \<^item> \<open>Json\<close>: \<open>json.loads\<close> and \<open>json.dumps\<close>; the round trip, and that printed values are ASCII text.

  Locks and parallel execution (\<open>parallel_executor/\<close>):
  \<^item> \<open>Declared_Resources\<close>: \<open>ResourceDeclaration\<close>, \<open>DeclaredResources\<close>; the conflict test decides the documented
    relation.
  \<^item> \<open>Resource_Lock\<close>: \<open>_ResourceRWLock\<close> as a record with one function per method.
  \<^item> \<open>Lock_Manager\<close>: \<open>ResourceLockManager\<close> as one thread sees it.  The locale \<open>undoable_lock\<close> states what
    the manager needs of a lock: a release undoes the acquisition.  It is interpreted on the
    reader/writer lock, and the all-or-nothing theorem rests on it.
  \<^item> \<open>Lock_System\<close>: the same calls interleaved over any number of threads, as a step relation with an
    invariant; mutual exclusion and freedom from deadlock.
  \<^item> \<open>Tool_Executor\<close>: scheduling groups, execution and collection of results of both executors.
  \<^item> \<open>Fifo_Lock\<close>, \<open>Async_Fifo_Lock\<close>: \<open>FIFOLock\<close> and \<open>AsyncFIFOLock\<close> as step relations.

  Conversations, events and context:
  \<^item> \<open>Secret_Registry\<close>: \<open>SecretRegistry\<close> (\<open>conversation/state.py\<close>) and what redaction guarantees.
  \<^item> \<open>Conversation\<close>: \<open>CancellationToken\<close>, \<open>ConversationState\<close>, and \<open>run\<close>, \<open>interrupt\<close>, \<open>resume\<close>,
    \<open>send_message\<close> with the hooks of \<open>LocalConversation\<close>, as a step relation over threads.
  \<^item> \<open>Stuck_Detector\<close>: the five patterns of \<open>StuckDetector.analyze\<close>.
  \<^item> \<open>Events\<close>: the classes of \<open>events/types.py\<close>, their JSON text and back (\<open>serialization.py\<close>), batches of lines, and
    \<open>events_to_messages\<close> (\<open>base.py\<close>); it shows that the codec the event log needs exists for these events.
  \<^item> \<open>Event_Log\<close>: \<open>EventLog\<close> on its two files, refined to a list of events.
  \<^item> \<open>View_Properties\<close>: the four structural properties with \<open>check\<close>, \<open>enforce\<close> and \<open>safe_indices\<close>.  The
    locale \<open>view_property\<close> is the contract of the abstract class, interpreted on all four.
  \<^item> \<open>Context_View\<close>: the class \<open>View\<close> with its cache of manipulation indices.
  \<^item> \<open>Condensers\<close>, \<open>Llm_Condenser\<close>: the base, rolling, no-op and pipeline condensers, and the one that
    summarizes with a language model.

  Agents:
  \<^item> \<open>Agent_Memory\<close>: messages and the trimming memory (\<open>schema.py\<close>), task history and the short-term buffer.
  \<^item> \<open>Agent_Loop\<close>: one step of a tool-calling agent: thinking, the permission check of each call, its
    execution and the record of its result.
  \<^item> \<open>Agent_Run\<close>: \<open>BaseAgent.run\<close> around the abstract \<open>step\<close>.  The locale \<open>agent_step\<close> states what \<open>run\<close> relies on;
    it is interpreted on \<open>ToolCallAgent\<close> and \<open>Manus\<close>.
  \<^item> \<open>Agent_Router\<close>: routing rules, the LRU and idle cache, \<open>get_agent\<close>.
  \<^item> \<open>Planning_Flow\<close>: parsing a plan, choosing agents, and the whole flow.  The locale \<open>single_use\<close> (an agent that
    has run refuses to run again) is interpreted on the model of \<open>Manus\<close>.
  \<^item> \<open>Orchestrator\<close>: the dependency sort, the message bus, and the interleaving of the roles.
  \<^item> \<open>Tool_Selector\<close>: the scores that recommend a tool.
  \<^item> \<open>Gateway\<close>: the messaging gateway composed with the cached agents.

  Language models (\<open>llm/\<close>):
  \<^item> \<open>Llm_Client\<close>: time-outs, reading of answers, conversion of messages for each provider, the retry loop.
  \<^item> \<open>Llm_Retry\<close>, \<open>Model_Fallback\<close>, \<open>Credentials\<close>: error classes and back-off, the chain of fallback models
    with cool-downs, credential pools and profile rotation.
  \<^item> \<open>Tool_Calling\<close>: tool calls in text for models without function calling.
  \<^item> \<open>Streaming\<close>: chunks, merged deltas, the bounded pipe between producer and consumer as a step relation,
    and server-sent events.

  Safety and services:
  \<^item> \<open>Permission_Gate\<close>, \<open>Hooks\<close>: the tiers and modes of the gate; the hook registry and its dispatch.
  \<^item> \<open>Security_Analysis\<close>, \<open>Llm_Analyzer\<close>: risks, analyzers, the ensemble, confirmation; the analyzer that
    asks a language model.
  \<^item> \<open>Ciphers\<close>, \<open>Secrets_Store\<close>: the cipher with its rotation; the file store and the registry in front of it.
    The locale \<open>secret_backend\<close> is what the registry needs of a store, interpreted on the file store.
  \<^item> \<open>File_Store\<close>: the interface, the store in memory and the one on disk.  The locale \<open>byte_store\<close> carries the
    streaming methods and is interpreted on both stores.
  \<^item> \<open>Task_Queue\<close>, \<open>Cron\<close>, \<open>Webhooks\<close>, \<open>Nodes\<close>: the queue with its workers, the scheduler and its shared file, web
    hooks from signature to handler, the registry of devices.
  \<^item> \<open>Metrics\<close>, \<open>Health\<close>: counters, histograms, gauges and their lock; liveness and readiness.

  \<^bold>\<open>How state and operations correspond.\<close>  An object is a record with one field per attribute that
  its methods read; a method is a function from the record to its result and the new record; an
  exception is the left side of a sum, or \<open>None\<close> where one exception only is possible.  Code that
  several threads or tasks run is cut at the points where another one can be scheduled (a \<open>with lock\<close>
  block, an \<open>await\<close>), and each piece is a constructor of an \<open>inductive\<close> step relation; invariants are
  proved by rule induction over the reachable states.  A dict is an association list in insertion
  order.  Hash functions, signatures and ciphers of libraries, the coercions of pydantic, regular-expression search, clocks,
  random numbers, the order in which futures complete, what a language model answers and what a tool
  returns are arguments of the definitions; what a theorem needs of them is a named hypothesis
  (\<open>codec_ok\<close>, \<open>pydantic_ok\<close>, \<open>fernet_ok\<close> and others), with a concrete instance in the witness.

  \<^bold>\<open>Groups of lemmas.\<close>  Each theory proves its invariant for every operation, then the behaviour of the
  operations on every branch, then its properties with a witness at a concrete input.  Where the code
  does something else than its comments say, the property states what the code does.

  \<^bold>\<open>Bounds and termination.\<close>  The JSON parser takes a bound on the depth of its calls; \<open>loads\<close> gives it
  \<open>2 * length + 1\<close>, and \<open>loads_fuel\<close> shows that a larger bound changes nothing.  The planning flow takes the
  number of rounds its time limit allows, and its theorems hold for every number.  The two scanning loops of
  the stuck detector are \<open>partial_function (option)\<close>, since they may run for ever, and the theory characterises
  exactly when they return; every other loop is structural or has a termination proof.  Python's integers
  are unbounded; clock readings are numbers.  Text is a list of characters with code points below 256.

  \<^bold>\<open>Not modelled.\<close>  The adapters of the chat platforms, the clients of the git providers and of Slack, Jira and
  Linear with the issue resolver, the object stores S3 and GCS, and the HTTP and WebSocket servers are
  requests to services around third-party packages.  Sandboxes, shells and containers, databases and migrations,
  voice, desktop automation and user interfaces are input and output.  Tools that run commands or browse are
  what a tool returns.  The conversation factory, configuration and command line build objects from files.  Tracing,
  correlation and log formatting, and timings that only feed them, are left out everywhere.  The vector memory
  rests on an embedding library.  \<open>adapter_validate\<close> of the events is the choice of a pydantic union.
\<close>

end
